(* ===== verification/Tux_Prelude.thy ===== *)
theory Tux_Prelude
  imports Main "HOL-Library.Word" "HOL-Library.Monad_Syntax"
begin

text \<open>
  What every theory of the development shares: the integer types of the C code, the error
  numbers, failed assertions, 32- and 64-bit unsigned arithmetic on natural numbers, and a
  disk block as a list of bytes with the C library's \<open>memcpy\<close>, \<open>memmove\<close> and \<open>memset\<close>.

  Conventions. A C \<open>unsigned\<close> or \<open>u64\<close> that is used as a size, an offset or a block number
  is a \<^typ>\<open>nat\<close>; wherever the C arithmetic can wrap, the wrap is written out with
  \<open>wrap32\<close>, \<open>sub32\<close>, \<open>wrap64\<close> or \<open>sub64\<close>. Bytes are \<^typ>\<open>8 word\<close>. A failed
  \<open>assert\<close> ends the program: a function that asserts returns an \<^typ>\<open>'a option\<close>, and
  \<open>None\<close> is the failed assertion. Negative error returns are the left summand of
  \<open>errno + 'a\<close>. A pointer into a block is its byte offset from the start of the block.
\<close>

unbundle bit_operations_syntax

named_theorems mem_simps
  "length, chunk and load laws of byte blocks"

named_theorems wrap_simps
  "unsigned arithmetic that does not wrap"

type_synonym u8 = "8 word"
type_synonym u16 = "16 word"
type_synonym u32 = "32 word"
type_synonym u64 = "64 word"
type_synonym bytes = "u8 list"

datatype errno = EIO | ENOMEM | EINVAL | ENOSPC | EEXIST | ENOATTR | ERANGE | ENOENT | ENOTEMPTY | EPERM
  | EAGAIN | EINTR

section \<open>Assertions and unsigned arithmetic\<close>

definition c_assert :: "bool \<Rightarrow> unit option" where
  "c_assert b = (if b then Some () else None)"

lemma c_assert_True [simp]: "c_assert True = Some ()"
  by (simp add: c_assert_def)

lemma c_assert_False [simp]: "c_assert False = None"
  by (simp add: c_assert_def)

lemma c_assert_eq_Some [simp]: "c_assert b = Some u \<longleftrightarrow> b"
  by (simp add: c_assert_def)

lemma bind_c_assert_eq_Some [simp]: "(c_assert b \<bind> f) = Some r \<longleftrightarrow> b \<and> f () = Some r"
  by (simp add: c_assert_def)

definition wrap32 :: "nat \<Rightarrow> nat" where
  "wrap32 n = n mod 2 ^ 32"

definition wrap64 :: "nat \<Rightarrow> nat" where
  "wrap64 n = n mod 2 ^ 64"

definition sub32 :: "nat \<Rightarrow> nat \<Rightarrow> nat" where
  "sub32 a b = nat ((int a - int b) mod 2 ^ 32)"

definition sub64 :: "nat \<Rightarrow> nat \<Rightarrow> nat" where
  "sub64 a b = nat ((int a - int b) mod 2 ^ 64)"

text \<open>The value of an \<open>int\<close> that is assigned a 32-bit result.\<close>

definition to_int32 :: "int \<Rightarrow> int" where
  "to_int32 i = (i + 2 ^ 31) mod 2 ^ 32 - 2 ^ 31"

lemma to_int32_id [wrap_simps]: "- (2 ^ 31) \<le> i \<Longrightarrow> i < 2 ^ 31 \<Longrightarrow> to_int32 i = i"
  by (simp add: to_int32_def)

lemma wrap32_id [wrap_simps]: "n < 2 ^ 32 \<Longrightarrow> wrap32 n = n"
  by (simp add: wrap32_def)

lemma wrap64_id [wrap_simps]: "n < 2 ^ 64 \<Longrightarrow> wrap64 n = n"
  by (simp add: wrap64_def)

lemma sub32_id [wrap_simps]: "b \<le> a \<Longrightarrow> a < 2 ^ 32 \<Longrightarrow> sub32 a b = a - b"
  by (simp add: sub32_def nat_eq_iff2 of_nat_diff)

lemma sub64_id [wrap_simps]: "b \<le> a \<Longrightarrow> a < 2 ^ 64 \<Longrightarrow> sub64 a b = a - b"
  by (simp add: sub64_def nat_eq_iff2 of_nat_diff)

lemma wrap32_bound [simp]: "wrap32 n < 4294967296"
  by (simp add: wrap32_def)

lemma wrap64_bound [simp]: "wrap64 n < 18446744073709551616"
  by (simp add: wrap64_def)

section \<open>Blocks of bytes\<close>

text \<open>
  \<open>chunk off n xs\<close> reads \<open>n\<close> bytes at \<open>off\<close>; \<open>blit xs off ys\<close> writes \<open>ys\<close> at
  \<open>off\<close>. A \<open>memcpy\<close> between two blocks is a \<open>blit\<close> of a \<open>chunk\<close>, and so is a
  \<open>memmove\<close> inside one block, since the chunk is read before anything is written.
\<close>

definition chunk :: "nat \<Rightarrow> nat \<Rightarrow> 'a list \<Rightarrow> 'a list" where
  "chunk off n xs = take n (drop off xs)"

definition blit :: "'a list \<Rightarrow> nat \<Rightarrow> 'a list \<Rightarrow> 'a list" where
  "blit xs off ys = take off xs @ ys @ drop (off + length ys) xs"

definition memset :: "bytes \<Rightarrow> nat \<Rightarrow> u8 \<Rightarrow> nat \<Rightarrow> bytes" where
  "memset xs off v n = blit xs off (replicate n v)"

definition memmove :: "'a list \<Rightarrow> nat \<Rightarrow> nat \<Rightarrow> nat \<Rightarrow> 'a list" where
  "memmove xs dst src n = blit xs dst (chunk src n xs)"

lemma length_chunk [mem_simps]: "off + n \<le> length xs \<Longrightarrow> length (chunk off n xs) = n"
  by (simp add: chunk_def)

lemma length_chunk_min: "length (chunk off n xs) = min n (length xs - off)"
  by (simp add: chunk_def)

lemma length_blit [mem_simps]: "off + length ys \<le> length xs \<Longrightarrow> length (blit xs off ys) = length xs"
  by (simp add: blit_def)

lemma length_memset [mem_simps]: "off + n \<le> length xs \<Longrightarrow> length (memset xs off v n) = length xs"
  by (simp add: memset_def length_blit)

lemma length_memmove [mem_simps]:
  "dst + n \<le> length xs \<Longrightarrow> src + n \<le> length xs \<Longrightarrow> length (memmove xs dst src n) = length xs"
  by (simp add: memmove_def length_blit length_chunk)

lemma chunk_0 [simp]: "chunk off 0 xs = []"
  by (simp add: chunk_def)

lemma blit_Nil [simp]: "blit xs off [] = xs"
  by (simp add: blit_def)

lemma chunk_all [simp]: "chunk 0 (length xs) xs = xs"
  by (simp add: chunk_def)

lemma nth_chunk [mem_simps]: "i < n \<Longrightarrow> off + n \<le> length xs \<Longrightarrow> chunk off n xs ! i = xs ! (off + i)"
  by (simp add: chunk_def)

lemma nth_blit [mem_simps]:
  assumes "off + length ys \<le> length xs" and "i < length xs"
  shows "blit xs off ys ! i = (if off \<le> i \<and> i < off + length ys then ys ! (i - off) else xs ! i)"
  using assms by (auto simp: blit_def nth_append min_def)

lemma chunk_eqI:
  assumes "off + n \<le> length xs" and "off' + n \<le> length ys"
    and "\<And>i. i < n \<Longrightarrow> xs ! (off + i) = ys ! (off' + i)"
  shows "chunk off n xs = chunk off' n ys"
  using assms by (intro nth_equalityI) (auto simp: chunk_def)

lemma chunk_chunk [mem_simps]:
  "i + m \<le> n \<Longrightarrow> chunk i m (chunk off n xs) = chunk (off + i) m xs"
  by (simp add: chunk_def take_drop min_def add.commute)

lemma chunk_append: "chunk off (m + n) xs = chunk off m xs @ chunk (off + m) n xs"
  by (simp add: chunk_def take_add add.commute)

lemma chunk_blit_same [mem_simps]:
  "off + length ys \<le> length xs \<Longrightarrow> n = length ys \<Longrightarrow> chunk off n (blit xs off ys) = ys"
  by (simp add: chunk_def blit_def)

lemma chunk_blit_within [mem_simps]:
  assumes "off + length ys \<le> length xs" and "off \<le> p" and "p + n \<le> off + length ys"
  shows "chunk p n (blit xs off ys) = chunk (p - off) n ys"
  using assms by (intro chunk_eqI) (auto simp: mem_simps)

lemma chunk_blit_before [mem_simps]:
  assumes "off + length ys \<le> length xs" and "p + n \<le> off"
  shows "chunk p n (blit xs off ys) = chunk p n xs"
  using assms by (intro chunk_eqI) (auto simp: mem_simps)

lemma chunk_blit_after [mem_simps]:
  assumes "off + length ys \<le> length xs" and "off + length ys \<le> p" and "p + n \<le> length xs"
  shows "chunk p n (blit xs off ys) = chunk p n xs"
  using assms by (intro chunk_eqI) (auto simp: mem_simps)

lemma list_eq_by_nth:
  "length xs = length ys \<Longrightarrow> (\<And>i. i < length xs \<Longrightarrow> xs ! i = ys ! i) \<Longrightarrow> xs = ys"
  by (simp add: nth_equalityI)

end
