(* ===== verification/Tux_Bitmap.thy ===== *)
theory Tux_Bitmap
  imports Tux_Prelude
begin

text \<open>
  The bitmap operations of \<open>kernel/utility.c\<close>: setting, clearing and testing a run of bits of
  a little-endian bitmap, with partial first and last bytes and whole bytes between them.
  \<open>bm_bit\<close> is the abstract view, bit \<open>i\<close> of the bitmap; each operation is shown to do to
  the bits what its name says. The locale \<open>bit_run_store\<close> states the contract that the
  allocator relies on.
\<close>

section \<open>The code\<close>

definition left_mask :: "nat \<Rightarrow> u8" where
  "left_mask start = push_bit (start mod 8) (- 1)"

definition right_mask :: "nat \<Rightarrow> u8" where
  "right_mask limit = NOT (push_bit (limit mod 8) (- 1))"

definition set_bits :: "bytes \<Rightarrow> nat \<Rightarrow> nat \<Rightarrow> bytes" where
  "set_bits bitmap start count =
     (let limit = wrap32 (start + count);
          lmask = left_mask start;
          rmask = right_mask limit;
          loff = start div 8; roff = limit div 8
      in if loff = roff then bitmap[loff := bitmap ! loff OR (lmask AND rmask)]
         else
           let bitmap = bitmap[loff := bitmap ! loff OR lmask];
               bitmap = memset bitmap (loff + 1) (- 1) (roff - loff - 1)
           in if rmask \<noteq> 0 then bitmap[roff := bitmap ! roff OR rmask] else bitmap)"

definition clear_bits :: "bytes \<Rightarrow> nat \<Rightarrow> nat \<Rightarrow> bytes" where
  "clear_bits bitmap start count =
     (let limit = wrap32 (start + count);
          lmask = left_mask start;
          rmask = right_mask limit;
          loff = start div 8; roff = limit div 8
      in if loff = roff then bitmap[loff := bitmap ! loff AND (NOT lmask OR NOT rmask)]
         else
           let bitmap = bitmap[loff := bitmap ! loff AND NOT lmask];
               bitmap = memset bitmap (loff + 1) 0 (roff - loff - 1)
           in if rmask \<noteq> 0 then bitmap[roff := bitmap ! roff AND NOT rmask] else bitmap)"

definition all_set :: "bytes \<Rightarrow> nat \<Rightarrow> nat \<Rightarrow> bool" where
  "all_set bitmap start count =
     (let limit = wrap32 (start + count);
          lmask = left_mask start;
          rmask = right_mask limit;
          loff = start div 8; roff = limit div 8
      in if loff = roff then (let mask = lmask AND rmask in bitmap ! loff AND mask = mask)
         else if \<exists>i\<in>set [loff + 1..<roff]. bitmap ! i \<noteq> 255 then False
         else bitmap ! loff AND lmask = lmask
              \<and> (rmask = 0 \<or> bitmap ! roff AND rmask = rmask))"

definition all_clear :: "bytes \<Rightarrow> nat \<Rightarrow> nat \<Rightarrow> bool" where
  "all_clear bitmap start count =
     (let limit = wrap32 (start + count);
          lmask = left_mask start;
          rmask = right_mask limit;
          loff = start div 8; roff = limit div 8
      in if loff = roff then (let mask = lmask AND rmask in bitmap ! loff AND mask = 0)
         else if \<exists>i\<in>set [loff + 1..<roff]. bitmap ! i \<noteq> 0 then False
         else bitmap ! loff AND lmask = 0
              \<and> (rmask = 0 \<or> bitmap ! roff AND rmask = 0))"

text \<open>\<open>for (; c; c >>= 1) count += c & 1\<close>\<close>

function bytebits_loop :: "u8 \<Rightarrow> nat \<Rightarrow> nat" where
  "bytebits_loop c count =
     (if c \<noteq> 0 then bytebits_loop (drop_bit 1 c) (count + unat (c AND 1)) else count)"
  by pat_completeness auto
termination
proof (relation "measure (\<lambda>(c, count). unat c)", goal_cases)
  case (2 c count)
  then have "unat c \<noteq> 0"
    by (simp add: unat_eq_zero)
  then show ?case
    by (simp add: unat_drop_bit_eq drop_bit_eq_div unat_div)
qed simp

declare bytebits_loop.simps [simp del]

definition bytebits :: "u8 \<Rightarrow> nat" where
  "bytebits c = bytebits_loop c 0"

section \<open>Bits of a bitmap\<close>

definition bm_bit :: "bytes \<Rightarrow> nat \<Rightarrow> bool" where
  "bm_bit bm i = bit (bm ! (i div 8)) (i mod 8)"

text \<open>The run \<open>[start, start + count)\<close> lies in the bitmap, and no offset wraps.\<close>

definition bm_range :: "bytes \<Rightarrow> nat \<Rightarrow> nat \<Rightarrow> bool" where
  "bm_range bm start count \<longleftrightarrow> start < 8 * length bm \<and> start + count \<le> 8 * length bm
     \<and> 8 * length bm < 2 ^ 32"

lemma bit_left_mask: "bit (left_mask start) i \<longleftrightarrow> i < 8 \<and> start mod 8 \<le> i"
  by (auto simp: left_mask_def bit_simps)

lemma bit_right_mask: "bit (right_mask limit) i \<longleftrightarrow> i < limit mod 8"
proof -
  have "limit mod 8 < 8" by simp
  then show ?thesis
    by (auto simp: right_mask_def bit_simps)
qed

lemma right_mask_eq_0: "right_mask limit = 0 \<longleftrightarrow> limit mod 8 = 0"
proof
  assume *: "right_mask limit = 0"
  show "limit mod 8 = 0"
  proof (rule ccontr)
    assume "limit mod 8 \<noteq> 0"
    then have "bit (right_mask limit) 0" by (simp add: bit_right_mask)
    with * show False by simp
  qed
next
  assume "limit mod 8 = 0"
  then show "right_mask limit = 0"
    by (intro bit_eqI) (simp add: bit_right_mask)
qed

lemma byte_AND_eq_mask: "c AND m = m \<longleftrightarrow> (\<forall>i<8. bit m i \<longrightarrow> bit c i)" for c m :: u8
  by (auto simp: bit_eq_iff bit_simps)

lemma byte_AND_eq_0: "c AND m = 0 \<longleftrightarrow> (\<forall>i<8. bit m i \<longrightarrow> \<not> bit c i)" for c m :: u8
  by (auto simp: bit_eq_iff bit_simps)

lemma byte_eq_255: "c = 255 \<longleftrightarrow> (\<forall>i<8. bit c i)" for c :: u8
proof -
  have "(255 :: u8) = - 1" by simp
  then show ?thesis
    by (simp only:) (auto simp: bit_eq_iff)
qed

lemma byte_eq_0: "c = 0 \<longleftrightarrow> (\<forall>i<8. \<not> bit c i)" for c :: u8
  by (auto simp: bit_eq_iff)

lemma bm_bit_byte: "j < 8 \<Longrightarrow> bm_bit bm (8 * i + j) = bit (bm ! i) j"
  by (simp add: bm_bit_def)

text \<open>A run of bits splits into a first byte, whole bytes and a last byte.\<close>

lemma run_bytes_iff:
  fixes start limit :: nat
  assumes "start div 8 < limit div 8"
  shows "(\<forall>i\<ge>start. i < limit \<longrightarrow> P (i div 8) (i mod 8)) \<longleftrightarrow>
    (\<forall>j<8. start mod 8 \<le> j \<longrightarrow> P (start div 8) j) \<and>
    (\<forall>k\<in>{start div 8 + 1..<limit div 8}. \<forall>j<8. P k j) \<and>
    (\<forall>j<limit mod 8. P (limit div 8) j)"
    (is "?L \<longleftrightarrow> ?A \<and> ?B \<and> ?C")
proof
  assume L: ?L
  have at: "P k j" if "j < 8" "start \<le> 8 * k + j" "8 * k + j < limit" for k j
    using L [rule_format, of "8 * k + j"] that by simp
  note dm = mult_div_mod_eq [of 8 start] mult_div_mod_eq [of 8 limit]
  have ?A
  proof (intro allI impI)
    fix j :: nat assume "j < 8" "start mod 8 \<le> j"
    then show "P (start div 8) j" using assms dm by (intro at) linarith+
  qed
  moreover have ?B
  proof (intro ballI allI impI)
    fix k j :: nat assume "k \<in> {start div 8 + 1..<limit div 8}" "j < 8"
    then show "P k j" using dm by (intro at) (simp_all, linarith+)
  qed
  moreover have ?C
  proof (intro allI impI)
    fix j assume "j < limit mod 8"
    moreover have "limit mod 8 < 8" by simp
    ultimately have "j < 8" by (rule less_trans)
    with \<open>j < limit mod 8\<close> show "P (limit div 8) j" using assms dm by (intro at) linarith+
  qed
  ultimately show "?A \<and> ?B \<and> ?C" by blast
next
  assume R: "?A \<and> ?B \<and> ?C"
  show ?L
  proof (intro allI impI)
    fix i assume i: "start \<le> i" "i < limit"
    have "start div 8 \<le> i div 8" "i div 8 \<le> limit div 8"
      using i by (auto intro: div_le_mono)
    then consider "i div 8 = start div 8" | "i div 8 = limit div 8"
      | "i div 8 \<in> {start div 8 + 1..<limit div 8}" by fastforce
    then show "P (i div 8) (i mod 8)"
    proof cases
      case 1
      then have "start mod 8 \<le> i mod 8"
        using i(1) mult_div_mod_eq [of 8 start] mult_div_mod_eq [of 8 i] by linarith
      then show ?thesis using R 1 by simp
    next
      case 2
      then have "i mod 8 < limit mod 8"
        using i(2) mult_div_mod_eq [of 8 limit] mult_div_mod_eq [of 8 i] by linarith
      then show ?thesis using R 2 by simp
    next
      case 3
      then show ?thesis using R by simp
    qed
  qed
qed

lemma run_byte_iff:
  fixes start limit :: nat
  assumes "start div 8 = limit div 8"
  shows "(\<forall>i\<ge>start. i < limit \<longrightarrow> P (i div 8) (i mod 8)) \<longleftrightarrow>
    (\<forall>j<8. start mod 8 \<le> j \<and> j < limit mod 8 \<longrightarrow> P (start div 8) j)"
proof
  note dm = mult_div_mod_eq [of 8 start] mult_div_mod_eq [of 8 limit]
  assume L: "\<forall>i\<ge>start. i < limit \<longrightarrow> P (i div 8) (i mod 8)"
  show "\<forall>j<8. start mod 8 \<le> j \<and> j < limit mod 8 \<longrightarrow> P (start div 8) j"
  proof (intro allI impI)
    fix j :: nat assume j: "j < 8" "start mod 8 \<le> j \<and> j < limit mod 8"
    then have "start \<le> 8 * (start div 8) + j" "8 * (start div 8) + j < limit"
      using assms dm by linarith+
    then show "P (start div 8) j" using L [rule_format, of "8 * (start div 8) + j"] j by simp
  qed
next
  assume R: "\<forall>j<8. start mod 8 \<le> j \<and> j < limit mod 8 \<longrightarrow> P (start div 8) j"
  show "\<forall>i\<ge>start. i < limit \<longrightarrow> P (i div 8) (i mod 8)"
  proof (intro allI impI)
    fix i assume i: "start \<le> i" "i < limit"
    have "start div 8 \<le> i div 8" "i div 8 \<le> limit div 8"
      using i by (auto intro: div_le_mono)
    then have eq: "i div 8 = start div 8" using assms by simp
    have "start mod 8 \<le> i mod 8" "i mod 8 < limit mod 8"
      using i eq assms mult_div_mod_eq [of 8 start] mult_div_mod_eq [of 8 limit]
        mult_div_mod_eq [of 8 i] by linarith+
    with eq show "P (i div 8) (i mod 8)" using R by simp
  qed
qed

section \<open>What the operations do\<close>

lemma last_byte_iff:
  "(limit mod 8 = 0 \<or> (\<forall>j<8. j < limit mod 8 \<longrightarrow> Q j)) \<longleftrightarrow> (\<forall>j<limit mod 8. Q j)"
  for limit :: nat
proof -
  have "limit mod 8 < 8" by simp
  then show ?thesis by (metis less_trans not_less_zero)
qed

lemma all_set_iff:
  assumes "bm_range bm start count"
  shows "all_set bm start count \<longleftrightarrow> (\<forall>i\<ge>start. i < start + count \<longrightarrow> bm_bit bm i)"
proof -
  have w: "wrap32 (start + count) = start + count"
    using assms by (simp add: bm_range_def wrap_simps)
  have le: "start div 8 \<le> (start + count) div 8" by (simp add: div_le_mono)
  show ?thesis
  proof (cases "start div 8 = (start + count) div 8")
    case True
    show ?thesis
      unfolding bm_bit_def run_byte_iff [OF True, where P = "\<lambda>k j. bit (bm ! k) j"]
      using True by (simp add: all_set_def w Let_def byte_AND_eq_mask bit_simps bit_left_mask
          bit_right_mask)
  next
    case False
    with le have lt: "start div 8 < (start + count) div 8" by simp
    show ?thesis
      unfolding bm_bit_def run_bytes_iff [OF lt, where P = "\<lambda>k j. bit (bm ! k) j"]
      using False by (simp add: all_set_def w Let_def byte_AND_eq_mask byte_eq_255 bit_left_mask
          bit_right_mask right_mask_eq_0 last_byte_iff)
  qed
qed

lemma all_clear_iff:
  assumes "bm_range bm start count"
  shows "all_clear bm start count \<longleftrightarrow> (\<forall>i\<ge>start. i < start + count \<longrightarrow> \<not> bm_bit bm i)"
proof -
  have w: "wrap32 (start + count) = start + count"
    using assms by (simp add: bm_range_def wrap_simps)
  have le: "start div 8 \<le> (start + count) div 8" by (simp add: div_le_mono)
  show ?thesis
  proof (cases "start div 8 = (start + count) div 8")
    case True
    show ?thesis
      unfolding bm_bit_def run_byte_iff [OF True, where P = "\<lambda>k j. \<not> bit (bm ! k) j"]
      using True by (simp add: all_clear_def w Let_def byte_AND_eq_0 bit_simps bit_left_mask
          bit_right_mask)
  next
    case False
    with le have lt: "start div 8 < (start + count) div 8" by simp
    show ?thesis
      unfolding bm_bit_def run_bytes_iff [OF lt, where P = "\<lambda>k j. \<not> bit (bm ! k) j"]
      using False by (simp add: all_clear_def w Let_def byte_AND_eq_0 byte_eq_0 [of "bm ! i" for i]
          bit_left_mask bit_right_mask right_mask_eq_0 last_byte_iff)
  qed
qed

text \<open>Where bit \<open>i\<close> of a run is, in the bytes of the bitmap.\<close>

lemma in_run_one_byte:
  fixes start limit i :: nat
  assumes "start div 8 = limit div 8"
  shows "start \<le> i \<and> i < limit \<longleftrightarrow>
    i div 8 = start div 8 \<and> start mod 8 \<le> i mod 8 \<and> i mod 8 < limit mod 8"
proof -
  note dm = mult_div_mod_eq [of 8 start] mult_div_mod_eq [of 8 limit] mult_div_mod_eq [of 8 i]
  have "i div 8 = start div 8" if "start \<le> i" "i < limit"
    using that assms div_le_mono [of start i 8] div_le_mono [of i limit 8] by simp
  then show ?thesis using assms dm by (intro iffI conjI; elim conjE; linarith)
qed

lemma in_run_bytes:
  fixes start limit i :: nat
  assumes "start div 8 < limit div 8"
  shows "start \<le> i \<and> i < limit \<longleftrightarrow>
    (if i div 8 = start div 8 then start mod 8 \<le> i mod 8
     else if i div 8 = limit div 8 then i mod 8 < limit mod 8
     else start div 8 < i div 8 \<and> i div 8 < limit div 8)"
proof -
  note dm = mult_div_mod_eq [of 8 start] mult_div_mod_eq [of 8 limit] mult_div_mod_eq [of 8 i]
  have mono: "start div 8 \<le> i div 8" if "start \<le> i" using that by (rule div_le_mono)
  have mono': "i div 8 \<le> limit div 8" if "i < limit" using that by (simp add: div_le_mono)
  have b: "i mod 8 < 8" "start mod 8 < 8" "limit mod 8 < 8" by simp_all
  show ?thesis
  proof (cases "i div 8 = start div 8 \<or> i div 8 = limit div 8")
    case True
    then show ?thesis using assms dm b by (elim disjE; simp; linarith)
  next
    case False
    have "start \<le> i" if "start div 8 < i div 8" using that dm b by linarith
    moreover have "i < limit" if "i div 8 < limit div 8" using that dm b by linarith
    ultimately show ?thesis using False mono mono' by fastforce
  qed
qed

lemma bm_rangeD:
  assumes "bm_range bm start count"
  shows "start div 8 < length bm" "wrap32 (start + count) = start + count"
    "(start + count) div 8 \<le> length bm"
    "(start + count) mod 8 \<noteq> 0 \<Longrightarrow> (start + count) div 8 < length bm"
proof -
  from assms have r: "start < 8 * length bm" "start + count \<le> 8 * length bm"
      "8 * length bm < 2 ^ 32"
    by (auto simp: bm_range_def)
  note dm = mult_div_mod_eq [of 8 start] mult_div_mod_eq [of 8 "start + count"]
  show "start div 8 < length bm" using r dm by linarith
  show "wrap32 (start + count) = start + count" using r by (simp add: wrap_simps)
  show "(start + count) div 8 \<le> length bm" using r dm by linarith
  show "(start + count) div 8 < length bm" if "(start + count) mod 8 \<noteq> 0"
    using r dm that by linarith
qed

lemma length_set_bits [mem_simps]:
  assumes "bm_range bm start count" shows "length (set_bits bm start count) = length bm"
  using bm_rangeD [OF assms]
  by (auto simp: set_bits_def Let_def length_memset)

lemma length_clear_bits [mem_simps]:
  assumes "bm_range bm start count" shows "length (clear_bits bm start count) = length bm"
  using bm_rangeD [OF assms]
  by (auto simp: clear_bits_def Let_def length_memset)

lemma nth_memset:
  "off + n \<le> length xs \<Longrightarrow> i < length xs \<Longrightarrow>
    memset xs off v n ! i = (if off \<le> i \<and> i < off + n then v else xs ! i)"
  by (auto simp: memset_def nth_blit)

lemma set_bits_bit:
  assumes r: "bm_range bm start count" and i: "i < 8 * length bm"
  shows "bm_bit (set_bits bm start count) i \<longleftrightarrow> bm_bit bm i \<or> start \<le> i \<and> i < start + count"
proof -
  note d = bm_rangeD [OF r]
  have le: "start div 8 \<le> (start + count) div 8" by (simp add: div_le_mono)
  have k: "i div 8 < length bm" using i by (simp add: less_mult_imp_div_less mult.commute)
  show ?thesis
  proof (cases "start div 8 = (start + count) div 8")
    case True
    then show ?thesis
      unfolding in_run_one_byte [OF True] using d k
      by (auto simp: set_bits_def Let_def bm_bit_def nth_list_update bit_simps bit_left_mask
          bit_right_mask)
  next
    case False
    with le have lt: "start div 8 < (start + count) div 8" by simp
    show ?thesis
      unfolding in_run_bytes [OF lt] using d k lt False
      by (auto simp: set_bits_def Let_def bm_bit_def nth_list_update bit_simps bit_left_mask
          bit_right_mask nth_memset length_memset right_mask_eq_0)
  qed
qed

lemma clear_bits_bit:
  assumes r: "bm_range bm start count" and i: "i < 8 * length bm"
  shows "bm_bit (clear_bits bm start count) i \<longleftrightarrow>
    bm_bit bm i \<and> \<not> (start \<le> i \<and> i < start + count)"
proof -
  note d = bm_rangeD [OF r]
  have le: "start div 8 \<le> (start + count) div 8" by (simp add: div_le_mono)
  have k: "i div 8 < length bm" using i by (simp add: less_mult_imp_div_less mult.commute)
  show ?thesis
  proof (cases "start div 8 = (start + count) div 8")
    case True
    then show ?thesis
      unfolding in_run_one_byte [OF True] using d k
      by (auto simp: clear_bits_def Let_def bm_bit_def nth_list_update bit_simps bit_left_mask
          bit_right_mask)
  next
    case False
    with le have lt: "start div 8 < (start + count) div 8" by simp
    show ?thesis
      unfolding in_run_bytes [OF lt] using d k lt False
      by (auto simp: clear_bits_def Let_def bm_bit_def nth_list_update bit_simps bit_left_mask
          bit_right_mask nth_memset length_memset right_mask_eq_0)
  qed
qed

section \<open>Counting bits\<close>

lemma bytebits_loop_eq: "bytebits_loop c count = count + (\<Sum>i<8. of_bool (bit c i))"
proof (induction c count rule: bytebits_loop.induct)
  case (1 c count)
  show ?case
  proof (cases "c = 0")
    case True
    then show ?thesis by (simp add: bytebits_loop.simps)
  next
    case False
    have "\<not> bit c 8" using bit_imp_le_length [of c 8] by auto
    have low: "unat (c AND 1) = of_bool (bit c 0)"
      by (simp add: and_one_eq odd_iff_mod_2_eq_one bit_0)
    have "(\<Sum>i<8. of_bool (bit c i)) = of_bool (bit c 0) + (\<Sum>i<7. of_bool (bit c (Suc i)) :: nat)"
      using sum.lessThan_Suc_shift [of "\<lambda>i. of_bool (bit c i) :: nat" 7] by simp
    also have "(\<Sum>i<7. of_bool (bit c (Suc i)) :: nat) = (\<Sum>i<8. of_bool (bit (drop_bit 1 c) i))"
      using sum.lessThan_Suc [of "\<lambda>i. of_bool (bit (drop_bit 1 c) i) :: nat" 7]
      using \<open>\<not> bit c 8\<close> by (simp add: bit_simps)
    finally show ?thesis
      using False 1 [OF False] low by (simp add: bytebits_loop.simps [of c])
  qed
qed

lemma bytebits_eq: "bytebits c = card {i. i < 8 \<and> bit c i}"
proof -
  have "bytebits c = (\<Sum>i<8. of_bool (bit c i))"
    by (simp add: bytebits_def bytebits_loop_eq)
  also have "\<dots> = card {i \<in> {..<8}. bit c i}"
    by (simp add: sum.If_cases of_bool_def Int_def)
  finally show ?thesis by simp
qed

section \<open>The contract of a bitmap\<close>

text \<open>
  What the allocator needs of a bitmap: runs are set and cleared exactly, and the two tests
  read what the view says. From that alone follow the balance of the free count and the
  round trip of setting and clearing.
\<close>

locale bit_run_store =
  fixes size_of :: "'m \<Rightarrow> nat"
    and view :: "'m \<Rightarrow> nat \<Rightarrow> bool"
    and ok :: "'m \<Rightarrow> nat \<Rightarrow> nat \<Rightarrow> bool"
    and put :: "'m \<Rightarrow> nat \<Rightarrow> nat \<Rightarrow> 'm"
    and del :: "'m \<Rightarrow> nat \<Rightarrow> nat \<Rightarrow> 'm"
    and full :: "'m \<Rightarrow> nat \<Rightarrow> nat \<Rightarrow> bool"
    and vacant :: "'m \<Rightarrow> nat \<Rightarrow> nat \<Rightarrow> bool"
  assumes ok_size: "ok m s c \<Longrightarrow> s + c \<le> size_of m"
    and size_put: "ok m s c \<Longrightarrow> size_of (put m s c) = size_of m"
    and size_del: "ok m s c \<Longrightarrow> size_of (del m s c) = size_of m"
    and ok_put: "ok m s c \<Longrightarrow> ok (put m s c) t d = ok m t d"
    and ok_del: "ok m s c \<Longrightarrow> ok (del m s c) t d = ok m t d"
    and view_put: "ok m s c \<Longrightarrow> i < size_of m \<Longrightarrow>
      view (put m s c) i \<longleftrightarrow> view m i \<or> s \<le> i \<and> i < s + c"
    and view_del: "ok m s c \<Longrightarrow> i < size_of m \<Longrightarrow>
      view (del m s c) i \<longleftrightarrow> view m i \<and> \<not> (s \<le> i \<and> i < s + c)"
    and full_iff: "ok m s c \<Longrightarrow> full m s c \<longleftrightarrow> (\<forall>i\<ge>s. i < s + c \<longrightarrow> view m i)"
    and vacant_iff: "ok m s c \<Longrightarrow> vacant m s c \<longleftrightarrow> (\<forall>i\<ge>s. i < s + c \<longrightarrow> \<not> view m i)"
begin

lemma full_put: "ok m s c \<Longrightarrow> full (put m s c) s c"
  using ok_size [of m s c] by (auto simp: full_iff ok_put view_put)

lemma vacant_del: "ok m s c \<Longrightarrow> vacant (del m s c) s c"
  using ok_size [of m s c] by (auto simp: vacant_iff ok_del view_del)

lemma del_put:
  "ok m s c \<Longrightarrow> vacant m s c \<Longrightarrow> i < size_of m \<Longrightarrow> view (del (put m s c) s c) i = view m i"
  by (auto simp: view_del view_put ok_put size_put vacant_iff)

lemma put_del:
  "ok m s c \<Longrightarrow> full m s c \<Longrightarrow> i < size_of m \<Longrightarrow> view (put (del m s c) s c) i = view m i"
  by (auto simp: view_del view_put ok_del size_del full_iff)

lemma vacant_put_disjoint:
  assumes "ok m s c" "ok m t d" "s + c \<le> t \<or> t + d \<le> s"
  shows "vacant (put m s c) t d = vacant m t d"
  using assms ok_size [of m t d]
  by (auto simp: vacant_iff ok_put view_put)

lemma free_put:
  assumes ok: "ok m s c" and v: "vacant m s c"
  shows "card {i. i < size_of m \<and> \<not> view (put m s c) i} + c
    = card {i. i < size_of m \<and> \<not> view m i}"
proof -
  let ?A = "{i. i < size_of m \<and> \<not> view (put m s c) i}"
  have "{i. i < size_of m \<and> \<not> view m i} = ?A \<union> {s..<s + c}"
    using ok_size [OF ok] v by (auto simp: view_put [OF ok] vacant_iff [OF ok])
  moreover have "?A \<inter> {s..<s + c} = {}"
    using ok_size [OF ok] by (auto simp: view_put [OF ok])
  ultimately show ?thesis
    using card_Un_disjoint [of ?A "{s..<s + c}"] by simp
qed

lemma free_del:
  assumes ok: "ok m s c" and f: "full m s c"
  shows "card {i. i < size_of m \<and> \<not> view (del m s c) i}
    = card {i. i < size_of m \<and> \<not> view m i} + c"
proof -
  let ?A = "{i. i < size_of m \<and> \<not> view m i}"
  have "{i. i < size_of m \<and> \<not> view (del m s c) i} = ?A \<union> {s..<s + c}"
    using ok_size [OF ok] by (auto simp: view_del [OF ok])
  moreover have "?A \<inter> {s..<s + c} = {}"
    using f by (auto simp: full_iff [OF ok])
  ultimately show ?thesis
    using card_Un_disjoint [of ?A "{s..<s + c}"] by simp
qed

end

interpretation bm: bit_run_store "\<lambda>m. 8 * length m" bm_bit bm_range set_bits clear_bits all_set all_clear
proof unfold_locales
  fix m :: bytes and s c t d i :: nat
  assume ok: "bm_range m s c"
  show "s + c \<le> 8 * length m" using ok by (simp add: bm_range_def)
  show l: "8 * length (set_bits m s c) = 8 * length m" by (simp add: length_set_bits ok)
  show l': "8 * length (clear_bits m s c) = 8 * length m" by (simp add: length_clear_bits ok)
  show "bm_range (set_bits m s c) t d = bm_range m t d" using l by (simp add: bm_range_def)
  show "bm_range (clear_bits m s c) t d = bm_range m t d" using l' by (simp add: bm_range_def)
  show "all_set m s c \<longleftrightarrow> (\<forall>i\<ge>s. i < s + c \<longrightarrow> bm_bit m i)" by (rule all_set_iff [OF ok])
  show "all_clear m s c \<longleftrightarrow> (\<forall>i\<ge>s. i < s + c \<longrightarrow> \<not> bm_bit m i)" by (rule all_clear_iff [OF ok])
  assume "i < 8 * length m"
  then show "bm_bit (set_bits m s c) i \<longleftrightarrow> bm_bit m i \<or> s \<le> i \<and> i < s + c"
    and "bm_bit (clear_bits m s c) i \<longleftrightarrow> bm_bit m i \<and> \<not> (s \<le> i \<and> i < s + c)"
    by (simp_all add: set_bits_bit clear_bits_bit ok)
qed

end
