(* ===== verification/Tux_Balloc.thy ===== *)
theory Tux_Balloc
  imports Tux_Bitmap
begin

text \<open>
  The block allocator, \<open>kernel/balloc.c\<close>: \<open>count_range\<close>, \<open>balloc_from_range\<close>,
  \<open>balloc\<close>, \<open>bfree\<close> and \<open>update_bitmap\<close> over the allocation part of \<open>struct sb\<close>.
  The bitmap file is the map from its block indexes to their bytes that \<open>blockread\<close> serves,
  \<open>None\<close> where the read fails. Locks and buffer reference counts are not modelled.
  The scan for a run of clear bits is shown equal to a plain walk over bit positions, and
  from that follow soundness, completeness and the balance of \<open>freeblocks\<close>.
\<close>

section \<open>State\<close>

record sb =
  blockbits :: nat
  volblocks :: nat
  freeblocks :: int
  nextalloc :: nat
  bitmap :: "nat \<Rightarrow> bytes option"

definition blocksize :: "'a sb_scheme \<Rightarrow> nat" where
  "blocksize sb = 2 ^ blockbits sb"

definition mapshift :: "'a sb_scheme \<Rightarrow> nat" where
  "mapshift sb = blockbits sb + 3"

definition mapsize :: "'a sb_scheme \<Rightarrow> nat" where
  "mapsize sb = 2 ^ mapshift sb"

section \<open>count_range\<close>

function count_bytes :: "bytes \<Rightarrow> nat \<Rightarrow> nat \<Rightarrow> nat \<Rightarrow> nat" where
  "count_bytes buf p stop tot =
     (if p < stop then count_bytes buf (p + 1) stop (tot + bytebits (buf ! p)) else tot)"

  by pat_completeness auto
termination
  by (relation "measure (\<lambda>(buf, p, stop, tot). stop - p)") auto

declare count_bytes.simps [simp del]

text \<open>The loop over bitmap blocks; \<open>-1\<close> when a block cannot be read.\<close>

function count_range_loop ::
  "'a sb_scheme \<Rightarrow> nat \<Rightarrow> nat \<Rightarrow> nat \<Rightarrow> nat \<Rightarrow> nat \<Rightarrow> int" where
  "count_range_loop sb block blocks offset tail tot =
     (if block < blocks then
        case bitmap sb block of
          None \<Rightarrow> - 1
        | Some buf \<Rightarrow>
            (let bytes = min (blocksize sb - offset) tail;
                 tot = count_bytes buf offset (offset + bytes) tot
             in count_range_loop sb (block + 1) blocks 0 (tail - bytes) tot)
      else int tot)"
  by pat_completeness auto
termination
  by (relation "measure (\<lambda>(sb, block, blocks, offset, tail, tot). blocks - block)") auto

declare count_range_loop.simps [simp del]

definition count_range :: "'a sb_scheme \<Rightarrow> nat \<Rightarrow> nat \<Rightarrow> int option" where
  "count_range sb start count = do {
     c_assert (start mod 8 = 0);
     let limit = start + count;
     let mapmask = mapsize sb - 1;
     let blocks = wrap32 ((limit + mapmask) div mapsize sb);
     let offset = (start mod mapsize sb) div 8;
     let tail = (count + 7) div 8;
     Some (count_range_loop sb (wrap32 (start div mapsize sb)) blocks offset tail 0) }"

section \<open>balloc\<close>

text \<open>
  What the scan of one byte, or of the bytes of one bitmap block, comes to: it goes on with a
  current run, it completes a run whose last bit is the block number \<open>found\<close>, it meets the
  limit inside the last byte, or the assertion on the run length fails.
\<close>

datatype scan = More nat | Hit nat | Partial | Abort

function scan_bits :: "nat \<Rightarrow> nat \<Rightarrow> nat \<Rightarrow> u8 \<Rightarrow> nat \<Rightarrow> nat \<Rightarrow> scan" where
  "scan_bits blocks limit base c i run =
     (if i < 8 then
        if bit c i then scan_bits blocks limit base c (i + 1) 0
        else if run + 1 < blocks then scan_bits blocks limit base c (i + 1) (run + 1)
        else if run + 1 \<noteq> blocks then Abort
        else if i + base \<ge> limit then Partial
        else Hit (i + base)
      else More run)"
  by pat_completeness auto
termination
  by (relation "measure (\<lambda>(blocks, limit, base, c, i, run). 8 - i)") auto

declare scan_bits.simps [simp del]

function scan_bytes ::
  "nat \<Rightarrow> nat \<Rightarrow> nat \<Rightarrow> bytes \<Rightarrow> nat \<Rightarrow> nat \<Rightarrow> nat \<Rightarrow> nat \<Rightarrow> scan" where
  "scan_bytes blocks limit base buf p stop startbit run =
     (if p < stop then
        if buf ! p = 255 then scan_bytes blocks limit base buf (p + 1) stop 0 0
        else
          case scan_bits blocks limit (8 * p + base) (buf ! p) startbit run of
            More run \<Rightarrow> scan_bytes blocks limit base buf (p + 1) stop 0 run
          | r \<Rightarrow> r
      else More run)"
  by pat_completeness auto
termination
  by (relation "measure (\<lambda>(blocks, limit, base, buf, p, stop, startbit, run). stop - p)") auto

declare scan_bytes.simps [simp del]

text \<open>
  The loop over bitmap blocks. \<open>found\<close> is computed with \<open>mapblock << mapshift\<close> in 32 bits,
  as the C code does.
\<close>

function balloc_loop ::
  "'a sb_scheme \<Rightarrow> nat \<Rightarrow> nat \<Rightarrow> nat \<Rightarrow> nat \<Rightarrow> nat \<Rightarrow> nat \<Rightarrow> nat \<Rightarrow> (int \<times> 'a sb_scheme) option"
where
  "balloc_loop sb blocks limit mapblocks mapblock offset startbit tail =
     (if mapblock < mapblocks then
        case bitmap sb mapblock of
          None \<Rightarrow> Some (- 1, sb)
        | Some buf \<Rightarrow>
            (let bytes = min (blocksize sb - offset) tail;
                 base = wrap32 (mapblock * 2 ^ mapshift sb);
                 startbit' = (if bytes = 0 then startbit else 0);
                 next = balloc_loop sb blocks limit mapblocks (mapblock + 1) 0 startbit' (tail - bytes)
             in case scan_bytes blocks limit base buf offset (offset + bytes) startbit 0 of
                  More run \<Rightarrow> next
                | Abort \<Rightarrow> None
                | Partial \<Rightarrow> do { c_assert (mapblock = mapblocks - 1); next }
                | Hit lastbit \<Rightarrow>
                    (let found = lastbit - (blocks - 1);
                         buf = set_bits buf (found mod mapsize sb) blocks
                     in Some (int found,
                          sb\<lparr>bitmap := (bitmap sb)(mapblock \<mapsto> buf),
                             nextalloc := found + blocks,
                             freeblocks := freeblocks sb - int blocks\<rparr>)))
      else Some (- 1, sb))"
  by pat_completeness auto
termination
  by (relation "measure (\<lambda>(sb, blocks, limit, mapblocks, mapblock, offset, startbit, tail).
    mapblocks - mapblock)") auto

declare balloc_loop.simps [simp del]

definition balloc_from_range ::
  "'a sb_scheme \<Rightarrow> nat \<Rightarrow> nat \<Rightarrow> nat \<Rightarrow> (int \<times> 'a sb_scheme) option" where
  "balloc_from_range sb start count blocks = do {
     c_assert (blocks > 0);
     let limit = start + count;
     let mapmask = mapsize sb - 1;
     let mapblocks = wrap32 ((limit + mapmask) div mapsize sb);
     let offset = (start mod mapsize sb) div 8;
     let startbit = start mod 8;
     let tail = (count + startbit + 7) div 8;
     balloc_loop sb blocks limit mapblocks (wrap32 (start div mapsize sb)) offset startbit tail }"

definition balloc :: "'a sb_scheme \<Rightarrow> nat \<Rightarrow> ((errno + nat) \<times> 'a sb_scheme) option" where
  "balloc sb blocks = do {
     c_assert (blocks > 0);
     let goal = nextalloc sb;
     let tot = volblocks sb;
     (block, sb) \<leftarrow> balloc_from_range sb goal (sub32 tot goal) blocks;
     if block \<ge> 0 then Some (Inr (nat block), sb)
     else do {
       (block, sb) \<leftarrow> balloc_from_range sb 0 (wrap32 goal) blocks;
       if block \<ge> 0 then Some (Inr (nat block), sb)
       else Some (Inl ENOSPC, sb) } }"

section \<open>bfree and update_bitmap\<close>

definition bfree :: "'a sb_scheme \<Rightarrow> nat \<Rightarrow> nat \<Rightarrow> ((errno + unit) \<times> 'a sb_scheme) option" where
  "bfree sb start blocks = do {
     c_assert (blocks > 0);
     let mapblock = wrap32 (start div mapsize sb);
     case bitmap sb mapblock of
       None \<Rightarrow> Some (Inl EIO, sb)
     | Some buf \<Rightarrow>
         (let start = start mod mapsize sb
          in if \<not> all_set buf start blocks then Some (Inl EIO, sb)
             else Some (Inr (),
               sb\<lparr>bitmap := (bitmap sb)(mapblock \<mapsto> clear_bits buf start blocks),
                  freeblocks := freeblocks sb + int blocks\<rparr>)) }"

text \<open>
  \<open>sb->freeblocks += set ? count : -count\<close>: \<open>count\<close> is unsigned, so \<open>-count\<close> is taken
  modulo \<open>2 ^ 32\<close> before it is widened.
\<close>

definition update_bitmap ::
  "'a sb_scheme \<Rightarrow> nat \<Rightarrow> nat \<Rightarrow> bool \<Rightarrow> (errno + unit) \<times> 'a sb_scheme" where
  "update_bitmap sb start count set1 =
     (case bitmap sb (start div mapsize sb) of
        None \<Rightarrow> (Inl ENOMEM, sb)
      | Some buf \<Rightarrow>
          (let start' = start mod mapsize sb
           in if \<not> (if set1 then all_clear else all_set) buf start' count then (Inl EINVAL, sb)
              else (Inr (),
                sb\<lparr>bitmap := (bitmap sb)(start div mapsize sb \<mapsto>
                      (if set1 then set_bits else clear_bits) buf start' count),
                   freeblocks := freeblocks sb
                      + (if set1 then int count else (- int count) mod 2 ^ 32)\<rparr>)))"

section \<open>The scan as a walk over bit positions\<close>

text \<open>
  The reference: walk over bit positions of the block, one at a time, with no byte structure
  and no skipping of full bytes.
\<close>

function walk_bits ::
  "(nat \<Rightarrow> bool) \<Rightarrow> nat \<Rightarrow> nat \<Rightarrow> nat \<Rightarrow> nat \<Rightarrow> nat \<Rightarrow> nat \<Rightarrow> scan" where
  "walk_bits used blocks limit base pos stop run =
     (if pos < stop then
        if used pos then walk_bits used blocks limit base (pos + 1) stop 0
        else if run + 1 < blocks then walk_bits used blocks limit base (pos + 1) stop (run + 1)
        else if run + 1 \<noteq> blocks then Abort
        else if pos + base \<ge> limit then Partial
        else Hit (pos + base)
      else More run)"
  by pat_completeness auto
termination
  by (relation "measure (\<lambda>(used, blocks, limit, base, pos, stop, run). stop - pos)") auto

declare walk_bits.simps [simp del]

lemma walk_bits_append:
  assumes "pos \<le> mid" "mid \<le> stop"
  shows "walk_bits used blocks limit base pos stop run =
    (case walk_bits used blocks limit base pos mid run of
       More run' \<Rightarrow> walk_bits used blocks limit base mid stop run'
     | r \<Rightarrow> r)"
  using assms
proof (induction used blocks limit base pos mid run rule: walk_bits.induct)
  case (1 used blocks limit base pos mid run)
  show ?case
  proof (cases "pos < mid")
    case True
    then show ?thesis
      using 1 by (auto simp: walk_bits.simps [of _ _ _ _ pos])
  next
    case False
    then have "pos = mid" using "1.prems" by simp
    then show ?thesis by (simp add: walk_bits.simps [of _ _ _ _ mid mid])
  qed
qed

lemma walk_bits_all_used:
  assumes "pos < stop" "\<And>i. pos \<le> i \<Longrightarrow> i < stop \<Longrightarrow> used i"
  shows "walk_bits used blocks limit base pos stop run = More 0"
  using assms
proof (induction used blocks limit base pos stop run rule: walk_bits.induct)
  case (1 used blocks limit base pos stop run)
  then have "used pos" by simp
  show ?case
  proof (cases "pos + 1 < stop")
    case True
    then show ?thesis using 1 \<open>used pos\<close> by (simp add: walk_bits.simps [of _ _ _ _ pos])
  next
    case False
    then show ?thesis
      using "1.prems" \<open>used pos\<close> by (simp add: walk_bits.simps)
  qed
qed

lemma scan_bits_eq_walk:
  assumes "i \<le> 8"
  shows "scan_bits blocks limit (8 * p + base) (buf ! p) i run =
    walk_bits (bm_bit buf) blocks limit base (8 * p + i) (8 * p + 8) run"
  using assms
proof (induction blocks limit "8 * p + base" "buf ! p" i run rule: scan_bits.induct)
  case (1 blocks limit i run)
  show ?case
  proof (cases "i < 8")
    case True
    then have "bm_bit buf (8 * p + i) = bit (buf ! p) i" by (rule bm_bit_byte)
    then show ?thesis
      using True 1
      by (simp add: scan_bits.simps [of _ _ _ _ i]
          walk_bits.simps [of _ _ _ _ "8 * p + i" "8 * p + 8"] add.assoc add.commute [of i])
  next
    case False
    then show ?thesis using "1.prems" by (simp add: scan_bits.simps walk_bits.simps)
  qed
qed

lemma scan_bytes_walk:
  assumes "startbit < 8"
  shows "p < stop \<Longrightarrow> scan_bytes blocks limit base buf p stop startbit run =
    walk_bits (bm_bit buf) blocks limit base (8 * p + startbit) (8 * stop) run"
  using assms
proof (induction blocks limit base buf p stop startbit run rule: scan_bytes.induct)
  case (1 blocks limit base buf p stop startbit run)
  let ?walk = "walk_bits (bm_bit buf) blocks limit base"
  have rest: "scan_bytes blocks limit base buf (p + 1) stop 0 r = ?walk (8 * p + 8) (8 * stop) r"
    if "p + 1 < stop \<Longrightarrow> scan_bytes blocks limit base buf (p + 1) stop 0 r =
      ?walk (8 * (p + 1) + 0) (8 * stop) r" for r
    using that "1.prems"
    by (cases "p + 1 < stop") (simp_all add: scan_bytes.simps [of _ _ _ _ "Suc p"]
        walk_bits.simps [of _ _ _ _ "8 + 8 * p"] add.commute)
  have split: "?walk (8 * p + startbit) (8 * stop) run =
    (case ?walk (8 * p + startbit) (8 * p + 8) run of
       More run' \<Rightarrow> ?walk (8 * p + 8) (8 * stop) run' | r \<Rightarrow> r)"
    using "1.prems" by (intro walk_bits_append) simp_all
  show ?case
  proof (cases "buf ! p = 255")
    case True
    have "?walk (8 * p + startbit) (8 * p + 8) run = More 0"
    proof (rule walk_bits_all_used)
      fix i assume "8 * p + startbit \<le> i" "i < 8 * p + 8"
      then have "i = 8 * p + (i - 8 * p)" "i - 8 * p < 8" by simp_all
      moreover have "bit (buf ! p) (i - 8 * p)"
        using True \<open>i - 8 * p < 8\<close> byte_eq_255 [of "buf ! p"] by simp
      ultimately show "bm_bit buf i" using bm_bit_byte [of "i - 8 * p" buf p] by simp
    qed (use "1.prems" in simp)
    then show ?thesis
      using True "1.prems" split rest [of 0] "1.IH"(1)
      by (simp add: scan_bytes.simps [of _ _ _ _ p])
  next
    case False
    let ?r = "scan_bits blocks limit (8 * p + base) (buf ! p) startbit run"
    have r: "?r = ?walk (8 * p + startbit) (8 * p + 8) run"
      using "1.prems" by (simp add: scan_bits_eq_walk)
    show ?thesis
    proof (cases ?r)
      case (More k)
      have "scan_bytes blocks limit base buf (p + 1) stop 0 k = ?walk (8 * p + 8) (8 * stop) k"
        using "1.IH"(2) [OF "1.prems"(1) False More] by (intro rest) simp
      then show ?thesis
        using More False "1.prems" split r by (simp add: scan_bytes.simps [of _ _ _ _ p])
    qed (use False "1.prems" split r in \<open>simp_all add: scan_bytes.simps [of _ _ _ _ p]\<close>)
  qed
qed

definition free_window :: "(nat \<Rightarrow> bool) \<Rightarrow> nat \<Rightarrow> nat \<Rightarrow> bool" where
  "free_window used w n \<longleftrightarrow> (\<forall>j. w \<le> j \<and> j < w + n \<longrightarrow> \<not> used j)"

lemma free_windowD: "free_window used w n \<Longrightarrow> w \<le> j \<Longrightarrow> j < w + n \<Longrightarrow> \<not> used j"
  by (simp add: free_window_def)

definition walk_post ::
  "(nat \<Rightarrow> bool) \<Rightarrow> nat \<Rightarrow> nat \<Rightarrow> nat \<Rightarrow> nat \<Rightarrow> nat \<Rightarrow> scan \<Rightarrow> bool" where
  "walk_post used blocks limit base lo stop r =
     (case r of
        More _ \<Rightarrow> \<forall>w\<ge>lo. w + blocks \<le> stop \<longrightarrow> \<not> free_window used w blocks
      | Hit q \<Rightarrow> \<exists>w\<ge>lo. q + 1 = w + blocks + base \<and> w + blocks \<le> stop \<and> q < limit
                  \<and> free_window used w blocks
      | Partial \<Rightarrow> \<exists>e. e < stop \<and> limit \<le> e + base \<and>
                    (\<forall>w\<ge>lo. w + blocks \<le> e \<longrightarrow> \<not> free_window used w blocks)
      | Abort \<Rightarrow> False)"

lemma no_window_restart:
  assumes "used pos" "pos < lo + blocks"
    and "\<And>w. pos + 1 \<le> w \<Longrightarrow> w + blocks \<le> e \<Longrightarrow> \<not> free_window used w blocks"
    and "lo \<le> w" "w + blocks \<le> e"
  shows "\<not> free_window used w blocks"
proof (cases "w \<le> pos")
  case True
  then show ?thesis using assms free_windowD [of used w blocks pos] by auto
next
  case False
  then show ?thesis using assms by simp
qed

lemma walk_post_restart:
  assumes p: "walk_post used blocks limit base (pos + 1) stop r"
    and u: "used pos" and lo: "lo \<le> pos" "pos < lo + blocks"
  shows "walk_post used blocks limit base lo stop r"
proof (cases r)
  case (More k)
  then show ?thesis
    using p no_window_restart [where used = used and pos = pos and lo = lo and blocks = blocks
      and e = stop, OF u lo(2)] by (simp add: walk_post_def)
next
  case (Hit q)
  then obtain w where "pos + 1 \<le> w" "q + 1 = w + blocks + base" "w + blocks \<le> stop" "q < limit"
      "free_window used w blocks"
    using p by (auto simp: walk_post_def)
  then show ?thesis using Hit lo by (auto simp: walk_post_def intro!: exI [of _ w])
next
  case Partial
  then obtain e where "e < stop" "limit \<le> e + base"
      "\<And>w. pos + 1 \<le> w \<Longrightarrow> w + blocks \<le> e \<Longrightarrow> \<not> free_window used w blocks"
    using p by (auto simp: walk_post_def)
  then show ?thesis
    using Partial no_window_restart [where used = used and pos = pos and lo = lo and blocks = blocks
      and e = e, OF u lo(2)] by (auto simp: walk_post_def)
next
  case Abort
  then show ?thesis using p by (simp add: walk_post_def)
qed

lemma walk_bits_post:
  assumes "run < blocks" "run \<le> pos" "pos \<le> stop" "\<And>j. pos - run \<le> j \<Longrightarrow> j < pos \<Longrightarrow> \<not> used j"
  shows "walk_post used blocks limit base (pos - run) stop
    (walk_bits used blocks limit base pos stop run)"
  using assms
proof (induction used blocks limit base pos stop run rule: walk_bits.induct)
  case (1 used blocks limit base pos stop run)
  show ?case
  proof (cases "pos < stop")
    case False
    then show ?thesis
      using "1.prems" free_windowD [of used _ blocks]
      by (auto simp: walk_bits.simps [of _ _ _ _ stop stop] walk_post_def)
  next
    case True
    consider "used pos" | "\<not> used pos" "run + 1 < blocks" | "\<not> used pos" "run + 1 = blocks"
      using "1.prems"(1) by linarith
    then show ?thesis
    proof cases
      case 1
      then have "walk_post used blocks limit base (pos + 1) stop
          (walk_bits used blocks limit base (pos + 1) stop 0)"
        using "1.IH"(1) [OF True] "1.prems" True by simp
      then show ?thesis
        using 1 True "1.prems" walk_post_restart [of used blocks limit base pos stop _ "pos - run"]
        by (simp add: walk_bits.simps [of _ _ _ _ pos])
    next
      case 2
      have "walk_post used blocks limit base (pos + 1 - (run + 1)) stop
          (walk_bits used blocks limit base (pos + 1) stop (run + 1))"
      proof (rule "1.IH"(2) [OF True 2])
        show "\<not> used j" if "pos + 1 - (run + 1) \<le> j" "j < pos + 1" for j
          using that 2 "1.prems"(4) [of j] by (cases "j = pos") auto
      qed (use True 2 "1.prems" in auto)
      then show ?thesis using 2 True by (simp add: walk_bits.simps [of _ _ _ _ pos])
    next
      case 3
      have free: "free_window used (pos - run) blocks"
        unfolding free_window_def
      proof (intro allI impI)
        fix j assume "pos - run \<le> j \<and> j < pos - run + blocks"
        then show "\<not> used j"
          using 3 "1.prems"(2) "1.prems"(4) [of j] by (cases "j = pos") auto
      qed
      show ?thesis
        using 3 True free "1.prems"
        by (auto simp: walk_bits.simps [of _ _ _ _ pos] walk_post_def intro: exI [of _ "pos - run"]
            exI [of _ pos])
    qed
  qed
qed

section \<open>The volume as a set of used blocks\<close>

definition used :: "'a sb_scheme \<Rightarrow> nat \<Rightarrow> bool" where
  "used sb b = bm_bit (the (bitmap sb (b div mapsize sb))) (b mod mapsize sb)"

definition free_count :: "'a sb_scheme \<Rightarrow> nat" where
  "free_count sb = card {b. b < volblocks sb \<and> \<not> used sb b}"

text \<open>
  The bitmap file is readable and covers the volume; block numbers fit 32 bits, the width
  that \<open>balloc_from_range\<close> computes with.
\<close>

definition wf_bitmap :: "'a sb_scheme \<Rightarrow> bool" where
  "wf_bitmap sb \<longleftrightarrow> blockbits sb \<le> 28 \<and> volblocks sb < 2 ^ 32 \<and>
     (\<forall>m. m * mapsize sb < volblocks sb \<longrightarrow>
        (\<exists>buf. bitmap sb m = Some buf \<and> length buf = blocksize sb))"

definition wf_sb :: "'a sb_scheme \<Rightarrow> bool" where
  "wf_sb sb \<longleftrightarrow> wf_bitmap sb \<and> nextalloc sb \<le> volblocks sb \<and> freeblocks sb = int (free_count sb)"

text \<open>An extent that lies in one bitmap block.\<close>

definition one_mapblock :: "'a sb_scheme \<Rightarrow> nat \<Rightarrow> nat \<Rightarrow> bool" where
  "one_mapblock sb w n \<longleftrightarrow> w mod mapsize sb + n \<le> mapsize sb"

definition alloc_extent :: "'a sb_scheme \<Rightarrow> nat \<Rightarrow> nat \<Rightarrow> 'a sb_scheme" where
  "alloc_extent sb w n = sb\<lparr>bitmap := (bitmap sb)(w div mapsize sb \<mapsto>
       set_bits (the (bitmap sb (w div mapsize sb))) (w mod mapsize sb) n),
     nextalloc := w + n, freeblocks := freeblocks sb - int n\<rparr>"

lemma mapsize_eq: "mapsize sb = 8 * blocksize sb"
  by (simp add: mapsize_def mapshift_def blocksize_def power_add)

lemma blocksize_pos [simp]: "0 < blocksize sb"
  by (simp add: blocksize_def)

lemma mapsize_pos [simp]: "0 < mapsize sb"
  by (simp add: mapsize_def)

lemma mapsize_bound: "wf_bitmap sb \<Longrightarrow> mapsize sb < 2 ^ 32"
proof -
  assume "wf_bitmap sb"
  then have "(2 :: nat) ^ mapshift sb < 2 ^ 32"
    by (intro power_strict_increasing) (simp_all add: wf_bitmap_def mapshift_def)
  then show ?thesis by (simp add: mapsize_def)
qed

lemma wf_bitmapD:
  assumes "wf_bitmap sb" "b < volblocks sb"
  obtains buf where "bitmap sb (b div mapsize sb) = Some buf" "length buf = blocksize sb"
proof -
  have "b div mapsize sb * mapsize sb \<le> b" by simp
  with assms(2) have "b div mapsize sb * mapsize sb < volblocks sb" by (rule le_less_trans [rotated])
  with assms(1) that show thesis by (auto simp: wf_bitmap_def)
qed

lemma used_in_block:
  assumes "bitmap sb m = Some buf" "i < mapsize sb"
  shows "used sb (m * mapsize sb + i) = bm_bit buf i"
  using assms by (simp add: used_def)

lemma ceil_mapsize:
  "(limit + (mapsize sb - 1)) div mapsize sb \<le> k \<longleftrightarrow> limit \<le> k * mapsize sb"
proof -
  have "(limit + (mapsize sb - 1)) div mapsize sb \<le> k \<longleftrightarrow>
    (limit + (mapsize sb - 1)) div mapsize sb < k + 1" by (simp add: less_Suc_eq_le)
  also have "\<dots> \<longleftrightarrow> limit + (mapsize sb - 1) < (k + 1) * mapsize sb"
    by (rule div_less_iff_less_mult) simp
  also have "(k + 1) * mapsize sb = k * mapsize sb + mapsize sb" by simp
  also have "limit + (mapsize sb - 1) < k * mapsize sb + mapsize sb \<longleftrightarrow> limit \<le> k * mapsize sb"
    using mapsize_pos [of sb] by linarith
  finally show ?thesis .
qed

text \<open>The contract of the search for a run in \<open>[lo, limit)\<close>.\<close>

definition range_post ::
  "'a sb_scheme \<Rightarrow> nat \<Rightarrow> nat \<Rightarrow> nat \<Rightarrow> (int \<times> 'a sb_scheme) option \<Rightarrow> bool" where
  "range_post sb blocks lo limit r \<longleftrightarrow>
     (r = Some (- 1, sb) \<and>
       (\<forall>w\<ge>lo. w + blocks \<le> limit \<and> one_mapblock sb w blocks \<longrightarrow> \<not> free_window (used sb) w blocks))
     \<or> (\<exists>w\<ge>lo. r = Some (int w, alloc_extent sb w blocks) \<and> w + blocks \<le> limit
          \<and> one_mapblock sb w blocks \<and> free_window (used sb) w blocks)"

lemma free_window_in_block:
  assumes m: "bitmap sb m = Some buf" and w: "w div mapsize sb = m" "one_mapblock sb w n"
  shows "free_window (used sb) w n \<longleftrightarrow> free_window (bm_bit buf) (w mod mapsize sb) n"
proof -
  have wm: "w = m * mapsize sb + w mod mapsize sb"
    using w(1) div_mult_mod_eq [of w "mapsize sb"] by simp
  have u: "used sb (m * mapsize sb + j) = bm_bit buf j" if "j < mapsize sb" for j
    using used_in_block [OF m that] .
  have b: "w mod mapsize sb + n \<le> mapsize sb" using w(2) by (simp add: one_mapblock_def)
  show ?thesis
  proof
    assume f: "free_window (used sb) w n"
    show "free_window (bm_bit buf) (w mod mapsize sb) n"
      unfolding free_window_def
    proof (intro allI impI)
      fix j assume j: "w mod mapsize sb \<le> j \<and> j < w mod mapsize sb + n"
      then show "\<not> bm_bit buf j"
        using free_windowD [OF f, of "m * mapsize sb + j"] u [of j] wm b by simp
    qed
  next
    assume f: "free_window (bm_bit buf) (w mod mapsize sb) n"
    show "free_window (used sb) w n"
      unfolding free_window_def
    proof (intro allI impI)
      fix j assume j: "w \<le> j \<and> j < w + n"
      define i where "i = j - m * mapsize sb"
      have i: "j = m * mapsize sb + i" "w mod mapsize sb \<le> i" "i < w mod mapsize sb + n"
        using j wm by (auto simp: i_def)
      then show "\<not> used sb j"
        using free_windowD [OF f, of i] u [of i] b by simp
    qed
  qed
qed

lemma range_post_later:
  assumes "range_post sb blocks lo' limit r" "lo \<le> lo'"
    and "\<And>w. lo \<le> w \<Longrightarrow> w < lo' \<Longrightarrow> w + blocks \<le> limit \<Longrightarrow> one_mapblock sb w blocks \<Longrightarrow>
      \<not> free_window (used sb) w blocks"
  shows "range_post sb blocks lo limit r"
  using assms(1) unfolding range_post_def
proof (elim disjE conjE)
  assume r: "r = Some (- 1, sb)"
    and no: "\<forall>w\<ge>lo'. w + blocks \<le> limit \<and> one_mapblock sb w blocks \<longrightarrow> \<not> free_window (used sb) w blocks"
  have "\<not> free_window (used sb) w blocks"
    if "lo \<le> w" "w + blocks \<le> limit \<and> one_mapblock sb w blocks" for w
    using no assms(3) [of w] that by (cases "w < lo'") auto
  with r show "r = Some (- 1, sb) \<and>
      (\<forall>w\<ge>lo. w + blocks \<le> limit \<and> one_mapblock sb w blocks \<longrightarrow> \<not> free_window (used sb) w blocks)
    \<or> (\<exists>w\<ge>lo. r = Some (int w, alloc_extent sb w blocks) \<and> w + blocks \<le> limit
         \<and> one_mapblock sb w blocks \<and> free_window (used sb) w blocks)"
    by simp
next
  assume "\<exists>w\<ge>lo'. r = Some (int w, alloc_extent sb w blocks) \<and> w + blocks \<le> limit
    \<and> one_mapblock sb w blocks \<and> free_window (used sb) w blocks"
  with assms(2) show "r = Some (- 1, sb) \<and>
      (\<forall>w\<ge>lo. w + blocks \<le> limit \<and> one_mapblock sb w blocks \<longrightarrow> \<not> free_window (used sb) w blocks)
    \<or> (\<exists>w\<ge>lo. r = Some (int w, alloc_extent sb w blocks) \<and> w + blocks \<le> limit
         \<and> one_mapblock sb w blocks \<and> free_window (used sb) w blocks)"
    using le_trans by blast
qed

text \<open>One bitmap block: what the scan of its bytes says about windows of the volume.\<close>

lemma scan_block:
  assumes wf: "wf_bitmap sb" and lim: "limit \<le> volblocks sb" and m: "bitmap sb m = Some buf"
    and mlim: "m * mapsize sb < limit"
    and off: "offset < blocksize sb" "startbit < 8" and b: "0 < blocks"
    and tail: "m * blocksize sb + offset + tail = (limit + 7) div 8"
    and bytes: "bytes = min (blocksize sb - offset) tail" "0 < bytes"
  defines "lo \<equiv> m * mapsize sb + 8 * offset + startbit"
  defines "r \<equiv> scan_bytes blocks limit (wrap32 (m * 2 ^ mapshift sb)) buf offset (offset + bytes)
      startbit 0"
  shows "case r of
      More _ \<Rightarrow> \<forall>w\<ge>lo. w < (m + 1) * mapsize sb \<longrightarrow> w + blocks \<le> limit \<longrightarrow> one_mapblock sb w blocks
          \<longrightarrow> \<not> free_window (used sb) w blocks
    | Hit q \<Rightarrow> \<exists>w\<ge>lo. q + 1 = w + blocks \<and> w + blocks \<le> limit \<and> one_mapblock sb w blocks
        \<and> w div mapsize sb = m \<and> free_window (used sb) w blocks
    | Partial \<Rightarrow> limit < (m + 1) * mapsize sb \<and>
        (\<forall>w\<ge>lo. w + blocks \<le> limit \<longrightarrow> one_mapblock sb w blocks \<longrightarrow> \<not> free_window (used sb) w blocks)
    | Abort \<Rightarrow> False"
proof -
  let ?M = "mapsize sb" and ?stop = "8 * (offset + bytes)" and ?start = "8 * offset + startbit"
  let ?base = "m * mapsize sb"
  have base: "wrap32 (m * 2 ^ mapshift sb) = ?base"
    using mlim lim wf by (simp add: wf_bitmap_def mapsize_def wrap_simps)
  have stop: "?stop \<le> ?M" "?start \<le> ?stop"
    using off bytes by (auto simp: mapsize_eq)
  have post: "walk_post (bm_bit buf) blocks limit ?base ?start ?stop r"
    using walk_bits_post [of 0 blocks ?start ?stop "bm_bit buf" limit ?base] b stop(2) off(2) bytes(2)
    by (simp add: r_def base scan_bytes_walk)
  have in_m: "w div ?M = m" "w mod ?M = w - ?base" if "lo \<le> w" "w < (m + 1) * ?M" for w
  proof -
    show "w div ?M = m" using that by (intro div_nat_eqI) (simp_all add: lo_def algebra_simps)
    then show "w mod ?M = w - ?base" using minus_div_mult_eq_mod [of w ?M] by simp
  qed
  have free_iff: "free_window (used sb) w blocks \<longleftrightarrow> free_window (bm_bit buf) (w - ?base) blocks"
    if "lo \<le> w" "w < (m + 1) * ?M" "one_mapblock sb w blocks" for w
    using free_window_in_block [OF m in_m(1) [OF that(1,2)] that(3)] in_m(2) [OF that(1,2)] by simp
  have end_le: "w - ?base + blocks \<le> ?stop"
    if "lo \<le> w" "w < (m + 1) * ?M" "w + blocks \<le> limit" "one_mapblock sb w blocks" for w
  proof -
    have "w - ?base + blocks \<le> ?M"
      using that(4) in_m(2) [OF that(1,2)] by (simp add: one_mapblock_def)
    moreover have "w - ?base + blocks \<le> 8 * (offset + tail)"
    proof -
      have "limit \<le> 8 * ((limit + 7) div 8)" by simp
      then have "limit \<le> ?base + 8 * (offset + tail)"
        using tail by (simp add: mapsize_eq algebra_simps flip: tail)
      moreover have "?base \<le> w" using that(1) by (simp add: lo_def)
      ultimately show ?thesis using that(3) by linarith
    qed
    moreover have "8 * (offset + (blocksize sb - offset)) = ?M"
      using off(1) by (simp add: mapsize_eq)
    ultimately show ?thesis by (auto simp: bytes(1) min_def)
  qed
  show ?thesis
  proof (cases r)
    case (More k)
    have "\<not> free_window (used sb) w blocks"
      if "lo \<le> w" "w < (m + 1) * ?M" "w + blocks \<le> limit" "one_mapblock sb w blocks" for w
      using post More end_le [OF that] free_iff [OF that(1,2,4)] that(1)
      by (simp add: walk_post_def lo_def)
    then show ?thesis using More by simp
  next
    case (Hit q)
    then obtain p where p: "?start \<le> p" "q + 1 = p + blocks + ?base" "p + blocks \<le> ?stop" "q < limit"
        "free_window (bm_bit buf) p blocks"
      using post by (auto simp: walk_post_def)
    let ?w = "?base + p"
    have w: "lo \<le> ?w" "?w < (m + 1) * ?M"
      using p(1,3) stop b by (simp_all add: lo_def)
    have one: "one_mapblock sb ?w blocks"
      using in_m(2) [OF w] p(3) stop by (simp add: one_mapblock_def)
    have "free_window (used sb) ?w blocks"
      using free_iff [OF w one] p(5) by simp
    moreover have "q + 1 = ?w + blocks" "?w + blocks \<le> limit" using p(2,4) by simp_all
    ultimately show ?thesis
      using Hit w one in_m(1) [OF w] by (auto intro!: exI [of _ ?w])
  next
    case Partial
    then obtain e where e: "e < ?stop" "limit \<le> e + ?base"
        "\<And>p. ?start \<le> p \<Longrightarrow> p + blocks \<le> e \<Longrightarrow> \<not> free_window (bm_bit buf) p blocks"
      using post by (auto simp: walk_post_def)
    have lt: "limit < (m + 1) * ?M" using e stop by simp
    have "\<not> free_window (used sb) w blocks"
      if "lo \<le> w" "w + blocks \<le> limit" "one_mapblock sb w blocks" for w
    proof -
      have "w < (m + 1) * ?M" using that(2) lt by simp
      then show ?thesis
        using that e(2) e(3) [of "w - ?base"] free_iff [of w] by (simp add: lo_def)
    qed
    then show ?thesis using Partial lt by simp
  next
    case Abort
    then show ?thesis using post by (simp add: walk_post_def)
  qed
qed

lemma balloc_loop_post:
  assumes wf: "wf_bitmap sb" and lim: "limit \<le> volblocks sb" and b: "0 < blocks"
    and mb: "mapblocks = (limit + (mapsize sb - 1)) div mapsize sb"
    and off: "offset < blocksize sb" "startbit < 8"
    and tail: "m < mapblocks \<Longrightarrow> m * blocksize sb + offset + tail = (limit + 7) div 8"
  shows "range_post sb blocks (m * mapsize sb + 8 * offset + startbit) limit
    (balloc_loop sb blocks limit mapblocks m offset startbit tail)"
  using off tail
proof (induction "mapblocks - m" arbitrary: m offset startbit tail)
  case 0
  then have "mapblocks \<le> m" by simp
  then have "limit \<le> m * mapsize sb" using ceil_mapsize [of limit sb m] by (simp add: mb)
  then show ?case
    using \<open>mapblocks \<le> m\<close> b by (simp add: balloc_loop.simps [of _ _ _ _ m] range_post_def)
next
  case (Suc k)
  let ?M = "mapsize sb" and ?lo = "m * mapsize sb + 8 * offset + startbit"
  let ?bytes = "min (blocksize sb - offset) tail"
  let ?startbit' = "if ?bytes = 0 then startbit else 0"
  have m: "m < mapblocks" using Suc.hyps(2) by simp
  then have mlim: "m * ?M < limit" using ceil_mapsize [of limit sb m] by (simp add: mb)
  note tail = Suc.prems(3) [OF m]
  obtain buf where buf: "bitmap sb m = Some buf"
    using wf mlim lim by (auto simp: wf_bitmap_def dest: less_le_trans)
  let ?next = "balloc_loop sb blocks limit mapblocks (m + 1) 0 ?startbit' (tail - ?bytes)"
  have "range_post sb blocks ((m + 1) * ?M + 8 * 0 + ?startbit') limit ?next"
  proof (rule Suc.hyps(1))
    assume m1: "m + 1 < mapblocks"
    then have "(m + 1) * ?M < limit" using ceil_mapsize [of limit sb "m + 1"] by (simp add: mb)
    then have "(m + 1) * blocksize sb \<le> (limit + 7) div 8"
      by (simp add: mapsize_eq algebra_simps)
    then have "blocksize sb - offset \<le> tail" using tail Suc.prems(1) by simp
    then show "(m + 1) * blocksize sb + 0 + (tail - ?bytes) = (limit + 7) div 8"
      using tail Suc.prems(1) by simp
  qed (use Suc.hyps(2) Suc.prems in auto)
  then have next_post: "range_post sb blocks ((m + 1) * ?M + ?startbit') limit ?next" by simp
  show ?case
  proof (cases "?bytes = 0")
    case True
    then have "tail = 0" using Suc.prems(1) by simp
    then have "m * blocksize sb + offset = (limit + 7) div 8" using tail by simp
    moreover have "limit \<le> 8 * ((limit + 7) div 8)" by simp
    ultimately have "limit \<le> 8 * (m * blocksize sb + offset)" by simp
    then have "limit \<le> ?lo" by (simp add: mapsize_eq algebra_simps)
    moreover have "?lo \<le> (m + 1) * ?M + ?startbit'"
      using Suc.prems(1,2) True by (simp add: mapsize_eq)
    ultimately have "range_post sb blocks ?lo limit ?next"
      using b by (intro range_post_later [OF next_post]) auto
    then show ?thesis
      using m buf True by (simp add: balloc_loop.simps [of _ _ _ _ m] scan_bytes.simps [of _ _ _ _ offset])
  next
    case False
    have lo_le: "?lo \<le> (m + 1) * ?M + ?startbit'"
      using Suc.prems(1,2) by (simp add: mapsize_eq)
    have sb': "?startbit' = 0" using False by (rule if_not_P)
    note next_post = next_post [unfolded sb'] and lo_le = lo_le [unfolded sb']
    let ?next = "balloc_loop sb blocks limit mapblocks (m + 1) 0 0 (tail - ?bytes)"
    let ?r = "scan_bytes blocks limit (wrap32 (m * 2 ^ mapshift sb)) buf offset (offset + ?bytes) startbit 0"
    have scan: "case ?r of
        More _ \<Rightarrow> \<forall>w\<ge>?lo. w < (m + 1) * ?M \<longrightarrow> w + blocks \<le> limit \<longrightarrow> one_mapblock sb w blocks
            \<longrightarrow> \<not> free_window (used sb) w blocks
      | Hit q \<Rightarrow> \<exists>w\<ge>?lo. q + 1 = w + blocks \<and> w + blocks \<le> limit \<and> one_mapblock sb w blocks
          \<and> w div ?M = m \<and> free_window (used sb) w blocks
      | Partial \<Rightarrow> limit < (m + 1) * ?M \<and>
          (\<forall>w\<ge>?lo. w + blocks \<le> limit \<longrightarrow> one_mapblock sb w blocks \<longrightarrow> \<not> free_window (used sb) w blocks)
      | Abort \<Rightarrow> False"
      using False by (intro scan_block [OF wf lim buf mlim Suc.prems(1,2) b tail]) simp_all
    show ?thesis
    proof (cases ?r)
      case (More k)
      have "range_post sb blocks ?lo limit ?next"
        using scan More by (intro range_post_later [OF next_post]) (use lo_le sb' in auto)
      then show ?thesis
        using m buf More sb' by (simp add: balloc_loop.simps [of _ _ _ _ m] Let_def)
    next
      case (Hit q)
      then obtain w where w: "?lo \<le> w" "q + 1 = w + blocks" "w + blocks \<le> limit"
          "one_mapblock sb w blocks" "w div ?M = m" "free_window (used sb) w blocks"
        using scan by auto
      have "q - (blocks - 1) = w" using w(2) b by simp
      then show ?thesis
        using m buf Hit w by (auto simp: balloc_loop.simps [of _ _ _ _ m] Let_def range_post_def
            alloc_extent_def)
    next
      case Partial
      have pl: "limit < (m + 1) * ?M" using scan Partial by simp
      then have "mapblocks \<le> m + 1" using ceil_mapsize [of limit sb "m + 1"] by (simp add: mb)
      then have eq: "mapblocks - Suc 0 = m" using m by simp
      have "range_post sb blocks ?lo limit ?next"
        using scan Partial by (intro range_post_later [OF next_post]) (use lo_le sb' in auto)
      then show ?thesis
        using m buf Partial sb' eq
        by (simp add: balloc_loop.simps [of _ _ _ _ m] Let_def)
    next
      case Abort
      then show ?thesis using scan by simp
    qed
  qed
qed

lemma balloc_from_range_post:
  assumes wf: "wf_bitmap sb" and b: "0 < blocks" and lim: "start + count \<le> volblocks sb"
  shows "range_post sb blocks start (start + count) (balloc_from_range sb start count blocks)"
proof -
  let ?M = "mapsize sb" and ?limit = "start + count"
  let ?mapblocks = "(?limit + (?M - 1)) div ?M"
  have sm: "start < 2 ^ 32" "?limit < 2 ^ 32" using lim wf by (auto simp: wf_bitmap_def)
  have "?limit \<le> ?limit * ?M" using mapsize_pos [of sb] by (cases "?M") simp_all
  then have "?mapblocks \<le> ?limit" by (simp only: ceil_mapsize)
  then have w: "wrap32 ?mapblocks = ?mapblocks" using sm(2) by (intro wrap32_id) (rule le_less_trans)
  have w': "wrap32 (start div ?M) = start div ?M"
    using sm(1) div_le_dividend le_less_trans by (intro wrap32_id) blast
  have split8: "8 * ((start mod ?M) div 8) + start mod 8 = start mod ?M"
    using mult_div_mod_eq [of 8 "start mod ?M"] by (simp add: mapsize_eq mod_mod_cancel)
  have "range_post sb blocks (start div ?M * ?M + 8 * ((start mod ?M) div 8) + start mod 8) ?limit
    (balloc_loop sb blocks ?limit ?mapblocks (start div ?M) ((start mod ?M) div 8) (start mod 8)
       ((count + start mod 8 + 7) div 8))"
  proof (rule balloc_loop_post [OF wf lim b refl])
    have "start mod ?M < ?M" by simp
    then show "(start mod ?M) div 8 < blocksize sb"
      by (simp add: mapsize_eq less_mult_imp_div_less mult.commute)
    have "?limit + 7 = (count + start mod 8 + 7) + 8 * (start div ?M * blocksize sb + (start mod ?M) div 8)"
      using split8 div_mult_mod_eq [of start ?M] by (simp add: mapsize_eq algebra_simps)
    then show "start div ?M * blocksize sb + (start mod ?M) div 8 + (count + start mod 8 + 7) div 8
        = (?limit + 7) div 8"
      by simp
  qed simp
  then show ?thesis
    using b w w' split8 by (simp add: balloc_from_range_def Let_def add.assoc)
qed

section \<open>Extents of the volume\<close>

definition free_extent :: "'a sb_scheme \<Rightarrow> nat \<Rightarrow> nat \<Rightarrow> 'a sb_scheme" where
  "free_extent sb w n = sb\<lparr>bitmap := (bitmap sb)(w div mapsize sb \<mapsto>
       clear_bits (the (bitmap sb (w div mapsize sb))) (w mod mapsize sb) n),
     freeblocks := freeblocks sb + int n\<rparr>"

definition extent_ok :: "'a sb_scheme \<Rightarrow> nat \<Rightarrow> nat \<Rightarrow> bool" where
  "extent_ok sb w n \<longleftrightarrow> wf_bitmap sb \<and> one_mapblock sb w n \<and> w + n \<le> volblocks sb \<and> 0 < n"

definition extent_set :: "'a sb_scheme \<Rightarrow> nat \<Rightarrow> nat \<Rightarrow> bool" where
  "extent_set sb w n = all_set (the (bitmap sb (w div mapsize sb))) (w mod mapsize sb) n"

definition extent_clear :: "'a sb_scheme \<Rightarrow> nat \<Rightarrow> nat \<Rightarrow> bool" where
  "extent_clear sb w n = all_clear (the (bitmap sb (w div mapsize sb))) (w mod mapsize sb) n"

lemma extent_block:
  assumes "extent_ok sb w n"
  obtains buf where "bitmap sb (w div mapsize sb) = Some buf" "8 * length buf = mapsize sb"
    "bm_range buf (w mod mapsize sb) n"
proof -
  have wf: "wf_bitmap sb" and "w < volblocks sb" using assms by (auto simp: extent_ok_def)
  then obtain buf where buf: "bitmap sb (w div mapsize sb) = Some buf" "length buf = blocksize sb"
    by (rule wf_bitmapD)
  moreover have "bm_range buf (w mod mapsize sb) n"
    using assms mapsize_bound [OF wf] mod_less_divisor [OF mapsize_pos, of w sb]
    by (auto simp: bm_range_def extent_ok_def one_mapblock_def mapsize_eq buf(2))
  ultimately show thesis using that by (simp add: mapsize_eq)
qed

lemma in_extent_iff:
  assumes "extent_ok sb w n"
  shows "w \<le> b \<and> b < w + n \<longleftrightarrow>
    b div mapsize sb = w div mapsize sb \<and> w mod mapsize sb \<le> b mod mapsize sb
      \<and> b mod mapsize sb < w mod mapsize sb + n"
proof -
  let ?M = "mapsize sb"
  note dm = div_mult_mod_eq [of w ?M] div_mult_mod_eq [of b ?M]
  have lim: "w mod ?M + n \<le> ?M" using assms by (simp add: extent_ok_def one_mapblock_def)
  have "b div ?M = w div ?M" if "w \<le> b" "b < w + n"
  proof (rule div_nat_eqI)
    show "?M * (w div ?M) \<le> b" using that(1) le_trans [OF times_div_less_eq_dividend] by blast
    have "b < w div ?M * ?M + ?M" using that(2) lim dm(1) by linarith
    then show "b < ?M * Suc (w div ?M)" by (simp add: mult.commute)
  qed
  then show ?thesis using dm by (metis add_le_cancel_left add_less_cancel_left add.assoc)
qed

lemma used_alloc_extent:
  assumes ok: "extent_ok sb w n"
  shows "used (alloc_extent sb w n) b \<longleftrightarrow> used sb b \<or> w \<le> b \<and> b < w + n"
proof -
  obtain buf where buf: "bitmap sb (w div mapsize sb) = Some buf" "8 * length buf = mapsize sb"
      "bm_range buf (w mod mapsize sb) n" using ok by (rule extent_block)
  have "b mod mapsize sb < mapsize sb" by simp
  then show ?thesis
    unfolding in_extent_iff [OF ok]
    using buf by (auto simp: used_def alloc_extent_def mapsize_def mapshift_def set_bits_bit)
qed

lemma used_free_extent:
  assumes ok: "extent_ok sb w n"
  shows "used (free_extent sb w n) b \<longleftrightarrow> used sb b \<and> \<not> (w \<le> b \<and> b < w + n)"
proof -
  obtain buf where buf: "bitmap sb (w div mapsize sb) = Some buf" "8 * length buf = mapsize sb"
      "bm_range buf (w mod mapsize sb) n" using ok by (rule extent_block)
  have "b mod mapsize sb < mapsize sb" by simp
  then show ?thesis
    unfolding in_extent_iff [OF ok]
    using buf by (auto simp: used_def free_extent_def mapsize_def mapshift_def clear_bits_bit)
qed

lemma volblocks_extent [simp]:
  "volblocks (alloc_extent sb w n) = volblocks sb" "volblocks (free_extent sb w n) = volblocks sb"
  "mapsize (alloc_extent sb w n) = mapsize sb" "mapsize (free_extent sb w n) = mapsize sb"
  "blocksize (alloc_extent sb w n) = blocksize sb" "blocksize (free_extent sb w n) = blocksize sb"
  by (simp_all add: alloc_extent_def free_extent_def mapsize_def mapshift_def blocksize_def)

lemma wf_bitmap_extent:
  assumes ok: "extent_ok sb w n"
  shows "wf_bitmap (alloc_extent sb w n)" "wf_bitmap (free_extent sb w n)"
proof -
  obtain buf where buf: "bitmap sb (w div mapsize sb) = Some buf" "8 * length buf = mapsize sb"
      "bm_range buf (w mod mapsize sb) n" using ok by (rule extent_block)
  have wf: "wf_bitmap sb" using ok by (simp add: extent_ok_def)
  show "wf_bitmap (alloc_extent sb w n)"
    using wf buf by (auto simp: wf_bitmap_def alloc_extent_def mapsize_def mapshift_def
        blocksize_def length_set_bits)
  show "wf_bitmap (free_extent sb w n)"
    using wf buf by (auto simp: wf_bitmap_def free_extent_def mapsize_def mapshift_def
        blocksize_def length_clear_bits)
qed

lemma extent_set_iff:
  assumes ok: "extent_ok sb w n"
  shows "extent_set sb w n \<longleftrightarrow> (\<forall>b\<ge>w. b < w + n \<longrightarrow> used sb b)"
    and "extent_clear sb w n \<longleftrightarrow> (\<forall>b\<ge>w. b < w + n \<longrightarrow> \<not> used sb b)"
proof -
  let ?M = "mapsize sb"
  obtain buf where buf: "bitmap sb (w div ?M) = Some buf" "8 * length buf = ?M"
      "bm_range buf (w mod ?M) n" using ok by (rule extent_block)
  have lim: "w mod ?M + n \<le> ?M" using ok by (simp add: extent_ok_def one_mapblock_def)
  have u: "used sb (w div ?M * ?M + i) = bm_bit buf i" if "i < w mod ?M + n" for i
    using that lim by (intro used_in_block [OF buf(1)]) simp
  have all: "(\<forall>b\<ge>w. b < w + n \<longrightarrow> P (used sb b)) \<longleftrightarrow>
      (\<forall>i\<ge>w mod ?M. i < w mod ?M + n \<longrightarrow> P (bm_bit buf i))" for P
  proof
    assume l: "\<forall>b\<ge>w. b < w + n \<longrightarrow> P (used sb b)"
    show "\<forall>i\<ge>w mod ?M. i < w mod ?M + n \<longrightarrow> P (bm_bit buf i)"
    proof (intro allI impI)
      fix i assume i: "w mod ?M \<le> i" "i < w mod ?M + n"
      then show "P (bm_bit buf i)"
        using l [rule_format, of "w div ?M * ?M + i"] u [OF i(2)] div_mult_mod_eq [of w ?M] by simp
    qed
  next
    assume r: "\<forall>i\<ge>w mod ?M. i < w mod ?M + n \<longrightarrow> P (bm_bit buf i)"
    show "\<forall>b\<ge>w. b < w + n \<longrightarrow> P (used sb b)"
    proof (intro allI impI)
      fix b assume "w \<le> b" "b < w + n"
      then have b: "b div ?M = w div ?M" "w mod ?M \<le> b mod ?M" "b mod ?M < w mod ?M + n"
        using in_extent_iff [OF ok, of b] by auto
      then show "P (used sb b)"
        using r u [OF b(3)] div_mult_mod_eq [of b ?M] by simp
    qed
  qed
  show "extent_set sb w n \<longleftrightarrow> (\<forall>b\<ge>w. b < w + n \<longrightarrow> used sb b)"
    using all [of "\<lambda>x. x"] by (simp add: extent_set_def buf(1) all_set_iff [OF buf(3)])
  show "extent_clear sb w n \<longleftrightarrow> (\<forall>b\<ge>w. b < w + n \<longrightarrow> \<not> used sb b)"
    using all [of Not] by (simp add: extent_clear_def buf(1) all_clear_iff [OF buf(3)])
qed

text \<open>The volume keeps the contract of a bitmap, extent by extent.\<close>

interpretation vol: bit_run_store
  volblocks used extent_ok alloc_extent free_extent extent_set extent_clear
proof unfold_locales
  fix m :: "'a sb_scheme" and s c t d i :: nat
  assume ok: "extent_ok m s c"
  show "s + c \<le> volblocks m" using ok by (simp add: extent_ok_def)
  have "wf_bitmap m" using ok by (simp add: extent_ok_def)
  then show "extent_ok (alloc_extent m s c) t d = extent_ok m t d"
    "extent_ok (free_extent m s c) t d = extent_ok m t d"
    using wf_bitmap_extent [OF ok] by (simp_all add: extent_ok_def one_mapblock_def)
qed (simp_all add: used_alloc_extent used_free_extent extent_set_iff)

section \<open>What balloc promises\<close>

lemma free_count_alloc:
  assumes "extent_ok sb w n" "free_window (used sb) w n"
  shows "free_count (alloc_extent sb w n) + n = free_count sb"
  using vol.free_put [OF assms(1)] assms
  by (simp add: free_count_def extent_set_iff(2) free_window_def)

lemma free_count_free:
  assumes "extent_ok sb w n" "extent_set sb w n"
  shows "free_count (free_extent sb w n) = free_count sb + n"
  using vol.free_del [OF assms] by (simp add: free_count_def)

lemma wf_sb_alloc:
  assumes wf: "wf_sb sb" and ok: "extent_ok sb w n" and free: "free_window (used sb) w n"
  shows "wf_sb (alloc_extent sb w n)"
  using wf wf_bitmap_extent(1) [OF ok] free_count_alloc [OF ok free] ok
  by (auto simp: wf_sb_def alloc_extent_def extent_ok_def)

lemma wf_sb_free:
  assumes wf: "wf_sb sb" and ok: "extent_ok sb w n" and s: "extent_set sb w n"
  shows "wf_sb (free_extent sb w n)"
  using wf wf_bitmap_extent(2) [OF ok] free_count_free [OF ok s]
  by (auto simp: wf_sb_def free_extent_def)

definition no_run :: "'a sb_scheme \<Rightarrow> nat \<Rightarrow> nat \<Rightarrow> nat \<Rightarrow> bool" where
  "no_run sb n lo hi \<longleftrightarrow>
     (\<forall>w\<ge>lo. w + n \<le> hi \<and> one_mapblock sb w n \<longrightarrow> \<not> free_window (used sb) w n)"

text \<open>
  The two outcomes of \<open>balloc\<close>: an extent that was free, or no space and the volume as it was.
\<close>

lemma balloc_cases:
  assumes wf: "wf_sb sb" and n: "0 < n"
  obtains (found) w where "balloc sb n = Some (Inr w, alloc_extent sb w n)" "extent_ok sb w n"
      "free_window (used sb) w n"
    | (full) "balloc sb n = Some (Inl ENOSPC, sb)" "no_run sb n (nextalloc sb) (volblocks sb)"
      "no_run sb n 0 (nextalloc sb)"
proof -
  let ?goal = "nextalloc sb" and ?tot = "volblocks sb"
  have wfb: "wf_bitmap sb" and le: "?goal \<le> ?tot" using wf by (auto simp: wf_sb_def)
  then have v: "?tot < 2 ^ 32" by (simp add: wf_bitmap_def)
  have s: "sub32 ?tot ?goal = ?tot - ?goal" "wrap32 ?goal = ?goal"
    using le v by (simp_all add: wrap_simps)
  have p1: "range_post sb n ?goal ?tot (balloc_from_range sb ?goal (?tot - ?goal) n)"
    using balloc_from_range_post [OF wfb n, of ?goal "?tot - ?goal"] le by simp
  have p2: "range_post sb n 0 ?goal (balloc_from_range sb 0 ?goal n)"
    using balloc_from_range_post [OF wfb n, of 0 ?goal] le by simp
  note d = balloc_def [of sb n] s
  from p1 show thesis
    unfolding range_post_def
  proof (elim disjE exE conjE)
    fix w assume "balloc_from_range sb ?goal (?tot - ?goal) n = Some (int w, alloc_extent sb w n)"
      "w + n \<le> ?tot" "one_mapblock sb w n" "free_window (used sb) w n"
    then show thesis using n wfb by (intro found [of w]) (simp_all add: d extent_ok_def)
  next
    assume r1: "balloc_from_range sb ?goal (?tot - ?goal) n = Some (- 1, sb)"
      and no1: "\<forall>w\<ge>?goal. w + n \<le> ?tot \<and> one_mapblock sb w n \<longrightarrow> \<not> free_window (used sb) w n"
    from p2 show thesis
      unfolding range_post_def
    proof (elim disjE exE conjE)
      fix w assume "balloc_from_range sb 0 ?goal n = Some (int w, alloc_extent sb w n)"
        "w + n \<le> ?goal" "one_mapblock sb w n" "free_window (used sb) w n"
      then show thesis using n wfb le r1 by (intro found [of w]) (simp_all add: d extent_ok_def)
    next
      assume "balloc_from_range sb 0 ?goal n = Some (- 1, sb)"
        "\<forall>w\<ge>0. w + n \<le> ?goal \<and> one_mapblock sb w n \<longrightarrow> \<not> free_window (used sb) w n"
      then show thesis using n r1 no1 by (intro full) (simp_all add: d no_run_def)
    qed
  qed
qed

lemma bfree_extent:
  assumes ok: "extent_ok sb w n"
  shows "bfree sb w n = Some (if extent_set sb w n then (Inr (), free_extent sb w n) else (Inl EIO, sb))"
proof -
  obtain buf where buf: "bitmap sb (w div mapsize sb) = Some buf" using ok by (rule extent_block)
  have "w < 2 ^ 32" using ok by (auto simp: extent_ok_def wf_bitmap_def)
  then have "wrap32 (w div mapsize sb) = w div mapsize sb"
    using div_le_dividend le_less_trans by (intro wrap32_id) blast
  then show ?thesis
    using ok buf by (simp add: bfree_def extent_set_def free_extent_def extent_ok_def Let_def)
qed

lemma balloc_one_full:
  assumes "wf_sb sb"
  shows "balloc sb 1 = Some (Inl ENOSPC, sb) \<longleftrightarrow> freeblocks sb = 0"
proof -
  have free: "freeblocks sb = int (free_count sb)" using assms by (simp add: wf_sb_def)
  have fin: "finite {b. b < volblocks sb \<and> \<not> used sb b}" by simp
  show ?thesis
  proof (rule balloc_cases [OF assms zero_less_one])
    fix w assume w: "balloc sb 1 = Some (Inr w, alloc_extent sb w 1)" "extent_ok sb w 1"
      "free_window (used sb) w 1"
    then have "free_count sb \<noteq> 0"
      using free_count_alloc [OF w(2,3)] by simp
    then show ?thesis using w(1) free by simp
  next
    assume full: "balloc sb 1 = Some (Inl ENOSPC, sb)"
      "no_run sb 1 (nextalloc sb) (volblocks sb)" "no_run sb 1 0 (nextalloc sb)"
    have "used sb b" if "b < volblocks sb" for b
    proof -
      have one: "one_mapblock sb b 1"
        using mod_less_divisor [OF mapsize_pos, of b sb] by (simp add: one_mapblock_def Suc_le_eq)
      have "\<not> free_window (used sb) b 1"
      proof (cases "b < nextalloc sb")
        case True
        then show ?thesis using full(3) one by (simp add: no_run_def)
      next
        case False
        then show ?thesis using full(2) one that by (simp add: no_run_def)
      qed
      then obtain j where "b \<le> j" "j < b + 1" "used sb j"
        unfolding free_window_def by blast
      then show ?thesis by (simp add: less_Suc_eq_le le_antisym)
    qed
    then have "free_count sb = 0" by (simp add: free_count_def)
    then show ?thesis using full(1) free by simp
  qed
qed

lemma free_count_code [code]:
  "free_count sb = length (filter (\<lambda>b. \<not> used sb b) [0..<volblocks sb])"
proof -
  have "{b. b < volblocks sb \<and> \<not> used sb b} = set (filter (\<lambda>b. \<not> used sb b) [0..<volblocks sb])"
    by auto
  then show ?thesis
    unfolding free_count_def by (metis distinct_card distinct_filter distinct_upt)
qed

text \<open>A volume of 20 blocks of 8 bytes with blocks 0, 1, 2 and 6 in use, for the witnesses.\<close>

definition demo_sb :: sb where
  "demo_sb = \<lparr>blockbits = 3, volblocks = 20, freeblocks = 16, nextalloc = 5,
     bitmap = (\<lambda>m. if m = 0 then Some [71, 0, 0, 0, 0, 0, 0, 0] else None)\<rparr>"

lemma wf_bitmap_demo: "wf_bitmap demo_sb"
  by (auto simp: wf_bitmap_def demo_sb_def mapsize_def mapshift_def blocksize_def)

lemma free_count_demo: "free_count demo_sb = 16"
  by code_simp

lemma wf_sb_demo: "wf_sb demo_sb"
  using wf_bitmap_demo free_count_demo by (simp add: wf_sb_def) (simp add: demo_sb_def)

lemmas balloc_eval = balloc_def balloc_from_range_def balloc_loop.simps scan_bytes.simps
  scan_bits.simps mapsize_def mapshift_def blocksize_def wrap32_def sub32_def

lemma balloc_demo: "\<exists>sb'. balloc demo_sb 3 = Some (Inr 7, sb')"
  by (simp add: balloc_eval demo_sb_def)

lemma extent_ok_demo: "extent_ok demo_sb 0 3" "extent_ok demo_sb 1 3"
  using wf_bitmap_demo
  by (simp_all add: extent_ok_def one_mapblock_def) (simp_all add: demo_sb_def mapsize_def mapshift_def)

section \<open>Properties\<close>

text \<open>C13. An allocation returns an extent inside the volume all of whose blocks were free, marks
  exactly those blocks used, takes their number off the free count and moves the goal behind
  them; the superblock stays consistent.\<close>

theorem balloc_sound:
  assumes "wf_sb sb" and "0 < n" and "balloc sb n = Some (Inr w, sb')"
  shows "w + n \<le> volblocks sb \<and> (\<forall>b. used sb' b \<longleftrightarrow> used sb b \<or> w \<le> b \<and> b < w + n)
    \<and> (\<forall>b. w \<le> b \<and> b < w + n \<longrightarrow> \<not> used sb b)
    \<and> freeblocks sb' = freeblocks sb - int n \<and> nextalloc sb' = w + n \<and> wf_sb sb'"
proof -
  from assms(1,2) have "extent_ok sb w n \<and> free_window (used sb) w n \<and> sb' = alloc_extent sb w n"
    by (rule balloc_cases) (use assms(3) in auto)
  then have ok: "extent_ok sb w n" and free: "free_window (used sb) w n"
    and sb': "sb' = alloc_extent sb w n" by auto
  then show ?thesis
    using wf_sb_alloc [OF assms(1) ok free]
    by (simp add: used_alloc_extent extent_ok_def free_window_def) (simp add: alloc_extent_def)
qed

theorem balloc_sound_witness: "\<exists>sb'. balloc demo_sb 3 = Some (Inr 7, sb') \<and> freeblocks sb' = 13 \<and> wf_sb sb'"
proof -
  obtain sb' where r: "balloc demo_sb 3 = Some (Inr 7, sb')" using balloc_demo by blast
  show ?thesis using balloc_sound [OF wf_sb_demo _ r] r by (simp add: demo_sb_def)
qed

text \<open>C14. \<open>balloc\<close> always returns: no assertion fails, and when it reports no space, it has changed
  nothing and neither part of the volume that it searched holds a run of the length asked for
  inside one bitmap block.\<close>

theorem balloc_complete:
  assumes "wf_sb sb" and "0 < n"
  shows "(\<exists>w sb'. balloc sb n = Some (Inr w, sb')) \<or>
    balloc sb n = Some (Inl ENOSPC, sb) \<and> no_run sb n (nextalloc sb) (volblocks sb)
      \<and> no_run sb n 0 (nextalloc sb)"
  using assms by (rule balloc_cases) auto

theorem balloc_complete_witness: "\<exists>r. balloc demo_sb 15 = Some r"
  using balloc_complete [OF wf_sb_demo, of 15] by auto

text \<open>A request for one block fails exactly when the free count is zero.\<close>

theorem balloc_one_enospc_iff:
  assumes "wf_sb sb"
  shows "balloc sb 1 = Some (Inl ENOSPC, sb) \<longleftrightarrow> freeblocks sb = 0"
  by (rule balloc_one_full [OF assms])

theorem balloc_one_enospc_iff_witness: "balloc demo_sb 1 \<noteq> Some (Inl ENOSPC, demo_sb)"
  using balloc_one_enospc_iff [OF wf_sb_demo] by (simp add: demo_sb_def)

text \<open>C16. Freeing what was just allocated succeeds and brings back the used blocks and the free
  count.\<close>

theorem bfree_balloc:
  assumes "wf_sb sb" and "0 < n" and "balloc sb n = Some (Inr w, sb')"
  shows "\<exists>sb''. bfree sb' w n = Some (Inr (), sb'') \<and> wf_sb sb'' \<and> freeblocks sb'' = freeblocks sb
    \<and> (\<forall>b. used sb'' b = used sb b)"
proof -
  from assms(1,2) have "extent_ok sb w n \<and> free_window (used sb) w n \<and> sb' = alloc_extent sb w n"
    by (rule balloc_cases) (use assms(3) in auto)
  then have ok: "extent_ok sb w n" and free: "free_window (used sb) w n"
    and sb': "sb' = alloc_extent sb w n" by auto
  have ok': "extent_ok sb' w n" using ok by (simp add: sb' vol.ok_put)
  have set: "extent_set sb' w n" using vol.full_put [OF ok] by (simp add: sb')
  have "used sb' b \<longleftrightarrow> used sb b \<or> w \<le> b \<and> b < w + n" for b
    by (simp add: sb' used_alloc_extent [OF ok])
  then have "used (free_extent sb' w n) b = used sb b" for b
    using free_windowD [OF free] by (auto simp: used_free_extent [OF ok'])
  moreover have "wf_sb (free_extent sb' w n)"
    using wf_sb_free [OF _ ok' set] wf_sb_alloc [OF assms(1) ok free] by (simp add: sb')
  moreover have "freeblocks (free_extent sb' w n) = freeblocks sb"
    by (simp add: sb' free_extent_def alloc_extent_def)
  ultimately show ?thesis using bfree_extent [OF ok'] set by simp
qed

theorem bfree_balloc_witness:
  "\<exists>sb' sb''. balloc demo_sb 3 = Some (Inr 7, sb') \<and> bfree sb' 7 3 = Some (Inr (), sb'')
    \<and> freeblocks sb'' = 16"
proof -
  obtain sb' where r: "balloc demo_sb 3 = Some (Inr 7, sb')" using balloc_demo by blast
  show ?thesis using bfree_balloc [OF wf_sb_demo _ r] r by (auto simp: demo_sb_def)
qed

text \<open>C15. Freeing an extent with a block in it that is not allocated is refused with \<open>EIO\<close> and
  changes nothing; otherwise exactly its blocks become free and are counted.\<close>

theorem bfree_checks_double_free:
  assumes "wf_sb sb" and "extent_ok sb w n"
  shows "(if \<exists>b. w \<le> b \<and> b < w + n \<and> \<not> used sb b then bfree sb w n = Some (Inl EIO, sb)
    else \<exists>sb'. bfree sb w n = Some (Inr (), sb') \<and> wf_sb sb'
      \<and> freeblocks sb' = freeblocks sb + int n
      \<and> (\<forall>b. used sb' b \<longleftrightarrow> used sb b \<and> \<not> (w \<le> b \<and> b < w + n)))"
proof (cases "extent_set sb w n")
  case True
  then show ?thesis
    using assms wf_sb_free [OF assms True] extent_set_iff(1) [OF assms(2)]
    by (auto simp: bfree_extent used_free_extent) (simp add: free_extent_def)
next
  case False
  then show ?thesis using assms extent_set_iff(1) [OF assms(2)] by (auto simp: bfree_extent)
qed

theorem bfree_checks_double_free_witness:
  "bfree demo_sb 1 3 = Some (Inl EIO, demo_sb) \<and> (\<exists>sb'. bfree demo_sb 0 3 = Some (Inr (), sb'))"
proof -
  have u: "used demo_sb 0" "used demo_sb (Suc 0)" "used demo_sb 2" "\<not> used demo_sb 3"
    by (simp_all add: used_def bm_bit_def demo_sb_def mapsize_def mapshift_def bit_simps)
  have "\<exists>b. 1 \<le> b \<and> b < 1 + 3 \<and> \<not> used demo_sb b" using u(4) by (intro exI [of _ 3]) simp
  then have one: "bfree demo_sb 1 3 = Some (Inl EIO, demo_sb)"
    using bfree_checks_double_free [OF wf_sb_demo extent_ok_demo(2)] by (simp only: if_True)
  have "used demo_sb b" if "b < 0 + 3" for b
  proof -
    have "b = 0 \<or> b = Suc 0 \<or> b = 2" using that by linarith
    then show ?thesis using u by blast
  qed
  then have "\<not> (\<exists>b. 0 \<le> b \<and> b < 0 + 3 \<and> \<not> used demo_sb b)" by blast
  then have "\<exists>sb'. bfree demo_sb 0 3 = Some (Inr (), sb')"
    using bfree_checks_double_free [OF wf_sb_demo extent_ok_demo(1)] by (simp only: if_False) blast
  with one show ?thesis by blast
qed

text \<open>C17. The byte-wise scan, which skips full bytes and starts inside the first one, gives the
  result of a walk over the single bits: it stops at a run of free bits of the length asked for,
  at the limit, or at the end when there is no such run, and its assertion on the run length
  never fails.\<close>

theorem scan_bytes_eq_walk:
  assumes "startbit < 8" and "p < stop" and "0 < blocks"
  shows "scan_bytes blocks limit base buf p stop startbit 0 =
      walk_bits (bm_bit buf) blocks limit base (8 * p + startbit) (8 * stop) 0
    \<and> walk_post (bm_bit buf) blocks limit base (8 * p + startbit) (8 * stop)
      (scan_bytes blocks limit base buf p stop startbit 0)"
  using assms walk_bits_post [of 0 blocks "8 * p + startbit" "8 * stop" "bm_bit buf" limit base]
  by (simp add: scan_bytes_walk)

theorem scan_bytes_eq_walk_witness:
  "scan_bytes 3 100 40 [255, 241, 255] 0 3 2 0 = Hit 51"
  using scan_bytes_eq_walk [of 2 0 3 3 100 40 "[255, 241, 255]"]
  by (simp add: walk_bits.simps bm_bit_def)

lemma update_bitmap_extent:
  assumes ok: "extent_ok sb w n"
  shows "update_bitmap sb w n set1 =
    (if (if set1 then extent_clear sb w n else extent_set sb w n)
     then (Inr (), (if set1 then alloc_extent sb w n else free_extent sb w n)
            \<lparr>freeblocks := freeblocks sb + (if set1 then int n else (- int n) mod 2 ^ 32),
             nextalloc := nextalloc sb\<rparr>)
     else (Inl EINVAL, sb))"
proof -
  obtain buf where buf: "bitmap sb (w div mapsize sb) = Some buf" using ok by (rule extent_block)
  then show ?thesis
    by (cases set1) (auto simp: update_bitmap_def extent_set_def extent_clear_def alloc_extent_def
        free_extent_def Let_def)
qed

text \<open>C7. \<open>update_bitmap\<close> marks an extent that is clear, and refuses one that is not, but it adds the
  length to the free count where \<open>balloc\<close> takes it off: the free count it leaves is wrong for
  every extent.\<close>

theorem update_bitmap_miscounts:
  assumes "wf_sb sb" and "extent_ok sb w n"
  shows "if extent_clear sb w n
    then \<exists>sb'. update_bitmap sb w n True = (Inr (), sb')
      \<and> (\<forall>b. used sb' b \<longleftrightarrow> used sb b \<or> w \<le> b \<and> b < w + n)
      \<and> freeblocks sb' = int (free_count sb') + 2 * int n \<and> \<not> wf_sb sb'
    else update_bitmap sb w n True = (Inl EINVAL, sb)"
proof (cases "extent_clear sb w n")
  case True
  let ?a = "alloc_extent sb w n"
  let ?s = "?a\<lparr>freeblocks := freeblocks sb + int n, nextalloc := nextalloc sb\<rparr>"
  have free: "free_window (used sb) w n"
    using True assms(2) unfolding free_window_def by (simp add: extent_set_iff)
  have same: "used ?s = used ?a" by (auto simp: used_def mapsize_def mapshift_def fun_eq_iff)
  have "free_count ?s = free_count ?a" by (simp add: free_count_def same)
  then have cnt: "freeblocks ?s = int (free_count ?s) + 2 * int n"
    using wf_sb_alloc [OF assms(1,2) free] by (simp add: wf_sb_def alloc_extent_def assms(1))
  then have "\<not> wf_sb ?s" using assms(2) by (simp add: wf_sb_def extent_ok_def)
  then show ?thesis
    using True cnt by (simp add: update_bitmap_extent [OF assms(2)] same used_alloc_extent [OF assms(2)])
next
  case False
  then show ?thesis by (simp add: update_bitmap_extent [OF assms(2)])
qed

theorem update_bitmap_miscounts_witness:
  "\<exists>sb'. update_bitmap demo_sb 3 2 True = (Inr (), sb') \<and> freeblocks sb' = int (free_count sb') + 4"
proof -
  have ok: "extent_ok demo_sb 3 2"
    using wf_bitmap_demo
    by (simp add: extent_ok_def one_mapblock_def) (simp add: demo_sb_def mapsize_def mapshift_def)
  have "extent_clear demo_sb 3 2"
    by (simp add: extent_clear_def demo_sb_def mapsize_def mapshift_def all_clear_def
        left_mask_def right_mask_def wrap32_def Let_def mask_eq_exp_minus_1)
  then obtain sb' where "update_bitmap demo_sb 3 2 True = (Inr (), sb')"
    "freeblocks sb' = int (free_count sb') + 2 * int 2"
    using update_bitmap_miscounts [OF wf_sb_demo ok] by (simp only: if_True) blast
  then show ?thesis by (intro exI [of _ sb']) simp
qed

end
