(* ===== verification/Tux_Endian.thy ===== *)
theory Tux_Endian
  imports Tux_Prelude
begin

text \<open>
  Big-endian integers in byte blocks: the \<open>from_be_*\<close>/\<open>to_be_*\<close> conversions of
  \<open>tux3.h\<close> applied to a field of a block, and the \<open>encode*\<close>/\<open>decode*\<close> cursors that the
  inode attributes and the log use. A load returns a natural number; a store keeps the low
  bits of its argument, as the cast to the field's type does.
\<close>

section \<open>Fields of a block\<close>

definition load8 :: "bytes \<Rightarrow> nat \<Rightarrow> nat" where
  "load8 b p = unat (b ! p)"

definition load16 :: "bytes \<Rightarrow> nat \<Rightarrow> nat" where
  "load16 b p = load8 b p * 2 ^ 8 + load8 b (p + 1)"

definition load32 :: "bytes \<Rightarrow> nat \<Rightarrow> nat" where
  "load32 b p = load16 b p * 2 ^ 16 + load16 b (p + 2)"

definition load64 :: "bytes \<Rightarrow> nat \<Rightarrow> nat" where
  "load64 b p = load32 b p * 2 ^ 32 + load32 b (p + 4)"

definition be16 :: "nat \<Rightarrow> bytes" where
  "be16 v = [of_nat (v div 2 ^ 8), of_nat v]"

definition be32 :: "nat \<Rightarrow> bytes" where
  "be32 v = be16 (v div 2 ^ 16) @ be16 v"

definition be64 :: "nat \<Rightarrow> bytes" where
  "be64 v = be32 (v div 2 ^ 32) @ be32 v"

definition be48 :: "nat \<Rightarrow> bytes" where
  "be48 v = be16 (v div 2 ^ 32) @ be32 v"

definition store8 :: "bytes \<Rightarrow> nat \<Rightarrow> nat \<Rightarrow> bytes" where
  "store8 b p v = blit b p [of_nat v]"

definition store16 :: "bytes \<Rightarrow> nat \<Rightarrow> nat \<Rightarrow> bytes" where
  "store16 b p v = blit b p (be16 v)"

definition store32 :: "bytes \<Rightarrow> nat \<Rightarrow> nat \<Rightarrow> bytes" where
  "store32 b p v = blit b p (be32 v)"

definition store64 :: "bytes \<Rightarrow> nat \<Rightarrow> nat \<Rightarrow> bytes" where
  "store64 b p v = blit b p (be64 v)"

lemma length_be [simp]:
  "length (be16 v) = 2" "length (be32 v) = 4" "length (be64 v) = 8" "length (be48 v) = 6"
  by (simp_all add: be16_def be32_def be64_def be48_def)

lemma load8_bound: "load8 b p < 256"
  using unsigned_less [of "b ! p"] by (simp add: load8_def)

lemma load16_bound: "load16 b p < 65536"
  using load8_bound [of b p] load8_bound [of b "p + 1"] by (simp add: load16_def)

lemma load32_bound: "load32 b p < 4294967296"
  using load16_bound [of b p] load16_bound [of b "p + 2"] by (simp add: load32_def)

lemma load64_bound: "load64 b p < 18446744073709551616"
  using load32_bound [of b p] load32_bound [of b "p + 4"] by (simp add: load64_def)

lemmas load_bounds = load8_bound load16_bound load32_bound load64_bound

text \<open>A load depends only on the bytes it reads.\<close>

lemma load16_cong:
  "b ! p = c ! q \<Longrightarrow> b ! (p + 1) = c ! (q + 1) \<Longrightarrow> load16 b p = load16 c q"
  by (simp add: load16_def load8_def)

lemma load32_cong:
  assumes "\<And>i. i < 4 \<Longrightarrow> b ! (p + i) = c ! (q + i)"
  shows "load32 b p = load32 c q"
proof -
  have "b ! p = c ! q" "b ! (p + 1) = c ! (q + 1)"
    "b ! (p + 2) = c ! (q + 2)" "b ! (p + 2 + 1) = c ! (q + 2 + 1)"
    using assms [of 0] assms [of 1] assms [of 2] assms [of 3]
    by (simp_all add: numeral_3_eq_3)
  then show ?thesis
    unfolding load32_def by (metis load16_cong)
qed

lemma load64_cong:
  assumes "\<And>i. i < 8 \<Longrightarrow> b ! (p + i) = c ! (q + i)"
  shows "load64 b p = load64 c q"
proof -
  have "load32 b p = load32 c q"
    by (rule load32_cong) (simp add: assms)
  moreover have "load32 b (p + 4) = load32 c (q + 4)"
    using assms [of "4 + i" for i] by (intro load32_cong) (simp add: add.assoc)
  ultimately show ?thesis by (simp add: load64_def)
qed

lemma load16_chunk: "p + 2 \<le> length b \<Longrightarrow> load16 b p = load16 (chunk p 2 b) 0"
  by (rule load16_cong) (simp_all add: mem_simps)

lemma load32_chunk: "p + 4 \<le> length b \<Longrightarrow> load32 b p = load32 (chunk p 4 b) 0"
  by (rule load32_cong) (simp_all add: mem_simps)

lemma load64_chunk: "p + 8 \<le> length b \<Longrightarrow> load64 b p = load64 (chunk p 8 b) 0"
  by (rule load64_cong) (simp_all add: mem_simps)

lemma load16_be16: "load16 (be16 v) 0 = v mod 65536"
proof -
  have "(v div 256) mod 256 * 256 + v mod 256 = v mod 65536"
    using mod_mult2_eq [of v 256 256] by simp
  then show ?thesis
    by (simp add: load16_def load8_def be16_def unat_of_nat)
qed

lemma load16_append [simp]:
  "length xs = p \<Longrightarrow> load16 (xs @ ys) p = load16 ys 0"
  by (simp add: load16_def load8_def nth_append)

lemma load16_append_left: "p + 2 \<le> length xs \<Longrightarrow> load16 (xs @ ys) p = load16 xs p"
  by (simp add: load16_def load8_def nth_append)

lemma load32_append_left: "p + 4 \<le> length xs \<Longrightarrow> load32 (xs @ ys) p = load32 xs p"
  by (simp add: load32_def load16_append_left)

lemma load32_append: "length xs = p \<Longrightarrow> load32 (xs @ ys) p = load32 ys 0"
  by (rule load32_cong) (simp add: nth_append)

lemma load32_be32: "load32 (be32 v) 0 = v mod 4294967296"
proof -
  have "(v div 65536) mod 65536 * 65536 + v mod 65536 = v mod 4294967296"
    using mod_mult2_eq [of v 65536 65536] by simp
  then show ?thesis
    by (simp add: load32_def be32_def load16_append_left load16_be16)
qed

lemma load64_be64: "load64 (be64 v) 0 = v mod 18446744073709551616"
proof -
  have "(v div 4294967296) mod 4294967296 * 4294967296 + v mod 4294967296
      = v mod 18446744073709551616"
    using mod_mult2_eq [of v 4294967296 4294967296] by simp
  then show ?thesis
    by (simp add: load64_def be64_def load32_append_left load32_append load32_be32)
qed

lemma length_store [mem_simps]:
  "p + 1 \<le> length b \<Longrightarrow> length (store8 b p v) = length b"
  "p + 2 \<le> length b \<Longrightarrow> length (store16 b p v) = length b"
  "p + 4 \<le> length b \<Longrightarrow> length (store32 b p v) = length b"
  "p + 8 \<le> length b \<Longrightarrow> length (store64 b p v) = length b"
  by (simp_all add: store8_def store16_def store32_def store64_def length_blit)

lemma load16_store16 [mem_simps]:
  assumes "p + 2 \<le> length b" shows "load16 (store16 b p v) p = v mod 65536"
  using assms load16_chunk [of p "store16 b p v"]
  by (simp add: store16_def mem_simps load16_be16)

lemma load64_store64 [mem_simps]:
  assumes "p + 8 \<le> length b" shows "load64 (store64 b p v) p = v mod 18446744073709551616"
  using assms load64_chunk [of p "store64 b p v"]
  by (simp add: store64_def mem_simps load64_be64)

lemma load16_blit_other [mem_simps]:
  assumes "off + length ys \<le> length b" and "p + 2 \<le> length b"
    and "p + 2 \<le> off \<or> off + length ys \<le> p"
  shows "load16 (blit b off ys) p = load16 b p"
  using assms by (auto simp: load16_def load8_def mem_simps)

lemma load64_blit_other [mem_simps]:
  assumes "off + length ys \<le> length b" and "p + 8 \<le> length b"
    and "p + 8 \<le> off \<or> off + length ys \<le> p"
  shows "load64 (blit b off ys) p = load64 b p"
proof -
  have "chunk p 8 (blit b off ys) = chunk p 8 b"
    using assms by (auto simp: mem_simps)
  then show ?thesis
    using assms load64_chunk [of p b] load64_chunk [of p "blit b off ys"] by (simp add: mem_simps)
qed

section \<open>The encode and decode cursors of tux3.h\<close>

text \<open>
  \<open>encode16(at, val)\<close> writes at the cursor and returns the cursor behind the field. Here a
  cursor that writes forward is the list of bytes written so far, and a cursor that reads
  forward is the list of bytes still unread; \<open>None\<close> is a read past the end of the buffer.
\<close>

definition encode16 :: "bytes \<Rightarrow> nat \<Rightarrow> bytes" where
  "encode16 at v = at @ be16 v"

definition encode32 :: "bytes \<Rightarrow> nat \<Rightarrow> bytes" where
  "encode32 at v = at @ be32 v"

definition encode64 :: "bytes \<Rightarrow> nat \<Rightarrow> bytes" where
  "encode64 at v = at @ be64 v"

definition encode48 :: "bytes \<Rightarrow> nat \<Rightarrow> bytes" where
  "encode48 at v = encode32 (encode16 at (v div 2 ^ 32)) v"

definition decode16 :: "bytes \<Rightarrow> (nat \<times> bytes) option" where
  "decode16 at = (if length at < 2 then None else Some (load16 at 0, drop 2 at))"

definition decode32 :: "bytes \<Rightarrow> (nat \<times> bytes) option" where
  "decode32 at = (if length at < 4 then None else Some (load32 at 0, drop 4 at))"

definition decode64 :: "bytes \<Rightarrow> (nat \<times> bytes) option" where
  "decode64 at = (if length at < 8 then None else Some (load64 at 0, drop 8 at))"

definition decode48 :: "bytes \<Rightarrow> (nat \<times> bytes) option" where
  "decode48 at = do {
     (part1, at) \<leftarrow> decode16 at;
     (part2, at) \<leftarrow> decode32 at;
     Some (push_bit 32 part1 OR part2, at) }"

lemma decode16_be16 [simp]: "decode16 (be16 v @ r) = Some (v mod 65536, r)"
  by (simp add: decode16_def load16_append_left load16_be16)

lemma decode32_be32 [simp]: "decode32 (be32 v @ r) = Some (v mod 4294967296, r)"
  by (simp add: decode32_def load32_append_left load32_be32)

lemma load64_append_left: "p + 8 \<le> length xs \<Longrightarrow> load64 (xs @ ys) p = load64 xs p"
  by (simp add: load64_def load32_append_left)

lemma decode64_be64 [simp]: "decode64 (be64 v @ r) = Some (v mod 18446744073709551616, r)"
  by (simp add: decode64_def load64_append_left load64_be64)

lemma or_shift_disjoint:
  fixes a b :: nat
  assumes "b < 2 ^ n"
  shows "push_bit n a OR b = a * 2 ^ n + b"
proof -
  have "push_bit n a + b = push_bit n a OR b"
  proof (rule disjunctive_add_eq_or)
    show "push_bit n a AND b = 0"
    proof (rule bit_eqI)
      fix k
      have "\<not> bit b k" if "n \<le> k"
      proof -
        from assms that have "b < 2 ^ k"
          by (meson less_le_trans one_le_numeral power_increasing)
        then show ?thesis by (simp add: bit_nat_def)
      qed
      then show "bit (push_bit n a AND b) k \<longleftrightarrow> bit (0 :: nat) k"
        by (auto simp: bit_simps)
    qed
  qed
  then show ?thesis by (simp add: push_bit_eq_mult)
qed

lemma decode48_be48 [simp]: "decode48 (be48 v @ r) = Some (v mod 281474976710656, r)"
proof -
  have "(v div 4294967296) mod 65536 * 4294967296 + v mod 4294967296 = v mod 281474976710656"
    using mod_mult2_eq [of v 4294967296 65536] by simp
  then show ?thesis
    using or_shift_disjoint [of "v mod 4294967296" 32 "(v div 4294967296) mod 65536"]
    by (simp add: decode48_def be48_def)
qed

lemma encode_append:
  "encode16 at v = at @ be16 v" "encode32 at v = at @ be32 v"
  "encode64 at v = at @ be64 v" "encode48 at v = at @ be48 v"
  by (simp_all add: encode16_def encode32_def encode64_def encode48_def be48_def)

end
