(* ===== verification/Tux_Leaf.thy ===== *)
theory Tux_Leaf
  imports Tux_Endian
begin

text \<open>
  What the generic B-tree code knows of a leaf: \<open>struct btree_ops\<close> of \<open>tux3.h\<close>. The record
  \<open>btree_dim\<close> holds the fields of \<open>struct btree\<close> and its superblock that the leaf operations
  read. The locale \<open>leaf_ops\<close> states what the B-tree relies on when it recognises, fills and
  splits leaves; the inode table interprets it on its own operations.
\<close>

record btree_dim =
  bsize :: nat
  entries_per_leaf :: nat

text \<open>
  \<open>holds leaf base M\<close>: the leaf stores the finite map \<open>M\<close>, with keys from \<open>base\<close> on.
  \<open>blank\<close> is what \<open>new_leaf\<close> hands to a split: a block that \<open>leaf_init\<close> has prepared.
\<close>

locale leaf_ops =
  fixes sniff :: "bytes \<Rightarrow> bool"
    and init :: "bytes \<Rightarrow> bytes"
    and split :: "nat \<Rightarrow> bytes \<Rightarrow> bytes \<Rightarrow> (nat \<times> bytes \<times> bytes) option"
    and block_ok :: "bytes \<Rightarrow> bool"
    and holds :: "bytes \<Rightarrow> nat \<Rightarrow> (nat \<Rightarrow> 'v option) \<Rightarrow> bool"
  assumes sniff_holds: "holds leaf base M \<Longrightarrow> sniff leaf"
    and init_holds: "block_ok block \<Longrightarrow> holds (init block) 0 Map.empty"
    and base_holds: "holds leaf base M \<Longrightarrow> M key \<noteq> None \<Longrightarrow> base \<le> key"
    and split_holds: "holds leaf base M \<Longrightarrow> base \<le> key \<Longrightarrow> key < 2 ^ 64 \<Longrightarrow> block_ok block \<Longrightarrow>
      \<exists>k l r. split key leaf (init block) = Some (k, l, r) \<and> base \<le> k \<and> k \<le> key
        \<and> holds l base (\<lambda>i. if i < k then M i else None)
        \<and> holds r k (\<lambda>i. if k \<le> i then M i else None)"
begin

text \<open>A split returns a key that sends every lookup to the half that has the entry.\<close>

lemma split_routes:
  assumes "holds leaf base M" "base \<le> key" "key < 2 ^ 64" "block_ok block"
  obtains k l r Ml Mr where "split key leaf (init block) = Some (k, l, r)" "base \<le> k" "k \<le> key"
    "holds l base Ml" "holds r k Mr" "\<And>i. M i = (if i < k then Ml i else Mr i)"
    "\<And>i. Ml i = None \<or> Mr i = None"
proof -
  from split_holds [OF assms] obtain k l r where *: "split key leaf (init block) = Some (k, l, r)"
    "base \<le> k" "k \<le> key" "holds l base (\<lambda>i. if i < k then M i else None)"
    "holds r k (\<lambda>i. if k \<le> i then M i else None)" by blast
  show ?thesis by (rule that [OF *]) auto
qed

lemma split_sniffs:
  assumes "holds leaf base M" "base \<le> key" "key < 2 ^ 64" "block_ok block"
    and "split key leaf (init block) = Some (k, l, r)"
  shows "sniff l \<and> sniff r"
  using split_holds [OF assms(1-4)] assms(5) sniff_holds by auto

lemma init_split:
  assumes "block_ok block" "block_ok block'" "key < 2 ^ 64"
  shows "\<exists>k l r. split key (init block) (init block') = Some (k, l, r)
    \<and> holds l 0 Map.empty \<and> holds r k Map.empty"
  using split_holds [OF init_holds [OF assms(1)] _ assms(3,2)] by auto

end

end
