(* ===== verification/Tux_Ileaf.thy ===== *)
theory Tux_Ileaf
  imports Tux_Leaf
begin

text \<open>
  Leaves of the inode table, \<open>kernel/ileaf.c\<close>, at the level of bytes. A leaf is a block of
  \<open>bsize bt\<close> bytes: a header of 16 bytes, the table of inode attributes that grows up from it,
  and the dictionary of 16-bit end offsets that grows down from the end of the block. A pointer
  into the leaf is its byte offset. The relation \<open>ileaf_rep\<close> says which list of attribute
  blobs a leaf holds (an empty blob is a free inode number), and every operation is shown to
  act on that list.
\<close>

section \<open>Header and dictionary\<close>

definition TUX3_MAGIC_ILEAF :: nat where
  "TUX3_MAGIC_ILEAF = 0x90de"

text \<open>\<open>dict - at\<close> is the byte offset \<open>blocksize - 2 * at\<close>.\<close>

definition idict_at :: "btree_dim \<Rightarrow> nat \<Rightarrow> nat" where
  "idict_at bt at = bsize bt - 2 * at"

definition asserted_atdict :: "btree_dim \<Rightarrow> bytes \<Rightarrow> nat \<Rightarrow> nat option" where
  "asserted_atdict bt leaf at = do { c_assert (at \<noteq> 0); Some (load16 leaf (idict_at bt at)) }"

definition atdict :: "btree_dim \<Rightarrow> bytes \<Rightarrow> nat \<Rightarrow> nat" where
  "atdict bt leaf at = (if at \<noteq> 0 then load16 leaf (idict_at bt at) else 0)"

definition add_idict :: "btree_dim \<Rightarrow> bytes \<Rightarrow> nat \<Rightarrow> int \<Rightarrow> bytes" where
  "add_idict bt leaf i n =
     store16 leaf (idict_at bt i) (nat ((int (load16 leaf (idict_at bt i)) + n) mod 2 ^ 16))"

definition icount :: "bytes \<Rightarrow> nat" where
  "icount leaf = load16 leaf 2"

definition ibase :: "bytes \<Rightarrow> nat" where
  "ibase leaf = load64 leaf 8"

definition set_icount :: "bytes \<Rightarrow> nat \<Rightarrow> bytes" where
  "set_icount leaf n = store16 leaf 2 n"

text \<open>The loop \<open>for (int i = lo; i <= hi; i++) add_idict(dict - i, n)\<close>.\<close>

definition add_idicts :: "btree_dim \<Rightarrow> nat \<Rightarrow> nat \<Rightarrow> int \<Rightarrow> bytes \<Rightarrow> bytes" where
  "add_idicts bt lo hi n leaf = foldl (\<lambda>l i. add_idict bt l i n) leaf [lo..<hi + 1]"

section \<open>The operations\<close>

definition ileaf_btree_init :: "nat \<Rightarrow> btree_dim \<Rightarrow> btree_dim" where
  "ileaf_btree_init blockbits bt = bt\<lparr>entries_per_leaf := 2 ^ (blockbits - 6) mod 2 ^ 16\<rparr>"

definition ileaf_init :: "btree_dim \<Rightarrow> bytes \<Rightarrow> bytes" where
  "ileaf_init bt leaf = blit leaf 0 (be16 TUX3_MAGIC_ILEAF @ replicate 14 0)"

definition ileaf_sniff :: "btree_dim \<Rightarrow> bytes \<Rightarrow> bool" where
  "ileaf_sniff bt leaf \<longleftrightarrow> load16 leaf 0 = TUX3_MAGIC_ILEAF"

definition ileaf_need :: "btree_dim \<Rightarrow> bytes \<Rightarrow> nat" where
  "ileaf_need bt leaf = (let count = icount leaf in atdict bt leaf count + count * 2)"

definition ileaf_free :: "btree_dim \<Rightarrow> bytes \<Rightarrow> nat" where
  "ileaf_free bt leaf = sub32 (sub32 (bsize bt) (ileaf_need bt leaf)) 16"

text \<open>The attributes' offset in the leaf, when the inode has any, and their size.\<close>

definition ileaf_lookup :: "btree_dim \<Rightarrow> nat \<Rightarrow> bytes \<Rightarrow> (nat option \<times> nat) option" where
  "ileaf_lookup bt inum leaf = do {
     c_assert (inum \<ge> ibase leaf);
     c_assert (inum < wrap64 (ibase leaf + entries_per_leaf bt));
     let at = wrap32 (inum - ibase leaf);
     if at < icount leaf then do {
       let offset = atdict bt leaf at;
       limit \<leftarrow> asserted_atdict bt leaf (at + 1);
       let size = sub32 limit offset;
       Some (if size \<noteq> 0 then Some (16 + offset) else None, size) }
     else Some (None, 0) }"

function isinorder_loop :: "btree_dim \<Rightarrow> bytes \<Rightarrow> nat \<Rightarrow> nat \<Rightarrow> bool" where
  "isinorder_loop bt leaf i offset =
     (if i < icount leaf then
        let limit = load16 leaf (idict_at bt (i + 1))
        in if limit < offset then False else isinorder_loop bt leaf (i + 1) limit
      else True)"
  by pat_completeness auto
termination
  by (relation "measure (\<lambda>(bt, leaf, i, offset). icount leaf - i)") auto

declare isinorder_loop.simps [simp del]

definition isinorder :: "btree_dim \<Rightarrow> bytes \<Rightarrow> bool" where
  "isinorder bt leaf = isinorder_loop bt leaf 0 0"

definition ileaf_check :: "btree_dim \<Rightarrow> bytes \<Rightarrow> int" where
  "ileaf_check bt leaf =
     (if load16 leaf 0 \<noteq> TUX3_MAGIC_ILEAF then - 1
      else if \<not> isinorder bt leaf then - 1
      else 0)"

fun trim_count :: "btree_dim \<Rightarrow> bytes \<Rightarrow> nat \<Rightarrow> nat" where
  "trim_count bt leaf 0 = 0"
| "trim_count bt leaf (Suc 0) = 1"
| "trim_count bt leaf (Suc (Suc n)) =
     (if load16 leaf (idict_at bt (Suc (Suc n))) = load16 leaf (idict_at bt (Suc n))
      then trim_count bt leaf (Suc n) else Suc (Suc n))"

definition ileaf_trim :: "btree_dim \<Rightarrow> bytes \<Rightarrow> bytes" where
  "ileaf_trim bt leaf =
     (let count = trim_count bt leaf (icount leaf);
          count = (if count = 1 \<and> load16 leaf (idict_at bt 1) = 0 then 0 else count)
      in set_icount leaf count)"

text \<open>The two leaves after the split and the key it returns.\<close>

definition ileaf_split :: "btree_dim \<Rightarrow> nat \<Rightarrow> bytes \<Rightarrow> bytes \<Rightarrow> (nat \<times> bytes \<times> bytes) option" where
  "ileaf_split bt inum from into1 = do {
     c_assert (ileaf_sniff bt from);
     let leaf = from;
     let dest = into1;
     c_assert (inum \<ge> ibase leaf);
     let at = min (inum - ibase leaf) (icount leaf);
     let split = atdict bt leaf at;
     let free = atdict bt leaf (icount leaf);
     c_assert (free \<ge> split);
     let dest = blit dest 16 (chunk (16 + split) (free - split) leaf);
     let dest = set_icount dest (icount leaf - at);
     let dest = blit dest (idict_at bt (icount dest))
       (chunk (idict_at bt (icount leaf)) (2 * icount dest) leaf);
     let dest = add_idicts bt 1 (icount dest) (- int split) dest;
     let round = unat ((of_nat inum :: u64) AND NOT (of_nat (entries_per_leaf bt - 1)));
     let dest = store64 dest 8 (if round > wrap64 (ibase leaf + icount leaf) then round else inum);
     let leaf = set_icount leaf at;
     let leaf = memset leaf (16 + split) 0 (idict_at bt (icount leaf) - (16 + split));
     let leaf = ileaf_trim bt leaf;
     Some (ibase dest, leaf, dest) }"

definition ileaf_merge :: "btree_dim \<Rightarrow> bytes \<Rightarrow> bytes \<Rightarrow> bytes" where
  "ileaf_merge bt leaf from =
     (if icount from = 0 then leaf
      else
        let at = icount leaf;
            free = atdict bt leaf at;
            size = atdict bt from (icount from);
            leaf = blit leaf (16 + free) (chunk 16 size from);
            leaf = set_icount leaf (at + icount from);
            leaf = blit leaf (idict_at bt (icount leaf))
              (chunk (idict_at bt (icount from)) (2 * icount from) from)
        in if at = 0 then leaf
           else foldl (\<lambda>l i. add_idict bt l i (int (load16 l (idict_at bt at)))) leaf
                  [at + 1..<at + icount from + 1])"

text \<open>The loop that extends the dictionary with empty entries: \<open>extend_empty\<close> more of them.\<close>

fun extend_dict :: "btree_dim \<Rightarrow> nat \<Rightarrow> nat \<Rightarrow> nat \<Rightarrow> bytes \<Rightarrow> bytes" where
  "extend_dict bt limit count 0 leaf = leaf"
| "extend_dict bt limit count (Suc n) leaf =
     extend_dict bt limit (count + 1) n (store16 leaf (idict_at bt (count + 1)) limit)"

text \<open>The outer \<open>None\<close> is a failed assertion; the inner one is the \<open>NULL\<close> the code returns.\<close>

definition ileaf_resize :: "btree_dim \<Rightarrow> nat \<Rightarrow> bytes \<Rightarrow> nat \<Rightarrow> (nat option \<times> bytes) option" where
  "ileaf_resize bt inum leaf newsize = do {
     c_assert (ileaf_sniff bt leaf);
     c_assert (inum \<ge> ibase leaf);
     if inum - ibase leaf \<ge> entries_per_leaf bt then Some (None, leaf)
     else do {
       let at = inum - ibase leaf;
       let count = icount leaf;
       let extend_empty = (if at < count then 0 else at - count + 1);
       offset \<leftarrow> (if at \<noteq> 0 \<and> count \<noteq> 0 then asserted_atdict bt leaf (min at count) else Some 0);
       size \<leftarrow> (if at < count
         then do { limit \<leftarrow> asserted_atdict bt leaf (at + 1); Some (sub32 limit offset) }
         else Some 0);
       let more = to_int32 (int newsize - int size);
       if more > 0 \<and> int (2 * extend_empty) + more > int (ileaf_free bt leaf)
       then Some (None, leaf)
       else do {
         let limit = atdict bt leaf count;
         let leaf = extend_dict bt limit count extend_empty leaf;
         let count = count + extend_empty;
         itop \<leftarrow> asserted_atdict bt leaf count;
         let attrs = 16 + offset;
         c_assert (itop \<ge> offset + size);
         let leaf = memmove leaf (attrs + newsize) (attrs + size) (itop - offset - size);
         let leaf = add_idicts bt (at + 1) count more leaf;
         let leaf = set_icount leaf count;
         Some (Some attrs, leaf) } } }"

function find_empty_loop :: "btree_dim \<Rightarrow> bytes \<Rightarrow> nat \<Rightarrow> nat \<Rightarrow> nat" where
  "find_empty_loop bt leaf at offset =
     (if at < icount leaf then
        let limit = load16 leaf (idict_at bt (at + 1))
        in if offset = limit then at else find_empty_loop bt leaf (at + 1) limit
      else at)"
  by pat_completeness auto
termination
  by (relation "measure (\<lambda>(bt, leaf, at, offset). icount leaf - at)") auto

declare find_empty_loop.simps [simp del]

definition find_empty_inode :: "btree_dim \<Rightarrow> bytes \<Rightarrow> nat \<Rightarrow> nat option" where
  "find_empty_inode bt leaf goal = do {
     c_assert (goal \<ge> ibase leaf);
     if goal - ibase leaf \<ge> entries_per_leaf bt then Some goal
     else
       let at = goal - ibase leaf;
           at = (if at < icount leaf then find_empty_loop bt leaf at (atdict bt leaf at) else at)
       in Some (wrap64 (ibase leaf + at)) }"

definition ileaf_purge :: "btree_dim \<Rightarrow> nat \<Rightarrow> bytes \<Rightarrow> bytes option" where
  "ileaf_purge bt inum leaf = do {
     c_assert (inum \<ge> ibase leaf);
     c_assert (inum - ibase leaf < entries_per_leaf bt);
     let at = inum - ibase leaf;
     let offset = atdict bt leaf at;
     limit \<leftarrow> asserted_atdict bt leaf (at + 1);
     let size = sub32 limit offset;
     c_assert (size \<noteq> 0);
     free \<leftarrow> asserted_atdict bt leaf (icount leaf);
     let tail = sub32 (sub32 free offset) size;
     c_assert (wrap32 (offset + size + tail) \<le> free);
     let leaf = memmove leaf (16 + offset) (16 + offset + size) tail;
     let leaf = add_idicts bt (at + 1) (icount leaf) (- int size) leaf;
     Some (ileaf_trim bt leaf) }"

section \<open>What a leaf holds\<close>

text \<open>The end offset of the first \<open>i\<close> blobs.\<close>

definition ends :: "bytes list \<Rightarrow> nat \<Rightarrow> nat" where
  "ends xs i = length (concat (take i xs))"

lemma ends_0 [simp]: "ends xs 0 = 0"
  by (simp add: ends_def)

lemma ends_Suc: "i < length xs \<Longrightarrow> ends xs (Suc i) = ends xs i + length (xs ! i)"
  by (simp add: ends_def take_Suc_conv_app_nth)

lemma ends_all: "length xs \<le> i \<Longrightarrow> ends xs i = length (concat xs)"
  by (simp add: ends_def)

lemma ends_split: "length (concat xs) = ends xs i + length (concat (drop i xs))"
  unfolding ends_def by (metis append_take_drop_id concat_append length_append)

lemma ends_le: "ends xs i \<le> length (concat xs)"
  by (simp add: ends_split [of xs i])

lemma ends_mono: "i \<le> j \<Longrightarrow> ends xs i \<le> ends xs j"
  unfolding ends_def
  by (metis concat_append le_add1 le_add_diff_inverse length_append take_add)

definition ileaf_rep :: "btree_dim \<Rightarrow> bytes \<Rightarrow> nat \<Rightarrow> bytes list \<Rightarrow> bool" where
  "ileaf_rep bt leaf base xs \<longleftrightarrow>
     length leaf = bsize bt \<and> bsize bt \<le> 65536 \<and>
     load16 leaf 0 = TUX3_MAGIC_ILEAF \<and> icount leaf = length xs \<and> ibase leaf = base \<and>
     16 + length (concat xs) + 2 * length xs \<le> bsize bt \<and>
     chunk 16 (length (concat xs)) leaf = concat xs \<and>
     (\<forall>i. 0 < i \<and> i \<le> length xs \<longrightarrow> load16 leaf (idict_at bt i) = ends xs i)"

lemma ileaf_repD:
  assumes "ileaf_rep bt leaf base xs"
  shows "length leaf = bsize bt" "bsize bt \<le> 65536" "icount leaf = length xs" "ibase leaf = base"
    "16 + length (concat xs) + 2 * length xs \<le> bsize bt" "ileaf_sniff bt leaf"
    "chunk 16 (length (concat xs)) leaf = concat xs"
  using assms by (auto simp: ileaf_rep_def ileaf_sniff_def)

lemma ileaf_rep_dict:
  "ileaf_rep bt leaf base xs \<Longrightarrow> 0 < i \<Longrightarrow> i \<le> length xs \<Longrightarrow> load16 leaf (idict_at bt i) = ends xs i"
  by (simp add: ileaf_rep_def)

lemma atdict_rep:
  "ileaf_rep bt leaf base xs \<Longrightarrow> i \<le> length xs \<Longrightarrow> atdict bt leaf i = ends xs i"
  by (simp add: atdict_def ileaf_rep_dict)

lemma asserted_atdict_rep:
  "ileaf_rep bt leaf base xs \<Longrightarrow> 0 < i \<Longrightarrow> i \<le> length xs \<Longrightarrow> asserted_atdict bt leaf i = Some (ends xs i)"
  by (simp add: asserted_atdict_def ileaf_rep_dict)

lemma ends_bound: "ileaf_rep bt leaf base xs \<Longrightarrow> ends xs i < 65536"
  using ends_le [of xs i] ileaf_repD(2,5) [of bt leaf base xs] by simp

text \<open>The bytes of one blob.\<close>

lemma ileaf_rep_blob:
  assumes rep: "ileaf_rep bt leaf base xs" and i: "i < length xs"
  shows "chunk (16 + ends xs i) (length (xs ! i)) leaf = xs ! i"
proof -
  have cat: "concat xs = concat (take i xs) @ xs ! i @ concat (drop (Suc i) xs)"
    using id_take_nth_drop [OF i] by (metis concat.simps(2) concat_append)
  have "chunk (16 + ends xs i) (length (xs ! i)) leaf
      = chunk (ends xs i) (length (xs ! i)) (chunk 16 (length (concat xs)) leaf)"
    using ends_le [of xs "Suc i"] ends_Suc [OF i] by (simp add: chunk_chunk)
  also have "\<dots> = chunk (ends xs i) (length (xs ! i)) (concat xs)"
    using ileaf_repD(7) [OF rep] by simp
  also have "\<dots> = xs ! i"
    by (subst cat) (simp add: chunk_def ends_def)
  finally show ?thesis .
qed

section \<open>Dictionary updates\<close>

lemma load16_store16_dict:
  assumes "length leaf = bsize bt" "2 * i \<le> bsize bt" "2 * j \<le> bsize bt" "0 < i" "0 < j"
  shows "load16 (store16 leaf (idict_at bt i) v) (idict_at bt j) =
    (if i = j then v mod 65536 else load16 leaf (idict_at bt j))"
proof (cases "i = j")
  case True
  then show ?thesis using assms by (simp add: load16_store16 idict_at_def)
next
  case False
  then have "i < j \<or> j < i" by linarith
  then show ?thesis
    using assms False
    unfolding store16_def idict_at_def by (subst load16_blit_other) auto
qed

lemma nat_mod_16: "nat (x mod 65536) mod 65536 = nat (x mod 65536)"
  by (rule mod_less) (simp add: nat_less_iff)

lemma length_add_idict:
  "length leaf = bsize bt \<Longrightarrow> 0 < i \<Longrightarrow> 2 * i \<le> bsize bt \<Longrightarrow> length (add_idict bt leaf i n) = length leaf"
  by (simp add: add_idict_def mem_simps idict_at_def)

lemma add_idicts_Suc:
  "add_idicts bt lo (Suc hi) n leaf =
    (if lo \<le> Suc hi then add_idict bt (add_idicts bt lo hi n leaf) (Suc hi) n else leaf)"
  by (simp add: add_idicts_def)

lemma add_idicts_empty: "hi < lo \<Longrightarrow> add_idicts bt lo hi n leaf = leaf"
  by (simp add: add_idicts_def)

lemma length_add_idicts:
  "length leaf = bsize bt \<Longrightarrow> 0 < lo \<Longrightarrow> 2 * hi \<le> bsize bt
    \<Longrightarrow> length (add_idicts bt lo hi n leaf) = length leaf"
proof (induction hi)
  case 0
  then show ?case by (simp add: add_idicts_empty)
next
  case (Suc hi)
  then show ?case by (simp add: add_idicts_Suc length_add_idict)
qed

lemma add_idicts_dict:
  assumes "length leaf = bsize bt" "0 < lo" "2 * hi \<le> bsize bt" "0 < j" "2 * j \<le> bsize bt"
  shows "load16 (add_idicts bt lo hi n leaf) (idict_at bt j) =
    (if lo \<le> j \<and> j \<le> hi then nat ((int (load16 leaf (idict_at bt j)) + n) mod 65536)
     else load16 leaf (idict_at bt j))"
  using assms
proof (induction hi)
  case 0
  then show ?case by (simp add: add_idicts_empty)
next
  case (Suc hi)
  show ?case
  proof (cases "lo \<le> Suc hi")
    case False
    then show ?thesis by (simp add: add_idicts_empty)
  next
    case True
    have "load16 (add_idicts bt lo (Suc hi) n leaf) (idict_at bt j) =
        (if Suc hi = j then nat ((int (load16 (add_idicts bt lo hi n leaf) (idict_at bt j)) + n) mod 65536)
         else load16 (add_idicts bt lo hi n leaf) (idict_at bt j))"
      using Suc.prems True
      by (simp add: add_idicts_Suc add_idict_def load16_store16_dict length_add_idicts nat_mod_16)
    then show ?thesis using Suc True by auto
  qed
qed

lemma add_idicts_below:
  assumes "length leaf = bsize bt" "0 < lo" "2 * hi \<le> bsize bt" "p + k \<le> idict_at bt hi"
  shows "chunk p k (add_idicts bt lo hi n leaf) = chunk p k leaf"
  using assms
proof (induction hi)
  case 0
  then show ?case by (simp add: add_idicts_empty)
next
  case (Suc hi)
  then have "chunk p k (add_idicts bt lo hi n leaf) = chunk p k leaf" by (simp add: idict_at_def)
  then show ?case
    using Suc.prems
    by (simp add: add_idicts_Suc add_idict_def store16_def chunk_blit_before length_add_idicts
        idict_at_def)
qed

section \<open>Header updates\<close>

lemma header_cong:
  assumes "chunk 0 16 l' = chunk 0 16 l" "16 \<le> length l" "16 \<le> length l'"
  shows "load16 l' 0 = load16 l 0" "icount l' = icount l" "ibase l' = ibase l"
proof -
  have c: "chunk p n l' = chunk p n l" if "p + n \<le> 16" for p n
    using that assms(1) chunk_chunk [of p n 16 0 l'] chunk_chunk [of p n 16 0 l] by simp
  show "load16 l' 0 = load16 l 0" using c [of 0 2] assms(2,3) load16_chunk [of 0] by simp
  show "icount l' = icount l"
    using c [of 2 2] assms(2,3) load16_chunk [of 2 l] load16_chunk [of 2 l'] by (simp add: icount_def)
  show "ibase l' = ibase l"
    using c [of 8 8] assms(2,3) load64_chunk [of 8 l] load64_chunk [of 8 l'] by (simp add: ibase_def)
qed

lemma set_icount_simps:
  assumes "16 \<le> length l"
  shows "length (set_icount l n) = length l" "icount (set_icount l n) = n mod 65536"
    "load16 (set_icount l n) 0 = load16 l 0" "ibase (set_icount l n) = ibase l"
    "16 \<le> p \<Longrightarrow> p + 2 \<le> length l \<Longrightarrow> load16 (set_icount l n) p = load16 l p"
    "16 \<le> p \<Longrightarrow> p + k \<le> length l \<Longrightarrow> chunk p k (set_icount l n) = chunk p k l"
  using assms
  by (simp_all add: set_icount_def icount_def ibase_def mem_simps)
    (simp_all add: store16_def mem_simps)

lemma header_blit:
  assumes "16 \<le> off" "off + length ys \<le> length l"
  shows "load16 (blit l off ys) 0 = load16 l 0" "icount (blit l off ys) = icount l"
    "ibase (blit l off ys) = ibase l"
  using assms header_cong [of "blit l off ys" l] by (simp_all add: mem_simps)

lemma header_add_idicts:
  assumes "length l = bsize bt" "0 < lo" "16 + 2 * hi \<le> bsize bt"
  shows "load16 (add_idicts bt lo hi n l) 0 = load16 l 0" "icount (add_idicts bt lo hi n l) = icount l"
    "ibase (add_idicts bt lo hi n l) = ibase l"
  using assms header_cong [of "add_idicts bt lo hi n l" l]
  by (simp_all add: add_idicts_below length_add_idicts idict_at_def)

section \<open>Truncation and the gap\<close>

lemma ileaf_rep_take:
  assumes rep: "ileaf_rep bt leaf base xs" and m: "m \<le> length xs"
  shows "ileaf_rep bt (set_icount leaf m) base (take m xs)"
proof -
  note d = ileaf_repD [OF rep]
  have len: "16 \<le> length leaf" "m mod 65536 = m" using d m by auto
  have le: "ends xs m \<le> length (concat xs)" by (rule ends_le)
  have "chunk 16 (ends xs m) leaf = take (ends xs m) (chunk 16 (length (concat xs)) leaf)"
    using le by (simp add: chunk_def min_def)
  also have "\<dots> = concat (take m xs)"
    using d(7) by (metis append_eq_conv_conj append_take_drop_id concat_append ends_def)
  finally have tab: "chunk 16 (ends xs m) leaf = concat (take m xs)" .
  have "load16 (set_icount leaf m) (idict_at bt i) = ends (take m xs) i" if "0 < i" "i \<le> m" for i
    using that m d len ileaf_rep_dict [OF rep, of i]
    by (simp add: set_icount_simps idict_at_def ends_def min_def)
  moreover have "16 + length (concat (take m xs)) + 2 * m \<le> bsize bt"
    using d(5) m le by (simp add: ends_def)
  ultimately show ?thesis
    using d m len tab rep le
    by (simp add: ileaf_rep_def set_icount_simps ends_def)
qed

lemma ileaf_rep_gap:
  assumes rep: "ileaf_rep bt leaf base xs"
    and off: "16 + length (concat xs) \<le> off" "off + length ys + 2 * length xs \<le> bsize bt"
  shows "ileaf_rep bt (blit leaf off ys) base xs"
proof -
  note d = ileaf_repD [OF rep]
  have "load16 (blit leaf off ys) (idict_at bt i) = ends xs i" if "0 < i" "i \<le> length xs" for i
    using that off d ileaf_rep_dict [OF rep, of i]
    by (subst load16_blit_other) (auto simp: idict_at_def)
  moreover have "chunk 16 (length (concat xs)) (blit leaf off ys) = concat xs"
    using off d by (simp add: chunk_blit_before)
  ultimately show ?thesis
    using off d rep by (simp add: ileaf_rep_def header_blit length_blit)
qed

definition trim_list :: "'a list list \<Rightarrow> 'a list list" where
  "trim_list xs = rev (dropWhile (\<lambda>x. x = []) (rev xs))"

lemma trim_list_take:
  assumes "m \<le> length xs" "\<And>i. m \<le> i \<Longrightarrow> i < length xs \<Longrightarrow> xs ! i = []"
    and "m = 0 \<or> xs ! (m - 1) \<noteq> []"
  shows "trim_list xs = take m xs"
proof -
  have "drop m xs = replicate (length xs - m) []"
    using assms(2) by (intro nth_equalityI) auto
  then have "xs = take m xs @ replicate (length xs - m) []"
    by (metis append_take_drop_id)
  then have "rev xs = replicate (length xs - m) [] @ rev (take m xs)"
    by (metis rev_append rev_replicate)
  moreover have "dropWhile (\<lambda>x. x = []) (replicate k [] @ ys) = dropWhile (\<lambda>x. x = []) ys" for k ys
    by (induction k) auto
  ultimately have "dropWhile (\<lambda>x. x = []) (rev xs) = dropWhile (\<lambda>x. x = []) (rev (take m xs))"
    by simp
  also have "\<dots> = rev (take m xs)"
    using assms(1,3) by (cases "m = 0") (auto simp: take_Suc_conv_app_nth gr0_conv_Suc)
  finally show ?thesis by (simp add: trim_list_def)
qed

lemma trim_count_props:
  assumes rep: "ileaf_rep bt leaf base xs"
  shows "n \<le> length xs \<Longrightarrow>
    trim_count bt leaf n \<le> n \<and>
    (\<forall>i. trim_count bt leaf n \<le> i \<and> i < n \<longrightarrow> xs ! i = []) \<and>
    (1 < trim_count bt leaf n \<longrightarrow> xs ! (trim_count bt leaf n - 1) \<noteq> [])"
proof (induction n)
  case 0
  then show ?case by simp
next
  case (Suc n)
  show ?case
  proof (cases n)
    case 0
    then show ?thesis by simp
  next
    case (Suc k)
    have "load16 leaf (idict_at bt (Suc n)) = load16 leaf (idict_at bt n) \<longleftrightarrow> xs ! n = []"
      using Suc.prems Suc ileaf_rep_dict [OF rep] by (simp add: ends_Suc)
    then show ?thesis using Suc Suc.IH Suc.prems by (auto simp: less_Suc_eq)
  qed
qed

lemma ileaf_rep_trim:
  assumes rep: "ileaf_rep bt leaf base xs"
  shows "ileaf_rep bt (ileaf_trim bt leaf) base (trim_list xs)"
proof -
  define c where "c = trim_count bt leaf (icount leaf)"
  define m where "m = (if c = 1 \<and> load16 leaf (idict_at bt 1) = 0 then 0 else c)"
  note d = ileaf_repD [OF rep]
  have c: "c \<le> length xs" "\<And>i. c \<le> i \<Longrightarrow> i < length xs \<Longrightarrow> xs ! i = []"
    "1 < c \<Longrightarrow> xs ! (c - 1) \<noteq> []"
    using trim_count_props [OF rep, of "length xs"] d by (auto simp: c_def)
  have one: "load16 leaf (idict_at bt 1) = 0 \<longleftrightarrow> xs ! 0 = []" if "c = 1"
  proof -
    have "0 < length xs" using that c(1) by linarith
    then have "ends xs (Suc 0) = length (xs ! 0)" using ends_Suc [of 0 xs] by simp
    then show ?thesis using that c(1) ileaf_rep_dict [OF rep, of 1] by simp
  qed
  have "m \<le> length xs \<and> (\<forall>i. m \<le> i \<and> i < length xs \<longrightarrow> xs ! i = []) \<and> (m = 0 \<or> xs ! (m - 1) \<noteq> [])"
  proof (cases "c = 1 \<and> load16 leaf (idict_at bt 1) = 0")
    case True
    have "xs ! i = []" if "i < length xs" for i
      using that True one c(2) [of i] by (cases i) auto
    then show ?thesis using True by (simp add: m_def)
  next
    case False
    then have "m = c" by (auto simp: m_def)
    then show ?thesis using False c one by (cases "c = 1") auto
  qed
  then have "trim_list xs = take m xs" "m \<le> length xs" by (auto intro: trim_list_take)
  moreover have "ileaf_trim bt leaf = set_icount leaf m"
    unfolding ileaf_trim_def Let_def m_def c_def ..
  ultimately show ?thesis using ileaf_rep_take [OF rep, of m] by simp
qed

section \<open>Moving the tail of the table\<close>

text \<open>
  What resizing and purging share: the blob of inode number \<open>at\<close> becomes \<open>new\<close>, the blobs
  behind it move, and their dictionary entries with them.
\<close>

lemma concat_update:
  "at < length xs \<Longrightarrow> concat (xs[at := new]) = concat (take at xs) @ new @ concat (drop (Suc at) xs)"
  by (metis concat.simps(2) concat_append upd_conv_take_nth_drop)

lemma ends_update:
  assumes "at < length xs" "i \<le> length xs"
  shows "int (ends (xs[at := new]) i) =
    (if at < i then int (ends xs i) + int (length new) - int (length (xs ! at)) else int (ends xs i))"
  using assms(2)
proof (induction i)
  case 0
  then show ?case by simp
next
  case (Suc i)
  then show ?case using assms(1) by (auto simp: ends_Suc nth_list_update less_Suc_eq)
qed

lemma ileaf_rep_replace:
  assumes rep: "ileaf_rep bt leaf base xs" and at: "at < length xs"
    and grow: "grow = int n - int (length (xs ! at))"
    and room: "int (16 + length (concat xs) + 2 * length xs) + grow \<le> int (bsize bt)"
  defines "attrs \<equiv> 16 + ends xs at"
  defines "leaf' \<equiv> add_idicts bt (at + 1) (length xs) grow
    (memmove leaf (attrs + n) (attrs + length (xs ! at))
      (length (concat xs) - ends xs at - length (xs ! at)))"
  shows "\<exists>new. length new = n
    \<and> take (min n (length (xs ! at))) new = take (min n (length (xs ! at))) (xs ! at)
    \<and> ileaf_rep bt leaf' base (xs[at := new])"
proof -
  note d = ileaf_repD [OF rep]
  let ?s = "length (xs ! at)"
  let ?tail = "concat (drop (Suc at) xs)"
  let ?mv = "memmove leaf (attrs + n) (attrs + ?s) (length ?tail)"
  define new where "new = chunk attrs n ?mv"
  let ?ys = "xs[at := new]"
  have tot: "length (concat xs) = ends xs at + ?s + length ?tail"
    using ends_split [of xs "Suc at"] ends_Suc [OF at] by simp
  have tl: "length (concat xs) - ends xs at - ?s = length ?tail" using tot by simp
  have leaf': "leaf' = add_idicts bt (at + 1) (length xs) grow ?mv" unfolding leaf'_def tl ..
  have fit: "attrs + n + length ?tail + 2 * length xs \<le> bsize bt"
    using room grow tot unfolding attrs_def by linarith
  have fit': "attrs + ?s + length ?tail + 2 * length xs \<le> bsize bt"
    using d(5) tot unfolding attrs_def by linarith
  have tail: "chunk (attrs + ?s) (length ?tail) leaf = ?tail"
  proof -
    have "chunk (attrs + ?s) (length ?tail) leaf
        = chunk (ends xs at + ?s) (length ?tail) (chunk 16 (length (concat xs)) leaf)"
      using tot by (simp add: chunk_chunk attrs_def add.assoc)
    also have "\<dots> = chunk (ends xs at + ?s) (length ?tail)
        (concat (take at xs) @ xs ! at @ ?tail)"
      using d(7) concat_update [OF at, of "xs ! at"] by simp
    also have "\<dots> = ?tail" by (simp add: chunk_def ends_def)
    finally show ?thesis .
  qed
  have mv: "?mv = blit leaf (attrs + n) ?tail" by (simp add: memmove_def tail)
  have lmv: "length ?mv = bsize bt" using fit d(1) by (simp add: mv length_blit)
  have lnew: "length new = n" using fit lmv by (simp add: new_def length_chunk)
  have pre: "take (min n ?s) new = take (min n ?s) (xs ! at)"
  proof -
    have "take (min n ?s) new = chunk attrs (min n ?s) ?mv"
      by (simp add: new_def chunk_def min_def)
    also have "\<dots> = chunk attrs (min n ?s) leaf"
      using fit d(1) by (simp add: mv chunk_blit_before)
    also have "\<dots> = take (min n ?s) (chunk attrs ?s leaf)"
      by (simp add: chunk_def min_def)
    also have "\<dots> = take (min n ?s) (xs ! at)"
      using ileaf_rep_blob [OF rep at] by (simp add: attrs_def)
    finally show ?thesis .
  qed
  have total: "length (concat ?ys) = ends xs at + n + length ?tail"
    using at by (simp add: concat_update lnew ends_def)
  have front: "chunk 16 (ends xs at) ?mv = concat (take at xs)"
  proof -
    have "chunk 16 (ends xs at) ?mv = chunk 16 (ends xs at) leaf"
      using fit d(1) unfolding mv by (simp add: chunk_blit_before attrs_def)
    also have "\<dots> = take (ends xs at) (chunk 16 (length (concat xs)) leaf)"
      using tot by (simp add: chunk_def min_def)
    also have "\<dots> = concat (take at xs)"
      using d(7) by (metis append_eq_conv_conj append_take_drop_id concat_append ends_def)
    finally show ?thesis .
  qed
  have table: "chunk 16 (length (concat ?ys)) ?mv = concat ?ys"
  proof -
    have "chunk 16 (length (concat ?ys)) ?mv = chunk 16 (ends xs at) ?mv @ chunk attrs n ?mv
        @ chunk (attrs + n) (length ?tail) ?mv"
      by (simp add: total chunk_append attrs_def add.assoc)
    also have "\<dots> = concat (take at xs) @ new @ ?tail"
      using fit d(1) by (simp add: front new_def [symmetric]) (simp add: mv chunk_blit_same)
    finally show ?thesis using at by (simp add: concat_update)
  qed
  have dict: "load16 leaf' (idict_at bt i) = ends ?ys i" if i: "0 < i" "i \<le> length xs" for i
  proof -
    have old: "load16 ?mv (idict_at bt i) = ends xs i"
      using i fit d(1) ileaf_rep_dict [OF rep i]
      unfolding mv by (subst load16_blit_other) (auto simp: idict_at_def)
    have "ends ?ys i < 65536"
      using ends_le [of ?ys i] total fit d(2) by (simp add: attrs_def)
    moreover have "int (ends ?ys i) = (if at < i then int (ends xs i) + grow else int (ends xs i))"
      using ends_update [OF at i(2), of new] lnew grow by simp
    moreover have "2 * length xs \<le> bsize bt" using fit by simp
    ultimately show ?thesis
      using i lmv old by (auto simp: leaf' add_idicts_dict nat_eq_iff)
  qed
  have "ileaf_rep bt leaf' base ?ys"
    unfolding ileaf_rep_def
  proof (intro conjI allI impI)
    show "length leaf' = bsize bt" using lmv fit by (simp add: leaf' length_add_idicts)
    show "bsize bt \<le> 65536" by (rule d(2))
    have "16 \<le> attrs + n" "16 + 2 * length xs \<le> bsize bt" using fit by (auto simp: attrs_def)
    then have "load16 leaf' 0 = load16 leaf 0" "icount leaf' = icount leaf" "ibase leaf' = ibase leaf"
      using lmv fit d(1) by (simp_all add: leaf' header_add_idicts) (simp_all add: mv header_blit)
    then show "load16 leaf' 0 = TUX3_MAGIC_ILEAF" "icount leaf' = length ?ys" "ibase leaf' = base"
      using d by (simp_all add: ileaf_sniff_def)
    show "16 + length (concat ?ys) + 2 * length ?ys \<le> bsize bt"
      using total fit by (simp add: attrs_def)
    show "chunk 16 (length (concat ?ys)) leaf' = concat ?ys"
      using table lmv fit total by (simp add: leaf' add_idicts_below idict_at_def attrs_def)
    show "load16 leaf' (idict_at bt i) = ends ?ys i" if "0 < i \<and> i \<le> length ?ys" for i
      using that dict by simp
  qed
  then show ?thesis using lnew pre by blast
qed

section \<open>Extending the dictionary\<close>

lemma concat_replicate_Nil [simp]: "concat (replicate n []) = []"
  by (induction n) auto

lemma ends_pad: "ends (xs @ replicate n []) i = ends xs i"
  by (simp add: ends_def take_append)

lemma ileaf_rep_extend_one:
  assumes rep: "ileaf_rep bt leaf base xs"
    and room: "16 + length (concat xs) + 2 * length xs + 2 \<le> bsize bt"
  shows "ileaf_rep bt (set_icount (store16 leaf (idict_at bt (length xs + 1)) (length (concat xs)))
    (length xs + 1)) base (xs @ [[]])"
proof -
  note d = ileaf_repD [OF rep]
  let ?off = "idict_at bt (length xs + 1)"
  let ?l = "store16 leaf ?off (length (concat xs))"
  have g: "ileaf_rep bt ?l base xs"
    unfolding store16_def using room by (intro ileaf_rep_gap [OF rep]) (auto simp: idict_at_def)
  note gd = ileaf_repD [OF g]
  have len: "16 \<le> length ?l" using gd(1) room by simp
  have small: "(length xs + 1) mod 65536 = length xs + 1" "length (concat xs) mod 65536 = length (concat xs)"
    using room d(2) by auto
  have "load16 (set_icount ?l (length xs + 1)) (idict_at bt i) = ends (xs @ [[]]) i"
    if "0 < i" "i \<le> length xs + 1" for i
  proof -
    have "load16 (set_icount ?l (length xs + 1)) (idict_at bt i) = load16 ?l (idict_at bt i)"
      using len that room gd(1) by (intro set_icount_simps) (auto simp: idict_at_def)
    also have "\<dots> = ends (xs @ [[]]) i"
    proof (cases "i = length xs + 1")
      case True
      then show ?thesis
        using load16_store16_dict [OF d(1), of i i "length (concat xs)"] room small
        by (simp add: ends_def)
    next
      case False
      then show ?thesis using ileaf_rep_dict [OF g, of i] that ends_pad [of xs 1 i] by simp
    qed
    finally show ?thesis .
  qed
  then show ?thesis
    using g gd len small room
    by (simp add: ileaf_rep_def set_icount_simps)
qed

lemma set_icount_twice:
  "4 \<le> length l \<Longrightarrow> set_icount (set_icount l a) b = set_icount l b"
  by (intro list_eq_by_nth) (auto simp: set_icount_def store16_def mem_simps)

lemma set_icount_store16:
  assumes "4 \<le> off" "off + 2 \<le> length l"
  shows "set_icount (store16 l off v) n = store16 (set_icount l n) off v"
  using assms
  by (intro list_eq_by_nth) (auto simp: set_icount_def store16_def mem_simps)

lemma ileaf_rep_extend:
  assumes "ileaf_rep bt leaf base xs" "16 + length (concat xs) + 2 * length xs + 2 * n \<le> bsize bt"
  shows "ileaf_rep bt (set_icount (extend_dict bt (length (concat xs)) (length xs) n leaf)
    (length xs + n)) base (xs @ replicate n [])"
  using assms
proof (induction n arbitrary: leaf xs)
  case 0
  then show ?case using ileaf_rep_take [OF 0(1), of "length xs"] by simp
next
  case (Suc n)
  let ?v = "length (concat xs)" and ?c = "length xs" and ?off = "idict_at bt (length xs + 1)"
  let ?l = "set_icount (store16 leaf ?off ?v) (?c + 1)"
  have one: "ileaf_rep bt ?l base (xs @ [[]])"
    using Suc.prems by (intro ileaf_rep_extend_one) auto
  have "ileaf_rep bt (set_icount (extend_dict bt ?v (?c + 1) n ?l) (?c + 1 + n)) base
      (xs @ [[]] @ replicate n [])"
    using Suc.IH [OF one] Suc.prems by simp
  moreover have "set_icount (extend_dict bt v c k (set_icount m a)) b = set_icount (extend_dict bt v c k m) b"
    if "length m = bsize bt" "4 + 2 * (c + k) \<le> bsize bt" for v c k m a b
    using that
  proof (induction k arbitrary: c m)
    case 0
    then show ?case by (simp add: set_icount_twice)
  next
    case (Suc k)
    have "store16 (set_icount m a) (idict_at bt (c + 1)) v = set_icount (store16 m (idict_at bt (c + 1)) v) a"
      using Suc.prems by (subst set_icount_store16) (auto simp: idict_at_def)
    moreover have "length (store16 m (idict_at bt (c + 1)) v) = bsize bt"
      using Suc.prems by (simp add: mem_simps idict_at_def)
    ultimately show ?case
      using Suc.prems Suc.IH [of "store16 m (idict_at bt (c + 1)) v" "c + 1"] by simp
  qed
  moreover have "length (store16 leaf ?off ?v) = bsize bt"
    using Suc.prems ileaf_repD(1) [OF Suc.prems(1)] by (simp add: mem_simps idict_at_def)
  ultimately show ?case using Suc.prems by simp
qed

section \<open>Each operation on the blobs\<close>

lemma set_icount_memmove:
  assumes "4 \<le> dst" "4 \<le> src" "dst + n \<le> length l" "src + n \<le> length l"
  shows "set_icount (memmove l dst src n) c = memmove (set_icount l c) dst src n"
  using assms
  by (intro list_eq_by_nth) (auto simp: set_icount_def store16_def memmove_def mem_simps)

lemma set_icount_add_idicts:
  assumes "length l = bsize bt" "0 < lo" "4 + 2 * hi \<le> bsize bt"
  shows "set_icount (add_idicts bt lo hi n l) c = add_idicts bt lo hi n (set_icount l c)"
  using assms
proof (induction hi)
  case 0
  then show ?case by (simp add: add_idicts_empty)
next
  case (Suc hi)
  have *: "set_icount (add_idict bt m i n) c = add_idict bt (set_icount m c) i n"
    if "length m = bsize bt" "0 < i" "4 + 2 * i \<le> bsize bt" for m i
  proof -
    have "load16 (set_icount m c) (idict_at bt i) = load16 m (idict_at bt i)"
      using that unfolding set_icount_def store16_def idict_at_def by (subst load16_blit_other) auto
    then show ?thesis
      using that unfolding add_idict_def by (subst set_icount_store16) (auto simp: idict_at_def)
  qed
  show ?case using Suc by (auto simp: add_idicts_Suc * length_add_idicts)
qed

lemma length_extend_dict:
  "length l = bsize bt \<Longrightarrow> 2 * (c + n) \<le> bsize bt \<Longrightarrow> length (extend_dict bt v c n l) = bsize bt"
  by (induction n arbitrary: c l) (simp_all add: mem_simps idict_at_def)

text \<open>The room that a leaf reports is what the table and the dictionary leave.\<close>

lemma ileaf_free_rep:
  assumes rep: "ileaf_rep bt leaf base xs"
  shows "ileaf_need bt leaf = length (concat xs) + 2 * length xs"
    "ileaf_free bt leaf = bsize bt - 16 - (length (concat xs) + 2 * length xs)"
proof -
  note d = ileaf_repD [OF rep]
  show need: "ileaf_need bt leaf = length (concat xs) + 2 * length xs"
    using atdict_rep [OF rep, of "length xs"] d(3) by (simp add: ileaf_need_def ends_all)
  have "sub32 (sub32 (bsize bt) (ileaf_need bt leaf)) 16 = bsize bt - ileaf_need bt leaf - 16"
    using d(2,5) need by (simp add: sub32_id)
  then show "ileaf_free bt leaf = bsize bt - 16 - (length (concat xs) + 2 * length xs)"
    by (simp add: ileaf_free_def need)
qed

text \<open>The list with inode number \<open>base + at\<close> in it.\<close>

definition pad_blobs :: "bytes list \<Rightarrow> nat \<Rightarrow> bytes list" where
  "pad_blobs xs at = xs @ replicate (at + 1 - length xs) []"

definition blob_of :: "bytes list \<Rightarrow> nat \<Rightarrow> bytes" where
  "blob_of xs at = (if at < length xs then xs ! at else [])"

lemma pad_blobs_simps [simp]:
  "length (pad_blobs xs at) = max (length xs) (at + 1)" "at < length (pad_blobs xs at)"
  "pad_blobs xs at ! at = blob_of xs at" "concat (pad_blobs xs at) = concat xs"
  by (auto simp: pad_blobs_def blob_of_def nth_append)

lemma ileaf_resize_rep:
  assumes rep: "ileaf_rep bt leaf base xs" and inum: "base \<le> inum" "inum - base < entries_per_leaf bt"
    and size: "newsize < 2 ^ 31" "0 < newsize \<or> inum - base < length xs"
  defines "at \<equiv> inum - base"
  defines "extra \<equiv> int (2 * (at + 1 - length xs)) + int newsize - int (length (blob_of xs at))"
  shows "if int newsize > int (length (blob_of xs at))
      \<and> extra > int (bsize bt - 16 - (length (concat xs) + 2 * length xs))
    then ileaf_resize bt inum leaf newsize = Some (None, leaf)
    else \<exists>leaf' new. ileaf_resize bt inum leaf newsize = Some (Some (16 + ends xs at), leaf')
      \<and> length new = newsize
      \<and> take (min newsize (length (blob_of xs at))) new
        = take (min newsize (length (blob_of xs at))) (blob_of xs at)
      \<and> ileaf_rep bt leaf' base ((pad_blobs xs at)[at := new])"
proof -
  note d = ileaf_repD [OF rep]
  let ?s = "length (blob_of xs at)" and ?n = "length xs" and ?ext = "at + 1 - length xs"
  let ?more = "int newsize - int ?s"
  have s: "?s \<le> length (concat xs)"
    using ends_le [of xs "Suc at"] ends_Suc [of at xs] by (cases "at < ?n") (simp_all add: blob_of_def)
  have more: "to_int32 ?more = ?more"
    using size(1) s d(2,5) by (intro to_int32_id) auto
  have ext: "(if at < ?n then 0 else at - ?n + 1) = ?ext" by auto
  have offset: "(if at \<noteq> 0 \<and> ?n \<noteq> 0 then asserted_atdict bt leaf (min at ?n) else Some 0)
      = Some (ends xs at)"
  proof (cases "at \<noteq> 0 \<and> ?n \<noteq> 0")
    case True
    then have "asserted_atdict bt leaf (min at ?n) = Some (ends xs (min at ?n))"
      by (intro asserted_atdict_rep [OF rep]) auto
    also have "ends xs (min at ?n) = ends xs at" by (simp add: ends_def min_def)
    finally show ?thesis using True by auto
  qed (auto simp: ends_def)
  have sz: "(if at < ?n then do { limit \<leftarrow> asserted_atdict bt leaf (at + 1);
      Some (sub32 limit (ends xs at)) } else Some 0) = Some ?s"
  proof (cases "at < ?n")
    case True
    have "sub32 (ends xs (at + 1)) (ends xs at) = ends xs (at + 1) - ends xs at"
      using ends_mono [of at "at + 1" xs] ends_bound [OF rep, of "at + 1"] by (intro sub32_id) auto
    then show ?thesis
      using True asserted_atdict_rep [OF rep, of "at + 1"] ends_Suc [OF True] by (simp add: blob_of_def)
  qed (simp add: blob_of_def)
  let ?room = "bsize bt - 16 - (length (concat xs) + 2 * ?n)"
  let ?full = "?more > 0 \<and> int (2 * ?ext) + ?more > int ?room"
  let ?x = "extend_dict bt (length (concat xs)) ?n ?ext leaf"
  let ?y = "add_idicts bt (at + 1) (?n + ?ext) ?more
    (memmove ?x (16 + ends xs at + newsize) (16 + ends xs at + ?s)
      (length (concat xs) - ends xs at - ?s))"
  have head: "ileaf_resize bt inum leaf newsize =
    (if ?full then Some (None, leaf)
     else do {
       itop \<leftarrow> asserted_atdict bt ?x (?n + ?ext);
       c_assert (itop \<ge> ends xs at + ?s);
       Some (Some (16 + ends xs at), set_icount (add_idicts bt (at + 1) (?n + ?ext) ?more
         (memmove ?x (16 + ends xs at + newsize) (16 + ends xs at + ?s) (itop - ends xs at - ?s)))
         (?n + ?ext)) })"
    using inum inum(2) [folded at_def, unfolded not_le [symmetric]] d(6) atdict_rep [OF rep, of ?n]
    by (simp only: ileaf_resize_def Let_def at_def [symmetric] d(3,4) ext offset sz more
        ileaf_free_rep(2) [OF rep] Option.bind.bind_lunit c_assert_True if_False
        ends_all order_refl)
  show ?thesis
  proof (cases ?full)
    case True
    then show ?thesis using head by (simp add: extra_def)
  next
    case False
    have fits: "int (16 + length (concat xs) + 2 * ?n) + int (2 * ?ext) + ?more \<le> int (bsize bt)"
      "16 + length (concat xs) + 2 * ?n + 2 * ?ext \<le> bsize bt"
    proof -
      have "?ext = 0 \<or> ?s = 0 \<and> ?more > 0"
        using size(2) by (cases "at < ?n") (auto simp: blob_of_def at_def)
      then show "int (16 + length (concat xs) + 2 * ?n) + int (2 * ?ext) + ?more \<le> int (bsize bt)"
        "16 + length (concat xs) + 2 * ?n + 2 * ?ext \<le> bsize bt"
        using False d(5) by auto
    qed
    let ?ps = "pad_blobs xs at"
    have len: "length ?ps = ?n + ?ext" by (simp add: max_def)
    have px: "ileaf_rep bt (set_icount ?x (?n + ?ext)) base ?ps"
      using ileaf_rep_extend [OF rep fits(2)] by (simp add: pad_blobs_def)
    have endp: "ends ?ps i = ends xs i" for i by (simp add: pad_blobs_def ends_pad)
    have lx: "length ?x = bsize bt" using d(1) fits(2) by (intro length_extend_dict) auto
    have top: "asserted_atdict bt ?x (?n + ?ext) = Some (length (concat xs))"
    proof -
      have "load16 (set_icount ?x (?n + ?ext)) (idict_at bt (?n + ?ext)) = ends ?ps (?n + ?ext)"
        by (rule ileaf_rep_dict [OF px]) (use len in auto)
      moreover have "load16 (set_icount ?x (?n + ?ext)) (idict_at bt (?n + ?ext))
          = load16 ?x (idict_at bt (?n + ?ext))"
        using lx fits(2) by (intro set_icount_simps) (auto simp: idict_at_def)
      ultimately show ?thesis using len by (simp add: asserted_atdict_def ends_all)
    qed
    have es: "ends xs at + ?s \<le> length (concat xs)"
      using ends_le [of xs "Suc at"] ends_le [of xs at] ends_Suc [of at xs]
      by (cases "at < ?n") (simp_all add: blob_of_def)
    have res: "ileaf_resize bt inum leaf newsize = Some (Some (16 + ends xs at), set_icount ?y (?n + ?ext))"
      using False es unfolding head top by simp
    have "set_icount ?y (?n + ?ext) = add_idicts bt (at + 1) (length ?ps) ?more
        (memmove (set_icount ?x (?n + ?ext)) (16 + ends ?ps at + newsize)
          (16 + ends ?ps at + length (?ps ! at))
          (length (concat ?ps) - ends ?ps at - length (?ps ! at)))"
    proof -
      have b: "16 + ends xs at + newsize + (length (concat xs) - ends xs at - ?s) \<le> length ?x"
        "16 + ends xs at + ?s + (length (concat xs) - ends xs at - ?s) \<le> length ?x"
        using es fits d(5) lx by linarith+
      have mx: "max ?n (Suc at) = ?n + (Suc at - ?n)" by simp
      show ?thesis
        using b lx fits(2)
        by (simp add: mx endp set_icount_add_idicts set_icount_memmove length_memmove)
    qed
    moreover have a1: "at < length ?ps" by simp
    have a2: "?more = int newsize - int (length (?ps ! at))" by simp
    have a3: "int (16 + length (concat ?ps) + 2 * length ?ps) + ?more \<le> int (bsize bt)"
      using fits(1) by (simp add: len del: pad_blobs_simps(1))
    obtain new where "length new = newsize"
      "take (min newsize ?s) new = take (min newsize ?s) (blob_of xs at)"
      "ileaf_rep bt (add_idicts bt (at + 1) (length ?ps) ?more
        (memmove (set_icount ?x (?n + ?ext)) (16 + ends ?ps at + newsize)
          (16 + ends ?ps at + length (?ps ! at))
          (length (concat ?ps) - ends ?ps at - length (?ps ! at)))) base (?ps[at := new])"
      using ileaf_rep_replace [OF px a1 a2 a3] by (simp only: pad_blobs_simps(3)) blast
    ultimately show ?thesis
      using False res by (auto simp: extra_def)
  qed
qed

lemma ileaf_lookup_rep:
  assumes rep: "ileaf_rep bt leaf base xs" and inum: "base \<le> inum" "inum - base < entries_per_leaf bt"
    and top: "base + entries_per_leaf bt < 2 ^ 64" "entries_per_leaf bt \<le> 2 ^ 32"
  defines "at \<equiv> inum - base"
  shows "ileaf_lookup bt inum leaf =
    Some (if blob_of xs at = [] then None else Some (16 + ends xs at), length (blob_of xs at))"
proof -
  note d = ileaf_repD [OF rep]
  have a: "inum < wrap64 (base + entries_per_leaf bt)" "wrap32 (inum - base) = at"
    using inum top by (simp_all add: wrap_simps at_def)
  show ?thesis
  proof (cases "at < length xs")
    case True
    have "sub32 (ends xs (at + 1)) (ends xs at) = ends xs (at + 1) - ends xs at"
      using ends_mono [of at "at + 1" xs] ends_bound [OF rep, of "at + 1"] by (intro sub32_id) auto
    then show ?thesis
      using True a inum(1) asserted_atdict_rep [OF rep, of "at + 1"] atdict_rep [OF rep, of at]
      by (simp add: ileaf_lookup_def d Let_def ends_Suc blob_of_def)
  next
    case False
    then show ?thesis using a inum(1) by (simp add: ileaf_lookup_def d Let_def blob_of_def)
  qed
qed

lemma all_above_split:
  "(\<forall>j. i < j \<and> j < c \<longrightarrow> P j) \<longleftrightarrow>
    (i + 1 < c \<longrightarrow> P (i + 1)) \<and> (\<forall>j. i + 1 < j \<and> j < (c :: nat) \<longrightarrow> P j)" (is "?L \<longleftrightarrow> ?R")
proof
  assume ?R
  show ?L
  proof (intro allI impI)
    fix j assume "i < j \<and> j < c"
    with \<open>?R\<close> show "P j" by (cases "j = i + 1") auto
  qed
qed auto

lemma isinorder_loop_iff:
  "isinorder_loop bt leaf i offset \<longleftrightarrow>
    (i < icount leaf \<longrightarrow> offset \<le> load16 leaf (idict_at bt (i + 1))) \<and>
    (\<forall>j. i < j \<and> j < icount leaf \<longrightarrow>
      load16 leaf (idict_at bt j) \<le> load16 leaf (idict_at bt (j + 1)))"
proof (induction bt leaf i offset rule: isinorder_loop.induct)
  case (1 bt leaf i offset)
  let ?d = "\<lambda>j. load16 leaf (idict_at bt j)"
  show ?case
  proof (cases "i < icount leaf \<and> offset \<le> ?d (i + 1)")
    case False
    then show ?thesis by (subst isinorder_loop.simps) (auto simp: Let_def)
  next
    case True
    then have "isinorder_loop bt leaf i offset = isinorder_loop bt leaf (i + 1) (?d (i + 1))"
      by (subst isinorder_loop.simps) (simp add: Let_def)
    also have "\<dots> \<longleftrightarrow> (\<forall>j. i < j \<and> j < icount leaf \<longrightarrow> ?d j \<le> ?d (j + 1))"
    proof -
      have "(\<forall>j. i < j \<and> j < icount leaf \<longrightarrow> ?d j \<le> ?d (j + 1)) \<longleftrightarrow>
          (i + 1 < icount leaf \<longrightarrow> ?d (i + 1) \<le> ?d (i + 1 + 1)) \<and>
          (\<forall>j. i + 1 < j \<and> j < icount leaf \<longrightarrow> ?d j \<le> ?d (j + 1))"
        by (rule all_above_split)
      then show ?thesis using 1 True by (simp add: Let_def)
    qed
    finally show ?thesis using True by simp
  qed
qed

lemma ileaf_check_rep: "ileaf_rep bt leaf base xs \<Longrightarrow> ileaf_check bt leaf = 0"
  using ends_mono [of _ _ xs] ileaf_repD(6) [of bt leaf base xs]
  by (auto simp: ileaf_check_def isinorder_def isinorder_loop_iff ileaf_repD ileaf_rep_dict
      ileaf_sniff_def)

lemma replicate_14: "replicate 14 x = [x, x, x, x, x, x, x, x, x, x, x, x, x, x]"
  by (simp add: eval_nat_numeral)

lemma ileaf_init_rep:
  assumes "length leaf = bsize bt" "16 \<le> bsize bt" "bsize bt \<le> 65536"
  shows "ileaf_rep bt (ileaf_init bt leaf) 0 []"
proof -
  let ?l = "ileaf_init bt leaf"
  let ?h = "be16 TUX3_MAGIC_ILEAF @ replicate 14 0"
  have h: "chunk 0 16 ?l = ?h" "length ?l = bsize bt"
    using assms by (simp_all add: ileaf_init_def mem_simps)
  have c: "?l ! i = ?h ! i" if "i < 16" for i
    using that h assms nth_chunk [of i 16 0 ?l] by simp
  have "load16 ?l 0 = load16 ?h 0" "load16 ?l 2 = load16 ?h 2"
    by (rule load16_cong; simp add: c)+
  moreover have "load64 ?l 8 = load64 ?h 8" by (rule load64_cong) (simp add: c)
  moreover have "load16 ?h 0 = TUX3_MAGIC_ILEAF" "load16 ?h 2 = 0" "load64 ?h 8 = 0"
    by (simp_all add: load64_def load32_def load16_def load8_def be16_def TUX3_MAGIC_ILEAF_def
        replicate_14)
  ultimately show ?thesis
    using assms h(2) by (simp add: ileaf_rep_def icount_def ibase_def)
qed

lemma ileaf_split_at_bound: "unat ((x :: u64) AND y) \<le> unat x"
  by (simp add: word_and_le2 word_le_nat_alt [symmetric])

lemma ileaf_rep_dest:
  assumes rep: "ileaf_rep bt leaf base xs" and m: "m \<le> length xs"
    and dest: "length dest = bsize bt" "ileaf_sniff bt dest" and key: "key < 2 ^ 64"
  defines "d1 \<equiv> blit dest 16 (chunk (16 + ends xs m) (length (concat xs) - ends xs m) leaf)"
  defines "d2 \<equiv> set_icount d1 (length xs - m)"
  defines "d3 \<equiv> blit d2 (idict_at bt (length xs - m))
    (chunk (idict_at bt (length xs)) (2 * (length xs - m)) leaf)"
  defines "d4 \<equiv> add_idicts bt 1 (length xs - m) (- int (ends xs m)) d3"
  shows "ileaf_rep bt (store64 d4 8 key) key (drop m xs)"
    and "icount d2 = length xs - m" and "icount d3 = length xs - m"
proof -
  note d = ileaf_repD [OF rep]
  let ?n = "length xs - m" and ?t = "concat (drop m xs)"
  have tot: "length (concat xs) = ends xs m + length ?t" by (rule ends_split)
  have t: "chunk (16 + ends xs m) (length (concat xs) - ends xs m) leaf = ?t"
  proof -
    have "chunk (16 + ends xs m) (length ?t) leaf
        = chunk (ends xs m) (length ?t) (chunk 16 (length (concat xs)) leaf)"
      using tot by (simp add: chunk_chunk)
    also have "\<dots> = ?t"
      using d(7) by (simp add: chunk_def ends_def)
        (metis append_eq_conv_conj append_take_drop_id concat_append order_refl take_all)
    finally show ?thesis using tot by simp
  qed
  have fit: "16 + length ?t + 2 * ?n \<le> bsize bt" "2 * length xs \<le> bsize bt"
    using d(5) tot by auto
  have l1: "length d1 = bsize bt" using fit dest t by (simp add: d1_def length_blit)
  have l2: "length d2 = bsize bt" using l1 fit by (simp add: d2_def set_icount_simps)
  let ?dict = "chunk (idict_at bt (length xs)) (2 * ?n) leaf"
  have ld: "length ?dict = 2 * ?n" using d(1) fit by (simp add: length_chunk idict_at_def)
  have l3: "length d3 = bsize bt" using l2 fit ld by (simp add: d3_def length_blit idict_at_def)
  have l4: "length d4 = bsize bt" using l3 fit by (simp add: d4_def length_add_idicts)
  have small: "?n mod 65536 = ?n" using fit(2) d(2) by auto
  show c2: "icount d2 = ?n" using l1 fit small by (simp add: d2_def set_icount_simps)
  have h3: "load16 d3 0 = load16 d2 0" "icount d3 = icount d2"
    using l2 fit ld by (simp_all add: d3_def header_blit idict_at_def)
  then show "icount d3 = ?n" using c2 by simp
  have h1: "load16 d1 0 = TUX3_MAGIC_ILEAF"
    using dest fit t by (simp add: d1_def header_blit ileaf_sniff_def)
  then have h2: "load16 d2 0 = TUX3_MAGIC_ILEAF" using l1 fit by (simp add: d2_def set_icount_simps)
  have h4: "load16 d4 0 = TUX3_MAGIC_ILEAF" "icount d4 = ?n"
    using h3 h2 c2 l3 fit by (simp_all add: d4_def header_add_idicts)
  let ?r = "store64 d4 8 key"
  have lr: "length ?r = bsize bt" using l4 fit by (simp add: mem_simps)
  have hr: "load16 ?r 0 = TUX3_MAGIC_ILEAF" "icount ?r = ?n" "ibase ?r = key"
    using h4 l4 fit key by (simp_all add: icount_def ibase_def mem_simps)
      (simp_all add: store64_def mem_simps)
  have tab: "chunk 16 (length ?t) ?r = ?t"
  proof -
    have "chunk 16 (length ?t) ?r = chunk 16 (length ?t) d4"
      using l4 fit by (simp add: store64_def chunk_blit_after)
    also have "\<dots> = chunk 16 (length ?t) d3"
      using l3 fit by (simp add: d4_def add_idicts_below idict_at_def)
    also have "\<dots> = chunk 16 (length ?t) d2"
      using l2 fit ld by (simp add: d3_def chunk_blit_before idict_at_def)
    also have "\<dots> = chunk 16 (length ?t) d1" using l1 fit by (simp add: d2_def set_icount_simps)
    also have "\<dots> = ?t" using dest fit t by (simp add: d1_def chunk_blit_same)
    finally show ?thesis .
  qed
  have dict: "load16 ?r (idict_at bt i) = ends (drop m xs) i" if i: "0 < i" "i \<le> ?n" for i
  proof -
    have e: "ends xs (m + i) = ends xs m + ends (drop m xs) i"
      by (simp add: ends_def take_add)
    have "load16 ?r (idict_at bt i) = load16 d4 (idict_at bt i)"
      using i l4 fit unfolding store64_def by (subst load16_blit_other) (auto simp: idict_at_def)
    also have "\<dots> = nat ((int (load16 d3 (idict_at bt i)) - int (ends xs m)) mod 65536)"
      using i l3 fit by (simp add: d4_def add_idicts_dict)
    also have "load16 d3 (idict_at bt i) = load16 leaf (idict_at bt (m + i))"
    proof -
      have "d3 ! (idict_at bt i + k) = leaf ! (idict_at bt (m + i) + k)" if "k < 2" for k
      proof -
        have "2 * i \<le> 2 * ?n" using i by simp
        then show ?thesis
          using that i fit ld l2 d(1)
          by (simp add: d3_def nth_blit nth_chunk idict_at_def)
            (auto simp: algebra_simps intro!: arg_cong [of _ _ "nth leaf"])
      qed
      from this [of 0] this [of 1] show ?thesis by (intro load16_cong) simp_all
    qed
    also have "\<dots> = ends xs m + ends (drop m xs) i"
      using i e ileaf_rep_dict [OF rep, of "m + i"] by simp
    finally show ?thesis
      using ends_bound [OF rep, of "m + i"] e by simp
  qed
  show "ileaf_rep bt ?r key (drop m xs)"
    using lr hr tab dict fit d(2) by (simp add: ileaf_rep_def)
qed

lemma ileaf_split_rep:
  assumes rep: "ileaf_rep bt leaf base xs" and inum: "base \<le> inum" "inum < 2 ^ 64"
    and top: "base + length xs < 2 ^ 64" and dest: "length into1 = bsize bt" "ileaf_sniff bt into1"
  defines "m \<equiv> min (inum - base) (length xs)"
  shows "\<exists>k from' into'. ileaf_split bt inum leaf into1 = Some (k, from', into')
    \<and> ileaf_rep bt from' base (trim_list (take m xs)) \<and> ileaf_rep bt into' k (drop m xs)
    \<and> base + m \<le> k \<and> k \<le> inum \<and> (m < length xs \<longrightarrow> k = inum)"
proof -
  note d = ileaf_repD [OF rep]
  have m: "m \<le> length xs" by (simp add: m_def)
  define round where "round = unat ((of_nat inum :: u64) AND NOT (of_nat (entries_per_leaf bt - 1)))"
  define k where "k = (if round > base + length xs then round else inum)"
  have "round \<le> unat (of_nat inum :: u64)" unfolding round_def by (rule ileaf_split_at_bound)
  then have round: "round \<le> inum" using inum(2) by (simp add: unat_of_nat)
  then have k: "base + m \<le> k" "k \<le> inum" "m < length xs \<longrightarrow> k = inum" "k < 2 ^ 64"
    using inum by (auto simp: k_def m_def min_def split: if_splits)
  note dst = ileaf_rep_dest [OF rep m dest k(4)]
  let ?d1 = "blit into1 16 (chunk (16 + ends xs m) (length (concat xs) - ends xs m) leaf)"
  let ?d2 = "set_icount ?d1 (length xs - m)"
  let ?d3 = "blit ?d2 (idict_at bt (length xs - m))
    (chunk (idict_at bt (length xs)) (2 * (length xs - m)) leaf)"
  let ?d4 = "add_idicts bt 1 (length xs - m) (- int (ends xs m)) ?d3"
  let ?into = "store64 ?d4 8 k"
  let ?l1 = "set_icount leaf m"
  let ?from = "memset ?l1 (16 + ends xs m) 0 (idict_at bt (icount ?l1) - (16 + ends xs m))"
  have l1: "ileaf_rep bt ?l1 base (take m xs)" by (rule ileaf_rep_take [OF rep m])
  have tk: "length (concat (take m xs)) = ends xs m" by (simp add: ends_def)
  have "ileaf_rep bt ?from base (take m xs)"
    unfolding memset_def
    using ileaf_repD [OF l1] m tk by (intro ileaf_rep_gap [OF l1]) (auto simp: idict_at_def min_def)
  then have from': "ileaf_rep bt (ileaf_trim bt ?from) base (trim_list (take m xs))"
    by (rule ileaf_rep_trim)
  have at: "atdict bt leaf m = ends xs m" "atdict bt leaf (length xs) = length (concat xs)"
    using atdict_rep [OF rep m] atdict_rep [OF rep, of "length xs"] by (simp_all add: ends_all)
  have le: "ends xs m \<le> length (concat xs)" by (rule ends_le)
  have w: "wrap64 (base + length xs) = base + length xs" using top by (simp add: wrap64_id)
  have "ileaf_split bt inum leaf into1 = Some (ibase ?into, ileaf_trim bt ?from, ?into)"
    using d(6) inum(1) le
    by (simp only: ileaf_split_def Let_def d(3,4) m_def [symmetric] at dst(2,3) round_def [symmetric]
        w k_def [symmetric] c_assert_True Option.bind.bind_lunit)
  moreover have "ibase ?into = k" by (rule ileaf_repD(4) [OF dst(1)])
  ultimately show ?thesis using from' dst(1) k by simp
qed

lemma merge_loop:
  assumes "length l = bsize bt" "0 < at" "2 * hi \<le> bsize bt" "at \<le> hi"
  shows "foldl (\<lambda>l i. add_idict bt l i (int (load16 l (idict_at bt at)))) l [at + 1..<hi + 1]
    = add_idicts bt (at + 1) hi (int (load16 l (idict_at bt at))) l"
  using assms
proof (induction hi)
  case 0
  then show ?case by simp
next
  case (Suc hi)
  show ?case
  proof (cases "at = Suc hi")
    case True
    then show ?thesis by (simp add: add_idicts_def)
  next
    case False
    then have "load16 (add_idicts bt (at + 1) hi n l) (idict_at bt at) = load16 l (idict_at bt at)" for n
      using Suc.prems add_idicts_dict [of l bt "at + 1" hi at n] by simp
    then show ?thesis using False Suc by (simp add: add_idicts_Suc)
  qed
qed

lemma ileaf_merge_rep:
  assumes l: "ileaf_rep bt leaf base xs" and f: "ileaf_rep bt from base' ys"
    and room: "16 + length (concat xs) + length (concat ys) + 2 * (length xs + length ys) \<le> bsize bt"
  shows "ileaf_rep bt (ileaf_merge bt leaf from) base (xs @ ys)"
proof (cases "ys = []")
  case True
  then show ?thesis using l ileaf_repD(3) [OF f] by (simp add: ileaf_merge_def)
next
  case False
  note d = ileaf_repD [OF l] and df = ileaf_repD [OF f]
  let ?n = "length xs" and ?k = "length ys" and ?s = "length (concat xs)"
  define l1 where "l1 = blit leaf (16 + ?s) (concat ys)"
  define l2 where "l2 = set_icount l1 (?n + ?k)"
  define dict where "dict = chunk (idict_at bt ?k) (2 * ?k) from"
  define l3 where "l3 = blit l2 (idict_at bt (?n + ?k)) dict"
  define l4 where "l4 = (if ?n = 0 then l3 else add_idicts bt (?n + 1) (?n + ?k) (int ?s) l3)"
  have len1: "length l1 = bsize bt" using d(1) room by (simp add: l1_def length_blit)
  have len2: "length l2 = bsize bt" using len1 room by (simp add: l2_def set_icount_simps)
  have lend: "length dict = 2 * ?k" using df(1) room by (simp add: dict_def length_chunk idict_at_def)
  have len3: "length l3 = bsize bt"
    using len2 lend room by (simp add: l3_def length_blit idict_at_def)
  have len4: "length l4 = bsize bt" using len3 room by (simp add: l4_def length_add_idicts)
  have small: "(?n + ?k) mod 65536 = ?n + ?k" using room d(2) by auto
  have c2: "icount l2 = ?n + ?k" using len1 room small by (simp add: l2_def set_icount_simps)
  have a: "atdict bt leaf ?n = ?s" "atdict bt from ?k = length (concat ys)"
    using atdict_rep [OF l, of ?n] atdict_rep [OF f, of ?k] by (simp_all add: ends_all)
  have off: "16 + ?s + length (concat ys) \<le> idict_at bt (?n + ?k)"
    using room by (simp add: idict_at_def)
  have d3: "load16 l3 (idict_at bt i) = ends xs i" if "0 < i" "i \<le> ?n" for i
  proof -
    have "load16 l3 (idict_at bt i) = load16 l2 (idict_at bt i)"
      using that len2 lend room unfolding l3_def by (subst load16_blit_other) (auto simp: idict_at_def)
    also have "\<dots> = load16 l1 (idict_at bt i)"
      using that len1 room by (simp add: l2_def set_icount_simps idict_at_def)
    also have "\<dots> = ends xs i"
      using that d(1) room ileaf_rep_dict [OF l that]
      unfolding l1_def by (subst load16_blit_other) (auto simp: idict_at_def)
    finally show ?thesis .
  qed
  have d3': "load16 l3 (idict_at bt (?n + j)) = ends ys j" if "0 < j" "j \<le> ?k" for j
  proof -
    have "l3 ! (idict_at bt (?n + j) + e) = from ! (idict_at bt j + e)" if "e < 2" for e
    proof -
      have "2 * j \<le> 2 * ?k" using \<open>j \<le> ?k\<close> by simp
      then show ?thesis
        using that \<open>0 < j\<close> room lend len2 df(1)
        by (simp add: l3_def nth_blit dict_def nth_chunk idict_at_def)
          (auto simp: algebra_simps dict_def nth_chunk intro!: arg_cong [of _ _ "nth from"])
    qed
    from this [of 0] this [of 1] have "load16 l3 (idict_at bt (?n + j)) = load16 from (idict_at bt j)"
      by (intro load16_cong) simp_all
    then show ?thesis using ileaf_rep_dict [OF f that] by simp
  qed
  have e: "ends (xs @ ys) i = (if i \<le> ?n then ends xs i else ?s + ends ys (i - ?n))" for i
    by (auto simp: ends_def take_append)
  have dict4: "load16 l4 (idict_at bt i) = ends (xs @ ys) i" if i: "0 < i" "i \<le> ?n + ?k" for i
  proof -
    have *: "load16 l4 (idict_at bt i) =
        (if ?n + 1 \<le> i \<and> i \<le> ?n + ?k then nat ((int (load16 l3 (idict_at bt i)) + int ?s) mod 65536)
         else load16 l3 (idict_at bt i))"
    proof (cases "?n = 0")
      case True
      then show ?thesis using load16_bound [of l3] by (simp add: l4_def)
    next
      case False
      then show ?thesis
        unfolding l4_def if_not_P [OF False] using i len3 room by (intro add_idicts_dict) auto
    qed
    show ?thesis
    proof (cases "i \<le> ?n")
      case True
      then show ?thesis using * d3 i by (simp add: e)
    next
      case False
      then have "load16 l3 (idict_at bt i) = ends ys (i - ?n)"
        using d3' [of "i - ?n"] i by simp
      moreover have "ends ys (i - ?n) + ?s < 65536"
        using ends_le [of ys "i - ?n"] room d(2) by simp
      ultimately show ?thesis using * i False by (simp add: e nat_eq_iff)
    qed
  qed
  have tab: "chunk 16 (?s + length (concat ys)) l4 = concat xs @ concat ys"
  proof -
    have "chunk 16 (?s + length (concat ys)) l4 = chunk 16 (?s + length (concat ys)) l3"
      using len3 room off by (simp add: l4_def add_idicts_below)
    also have "\<dots> = chunk 16 (?s + length (concat ys)) l2"
      unfolding l3_def using len2 room off lend
      by (intro chunk_blit_before) (auto simp: idict_at_def)
    also have "\<dots> = chunk 16 (?s + length (concat ys)) l1"
      using len1 room by (simp add: l2_def set_icount_simps)
    also have "\<dots> = concat xs @ concat ys"
      using d(1,7) room by (simp add: l1_def chunk_append chunk_blit_before chunk_blit_same)
    finally show ?thesis .
  qed
  have h: "load16 l4 0 = TUX3_MAGIC_ILEAF" "icount l4 = ?n + ?k" "ibase l4 = base"
  proof -
    have r: "16 \<le> length l2" "16 + 2 * (?n + ?k) \<le> bsize bt" "16 \<le> length l1" using len1 len2 room by auto
    have b: "load16 l1 0 = load16 leaf 0" "ibase l1 = ibase leaf"
      unfolding l1_def using d(1) room by (auto intro!: header_blit)
    have "load16 l3 0 = load16 l2 0" "icount l3 = icount l2" "ibase l3 = ibase l2"
      unfolding l3_def using len2 lend room by (auto intro!: header_blit simp: idict_at_def)
    then show "load16 l4 0 = TUX3_MAGIC_ILEAF" "icount l4 = ?n + ?k" "ibase l4 = base"
      using b c2 r d(4,6) len3 by (simp_all add: l4_def header_add_idicts)
        (simp_all add: l2_def set_icount_simps ileaf_sniff_def)
  qed
  have rep4: "ileaf_rep bt l4 base (xs @ ys)"
    using h tab dict4 len4 d(2) room by (simp add: ileaf_rep_def)
  have fr: "chunk 16 (length (concat ys)) from = concat ys" by (rule df(7))
  have "ileaf_merge bt leaf from = (if ?n = 0 then l3 else
      foldl (\<lambda>l i. add_idict bt l i (int (load16 l (idict_at bt ?n)))) l3 [?n + 1..<?n + ?k + 1])"
    using False fr
    by (simp only: ileaf_merge_def d(3) df(3) a Let_def l1_def l2_def l3_def dict_def c2 [unfolded l2_def l1_def]
        length_0_conv if_False)
  also have "\<dots> = l4"
  proof (cases "?n = 0")
    case False
    then have "load16 l3 (idict_at bt ?n) = ?s" using d3 [of ?n] by (simp add: ends_all)
    then show ?thesis
      using False len3 room merge_loop [of l3 bt ?n "?n + ?k"] by (simp add: l4_def)
  qed (simp add: l4_def)
  finally show ?thesis using rep4 by simp
qed

lemma ileaf_purge_rep:
  assumes rep: "ileaf_rep bt leaf base xs" and inum: "base \<le> inum" "inum - base < entries_per_leaf bt"
    and live: "blob_of xs (inum - base) \<noteq> []"
  shows "\<exists>leaf'. ileaf_purge bt inum leaf = Some leaf'
    \<and> ileaf_rep bt leaf' base (trim_list (xs[inum - base := []]))"
proof -
  note d = ileaf_repD [OF rep]
  define at where "at = inum - base"
  have at: "at < length xs" "xs ! at \<noteq> []" using live by (auto simp: at_def blob_of_def split: if_splits)
  let ?s = "length (xs ! at)" and ?tot = "length (concat xs)"
  let ?y = "add_idicts bt (at + 1) (length xs) (- int ?s)
    (memmove leaf (16 + ends xs at) (16 + ends xs at + ?s) (?tot - ends xs at - ?s))"
  have es: "ends xs (at + 1) = ends xs at + ?s" using ends_Suc [OF at(1)] by simp
  have le: "ends xs at + ?s \<le> ?tot" using es ends_le [of xs "at + 1"] by simp
  have b: "?tot < 65536" using d(2,5) by simp
  have sz: "sub32 (ends xs (at + 1)) (ends xs at) = ?s" using es b le by (simp add: sub32_id)
  have tl: "sub32 (sub32 ?tot (ends xs at)) ?s = ?tot - ends xs at - ?s"
    using le b by (simp add: sub32_id)
  have w: "wrap32 (ends xs at + ?s + (?tot - ends xs at - ?s)) = ?tot" using le b by (simp add: wrap32_id)
  have a: "atdict bt leaf at = ends xs at" "asserted_atdict bt leaf (at + 1) = Some (ends xs (at + 1))"
    "asserted_atdict bt leaf (length xs) = Some ?tot"
    using at(1) atdict_rep [OF rep, of at] asserted_atdict_rep [OF rep, of "at + 1"]
      asserted_atdict_rep [OF rep, of "length xs"] by (cases xs; auto simp: ends_all)+
  have ic: "icount (memmove leaf (16 + ends xs at) (16 + ends xs at + ?s) (?tot - ends xs at - ?s)) = length xs"
    using d le unfolding memmove_def by (subst header_blit) (auto simp: length_chunk)
  have "ileaf_purge bt inum leaf = Some (ileaf_trim bt ?y)"
    using inum at(2)
    by (simp only: ileaf_purge_def Let_def d(3,4) at_def [symmetric] a sz tl w ic Option.bind.bind_lunit
        c_assert_True length_0_conv not_False_eq_True order_refl)
  moreover have "ileaf_rep bt ?y base (xs[at := []])"
  proof -
    have "\<exists>new. length new = 0 \<and> take (min 0 ?s) new = take (min 0 ?s) (xs ! at)
      \<and> ileaf_rep bt (add_idicts bt (at + 1) (length xs) (- int ?s)
          (memmove leaf (16 + ends xs at + 0) (16 + ends xs at + ?s) (?tot - ends xs at - ?s)))
          base (xs[at := new])"
      using d(5) by (intro ileaf_rep_replace [OF rep at(1)]) auto
    then show ?thesis by (simp only: length_0_conv add_0_right) blast
  qed
  ultimately show ?thesis using ileaf_rep_trim unfolding at_def by blast
qed

text \<open>The search for a free inode number.\<close>

lemma find_empty_loop_rep:
  assumes rep: "ileaf_rep bt leaf base xs"
  shows "at \<le> length xs \<Longrightarrow> offset = ends xs at \<Longrightarrow>
    at \<le> find_empty_loop bt leaf at offset \<and> find_empty_loop bt leaf at offset \<le> length xs
    \<and> blob_of xs (find_empty_loop bt leaf at offset) = []
    \<and> (\<forall>i. at \<le> i \<and> i < find_empty_loop bt leaf at offset \<longrightarrow> blob_of xs i \<noteq> [])"
proof (induction "length xs - at" arbitrary: at offset)
  case 0
  then show ?case
    using ileaf_repD(3) [OF rep] by (auto simp: find_empty_loop.simps [of bt leaf at] blob_of_def)
next
  case (Suc k)
  then have at: "at < length xs" by simp
  have lim: "load16 leaf (idict_at bt (at + 1)) = ends xs at + length (xs ! at)"
    using ileaf_rep_dict [OF rep, of "at + 1"] at by (simp add: ends_Suc)
  show ?case
  proof (cases "xs ! at = []")
    case True
    then show ?thesis
      using at lim Suc.prems ileaf_repD(3) [OF rep]
      by (auto simp: find_empty_loop.simps [of bt leaf at] blob_of_def Let_def)
  next
    case False
    have "find_empty_loop bt leaf at offset = find_empty_loop bt leaf (at + 1) (ends xs (at + 1))"
      using at lim False Suc.prems ileaf_repD(3) [OF rep]
      by (subst find_empty_loop.simps) (simp add: ends_Suc)
    moreover have "at + 1 \<le> find_empty_loop bt leaf (at + 1) (ends xs (at + 1))
      \<and> find_empty_loop bt leaf (at + 1) (ends xs (at + 1)) \<le> length xs
      \<and> blob_of xs (find_empty_loop bt leaf (at + 1) (ends xs (at + 1))) = []
      \<and> (\<forall>i. at + 1 \<le> i \<and> i < find_empty_loop bt leaf (at + 1) (ends xs (at + 1)) \<longrightarrow> blob_of xs i \<noteq> [])"
      using Suc.hyps(2) at by (intro Suc.hyps(1)) auto
    moreover have "blob_of xs at \<noteq> []" using at False by (simp add: blob_of_def)
    moreover have "i = at \<or> at + 1 \<le> i" if "at \<le> i" for i using that by linarith
    ultimately show ?thesis by (metis Suc_eq_plus1 Suc_leD)
  qed
qed

lemma blob_of_append_Nil: "\<forall>z\<in>set zs. z = [] \<Longrightarrow> blob_of (ys @ zs) i = blob_of ys i"
  by (auto simp: blob_of_def nth_append)

lemma trim_list_split: "\<exists>zs. xs = trim_list xs @ zs \<and> (\<forall>z\<in>set zs. z = [])"
proof (intro exI conjI)
  let ?p = "\<lambda>x. x = []"
  show "xs = trim_list xs @ rev (takeWhile ?p (rev xs))"
    unfolding trim_list_def by (metis rev_append rev_rev_ident takeWhile_dropWhile_id)
  show "\<forall>z\<in>set (rev (takeWhile ?p (rev xs))). z = []" by (auto dest: set_takeWhileD)
qed

lemma blob_of_trim [simp]: "blob_of (trim_list xs) i = blob_of xs i"
  using trim_list_split [of xs] blob_of_append_Nil [of _ "trim_list xs" i] by metis

section \<open>A leaf as a map from inode numbers\<close>

definition inode_map :: "nat \<Rightarrow> bytes list \<Rightarrow> nat \<Rightarrow> bytes option" where
  "inode_map base xs inum =
     (if base \<le> inum \<and> blob_of xs (inum - base) \<noteq> [] then Some (blob_of xs (inum - base)) else None)"

definition ileaf_holds :: "btree_dim \<Rightarrow> bytes \<Rightarrow> nat \<Rightarrow> (nat \<Rightarrow> bytes option) \<Rightarrow> bool" where
  "ileaf_holds bt leaf base M \<longleftrightarrow> (\<exists>xs. ileaf_rep bt leaf base xs \<and> inode_map base xs = M
     \<and> length xs \<le> entries_per_leaf bt \<and> base + length xs < 2 ^ 64)"

lemma inode_map_trim [simp]: "inode_map base (trim_list xs) = inode_map base xs"
  by (simp add: inode_map_def fun_eq_iff)

lemma inode_map_update:
  assumes "at < length xs"
  shows "inode_map base (xs[at := new]) =
    (inode_map base xs)(base + at := if new = [] then None else Some new)"
  using assms by (auto simp: inode_map_def blob_of_def fun_eq_iff nth_list_update)

lemma inode_map_pad [simp]: "inode_map base (pad_blobs xs at) = inode_map base xs"
  by (auto simp: inode_map_def pad_blobs_def blob_of_def fun_eq_iff nth_append)

lemma inode_map_take:
  "inode_map base (take m xs) = (\<lambda>i. if i < base + m then inode_map base xs i else None)"
  by (auto simp: inode_map_def blob_of_def fun_eq_iff)

lemma inode_map_drop:
  "inode_map (base + m) (drop m xs) = (\<lambda>i. if base + m \<le> i then inode_map base xs i else None)"
  by (auto simp: inode_map_def blob_of_def fun_eq_iff)

lemma length_trim: "length (trim_list xs) \<le> length xs"
  unfolding trim_list_def by (metis length_dropWhile_le length_rev)

lemma ileaf_holds_split:
  assumes h: "ileaf_holds bt leaf base M" and key: "base \<le> key" "key < 2 ^ 64"
    and block: "length block = bsize bt"
  shows "\<exists>k l r. ileaf_split bt key leaf (ileaf_init bt block) = Some (k, l, r) \<and> base \<le> k \<and> k \<le> key
    \<and> ileaf_holds bt l base (\<lambda>i. if i < k then M i else None)
    \<and> ileaf_holds bt r k (\<lambda>i. if k \<le> i then M i else None)"
proof -
  obtain xs where xs: "ileaf_rep bt leaf base xs" "inode_map base xs = M"
    "length xs \<le> entries_per_leaf bt" "base + length xs < 2 ^ 64"
    using h by (auto simp: ileaf_holds_def)
  note d = ileaf_repD [OF xs(1)]
  have init: "ileaf_rep bt (ileaf_init bt block) 0 []"
    using d(2,5) block by (intro ileaf_init_rep) auto
  let ?m = "min (key - base) (length xs)"
  obtain k l r where r: "ileaf_split bt key leaf (ileaf_init bt block) = Some (k, l, r)"
    "ileaf_rep bt l base (trim_list (take ?m xs))" "ileaf_rep bt r k (drop ?m xs)"
    "base + ?m \<le> k" "k \<le> key" "?m < length xs \<longrightarrow> k = key"
    using ileaf_split_rep [OF xs(1) key _ ileaf_repD(1) [OF init] ileaf_repD(6) [OF init]] xs(3,4) by auto
  have cut: "i < base + ?m \<longleftrightarrow> i < k" if "M i \<noteq> None" for i
  proof -
    have "i < base + length xs"
      using that by (auto simp: xs(2) [symmetric] inode_map_def blob_of_def split: if_splits)
    then show ?thesis using r(4-6) key(1) by (cases "?m < length xs") (auto simp: min_def split: if_splits)
  qed
  have l: "inode_map base (trim_list (take ?m xs)) = (\<lambda>i. if i < k then M i else None)"
  proof
    fix i
    show "inode_map base (trim_list (take ?m xs)) i = (if i < k then M i else None)"
      using cut [of i] by (cases "M i = None") (simp_all add: inode_map_take xs(2))
  qed
  have right: "inode_map k (drop ?m xs) = (\<lambda>i. if k \<le> i then M i else None)"
  proof (cases "?m < length xs")
    case True
    then have "k = base + ?m" using r(6) key(1) by (auto simp: min_def)
    then show ?thesis by (simp only: inode_map_drop xs(2))
  next
    case False
    then have "?m = length xs" by simp
    then have "M i = None" if "k \<le> i" for i
      using that r(4) by (auto simp: xs(2) [symmetric] inode_map_def blob_of_def)
    then show ?thesis using False by (auto simp: inode_map_def blob_of_def fun_eq_iff)
  qed
  have len: "length (trim_list (take ?m xs)) \<le> length xs"
    using length_trim [of "take ?m xs"] by simp
  have "ileaf_holds bt l base (\<lambda>i. if i < k then M i else None)"
    using r(2) l len xs(3,4) unfolding ileaf_holds_def by (intro exI [of _ "trim_list (take ?m xs)"]) auto
  moreover have "ileaf_holds bt r k (\<lambda>i. if k \<le> i then M i else None)"
    using r(3-6) right key xs(3,4) unfolding ileaf_holds_def
    by (intro exI [of _ "drop ?m xs"]) (auto simp: min_def split: if_splits)
  ultimately show ?thesis using r(1,4,5) by (intro exI [of _ k] exI [of _ l] exI [of _ r]) auto
qed

interpretation itable: leaf_ops "ileaf_sniff bt" "ileaf_init bt" "ileaf_split bt"
  "\<lambda>block. length block = bsize bt \<and> 16 \<le> bsize bt \<and> bsize bt \<le> 65536" "ileaf_holds bt" for bt
proof
  show "ileaf_holds bt leaf base M \<Longrightarrow> ileaf_sniff bt leaf" for leaf base M
    by (auto simp: ileaf_holds_def ileaf_repD)
  show "ileaf_holds bt (ileaf_init bt block) 0 Map.empty"
    if "length block = bsize bt \<and> 16 \<le> bsize bt \<and> bsize bt \<le> 65536" for block
    using that ileaf_init_rep [of block bt]
    unfolding ileaf_holds_def
    by (intro exI [of _ "[]"]) (auto simp: inode_map_def blob_of_def fun_eq_iff)
  show "base \<le> key" if "ileaf_holds bt leaf base M" "M key \<noteq> None" for leaf base M key
    using that by (auto simp: ileaf_holds_def inode_map_def split: if_splits)
qed (use ileaf_holds_split in blast)

section \<open>Properties\<close>

text \<open>C23. Every inode number of a leaf is looked up to the bytes the leaf holds for it.\<close>

theorem ileaf_lookup_correct:
  assumes "ileaf_holds bt leaf base M" and "base \<le> inum" and "inum - base < entries_per_leaf bt"
    and "base + entries_per_leaf bt < 2 ^ 64" and "entries_per_leaf bt \<le> 2 ^ 16"
  shows "case M inum of
      None \<Rightarrow> ileaf_lookup bt inum leaf = Some (None, 0)
    | Some attrs \<Rightarrow> \<exists>p. ileaf_lookup bt inum leaf = Some (Some p, length attrs)
        \<and> chunk p (length attrs) leaf = attrs"
proof -
  obtain xs where xs: "ileaf_rep bt leaf base xs" "inode_map base xs = M"
    using assms(1) by (auto simp: ileaf_holds_def)
  have l: "ileaf_lookup bt inum leaf = Some (if blob_of xs (inum - base) = [] then None
      else Some (16 + ends xs (inum - base)), length (blob_of xs (inum - base)))"
    using assms by (intro ileaf_lookup_rep [OF xs(1)]) auto
  have M: "M inum = (if blob_of xs (inum - base) = [] then None else Some (blob_of xs (inum - base)))"
    using assms(2) by (simp add: xs(2) [symmetric] inode_map_def)
  show ?thesis
  proof (cases "blob_of xs (inum - base) = []")
    case True
    then show ?thesis using l M by simp
  next
    case False
    then have "chunk (16 + ends xs (inum - base)) (length (blob_of xs (inum - base))) leaf
        = blob_of xs (inum - base)"
      using ileaf_rep_blob [OF xs(1), of "inum - base"] by (simp add: blob_of_def split: if_splits)
    then show ?thesis using l M False by simp
  qed
qed

lemma room_int:
  "c < n \<and> f < 2 * e + (n - c) \<longleftrightarrow> int n > int c \<and> int (2 * e) + int n - int c > int f"
  by linarith

text \<open>C21. A resize gives the inode the size asked for and keeps the front of its attributes and every
  other inode; it returns no place exactly when the inode number is beyond the leaf or the growth,
  with the dictionary entries it needs, exceeds the free space, and then the leaf is unchanged.\<close>

theorem ileaf_resize_correct:
  assumes "ileaf_holds bt leaf base M" and "base \<le> inum" and "base + entries_per_leaf bt < 2 ^ 64"
    and "0 < newsize" and "newsize < 2 ^ 31"
  defines "old \<equiv> (case M inum of None \<Rightarrow> [] | Some attrs \<Rightarrow> attrs)"
  shows "if inum - base \<ge> entries_per_leaf bt \<or> length old < newsize
      \<and> ileaf_free bt leaf < 2 * (inum - base + 1 - icount leaf) + (newsize - length old)
    then ileaf_resize bt inum leaf newsize = Some (None, leaf)
    else \<exists>p leaf' new. ileaf_resize bt inum leaf newsize = Some (Some p, leaf')
      \<and> ileaf_holds bt leaf' base (M(inum \<mapsto> new)) \<and> chunk p newsize leaf' = new
      \<and> length new = newsize
      \<and> take (min newsize (length old)) new = take (min newsize (length old)) old"
proof -
  obtain xs where xs: "ileaf_rep bt leaf base xs" "inode_map base xs = M"
    "length xs \<le> entries_per_leaf bt"
    using assms(1) by (auto simp: ileaf_holds_def)
  note d = ileaf_repD [OF xs(1)]
  let ?at = "inum - base"
  have old: "old = blob_of xs ?at"
    using assms(2) by (simp add: old_def xs(2) [symmetric] inode_map_def)
  have free: "ileaf_free bt leaf = bsize bt - 16 - (length (concat xs) + 2 * length xs)"
    by (rule ileaf_free_rep [OF xs(1)])
  show ?thesis
  proof (cases "?at < entries_per_leaf bt")
    case False
    then show ?thesis
      using assms(2) d by (simp add: ileaf_resize_def)
  next
    case True
    have full: "length old < newsize \<and> ileaf_free bt leaf < 2 * (?at + 1 - icount leaf) + (newsize - length old)
      \<longleftrightarrow> int newsize > int (length (blob_of xs ?at)) \<and>
        int (2 * (?at + 1 - length xs)) + int newsize - int (length (blob_of xs ?at))
          > int (bsize bt - 16 - (length (concat xs) + 2 * length xs))"
      unfolding old free d(3) by (rule room_int)
    show ?thesis
    proof (cases "length old < newsize \<and> ileaf_free bt leaf < 2 * (?at + 1 - icount leaf) + (newsize - length old)")
      case True': True
      have "ileaf_resize bt inum leaf newsize = Some (None, leaf)"
        using ileaf_resize_rep [OF xs(1) assms(2) True assms(5)] assms(4) True'
        unfolding full by (simp only: if_True simp_thms)
      then show ?thesis using True' by (simp only: simp_thms if_True)
    next
      case False': False
      have "\<exists>leaf' new. ileaf_resize bt inum leaf newsize = Some (Some (16 + ends xs ?at), leaf')
        \<and> length new = newsize \<and> take (min newsize (length old)) new = take (min newsize (length old)) old
        \<and> ileaf_rep bt leaf' base ((pad_blobs xs ?at)[?at := new])"
        using ileaf_resize_rep [OF xs(1) assms(2) True assms(5)] assms(4) False' [unfolded full]
        unfolding old by (simp only: if_False simp_thms)
      then obtain leaf' new where l: "ileaf_resize bt inum leaf newsize = Some (Some (16 + ends xs ?at), leaf')"
        "length new = newsize" "take (min newsize (length old)) new = take (min newsize (length old)) old"
        "ileaf_rep bt leaf' base ((pad_blobs xs ?at)[?at := new])" by blast
      let ?ys = "(pad_blobs xs ?at)[?at := new]"
      have e: "ends ?ys ?at = ends xs ?at"
        using ends_update [of ?at "pad_blobs xs ?at" ?at new] by (simp add: pad_blobs_def ends_pad)
      have "chunk (16 + ends ?ys ?at) (length (?ys ! ?at)) leaf' = ?ys ! ?at"
        by (rule ileaf_rep_blob [OF l(4)]) simp
      then have p: "chunk (16 + ends xs ?at) newsize leaf' = new" using e l(2) by simp
      have "inode_map base ?ys = M(inum \<mapsto> new)"
        using assms(2,4) l(2) by (subst inode_map_update) (auto simp: xs(2))
      then have "ileaf_holds bt leaf' base (M(inum \<mapsto> new))"
        using l(4) True xs(3) assms(3) unfolding ileaf_holds_def by (intro exI [of _ ?ys]) auto
      then show ?thesis using True False' l p by auto
    qed
  qed
qed

text \<open>Deleting an inode that exists removes exactly it; the rest of the leaf keeps its bytes.\<close>

theorem ileaf_purge_correct:
  assumes "ileaf_holds bt leaf base M" and "base \<le> inum" and "inum - base < entries_per_leaf bt"
    and "M inum \<noteq> None"
  shows "\<exists>leaf'. ileaf_purge bt inum leaf = Some leaf' \<and> ileaf_holds bt leaf' base (M(inum := None))"
proof -
  obtain xs where xs: "ileaf_rep bt leaf base xs" "inode_map base xs = M"
    "length xs \<le> entries_per_leaf bt" "base + length xs < 2 ^ 64"
    using assms(1) by (auto simp: ileaf_holds_def)
  have live: "blob_of xs (inum - base) \<noteq> []"
    using assms(4) by (auto simp: xs(2) [symmetric] inode_map_def split: if_splits)
  then have at: "inum - base < length xs" by (simp add: blob_of_def split: if_splits)
  let ?ys = "xs[inum - base := []]"
  obtain leaf' where l: "ileaf_purge bt inum leaf = Some leaf'" "ileaf_rep bt leaf' base (trim_list ?ys)"
    using ileaf_purge_rep [OF xs(1) assms(2,3) live] by blast
  have "inode_map base (trim_list ?ys) = M(inum := None)"
    using inode_map_update [OF at, of base "[]"] assms(2) xs(2) by simp
  moreover have "length (trim_list ?ys) \<le> length xs" using length_trim [of ?ys] by simp
  ultimately show ?thesis
    using l xs(3,4) unfolding ileaf_holds_def by (intro exI [of _ leaf']) (auto intro!: exI)
qed

text \<open>The search for a free inode number returns the first one from the goal on, which may be the
  one just behind the leaf's entries.\<close>

theorem find_empty_inode_correct:
  assumes "ileaf_holds bt leaf base M" and "base \<le> goal" and "goal < 2 ^ 64"
  shows "\<exists>inum. find_empty_inode bt leaf goal = Some inum \<and> goal \<le> inum \<and> M inum = None
    \<and> (\<forall>i. goal \<le> i \<and> i < inum \<longrightarrow> M i \<noteq> None)"
proof -
  obtain xs where xs: "ileaf_rep bt leaf base xs" "inode_map base xs = M"
    "length xs \<le> entries_per_leaf bt" "base + length xs < 2 ^ 64"
    using assms(1) by (auto simp: ileaf_holds_def)
  note d = ileaf_repD [OF xs(1)]
  let ?at = "goal - base"
  have M: "M i = None \<longleftrightarrow> blob_of xs (i - base) = []" if "base \<le> i" for i
    using that by (simp add: xs(2) [symmetric] inode_map_def)
  consider (far) "?at \<ge> entries_per_leaf bt" | (behind) "?at < entries_per_leaf bt" "\<not> ?at < length xs"
    | (inside) "?at < entries_per_leaf bt" "?at < length xs" by linarith
  then show ?thesis
  proof cases
    case far
    then show ?thesis
      using assms(2) d xs(3) M [of goal] by (auto simp: find_empty_inode_def blob_of_def)
  next
    case behind
    then show ?thesis
      using assms(2,3) d M [of goal] by (auto simp: find_empty_inode_def blob_of_def wrap64_id)
  next
    case inside
    let ?e = "find_empty_loop bt leaf ?at (ends xs ?at)"
    have e: "?at \<le> ?e" "?e \<le> length xs" "blob_of xs ?e = []"
      "\<forall>i. ?at \<le> i \<and> i < ?e \<longrightarrow> blob_of xs i \<noteq> []"
      using find_empty_loop_rep [OF xs(1), of ?at "ends xs ?at"] inside by auto
    have "find_empty_inode bt leaf goal = Some (base + ?e)"
      using inside assms(2) d e(2) xs(4) atdict_rep [OF xs(1), of ?at]
      by (simp add: find_empty_inode_def wrap64_id Let_def)
    moreover have "M i \<noteq> None" if "goal \<le> i" "i < base + ?e" for i
    proof -
      have "?at \<le> i - base" "i - base < ?e" "base \<le> i" using that assms(2) by linarith+
      then show ?thesis using e(4) M [of i] by blast
    qed
    ultimately show ?thesis using e(1,3) M [of "base + ?e"] assms(2) by (intro exI [of _ "base + ?e"]) auto
  qed
qed

text \<open>C22. A split leaves every inode in exactly one of two valid leaves and returns the key that tells
  which: below it in the old leaf, from it on in the new one.\<close>

theorem ileaf_split_correct:
  assumes "ileaf_holds bt leaf base M" and "base \<le> inum" and "inum < 2 ^ 64"
    and "length block = bsize bt \<and> 16 \<le> bsize bt \<and> bsize bt \<le> 65536"
  shows "\<exists>k l r Ml Mr. ileaf_split bt inum leaf (ileaf_init bt block) = Some (k, l, r)
    \<and> base \<le> k \<and> k \<le> inum \<and> ileaf_holds bt l base Ml \<and> ileaf_holds bt r k Mr
    \<and> (\<forall>i. M i = (if i < k then Ml i else Mr i)) \<and> (\<forall>i. Ml i = None \<or> Mr i = None)
    \<and> ileaf_check bt l = 0 \<and> ileaf_check bt r = 0"
proof -
  obtain k l r Ml Mr where "ileaf_split bt inum leaf (ileaf_init bt block) = Some (k, l, r)" "base \<le> k"
    "k \<le> inum" "ileaf_holds bt l base Ml" "ileaf_holds bt r k Mr" "\<And>i. M i = (if i < k then Ml i else Mr i)"
    "\<And>i. Ml i = None \<or> Mr i = None"
    using itable.split_routes [OF assms] by blast
  moreover from this have "ileaf_check bt l = 0" "ileaf_check bt r = 0"
    using ileaf_check_rep by (auto simp: ileaf_holds_def)
  ultimately show ?thesis by blast
qed

text \<open>Merging appends the entries of the second leaf behind those of the first by position: the base
  of the second leaf is not read. The inodes keep their numbers only where the second leaf starts
  right behind the entries of the first.\<close>

theorem ileaf_merge_shifts:
  assumes "ileaf_rep bt leaf base xs" and "ileaf_rep bt from base' ys"
    and "ileaf_need bt leaf + ileaf_need bt from + 16 \<le> bsize bt"
  shows "ileaf_rep bt (ileaf_merge bt leaf from) base (xs @ ys)
    \<and> (\<forall>i. inode_map base (xs @ ys) (base + length xs + i) = inode_map base' ys (base' + i))"
  using assms ileaf_merge_rep [OF assms(1,2)] ileaf_free_rep(1) [OF assms(1)] ileaf_free_rep(1) [OF assms(2)]
  by (auto simp: inode_map_def blob_of_def nth_append)

text \<open>A leaf of 64 bytes with inode 3 in it, for the witnesses.\<close>

definition demo_bt :: btree_dim where
  "demo_bt = \<lparr>bsize = 64, entries_per_leaf = 8\<rparr>"

definition demo_ileaf :: bytes where
  "demo_ileaf = ileaf_init demo_bt (replicate 64 0)"

lemma demo_ileaf_rep: "ileaf_rep demo_bt demo_ileaf 0 []"
  unfolding demo_ileaf_def by (rule ileaf_init_rep) (simp_all add: demo_bt_def)

lemma demo_ileaf_holds: "ileaf_holds demo_bt demo_ileaf 0 Map.empty"
  using demo_ileaf_rep unfolding ileaf_holds_def
  by (intro exI [of _ "[]"]) (auto simp: inode_map_def blob_of_def fun_eq_iff)

lemma demo_free: "ileaf_free demo_bt demo_ileaf = 48" "icount demo_ileaf = 0"
  using ileaf_free_rep(2) [OF demo_ileaf_rep] ileaf_repD(3) [OF demo_ileaf_rep]
  by (simp_all add: demo_bt_def)

theorem ileaf_resize_correct_witness:
  "ileaf_resize demo_bt 3 demo_ileaf 41 = Some (None, demo_ileaf)
    \<and> (\<exists>p leaf' new. ileaf_resize demo_bt 3 demo_ileaf 40 = Some (Some p, leaf')
      \<and> ileaf_holds demo_bt leaf' 0 [3 \<mapsto> new] \<and> length new = 40)"
proof
  show "ileaf_resize demo_bt 3 demo_ileaf 41 = Some (None, demo_ileaf)"
    using ileaf_resize_correct [OF demo_ileaf_holds, of 3 41] demo_free by (simp add: demo_bt_def)
  show "\<exists>p leaf' new. ileaf_resize demo_bt 3 demo_ileaf 40 = Some (Some p, leaf')
      \<and> ileaf_holds demo_bt leaf' 0 [3 \<mapsto> new] \<and> length new = 40"
    using ileaf_resize_correct [OF demo_ileaf_holds, of 3 40] demo_free by (auto simp: demo_bt_def)
qed

lemma demo_ileaf_three: "\<exists>leaf new. ileaf_holds demo_bt leaf 0 [3 \<mapsto> new] \<and> length new = 40"
proof -
  have "\<exists>leaf' new. ileaf_rep demo_bt leaf' 0 ((pad_blobs [] 3)[3 := new]) \<and> length new = 40"
    using ileaf_resize_rep [OF demo_ileaf_rep, of 3 40] by (auto simp: demo_bt_def blob_of_def)
  then obtain leaf' new where r: "ileaf_rep demo_bt leaf' 0 ((pad_blobs [] 3)[3 := new])" "length new = 40"
    by blast
  have "inode_map 0 ((pad_blobs [] 3)[3 := new]) = [3 \<mapsto> new]"
    using r(2) by (subst inode_map_update) (auto simp: inode_map_def blob_of_def fun_eq_iff)
  then show ?thesis
    using r unfolding ileaf_holds_def
    by (intro exI [of _ leaf'] exI [of _ new] conjI exI [of _ "(pad_blobs [] 3)[3 := new]"])
      (auto simp: demo_bt_def pad_blobs_def)
qed

theorem ileaf_lookup_correct_witness:
  "\<exists>leaf p. ileaf_lookup demo_bt 3 leaf = Some (Some p, 40) \<and> ileaf_lookup demo_bt 2 leaf = Some (None, 0)"
proof -
  obtain leaf new where l: "ileaf_holds demo_bt leaf 0 [3 \<mapsto> new]" "length new = 40"
    using demo_ileaf_three by blast
  show ?thesis
    using ileaf_lookup_correct [OF l(1), of 3] ileaf_lookup_correct [OF l(1), of 2] l(2)
    by (auto simp: demo_bt_def)
qed

theorem ileaf_purge_correct_witness:
  "\<exists>leaf leaf'. ileaf_purge demo_bt 3 leaf = Some leaf' \<and> ileaf_holds demo_bt leaf' 0 Map.empty"
proof -
  obtain leaf new where l: "ileaf_holds demo_bt leaf 0 [3 \<mapsto> new]" using demo_ileaf_three by blast
  show ?thesis using ileaf_purge_correct [OF l, of 3] by (auto simp: demo_bt_def)
qed

theorem find_empty_inode_correct_witness:
  "\<exists>leaf. find_empty_inode demo_bt leaf 3 = Some 4"
proof -
  obtain leaf new where l: "ileaf_holds demo_bt leaf 0 [3 \<mapsto> new]" using demo_ileaf_three by blast
  obtain inum where i: "find_empty_inode demo_bt leaf 3 = Some inum" "3 \<le> inum"
    "[3 \<mapsto> new] inum = None" "\<forall>i. 3 \<le> i \<and> i < inum \<longrightarrow> [3 \<mapsto> new] i \<noteq> None"
    using find_empty_inode_correct [OF l, of 3] by auto
  have "inum \<noteq> 3" using i(3) by auto
  moreover have "\<not> 4 < inum" using i(4) [rule_format, of 4] by auto
  ultimately have "inum = 4" using i(2) by linarith
  then show ?thesis using i(1) by blast
qed

theorem ileaf_split_correct_witness:
  "\<exists>leaf k l r. ileaf_split demo_bt 3 leaf demo_ileaf = Some (k, l, r) \<and> ileaf_check demo_bt r = 0"
proof -
  obtain leaf new where l: "ileaf_holds demo_bt leaf 0 [3 \<mapsto> new]" using demo_ileaf_three by blast
  show ?thesis
    using ileaf_split_correct [OF l, of 3 "replicate 64 0"] by (auto simp: demo_bt_def demo_ileaf_def)
qed

theorem ileaf_merge_shifts_witness:
  "ileaf_rep demo_bt (ileaf_merge demo_bt demo_ileaf demo_ileaf) 0 []"
  using ileaf_merge_shifts [OF demo_ileaf_rep demo_ileaf_rep] ileaf_free_rep(1) [OF demo_ileaf_rep]
  by (simp add: demo_bt_def)

end
