(* ===== verification/Tux_Root.thy ===== *)
theory Tux_Root
  imports Tux_Endian
begin

text \<open>
  The root of a B-tree, \<open>struct root\<close> of \<open>tux3.h\<close>: levels above the leaves and the block of the
  top node, packed into 16 and 48 bits of one 64-bit field. The zero root stands for a tree that
  has none yet.
\<close>

record root =
  root_depth :: nat
  root_block :: nat

definition pack_root :: "root \<Rightarrow> nat" where
  "pack_root r = wrap64 (push_bit 48 (root_depth r)) OR root_block r"

definition unpack_root :: "nat \<Rightarrow> root" where
  "unpack_root v = \<lparr>root_depth = v div 2 ^ 48, root_block = take_bit 48 v\<rparr>"

definition no_root :: root where "no_root = \<lparr>root_depth = 0, root_block = 0\<rparr>"

definition has_root :: "root \<Rightarrow> bool" where
  "has_root r \<longleftrightarrow> root_block r \<noteq> root_block no_root \<or> root_depth r \<noteq> root_depth no_root"

lemma unpack_pack_root:
  assumes "root_depth r < 2 ^ 16" "root_block r < 2 ^ 48"
  shows "unpack_root (pack_root r) = r" "pack_root r < 2 ^ 64"
proof -
  have w: "root_depth r * 281474976710656 + root_block r < 18446744073709551616" using assms by simp
  have "wrap64 (push_bit 48 (root_depth r)) = push_bit 48 (root_depth r)"
    using w by (simp add: wrap64_def push_bit_eq_mult)
  then have e: "pack_root r = root_depth r * 2 ^ 48 + root_block r"
    using or_shift_disjoint [OF assms(2)] by (simp add: pack_root_def)
  show "pack_root r < 2 ^ 64" using w e by simp
  show "unpack_root (pack_root r) = r"
    using assms(2) by (simp add: e unpack_root_def take_bit_eq_mod)
qed

lemma has_root_iff: "has_root r \<longleftrightarrow> r \<noteq> no_root"
  by (cases r) (auto simp: has_root_def no_root_def)

end
