(* ===== verification/Tux_Iattr.thy ===== *)
theory Tux_Iattr
  imports Tux_Root
begin

text \<open>
  Inode attributes, \<open>kernel/iattr.c\<close> with the parts of \<open>tux3.h\<close>, \<open>knlcompat.h\<close> and
  \<open>xattr.c\<close> it needs: the 32.32 fixed point times, the encoding of
  device numbers, the cache of extended attributes and the encoders and decoders of an inode's
  entry in the inode table. A cursor that writes is the list of bytes written since the start
  of the entry; a cursor that reads is the list of bytes that are left.
\<close>

section \<open>Times and device numbers\<close>

record timespec =
  tv_sec :: nat
  tv_nsec :: nat

definition TIME_ATTR_SHIFT :: nat where
  "TIME_ATTR_SHIFT = 16"

definition high32 :: "nat \<Rightarrow> nat" where
  "high32 v = wrap32 (v div 2 ^ 32)"

definition billionths :: "nat \<Rightarrow> nat" where
  "billionths v = wrap32 (wrap64 (v mod 2 ^ 32 * 1000000000 + 0x80000000) div 2 ^ 32)"

definition spectime :: "nat \<Rightarrow> timespec" where
  "spectime time = \<lparr>tv_sec = high32 time, tv_nsec = billionths time\<rparr>"

definition tuxtime :: "timespec \<Rightarrow> nat" where
  "tuxtime time =
     (let mult = 2 ^ 63 div 1000000000
      in wrap64 (wrap64 (tv_sec time * 2 ^ 32)
           + wrap64 (tv_nsec time * mult + 3 * 2 ^ 29) div 2 ^ 31))"

definition new_encode_dev :: "u32 \<Rightarrow> u32" where
  "new_encode_dev dev =
     (let major = drop_bit 20 dev; minor = dev AND mask 20
      in (minor AND 0xff) OR push_bit 8 major OR push_bit 12 (minor AND NOT 0xff))"

definition new_decode_dev :: "u32 \<Rightarrow> u32" where
  "new_decode_dev dev =
     (let major = drop_bit 8 (dev AND 0xfff00);
          minor = (dev AND 0xff) OR (drop_bit 12 dev AND 0xfff00)
      in push_bit 20 major OR minor)"

definition huge_encode_dev :: "u32 \<Rightarrow> nat" where
  "huge_encode_dev dev = unat (new_encode_dev dev)"

definition huge_decode_dev :: "nat \<Rightarrow> u32" where
  "huge_decode_dev dev = new_decode_dev (of_nat dev)"

section \<open>Inodes and the cache of extended attributes\<close>

definition RDEV_ATTR :: nat where "RDEV_ATTR = 0"
definition MODE_OWNER_ATTR :: nat where "MODE_OWNER_ATTR = 1"
definition DATA_BTREE_ATTR :: nat where "DATA_BTREE_ATTR = 2"
definition CTIME_SIZE_ATTR :: nat where "CTIME_SIZE_ATTR = 3"
definition LINK_COUNT_ATTR :: nat where "LINK_COUNT_ATTR = 4"
definition MTIME_ATTR :: nat where "MTIME_ATTR = 5"
definition VAR_ATTRS :: nat where "VAR_ATTRS = 11"
definition IDATA_ATTR :: nat where "IDATA_ATTR = 11"
definition XATTR_ATTR :: nat where "XATTR_ATTR = 12"
definition MAX_ATTRS :: nat where "MAX_ATTRS = 16"

lemmas attr_kinds = RDEV_ATTR_def MODE_OWNER_ATTR_def DATA_BTREE_ATTR_def CTIME_SIZE_ATTR_def
  LINK_COUNT_ATTR_def MTIME_ATTR_def VAR_ATTRS_def IDATA_ATTR_def XATTR_ATTR_def MAX_ATTRS_def

definition atsize :: "nat list" where
  "atsize = (replicate MAX_ATTRS 0)
     [RDEV_ATTR := 8, MODE_OWNER_ATTR := 12, CTIME_SIZE_ATTR := 14, DATA_BTREE_ATTR := 8,
      LINK_COUNT_ATTR := 4, MTIME_ATTR := 6, IDATA_ATTR := 2, XATTR_ATTR := 4]"

text \<open>
  \<open>struct xcache\<close>: \<open>xc_size\<close> and \<open>xc_max\<close> are its \<open>u16\<close> fields, \<open>xattrs\<close> the
  entries that lie packed behind them; an entry takes four bytes and its body.
\<close>

record xattr =
  xatom :: nat
  body :: bytes

record xcache =
  xc_size :: nat
  xc_max :: nat
  xattrs :: "xattr list"

record inode =
  present :: nat
  i_rdev :: u32
  i_mode :: nat
  i_uid :: nat
  i_gid :: nat
  i_nlink :: nat
  i_size :: nat
  i_ctime :: timespec
  i_mtime :: timespec
  i_root :: root
  xcache :: "xcache option"

definition xattr_bytes :: "xattr \<Rightarrow> nat" where
  "xattr_bytes x = 4 + length (body x)"

section \<open>Encoding\<close>

definition encode_asize :: "nat \<Rightarrow> nat" where
  "encode_asize bits =
     foldl (\<lambda>need kind. if bit bits kind then need + (atsize ! kind + 2) else need) 0 [0..<VAR_ATTRS]"

definition encode_kind :: "bytes \<Rightarrow> nat \<Rightarrow> nat \<Rightarrow> bytes" where
  "encode_kind attrs kind version = encode16 attrs (push_bit 12 kind OR version)"

text \<open>The \<open>switch (kind)\<close> of \<open>encode_attrs\<close>.\<close>

definition encode_attr :: "inode \<Rightarrow> nat \<Rightarrow> bytes \<Rightarrow> bytes" where
  "encode_attr ino kind attrs =
     (if kind = RDEV_ATTR then encode64 attrs (huge_encode_dev (i_rdev ino))
      else if kind = MODE_OWNER_ATTR then
        encode32 (encode32 (encode32 attrs (i_mode ino)) (i_uid ino)) (i_gid ino)
      else if kind = CTIME_SIZE_ATTR then
        encode64 (encode48 attrs (tuxtime (i_ctime ino) div 2 ^ TIME_ATTR_SHIFT)) (i_size ino)
      else if kind = DATA_BTREE_ATTR then encode64 attrs (pack_root (i_root ino))
      else if kind = LINK_COUNT_ATTR then encode32 attrs (i_nlink ino)
      else if kind = MTIME_ATTR then encode48 attrs (tuxtime (i_mtime ino) div 2 ^ TIME_ATTR_SHIFT)
      else attrs)"

fun encode_attrs_loop :: "inode \<Rightarrow> nat \<Rightarrow> int \<Rightarrow> nat list \<Rightarrow> bytes \<Rightarrow> bytes" where
  "encode_attrs_loop ino version limit [] attrs = attrs"
| "encode_attrs_loop ino version limit (kind # kinds) attrs =
     (if \<not> bit (present ino) kind then encode_attrs_loop ino version limit kinds attrs
      else if int (length attrs) \<ge> limit then attrs
      else encode_attrs_loop ino version limit kinds
             (encode_attr ino kind (encode_kind attrs kind version)))"

definition encode_attrs :: "inode \<Rightarrow> nat \<Rightarrow> nat \<Rightarrow> bytes" where
  "encode_attrs ino version sz = encode_attrs_loop ino version (int sz - 3) [0..<VAR_ATTRS] []"

text \<open>
  The walk of an attribute cache from entry to entry up to the end that \<open>xc_size\<close> gives. It
  fails (\<open>None\<close>) where it would run past the entries that exist.
\<close>

fun xcache_walk :: "nat \<Rightarrow> xattr list \<Rightarrow> nat \<Rightarrow> xattr list option" where
  "xcache_walk limit xs pos =
     (if pos < limit then
        case xs of [] \<Rightarrow> None
        | x # xs' \<Rightarrow> map_option ((#) x) (xcache_walk limit xs' (pos + xattr_bytes x))
      else Some [])"

declare xcache_walk.simps [simp del]

fun encode_xattrs_loop :: "nat \<Rightarrow> int \<Rightarrow> xattr list \<Rightarrow> bytes \<Rightarrow> bytes" where
  "encode_xattrs_loop version limit [] attrs = attrs"
| "encode_xattrs_loop version limit (x # xs) attrs =
     (if int (length attrs) \<ge> limit then attrs
      else
        let attrs = encode_kind attrs XATTR_ATTR version;
            attrs = encode16 attrs (length (body x) + 2);
            attrs = encode16 attrs (xatom x);
            attrs = attrs @ body x
        in encode_xattrs_loop version limit xs attrs)"

definition encode_xattrs :: "inode \<Rightarrow> nat \<Rightarrow> nat \<Rightarrow> bytes option" where
  "encode_xattrs ino version sz =
     (case xcache ino of
        None \<Rightarrow> Some []
      | Some xc \<Rightarrow> do {
          xs \<leftarrow> xcache_walk (xc_size xc) (xattrs xc) 4;
          Some (encode_xattrs_loop version (int sz - 3) xs []) })"

fun encode_xsize_loop :: "xattr list \<Rightarrow> nat \<Rightarrow> nat" where
  "encode_xsize_loop [] sz = sz"
| "encode_xsize_loop (x # xs) sz =
     encode_xsize_loop xs (sz + (2 + atsize ! XATTR_ATTR + length (body x)))"

text \<open>The assertion at the end of the loop: the walk ends exactly at the limit.\<close>

definition encode_xsize :: "inode \<Rightarrow> nat option" where
  "encode_xsize ino =
     (case xcache ino of
        None \<Rightarrow> Some 0
      | Some xc \<Rightarrow> do {
          xs \<leftarrow> xcache_walk (xc_size xc) (xattrs xc) 4;
          c_assert (4 + sum_list (map xattr_bytes xs) = max 4 (xc_size xc));
          Some (encode_xsize_loop xs 0) })"

section \<open>Decoding\<close>

definition new_xcache :: "nat \<Rightarrow> xcache" where
  "new_xcache maxsize = \<lparr>xc_size = 4, xc_max = maxsize mod 2 ^ 16, xattrs = []\<rparr>"

text \<open>
  The \<open>switch (kind)\<close> of \<open>decode_attrs\<close>. The outer \<open>None\<close> is a read beyond the entry, a
  write through the null pointer of a missing cache or a failed assertion; the inner one is the
  \<open>NULL\<close> returned for an unknown kind. The decoded entries fill a cache that starts empty, as
  the one that \<open>open_inode\<close> allocates does.
\<close>

definition decode_attr :: "inode \<Rightarrow> nat \<Rightarrow> bytes \<Rightarrow> (inode \<times> bytes) option option" where
  "decode_attr ino kind attrs =
     (if kind = RDEV_ATTR then do {
        (v64, attrs) \<leftarrow> decode64 attrs;
        Some (Some (ino\<lparr>i_rdev := huge_decode_dev v64\<rparr>, attrs)) }
      else if kind = MODE_OWNER_ATTR then do {
        (mode, attrs) \<leftarrow> decode32 attrs;
        (uid, attrs) \<leftarrow> decode32 attrs;
        (gid, attrs) \<leftarrow> decode32 attrs;
        Some (Some (ino\<lparr>i_mode := mode, i_uid := uid, i_gid := gid\<rparr>, attrs)) }
      else if kind = CTIME_SIZE_ATTR then do {
        (v64, attrs) \<leftarrow> decode48 attrs;
        (sz, attrs) \<leftarrow> decode64 attrs;
        Some (Some (ino\<lparr>i_size := sz, i_ctime := spectime (wrap64 (v64 * 2 ^ TIME_ATTR_SHIFT))\<rparr>, attrs)) }
      else if kind = DATA_BTREE_ATTR then do {
        (v64, attrs) \<leftarrow> decode64 attrs;
        Some (Some (ino\<lparr>i_root := unpack_root v64\<rparr>, attrs)) }
      else if kind = LINK_COUNT_ATTR then do {
        (n, attrs) \<leftarrow> decode32 attrs;
        Some (Some (ino\<lparr>i_nlink := n\<rparr>, attrs)) }
      else if kind = MTIME_ATTR then do {
        (v64, attrs) \<leftarrow> decode48 attrs;
        Some (Some (ino\<lparr>i_mtime := spectime (wrap64 (v64 * 2 ^ TIME_ATTR_SHIFT))\<rparr>, attrs)) }
      else if kind = XATTR_ATTR then do {
        (bytes, attrs) \<leftarrow> decode16 attrs;
        (atom, attrs) \<leftarrow> decode16 attrs;
        xc \<leftarrow> xcache ino;
        let xsize = sub32 bytes 2 mod 2 ^ 16;
        c_assert (xc_size xc + (4 + xsize) \<le> xc_max xc);
        c_assert (xsize \<le> length attrs);
        let x = \<lparr>xatom = atom, body = take xsize attrs\<rparr>;
        Some (Some (ino\<lparr>xcache := Some (xc\<lparr>xc_size := (xc_size xc + (4 + xsize)) mod 2 ^ 16,
            xattrs := xattrs xc @ [x]\<rparr>)\<rparr>, drop xsize attrs)) }
      else Some None)"

lemma decode_lengths:
  "decode16 at = Some (v, r) \<Longrightarrow> length at = length r + 2"
  "decode32 at = Some (v, r) \<Longrightarrow> length at = length r + 4"
  "decode64 at = Some (v, r) \<Longrightarrow> length at = length r + 8"
  "decode48 at = Some (v, r) \<Longrightarrow> length at = length r + 6"
  by (auto simp: decode16_def decode32_def decode64_def decode48_def split: if_splits bind_splits)

lemma decode_attr_length:
  "decode_attr ino kind attrs = Some (Some (ino', attrs')) \<Longrightarrow> length attrs' \<le> length attrs"
  by (auto simp: decode_attr_def Let_def dest!: decode_lengths split: if_splits bind_splits)
    (simp add: le_diff_conv trans_le_add1)

function decode_attrs :: "nat \<Rightarrow> inode \<Rightarrow> bytes \<Rightarrow> (inode \<times> bytes option) option" where
  "decode_attrs sb_version ino attrs =
     (if length attrs > 1 then
        case decode16 attrs of None \<Rightarrow> None
        | Some (head, attrs) \<Rightarrow>
            (let version = take_bit 12 head; kind = head div 2 ^ 12
             in if version \<noteq> sb_version then decode_attrs sb_version ino (drop (atsize ! kind) attrs)
                else case decode_attr ino kind attrs of
                  None \<Rightarrow> None
                | Some None \<Rightarrow> Some (ino, None)
                | Some (Some (ino, attrs)) \<Rightarrow>
                    decode_attrs sb_version (ino\<lparr>present := present ino OR push_bit kind 1\<rparr>) attrs)
      else Some (ino, Some attrs))"
  by pat_completeness auto
termination
  by (relation "measure (\<lambda>(v, ino, attrs). length attrs)")
    (auto dest!: decode_lengths decode_attr_length)

declare decode_attrs.simps [simp del]

text \<open>\<open>None\<close> is a read beyond the entry.\<close>

function decode_xsize_loop :: "nat \<Rightarrow> bytes \<Rightarrow> nat \<Rightarrow> nat option" where
  "decode_xsize_loop sb_version attrs tot =
     (if length attrs > 1 then
        case decode16 attrs of None \<Rightarrow> None
        | Some (head, attrs) \<Rightarrow>
            (let kind = head div 2 ^ 12
             in if kind = XATTR_ATTR \<or> kind = IDATA_ATTR then
                  case decode16 attrs of None \<Rightarrow> None
                  | Some (bytes, attrs) \<Rightarrow>
                      decode_xsize_loop sb_version (drop bytes attrs)
                        (if take_bit 12 head = sb_version then sub32 (tot + 4 + bytes) 2 else tot)
                else decode_xsize_loop sb_version (drop (atsize ! kind) attrs) tot)
      else Some tot)"
  by pat_completeness auto
termination
  by (relation "measure (\<lambda>(v, attrs, tot). length attrs)") (auto dest!: decode_lengths)

declare decode_xsize_loop.simps [simp del]

definition decode_xsize :: "nat \<Rightarrow> bytes \<Rightarrow> nat option" where
  "decode_xsize sb_version attrs =
     map_option (\<lambda>tot. if tot \<noteq> 0 then tot + 4 else 0) (decode_xsize_loop sb_version attrs 0)"

function attr_check :: "bytes \<Rightarrow> int" where
  "attr_check attrs =
     (if length attrs > 1 then
        let kind = load16 attrs 0 div 2 ^ 12; attrs = drop 2 attrs
        in if kind \<ge> MAX_ATTRS then 0
           else if atsize ! kind > length attrs then 0
           else attr_check (drop (atsize ! kind) attrs)
      else 1)"
  by pat_completeness auto
termination
  by (relation "measure length") auto

declare attr_check.simps [simp del]

section \<open>Times\<close>

lemma tuxtime_eq:
  assumes "tv_sec t < 2 ^ 32" "tv_nsec t < 1000000000"
  defines "frac \<equiv> (tv_nsec t * 9223372036 + 1610612736) div 2147483648"
  shows "tuxtime t = tv_sec t * 2 ^ 32 + frac" "frac < 2 ^ 32"
    "tv_nsec t * 2 ^ 32 \<le> frac * 1000000000 + 2 ^ 31"
    "frac * 1000000000 + 2 ^ 31 < tv_nsec t * 2 ^ 32 + 2 ^ 32"
proof -
  have d: "frac * 2147483648 \<le> tv_nsec t * 9223372036 + 1610612736"
    "tv_nsec t * 9223372036 + 1610612736 < frac * 2147483648 + 2147483648"
    using mult_div_mod_eq [of 2147483648 "tv_nsec t * 9223372036 + 1610612736"]
      mod_less_divisor [of 2147483648 "tv_nsec t * 9223372036 + 1610612736"]
    unfolding frac_def by linarith+
  have p: "(2 :: nat) ^ 32 = 4294967296" "(2 :: nat) ^ 31 = 2147483648" by simp_all
  show f: "frac < 2 ^ 32" unfolding p using d assms(2) by linarith
  show "tv_nsec t * 2 ^ 32 \<le> frac * 1000000000 + 2 ^ 31"
    "frac * 1000000000 + 2 ^ 31 < tv_nsec t * 2 ^ 32 + 2 ^ 32"
    unfolding p using d assms(2) by linarith+
  have w: "tv_nsec t * 9223372036 + 1610612736 < 2 ^ 64" "tv_sec t * 2 ^ 32 + frac < 2 ^ 64"
    using assms(1,2) f by simp_all
  show "tuxtime t = tv_sec t * 2 ^ 32 + frac"
    using w assms(1) by (simp add: tuxtime_def wrap64_def frac_def)
qed

lemma spectime_split:
  assumes "s < 2 ^ 32" "f < 2 ^ 32"
  shows "spectime (s * 2 ^ 32 + f) = \<lparr>tv_sec = s, tv_nsec = (f * 1000000000 + 2 ^ 31) div 2 ^ 32\<rparr>"
proof -
  have "(f * 1000000000 + 2 ^ 31) div 2 ^ 32 < 2 ^ 32"
    using assms(2) by (intro less_mult_imp_div_less) simp
  then show ?thesis
    using assms by (simp add: spectime_def high32_def billionths_def wrap32_def wrap64_def)
qed

text \<open>The time that is left after a field of 32.16 bits has been stored and read back.\<close>

definition time_on_disk :: "timespec \<Rightarrow> timespec" where
  "time_on_disk t = spectime (wrap64 ((tuxtime t div 2 ^ TIME_ATTR_SHIFT) mod 2 ^ 48 * 2 ^ TIME_ATTR_SHIFT))"

lemma time_on_disk_bounds:
  assumes "tv_sec t < 2 ^ 32" "tv_nsec t < 1000000000"
  shows "tv_sec (time_on_disk t) = tv_sec t" "tv_nsec (time_on_disk t) \<le> tv_nsec t"
    "tv_nsec t \<le> tv_nsec (time_on_disk t) + 15259"
proof -
  define f where "f = (tv_nsec t * 9223372036 + 1610612736) div 2147483648"
  note tt = tuxtime_eq [OF assms, folded f_def]
  define g where "g = f div 65536 * 65536"
  have p: "(2 :: nat) ^ 32 = 4294967296" "(2 :: nat) ^ 31 = 2147483648" by simp_all
  have g: "g \<le> f" "f < g + 65536"
    using mult_div_mod_eq [of 65536 f] mod_less_divisor [of 65536 f] unfolding g_def by linarith+
  have "tuxtime t = f + tv_sec t * 65536 * 65536" using tt(1) by simp
  then have q: "tuxtime t div 65536 = tv_sec t * 65536 + f div 65536"
    by (simp only: div_mult_self1 zero_neq_numeral not_False_eq_True)
  have fd: "f div 65536 < 65536" using tt(2) by simp
  have "tv_sec t * 65536 + f div 65536 < 2 ^ 48"
    using assms(1) fd by simp
  then have "(tuxtime t div 2 ^ TIME_ATTR_SHIFT) mod 2 ^ 48 * 2 ^ TIME_ATTR_SHIFT = tv_sec t * 2 ^ 32 + g"
    by (simp add: TIME_ATTR_SHIFT_def q g_def add_mult_distrib)
  moreover have "tv_sec t * 2 ^ 32 + g < 2 ^ 64" using assms(1) tt(2) g(1) by simp
  ultimately have e: "time_on_disk t = spectime (tv_sec t * 2 ^ 32 + g)"
    by (simp add: time_on_disk_def wrap64_def)
  also have "\<dots> = \<lparr>tv_sec = tv_sec t, tv_nsec = (g * 1000000000 + 2 ^ 31) div 2 ^ 32\<rparr>"
    using assms(1) tt(2) g(1) by (intro spectime_split) auto
 finally have r: "time_on_disk t = \<lparr>tv_sec = tv_sec t, tv_nsec = (g * 1000000000 + 2 ^ 31) div 2 ^ 32\<rparr>" .
  define n where "n = (g * 1000000000 + 2 ^ 31) div 2 ^ 32"
  have n: "n * 4294967296 \<le> g * 1000000000 + 2147483648" "g * 1000000000 + 2147483648 < n * 4294967296 + 4294967296"
    using mult_div_mod_eq [of "2 ^ 32" "g * 1000000000 + 2 ^ 31"]
      mod_less_divisor [of "2 ^ 32" "g * 1000000000 + 2 ^ 31"]
    unfolding n_def p by linarith+
  show "tv_sec (time_on_disk t) = tv_sec t" by (simp add: r)
  have "n \<le> tv_nsec t" using n g tt(3,4) unfolding p by linarith
  then show "tv_nsec (time_on_disk t) \<le> tv_nsec t" by (simp add: r n_def)
  have "tv_nsec t \<le> n + 15259" using n g tt(3,4) unfolding p by linarith
  then show "tv_nsec t \<le> tv_nsec (time_on_disk t) + 15259" by (simp add: r n_def)
qed

section \<open>Round trips of the parts\<close>

lemma dev_masks: "(0xff :: u32) = mask 8" "(0xfff00 :: u32) = push_bit 8 (mask 12)"
  by (simp_all add: mask_eq_exp_minus_1)

lemma new_decode_encode_dev: "new_decode_dev (new_encode_dev dev) = dev"
proof (rule bit_word_eqI)
  fix n assume "n < LENGTH(32)"
  then have "n < 8 \<or> 8 \<le> n \<and> n < 20 \<or> 20 \<le> n \<and> n < 32" by simp linarith
  then show "bit (new_decode_dev (new_encode_dev dev)) n \<longleftrightarrow> bit dev n"
    unfolding new_decode_dev_def new_encode_dev_def Let_def dev_masks
    by (elim disjE conjE; simp add: bit_simps; auto dest: bit_imp_le_length)
qed

lemma huge_decode_encode_dev [simp]:
  "huge_decode_dev (huge_encode_dev dev) = dev" "huge_encode_dev dev < 18446744073709551616"
proof -
  show "huge_decode_dev (huge_encode_dev dev) = dev"
    by (simp add: huge_decode_dev_def huge_encode_dev_def new_decode_encode_dev)
  have "unat (new_encode_dev dev) < 2 ^ 32" using unsigned_less [of "new_encode_dev dev"] by simp
  then show "huge_encode_dev dev < 18446744073709551616" by (simp add: huge_encode_dev_def)
qed

section \<open>Encoding as a list of attributes\<close>

definition attr_head :: "nat \<Rightarrow> nat \<Rightarrow> bytes" where
  "attr_head kind version = be16 (push_bit 12 kind OR version)"

definition attr_bytes :: "inode \<Rightarrow> nat \<Rightarrow> nat \<Rightarrow> bytes" where
  "attr_bytes ino version kind = attr_head kind version @ encode_attr ino kind []"

definition xattr_entry :: "nat \<Rightarrow> xattr \<Rightarrow> bytes" where
  "xattr_entry version x =
     attr_head XATTR_ATTR version @ be16 (length (body x) + 2) @ be16 (xatom x) @ body x"

lemma encode_kind_append: "encode_kind at kind version = at @ attr_head kind version"
  by (simp add: encode_kind_def attr_head_def encode_append)

lemma encode_attr_append: "encode_attr ino kind at = at @ encode_attr ino kind []"
  by (simp add: encode_attr_def encode_append)

lemma length_attr_head [simp]: "length (attr_head kind version) = 2"
  by (simp add: attr_head_def)

lemma length_encode_attr: "kind < VAR_ATTRS \<Longrightarrow> length (encode_attr ino kind []) = atsize ! kind"
proof -
  assume "kind < VAR_ATTRS"
  then have "kind \<in> {0, 1, 2, 3, 4, 5, 6, 7, 8, 9, 10}" by (auto simp: VAR_ATTRS_def eval_nat_numeral less_Suc_eq)
  then show ?thesis
    by (auto simp: encode_attr_def encode_append attr_kinds atsize_def eval_nat_numeral)
qed

definition attr_room :: "nat \<Rightarrow> nat" where
  "attr_room kind = atsize ! kind + 2"

lemma encode_attrs_loop_eq:
  assumes "set kinds \<subseteq> {..<VAR_ATTRS}" and "\<And>k. bit (present ino) k \<Longrightarrow> k < 6"
    and "int (length at) + int (sum_list (map attr_room (filter (bit (present ino)) kinds))) \<le> limit + 3"
  shows "encode_attrs_loop ino version limit kinds at =
      at @ concat (map (attr_bytes ino version) (filter (bit (present ino)) kinds))"
  using assms(1,3)
proof (induction kinds arbitrary: at)
  case Nil
  then show ?case by simp
next
  case (Cons k kinds)
  show ?case
  proof (cases "bit (present ino) k")
    case False
    then show ?thesis using Cons by simp
  next
    case True
    have len: "length (attr_bytes ino version k) = attr_room k"
      using Cons.prems(1) by (simp add: attr_bytes_def length_encode_attr attr_room_def)
    have "2 \<le> atsize ! k"
      using assms(2) [OF True] by (auto simp: eval_nat_numeral less_Suc_eq atsize_def attr_kinds)
    then have "\<not> int (length at) \<ge> limit"
      using Cons.prems(2) True by (simp add: attr_room_def)
    then have "encode_attrs_loop ino version limit (k # kinds) at =
        encode_attrs_loop ino version limit kinds (at @ attr_bytes ino version k)"
      using True encode_attr_append [of ino k "encode_kind at k version"]
      by (simp add: attr_bytes_def encode_kind_append)
    also have "\<dots> = (at @ attr_bytes ino version k)
        @ concat (map (attr_bytes ino version) (filter (bit (present ino)) kinds))"
      using Cons.prems True len by (intro Cons.IH) auto
    finally show ?thesis using True by simp
  qed
qed

lemma encode_xattrs_loop_eq:
  assumes "int (length at) + int (sum_list (map (length \<circ> xattr_entry version) xs)) \<le> limit + 3"
  shows "encode_xattrs_loop version limit xs at = at @ concat (map (xattr_entry version) xs)"
  using assms
proof (induction xs arbitrary: at)
  case Nil
  then show ?case by simp
next
  case (Cons x xs)
  have len: "length (xattr_entry version x) = 6 + length (body x)" by (simp add: xattr_entry_def)
  have "encode_xattrs_loop version limit (x # xs) at =
      encode_xattrs_loop version limit xs (at @ xattr_entry version x)"
    using Cons.prems len by (simp add: Let_def xattr_entry_def encode_kind_append encode_append)
  also have "\<dots> = (at @ xattr_entry version x) @ concat (map (xattr_entry version) xs)"
    using Cons.prems by (intro Cons.IH) simp
  finally show ?case by simp
qed

section \<open>Decoding an encoded entry\<close>

text \<open>What \<open>decode_attrs\<close> takes over for one attribute.\<close>

definition copy_attr :: "inode \<Rightarrow> inode \<Rightarrow> nat \<Rightarrow> inode" where
  "copy_attr src dst kind =
     (if kind = RDEV_ATTR then dst\<lparr>i_rdev := i_rdev src\<rparr>
      else if kind = MODE_OWNER_ATTR then
        dst\<lparr>i_mode := i_mode src, i_uid := i_uid src, i_gid := i_gid src\<rparr>
      else if kind = CTIME_SIZE_ATTR then
        dst\<lparr>i_size := i_size src, i_ctime := time_on_disk (i_ctime src)\<rparr>
      else if kind = DATA_BTREE_ATTR then dst\<lparr>i_root := i_root src\<rparr>
      else if kind = LINK_COUNT_ATTR then dst\<lparr>i_nlink := i_nlink src\<rparr>
      else dst\<lparr>i_mtime := time_on_disk (i_mtime src)\<rparr>)"

definition take_attr :: "inode \<Rightarrow> inode \<Rightarrow> nat \<Rightarrow> inode" where
  "take_attr src dst kind = (copy_attr src dst kind)
     \<lparr>present := present dst OR push_bit kind 1\<rparr>"

text \<open>The field ranges that fit the encoding, and the attribute bits the encoder knows.\<close>

definition storable :: "inode \<Rightarrow> bool" where
  "storable ino \<longleftrightarrow> i_mode ino < 2 ^ 32 \<and> i_uid ino < 2 ^ 32 \<and> i_gid ino < 2 ^ 32
     \<and> i_nlink ino < 2 ^ 32 \<and> i_size ino < 2 ^ 64
     \<and> root_depth (i_root ino) < 2 ^ 16 \<and> root_block (i_root ino) < 2 ^ 48 \<and> present ino < 2 ^ 6"

lemma head_parts:
  fixes version :: nat
  assumes "kind < 16" "version < 2 ^ 12"
  shows "(push_bit 12 kind OR version) mod 65536 = kind * 4096 + version"
    "(kind * 4096 + version) div 4096 = kind" "take_bit 12 (kind * 4096 + version) = version"
  using assms or_shift_disjoint [OF assms(2), of kind] by (simp_all add: take_bit_eq_mod)

lemma decode_head:
  assumes "kind < 16" "version < 2 ^ 12"
  shows "decode_attrs version dst (attr_head kind version @ r) =
    (case decode_attr dst kind r of
       None \<Rightarrow> None
     | Some None \<Rightarrow> Some (dst, None)
     | Some (Some (ino, r)) \<Rightarrow>
         decode_attrs version (ino\<lparr>present := present ino OR push_bit kind 1\<rparr>) r)"
  using head_parts [OF assms]
  by (subst decode_attrs.simps)
    (simp add: attr_head_def Let_def del: div_mult_self3 cong: option.case_cong)

lemma tuxtime_48: "tuxtime t div 2 ^ TIME_ATTR_SHIFT < 281474976710656"
proof -
  have "tuxtime t < 2 ^ 64" unfolding tuxtime_def Let_def by (simp add: wrap64_def)
  then show ?thesis by (simp add: TIME_ATTR_SHIFT_def less_mult_imp_div_less)
qed

lemma decode_attr_payload:
  assumes "kind < 6" "storable src"
  shows "decode_attr dst kind (encode_attr src kind [] @ r) = Some (Some (copy_attr src dst kind, r))"
proof -
  have k: "kind \<in> {0, 1, 2, 3, 4, 5}" using assms(1) by (auto simp: eval_nat_numeral less_Suc_eq)
  have t: "(tuxtime t div 2 ^ TIME_ATTR_SHIFT) mod 281474976710656 = tuxtime t div 2 ^ TIME_ATTR_SHIFT"
    for t using tuxtime_48 by simp
  have u: "unpack_root (pack_root (i_root src)) = i_root src" "pack_root (i_root src) < 2 ^ 64"
    using assms(2) unpack_pack_root [of "i_root src"] by (simp_all add: storable_def)
  show ?thesis
    using k assms(2) u t
    by (elim insertE emptyE)
      (simp_all add: decode_attr_def encode_attr_def encode_append copy_attr_def attr_kinds
        storable_def time_on_disk_def)
qed

lemma present_copy [simp]: "present (copy_attr src dst kind) = present dst"
  by (simp add: copy_attr_def)

lemma decode_attrs_fixed:
  assumes "\<forall>k\<in>set kinds. k < 6" "storable src" "version < 2 ^ 12"
  shows "decode_attrs version dst (concat (map (attr_bytes src version) kinds) @ r) =
    decode_attrs version (foldl (take_attr src) dst kinds) r"
  using assms(1)
proof (induction kinds arbitrary: dst)
  case Nil
  then show ?case by simp
next
  case (Cons k kinds)
  have "decode_attrs version dst (concat (map (attr_bytes src version) (k # kinds)) @ r) =
      decode_attrs version (take_attr src dst k) (concat (map (attr_bytes src version) kinds) @ r)"
    using Cons.prems assms(2,3)
    by (simp add: attr_bytes_def decode_head decode_attr_payload take_attr_def)
  then show ?case using Cons by simp
qed

text \<open>
  \<open>ino\<close> is \<open>dst\<close> with the attributes in \<open>K\<close> taken over from \<open>src\<close>, times cut to what the
  disk format keeps.
\<close>

definition taken_over :: "inode \<Rightarrow> inode \<Rightarrow> nat set \<Rightarrow> inode \<Rightarrow> bool" where
  "taken_over src dst K ino \<longleftrightarrow>
     i_rdev ino = (if RDEV_ATTR \<in> K then i_rdev src else i_rdev dst) \<and>
     i_mode ino = (if MODE_OWNER_ATTR \<in> K then i_mode src else i_mode dst) \<and>
     i_uid ino = (if MODE_OWNER_ATTR \<in> K then i_uid src else i_uid dst) \<and>
     i_gid ino = (if MODE_OWNER_ATTR \<in> K then i_gid src else i_gid dst) \<and>
     i_size ino = (if CTIME_SIZE_ATTR \<in> K then i_size src else i_size dst) \<and>
     i_ctime ino = (if CTIME_SIZE_ATTR \<in> K then time_on_disk (i_ctime src) else i_ctime dst) \<and>
     i_root ino = (if DATA_BTREE_ATTR \<in> K then i_root src else i_root dst) \<and>
     i_nlink ino = (if LINK_COUNT_ATTR \<in> K then i_nlink src else i_nlink dst) \<and>
     i_mtime ino = (if MTIME_ATTR \<in> K then time_on_disk (i_mtime src) else i_mtime dst) \<and>
     (\<forall>k. bit (present ino) k \<longleftrightarrow> bit (present dst) k \<or> k \<in> K)"

lemma taken_over_empty: "taken_over src dst {} dst"
  by (simp add: taken_over_def)

lemma bit_power_two: "bit (2 ^ k :: nat) j \<longleftrightarrow> j = k"
  by (auto simp: bit_exp_iff)

lemma taken_over_insert:
  assumes "taken_over src dst K ino" "k < 6"
  shows "taken_over src dst (insert k K) (take_attr src ino k)"
    and "xcache (take_attr src ino k) = xcache ino"
proof -
  have k: "k \<in> {0, 1, 2, 3, 4, 5}" using assms(2) by (auto simp: eval_nat_numeral less_Suc_eq)
  then show "xcache (take_attr src ino k) = xcache ino"
    by (simp add: take_attr_def copy_attr_def)
  have p: "bit (present (take_attr src ino k)) j \<longleftrightarrow> bit (present dst) j \<or> j \<in> insert k K" for j
    using assms(1) by (auto simp: take_attr_def bit_or_iff bit_power_two taken_over_def)
  show "taken_over src dst (insert k K) (take_attr src ino k)"
    unfolding taken_over_def
    using assms(1) k
    by (intro conjI allI p; elim insertE emptyE;
        simp add: take_attr_def copy_attr_def attr_kinds taken_over_def)
qed

lemma taken_over_foldl:
  assumes "\<forall>k\<in>set kinds. k < 6"
  shows "taken_over src dst (set kinds) (foldl (take_attr src) dst kinds)
    \<and> xcache (foldl (take_attr src) dst kinds) = xcache dst"
  using assms
proof (induction kinds rule: rev_induct)
  case Nil
  then show ?case by (simp add: taken_over_empty)
next
  case (snoc k kinds)
  then show ?case using taken_over_insert [of src dst "set kinds"] by simp
qed

text \<open>The extended attributes fill the cache in order.\<close>

definition cache_with :: "xcache \<Rightarrow> xattr list \<Rightarrow> xcache" where
  "cache_with xc xs = xc\<lparr>xc_size := xc_size xc + sum_list (map xattr_bytes xs),
     xattrs := xattrs xc @ xs\<rparr>"

definition mark_xattr :: "inode \<Rightarrow> xattr list \<Rightarrow> inode" where
  "mark_xattr ino xs = (if xs = [] then ino else ino\<lparr>present := present ino OR push_bit XATTR_ATTR 1\<rparr>)"

lemma taken_over_mark:
  assumes "taken_over src dst K ino" "xs \<noteq> []"
  shows "taken_over src dst (K \<union> {XATTR_ATTR}) (mark_xattr (ino\<lparr>xcache := c\<rparr>) xs)"
proof -
  have "bit (present (mark_xattr (ino\<lparr>xcache := c\<rparr>) xs)) k \<longleftrightarrow> bit (present dst) k \<or> k \<in> K \<union> {XATTR_ATTR}" for k
    using assms by (auto simp: mark_xattr_def bit_or_iff bit_power_two taken_over_def)
  then show ?thesis
    using assms unfolding taken_over_def by (simp add: mark_xattr_def attr_kinds)
qed

lemma decode_attrs_xattrs:
  assumes "version < 2 ^ 12" "xcache dst = Some xc" "\<forall>x\<in>set xs. xatom x < 2 ^ 16"
    and "xc_size xc + sum_list (map xattr_bytes xs) \<le> xc_max xc" "xc_max xc < 2 ^ 16"
  shows "decode_attrs version dst (concat (map (xattr_entry version) xs)) =
    Some (mark_xattr (dst\<lparr>xcache := Some (cache_with xc xs)\<rparr>) xs, Some [])"
  using assms(2-5)
proof (induction xs arbitrary: dst xc)
  case Nil
  then show ?case by (simp add: mark_xattr_def cache_with_def decode_attrs.simps [of _ _ "[]"])
next
  case (Cons x xs)
  let ?n = "length (body x)"
  have xb: "xc_size xc + (4 + ?n) + sum_list (map xattr_bytes xs) \<le> xc_max xc"
    using Cons.prems(3) xattr_bytes_def [of x] by simp
  then have n: "?n + 2 < 65536" using Cons.prems(4) by simp
  let ?xc = "cache_with xc [x]"
  let ?dst = "dst\<lparr>xcache := Some ?xc, present := present dst OR push_bit XATTR_ATTR 1\<rparr>"
  have c: "?xc = xc\<lparr>xc_size := (xc_size xc + (4 + ?n)) mod 65536, xattrs := xattrs xc @ [x]\<rparr>"
    using xb Cons.prems(4) by (simp add: cache_with_def xattr_bytes_def)
  have a: "decode_attr dst XATTR_ATTR (be16 (?n + 2) @ be16 (xatom x) @ body x @ r) =
      Some (Some (dst\<lparr>xcache := Some ?xc\<rparr>, r))" for r
    using n Cons.prems(1,2) xb unfolding c
    by (simp add: decode_attr_def attr_kinds sub32_id)
  have "decode_attrs version dst (concat (map (xattr_entry version) (x # xs))) =
      decode_attrs version ?dst (concat (map (xattr_entry version) xs))"
    using assms(1) a by (simp add: xattr_entry_def decode_head XATTR_ATTR_def)
  also have "\<dots> = Some (mark_xattr (?dst\<lparr>xcache := Some (cache_with ?xc xs)\<rparr>) xs, Some [])"
    using Cons.prems xb by (intro Cons.IH) (auto simp: cache_with_def xattr_bytes_def)
  also have "cache_with ?xc xs = cache_with xc (x # xs)" by (simp add: cache_with_def)
  finally show ?case by (simp add: mark_xattr_def or.assoc)
qed

section \<open>The size of the cache an entry needs\<close>

lemma decode_xsize_fixed:
  assumes "\<forall>k\<in>set kinds. k < 6" "version < 2 ^ 12"
  shows "decode_xsize_loop version (concat (map (attr_bytes src version) kinds) @ r) tot =
    decode_xsize_loop version r tot"
  using assms(1)
proof (induction kinds)
  case Nil
  then show ?case by simp
next
  case (Cons k kinds)
  have k: "k < 6" "k < 16" "k \<noteq> XATTR_ATTR" "k \<noteq> IDATA_ATTR"
    using Cons.prems by (auto simp: attr_kinds)
  have len: "length (encode_attr src k []) = atsize ! k"
    using k by (intro length_encode_attr) (simp add: VAR_ATTRS_def)
  have "decode_xsize_loop version (concat (map (attr_bytes src version) (k # kinds)) @ r) tot =
      decode_xsize_loop version (concat (map (attr_bytes src version) kinds) @ r) tot"
    using head_parts [OF k(2) assms(2)] k(3,4) len
    by (subst decode_xsize_loop.simps)
      (simp add: attr_bytes_def attr_head_def Let_def del: div_mult_self3)
  then show ?case using Cons by simp
qed

lemma decode_xsize_xattrs:
  assumes "version < 2 ^ 12" "tot + sum_list (map xattr_bytes xs) < 2 ^ 16"
  shows "decode_xsize_loop version (concat (map (xattr_entry version) xs)) tot =
    Some (tot + sum_list (map xattr_bytes xs))"
  using assms(2)
proof (induction xs arbitrary: tot)
  case Nil
  then show ?case by (simp add: decode_xsize_loop.simps [of _ "[]"])
next
  case (Cons x xs)
  let ?n = "length (body x)"
  have b: "tot + (4 + ?n) + sum_list (map xattr_bytes xs) < 2 ^ 16"
    using Cons.prems xattr_bytes_def [of x] by simp
  then have n: "?n + 2 < 65536" "sub32 (tot + 4 + (?n + 2)) 2 = tot + (4 + ?n)"
    by (simp_all add: sub32_id)
  have "decode_xsize_loop version (concat (map (xattr_entry version) (x # xs))) tot =
      decode_xsize_loop version (drop 2 (be16 (xatom x)) @ concat (map (xattr_entry version) xs)) (tot + (4 + ?n))"
    using head_parts [of XATTR_ATTR version] assms(1) n
    by (subst decode_xsize_loop.simps)
      (simp add: xattr_entry_def attr_head_def Let_def XATTR_ATTR_def del: div_mult_self3)
  then show ?case using Cons.IH [of "tot + (4 + ?n)"] b by (simp add: xattr_bytes_def [of x])
qed

section \<open>Properties\<close>

lemma foldl_asize:
  "foldl (\<lambda>need kind. if P kind then need + (atsize ! kind + 2) else need) n kinds =
    n + sum_list (map attr_room (filter P kinds))"
  by (induction kinds arbitrary: n) (auto simp: attr_room_def)

lemma encode_asize_eq:
  "encode_asize bits = sum_list (map attr_room (filter (bit bits) [0..<VAR_ATTRS]))"
  by (simp add: encode_asize_def foldl_asize)

lemma length_attr_bytes:
  "kind < VAR_ATTRS \<Longrightarrow> length (attr_bytes ino version kind) = attr_room kind"
  by (simp add: attr_bytes_def length_encode_attr attr_room_def)

text \<open>A cache whose size field matches its entries.\<close>

definition xcache_ok :: "xcache \<Rightarrow> bool" where
  "xcache_ok xc \<longleftrightarrow> xc_size xc = 4 + sum_list (map xattr_bytes (xattrs xc)) \<and> xc_size xc < 2 ^ 16
     \<and> (\<forall>x\<in>set (xattrs xc). xatom x < 2 ^ 16)"

lemma xcache_walk_all:
  "xcache_walk (pos + sum_list (map xattr_bytes xs)) xs pos = Some xs"
proof (induction xs arbitrary: pos)
  case Nil
  then show ?case by (simp add: xcache_walk.simps)
next
  case (Cons x xs)
  then show ?case
    using Cons.IH [of "pos + xattr_bytes x"]
    by (subst xcache_walk.simps) (simp add: add.assoc xattr_bytes_def [of x])
qed

lemma xcache_walk_ok: "xcache_ok xc \<Longrightarrow> xcache_walk (xc_size xc) (xattrs xc) 4 = Some (xattrs xc)"
  using xcache_walk_all [of 4 "xattrs xc"] by (simp add: xcache_ok_def)

lemma encode_xsize_loop_eq:
  "encode_xsize_loop xs n = n + sum_list (map (length \<circ> xattr_entry version) xs)"
  by (induction xs arbitrary: n) (simp_all add: xattr_entry_def atsize_def attr_kinds)

definition inode_xattrs :: "inode \<Rightarrow> xattr list" where
  "inode_xattrs ino = (case xcache ino of None \<Rightarrow> [] | Some xc \<Rightarrow> xattrs xc)"

lemma encode_entry:
  assumes st: "storable src" and v: "version < 2 ^ 12"
    and xc: "\<And>xc. xcache src = Some xc \<Longrightarrow> xcache_ok xc"
    and xsize: "encode_xsize src = Some xsz"
  defines "kinds \<equiv> filter (bit (present src)) [0..<VAR_ATTRS]"
  defines "fixed \<equiv> concat (map (attr_bytes src version) kinds)"
  defines "ext \<equiv> concat (map (xattr_entry version) (inode_xattrs src))"
  shows "encode_attrs src version (encode_asize (present src) + xsz) = fixed"
    "length fixed = encode_asize (present src)" "length ext = xsz"
    "encode_xattrs src version xsz = Some ext" "\<forall>k\<in>set kinds. k < 6"
    "set kinds = {k. bit (present src) k}"
proof -
  have six: "k < 6" if "bit (present src) k" for k
  proof (rule ccontr)
    assume "\<not> k < 6"
    then have "(2 :: nat) ^ 6 \<le> 2 ^ k" by (intro power_increasing) auto
    then have "present src < 2 ^ k" using st by (simp add: storable_def)
    then show False using that by (simp add: bit_nat_def)
  qed
  show "\<forall>k\<in>set kinds. k < 6" using six by (auto simp: kinds_def)
  show "set kinds = {k. bit (present src) k}"
    using six by (auto simp: kinds_def VAR_ATTRS_def dest: six)
  show fl: "length fixed = encode_asize (present src)"
  proof -
    have "length fixed = sum_list (map (length \<circ> attr_bytes src version) kinds)"
      by (simp add: fixed_def length_concat)
    also have "\<dots> = sum_list (map attr_room kinds)"
      by (intro arg_cong [of _ _ sum_list] map_cong) (auto simp: kinds_def length_attr_bytes)
    finally show ?thesis by (simp add: encode_asize_eq kinds_def)
  qed
  show "encode_attrs src version (encode_asize (present src) + xsz) = fixed"
    unfolding encode_attrs_def fixed_def kinds_def
    using six by (subst encode_attrs_loop_eq) (auto simp: encode_asize_eq)
  have el: "length ext = sum_list (map (length \<circ> xattr_entry version) (inode_xattrs src))"
    by (simp add: ext_def length_concat)
  show xl: "length ext = xsz"
    using xsize xc el
    by (auto simp: encode_xsize_def inode_xattrs_def encode_xsize_loop_eq [of _ _ version] xcache_walk_ok
        split: option.splits bind_splits)
  show "encode_xattrs src version xsz = Some ext"
    using xc xl el
    by (auto simp: encode_xattrs_def inode_xattrs_def xcache_walk_ok ext_def encode_xattrs_loop_eq
        split: option.splits)
qed

text \<open>C28. What \<open>store_attrs\<close> writes has exactly the size it reserves, and \<open>open_inode\<close> reads it
  back: the cache it allocates from \<open>decode_xsize\<close> is just large enough, every attribute that
  was present returns with its value (times to the precision of the disk format), no other field
  changes, and the extended attributes return in order.\<close>

theorem inode_attrs_roundtrip:
  assumes "storable src" and "version < 2 ^ 12" and "\<forall>xc. xcache src = Some xc \<longrightarrow> xcache_ok xc"
  shows "\<exists>xsz fixed ext. encode_xsize src = Some xsz
    \<and> encode_attrs src version (encode_asize (present src) + xsz) = fixed
    \<and> encode_xattrs src version xsz = Some ext
    \<and> length (fixed @ ext) = encode_asize (present src) + xsz
    \<and> (\<exists>need ino. decode_xsize version (fixed @ ext) = Some need
      \<and> decode_attrs version (dst\<lparr>xcache := if need = 0 then None else Some (new_xcache need)\<rparr>)
            (fixed @ ext) = Some (ino, Some [])
      \<and> taken_over src dst ({k. bit (present src) k}
            \<union> (if inode_xattrs src = [] then {} else {XATTR_ATTR})) ino
      \<and> inode_xattrs ino = inode_xattrs src)"
proof -
  let ?xs = "inode_xattrs src"
  let ?kinds = "filter (bit (present src)) [0..<VAR_ATTRS]"
  have xok: "xcache src = Some xc \<Longrightarrow> xcache_ok xc" for xc using assms(3) by blast
  have xsize: "\<exists>xsz. encode_xsize src = Some xsz"
  proof (cases "xcache src")
    case (Some xc)
    then have "4 + sum_list (map xattr_bytes (xattrs xc)) = max 4 (xc_size xc)"
      using xok by (simp add: xcache_ok_def)
    then show ?thesis using Some xcache_walk_ok [OF xok [OF Some]] by (simp add: encode_xsize_def)
  qed (simp add: encode_xsize_def)
  then obtain xsz where xsz: "encode_xsize src = Some xsz" by blast
  let ?fixed = "concat (map (attr_bytes src version) ?kinds)"
  let ?ext = "concat (map (xattr_entry version) ?xs)"
  note e = encode_entry [OF assms(1,2) xok xsz]
  have tot: "4 + sum_list (map xattr_bytes ?xs) < 2 ^ 16" "\<forall>x\<in>set ?xs. xatom x < 2 ^ 16"
    using xok by (cases "xcache src"; force simp: inode_xattrs_def xcache_ok_def)+
  define need where "need = (if ?xs = [] then 0 else 4 + sum_list (map xattr_bytes ?xs))"
  have "decode_xsize_loop version (?fixed @ ?ext) 0 = Some (sum_list (map xattr_bytes ?xs))"
    using e(5) assms(2) tot(1) by (simp add: decode_xsize_fixed decode_xsize_xattrs)
  moreover have "sum_list (map xattr_bytes ?xs) = 0 \<longleftrightarrow> ?xs = []"
    by (cases ?xs) (auto simp: xattr_bytes_def)
  ultimately have need: "decode_xsize version (?fixed @ ?ext) = Some need"
    by (simp add: decode_xsize_def need_def)
  define d where "d = dst\<lparr>xcache := if need = 0 then None else Some (new_xcache need)\<rparr>"
  let ?ino = "foldl (take_attr src) d ?kinds"
  have fx: "decode_attrs version d (?fixed @ ?ext) = decode_attrs version ?ino ?ext"
    using e(5) assms(1,2) by (rule decode_attrs_fixed)
  have tk: "taken_over src d {k. bit (present src) k} ?ino" "xcache ?ino = xcache d"
    using taken_over_foldl [OF e(5), of src d] e(6) by simp_all
  have tk': "taken_over src dst {k. bit (present src) k} ?ino"
    using tk(1) by (simp add: taken_over_def d_def)
  have "\<exists>ino. decode_attrs version ?ino ?ext = Some (ino, Some [])
      \<and> taken_over src dst ({k. bit (present src) k} \<union> (if ?xs = [] then {} else {XATTR_ATTR})) ino
      \<and> inode_xattrs ino = ?xs"
  proof (cases "?xs = []")
    case True
    then show ?thesis
      using tk' tk(2) by (simp add: decode_attrs.simps [of _ _ "[]"] inode_xattrs_def d_def need_def)
  next
    case False
    then have x: "xcache ?ino = Some (new_xcache need)" "need = 4 + sum_list (map xattr_bytes ?xs)"
      using tk(2) by (simp_all add: d_def need_def)
    let ?r = "mark_xattr (?ino\<lparr>xcache := Some (cache_with (new_xcache need) ?xs)\<rparr>) ?xs"
    have "decode_attrs version ?ino ?ext = Some (?r, Some [])"
      using tot x by (intro decode_attrs_xattrs assms(2)) (simp_all add: new_xcache_def)
    moreover have "taken_over src dst ({k. bit (present src) k} \<union> {XATTR_ATTR}) ?r"
      by (rule taken_over_mark [OF tk' False])
    moreover have "inode_xattrs ?r = ?xs"
      using False by (simp add: inode_xattrs_def mark_xattr_def cache_with_def new_xcache_def)
    ultimately show ?thesis using False by auto
  qed
  then obtain ino where i: "decode_attrs version ?ino ?ext = Some (ino, Some [])"
    "taken_over src dst ({k. bit (present src) k} \<union> (if ?xs = [] then {} else {XATTR_ATTR})) ino"
    "inode_xattrs ino = ?xs" by blast
  have dec: "decode_attrs version (dst\<lparr>xcache := if need = 0 then None else Some (new_xcache need)\<rparr>)
      (?fixed @ ?ext) = Some (ino, Some [])"
    using fx i(1) by (simp only: d_def)
  have len: "length (?fixed @ ?ext) = encode_asize (present src) + xsz" using e(2,3) by simp
  show ?thesis
    by (intro exI [of _ xsz] exI [of _ ?fixed] exI [of _ ?ext] exI [of _ need] exI [of _ ino] conjI
        xsz e(1) e(4) len need dec i(2) i(3))
qed

definition demo_inode :: inode where
  "demo_inode = \<lparr>present = 63, i_rdev = 0x801, i_mode = 0x81a4, i_uid = 0x12121212, i_gid = 0x34343434,
     i_nlink = 2, i_size = 0x123456789, i_ctime = \<lparr>tv_sec = 1000, tv_nsec = 999999999\<rparr>,
     i_mtime = \<lparr>tv_sec = 1001, tv_nsec = 7\<rparr>, i_root = \<lparr>root_depth = 3, root_block = 0xcaba1f00d\<rparr>,
     xcache = Some \<lparr>xc_size = 11, xc_max = 128, xattrs = [\<lparr>xatom = 5, body = [1, 2, 3]\<rparr>]\<rparr>\<rparr>"

theorem inode_attrs_roundtrip_witness:
  "\<exists>xsz ext need ino. encode_xsize demo_inode = Some xsz
    \<and> encode_xattrs demo_inode 0 xsz = Some ext
    \<and> decode_attrs 0 (demo_inode\<lparr>i_size := 0, xcache := if need = 0 then None else Some (new_xcache need)\<rparr>)
        (encode_attrs demo_inode 0 (encode_asize 63 + xsz) @ ext) = Some (ino, Some [])
    \<and> i_size ino = 0x123456789 \<and> inode_xattrs ino = [\<lparr>xatom = 5, body = [1, 2, 3]\<rparr>]"
proof -
  have b: "bit (63 :: nat) CTIME_SIZE_ATTR" by (simp add: CTIME_SIZE_ATTR_def)
  have p: "present demo_inode = 63" by (simp add: demo_inode_def)
  have a: "storable demo_inode" "\<forall>xc. xcache demo_inode = Some xc \<longrightarrow> xcache_ok xc"
    by (simp_all add: storable_def demo_inode_def xcache_ok_def xattr_bytes_def)
  obtain xsz ext need ino where r: "encode_xsize demo_inode = Some xsz"
    "encode_xattrs demo_inode 0 xsz = Some ext"
    "decode_attrs 0 (demo_inode\<lparr>i_size := 0, xcache := if need = 0 then None else Some (new_xcache need)\<rparr>)
        (encode_attrs demo_inode 0 (encode_asize 63 + xsz) @ ext) = Some (ino, Some [])"
    "taken_over demo_inode (demo_inode\<lparr>i_size := 0\<rparr>) ({k. bit (63 :: nat) k}
            \<union> (if inode_xattrs demo_inode = [] then {} else {XATTR_ATTR})) ino"
    "inode_xattrs ino = inode_xattrs demo_inode"
    using inode_attrs_roundtrip [OF a(1) _ a(2), of 0 "demo_inode\<lparr>i_size := 0\<rparr>"] unfolding p by auto
  have "i_size ino = i_size demo_inode"
    using r(4) b by (auto simp: taken_over_def)
  moreover have "i_size demo_inode = 0x123456789"
    "inode_xattrs demo_inode = [\<lparr>xatom = 5, body = [1, 2, 3]\<rparr>]"
    by (simp_all add: demo_inode_def inode_xattrs_def)
  ultimately show ?thesis using r(1-3,5) by metis
qed

text \<open>A time whose nanoseconds are below a second survives the conversion to the 32.32 fixed point
  format and back unchanged; after the 32.16 field of the disk format it has the same second and
  is early by at most 15259 nanoseconds.\<close>

theorem tux_times_roundtrip:
  assumes "tv_sec t < 2 ^ 32" and "tv_nsec t < 1000000000"
  shows "spectime (tuxtime t) = t \<and> tv_sec (time_on_disk t) = tv_sec t
    \<and> tv_nsec (time_on_disk t) \<le> tv_nsec t \<and> tv_nsec t \<le> tv_nsec (time_on_disk t) + 15259"
proof -
  let ?f = "(tv_nsec t * 9223372036 + 1610612736) div 2147483648"
  note tt = tuxtime_eq [OF assms]
  have "(?f * 1000000000 + 2 ^ 31) div 2 ^ 32 = tv_nsec t"
    using tt(3,4) by (intro div_nat_eqI) (simp_all add: mult.commute)
  then have "spectime (tuxtime t) = t"
    using spectime_split [OF assms(1) tt(2)] by (simp add: tt(1))
  then show ?thesis using time_on_disk_bounds [OF assms] by simp
qed

theorem tux_times_roundtrip_witness:
  "spectime (tuxtime \<lparr>tv_sec = 1236680000, tv_nsec = 999999999\<rparr>) = \<lparr>tv_sec = 1236680000, tv_nsec = 999999999\<rparr>"
  using tux_times_roundtrip [of "\<lparr>tv_sec = 1236680000, tv_nsec = 999999999\<rparr>"] by simp

text \<open>An extended attribute that belongs to another version is not skipped as a whole: only the four
  bytes behind its head are, and its body is then decoded as if it were attributes of the mounted
  version. A body that spells such attributes sets the inode's fields.\<close>

theorem foreign_xattr_body_decoded:
  assumes "storable forged" and "version < 2 ^ 12" and "other < 2 ^ 12" and "other \<noteq> version"
    and "\<forall>k\<in>set kinds. k < 6"
    and "body x = concat (map (attr_bytes forged version) kinds)"
  shows "decode_attrs version dst (xattr_entry other x)
    = Some (foldl (take_attr forged) dst kinds, Some [])"
proof -
  have "decode_attrs version dst (xattr_entry other x) = decode_attrs version dst (body x)"
    using head_parts [of XATTR_ATTR other] assms(3,4)
    by (subst decode_attrs.simps)
      (simp add: xattr_entry_def attr_head_def Let_def XATTR_ATTR_def atsize_def attr_kinds
        del: div_mult_self3)
  also have "\<dots> = decode_attrs version (foldl (take_attr forged) dst kinds) []"
    using decode_attrs_fixed [OF assms(5,1,2), of dst "[]"] assms(6) by simp
  finally show ?thesis by (simp add: decode_attrs.simps [of _ _ "[]"])
qed

theorem foreign_xattr_body_decoded_witness:
  "\<exists>ino r. decode_attrs 0 (demo_inode\<lparr>i_uid := 7\<rparr>) (xattr_entry 1
      \<lparr>xatom = 5, body = attr_bytes (demo_inode\<lparr>i_uid := 0\<rparr>) 0 MODE_OWNER_ATTR\<rparr>) = Some (ino, r)
    \<and> i_uid ino = 0"
proof -
  have "storable (demo_inode\<lparr>i_uid := 0\<rparr>)" by (simp add: storable_def demo_inode_def)
  then show ?thesis
    using foreign_xattr_body_decoded [of "demo_inode\<lparr>i_uid := 0\<rparr>" 0 1 "[MODE_OWNER_ATTR]"
        "\<lparr>xatom = 5, body = attr_bytes (demo_inode\<lparr>i_uid := 0\<rparr>) 0 MODE_OWNER_ATTR\<rparr>"
        "demo_inode\<lparr>i_uid := 7\<rparr>"]
    by (simp add: attr_kinds take_attr_def copy_attr_def)
qed

end
