(* ===== verification/Tux_Dir.thy ===== *)
theory Tux_Dir
  imports Tux_Iattr
begin

text \<open>
  Directory blocks, \<open>kernel/dir.c\<close>: a directory is a file of blocks, each filled by a chain of
  entries with a big-endian record length. An entry is named by the byte offset in its block.
  The model keeps the blocks as bytes; the map \<open>d_blocks\<close> is what \<open>blockread\<close> returns and is
  \<open>None\<close> where the read fails. Block positions are computed in 32 bits, as the code does.
\<close>

section \<open>Entries\<close>

definition TUX_DIR_HEAD :: nat where "TUX_DIR_HEAD = 12"

definition TUX_REC_LEN :: "nat \<Rightarrow> nat" where
  "TUX_REC_LEN name_len = (name_len + TUX_DIR_HEAD + 7) div 8 * 8"

definition TUX_MAX_REC_LEN :: nat where "TUX_MAX_REC_LEN = 65535"

definition tux_rec_len_from_disk :: "nat \<Rightarrow> nat" where
  "tux_rec_len_from_disk len = (if len = TUX_MAX_REC_LEN then 2 ^ 16 else len)"

definition tux_rec_len_to_disk :: "nat \<Rightarrow> nat" where
  "tux_rec_len_to_disk len = (if len = 2 ^ 16 then TUX_MAX_REC_LEN else len mod 2 ^ 16)"

text \<open>The fields of the entry at an offset: \<open>inum\<close>, \<open>rec_len\<close>, \<open>name_len\<close>, \<open>type\<close>, \<open>name\<close>.\<close>

definition de_inum :: "bytes \<Rightarrow> nat \<Rightarrow> nat" where
  "de_inum b e = load64 b e"

definition de_rec_len :: "bytes \<Rightarrow> nat \<Rightarrow> nat" where
  "de_rec_len b e = load16 b (e + 8)"

definition de_name_len :: "bytes \<Rightarrow> nat \<Rightarrow> nat" where
  "de_name_len b e = load8 b (e + 10)"

definition de_type :: "bytes \<Rightarrow> nat \<Rightarrow> nat" where
  "de_type b e = load8 b (e + 11)"

definition is_deleted :: "bytes \<Rightarrow> nat \<Rightarrow> bool" where
  "is_deleted b e \<longleftrightarrow> de_name_len b e = 0"

definition tux_match :: "bytes \<Rightarrow> nat \<Rightarrow> bytes \<Rightarrow> bool" where
  "tux_match b e name =
     (if length name \<noteq> de_name_len b e then False
      else if is_deleted b e then False
      else chunk (e + TUX_DIR_HEAD) (length name) b = name)"

definition next_entry :: "bytes \<Rightarrow> nat \<Rightarrow> nat" where
  "next_entry b e = e + tux_rec_len_from_disk (de_rec_len b e)"

lemma next_entry_less: "0 < de_rec_len b e \<Longrightarrow> e < next_entry b e"
  by (simp add: next_entry_def tux_rec_len_from_disk_def)

text \<open>\<open>tux_type_by_mode\<close> indexed by the file type bits of the mode, and \<open>filetype\<close>.\<close>

definition tux_type_by_mode :: "nat list" where
  "tux_type_by_mode = (replicate 15 0)[8 := 1, 4 := 2, 2 := 3, 6 := 4, 1 := 5, 12 := 6, 10 := 7]"

definition tux_type_of_mode :: "nat \<Rightarrow> nat" where
  "tux_type_of_mode mode = tux_type_by_mode ! (mode div 2 ^ 12 mod 16)"

definition filetype :: "nat list" where
  "filetype = [0, 8, 4, 2, 6, 1, 12, 10]"

section \<open>Directories\<close>

record dir =
  d_inum :: nat
  d_bits :: nat
  d_size :: nat
  d_blocks :: "nat \<Rightarrow> bytes option"
  d_mtime :: timespec
  d_ctime :: timespec

definition d_blocksize :: "'a dir_scheme \<Rightarrow> nat" where
  "d_blocksize d = 2 ^ d_bits d"

definition d_nblocks :: "'a dir_scheme \<Rightarrow> nat" where
  "d_nblocks d = wrap32 (d_size d div d_blocksize d)"

definition put_block :: "'a dir_scheme \<Rightarrow> nat \<Rightarrow> bytes \<Rightarrow> 'a dir_scheme" where
  "put_block d n b = d\<lparr>d_blocks := (d_blocks d)(n \<mapsto> b)\<rparr>"

section \<open>Updating and creating entries\<close>

definition tux_update_entry :: "bytes \<Rightarrow> nat \<Rightarrow> nat \<Rightarrow> nat \<Rightarrow> bytes" where
  "tux_update_entry b e inum mode =
     store8 (store64 b e inum) (e + 11) (tux_type_of_mode mode)"

definition touch_dir :: "timespec \<Rightarrow> 'a dir_scheme \<Rightarrow> 'a dir_scheme" where
  "touch_dir now d = d\<lparr>d_mtime := now, d_ctime := now\<rparr>"

definition tux_update_dirent ::
  "timespec \<Rightarrow> 'a dir_scheme \<Rightarrow> nat \<Rightarrow> nat \<Rightarrow> nat \<Rightarrow> nat \<Rightarrow> 'a dir_scheme option" where
  "tux_update_dirent now d block e new_inum new_mode =
     map_option (\<lambda>b. touch_dir now (put_block d block (tux_update_entry b e new_inum new_mode)))
       (d_blocks d block)"

text \<open>
  The search of one block for room: the entry, its own record length \<open>TUX_REC_LEN(name_len)\<close> and
  the length of its record.
\<close>

function find_room ::
  "bytes \<Rightarrow> nat \<Rightarrow> int \<Rightarrow> nat \<Rightarrow> errno + (nat \<times> nat \<times> nat) option" where
  "find_room b reclen limit e =
     (if int e \<le> limit then
        if de_rec_len b e = 0 then Inl EIO
        else
          let name_len = TUX_REC_LEN (de_name_len b e);
              rec_len = tux_rec_len_from_disk (de_rec_len b e)
          in if is_deleted b e \<and> rec_len \<ge> reclen then Inr (Some (e, name_len, rec_len))
             else if rec_len \<ge> name_len + reclen then Inr (Some (e, name_len, rec_len))
             else find_room b reclen limit (e + rec_len)
      else Inr None)"
  by pat_completeness auto
termination
  by (relation "measure (\<lambda>(b, reclen, limit, e). nat (limit + 1 - int e))")
    (auto simp: tux_rec_len_from_disk_def)

declare find_room.simps [simp del]

function find_room_blocks ::
  "'a dir_scheme \<Rightarrow> nat \<Rightarrow> nat \<Rightarrow> nat \<Rightarrow> errno + (nat \<times> nat \<times> nat \<times> nat) option" where
  "find_room_blocks d reclen blocks block =
     (if block < blocks then
        case d_blocks d block of
          None \<Rightarrow> Inl EIO
        | Some b \<Rightarrow>
            (case find_room b reclen (int (d_blocksize d) - int reclen) 0 of
               Inl err \<Rightarrow> Inl err
             | Inr (Some (e, name_len, rec_len)) \<Rightarrow> Inr (Some (block, e, name_len, rec_len))
             | Inr None \<Rightarrow> find_room_blocks d reclen blocks (block + 1))
      else Inr None)"
  by pat_completeness auto
termination
  by (relation "measure (\<lambda>(d, reclen, blocks, block). blocks - block)") auto

declare find_room_blocks.simps [simp del]

text \<open>The code from the label \<open>create\<close> on: the block with the new entry, and its offset.\<close>

definition create_at ::
  "bytes \<Rightarrow> nat \<Rightarrow> nat \<Rightarrow> nat \<Rightarrow> bytes \<Rightarrow> nat \<Rightarrow> nat \<Rightarrow> bytes \<times> nat" where
  "create_at b e name_len rec_len name inum mode =
     (let (b, e) =
        (if \<not> is_deleted b e then
           let newent = e + name_len;
               b = store16 b (newent + 8) (tux_rec_len_to_disk (rec_len - name_len));
               b = store16 b (e + 8) (tux_rec_len_to_disk name_len)
           in (b, newent)
         else (b, e));
        b = store8 b (e + 10) (length name);
        b = blit b (e + TUX_DIR_HEAD) name
      in (tux_update_entry b e inum mode, e))"

definition empty_block :: "'a dir_scheme \<Rightarrow> bytes" where
  "empty_block d = store16 (replicate (d_blocksize d) 0) 8 (tux_rec_len_to_disk (d_blocksize d))"

text \<open>The size that the caller passes by reference is the size of the directory itself.\<close>

definition tux_create_entry ::
  "'a dir_scheme \<Rightarrow> bytes \<Rightarrow> nat \<Rightarrow> nat \<Rightarrow> (errno + nat) \<times> 'a dir_scheme" where
  "tux_create_entry d name inum mode =
     (let reclen = TUX_REC_LEN (length name);
          blocks = d_nblocks d
      in case find_room_blocks d reclen blocks 0 of
           Inl err \<Rightarrow> (Inl err, d)
         | Inr found \<Rightarrow>
             (let (d, block, b, e, name_len, rec_len) =
                (case found of
                   Some (block, e, name_len, rec_len) \<Rightarrow>
                     (d, block, the (d_blocks d block), e, name_len, rec_len)
                 | None \<Rightarrow>
                     (d\<lparr>d_size := d_size d + d_blocksize d\<rparr>, blocks, empty_block d, 0, 0, d_blocksize d));
                (b, offset) = create_at b e name_len rec_len name inum mode
              in (Inr (wrap32 (wrap32 (block * d_blocksize d) + offset)), put_block d block b)))"

definition tux_create_dirent ::
  "timespec \<Rightarrow> 'a dir_scheme \<Rightarrow> bytes \<Rightarrow> nat \<Rightarrow> nat \<Rightarrow> (errno + unit) \<times> 'a dir_scheme" where
  "tux_create_dirent now d name inum mode =
     (case tux_create_entry d name inum mode of
        (Inl err, d) \<Rightarrow> (Inl err, d)
      | (Inr _, d) \<Rightarrow> (Inr (), touch_dir now d))"

section \<open>Finding entries\<close>

function find_in_block :: "bytes \<Rightarrow> bytes \<Rightarrow> int \<Rightarrow> nat \<Rightarrow> errno + nat option" where
  "find_in_block b name limit e =
     (if int e \<le> limit then
        if de_rec_len b e = 0 then Inl EIO
        else if tux_match b e name then Inr (Some e)
        else find_in_block b name limit (next_entry b e)
      else Inr None)"
  by pat_completeness auto
termination
  by (relation "measure (\<lambda>(b, name, limit, e). nat (limit + 1 - int e))")
    (auto simp: next_entry_less intro: diff_less_mono2)

declare find_in_block.simps [simp del]

function find_blocks :: "'a dir_scheme \<Rightarrow> bytes \<Rightarrow> nat \<Rightarrow> nat \<Rightarrow> errno + nat \<times> nat" where
  "find_blocks d name blocks block =
     (if block < blocks then
        case d_blocks d block of
          None \<Rightarrow> Inl EIO
        | Some b \<Rightarrow>
            (case find_in_block b name (int (d_blocksize d) - int (TUX_REC_LEN (length name))) 0 of
               Inl err \<Rightarrow> Inl err
             | Inr (Some e) \<Rightarrow> Inr (block, e)
             | Inr None \<Rightarrow> find_blocks d name blocks (block + 1))
      else Inl ENOENT)"
  by pat_completeness auto
termination
  by (relation "measure (\<lambda>(d, name, blocks, block). blocks - block)") auto

declare find_blocks.simps [simp del]

definition tux_find_entry :: "'a dir_scheme \<Rightarrow> bytes \<Rightarrow> errno + nat \<times> nat" where
  "tux_find_entry d name = find_blocks d name (d_nblocks d) 0"

definition tux_find_dirent :: "'a dir_scheme \<Rightarrow> bytes \<Rightarrow> errno + nat \<times> nat" where
  "tux_find_dirent d name = tux_find_entry d name"

section \<open>Deleting entries\<close>

text \<open>The walk to the entry: the last entry met before it.\<close>

function find_prev :: "bytes \<Rightarrow> nat \<Rightarrow> nat option \<Rightarrow> nat \<Rightarrow> errno + nat option" where
  "find_prev b e prev this =
     (if this < e then
        if de_rec_len b this = 0 then Inl EIO
        else find_prev b e (Some this) (next_entry b this)
      else Inr prev)"
  by pat_completeness auto
termination
  by (relation "measure (\<lambda>(b, e, prev, this). e - this)") (auto simp: next_entry_less intro: diff_less_mono2)

declare find_prev.simps [simp del]

definition tux_delete_entry :: "bytes \<Rightarrow> nat \<Rightarrow> errno + bytes" where
  "tux_delete_entry b e =
     (case find_prev b e None 0 of
        Inl err \<Rightarrow> Inl err
      | Inr prev \<Rightarrow>
          (let b = (case prev of None \<Rightarrow> b
               | Some prev \<Rightarrow>
                   store16 b (prev + 8) (tux_rec_len_to_disk
                     (e + tux_rec_len_from_disk (de_rec_len b e) - prev)));
               b = memset b (e + TUX_DIR_HEAD) 0 (de_name_len b e);
               b = store8 (store8 b (e + 11) 0) (e + 10) 0;
               b = store64 b e 0
           in Inr b))"

definition tux_delete_dirent ::
  "timespec \<Rightarrow> 'a dir_scheme \<Rightarrow> nat \<Rightarrow> nat \<Rightarrow> (errno + unit) \<times> 'a dir_scheme" where
  "tux_delete_dirent now d block e =
     (case d_blocks d block of
        None \<Rightarrow> (Inl EIO, d)
      | Some b \<Rightarrow>
          (case tux_delete_entry b e of
             Inl err \<Rightarrow> (Inl err, d)
           | Inr b \<Rightarrow> (Inr (), touch_dir now (put_block d block b))))"

section \<open>Reading and testing directories\<close>

text \<open>
  A \<open>filldir\<close> callback takes its state, the name, the position, the inode number and the type
  and says whether to stop. The file position and version live in \<open>struct file\<close>.
\<close>

type_synonym 's filldir = "'s \<Rightarrow> bytes \<Rightarrow> nat \<Rightarrow> nat \<Rightarrow> nat \<Rightarrow> 's \<times> bool"

record dir_file =
  f_pos :: nat
  f_version :: nat

function revalidate_walk :: "bytes \<Rightarrow> nat \<Rightarrow> nat \<Rightarrow> nat" where
  "revalidate_walk b entry p =
     (if p < entry \<and> de_rec_len b p \<noteq> 0 then revalidate_walk b entry (next_entry b p) else p)"
  by pat_completeness auto
termination
  by (relation "measure (\<lambda>(b, entry, p). entry - p)")
    (auto simp: next_entry_less intro: diff_less_mono2)

declare revalidate_walk.simps [simp del]

text \<open>The entries of one block: the new state and position, with an error or whether to stop.\<close>

function readdir_block ::
  "'s filldir \<Rightarrow> bytes \<Rightarrow> nat \<Rightarrow> int \<Rightarrow> nat \<Rightarrow> 's \<Rightarrow> nat
     \<Rightarrow> (errno + bool) \<times> 's \<times> nat" where
  "readdir_block filldir b base limit e state pos =
     (if int e \<le> limit then
        if de_rec_len b e = 0 then (Inl EIO, state, pos)
        else
          let (state, lame) =
            (if \<not> is_deleted b e then
               let type = (if de_type b e < 8 then filetype ! de_type b e else 0)
               in filldir state (chunk (e + TUX_DIR_HEAD) (de_name_len b e) b) (base OR e)
                    (de_inum b e) type
             else (state, False))
          in if lame then (Inr True, state, pos)
             else readdir_block filldir b base limit (next_entry b e) state
                    (pos + tux_rec_len_from_disk (de_rec_len b e))
      else (Inr False, state, pos))"
  by pat_completeness auto
termination
  by (relation "measure (\<lambda>(filldir, b, base, limit, e, state, pos). nat (limit + 1 - int e))")
    (auto dest: next_entry_less)

declare readdir_block.simps [simp del]

function readdir_blocks ::
  "'s filldir \<Rightarrow> 'a dir_scheme \<Rightarrow> nat \<Rightarrow> nat \<Rightarrow> nat \<Rightarrow> nat \<Rightarrow> bool \<Rightarrow> dir_file \<Rightarrow> 's
     \<Rightarrow> errno option \<times> dir_file \<times> 's" where
  "readdir_blocks filldir d version blocks block offset revalidate file state =
     (if block < blocks then
        case d_blocks d block of
          None \<Rightarrow> (Some EIO, file, state)
        | Some b \<Rightarrow>
            (let base = wrap32 (block * d_blocksize d);
                 (offset, file) =
                   (if revalidate then
                      let offset' = (if offset \<noteq> 0
                            then revalidate_walk b offset (offset mod d_blocksize d) else offset);
                          file' = (if offset \<noteq> 0 then file\<lparr>f_pos := wrap32 (base + offset')\<rparr> else file)
                      in (offset', file'\<lparr>f_version := version\<rparr>)
                    else (offset, file));
                 sz = sub32 (d_size d) base;
                 limit = int (min sz (d_blocksize d)) - int (TUX_REC_LEN 1)
             in case readdir_block filldir b base limit offset state (f_pos file) of
                  (Inl err, state, pos) \<Rightarrow> (Some err, file\<lparr>f_pos := pos\<rparr>, state)
                | (Inr lame, state, pos) \<Rightarrow>
                    (let file = file\<lparr>f_pos := pos\<rparr>
                     in if lame then (None, file, state)
                        else readdir_blocks filldir d version blocks (block + 1) 0 False file state))
      else (None, file, state))"
  by pat_completeness auto
termination
  by (relation "measure (\<lambda>(filldir, d, version, blocks, block, offset, rev, file, state). blocks - block)")
    auto

declare readdir_blocks.simps [simp del]

definition tux_readdir ::
  "'s filldir \<Rightarrow> 'a dir_scheme \<Rightarrow> nat \<Rightarrow> dir_file \<Rightarrow> 's \<Rightarrow> errno option \<times> dir_file \<times> 's" where
  "tux_readdir filldir d version file state =
     (let pos = f_pos file
      in readdir_blocks filldir d version (d_nblocks d) (wrap32 (pos div d_blocksize d))
           (pos mod d_blocksize d) (f_version file \<noteq> version) file state)"

text \<open>One block holds nothing but ``.'' for the directory itself and ``..''.\<close>

function empty_in_block :: "bytes \<Rightarrow> nat \<Rightarrow> int \<Rightarrow> nat \<Rightarrow> errno + unit" where
  "empty_in_block b self limit e =
     (if int e \<le> limit then
        if de_rec_len b e = 0 then Inl EIO
        else if is_deleted b e then empty_in_block b self limit (next_entry b e)
        else if b ! (e + TUX_DIR_HEAD) \<noteq> 46 then Inl ENOTEMPTY
        else if de_name_len b e > 2 then Inl ENOTEMPTY
        else if de_name_len b e < 2 then
          (if de_inum b e \<noteq> self then Inl ENOTEMPTY
           else empty_in_block b self limit (next_entry b e))
        else if b ! (e + TUX_DIR_HEAD + 1) \<noteq> 46 then Inl ENOTEMPTY
        else empty_in_block b self limit (next_entry b e)
      else Inr ())"
  by pat_completeness auto
termination
  by (relation "measure (\<lambda>(b, self, limit, e). nat (limit + 1 - int e))")
    (auto dest: next_entry_less)

declare empty_in_block.simps [simp del]

function empty_blocks :: "'a dir_scheme \<Rightarrow> nat \<Rightarrow> nat \<Rightarrow> errno + unit" where
  "empty_blocks d blocks block =
     (if block < blocks then
        case d_blocks d block of
          None \<Rightarrow> Inl EIO
        | Some b \<Rightarrow>
            (case empty_in_block b (d_inum d) (int (d_blocksize d) - int (TUX_REC_LEN 1)) 0 of
               Inl err \<Rightarrow> Inl err
             | Inr _ \<Rightarrow> empty_blocks d blocks (block + 1))
      else Inr ())"
  by pat_completeness auto
termination
  by (relation "measure (\<lambda>(d, blocks, block). blocks - block)") auto

declare empty_blocks.simps [simp del]

definition tux_dir_is_empty :: "'a dir_scheme \<Rightarrow> errno + unit" where
  "tux_dir_is_empty d = empty_blocks d (d_nblocks d) 0"

section \<open>Fields and writes\<close>

lemma load8_blit_other [mem_simps]:
  "off + length ys \<le> length b \<Longrightarrow> p < length b \<Longrightarrow> p < off \<or> off + length ys \<le> p
    \<Longrightarrow> load8 (blit b off ys) p = load8 b p"
  by (auto simp: load8_def nth_blit)

lemma load8_store8 [mem_simps]: "p < length b \<Longrightarrow> load8 (store8 b p v) p = v mod 256"
  by (simp add: load8_def store8_def nth_blit unat_of_nat)

lemmas store_defs = store8_def store16_def store64_def memset_def

definition de_name :: "bytes \<Rightarrow> nat \<Rightarrow> bytes" where
  "de_name b e = chunk (e + TUX_DIR_HEAD) (de_name_len b e) b"

definition rlen :: "bytes \<Rightarrow> nat \<Rightarrow> nat" where
  "rlen b e = tux_rec_len_from_disk (de_rec_len b e)"

text \<open>Two blocks have the same entry at an offset.\<close>

definition same_entry :: "bytes \<Rightarrow> bytes \<Rightarrow> nat \<Rightarrow> bool" where
  "same_entry b b' e \<longleftrightarrow> de_inum b' e = de_inum b e \<and> de_rec_len b' e = de_rec_len b e
     \<and> de_name_len b' e = de_name_len b e \<and> de_type b' e = de_type b e \<and> de_name b' e = de_name b e"

lemma same_entry_blit:
  assumes "p + length ys \<le> length b" "e + 12 + de_name_len b e \<le> length b"
    and "p + length ys \<le> e \<or> e + 12 + de_name_len b e \<le> p"
  shows "same_entry b (blit b p ys) e"
proof -
  have n: "de_name_len (blit b p ys) e = de_name_len b e"
    unfolding de_name_len_def using assms by (intro load8_blit_other) auto
  have "de_name (blit b p ys) e = de_name b e"
    using assms unfolding de_name_def n TUX_DIR_HEAD_def
    by (metis (no_types, lifting) add.assoc chunk_blit_after chunk_blit_before le_add1 le_trans)
  moreover have "de_inum (blit b p ys) e = de_inum b e"
    unfolding de_inum_def using assms by (intro load64_blit_other) auto
  moreover have "de_rec_len (blit b p ys) e = de_rec_len b e"
    unfolding de_rec_len_def using assms by (intro load16_blit_other) auto
  moreover have "de_type (blit b p ys) e = de_type b e"
    unfolding de_type_def using assms by (intro load8_blit_other) auto
  ultimately show ?thesis using n by (simp add: same_entry_def)
qed

lemma same_entry_refl: "same_entry b b e"
  by (simp add: same_entry_def)

lemma same_entry_trans: "same_entry b b' e \<Longrightarrow> same_entry b' b'' e \<Longrightarrow> same_entry b b'' e"
  by (simp add: same_entry_def)

section \<open>Chains of entries\<close>

definition entry_ok :: "bytes \<Rightarrow> nat \<Rightarrow> bool" where
  "entry_ok b e \<longleftrightarrow> TUX_REC_LEN (de_name_len b e) \<le> rlen b e \<and> e + rlen b e \<le> length b"

fun recs :: "bytes \<Rightarrow> nat \<Rightarrow> nat list \<Rightarrow> nat \<Rightarrow> bool" where
  "recs b e [] stop \<longleftrightarrow> e = stop"
| "recs b e (x # xs) stop \<longleftrightarrow> x = e \<and> entry_ok b e \<and> recs b (e + rlen b e) xs stop"

lemma TUX_REC_LEN_bounds: "name_len + 12 \<le> TUX_REC_LEN name_len" "TUX_REC_LEN name_len < name_len + 20"
proof -
  have "(name_len + 19) div 8 * 8 \<le> name_len + 19" "name_len + 19 < (name_len + 19) div 8 * 8 + 8"
    using mult_div_mod_eq [of 8 "name_len + 19"] mod_less_divisor [of 8 "name_len + 19"] by linarith+
  then show "name_len + 12 \<le> TUX_REC_LEN name_len" "TUX_REC_LEN name_len < name_len + 20"
    by (simp_all add: TUX_REC_LEN_def TUX_DIR_HEAD_def)
qed

lemma TUX_REC_LEN_mono: "m \<le> n \<Longrightarrow> TUX_REC_LEN m \<le> TUX_REC_LEN n"
  unfolding TUX_REC_LEN_def by (intro mult_le_mono1 div_le_mono) simp

lemma entry_okD:
  assumes "entry_ok b e"
  shows "e + 12 + de_name_len b e \<le> e + rlen b e" "e + rlen b e \<le> length b" "0 < rlen b e"
    "de_rec_len b e \<noteq> 0"
proof -
  note t = TUX_REC_LEN_bounds(1) [of "de_name_len b e"]
  show "e + 12 + de_name_len b e \<le> e + rlen b e" "e + rlen b e \<le> length b" "0 < rlen b e"
    using assms t by (auto simp: entry_ok_def)
  show "de_rec_len b e \<noteq> 0"
    using assms t
    by (cases "de_rec_len b e = 0")
      (auto simp: entry_ok_def rlen_def tux_rec_len_from_disk_def TUX_MAX_REC_LEN_def)
qed

lemma seg_le: "recs b e xs stop \<Longrightarrow> e \<le> stop"
  by (induction xs arbitrary: e) force+

lemma seg_append: "recs b e (xs @ ys) stop \<longleftrightarrow> (\<exists>mid. recs b e xs mid \<and> recs b mid ys stop)"
  by (induction xs arbitrary: e) auto

lemma seg_mem:
  "recs b e xs stop \<Longrightarrow> x \<in> set xs \<Longrightarrow> e \<le> x \<and> entry_ok b x \<and> x + rlen b x \<le> stop"
proof (induction xs arbitrary: e)
  case Nil
  then show ?case by simp
next
  case (Cons y ys)
  then have y: "y = e" "entry_ok b e" "recs b (e + rlen b e) ys stop" by auto
  show ?case
  proof (cases "x = y")
    case True
    then show ?thesis using y seg_le [OF y(3)] by simp
  next
    case False
    then have "e + rlen b e \<le> x \<and> entry_ok b x \<and> x + rlen b x \<le> stop" using Cons y by auto
    then show ?thesis by simp
  qed
qed

lemma seg_distinct: "recs b e xs stop \<Longrightarrow> sorted_wrt (<) xs"
proof (induction xs arbitrary: e)
  case (Cons y ys)
  then have y: "y = e" "entry_ok b e" "recs b (e + rlen b e) ys stop" by auto
  have "e < x" if "x \<in> set ys" for x
    using seg_mem [OF y(3) that] entry_okD(3) [OF y(2)] by linarith
  then show ?case using Cons y by simp
qed simp

lemma seg_same:
  assumes "recs b e xs stop" "length b' = length b" "\<And>x. x \<in> set xs \<Longrightarrow> same_entry b b' x"
  shows "recs b' e xs stop"
  using assms
proof (induction xs arbitrary: e)
  case Nil
  then show ?case by simp
next
  case (Cons y ys)
  then have y: "y = e" "entry_ok b e" "recs b (e + rlen b e) ys stop" and s: "same_entry b b' e" by auto
  have "rlen b' e = rlen b e" using s by (simp add: same_entry_def rlen_def)
  then show ?case using Cons y s by (simp add: same_entry_def entry_ok_def)
qed

text \<open>The offsets of the entries of a block, read off the block.\<close>

function offs :: "bytes \<Rightarrow> nat \<Rightarrow> nat list" where
  "offs b e = (if e < length b \<and> 0 < rlen b e then e # offs b (e + rlen b e) else [])"
  by pat_completeness auto
termination
  by (relation "measure (\<lambda>(b, e). length b - e)") auto

declare offs.simps [simp del]

lemma offs_seg: "recs b e xs (length b) \<Longrightarrow> offs b e = xs"
proof (induction xs arbitrary: e)
  case Nil
  then show ?case by (simp add: offs.simps)
next
  case (Cons y ys)
  then have y: "y = e" "entry_ok b e" "recs b (e + rlen b e) ys (length b)" by auto
  have "e < length b" using entry_okD(2,3) [OF y(2)] by linarith
  then show ?case using Cons y entry_okD(3) [OF y(2)] by (simp add: offs.simps [of b e])
qed

definition block_ok :: "bytes \<Rightarrow> bool" where
  "block_ok b \<longleftrightarrow> length b \<le> 2 ^ 15 \<and> recs b 0 (offs b 0) (length b)"

lemma block_okI: "length b \<le> 2 ^ 15 \<Longrightarrow> recs b 0 xs (length b) \<Longrightarrow> block_ok b \<and> offs b 0 = xs"
  using offs_seg by (auto simp: block_ok_def)

text \<open>What a block holds: name, inode number and type of each live entry.\<close>

definition block_map :: "bytes \<Rightarrow> nat \<Rightarrow> (bytes \<times> nat \<times> nat) option" where
  "block_map b e = (if e \<in> set (offs b 0) \<and> \<not> is_deleted b e
     then Some (de_name b e, de_inum b e, de_type b e) else None)"

lemma rlen_small: "length b \<le> 2 ^ 15 \<Longrightarrow> entry_ok b e \<Longrightarrow> rlen b e = de_rec_len b e"
  by (auto simp: entry_ok_def rlen_def tux_rec_len_from_disk_def TUX_MAX_REC_LEN_def)

section \<open>Searching a block\<close>

lemma tux_match_iff:
  "name \<noteq> [] \<Longrightarrow> tux_match b e name \<longleftrightarrow> \<not> is_deleted b e \<and> de_name b e = name
    \<and> length name = de_name_len b e"
  by (auto simp: tux_match_def is_deleted_def de_name_def)

lemma length_de_name: "entry_ok b e \<Longrightarrow> length (de_name b e) = de_name_len b e"
  using entry_okD(1,2) [of b e] by (simp add: de_name_def length_chunk TUX_DIR_HEAD_def)

lemma tux_match_ok:
  "name \<noteq> [] \<Longrightarrow> entry_ok b e \<Longrightarrow> tux_match b e name \<longleftrightarrow> \<not> is_deleted b e \<and> de_name b e = name"
  using length_de_name [of b e] by (auto simp: tux_match_iff)

lemma match_within:
  assumes "recs b e es (length b)" "x \<in> set es" "tux_match b x name"
  shows "int x \<le> int (length b) - int (TUX_REC_LEN (length name))"
proof -
  have x: "entry_ok b x" using seg_mem [OF assms(1,2)] by simp
  have "de_name_len b x = length name" using assms(3) by (simp add: tux_match_def split: if_splits)
  then show ?thesis using x by (simp add: entry_ok_def)
qed

lemma find_in_block_seg:
  assumes "recs b e es (length b)" "name \<noteq> []"
  shows "find_in_block b name (int (length b) - int (TUX_REC_LEN (length name))) e
    = Inr (find (\<lambda>x. tux_match b x name) es)"
  using assms(1)
proof (induction es arbitrary: e)
  case Nil
  then show ?case
    using TUX_REC_LEN_bounds(1) [of "length name"] by (simp add: find_in_block.simps [of b])
next
  case (Cons y ys)
  let ?lim = "int (length b) - int (TUX_REC_LEN (length name))"
  have y: "y = e" "entry_ok b e" "recs b (e + rlen b e) ys (length b)" using Cons.prems by auto
  show ?case
  proof (cases "int e \<le> ?lim")
    case True
    then show ?thesis
      using y Cons.IH [OF y(3)] entry_okD(4) [OF y(2)]
      by (subst find_in_block.simps) (simp add: next_entry_def rlen_def)
  next
    case False
    have "\<not> tux_match b x name" if "x \<in> set (y # ys)" for x
      using match_within [OF Cons.prems that, of name] seg_mem [OF Cons.prems that] False by auto
    then have "find (\<lambda>x. tux_match b x name) (y # ys) = None" by (metis find_None_iff)
    then show ?thesis using False by (simp add: find_in_block.simps [of b])
  qed
qed

text \<open>An entry with room: a deleted one that is long enough, or a live one with enough slack.\<close>

definition has_room :: "bytes \<Rightarrow> nat \<Rightarrow> nat \<Rightarrow> bool" where
  "has_room b reclen e \<longleftrightarrow> is_deleted b e \<and> rlen b e \<ge> reclen
     \<or> rlen b e \<ge> TUX_REC_LEN (de_name_len b e) + reclen"

lemma find_room_seg:
  assumes "recs b e es (length b)" "0 < reclen"
  shows "\<exists>r. find_room b reclen (int (length b) - int reclen) e = Inr r \<and>
    (case r of None \<Rightarrow> \<forall>x\<in>set es. \<not> has_room b reclen x
     | Some (x, name_len, rec_len) \<Rightarrow> x \<in> set es \<and> has_room b reclen x
         \<and> name_len = TUX_REC_LEN (de_name_len b x) \<and> rec_len = rlen b x)"
  using assms(1)
proof (induction es arbitrary: e)
  case Nil
  then show ?case using assms(2) by (simp add: find_room.simps [of b])
next
  case (Cons y ys)
  let ?lim = "int (length b) - int reclen"
  have y: "y = e" "entry_ok b e" "recs b (e + rlen b e) ys (length b)" using Cons.prems by auto
  consider "\<not> int e \<le> ?lim" | "int e \<le> ?lim" "has_room b reclen e" | "int e \<le> ?lim" "\<not> has_room b reclen e"
    by blast
  then show ?case
  proof cases
    case 1
    have "\<not> has_room b reclen x" if "x \<in> set (y # ys)" for x
      using seg_mem [OF Cons.prems that] 1 by (auto simp: has_room_def)
    then show ?thesis using 1 by (simp add: find_room.simps [of b])
  next
    case 2
    then have "find_room b reclen ?lim e = Inr (Some (e, TUX_REC_LEN (de_name_len b e), rlen b e))"
      using entry_okD(4) [OF y(2)]
      by (subst find_room.simps) (auto simp: Let_def has_room_def rlen_def)
    then show ?thesis using 2 y(1) by simp
  next
    case 3
    then have "find_room b reclen ?lim e = find_room b reclen ?lim (e + rlen b e)"
      using entry_okD(4) [OF y(2)]
      by (subst find_room.simps) (auto simp: Let_def has_room_def rlen_def)
    then obtain r where r: "find_room b reclen ?lim e = Inr r"
      "case r of None \<Rightarrow> \<forall>x\<in>set ys. \<not> has_room b reclen x
       | Some (x, name_len, rec_len) \<Rightarrow> x \<in> set ys \<and> has_room b reclen x
         \<and> name_len = TUX_REC_LEN (de_name_len b x) \<and> rec_len = rlen b x"
      using Cons.IH [OF y(3)] by auto
    then show ?thesis using 3 y(1) by (intro exI [of _ r]) (auto split: option.splits)
  qed
qed

section \<open>Creating an entry in a block\<close>

text \<open>The writes from \<open>entry->name_len = len\<close> on, at the place of the new entry.\<close>

definition fill_entry :: "bytes \<Rightarrow> nat \<Rightarrow> bytes \<Rightarrow> nat \<Rightarrow> nat \<Rightarrow> bytes" where
  "fill_entry b e name inum mode =
     tux_update_entry (blit (store8 b (e + 10) (length name)) (e + TUX_DIR_HEAD) name) e inum mode"

lemma fill_entry_frame:
  assumes "e + 12 + length name \<le> length b"
  shows "length (fill_entry b e name inum mode) = length b"
    "x + 12 + de_name_len b x \<le> length b \<Longrightarrow>
      x + 12 + de_name_len b x \<le> e \<or> e + 12 + length name \<le> x \<Longrightarrow>
      same_entry b (fill_entry b e name inum mode) x"
    "de_rec_len (fill_entry b e name inum mode) e = de_rec_len b e"
proof -
  let ?b1 = "store8 b (e + 10) (length name)"
  let ?b2 = "blit ?b1 (e + TUX_DIR_HEAD) name"
  let ?b3 = "store64 ?b2 e inum"
  have len: "length ?b1 = length b" "length ?b2 = length b" "length ?b3 = length b"
    using assms by (simp_all add: mem_simps TUX_DIR_HEAD_def)
  show "length (fill_entry b e name inum mode) = length b"
    using assms len by (simp add: fill_entry_def tux_update_entry_def mem_simps)
  show "de_rec_len (fill_entry b e name inum mode) e = de_rec_len b e"
    using assms len
    by (simp add: fill_entry_def tux_update_entry_def de_rec_len_def store_defs mem_simps TUX_DIR_HEAD_def)
  show "same_entry b (fill_entry b e name inum mode) x"
    if x: "x + 12 + de_name_len b x \<le> length b"
      "x + 12 + de_name_len b x \<le> e \<or> e + 12 + length name \<le> x"
  proof -
    have s1: "same_entry b ?b1 x"
      unfolding store8_def using x assms by (intro same_entry_blit) auto
    then have n1: "de_name_len ?b1 x = de_name_len b x" by (simp add: same_entry_def)
    have s2: "same_entry ?b1 ?b2 x"
      using x assms n1 len by (intro same_entry_blit) (auto simp: TUX_DIR_HEAD_def)
    then have n2: "de_name_len ?b2 x = de_name_len b x" using n1 by (simp add: same_entry_def)
    have s3: "same_entry ?b2 ?b3 x"
      unfolding store64_def using x assms n2 len by (intro same_entry_blit) auto
    then have n3: "de_name_len ?b3 x = de_name_len b x" using n2 by (simp add: same_entry_def)
    have "same_entry ?b3 (store8 ?b3 (e + 11) (tux_type_of_mode mode)) x"
      unfolding store8_def [of ?b3] using x assms n3 len by (intro same_entry_blit) auto
    then show ?thesis
      using same_entry_trans s1 s2 s3 unfolding fill_entry_def tux_update_entry_def by blast
  qed
qed

lemma fill_entry_fields:
  fixes b :: bytes and e inum mode :: nat
  assumes "e + 12 + length name \<le> length b" "length name < 256" "inum < 2 ^ 64"
  defines "b' \<equiv> fill_entry b e name inum mode"
  shows "de_name_len b' e = length name" "de_name b' e = name" "de_inum b' e = inum"
    "de_type b' e = tux_type_of_mode mode mod 256"
proof -
  let ?b1 = "store8 b (e + 10) (length name)"
  let ?b2 = "blit ?b1 (e + TUX_DIR_HEAD) name"
  let ?b3 = "store64 ?b2 e inum"
  have len: "length ?b1 = length b" "length ?b2 = length b" "length ?b3 = length b"
    using assms by (simp_all add: mem_simps TUX_DIR_HEAD_def)
  have b': "b' = store8 ?b3 (e + 11) (tux_type_of_mode mode)"
    by (simp add: b'_def fill_entry_def tux_update_entry_def)
  have "load8 b' (e + 10) = load8 ?b3 (e + 10)"
    unfolding b' store8_def [of ?b3] using assms(1) len by (intro load8_blit_other) auto
  also have "\<dots> = load8 ?b2 (e + 10)"
    unfolding store64_def using assms(1) len by (intro load8_blit_other) auto
  also have "\<dots> = load8 ?b1 (e + 10)"
    using assms(1) len by (intro load8_blit_other) (auto simp: TUX_DIR_HEAD_def)
  finally show n: "de_name_len b' e = length name"
    using assms by (simp add: de_name_len_def load8_store8)
  have "chunk (e + TUX_DIR_HEAD) (length name) b' = chunk (e + TUX_DIR_HEAD) (length name) ?b3"
    unfolding b' store8_def [of ?b3] using assms(1) len
    by (intro chunk_blit_after) (auto simp: TUX_DIR_HEAD_def)
  also have "\<dots> = chunk (e + TUX_DIR_HEAD) (length name) ?b2"
    unfolding store64_def using assms(1) len
    by (intro chunk_blit_after) (auto simp: TUX_DIR_HEAD_def)
  also have "\<dots> = name" using assms(1) len by (simp add: chunk_blit_same TUX_DIR_HEAD_def)
  finally show "de_name b' e = name" by (simp add: de_name_def n)
  have "load64 b' e = load64 ?b3 e"
    unfolding b' store8_def [of ?b3] using assms(1) len by (intro load64_blit_other) auto
  then show "de_inum b' e = inum" using assms(1,3) len by (simp add: de_inum_def load64_store64)
  show "de_type b' e = tux_type_of_mode mode mod 256"
    unfolding b' de_type_def using assms(1) len by (simp add: load8_store8)
qed

text \<open>A live entry gives its slack to a new one behind it.\<close>

lemma split_entry:
  assumes ok: "length b \<le> 2 ^ 15" and s: "recs b 0 (xs @ e # ys) (length b)"
    and room: "rlen b e \<ge> TUX_REC_LEN (de_name_len b e) + r" "16 \<le> r"
  defines "new \<equiv> e + TUX_REC_LEN (de_name_len b e)"
  defines "b1 \<equiv> store16 b (new + 8) (tux_rec_len_to_disk (rlen b e - TUX_REC_LEN (de_name_len b e)))"
  defines "b2 \<equiv> store16 b1 (e + 8) (tux_rec_len_to_disk (TUX_REC_LEN (de_name_len b e)))"
  shows "length b2 = length b" "x \<in> set (xs @ ys) \<Longrightarrow> same_entry b b2 x"
    "rlen b2 e = TUX_REC_LEN (de_name_len b e)" "de_name_len b2 e = de_name_len b e"
    "de_name b2 e = de_name b e" "de_inum b2 e = de_inum b e" "de_type b2 e = de_type b e"
    "rlen b2 new = rlen b e - TUX_REC_LEN (de_name_len b e)"
    "new + rlen b2 new = e + rlen b e" "new + r \<le> length b"
proof -
  let ?n = "TUX_REC_LEN (de_name_len b e)"
  obtain mid where m: "recs b 0 xs mid" "recs b mid (e # ys) (length b)"
    using s by (auto simp: seg_append)
  have e: "mid = e" "entry_ok b e" "recs b (e + rlen b e) ys (length b)" using m(2) by auto
  note ek = entry_okD [OF e(2)]
  have n: "de_name_len b e + 12 \<le> ?n" by (rule TUX_REC_LEN_bounds)
  have lim: "e + ?n + r \<le> e + rlen b e" "e + rlen b e \<le> length b" using room ek by auto
  have l1: "length b1 = length b" using lim room by (simp add: b1_def mem_simps new_def)
  show l2: "length b2 = length b" using l1 lim room by (simp add: b2_def mem_simps)
  show "new + r \<le> length b" using lim by (simp add: new_def)
  have d: "tux_rec_len_to_disk v = v" "v < 65536" "tux_rec_len_from_disk v = v" if "v \<le> 2 ^ 15" for v
    using that by (simp_all add: tux_rec_len_to_disk_def tux_rec_len_from_disk_def TUX_MAX_REC_LEN_def)
  have small: "?n \<le> 2 ^ 15" "rlen b e - ?n \<le> 2 ^ 15" using lim ok by auto
  have rn: "de_rec_len b2 new = rlen b e - ?n"
  proof -
    have "de_rec_len b2 new = de_rec_len b1 new"
      unfolding de_rec_len_def b2_def store16_def using l1 lim room n
      by (intro load16_blit_other) (auto simp: new_def)
    then show ?thesis
      using lim room d small by (simp add: de_rec_len_def b1_def load16_store16 new_def)
  qed
  then show r2: "rlen b2 new = rlen b e - ?n" using d(3) small by (simp add: rlen_def)
  show "new + rlen b2 new = e + rlen b e" using r2 lim by (simp add: new_def)
  have re: "de_rec_len b2 e = ?n"
    using l1 lim room d small by (simp add: de_rec_len_def b2_def load16_store16)
  then show "rlen b2 e = ?n" using d(3) small by (simp add: rlen_def)
  have s1: "same_entry b b1 x" if "x + 12 + de_name_len b x \<le> length b"
    "x + 12 + de_name_len b x \<le> e + rlen b e \<longrightarrow> x + 12 + de_name_len b x \<le> e + ?n" 
    "x + 12 + de_name_len b x \<le> e + ?n \<or> e + rlen b e \<le> x" for x
    unfolding b1_def store16_def using that lim room
    by (intro same_entry_blit) (auto simp: new_def)
  have e1: "same_entry b b1 e" using lim n by (intro s1) auto
  have n1: "de_name_len b1 e = de_name_len b e" using e1 by (simp add: same_entry_def)
  have "load8 b2 (e + 10) = load8 b1 (e + 10)" "load8 b2 (e + 11) = load8 b1 (e + 11)"
    "load64 b2 e = load64 b1 e"
    unfolding b2_def store16_def using l1 lim room
    by (simp_all add: load8_blit_other load64_blit_other)
  then show nl: "de_name_len b2 e = de_name_len b e" and "de_inum b2 e = de_inum b e"
    and "de_type b2 e = de_type b e"
    using e1 by (simp_all add: same_entry_def de_name_len_def de_inum_def de_type_def)
  have "chunk (e + TUX_DIR_HEAD) (de_name_len b e) b2 = chunk (e + TUX_DIR_HEAD) (de_name_len b e) b1"
    unfolding b2_def store16_def using l1 lim room n
    by (intro chunk_blit_after) (auto simp: TUX_DIR_HEAD_def)
  then show "de_name b2 e = de_name b e"
    using e1 nl n1 by (simp add: same_entry_def de_name_def)
  show "same_entry b b2 x" if x: "x \<in> set (xs @ ys)"
  proof -
    have ok_x: "entry_ok b x" "x + rlen b x \<le> e \<or> e + rlen b e \<le> x"
      using x seg_mem [OF m(1)] seg_mem [OF e(3)] e(1) by auto
    note xk = entry_okD [OF ok_x(1)]
    have 1: "same_entry b b1 x"
      unfolding b1_def store16_def using xk ok_x(2) lim room
      by (intro same_entry_blit) (auto simp: new_def)
    then have nx: "de_name_len b1 x = de_name_len b x" by (simp add: same_entry_def)
    have "same_entry b1 b2 x"
      unfolding b2_def store16_def using xk ok_x(2) lim room l1 nx
      by (intro same_entry_blit) auto
    with 1 show ?thesis by (rule same_entry_trans)
  qed
qed

lemma seg_replace:
  assumes "recs b 0 (xs @ e # ys) (length b)" "length b' = length b"
    and "\<And>x. x \<in> set (xs @ ys) \<Longrightarrow> same_entry b b' x" and "recs b' e zs (e + rlen b e)"
  shows "recs b' 0 (xs @ zs @ ys) (length b')"
proof -
  obtain mid where m: "recs b 0 xs mid" "recs b mid (e # ys) (length b)"
    using assms(1) by (auto simp: seg_append)
  then have r: "mid = e" "recs b (e + rlen b e) ys (length b)" by auto
  have "recs b' 0 xs e"
    using m(1) r(1) assms(3) by (intro seg_same [OF _ assms(2)]) simp_all
  moreover have "recs b' (e + rlen b e) ys (length b')"
    unfolding assms(2) using assms(3) by (intro seg_same [OF r(2) assms(2)]) simp
  ultimately show ?thesis using assms(4) unfolding seg_append by blast
qed

lemma same_entry_map:
  "same_entry b b' x \<Longrightarrow> x \<in> set (offs b 0) \<longleftrightarrow> x \<in> set (offs b' 0) \<Longrightarrow> block_map b' x = block_map b x"
  by (simp add: block_map_def is_deleted_def same_entry_def)

lemma create_at_block:
  assumes ok: "block_ok b" and e: "e \<in> set (offs b 0)" and room: "has_room b (TUX_REC_LEN (length name)) e"
    and name: "0 < length name" "length name < 256" "inum < 2 ^ 64"
    and c: "create_at b e (TUX_REC_LEN (de_name_len b e)) (rlen b e) name inum mode = (b', n)"
  shows "length b' = length b \<and> block_ok b' \<and> block_map b n = None
    \<and> block_map b' = (block_map b)(n \<mapsto> (name, inum, tux_type_of_mode mode mod 256))
    \<and> n < length b"
proof -
  have s: "recs b 0 (offs b 0) (length b)" and len: "length b \<le> 2 ^ 15" using ok by (auto simp: block_ok_def)
  obtain xs ys where xy: "offs b 0 = xs @ e # ys" using e by (meson split_list)
  note s' = s [unfolded xy]
  have srt: "sorted_wrt (<) (xs @ e # ys)" by (rule seg_distinct [OF s'])
  have ek: "entry_ok b e" using seg_mem [OF s' , of e] by simp
  note eb = entry_okD [OF ek]
  have rl: "length name + 12 \<le> TUX_REC_LEN (length name)" by (rule TUX_REC_LEN_bounds)
  have apart: "x + rlen b x \<le> e \<or> e + rlen b e \<le> x" "entry_ok b x" if "x \<in> set (xs @ ys)" for x
  proof -
    obtain mid where m: "recs b 0 xs mid" "recs b mid (e # ys) (length b)"
      using s' by (auto simp: seg_append)
    then have "mid = e" "recs b (e + rlen b e) ys (length b)" by auto
    then show "x + rlen b x \<le> e \<or> e + rlen b e \<le> x" "entry_ok b x"
      using that seg_mem [OF m(1)] seg_mem [of b "e + rlen b e" ys] by auto
  qed
  show ?thesis
  proof (cases "is_deleted b e")
    case True
    then have bn: "b' = fill_entry b e name inum mode" "n = e"
      using c by (auto simp: create_at_def fill_entry_def Let_def)
    have fit: "TUX_REC_LEN (length name) \<le> rlen b e" using room True by (auto simp: has_room_def)
    have fe: "e + 12 + length name \<le> length b" using fit rl eb by linarith
    have l: "length b' = length b" unfolding bn by (rule fill_entry_frame(1) [OF fe])
    have same: "same_entry b b' x" if "x \<in> set (xs @ ys)" for x
      unfolding bn using apart [OF that] entry_okD [of b x] fit rl
      by (intro fill_entry_frame(2) [OF fe]) auto
    have f: "de_name_len b' e = length name" "de_name b' e = name" "de_inum b' e = inum"
      "de_type b' e = tux_type_of_mode mode mod 256"
      using fill_entry_fields [OF fe name(2,3), of mode] by (simp_all add: bn)
    have rb: "rlen b' e = rlen b e" using fill_entry_frame(3) [OF fe] by (simp add: rlen_def bn)
    have "recs b' e [e] (e + rlen b e)" using rb f fit eb l by (simp add: entry_ok_def)
    then have sb: "recs b' 0 (xs @ [e] @ ys) (length b')"
      using same by (intro seg_replace [OF s' l]) auto
    have ob: "block_ok b'" "offs b' 0 = xs @ e # ys"
      using block_okI [of b' "xs @ [e] @ ys"] sb l len by auto
    have "block_map b' x = ((block_map b)(e \<mapsto> (name, inum, tux_type_of_mode mode mod 256))) x" for x
    proof (cases "x = e")
      case True
      then show ?thesis using f name(1) ob(2) by (simp add: block_map_def is_deleted_def)
    next
      case False
      show ?thesis
      proof (cases "x \<in> set (xs @ ys)")
        case True
        then show ?thesis using False same_entry_map [OF same [OF True]] ob(2) xy by auto
      next
        case False': False
        then show ?thesis using False ob(2) xy by (simp add: block_map_def)
      qed
    qed
    then show ?thesis
      using l ob(1) bn(2) True eb by (auto simp: block_map_def)
  next
    case False
    let ?r = "TUX_REC_LEN (length name)" and ?m = "TUX_REC_LEN (de_name_len b e)"
    have slack: "rlen b e \<ge> ?m + ?r" using room False by (auto simp: has_room_def)
    have r16: "16 \<le> ?r" using TUX_REC_LEN_mono [of 0 "length name"] by (simp add: TUX_REC_LEN_def TUX_DIR_HEAD_def)
    define nw where "nw = e + ?m"
    define b2 where "b2 = store16 (store16 b (nw + 8) (tux_rec_len_to_disk (rlen b e - ?m))) (e + 8)
      (tux_rec_len_to_disk ?m)"
    note sp = split_entry [OF len s' slack r16, folded nw_def, folded b2_def]
    have bn: "b' = fill_entry b2 nw name inum mode" "n = nw"
      using c False by (auto simp: create_at_def fill_entry_def Let_def nw_def b2_def)
    have fe: "nw + 12 + length name \<le> length b2" using sp(1,10) rl by linarith
    have l: "length b' = length b" using fill_entry_frame(1) [OF fe] sp(1) by (simp add: bn)
    have em: "e + 12 + de_name_len b e \<le> nw" using TUX_REC_LEN_bounds(1) [of "de_name_len b e"] by (simp add: nw_def)
    have same: "same_entry b b' x" if x: "x \<in> set (xs @ ys)" for x
    proof -
      have 2: "same_entry b b2 x" by (rule sp(2) [OF x])
      then have "de_name_len b2 x = de_name_len b x" by (simp add: same_entry_def)
      moreover have "e \<le> nw" "nw + 12 + length name \<le> e + rlen b e"
        using slack rl by (auto simp: nw_def)
      ultimately have "same_entry b2 b' x"
        unfolding bn using apart [OF x] entry_okD [of b x] sp(1)
        by (intro fill_entry_frame(2) [OF fe]) auto
      with 2 show ?thesis by (rule same_entry_trans)
    qed
    have f: "de_name_len b' nw = length name" "de_name b' nw = name" "de_inum b' nw = inum"
      "de_type b' nw = tux_type_of_mode mode mod 256"
      using fill_entry_fields [OF fe name(2,3), of mode] by (simp_all add: bn)
    have e2: "same_entry b2 b' e"
      unfolding bn using em sp(1,4) eb by (intro fill_entry_frame(2) [OF fe]) auto
    have rn: "rlen b' nw = rlen b2 nw" using fill_entry_frame(3) [OF fe] by (simp add: rlen_def bn)
    have re: "rlen b' e = ?m" using e2 sp(3) by (simp add: rlen_def same_entry_def)
    have "entry_ok b' e" using re e2 sp(4) l eb em slack by (simp add: entry_ok_def same_entry_def)
    moreover have "entry_ok b' nw"
      using rn sp(8,9) f l slack eb by (simp add: entry_ok_def)
    ultimately have "recs b' e [e, nw] (e + rlen b e)"
      using re rn sp(9) by (simp add: nw_def)
    then have sb: "recs b' 0 (xs @ [e, nw] @ ys) (length b')"
      using same by (intro seg_replace [OF s' l]) auto
    have ob: "block_ok b'" "offs b' 0 = xs @ [e, nw] @ ys"
      using block_okI [of b' "xs @ [e, nw] @ ys"] sb l len by auto
    have nw_new: "nw \<notin> set (xs @ e # ys)"
    proof -
      have "x \<noteq> nw" if "x \<in> set (xs @ ys)" for x
        using apart [OF that] entry_okD(3) [OF apart(2) [OF that]] slack r16 by (auto simp: nw_def)
      moreover have "e \<noteq> nw" using em by simp
      ultimately show ?thesis by auto
    qed
    have "block_map b' x = ((block_map b)(nw \<mapsto> (name, inum, tux_type_of_mode mode mod 256))) x" for x
    proof -
      consider "x = nw" | "x = e" "x \<noteq> nw" | "x \<in> set (xs @ ys)" "x \<noteq> nw"
        | "x \<notin> set (xs @ e # ys)" "x \<noteq> nw" by auto
      then show ?thesis
      proof cases
        case 1
        then show ?thesis using f name(1) ob(2) by (simp add: block_map_def is_deleted_def)
      next
        case 2
        then show ?thesis
          using e2 sp(4-7) False ob(2) xy by (simp add: block_map_def is_deleted_def same_entry_def)
      next
        case 3
        then show ?thesis using same_entry_map [OF same [OF 3(1)]] ob(2) xy by auto
      next
        case 4
        then show ?thesis using ob(2) xy by (simp add: block_map_def)
      qed
    qed
    moreover have "block_map b nw = None" using nw_new xy by (simp add: block_map_def)
    ultimately show ?thesis using l ob(1) bn(2) fe sp(1) by auto
  qed
qed

section \<open>Deleting an entry from a block\<close>

lemma seg_glue:
  assumes "recs b 0 xs lo" "recs b hi ys (length b)" "length b' = length b"
    and "\<And>x. x \<in> set (xs @ ys) \<Longrightarrow> same_entry b b' x" and "recs b' lo zs hi"
  shows "recs b' 0 (xs @ zs @ ys) (length b')"
proof -
  have "recs b' 0 xs lo" using assms(4) by (intro seg_same [OF assms(1,3)]) simp
  moreover have "recs b' hi ys (length b')"
    unfolding assms(3) using assms(4) by (intro seg_same [OF assms(2,3)]) simp
  ultimately show ?thesis using assms(5) unfolding seg_append by blast
qed

lemma find_prev_seg:
  "recs b this xs e \<Longrightarrow> find_prev b e prev this = Inr (if xs = [] then prev else Some (last xs))"
proof (induction xs arbitrary: this prev)
  case Nil
  then show ?case by (simp add: find_prev.simps [of b])
next
  case (Cons y ys)
  then have y: "y = this" "entry_ok b this" "recs b (this + rlen b this) ys e" by auto
  have "this < e" using seg_le [OF y(3)] entry_okD(3) [OF y(2)] by linarith
  then have "find_prev b e prev this = find_prev b e (Some this) (this + rlen b this)"
    using entry_okD(4) [OF y(2)] by (subst find_prev.simps) (simp add: next_entry_def rlen_def)
  then show ?case using Cons.IH [OF y(3)] y(1) by simp
qed

text \<open>The writes that clear the entry itself.\<close>

definition clear_entry :: "bytes \<Rightarrow> nat \<Rightarrow> bytes" where
  "clear_entry b e =
     store64 (store8 (store8 (memset b (e + TUX_DIR_HEAD) 0 (de_name_len b e)) (e + 11) 0) (e + 10) 0) e 0"

lemma clear_entry_frame:
  assumes "e + 12 + de_name_len b e \<le> length b"
  shows "length (clear_entry b e) = length b" "de_name_len (clear_entry b e) e = 0"
    "de_rec_len (clear_entry b e) e = de_rec_len b e"
    "x + 12 + de_name_len b x \<le> length b \<Longrightarrow>
      x + 12 + de_name_len b x \<le> e \<or> e + 12 + de_name_len b e \<le> x \<Longrightarrow>
      same_entry b (clear_entry b e) x"
proof -
  let ?b1 = "memset b (e + TUX_DIR_HEAD) 0 (de_name_len b e)"
  let ?b2 = "store8 ?b1 (e + 11) 0"
  let ?b3 = "store8 ?b2 (e + 10) 0"
  have len: "length ?b1 = length b" "length ?b2 = length b" "length ?b3 = length b"
    using assms by (simp_all add: mem_simps TUX_DIR_HEAD_def)
  show "length (clear_entry b e) = length b" using assms len by (simp add: clear_entry_def mem_simps)
  have "load8 (clear_entry b e) (e + 10) = load8 ?b3 (e + 10)"
    unfolding clear_entry_def store64_def using assms len by (intro load8_blit_other) auto
  then show "de_name_len (clear_entry b e) e = 0"
    using assms len by (simp add: de_name_len_def load8_store8)
  have "load16 (clear_entry b e) (e + 8) = load16 ?b3 (e + 8)"
    unfolding clear_entry_def store64_def using assms len by (intro load16_blit_other) auto
  also have "\<dots> = load16 ?b2 (e + 8)"
    unfolding store8_def [of ?b2] using assms len by (intro load16_blit_other) auto
  also have "\<dots> = load16 ?b1 (e + 8)"
    unfolding store8_def [of ?b1] using assms len by (intro load16_blit_other) auto
  also have "\<dots> = load16 b (e + 8)"
    unfolding memset_def using assms by (intro load16_blit_other) (auto simp: TUX_DIR_HEAD_def)
  finally show "de_rec_len (clear_entry b e) e = de_rec_len b e" by (simp add: de_rec_len_def)
  show "same_entry b (clear_entry b e) x"
    if x: "x + 12 + de_name_len b x \<le> length b"
      "x + 12 + de_name_len b x \<le> e \<or> e + 12 + de_name_len b e \<le> x"
  proof -
    have s1: "same_entry b ?b1 x"
      unfolding memset_def using x assms by (intro same_entry_blit) (auto simp: TUX_DIR_HEAD_def)
    then have n1: "de_name_len ?b1 x = de_name_len b x" by (simp add: same_entry_def)
    have s2: "same_entry ?b1 ?b2 x"
      unfolding store8_def [of ?b1] using x assms n1 len by (intro same_entry_blit) auto
    then have n2: "de_name_len ?b2 x = de_name_len b x" using n1 by (simp add: same_entry_def)
    have s3: "same_entry ?b2 ?b3 x"
      unfolding store8_def [of ?b2] using x assms n2 len by (intro same_entry_blit) auto
    then have n3: "de_name_len ?b3 x = de_name_len b x" using n2 by (simp add: same_entry_def)
    have "same_entry ?b3 (store64 ?b3 e 0) x"
      unfolding store64_def using x assms n3 len by (intro same_entry_blit) auto
    then show ?thesis using same_entry_trans s1 s2 s3 unfolding clear_entry_def by blast
  qed
qed

lemma delete_block:
  assumes ok: "block_ok b" and e: "e \<in> set (offs b 0)"
  shows "\<exists>b'. tux_delete_entry b e = Inr b' \<and> length b' = length b \<and> block_ok b'
    \<and> block_map b' = (block_map b)(e := None)"
proof -
  have s: "recs b 0 (offs b 0) (length b)" and len: "length b \<le> 2 ^ 15" using ok by (auto simp: block_ok_def)
  obtain xs ys where xy: "offs b 0 = xs @ e # ys" using e by (meson split_list)
  obtain mid where "recs b 0 xs mid" "recs b mid (e # ys) (length b)"
    using s xy by (auto simp: seg_append)
  then have m: "recs b 0 xs e" "entry_ok b e" "recs b (e + rlen b e) ys (length b)" by auto
  note eb = entry_okD [OF m(2)]
  have srt: "sorted_wrt (<) (xs @ e # ys)" using seg_distinct [OF s] xy by simp
  have apart: "entry_ok b x" "x + rlen b x \<le> e \<or> e + rlen b e \<le> x" if "x \<in> set (xs @ ys)" for x
    using that seg_mem [OF m(1)] seg_mem [OF m(3)] by auto
  have nine: "tux_rec_len_from_disk (de_rec_len b e) = rlen b e" by (simp add: rlen_def)
  show ?thesis
  proof (cases "xs = []")
    case True
    have d: "tux_delete_entry b e = Inr (clear_entry b e)"
      using find_prev_seg [OF m(1), of None] True
      by (simp add: tux_delete_entry_def clear_entry_def Let_def)
    have fe: "e + 12 + de_name_len b e \<le> length b" using eb by linarith
    note ce = clear_entry_frame [OF fe]
    have same: "same_entry b (clear_entry b e) x" if "x \<in> set (xs @ ys)" for x
      using apart [OF that] entry_okD [of b x] eb by (intro ce(4)) auto
    have rl: "rlen (clear_entry b e) e = rlen b e" using ce(3) by (simp add: rlen_def)
    have "TUX_REC_LEN 0 \<le> rlen b e"
      using m(2) TUX_REC_LEN_mono [of 0 "de_name_len b e"] by (simp add: entry_ok_def)
    then have "entry_ok (clear_entry b e) e" using rl ce(1,2) eb by (simp add: entry_ok_def)
    then have "recs (clear_entry b e) e [e] (e + rlen b e)" using rl by simp
    then have "recs (clear_entry b e) 0 (xs @ [e] @ ys) (length (clear_entry b e))"
      using same by (intro seg_glue [OF m(1,3) ce(1)]) auto
    then have ob: "block_ok (clear_entry b e)" "offs (clear_entry b e) 0 = xs @ [e] @ ys"
      using block_okI [of "clear_entry b e" "xs @ [e] @ ys"] ce(1) len by auto
    have "block_map (clear_entry b e) x = ((block_map b)(e := None)) x" for x
    proof (cases "x = e \<or> x \<notin> set (xs @ ys)")
      case True
      then show ?thesis using ob(2) xy ce(2) by (auto simp: block_map_def is_deleted_def)
    next
      case False
      then show ?thesis using same_entry_map [OF same, of x] ob(2) xy by auto
    qed
    then show ?thesis using d ob(1) ce(1) by auto
  next
    case False
    then obtain zs p where xs: "xs = zs @ [p]" by (meson rev_exhaust)
    have pz: "recs b 0 zs p" "entry_ok b p" "p + rlen b p = e"
      using m(1) by (auto simp: xs seg_append)
    note pb = entry_okD [OF pz(2)]
    let ?v = "tux_rec_len_to_disk (e + rlen b e - p)"
    let ?b1 = "store16 b (p + 8) ?v"
    have v: "?v = e + rlen b e - p" "?v < 65536" "tux_rec_len_from_disk ?v = e + rlen b e - p"
      using eb(2) len
      by (auto simp: tux_rec_len_to_disk_def tux_rec_len_from_disk_def TUX_MAX_REC_LEN_def)
    have l1: "length ?b1 = length b" using pb by (simp add: mem_simps)
    have e1: "same_entry b ?b1 e"
      unfolding store16_def using pb eb pz(3) by (intro same_entry_blit) auto
    have d: "tux_delete_entry b e = Inr (clear_entry ?b1 e)"
      using find_prev_seg [OF m(1), of None] xs
      by (simp add: tux_delete_entry_def clear_entry_def Let_def nine)
    have fe: "e + 12 + de_name_len ?b1 e \<le> length ?b1" using eb e1 l1 by (simp add: same_entry_def)
    note ce = clear_entry_frame [OF fe]
    let ?c = "clear_entry ?b1 e"
    have l: "length ?c = length b" using ce(1) l1 by simp
    have same: "same_entry b ?c x" if "x \<in> set (zs @ ys)" for x
    proof -
      have ax: "entry_ok b x" "x + rlen b x \<le> p \<or> e + rlen b e \<le> x"
        using that seg_mem [OF pz(1)] seg_mem [OF m(3)] by auto
      note xb = entry_okD [OF ax(1)]
      have 1: "same_entry b ?b1 x"
        unfolding store16_def using ax(2) xb pb pz(3) by (intro same_entry_blit) auto
      then have "de_name_len ?b1 x = de_name_len b x" by (simp add: same_entry_def)
      then have "same_entry ?b1 ?c x"
        using ax(2) xb eb e1 l1 pz(3) by (intro ce(4)) (auto simp: same_entry_def)
      with 1 show ?thesis by (rule same_entry_trans)
    qed
    have pf: "de_name_len ?b1 p = de_name_len b p" "de_name ?b1 p = de_name b p"
      "de_inum ?b1 p = de_inum b p" "de_type ?b1 p = de_type b p" "de_rec_len ?b1 p = ?v"
    proof -
      show n: "de_name_len ?b1 p = de_name_len b p"
        unfolding de_name_len_def store16_def using pb by (intro load8_blit_other) auto
      show "de_type ?b1 p = de_type b p"
        unfolding de_type_def store16_def using pb by (intro load8_blit_other) auto
      show "de_inum ?b1 p = de_inum b p"
        unfolding de_inum_def store16_def using pb by (intro load64_blit_other) auto
      show "de_rec_len ?b1 p = ?v"
        using pb v(2) by (simp add: de_rec_len_def load16_store16)
      show "de_name ?b1 p = de_name b p"
        unfolding de_name_def n unfolding store16_def using pb
        by (intro chunk_blit_after) (auto simp: TUX_DIR_HEAD_def)
    qed
    have p2: "same_entry ?b1 ?c p" using pf(1) pb pz(3) l1 by (intro ce(4)) auto
    have rp: "rlen ?c p = e + rlen b e - p" using p2 pf(5) v(3) by (simp add: rlen_def same_entry_def)
    have "entry_ok ?c p"
      using rp p2 pf(1) pz(2,3) eb l by (auto simp: entry_ok_def same_entry_def)
    then have "recs ?c p [p] (e + rlen b e)" using rp pz(3) by simp
    then have "recs ?c 0 (zs @ [p] @ ys) (length ?c)"
      using same by (intro seg_glue [OF pz(1) m(3) l]) auto
    then have ob: "block_ok ?c" "offs ?c 0 = zs @ [p] @ ys"
      using block_okI [of ?c "zs @ [p] @ ys"] l len by auto
    have ne: "e \<notin> set (zs @ [p] @ ys)" using srt xs by (auto simp: sorted_wrt_append)
    have "block_map ?c x = ((block_map b)(e := None)) x" for x
    proof -
      consider "x = e" | "x = p" "x \<noteq> e" | "x \<in> set (zs @ ys)" "x \<noteq> e" | "x \<notin> set (xs @ e # ys)" "x \<noteq> e"
        using xs by auto
      then show ?thesis
      proof cases
        case 1
        then show ?thesis using ob(2) ne by (simp add: block_map_def)
      next
        case 2
        then show ?thesis
          using p2 pf ob(2) xy xs by (simp add: block_map_def is_deleted_def same_entry_def)
      next
        case 3
        then show ?thesis using same_entry_map [OF same [OF 3(1)]] ob(2) xy xs by auto
      next
        case 4
        then show ?thesis using ob(2) xy xs by (simp add: block_map_def)
      qed
    qed
    then show ?thesis using d ob(1) l by auto
  qed
qed

section \<open>Directories as tables of names\<close>

definition wf_dir :: "'a dir_scheme \<Rightarrow> bool" where
  "wf_dir d \<longleftrightarrow> 9 \<le> d_bits d \<and> d_bits d \<le> 15 \<and> d_size d mod d_blocksize d = 0 \<and> d_size d < 2 ^ 32
     \<and> (\<forall>n < d_nblocks d. \<exists>b. d_blocks d n = Some b \<and> length b = d_blocksize d \<and> block_ok b)"

definition dir_map :: "'a dir_scheme \<Rightarrow> nat \<times> nat \<Rightarrow> (bytes \<times> nat \<times> nat) option" where
  "dir_map d p = (if fst p < d_nblocks d
     then (case d_blocks d (fst p) of None \<Rightarrow> None | Some b \<Rightarrow> block_map b (snd p)) else None)"

text \<open>The file position of an entry, which the extended attributes record for their names.\<close>

definition dir_pos :: "'a dir_scheme \<Rightarrow> nat \<times> nat \<Rightarrow> nat" where
  "dir_pos d p = fst p * d_blocksize d + snd p"

lemma d_blocksize_pos [simp]: "0 < d_blocksize d"
  by (simp add: d_blocksize_def)

lemma d_blocksize_bounds: "wf_dir d \<Longrightarrow> 512 \<le> d_blocksize d \<and> d_blocksize d \<le> 2 ^ 15"
proof -
  assume wf: "wf_dir d"
  then have "(2 :: nat) ^ 9 \<le> 2 ^ d_bits d" "(2 :: nat) ^ d_bits d \<le> 2 ^ 15"
    unfolding wf_dir_def by (intro power_increasing; simp)+
  then show ?thesis by (simp add: d_blocksize_def)
qed

lemma d_nblocks_eq: "wf_dir d \<Longrightarrow> d_nblocks d = d_size d div d_blocksize d \<and> d_nblocks d * d_blocksize d = d_size d"
  unfolding d_nblocks_def wrap32_def wf_dir_def
  by (metis div_le_dividend div_mult_mod_eq le_less_trans mod_less Nat.add_0_right)

lemma wf_dir_block:
  assumes "wf_dir d" "n < d_nblocks d"
  obtains b where "d_blocks d n = Some b" "length b = d_blocksize d" "block_ok b"
  using assms by (auto simp: wf_dir_def)

lemma block_seg: "block_ok b \<Longrightarrow> recs b 0 (offs b 0) (length b)"
  by (simp add: block_ok_def)

lemma find_in_block_map:
  assumes "block_ok b" "name \<noteq> []"
  shows "\<exists>r. find_in_block b name (int (length b) - int (TUX_REC_LEN (length name))) 0 = Inr r \<and>
    (case r of None \<Rightarrow> \<forall>e i t. block_map b e \<noteq> Some (name, i, t)
     | Some e \<Rightarrow> \<exists>i t. block_map b e = Some (name, i, t))"
proof -
  have m: "tux_match b x name \<longleftrightarrow> (\<exists>i t. block_map b x = Some (name, i, t))" if "x \<in> set (offs b 0)" for x
    using that seg_mem [OF block_seg [OF assms(1)] that] tux_match_ok [OF assms(2)]
    by (auto simp: block_map_def)
  let ?r = "find (\<lambda>x. tux_match b x name) (offs b 0)"
  have "case ?r of None \<Rightarrow> \<forall>e i t. block_map b e \<noteq> Some (name, i, t)
     | Some e \<Rightarrow> \<exists>i t. block_map b e = Some (name, i, t)"
  proof (cases ?r)
    case None
    then have "\<not> tux_match b x name" if "x \<in> set (offs b 0)" for x using that by (auto simp: find_None_iff)
    moreover have "e \<in> set (offs b 0)" if "block_map b e = Some (name, i, t)" for e i t
      using that by (simp add: block_map_def split: if_splits)
    ultimately show ?thesis using None m by auto
  next
    case (Some e)
    then have "e \<in> set (offs b 0)" "tux_match b e name" by (auto simp: find_Some_iff)
    then show ?thesis using Some m by simp
  qed
  then show ?thesis using find_in_block_seg [OF block_seg [OF assms(1)] assms(2)] by auto
qed

lemma find_blocks_map:
  assumes "wf_dir d" "name \<noteq> []"
  shows "n \<le> d_nblocks d \<Longrightarrow>
    case find_blocks d name (d_nblocks d) n of
      Inl err \<Rightarrow> err = ENOENT \<and> (\<forall>p i t. n \<le> fst p \<longrightarrow> dir_map d p \<noteq> Some (name, i, t))
    | Inr p \<Rightarrow> \<exists>i t. dir_map d p = Some (name, i, t)"
proof (induction "d_nblocks d - n" arbitrary: n)
  case 0
  then show ?case by (subst find_blocks.simps) (auto simp: dir_map_def)
next
  case (Suc k)
  then have n: "n < d_nblocks d" by simp
  obtain b where b: "d_blocks d n = Some b" "length b = d_blocksize d" "block_ok b"
    using assms(1) n by (rule wf_dir_block)
  obtain r where r: "find_in_block b name (int (d_blocksize d) - int (TUX_REC_LEN (length name))) 0 = Inr r"
    "case r of None \<Rightarrow> \<forall>e i t. block_map b e \<noteq> Some (name, i, t)
     | Some e \<Rightarrow> \<exists>i t. block_map b e = Some (name, i, t)"
    using find_in_block_map [OF b(3) assms(2)] b(2) by auto
  show ?case
  proof (cases r)
    case None
    have "find_blocks d name (d_nblocks d) n = find_blocks d name (d_nblocks d) (n + 1)"
      using n b(1) r(1) None by (subst find_blocks.simps) simp
    moreover have "dir_map d p \<noteq> Some (name, i, t)" if "fst p = n" for p i t
      using that r(2) None b(1) by (simp add: dir_map_def)
    moreover have "n \<le> x \<longleftrightarrow> x = n \<or> n + 1 \<le> x" for x by auto
    ultimately show ?thesis
      using Suc.hyps(1) [of "n + 1"] Suc.hyps(2) n by (auto split: sum.splits)
  next
    case (Some e)
    then show ?thesis
      using n b(1) r by (subst find_blocks.simps) (simp add: dir_map_def)
  qed
qed

lemma find_room_blocks_map:
  assumes "wf_dir d" "0 < reclen"
  shows "n \<le> d_nblocks d \<Longrightarrow>
    (\<exists>m e b. find_room_blocks d reclen (d_nblocks d) n
        = Inr (Some (m, e, TUX_REC_LEN (de_name_len b e), rlen b e))
      \<and> m < d_nblocks d \<and> d_blocks d m = Some b \<and> e \<in> set (offs b 0) \<and> has_room b reclen e) \<or>
    find_room_blocks d reclen (d_nblocks d) n = Inr None"
proof (induction "d_nblocks d - n" arbitrary: n)
  case 0
  then show ?case by (subst (2) find_room_blocks.simps) simp
next
  case (Suc k)
  then have n: "n < d_nblocks d" by simp
  obtain b where b: "d_blocks d n = Some b" "length b = d_blocksize d" "block_ok b"
    using assms(1) n by (rule wf_dir_block)
  obtain r where r: "find_room b reclen (int (d_blocksize d) - int reclen) 0 = Inr r"
    "case r of None \<Rightarrow> \<forall>x\<in>set (offs b 0). \<not> has_room b reclen x
     | Some (x, name_len, rec_len) \<Rightarrow> x \<in> set (offs b 0) \<and> has_room b reclen x
         \<and> name_len = TUX_REC_LEN (de_name_len b x) \<and> rec_len = rlen b x"
    using find_room_seg [OF block_seg [OF b(3)] assms(2)] b(2) by auto
  show ?case
  proof (cases r)
    case None
    then have "find_room_blocks d reclen (d_nblocks d) n = find_room_blocks d reclen (d_nblocks d) (n + 1)"
      using n b(1) r(1) by (subst find_room_blocks.simps) simp
    then show ?thesis using Suc.hyps(1) [of "n + 1"] Suc.hyps(2) n by simp
  next
    case (Some q)
    then obtain x where x: "r = Some (x, TUX_REC_LEN (de_name_len b x), rlen b x)"
      "x \<in> set (offs b 0)" "has_room b reclen x" using r(2) by (cases q) auto
    have "find_room_blocks d reclen (d_nblocks d) n = Inr (Some (n, x, TUX_REC_LEN (de_name_len b x), rlen b x))"
      using n b(1) r(1) x(1) by (subst find_room_blocks.simps) simp
    then show ?thesis using n b(1) x by blast
  qed
qed

lemma put_block_simps [simp]:
  "d_bits (put_block d n b) = d_bits d" "d_size (put_block d n b) = d_size d"
  "d_blocksize (put_block d n b) = d_blocksize d" "d_nblocks (put_block d n b) = d_nblocks d"
  "d_blocks (put_block d n b) = (d_blocks d)(n \<mapsto> b)"
  by (simp_all add: put_block_def d_blocksize_def d_nblocks_def)

lemma wf_dir_put:
  "wf_dir d \<Longrightarrow> length b = d_blocksize d \<Longrightarrow> block_ok b \<Longrightarrow> wf_dir (put_block d n b)"
  by (auto simp: wf_dir_def)

lemma dir_map_put:
  assumes "n < d_nblocks d" "d_blocks d n = Some b" "block_map b' = (block_map b)(e := v)"
  shows "dir_map (put_block d n b') = (dir_map d)((n, e) := v)"
  using assms by (auto simp: dir_map_def fun_eq_iff)

text \<open>The block that extends a full directory.\<close>

lemma empty_block_ok:
  assumes "wf_dir d"
  shows "length (empty_block d) = d_blocksize d" "block_ok (empty_block d)"
    "offs (empty_block d) 0 = [0]" "is_deleted (empty_block d) 0" "rlen (empty_block d) 0 = d_blocksize d"
proof -
  note bs = d_blocksize_bounds [OF assms]
  let ?b = "empty_block d"
  show l: "length ?b = d_blocksize d" using bs by (simp add: empty_block_def mem_simps)
  have "load8 ?b (0 + 10) = load8 (replicate (d_blocksize d) 0) (0 + 10)"
    unfolding empty_block_def store16_def using bs by (intro load8_blit_other) auto
  then have n: "de_name_len ?b 0 = 0" using bs by (simp add: de_name_len_def load8_def)
  then show "is_deleted ?b 0" by (simp add: is_deleted_def)
  have "de_rec_len ?b 0 = d_blocksize d"
    using bs by (simp add: de_rec_len_def empty_block_def load16_store16 tux_rec_len_to_disk_def)
  then show r: "rlen ?b 0 = d_blocksize d"
    using bs by (simp add: rlen_def tux_rec_len_from_disk_def TUX_MAX_REC_LEN_def)
  have "entry_ok ?b 0"
    using n r l bs by (simp add: entry_ok_def TUX_REC_LEN_def TUX_DIR_HEAD_def)
  then have "recs ?b 0 [0] (length ?b)" using r l by simp
  then show "block_ok ?b" "offs ?b 0 = [0]"
    using block_okI [of ?b "[0]"] l bs by auto
qed

lemma create_at_deleted:
  "is_deleted b e \<Longrightarrow> create_at b e x y name inum mode = create_at b e x' y' name inum mode"
  by (simp add: create_at_def)

lemma create_pos:
  assumes "wf_dir d" "n * d_blocksize d + d_blocksize d < 2 ^ 32" "e < d_blocksize d"
  shows "wrap32 (wrap32 (n * d_blocksize d) + e) = dir_pos d (n, e)"
  using assms by (simp add: wrap32_id dir_pos_def)

lemma create_entry_map:
  assumes wf: "wf_dir d" and name: "0 < length name" "length name < 256" and inum: "inum < 2 ^ 64"
    and room: "d_size d + d_blocksize d < 2 ^ 32"
  shows "\<exists>p d'. tux_create_entry d name inum mode = (Inr (dir_pos d p), d') \<and> wf_dir d'
    \<and> d_blocksize d' = d_blocksize d \<and> d_size d' \<le> d_size d + d_blocksize d \<and> dir_map d p = None
    \<and> dir_map d' = (dir_map d)(p \<mapsto> (name, inum, tux_type_of_mode mode mod 256))"
proof -
  let ?r = "TUX_REC_LEN (length name)"
  have r: "0 < ?r" "?r \<le> 272"
    using TUX_REC_LEN_bounds(1) [of "length name"] TUX_REC_LEN_mono [of "length name" 255] name
    by (auto simp: TUX_REC_LEN_def TUX_DIR_HEAD_def)
  note bs = d_blocksize_bounds [OF wf]
  note nb = d_nblocks_eq [OF wf]
  consider (found) m e b where "find_room_blocks d ?r (d_nblocks d) 0
      = Inr (Some (m, e, TUX_REC_LEN (de_name_len b e), rlen b e))"
      "m < d_nblocks d" "d_blocks d m = Some b" "e \<in> set (offs b 0)" "has_room b ?r e"
    | (fresh) "find_room_blocks d ?r (d_nblocks d) 0 = Inr None"
    using find_room_blocks_map [OF wf r(1), of 0] by blast
  then show ?thesis
  proof cases
    case found
    obtain b' n where c: "create_at b e (TUX_REC_LEN (de_name_len b e)) (rlen b e) name inum mode = (b', n)"
      by (cases "create_at b e (TUX_REC_LEN (de_name_len b e)) (rlen b e) name inum mode")
    have b: "length b = d_blocksize d" "block_ok b"
      using wf_dir_block [OF wf found(2)] found(3) by auto
    note cb = create_at_block [OF b(2) found(4,5) name inum c]
    have "m * d_blocksize d + d_blocksize d \<le> d_nblocks d * d_blocksize d"
      using found(2) by (metis Suc_leI mult_Suc mult_le_mono1 add.commute)
    then have "m * d_blocksize d + d_blocksize d < 2 ^ 32" using nb room by linarith
    then have "wrap32 (wrap32 (m * d_blocksize d) + n) = dir_pos d (m, n)"
      using cb b(1) by (intro create_pos [OF wf]) auto
    then have "tux_create_entry d name inum mode = (Inr (dir_pos d (m, n)), put_block d m b')"
      using found(1,3) c by (simp add: tux_create_entry_def Let_def)
    moreover have "dir_map d (m, n) = None" using cb found(2,3) by (simp add: dir_map_def)
    moreover have "dir_map (put_block d m b') =
        (dir_map d)((m, n) \<mapsto> (name, inum, tux_type_of_mode mode mod 256))"
      using cb by (intro dir_map_put [OF found(2,3)]) auto
    moreover have "wf_dir (put_block d m b')" using cb b by (intro wf_dir_put [OF wf]) auto
    ultimately show ?thesis by (intro exI [of _ "(m, n)"] exI [of _ "put_block d m b'"]) simp
  next
    case fresh
    let ?n = "d_nblocks d" and ?e = "empty_block d"
    let ?d = "d\<lparr>d_size := d_size d + d_blocksize d\<rparr>"
    note eb = empty_block_ok [OF wf]
    obtain b' n where c: "create_at ?e 0 (TUX_REC_LEN (de_name_len ?e 0)) (rlen ?e 0) name inum mode = (b', n)"
      by (cases "create_at ?e 0 (TUX_REC_LEN (de_name_len ?e 0)) (rlen ?e 0) name inum mode")
    have c': "create_at ?e 0 0 (d_blocksize d) name inum mode = (b', n)"
      using create_at_deleted [OF eb(4)] c by metis
    have "has_room ?e ?r 0" using eb r bs by (auto simp: has_room_def)
    moreover have "0 \<in> set (offs ?e 0)" using eb(3) by simp
    ultimately have cb: "length b' = length ?e \<and> block_ok b' \<and> block_map ?e n = None
      \<and> block_map b' = (block_map ?e)(n \<mapsto> (name, inum, tux_type_of_mode mode mod 256)) \<and> n < length ?e"
      using create_at_block [OF eb(2) _ _ name inum c] by blast
    have bsd: "d_blocksize ?d = d_blocksize d" by (simp add: d_blocksize_def)
    have "d_size ?d div d_blocksize ?d = ?n + 1"
      using nb bsd div_add_self2 [of "d_blocksize d" "d_size d"] by simp
    moreover have "?n + 1 < 2 ^ 32"
    proof -
      have "?n + 1 \<le> (?n + 1) * d_blocksize d"
        using mult_le_mono2 [of 1 "d_blocksize d" "?n + 1"] bs by simp
      also have "\<dots> = d_size d + d_blocksize d"
        by (simp only: add_mult_distrib mult_1 nb [THEN conjunct2])
      also have "\<dots> < 2 ^ 32" by (rule room)
      finally show ?thesis .
    qed
    ultimately have n1: "d_nblocks ?d = ?n + 1" by (simp add: d_nblocks_def wrap32_id)
    let ?d' = "put_block ?d ?n b'"
    have pos: "wrap32 (wrap32 (?n * d_blocksize d) + n) = dir_pos d (?n, n)"
      using cb eb(1) nb room by (intro create_pos [OF wf]) auto
    have eq: "tux_create_entry d name inum mode = (Inr (dir_pos d (?n, n)), ?d')"
      using fresh c' pos by (simp add: tux_create_entry_def Let_def bsd)
    have emp: "block_map ?e x = None" for x
      using eb(3,4) by (cases x) (simp_all add: block_map_def)
    have "dir_map ?d' = (dir_map d)((?n, n) \<mapsto> (name, inum, tux_type_of_mode mode mod 256))"
      using cb emp n1 by (auto simp: dir_map_def fun_eq_iff less_Suc_eq)
    moreover have "wf_dir ?d'"
    proof -
      have "d_bits ?d = d_bits d" by simp
      moreover have "d_size ?d mod d_blocksize ?d = 0" using wf bsd by (simp add: wf_dir_def)
      moreover have "d_size ?d < 2 ^ 32" using room by simp
      moreover have "\<exists>b. d_blocks ?d' m = Some b \<and> length b = d_blocksize ?d \<and> block_ok b"
        if "m < d_nblocks ?d" for m
        using that n1 cb eb(1) wf bsd by (auto simp: wf_dir_def less_Suc_eq)
      ultimately show ?thesis using wf by (auto simp: wf_dir_def)
    qed
    ultimately show ?thesis
      using eq bsd by (intro exI [of _ "(?n, n)"] exI [of _ ?d']) (simp add: dir_map_def)
  qed
qed

lemma delete_entry_map:
  assumes wf: "wf_dir d" and p: "dir_map d (n, e) \<noteq> None"
  shows "\<exists>b b'. d_blocks d n = Some b \<and> tux_delete_entry b e = Inr b' \<and> wf_dir (put_block d n b')
    \<and> dir_map (put_block d n b') = (dir_map d)((n, e) := None)"
proof -
  obtain b where b: "n < d_nblocks d" "d_blocks d n = Some b" "block_map b e \<noteq> None"
    using p by (auto simp: dir_map_def split: if_splits option.splits)
  then have e: "e \<in> set (offs b 0)" by (auto simp: block_map_def split: if_splits)
  have ok: "length b = d_blocksize d" "block_ok b" using wf_dir_block [OF wf b(1)] b(2) by auto
  obtain b' where b': "tux_delete_entry b e = Inr b'" "length b' = length b" "block_ok b'"
    "block_map b' = (block_map b)(e := None)"
    using delete_block [OF ok(2) e] by blast
  have "wf_dir (put_block d n b')" using b' ok by (intro wf_dir_put [OF wf]) auto
  moreover have "dir_map (put_block d n b') = (dir_map d)((n, e) := None)"
    by (rule dir_map_put [OF b(1,2) b'(4)])
  ultimately show ?thesis using b(2) b'(1) by blast
qed

section \<open>The interface of a table of names\<close>

text \<open>
  What \<open>namei.c\<close> and the atom dictionary of \<open>xattr.c\<close> rely on: lookup, creation and removal
  of names, with the entries as a finite map from places to names and values. None of the
  operations keeps names distinct by itself; a client that looks a name up before it creates it
  does, and the lemmas of the locale say what it gets for that.
\<close>

locale name_table =
  fixes wf :: "'d \<Rightarrow> bool"
    and entries :: "'d \<Rightarrow> 'p \<Rightarrow> (bytes \<times> 'v) option"
    and lookup :: "'d \<Rightarrow> bytes \<Rightarrow> 'p option"
    and create :: "'d \<Rightarrow> bytes \<Rightarrow> 'v \<Rightarrow> 'd"
    and remove :: "'d \<Rightarrow> 'p \<Rightarrow> 'd"
    and may_create :: "'d \<Rightarrow> bytes \<Rightarrow> 'v \<Rightarrow> bool"
    and is_name :: "bytes \<Rightarrow> bool"
  assumes lookup_Some: "wf d \<Longrightarrow> is_name name \<Longrightarrow> lookup d name = Some p \<Longrightarrow> \<exists>v. entries d p = Some (name, v)"
    and lookup_None: "wf d \<Longrightarrow> is_name name \<Longrightarrow> lookup d name = None \<Longrightarrow> entries d p \<noteq> Some (name, v)"
    and create_entries: "wf d \<Longrightarrow> may_create d name v \<Longrightarrow> is_name name \<Longrightarrow>
      wf (create d name v) \<and> (\<exists>p. entries d p = None \<and> entries (create d name v) = (entries d)(p \<mapsto> (name, v)))"
    and remove_entries: "wf d \<Longrightarrow> entries d p \<noteq> None \<Longrightarrow>
      wf (remove d p) \<and> entries (remove d p) = (entries d)(p := None)"
begin

definition unique :: "'d \<Rightarrow> bool" where
  "unique d \<longleftrightarrow> (\<forall>p q name v w. entries d p = Some (name, v) \<longrightarrow> entries d q = Some (name, w) \<longrightarrow> p = q)"

lemma lookup_iff:
  assumes "wf d" "is_name name" "unique d"
  shows "lookup d name = Some p \<longleftrightarrow> (\<exists>v. entries d p = Some (name, v))"
proof
  assume "\<exists>v. entries d p = Some (name, v)"
  then obtain v where v: "entries d p = Some (name, v)" by blast
  then obtain q where "lookup d name = Some q" using lookup_None [OF assms(1,2)] by fastforce
  moreover from this have "p = q"
    using lookup_Some [OF assms(1,2)] v assms(3) unfolding unique_def by blast
  ultimately show "lookup d name = Some p" by simp
qed (use lookup_Some [OF assms(1,2)] in blast)

lemma create_unique:
  assumes "wf d" "may_create d name v" "is_name name" "unique d" "lookup d name = None"
  shows "wf (create d name v) \<and> unique (create d name v)
    \<and> (\<exists>p. lookup (create d name v) name = Some p \<and> entries (create d name v) p = Some (name, v))
    \<and> (\<forall>other. is_name other \<longrightarrow> other \<noteq> name \<longrightarrow> lookup (create d name v) other = lookup d other)"
proof -
  let ?d = "create d name v"
  obtain p where wf: "wf ?d" and p: "entries d p = None" "entries ?d = (entries d)(p \<mapsto> (name, v))"
    using create_entries [OF assms(1,2,3)] by blast
  have none: "entries d q \<noteq> Some (name, w)" for q w by (rule lookup_None [OF assms(1,3,5)])
  have u: "unique ?d"
    unfolding unique_def
  proof (intro allI impI)
    fix q r nm a b assume "entries ?d q = Some (nm, a)" "entries ?d r = Some (nm, b)"
    then show "q = r"
      using assms(4) none unfolding p(2) unique_def by (auto split: if_splits)
  qed
  have "lookup ?d other = lookup d other" if other: "is_name other" "other \<noteq> name" for other
  proof -
    have "lookup ?d other = Some q \<longleftrightarrow> lookup d other = Some q" for q
      unfolding lookup_iff [OF wf other(1) u] lookup_iff [OF assms(1) other(1) assms(4)]
      using other(2) p by auto
    then show ?thesis by (metis not_Some_eq)
  qed
  moreover have "lookup ?d name = Some p" using lookup_iff [OF wf assms(3) u] p(2) by auto
  ultimately show ?thesis using wf u p(2) by auto
qed

lemma remove_unique:
  assumes "wf d" "unique d" "is_name name" "lookup d name = Some p"
  shows "wf (remove d p) \<and> unique (remove d p) \<and> lookup (remove d p) name = None
    \<and> (\<forall>other. is_name other \<longrightarrow> other \<noteq> name \<longrightarrow> lookup (remove d p) other = lookup d other)"
proof -
  let ?d = "remove d p"
  obtain v where v: "entries d p = Some (name, v)" using lookup_Some [OF assms(1,3,4)] by blast
  then have wf: "wf ?d" and e: "entries ?d = (entries d)(p := None)"
    using remove_entries [OF assms(1), of p] by auto
  have u: "unique ?d" using assms(2) e unfolding unique_def by (auto split: if_splits)
  have "lookup ?d other = Some q \<longleftrightarrow> other \<noteq> name \<and> lookup d other = Some q" if "is_name other" for other q
    unfolding lookup_iff [OF wf that u] lookup_iff [OF assms(1) that assms(2)] e
    using v assms(2) unfolding unique_def by auto
  then show ?thesis using wf u assms(3) by (metis not_Some_eq)
qed

end

text \<open>The directory operations as a table of names; the value is an inode number and a mode's type.\<close>

definition dir_lookup :: "'a dir_scheme \<Rightarrow> bytes \<Rightarrow> (nat \<times> nat) option" where
  "dir_lookup d name = (case tux_find_entry d name of Inl _ \<Rightarrow> None | Inr p \<Rightarrow> Some p)"

definition dir_remove :: "'a dir_scheme \<Rightarrow> nat \<times> nat \<Rightarrow> 'a dir_scheme" where
  "dir_remove d p = (case tux_delete_entry (the (d_blocks d (fst p))) (snd p) of
     Inl _ \<Rightarrow> d | Inr b \<Rightarrow> put_block d (fst p) b)"

definition dir_entries :: "'a dir_scheme \<Rightarrow> nat \<times> nat \<Rightarrow> (bytes \<times> nat \<times> nat) option" where
  "dir_entries d p = dir_map d p"

definition dir_name :: "bytes \<Rightarrow> bool" where
  "dir_name name \<longleftrightarrow> 0 < length name \<and> length name < 256"

definition mode_of_type :: "nat \<Rightarrow> nat" where
  "mode_of_type t = [0, 8, 4, 2, 6, 1, 12, 10] ! t * 2 ^ 12"

lemma type_of_mode_of_type: "t < 8 \<Longrightarrow> tux_type_of_mode (mode_of_type t) = t"
proof -
  assume "t < 8"
  then have "t \<in> {0, 1, 2, 3, 4, 5, 6, 7}" by (auto simp: eval_nat_numeral less_Suc_eq)
  then show ?thesis
    by (elim insertE emptyE)
      (simp_all add: tux_type_of_mode_def mode_of_type_def tux_type_by_mode_def)
qed

interpretation dirs: name_table wf_dir dir_entries dir_lookup
  "\<lambda>d name v. snd (tux_create_entry d name (fst v) (mode_of_type (snd v)))" dir_remove
  "\<lambda>d name v. fst v < 2 ^ 64 \<and> snd v < 8 \<and> d_size d + d_blocksize d < 2 ^ 32" dir_name
proof
  show "\<exists>v. dir_entries d p = Some (name, v)"
    if "wf_dir d" "dir_name name" "dir_lookup d name = Some p" for d :: "'a dir_scheme" and name p
  proof -
    have "name \<noteq> []" using that(2) by (auto simp: dir_name_def)
    then show ?thesis
      using find_blocks_map [OF that(1), of name 0] that(3)
      by (auto simp: dir_lookup_def tux_find_entry_def dir_entries_def split: sum.splits)
  qed
  show "dir_entries d p \<noteq> Some (name, v)"
    if "wf_dir d" "dir_name name" "dir_lookup d name = None" for d :: "'a dir_scheme" and name p v
  proof -
    have "name \<noteq> []" using that(2) by (auto simp: dir_name_def)
    then show ?thesis
      using find_blocks_map [OF that(1), of name 0] that(3)
      by (cases v; cases p) (auto simp: dir_lookup_def tux_find_entry_def dir_entries_def split: sum.splits)
  qed
  show "wf_dir (snd (tux_create_entry d name (fst v) (mode_of_type (snd v)))) \<and>
      (\<exists>p. dir_entries d p = None \<and> dir_entries (snd (tux_create_entry d name (fst v) (mode_of_type (snd v))))
        = (dir_entries d)(p \<mapsto> (name, v)))"
    if "wf_dir d" "fst v < 2 ^ 64 \<and> snd v < 8 \<and> d_size d + d_blocksize d < 2 ^ 32" "dir_name name"
    for d :: "'a dir_scheme" and name v
  proof -
    note prem = that
    obtain p d' where "tux_create_entry d name (fst v) (mode_of_type (snd v)) = (Inr (dir_pos d p), d')"
      "wf_dir d'" "dir_map d p = None"
      "dir_map d' = (dir_map d)(p \<mapsto> (name, fst v, tux_type_of_mode (mode_of_type (snd v)) mod 256))"
      using create_entry_map [OF prem(1), of name "fst v" "mode_of_type (snd v)"] prem(2,3)
      by (auto simp: dir_name_def)
    moreover have "dir_entries x = dir_map x" for x :: "'a dir_scheme"
      by (simp add: dir_entries_def fun_eq_iff)
    ultimately show ?thesis
      using prem(2) type_of_mode_of_type [of "snd v"] by (intro conjI exI [of _ p]) auto
  qed
  show "wf_dir (dir_remove d p) \<and> dir_entries (dir_remove d p) = (dir_entries d)(p := None)"
    if "wf_dir d" "dir_entries d p \<noteq> None" for d :: "'a dir_scheme" and p
  proof -
    obtain n e where p: "p = (n, e)" by (cases p)
    have "dir_entries x = dir_map x" for x :: "'a dir_scheme"
      by (simp add: dir_entries_def fun_eq_iff)
    then show ?thesis
      using delete_entry_map [OF that(1), of n e] that(2) unfolding p by (auto simp: dir_remove_def)
  qed
qed

section \<open>Emptiness and listing\<close>

definition dot_entry :: "nat \<Rightarrow> bytes \<times> nat \<times> nat \<Rightarrow> bool" where
  "dot_entry self v \<longleftrightarrow> fst v = [46] \<and> fst (snd v) = self \<or> fst v = [46, 46]"

text \<open>A live entry lies below the limit that the loops over all names use.\<close>

lemma live_within:
  assumes "recs b e es (length b)" "x \<in> set es" "\<not> is_deleted b x"
  shows "int x \<le> int (length b) - int (TUX_REC_LEN 1)"
  using seg_mem [OF assms(1,2)] assms(3) TUX_REC_LEN_mono [of 1 "de_name_len b x"]
  by (auto simp: entry_ok_def is_deleted_def)

lemma de_name_nth:
  "entry_ok b e \<Longrightarrow> i < de_name_len b e \<Longrightarrow> de_name b e ! i = b ! (e + TUX_DIR_HEAD + i)"
  using entry_okD(1,2) [of b e] by (simp add: de_name_def nth_chunk TUX_DIR_HEAD_def)

lemma dot_entry_iff:
  assumes "entry_ok b e" "\<not> is_deleted b e"
  shows "dot_entry self (de_name b e, de_inum b e, t) \<longleftrightarrow> b ! (e + TUX_DIR_HEAD) = 46 \<and>
    (de_name_len b e = 1 \<and> de_inum b e = self \<or> de_name_len b e = 2 \<and> b ! (e + TUX_DIR_HEAD + 1) = 46)"
proof -
  let ?n = "de_name b e"
  have len: "length ?n = de_name_len b e" by (rule length_de_name [OF assms(1)])
  have 0: "?n ! 0 = b ! (e + TUX_DIR_HEAD)"
    using assms de_name_nth [OF assms(1), of 0] by (simp add: is_deleted_def)
  have 1: "?n ! 1 = b ! (e + TUX_DIR_HEAD + 1)" if "de_name_len b e = 2"
    using de_name_nth [OF assms(1), of 1] that by simp
  have "?n = [46] \<longleftrightarrow> de_name_len b e = 1 \<and> ?n ! 0 = 46"
    using len by (auto simp: list_eq_iff_nth_eq)
  moreover have "?n = [46, 46] \<longleftrightarrow> de_name_len b e = 2 \<and> ?n ! 0 = 46 \<and> ?n ! 1 = 46"
    using len by (auto simp: list_eq_iff_nth_eq less_Suc_eq numeral_2_eq_2)
  ultimately show ?thesis using 0 1 by (auto simp: dot_entry_def)
qed

lemma empty_in_block_seg:
  assumes "recs b e es (length b)"
  shows "empty_in_block b self (int (length b) - int (TUX_REC_LEN 1)) e =
    (if \<forall>x\<in>set es. is_deleted b x \<or> dot_entry self (de_name b x, de_inum b x, de_type b x)
     then Inr () else Inl ENOTEMPTY)"
  using assms
proof (induction es arbitrary: e)
  case Nil
  then show ?case
    using TUX_REC_LEN_bounds(1) [of 1] by (simp add: empty_in_block.simps [of b])
next
  case (Cons y ys)
  let ?lim = "int (length b) - int (TUX_REC_LEN 1)"
  have y: "y = e" "entry_ok b e" "recs b (e + rlen b e) ys (length b)" using Cons.prems by auto
  have nx: "next_entry b e = e + rlen b e" by (simp add: next_entry_def rlen_def)
  show ?case
  proof (cases "int e \<le> ?lim")
    case False
    then have "is_deleted b x" if "x \<in> set (y # ys)" for x
      using live_within [OF Cons.prems that] seg_mem [OF Cons.prems that] by force
    then show ?thesis using False by (simp add: empty_in_block.simps [of b])
  next
    case True
    then show ?thesis
      using y entry_okD(4) [OF y(2)] nx Cons.IH [OF y(3)] dot_entry_iff [OF y(2), of self "de_type b e"]
      by (subst empty_in_block.simps) (auto simp: is_deleted_def)
  qed
qed

lemma empty_blocks_map:
  assumes "wf_dir d"
  shows "n \<le> d_nblocks d \<Longrightarrow> empty_blocks d (d_nblocks d) n =
    (if \<forall>p v. n \<le> fst p \<longrightarrow> dir_map d p = Some v \<longrightarrow> dot_entry (d_inum d) v
     then Inr () else Inl ENOTEMPTY)"
proof (induction "d_nblocks d - n" arbitrary: n)
  case 0
  then show ?case by (subst empty_blocks.simps) (auto simp: dir_map_def)
next
  case (Suc k)
  then have n: "n < d_nblocks d" by simp
  obtain b where b: "d_blocks d n = Some b" "length b = d_blocksize d" "block_ok b"
    using assms n by (rule wf_dir_block)
  have here: "(\<forall>x\<in>set (offs b 0). is_deleted b x \<or> dot_entry self (de_name b x, de_inum b x, de_type b x))
      \<longleftrightarrow> (\<forall>x v. block_map b x = Some v \<longrightarrow> dot_entry self v)" for self
    by (auto simp: block_map_def)
  have cut: "(\<forall>p v. n \<le> fst p \<longrightarrow> dir_map d p = Some v \<longrightarrow> P v) \<longleftrightarrow>
      (\<forall>x v. block_map b x = Some v \<longrightarrow> P v) \<and>
      (\<forall>p v. n + 1 \<le> fst p \<longrightarrow> dir_map d p = Some v \<longrightarrow> P v)" (is "?L \<longleftrightarrow> ?A \<and> ?B") for P
  proof
    assume l: ?L
    have "P v" if "block_map b x = Some v" for x v
      using l [rule_format, of "(n, x)" v] that n b(1) by (simp add: dir_map_def)
    moreover have ?B
    proof (intro allI impI)
      fix p v assume "n + 1 \<le> fst p" "dir_map d p = Some v"
      then show "P v" using l [rule_format, of p v] by simp
    qed
    ultimately show "?A \<and> ?B" by blast
  next
    assume r: "?A \<and> ?B"
    show ?L
    proof (intro allI impI)
      fix p v assume p: "n \<le> fst p" "dir_map d p = Some v"
      show "P v"
      proof (cases "fst p = n")
        case True
        then have "block_map b (snd p) = Some v" using p(2) b(1) by (simp add: dir_map_def split: if_splits)
        then show ?thesis using r by blast
      next
        case False
        then have "n + 1 \<le> fst p" using p(1) by linarith
        then show ?thesis using r p(2) by blast
      qed
    qed
  qed
  have "empty_blocks d (d_nblocks d) (n + 1) =
      (if \<forall>p v. n + 1 \<le> fst p \<longrightarrow> dir_map d p = Some v \<longrightarrow> dot_entry (d_inum d) v
       then Inr () else Inl ENOTEMPTY)"
    using Suc.hyps(2) n by (intro Suc.hyps(1)) auto
  then show ?case
    using n b(1) empty_in_block_seg [OF block_seg [OF b(3)], of "d_inum d"] b(2)
    unfolding cut [of "dot_entry (d_inum d)"] here
    by (subst empty_blocks.simps) (auto split: if_splits)
qed

text \<open>What a full listing hands to the callback.\<close>

definition block_list :: "nat \<Rightarrow> bytes \<Rightarrow> (bytes \<times> nat \<times> nat \<times> nat) list" where
  "block_list base b = map (\<lambda>e. (de_name b e, base + e, de_inum b e,
       if de_type b e < 8 then filetype ! de_type b e else 0)) (filter (\<lambda>e. \<not> is_deleted b e) (offs b 0))"

definition dir_list :: "'a dir_scheme \<Rightarrow> nat \<Rightarrow> (bytes \<times> nat \<times> nat \<times> nat) list" where
  "dir_list d n = concat (map (\<lambda>n. block_list (n * d_blocksize d) (the (d_blocks d n))) [n..<d_nblocks d])"

definition collect :: "(bytes \<times> nat \<times> nat \<times> nat) list filldir" where
  "collect st name pos inum type = (st @ [(name, pos, inum, type)], False)"

lemma or_base:
  assumes "wf_dir d" "e < d_blocksize d"
  shows "n * d_blocksize d OR e = n * d_blocksize d + e"
  using or_shift_disjoint [of e "d_bits d" n] assms(2) by (simp add: push_bit_eq_mult d_blocksize_def)

lemma readdir_block_seg:
  assumes "wf_dir d" "length b = d_blocksize d" "recs b e es (length b)"
    and l: "lim = int (length b) - int (TUX_REC_LEN 1)"
  shows "readdir_block collect b (n * d_blocksize d) lim e st pos
    = (Inr False, st @ map (\<lambda>e. (de_name b e, n * d_blocksize d + e, de_inum b e,
        if de_type b e < 8 then filetype ! de_type b e else 0)) (filter (\<lambda>e. \<not> is_deleted b e) es),
       pos + (length b - e))"
  using assms(3)
proof (induction es arbitrary: e st pos)
  case Nil
  then show ?case
    using TUX_REC_LEN_bounds(1) [of 1] by (simp add: readdir_block.simps [of _ b] l)
next
  case (Cons y ys)
  have y: "y = e" "entry_ok b e" "recs b (e + rlen b e) ys (length b)" using Cons.prems by auto
  note eb = entry_okD [OF y(2)]
  have "TUX_REC_LEN 1 \<le> rlen b e"
    using y(2) TUX_REC_LEN_mono [of 0 "de_name_len b e"]
    by (simp add: entry_ok_def TUX_REC_LEN_def TUX_DIR_HEAD_def)
  then have lim: "int e \<le> lim" using eb(2) unfolding l by linarith
  have e: "e < d_blocksize d" using eb assms(2) by linarith
  have nx: "next_entry b e = e + rlen b e" "tux_rec_len_from_disk (de_rec_len b e) = rlen b e"
    by (simp_all add: next_entry_def rlen_def)
  have pos: "pos + rlen b e + (length b - (e + rlen b e)) = pos + (length b - e)" using eb by linarith
  show ?case
    using lim eb(4) y(1) nx pos
    by (subst readdir_block.simps)
      (simp add: Cons.IH [OF y(3)] collect_def or_base [OF assms(1) e] de_name_def)
qed

lemma readdir_blocks_list:
  assumes wf: "wf_dir d"
  shows "n \<le> d_nblocks d \<Longrightarrow>
    readdir_blocks collect d v (d_nblocks d) n 0 False fl st =
      (None, fl\<lparr>f_pos := f_pos fl + (d_size d - n * d_blocksize d)\<rparr>, st @ dir_list d n)"
proof (induction "d_nblocks d - n" arbitrary: n fl st)
  case 0
  then have "n = d_nblocks d" by simp
  moreover have "d_nblocks d * d_blocksize d = d_size d" using d_nblocks_eq [OF wf] by blast
  ultimately show ?case
    by (simp add: readdir_blocks.simps [of _ _ _ "d_nblocks d" "d_nblocks d"] dir_list_def)
next
  case (Suc k)
  then have n: "n < d_nblocks d" by simp
  obtain b where b: "d_blocks d n = Some b" "length b = d_blocksize d" "block_ok b"
    using wf n by (rule wf_dir_block)
  have le: "n * d_blocksize d + d_blocksize d \<le> d_size d"
    using n d_nblocks_eq [OF wf] by (metis Suc_leI mult_Suc mult_le_mono1 add.commute)
  have sz: "d_size d < 2 ^ 32" using wf by (simp add: wf_dir_def)
  have w: "wrap32 (n * d_blocksize d) = n * d_blocksize d" using le sz by (simp add: wrap32_id)
  have m: "min (sub32 (d_size d) (n * d_blocksize d)) (d_blocksize d) = d_blocksize d"
    using le sz by (simp add: sub32_id)
  have dl: "dir_list d n = block_list (n * d_blocksize d) b @ dir_list d (n + 1)"
    using n b(1) by (simp add: dir_list_def upt_conv_Cons)
  have r: "readdir_block collect b (n * d_blocksize d) (int (d_blocksize d) - int (TUX_REC_LEN 1)) 0 st (f_pos fl)
      = (Inr False, st @ block_list (n * d_blocksize d) b, f_pos fl + d_blocksize d)"
    using readdir_block_seg [OF wf b(2) block_seg [OF b(3)] refl] b(2) by (simp add: block_list_def)
  let ?fl = "fl\<lparr>f_pos := f_pos fl + d_blocksize d\<rparr>"
  have "readdir_blocks collect d v (d_nblocks d) n 0 False fl st
      = readdir_blocks collect d v (d_nblocks d) (n + 1) 0 False ?fl (st @ block_list (n * d_blocksize d) b)"
    using n b(1) r by (subst readdir_blocks.simps) (simp add: w m Let_def)
  also have "\<dots> = (None, ?fl\<lparr>f_pos := f_pos ?fl + (d_size d - (n + 1) * d_blocksize d)\<rparr>,
      (st @ block_list (n * d_blocksize d) b) @ dir_list d (n + 1))"
    using Suc.hyps(2) n by (intro Suc.hyps(1)) auto
  also have "f_pos ?fl + (d_size d - (n + 1) * d_blocksize d) = f_pos fl + (d_size d - n * d_blocksize d)"
    using le by simp
  finally show ?case using dl by simp
qed

section \<open>Properties\<close>

text \<open>C24. A new entry goes to a place that held no live entry, every other entry stays what and where it
  was, the directory stays well-formed, and the returned file position is that of the entry.\<close>

theorem tux_create_entry_correct:
  assumes "wf_dir d" and "0 < length name" and "length name < 256" and "inum < 2 ^ 64"
    and "d_size d + d_blocksize d < 2 ^ 32"
  shows "\<exists>p d'. tux_create_entry d name inum mode = (Inr (dir_pos d p), d') \<and> wf_dir d'
    \<and> dir_map d p = None
    \<and> dir_map d' = (dir_map d)(p \<mapsto> (name, inum, tux_type_of_mode mode mod 256))"
  using create_entry_map [OF assms] by blast

text \<open>C25. A lookup in a well-formed directory returns an entry with the name, or \<open>ENOENT\<close> when there is
  none; it reports no other error and always ends.\<close>

theorem tux_find_entry_correct:
  assumes "wf_dir d" and "name \<noteq> []"
  shows "case tux_find_entry d name of
      Inl err \<Rightarrow> err = ENOENT \<and> (\<forall>p i t. dir_map d p \<noteq> Some (name, i, t))
    | Inr p \<Rightarrow> \<exists>i t. dir_map d p = Some (name, i, t)"
  using find_blocks_map [OF assms, of 0]
  by (cases "find_blocks d name (d_nblocks d) 0") (simp_all add: tux_find_entry_def)

text \<open>Deleting an entry removes exactly it, whether it is the first of its block or is merged into
  the entry before it, and touches the times of the directory.\<close>

theorem tux_delete_dirent_correct:
  assumes "wf_dir d" and "dir_map d (n, e) \<noteq> None"
  shows "\<exists>d'. tux_delete_dirent now d n e = (Inr (), d') \<and> wf_dir d'
    \<and> dir_map d' = (dir_map d)((n, e) := None) \<and> d_mtime d' = now \<and> d_ctime d' = now"
proof -
  obtain b b' where b: "d_blocks d n = Some b" "tux_delete_entry b e = Inr b'" "wf_dir (put_block d n b')"
    "dir_map (put_block d n b') = (dir_map d)((n, e) := None)"
    using delete_entry_map [OF assms] by blast
  let ?d = "touch_dir now (put_block d n b')"
  have f: "d_blocks ?d = d_blocks (put_block d n b')" "d_bits ?d = d_bits d" "d_size ?d = d_size d"
    by (simp_all add: touch_dir_def)
  then have g: "d_nblocks ?d = d_nblocks (put_block d n b')" "d_blocksize ?d = d_blocksize d"
    by (simp_all add: d_nblocks_def d_blocksize_def)
  have "wf_dir ?d" using b(3) unfolding wf_dir_def f g by simp
  moreover have "dir_map ?d = dir_map (put_block d n b')"
    by (simp add: dir_map_def fun_eq_iff f g)
  ultimately show ?thesis
    using b by (auto simp: tux_delete_dirent_def touch_dir_def)
qed

text \<open>C26. Where names are distinct and a name is created only after a lookup missed it, names stay
  distinct, the new name is found with its inode, and no other lookup changes; deleting the place
  a lookup returned makes the name unknown and changes no other lookup.\<close>

theorem dir_lookup_laws:
  assumes "wf_dir d" and "dirs.unique d" and "dir_name name"
    and "inum < 2 ^ 64" and "type < 8" and "d_size d + d_blocksize d < 2 ^ 32"
  shows "case dir_lookup d name of
      None \<Rightarrow> (let d' = snd (tux_create_entry d name inum (mode_of_type type))
        in dirs.unique d' \<and> (\<exists>p. dir_lookup d' name = Some p \<and> dir_map d' p = Some (name, inum, type))
          \<and> (\<forall>other. dir_name other \<and> other \<noteq> name \<longrightarrow> dir_lookup d' other = dir_lookup d other))
    | Some p \<Rightarrow> (let d' = dir_remove d p
        in dirs.unique d' \<and> dir_lookup d' name = None
          \<and> (\<forall>other. dir_name other \<and> other \<noteq> name \<longrightarrow> dir_lookup d' other = dir_lookup d other))"
proof (cases "dir_lookup d name")
  case None
  show ?thesis
    using dirs.create_unique [OF assms(1) _ assms(3,2) None, of "(inum, type)"] assms(4-6) None
    by (auto simp: Let_def dir_entries_def)
next
  case (Some p)
  then show ?thesis
    using dirs.remove_unique [OF assms(1,2,3) Some] by (simp add: Let_def)
qed

text \<open>C22. A directory is reported empty exactly when its only live entries are ``.'' with its own inode
  number and ``..''; otherwise the answer is \<open>ENOTEMPTY\<close>.\<close>

theorem tux_dir_is_empty_correct:
  assumes "wf_dir d"
  shows "tux_dir_is_empty d = (if \<forall>p v. dir_map d p = Some v \<longrightarrow> dot_entry (d_inum d) v
    then Inr () else Inl ENOTEMPTY)"
  using empty_blocks_map [OF assms, of 0] by (simp add: tux_dir_is_empty_def)

text \<open>C27. Listing an unchanged directory from position 0 hands every live entry to the callback once, in
  the order of the file, with its position and type, and leaves the position at the end.\<close>

theorem tux_readdir_lists_all:
  assumes "wf_dir d" and "f_pos fl = 0" and "f_version fl = v"
  shows "tux_readdir collect d v fl [] = (None, fl\<lparr>f_pos := d_size d\<rparr>, dir_list d 0)"
  using readdir_blocks_list [OF assms(1), of 0 v fl "[]"] assms(2,3)
  by (simp add: tux_readdir_def wrap32_def)

text \<open>When the directory has changed since the last call, the position is to be brought back to the
  start of an entry. The walk that should do it starts at the position itself, so it never moves:
  entries and position come out as if nothing had changed, even if the position now points into
  the middle of an entry.\<close>

theorem tux_readdir_revalidate_idle:
  assumes "f_pos fl < 2 ^ 32"
  shows "(case tux_readdir filldir d v fl st of (err, fl', st') \<Rightarrow> (err, f_pos fl', st'))
    = (case tux_readdir filldir d v (fl\<lparr>f_version := v\<rparr>) st of (err, fl', st') \<Rightarrow> (err, f_pos fl', st'))"
proof -
  have idle: "revalidate_walk b x (x mod d_blocksize d) = x" if "x < d_blocksize d" for b x
    using that by (simp add: revalidate_walk.simps)
  let ?n = "f_pos fl div d_blocksize d" and ?o = "f_pos fl mod d_blocksize d"
  have le: "?n * d_blocksize d \<le> f_pos fl" by (rule div_times_less_eq_dividend)
  have n: "wrap32 ?n = ?n" "wrap32 (?n * d_blocksize d) = ?n * d_blocksize d"
    "wrap32 (?n * d_blocksize d + ?o) = f_pos fl"
    using assms le_less_trans [OF le assms] le_less_trans [OF div_le_dividend assms, of "d_blocksize d"]
    by (simp_all add: wrap32_id)
  have o: "?o < d_blocksize d" by simp
  have "readdir_blocks filldir d v (d_nblocks d) ?n ?o True fl st
      = readdir_blocks filldir d v (d_nblocks d) ?n ?o False (fl\<lparr>f_version := v\<rparr>) st
      \<or> \<not> ?n < d_nblocks d \<or> d_blocks d ?n = None"
    using n idle [OF o]
    by (subst (1 2) readdir_blocks.simps)
      (auto simp: Let_def cong: option.case_cong sum.case_cong prod.case_cong if_cong)
  then have eq: "(case readdir_blocks filldir d v (d_nblocks d) ?n ?o True fl st of (err, fl', st') \<Rightarrow> (err, f_pos fl', st'))
      = (case readdir_blocks filldir d v (d_nblocks d) ?n ?o False (fl\<lparr>f_version := v\<rparr>) st of
          (err, fl', st') \<Rightarrow> (err, f_pos fl', st'))"
    by (elim disjE) (simp_all add: readdir_blocks.simps [of _ _ _ "d_nblocks d" ?n])
  show ?thesis
  proof (cases "f_version fl = v")
    case True
    then have "fl\<lparr>f_version := v\<rparr> = fl" by (cases fl) simp
    then show ?thesis by simp
  next
    case False
    then show ?thesis using eq by (simp add: tux_readdir_def n(1) Let_def)
  qed
qed

text \<open>A directory of one block of 512 bytes, as it is after its first creation, for the witnesses.\<close>

definition demo_dir :: dir where
  "demo_dir = \<lparr>d_inum = 13, d_bits = 9, d_size = 0, d_blocks = Map.empty,
     d_mtime = \<lparr>tv_sec = 0, tv_nsec = 0\<rparr>, d_ctime = \<lparr>tv_sec = 0, tv_nsec = 0\<rparr>\<rparr>"

lemma demo_dir_wf: "wf_dir demo_dir" "dirs.unique demo_dir" "d_size demo_dir + d_blocksize demo_dir < 2 ^ 32"
  "dir_map demo_dir p = None"
proof -
  have n: "d_nblocks demo_dir = 0" by (simp add: d_nblocks_def demo_dir_def wrap32_def)
  then show "wf_dir demo_dir" by (simp add: wf_dir_def) (simp add: demo_dir_def)
  show e: "dir_map demo_dir p = None" for p by (simp add: dir_map_def n)
  then show "dirs.unique demo_dir" by (simp add: dirs.unique_def dir_entries_def)
  show "d_size demo_dir + d_blocksize demo_dir < 2 ^ 32" by (simp add: demo_dir_def d_blocksize_def)
qed

theorem tux_create_entry_correct_witness:
  "\<exists>p d'. tux_create_entry demo_dir [97, 98] 20 0x81a4 = (Inr (dir_pos demo_dir p), d') \<and> wf_dir d'
    \<and> dir_map d' = [p \<mapsto> ([97, 98], 20, 1)]"
proof -
  have t: "tux_type_of_mode 0x81a4 = 1" by (simp add: tux_type_of_mode_def tux_type_by_mode_def)
  have e: "dir_map demo_dir = Map.empty" using demo_dir_wf(4) by (simp add: fun_eq_iff)
  show ?thesis
    using tux_create_entry_correct [OF demo_dir_wf(1) _ _ _ demo_dir_wf(3), where name = "[97, 98]" and inum = 20 and mode = "0x81a4"]
    by (simp add: t e)
qed

lemma demo_dir_one:
  "\<exists>(d :: dir) p. wf_dir d \<and> dirs.unique d \<and> dir_map d = [p \<mapsto> ([97, 98], 20, 1)] \<and> d_size d + d_blocksize d < 2 ^ 32"
proof -
  have t: "tux_type_of_mode 0x81a4 = 1" by (simp add: tux_type_of_mode_def tux_type_by_mode_def)
  have e: "dir_map demo_dir = Map.empty" using demo_dir_wf(4) by (simp add: fun_eq_iff)
  have "\<exists>p d'. tux_create_entry demo_dir [97, 98] 20 0x81a4 = (Inr (dir_pos demo_dir p), d') \<and> wf_dir d'
    \<and> d_blocksize d' = d_blocksize demo_dir \<and> d_size d' \<le> d_size demo_dir + d_blocksize demo_dir
    \<and> dir_map demo_dir p = None
    \<and> dir_map d' = (dir_map demo_dir)(p \<mapsto> ([97, 98], 20, tux_type_of_mode 0x81a4 mod 256))"
    by (rule create_entry_map [OF demo_dir_wf(1) _ _ _ demo_dir_wf(3)]) simp_all
  then obtain p and d' :: dir where d: "wf_dir d'" "d_blocksize d' = d_blocksize demo_dir"
    "d_size d' \<le> d_size demo_dir + d_blocksize demo_dir"
    "dir_map d' = (dir_map demo_dir)(p \<mapsto> ([97, 98], 20, tux_type_of_mode 0x81a4 mod 256))"
    by blast
  have "d_size d' + d_blocksize d' < 2 ^ 32" using d(2,3) by (simp add: demo_dir_def d_blocksize_def)
  moreover have m: "dir_map d' = [p \<mapsto> ([97, 98], 20, 1)]" using d(4) by (simp add: t e)
  moreover have "dirs.unique d'" using m by (auto simp: dirs.unique_def dir_entries_def split: if_splits)
  ultimately show ?thesis using d by blast
qed

theorem tux_find_entry_correct_witness:
  "tux_find_entry demo_dir [97, 98] = Inl ENOENT \<and>
    (\<exists>(d :: dir) p. wf_dir d \<and> tux_find_entry d [97, 98] = Inr p)"
proof
  show "tux_find_entry demo_dir [97, 98] = Inl ENOENT"
    using tux_find_entry_correct [OF demo_dir_wf(1), of "[97, 98]"] demo_dir_wf(4)
    by (auto split: sum.splits)
  obtain d :: dir and p where d: "wf_dir d" "dir_map d = [p \<mapsto> ([97, 98], 20, 1)]" using demo_dir_one by blast
  show "\<exists>(d :: dir) p. wf_dir d \<and> tux_find_entry d [97, 98] = Inr p"
  proof (cases "tux_find_entry d [97, 98]")
    case (Inl err)
    then have "\<forall>q i t. dir_map d q \<noteq> Some ([97, 98], i, t)"
      using tux_find_entry_correct [OF d(1), of "[97, 98]"] by simp
    then show ?thesis using d(2) by (metis fun_upd_same)
  next
    case (Inr q)
    then show ?thesis using d(1) by blast
  qed
qed

theorem tux_delete_dirent_correct_witness:
  "\<exists>(d :: dir) n e d'. tux_delete_dirent \<lparr>tv_sec = 9, tv_nsec = 0\<rparr> d n e = (Inr (), d') \<and> dir_map d' = Map.empty"
proof -
  obtain d :: dir and p where d: "wf_dir d" "dir_map d = [p \<mapsto> ([97, 98], 20, 1)]" using demo_dir_one by blast
  obtain n e where p: "p = (n, e)" by (cases p)
  obtain d' where "tux_delete_dirent \<lparr>tv_sec = 9, tv_nsec = 0\<rparr> d n e = (Inr (), d')"
    "dir_map d' = (dir_map d)((n, e) := None)"
    using tux_delete_dirent_correct [OF d(1), of n e] d(2) p by auto
  moreover have "(dir_map d)((n, e) := None) = Map.empty" using d(2) p by simp
  ultimately show ?thesis by metis
qed

theorem dir_lookup_laws_witness:
  "\<exists>p. dir_lookup (snd (tux_create_entry demo_dir [97, 98] 20 (mode_of_type 1))) [97, 98] = Some p"
proof -
  have "dir_lookup demo_dir [97, 98] = None"
  proof (cases "dir_lookup demo_dir [97, 98]")
    case (Some p)
    then show ?thesis
      using dirs.lookup_Some [OF demo_dir_wf(1) _ Some] demo_dir_wf(4)
      by (simp add: dir_name_def dir_entries_def)
  qed
  then show ?thesis
    using dir_lookup_laws [OF demo_dir_wf(1,2) _ _ _ demo_dir_wf(3), of "[97, 98]" 20 1]
    by (auto simp: dir_name_def Let_def)
qed

theorem tux_dir_is_empty_correct_witness:
  "tux_dir_is_empty demo_dir = Inr () \<and> (\<exists>d :: dir. tux_dir_is_empty d = Inl ENOTEMPTY)"
proof
  show "tux_dir_is_empty demo_dir = Inr ()"
    using tux_dir_is_empty_correct [OF demo_dir_wf(1)] demo_dir_wf(4) by auto
  obtain d :: dir and p where d: "wf_dir d" "dir_map d = [p \<mapsto> ([97, 98], 20, 1)]" using demo_dir_one by blast
  show "\<exists>d :: dir. tux_dir_is_empty d = Inl ENOTEMPTY"
    using tux_dir_is_empty_correct [OF d(1)] d(2)
    by (cases p) (auto intro!: exI [of _ d] simp: dot_entry_def)
qed

theorem tux_readdir_lists_all_witness:
  "tux_readdir collect demo_dir 4 \<lparr>f_pos = 0, f_version = 4\<rparr> [] = (None, \<lparr>f_pos = 0, f_version = 4\<rparr>, [])"
  using tux_readdir_lists_all [OF demo_dir_wf(1), of "\<lparr>f_pos = 0, f_version = 4\<rparr>" 4]
  by (simp add: dir_list_def d_nblocks_def wrap32_def) (simp add: demo_dir_def)

theorem tux_readdir_revalidate_idle_witness:
  "(case tux_readdir collect demo_dir 4 \<lparr>f_pos = 24, f_version = 3\<rparr> [] of (err, fl', st') \<Rightarrow> (err, f_pos fl', st'))
    = (case tux_readdir collect demo_dir 4 \<lparr>f_pos = 24, f_version = 4\<rparr> [] of (err, fl', st') \<Rightarrow> (err, f_pos fl', st'))"
  using tux_readdir_revalidate_idle [of "\<lparr>f_pos = 24, f_version = 3\<rparr>" collect demo_dir 4] by simp

end
