(* ===== verification/Tux_Xattr.thy ===== *)
theory Tux_Xattr
  imports Tux_Dir
begin

text \<open>
  Extended attributes, \<open>kernel/xattr.c\<close>: the atom table, which gives each attribute name a
  number and counts its uses, and the attribute cache of an inode. The atom table is one file:
  its directory blocks (\<open>d_size\<close> is \<open>sb->dictsize\<close>), the reference counts at \<open>atomref_base\<close>
  and the reverse map at \<open>unatom_base\<close> are blocks of the same map \<open>d_blocks\<close>. An outer
  \<open>None\<close> is a failed assertion or the use of a block that could not be read. Allocating memory
  does not fail in the model.
\<close>

section \<open>The atom table\<close>

record atoms =
  atable :: dir
  atomref_base :: nat
  unatom_base :: nat
  freeatom :: nat
  atomgen :: nat

text \<open>\<open>atom_t\<close> is \<open>u32\<close>; minus one stands for no atom.\<close>

definition no_atom :: nat where "no_atom = 2 ^ 32 - 1"

definition ablock :: "atoms \<Rightarrow> nat \<Rightarrow> bytes option" where
  "ablock s n = d_blocks (atable s) n"

definition put_ablock :: "atoms \<Rightarrow> nat \<Rightarrow> bytes \<Rightarrow> atoms" where
  "put_ablock s n b = s\<lparr>atable := put_block (atable s) n b\<rparr>"

definition entry_atom :: "bytes \<Rightarrow> nat \<Rightarrow> nat" where
  "entry_atom b e = wrap32 (de_inum b e)"

text \<open>\<open>blockread_unatom\<close>: the block of the reverse map and the index in it.\<close>

definition unatom_block :: "atoms \<Rightarrow> nat \<Rightarrow> nat" where
  "unatom_block s atom = wrap32 (unatom_base s + atom div 2 ^ (d_bits (atable s) - 3))"

definition unatom_offset :: "atoms \<Rightarrow> nat \<Rightarrow> nat" where
  "unatom_offset s atom = atom mod 2 ^ (d_bits (atable s) - 3)"

text \<open>The name of an atom; \<open>sz\<close> is the room for it, 0 when only its length is asked for.\<close>

definition unatom :: "atoms \<Rightarrow> nat \<Rightarrow> nat \<Rightarrow> errno + bytes" where
  "unatom s atom sz =
     (case ablock s (unatom_block s atom) of
        None \<Rightarrow> Inl ENOMEM
      | Some b \<Rightarrow>
          (let pos = load64 b (8 * unatom_offset s atom);
               bs = d_blocksize (atable s)
           in case ablock s (pos div bs) of
                None \<Rightarrow> Inl ENOMEM
              | Some b \<Rightarrow>
                  (let entry = pos mod bs
                   in if entry_atom b entry \<noteq> atom then Inl EINVAL
                      else
                        let len = de_name_len b entry
                        in if sz \<noteq> 0 \<and> len > sz then Inl ERANGE
                           else Inr (chunk (entry + TUX_DIR_HEAD) len b))))"

definition get_freeatom :: "atoms \<Rightarrow> nat \<times> atoms" where
  "get_freeatom s =
     (let atom = freeatom s
      in if atom = 0 then (atomgen s, s\<lparr>atomgen := wrap32 (atomgen s + 1)\<rparr>)
         else
           case ablock s (unatom_block s atom) of
             None \<Rightarrow> (no_atom, s)
           | Some b \<Rightarrow>
               (let next = load64 b (8 * unatom_offset s atom)
                in if next div 2 ^ 48 \<noteq> 0xdead then (no_atom, s)
                   else (atom, s\<lparr>freeatom := wrap32 (next mod 2 ^ 48)\<rparr>)))"

text \<open>The free list, as \<open>show_freeatoms\<close> prints it, for at most \<open>fuel\<close> atoms.\<close>

fun show_freeatoms :: "nat \<Rightarrow> atoms \<Rightarrow> nat \<Rightarrow> nat list option" where
  "show_freeatoms 0 s atom = None"
| "show_freeatoms (Suc fuel) s atom =
     (if atom = 0 then Some []
      else
        case ablock s (unatom_block s atom) of
          None \<Rightarrow> None
        | Some b \<Rightarrow>
            (let next = load64 b (8 * unatom_offset s atom)
             in if next div 2 ^ 48 \<noteq> 0xdead then None
                else map_option ((#) atom) (show_freeatoms fuel s (wrap32 (next mod 2 ^ 48)))))"

text \<open>Where the reference count of an atom lies: the block of low halves and the index.\<close>

definition atomref_block :: "atoms \<Rightarrow> nat \<Rightarrow> nat" where
  "atomref_block s atom = wrap32 (atomref_base s + 2 * (atom div 2 ^ (d_bits (atable s) - 1)))"

definition atomref_offset :: "atoms \<Rightarrow> nat \<Rightarrow> nat" where
  "atomref_offset s atom = atom mod 2 ^ (d_bits (atable s) - 1)"

text \<open>An atom whose count reached zero goes to the free list and leaves the dictionary.\<close>

definition kill_atom :: "atoms \<Rightarrow> nat \<Rightarrow> ((errno + unit) \<times> atoms) option" where
  "kill_atom s atom =
     (case ablock s (unatom_block s atom) of
        None \<Rightarrow> Some (Inl EPERM, s)
      | Some b \<Rightarrow>
          (let p = 8 * unatom_offset s atom;
               pos = load64 b p;
               bs = d_blocksize (atable s);
               s = put_ablock s (unatom_block s atom)
                     (store64 b p (freeatom s OR 0xdead * 2 ^ 48));
               s = s\<lparr>freeatom := atom\<rparr>
           in case ablock s (pos div bs) of
                None \<Rightarrow> None
              | Some b \<Rightarrow>
                  (let entry = pos mod bs
                   in if entry_atom b entry = atom then
                        (case tux_delete_entry b entry of
                           Inl _ \<Rightarrow> Some (Inr (), s)
                         | Inr b \<Rightarrow> Some (Inr (), put_ablock s (pos div bs) b))
                      else Some (Inr (), s))))"

definition use_atom :: "atoms \<Rightarrow> nat \<Rightarrow> int \<Rightarrow> ((errno + unit) \<times> atoms) option" where
  "use_atom s atom use =
     (let block = atomref_block s atom;
          p = 2 * atomref_offset s atom
      in case ablock s block of
           None \<Rightarrow> Some (Inl EIO, s)
         | Some b \<Rightarrow>
             (let low = int (load16 b p) + use;
                  s = put_ablock s block (store16 b p (nat (low mod 2 ^ 16)))
              in if low = 0 \<or> low div 2 ^ 16 \<noteq> 0 then
                   case ablock s (wrap32 (block + 1)) of
                     None \<Rightarrow> Some (Inl EIO, s)
                   | Some b \<Rightarrow>
                       (let high = int (load16 b p) + low div 2 ^ 16;
                            s = put_ablock s (wrap32 (block + 1)) (store16 b p (nat (high mod 2 ^ 16)))
                        in if low = 0 \<and> high = 0 then kill_atom s atom else Some (Inr (), s))
                 else Some (Inr (), s)))"

definition find_atom :: "atoms \<Rightarrow> bytes \<Rightarrow> nat" where
  "find_atom s name =
     (case tux_find_entry (atable s) name of
        Inl _ \<Rightarrow> no_atom
      | Inr (n, e) \<Rightarrow> (case ablock s n of None \<Rightarrow> no_atom | Some b \<Rightarrow> entry_atom b e))"

definition make_atom :: "atoms \<Rightarrow> bytes \<Rightarrow> nat \<times> atoms" where
  "make_atom s name =
     (let atom = find_atom s name
      in if atom \<noteq> no_atom then (atom, s)
         else
           let (atom, s) = get_freeatom s
           in case tux_create_entry (atable s) name atom 0 of
                (Inl _, d) \<Rightarrow> (no_atom, s\<lparr>atable := d\<rparr>)
              | (Inr pos, d) \<Rightarrow>
                  (let s = s\<lparr>atable := d\<rparr>
                   in case ablock s (unatom_block s atom) of
                        None \<Rightarrow> (no_atom, s)
                      | Some b \<Rightarrow>
                          (atom, put_ablock s (unatom_block s atom)
                             (store64 b (8 * unatom_offset s atom) pos))))"

section \<open>The attribute cache\<close>

text \<open>The index of the entry that is found, or the error.\<close>

fun xcache_search :: "nat \<Rightarrow> nat \<Rightarrow> xattr list \<Rightarrow> nat \<Rightarrow> nat \<Rightarrow> (errno + nat) option" where
  "xcache_search limit atom xs pos i =
     (if pos < limit then
        case xs of [] \<Rightarrow> None
        | x # xs' \<Rightarrow>
            if xatom x = atom then Some (Inr i)
            else if pos + xattr_bytes x > limit then Some (Inl EINVAL)
            else xcache_search limit atom xs' (pos + xattr_bytes x) (i + 1)
      else do { c_assert (pos = limit); Some (Inl ENOATTR) })"

declare xcache_search.simps [simp del]

definition xcache_lookup :: "xcache option \<Rightarrow> nat \<Rightarrow> (errno + nat) option" where
  "xcache_lookup xc atom =
     (case xc of
        None \<Rightarrow> Some (Inl ENOATTR)
      | Some xc \<Rightarrow> xcache_search (xc_size xc) atom (xattrs xc) 4 0)"

definition remove_old :: "xcache \<Rightarrow> nat \<Rightarrow> xcache" where
  "remove_old xc i = xc\<lparr>xc_size := nat ((int (xc_size xc) - int (xattr_bytes (xattrs xc ! i))) mod 2 ^ 16),
     xattrs := take i (xattrs xc) @ drop (i + 1) (xattrs xc)\<rparr>"

definition XATTR_CREATE :: nat where "XATTR_CREATE = 0"
definition XATTR_REPLACE :: nat where "XATTR_REPLACE = 1"

text \<open>The code from the comment \<open>Insert new\<close> on, up to the entry of the atom.\<close>

definition xcache_insert :: "xcache option \<Rightarrow> nat \<Rightarrow> bytes \<Rightarrow> xcache" where
  "xcache_insert xc atom data =
     (let len = length data;
          grow = 4 + len;
          xc = (case xc of
             Some xc \<Rightarrow>
               if xc_size xc + grow > xc_max xc
               then (new_xcache (xc_size xc + max grow (xc_max xc)))
                      \<lparr>xc_size := xc_size xc, xattrs := xattrs xc\<rparr>
               else xc
           | None \<Rightarrow> new_xcache (4 + max grow (2 ^ 7)))
      in xc\<lparr>xc_size := (xc_size xc + grow) mod 2 ^ 16,
            xattrs := xattrs xc @ [\<lparr>xatom = atom mod 2 ^ 16, body = take (len mod 2 ^ 16) data\<rparr>]\<rparr>)"

definition update_xcache ::
  "inode \<Rightarrow> atoms \<Rightarrow> nat \<Rightarrow> bytes \<Rightarrow> nat \<Rightarrow> ((errno + unit) \<times> inode \<times> atoms) option" where
  "update_xcache ino s atom data flags = do {
     found \<leftarrow> xcache_lookup (xcache ino) atom;
     case found of
       Inl err \<Rightarrow>
         if err \<noteq> ENOATTR \<or> bit flags XATTR_REPLACE then Some (Inl err, ino, s)
         else do {
           let ino = ino\<lparr>xcache := Some (xcache_insert (xcache ino) atom data)\<rparr>;
           (_, s) \<leftarrow> use_atom s atom 1;
           Some (Inr (), ino, s) }
     | Inr i \<Rightarrow>
         if bit flags XATTR_CREATE then Some (Inl EEXIST, ino, s)
         else do {
           let xc = remove_old (the (xcache ino)) i;
           let ino = ino\<lparr>xcache := Some (xcache_insert (Some xc) atom data)\<rparr>;
           Some (Inr (), ino, s) } }"

text \<open>The length and the bytes that were copied; \<open>sz\<close> is the room the caller has.\<close>

definition get_xattr :: "inode \<Rightarrow> atoms \<Rightarrow> bytes \<Rightarrow> nat \<Rightarrow> (errno + nat \<times> bytes) option" where
  "get_xattr ino s name sz =
     (let atom = find_atom s name
      in if atom = no_atom then Some (Inl ENOATTR)
         else do {
           found \<leftarrow> xcache_lookup (xcache ino) atom;
           case found of
             Inl err \<Rightarrow> Some (Inl err)
           | Inr i \<Rightarrow>
               (let data = body (xattrs (the (xcache ino)) ! i)
                in if length data \<le> sz then Some (Inr (length data, data))
                   else if sz \<noteq> 0 then Some (Inl ERANGE)
                   else Some (Inr (length data, []))) })"

definition set_xattr ::
  "inode \<Rightarrow> atoms \<Rightarrow> bytes \<Rightarrow> bytes \<Rightarrow> nat \<Rightarrow> ((errno + unit) \<times> inode \<times> atoms) option" where
  "set_xattr ino s name data flags =
     (let (atom, s) = make_atom s name
      in if atom \<noteq> no_atom then update_xcache ino s atom data flags
         else Some (Inl EINVAL, ino, s))"

definition del_xattr :: "inode \<Rightarrow> atoms \<Rightarrow> bytes \<Rightarrow> ((errno + unit) \<times> inode \<times> atoms) option" where
  "del_xattr ino s name =
     (let atom = find_atom s name
      in if atom = no_atom then Some (Inl ENOATTR, ino, s)
         else do {
           found \<leftarrow> xcache_lookup (xcache ino) atom;
           case found of
             Inl err \<Rightarrow> Some (Inl err, ino, s)
           | Inr i \<Rightarrow> do {
               let ino = ino\<lparr>xcache := Some (remove_old (the (xcache ino)) i)\<rparr>;
               (_, s) \<leftarrow> use_atom s atom (- 1);
               Some (Inr (), ino, s) } })"

text \<open>
  \<open>xattr_list\<close>: the bytes written to \<open>text\<close> so far; with \<open>sz = 0\<close> they only stand for the
  length. \<open>unatom\<close> is called with the room that is left. The walk over the cache is the one of
  \<open>xcache_search\<close>. The result is the number of bytes, or the error.
\<close>

fun xattr_list_loop ::
  "atoms \<Rightarrow> nat \<Rightarrow> nat \<Rightarrow> xattr list \<Rightarrow> nat \<Rightarrow> bytes \<Rightarrow> (errno + bytes) option" where
  "xattr_list_loop s sz limit xs pos text =
     (if pos < limit then
        case xs of [] \<Rightarrow> None
        | x # xs' \<Rightarrow>
            (let atom = xatom x; tail = sz - length text
             in case unatom s atom (if sz \<noteq> 0 then tail else 0) of
                  Inl _ \<Rightarrow> if sz \<noteq> 0 then Some (Inr text) else None
                | Inr name \<Rightarrow>
                    if sz \<noteq> 0 \<and> length name = tail then Some (Inr text)
                    else if pos + xattr_bytes x > limit then Some (Inl EINVAL)
                    else xattr_list_loop s sz limit xs' (pos + xattr_bytes x) (text @ name @ [0]))
      else do { c_assert (pos = limit); Some (Inr text) })"

declare xattr_list_loop.simps [simp del]

definition xattr_list :: "inode \<Rightarrow> atoms \<Rightarrow> nat \<Rightarrow> (errno + bytes) option" where
  "xattr_list ino s sz =
     (case xcache ino of
        None \<Rightarrow> Some (Inr [])
      | Some xc \<Rightarrow> xattr_list_loop s sz (xc_size xc) (xattrs xc) 4 [])"

section \<open>The layout of the tables\<close>

text \<open>
  The directory, the reference counts and the reverse map occupy separate ranges of the file, the
  blocks of the two tables can be read for every 32-bit atom, as in a sparse file.
\<close>

definition table_end :: "atoms \<Rightarrow> nat" where
  "table_end s = unatom_base s + 2 ^ (35 - d_bits (atable s))"

definition atoms_layout :: "atoms \<Rightarrow> bool" where
  "atoms_layout s \<longleftrightarrow> wf_dir (atable s) \<and> d_nblocks (atable s) < atomref_base s
     \<and> atomref_base s + 2 ^ (34 - d_bits (atable s)) \<le> unatom_base s \<and> table_end s \<le> 2 ^ 32
     \<and> (\<forall>n. atomref_base s \<le> n \<and> n < table_end s \<longrightarrow>
          (\<exists>b. ablock s n = Some b \<and> length b = d_blocksize (atable s)))"

definition atom_where :: "atoms \<Rightarrow> nat \<Rightarrow> nat" where
  "atom_where s a = load64 (the (ablock s (unatom_block s a))) (8 * unatom_offset s a)"

definition atom_refs :: "atoms \<Rightarrow> nat \<Rightarrow> nat" where
  "atom_refs s a = load16 (the (ablock s (atomref_block s a + 1))) (2 * atomref_offset s a) * 65536
     + load16 (the (ablock s (atomref_block s a))) (2 * atomref_offset s a)"

lemma div_pow_less: "a < 2 ^ (m + n) \<Longrightarrow> a div 2 ^ n < (2 :: nat) ^ m"
  by (rule less_mult_imp_div_less) (simp add: power_add)

lemma layout_bits: "atoms_layout s \<Longrightarrow> 9 \<le> d_bits (atable s) \<and> d_bits (atable s) \<le> 15"
  by (simp add: atoms_layout_def wf_dir_def)

lemma unatom_place:
  assumes "atoms_layout s" "a < 2 ^ 32"
  shows "unatom_block s a = unatom_base s + a div 2 ^ (d_bits (atable s) - 3)"
    "unatom_base s \<le> unatom_block s a" "unatom_block s a < table_end s"
    "8 * unatom_offset s a + 8 \<le> d_blocksize (atable s)"
proof -
  note b = layout_bits [OF assms(1)]
  have "a div 2 ^ (d_bits (atable s) - 3) < 2 ^ (35 - d_bits (atable s))"
    using assms(2) b by (intro div_pow_less) simp
  moreover have "table_end s \<le> 2 ^ 32" using assms(1) by (simp add: atoms_layout_def)
  ultimately show *: "unatom_block s a = unatom_base s + a div 2 ^ (d_bits (atable s) - 3)"
    "unatom_base s \<le> unatom_block s a" "unatom_block s a < table_end s"
    by (simp_all add: unatom_block_def table_end_def wrap32_id)
  have "unatom_offset s a < 2 ^ (d_bits (atable s) - 3)" by (simp add: unatom_offset_def)
  moreover have "d_blocksize (atable s) = 8 * 2 ^ (d_bits (atable s) - 3)"
    using b power_add [of "2 :: nat" 3 "d_bits (atable s) - 3"] by (simp add: d_blocksize_def)
  ultimately show "8 * unatom_offset s a + 8 \<le> d_blocksize (atable s)" by simp
qed

lemma atomref_place:
  assumes "atoms_layout s" "a < 2 ^ 32"
  shows "atomref_block s a = atomref_base s + 2 * (a div 2 ^ (d_bits (atable s) - 1))"
    "atomref_base s \<le> atomref_block s a" "atomref_block s a + 1 < unatom_base s"
    "2 * atomref_offset s a + 2 \<le> d_blocksize (atable s)"
    "wrap32 (atomref_block s a + 1) = atomref_block s a + 1"
proof -
  note b = layout_bits [OF assms(1)]
  have "a div 2 ^ (d_bits (atable s) - 1) < 2 ^ (33 - d_bits (atable s))"
    using assms(2) b by (intro div_pow_less) simp
  moreover have "(2 :: nat) ^ (34 - d_bits (atable s)) = 2 * 2 ^ (33 - d_bits (atable s))"
  proof -
    have "34 - d_bits (atable s) = Suc (33 - d_bits (atable s))" using b by linarith
    then show ?thesis by simp
  qed
  moreover have "table_end s \<le> 2 ^ 32" "unatom_base s < table_end s"
    "atomref_base s + 2 ^ (34 - d_bits (atable s)) \<le> unatom_base s"
    using assms(1) by (simp_all add: atoms_layout_def table_end_def)
  ultimately show *: "atomref_block s a = atomref_base s + 2 * (a div 2 ^ (d_bits (atable s) - 1))"
    "atomref_base s \<le> atomref_block s a" "atomref_block s a + 1 < unatom_base s"
    "wrap32 (atomref_block s a + 1) = atomref_block s a + 1"
    by (simp_all add: atomref_block_def wrap32_id)
  have "atomref_offset s a < 2 ^ (d_bits (atable s) - 1)" by (simp add: atomref_offset_def)
  moreover have "d_blocksize (atable s) = 2 * 2 ^ (d_bits (atable s) - 1)"
    using b power_Suc [of "2 :: nat" "d_bits (atable s) - 1"] by (simp add: d_blocksize_def)
  ultimately show "2 * atomref_offset s a + 2 \<le> d_blocksize (atable s)" by simp
qed

lemma same_place:
  assumes "x div m = y div m" "x mod m = y mod (m :: nat)"
  shows "x = y"
  using assms by (metis div_mult_mod_eq)

lemma layout_block:
  assumes "atoms_layout s" "atomref_base s \<le> n" "n < table_end s"
  obtains b where "ablock s n = Some b" "length b = d_blocksize (atable s)"
  using assms by (auto simp: atoms_layout_def)

lemma put_ablock_simps [simp]:
  "atomref_base (put_ablock s n b) = atomref_base s" "unatom_base (put_ablock s n b) = unatom_base s"
  "freeatom (put_ablock s n b) = freeatom s" "atomgen (put_ablock s n b) = atomgen s"
  "d_bits (atable (put_ablock s n b)) = d_bits (atable s)"
  "d_blocksize (atable (put_ablock s n b)) = d_blocksize (atable s)"
  "d_nblocks (atable (put_ablock s n b)) = d_nblocks (atable s)"
  "d_size (atable (put_ablock s n b)) = d_size (atable s)"
  "table_end (put_ablock s n b) = table_end s"
  "unatom_block (put_ablock s n b) = unatom_block s" "unatom_offset (put_ablock s n b) = unatom_offset s"
  "atomref_block (put_ablock s n b) = atomref_block s" "atomref_offset (put_ablock s n b) = atomref_offset s"
  "ablock (put_ablock s n b) m = (if m = n then Some b else ablock s m)"
  by (simp_all add: put_ablock_def table_end_def unatom_block_def [abs_def] unatom_offset_def [abs_def]
      atomref_block_def [abs_def] atomref_offset_def [abs_def] ablock_def)

lemma put_table_layout:
  assumes "atoms_layout s" "atomref_base s \<le> n" "length b = d_blocksize (atable s)"
  shows "atoms_layout (put_ablock s n b)" "dir_map (atable (put_ablock s n b)) = dir_map (atable s)"
proof -
  have n: "d_nblocks (atable s) < n" using assms by (simp add: atoms_layout_def)
  have d: "d_blocks (atable (put_ablock s n b)) m = d_blocks (atable s) m" if "m < d_nblocks (atable s)" for m
    using that n by (simp add: put_ablock_def)
  have "wf_dir (atable (put_ablock s n b))"
    using assms(1) d unfolding atoms_layout_def wf_dir_def by simp
  then show "atoms_layout (put_ablock s n b)"
    using assms(1,3) unfolding atoms_layout_def by auto
  show "dir_map (atable (put_ablock s n b)) = dir_map (atable s)"
    using d by (simp add: dir_map_def fun_eq_iff)
qed


lemma odd_even: "b + 2 * x \<noteq> b + 2 * y + 1" "b + 2 * x + 1 \<noteq> b + 2 * (y :: nat)"
  by presburger+

text \<open>Writing a slot of the reverse map changes that slot only.\<close>

lemma put_where:
  fixes v :: nat
  assumes "atoms_layout s" "a < 2 ^ 32" "ablock s (unatom_block s a) = Some b"
  defines "s' \<equiv> put_ablock s (unatom_block s a) (store64 b (8 * unatom_offset s a) v)"
  shows "atoms_layout s'" "dir_map (atable s') = dir_map (atable s)"
    "c < 2 ^ 32 \<Longrightarrow> atom_where s' c = (if c = a then v mod 2 ^ 64 else atom_where s c)"
    "c < 2 ^ 32 \<Longrightarrow> atom_refs s' c = atom_refs s c"
proof -
  note p = unatom_place [OF assms(1,2)]
  have base: "atomref_base s \<le> unatom_base s" using assms(1) by (simp add: atoms_layout_def)
  have len: "length b = d_blocksize (atable s)"
    using layout_block [OF assms(1) le_trans [OF base p(2)] p(3)] assms(3) by auto
  show "atoms_layout s'" "dir_map (atable s') = dir_map (atable s)"
    unfolding s'_def using base p len
    by (auto intro!: put_table_layout assms(1) simp: mem_simps)
  show "atom_where s' c = (if c = a then v mod 2 ^ 64 else atom_where s c)" if c: "c < 2 ^ 32"
  proof (cases "unatom_block s c = unatom_block s a")
    case True
    note q = unatom_place [OF assms(1) c]
    have "c \<noteq> a \<Longrightarrow> unatom_offset s c \<noteq> unatom_offset s a"
      using True p(1) q(1) same_place [of c _ a] by (auto simp: unatom_offset_def)
    then have "c \<noteq> a \<Longrightarrow> 8 * unatom_offset s c + 8 \<le> 8 * unatom_offset s a
      \<or> 8 * unatom_offset s a + 8 \<le> 8 * unatom_offset s c" by arith
    then have "c \<noteq> a \<Longrightarrow> load64 (store64 b (8 * unatom_offset s a) v) (8 * unatom_offset s c)
        = load64 b (8 * unatom_offset s c)"
      using p(4) q(4) len unfolding store64_def by (intro load64_blit_other) auto
    then show ?thesis
      using True assms(3) p(4) len by (auto simp: atom_where_def s'_def load64_store64)
  qed (auto simp: atom_where_def s'_def)
  show "atom_refs s' c = atom_refs s c" if c: "c < 2 ^ 32"
  proof -
    note q = atomref_place [OF assms(1) c]
    have "atomref_block s c \<noteq> unatom_block s a" "atomref_block s c + 1 \<noteq> unatom_block s a"
      using q p(2) by linarith+
    then show ?thesis by (simp add: atom_refs_def s'_def)
  qed
qed

text \<open>Writing one half of a reference count changes that half only.\<close>

lemma put_refs:
  fixes v :: nat
  assumes "atoms_layout s" "a < 2 ^ 32" "h < 2" "ablock s (atomref_block s a + h) = Some b"
  defines "s' \<equiv> put_ablock s (atomref_block s a + h) (store16 b (2 * atomref_offset s a) v)"
  shows "atoms_layout s'" "dir_map (atable s') = dir_map (atable s)"
    "c < 2 ^ 32 \<Longrightarrow> atom_where s' c = atom_where s c"
    "c < 2 ^ 32 \<Longrightarrow> atom_refs s' c = (if c = a then
       (if h = 0 then atom_refs s a div 65536 * 65536 + v mod 65536
        else v mod 65536 * 65536 + atom_refs s a mod 65536) else atom_refs s c)"
proof -
  note p = atomref_place [OF assms(1,2)]
  have h: "h = 0 \<or> h = 1" using assms(3) by linarith
  have pos: "atomref_base s \<le> atomref_block s a + h" "atomref_block s a + h < unatom_base s"
    using p h by auto
  have len: "length b = d_blocksize (atable s)"
    using layout_block [OF assms(1) pos(1)] pos assms(4) by (force simp: table_end_def)
  show "atoms_layout s'" "dir_map (atable s') = dir_map (atable s)"
    unfolding s'_def using pos p(4) len
    by (auto intro!: put_table_layout assms(1) simp: mem_simps)
  show "atom_where s' c = atom_where s c" if c: "c < 2 ^ 32"
    using unatom_place(2) [OF assms(1) c] pos by (auto simp: atom_where_def s'_def)
  show "atom_refs s' c = (if c = a then
       (if h = 0 then atom_refs s a div 65536 * 65536 + v mod 65536
        else v mod 65536 * 65536 + atom_refs s a mod 65536) else atom_refs s c)" if c: "c < 2 ^ 32"
  proof -
    note q = atomref_place [OF assms(1) c]
    let ?x = "load16 (the (ablock s (atomref_block s a + 1))) (2 * atomref_offset s a)"
    let ?y = "load16 (the (ablock s (atomref_block s a))) (2 * atomref_offset s a)"
    have xy: "atom_refs s a div 65536 = ?x" "atom_refs s a mod 65536 = ?y"
      using load16_bound by (simp_all add: atom_refs_def)
    show ?thesis
    proof (cases "c = a")
      case True
      then show ?thesis
        using h assms(4) len p(4) xy
        by (auto simp: atom_refs_def s'_def load16_store16)
    next
      case False
      have blk: "atomref_block s c = atomref_block s a \<Longrightarrow> atomref_offset s c \<noteq> atomref_offset s a"
        using False p(1) q(1) same_place [of c _ a] by (auto simp: atomref_offset_def)
      have even: "atomref_block s c \<noteq> atomref_block s a + 1" "atomref_block s c + 1 \<noteq> atomref_block s a"
        unfolding p(1) q(1) by (rule odd_even)+
      have "atomref_block s c = atomref_block s a \<Longrightarrow>
        2 * atomref_offset s c + 2 \<le> 2 * atomref_offset s a \<or>
        2 * atomref_offset s a + 2 \<le> 2 * atomref_offset s c" using blk by arith
      then show ?thesis
        using False h even assms(4) len p(4) q(4)
        by (auto simp: atom_refs_def s'_def store16_def load16_blit_other)
    qed
  qed
qed


section \<open>The reference counts\<close>

text \<open>
  The count as a 32-bit number over two 16-bit halves. When it comes to zero the atom is killed,
  in the state that already has the new count.
\<close>

lemma halves:
  fixes r :: nat and use :: int
  assumes "0 \<le> int r + use" "int r + use < 2 ^ 32" "- 65536 < use" "use < 65536" "r < 2 ^ 32"
  defines "low \<equiv> int (r mod 65536) + use"
  shows "nat (int r + use) mod 65536 = nat (low mod 65536)"
    "nat (int r + use) div 65536 = nat ((int (r div 65536) + low div 65536) mod 65536)"
    "low \<noteq> 0 \<Longrightarrow> low div 65536 = 0 \<Longrightarrow> 0 < nat (int r + use)"
    "low = 0 \<and> int (r div 65536) + low div 65536 = 0 \<longleftrightarrow> int r + use = 0"
proof -
  have r: "int r + use = int (r div 65536) * 65536 + low"
    unfolding low_def using mult_div_mod_eq [of 65536 "int r"] by (simp add: zdiv_int zmod_int)
  have lowb: "- 65536 < low" "low < 131072" using assms(3,4) unfolding low_def by auto
  have "(int r + use) mod 65536 = low mod 65536" unfolding r by simp
  then show "nat (int r + use) mod 65536 = nat (low mod 65536)"
    using assms(1) by (metis nat_mod_distrib nat_numeral zero_le_numeral)
  have d: "(int r + use) div 65536 = int (r div 65536) + low div 65536" unfolding r by simp
  then have "nat (int r + use) div 65536 = nat (int (r div 65536) + low div 65536)"
    using assms(1) by (metis nat_div_distrib nat_numeral zero_le_numeral)
  moreover have "0 \<le> int (r div 65536) + low div 65536" "int (r div 65536) + low div 65536 < 65536"
    using d assms(1,2) by (simp_all flip: d)
  ultimately show "nat (int r + use) div 65536 = nat ((int (r div 65536) + low div 65536) mod 65536)"
    by simp
  show "0 < nat (int r + use)" if "low \<noteq> 0" "low div 65536 = 0"
    using that r lowb by linarith
  show "low = 0 \<and> int (r div 65536) + low div 65536 = 0 \<longleftrightarrow> int r + use = 0"
  proof
    assume "low = 0 \<and> int (r div 65536) + low div 65536 = 0"
    then have "low = 0" "int (r div 65536) = 0" by auto
    then show "int r + use = 0" using r by linarith
  next
    assume "int r + use = 0"
    moreover from this have "int (r div 65536) = 0" using r lowb by linarith
    ultimately show "low = 0 \<and> int (r div 65536) + low div 65536 = 0" using r by simp
  qed
qed

lemma atom_refs_bound: "atom_refs s a < 2 ^ 32"
  using load16_bound [of "the (ablock s (atomref_block s a + 1))" "2 * atomref_offset s a"]
    load16_bound [of "the (ablock s (atomref_block s a))" "2 * atomref_offset s a"]
  by (simp add: atom_refs_def)


lemma use_atom_split:
  assumes "atoms_layout s" "a < 2 ^ 32" "- 65536 < use" "use < 65536"
    and new: "0 \<le> int (atom_refs s a) + use" "int (atom_refs s a) + use < 2 ^ 32"
  shows "\<exists>s'. use_atom s a use
      = (if int (atom_refs s a) + use = 0 then kill_atom s' a else Some (Inr (), s'))
    \<and> atoms_layout s' \<and> dir_map (atable s') = dir_map (atable s)
    \<and> (\<forall>c < 2 ^ 32. atom_where s' c = atom_where s c
        \<and> atom_refs s' c = (if c = a then nat (int (atom_refs s a) + use) else atom_refs s c))
    \<and> freeatom s' = freeatom s \<and> atomgen s' = atomgen s \<and> d_size (atable s') = d_size (atable s)
    \<and> atomref_base s' = atomref_base s \<and> unatom_base s' = unatom_base s
    \<and> d_bits (atable s') = d_bits (atable s)"
proof -
  note p = atomref_place [OF assms(1,2)]
  have pos: "atomref_block s a < table_end s" "atomref_block s a + 1 < table_end s"
    using p by (auto simp: table_end_def)
  obtain lo where lo: "ablock s (atomref_block s a) = Some lo"
    using layout_block [OF assms(1) p(2) pos(1)] by blast
  obtain hi where hi: "ablock s (atomref_block s a + 1) = Some hi"
    using layout_block [OF assms(1) _ pos(2)] p(2) by auto
  let ?r = "atom_refs s a" and ?p = "2 * atomref_offset s a"
  let ?low = "int (load16 lo ?p) + use"
  have r: "?r mod 65536 = load16 lo ?p" "?r div 65536 = load16 hi ?p"
    using lo hi load16_bound by (simp_all add: atom_refs_def)
  note h = halves [OF new assms(3,4) atom_refs_bound, unfolded r]
  have h0: "(0 :: nat) < 2" "(1 :: nat) < 2" by simp_all
  let ?s1 = "put_ablock s (atomref_block s a) (store16 lo ?p (nat (?low mod 2 ^ 16)))"
  note s1 = put_refs [OF assms(1,2), where h = 0 and b = lo and v = "nat (?low mod 2 ^ 16)",
      unfolded add_0_right, OF h0(1) lo]
  show ?thesis
  proof (cases "?low = 0 \<or> ?low div 2 ^ 16 \<noteq> 0")
    case False
    have nz: "int ?r + use \<noteq> 0" using h(3) False by auto
    then have u: "use_atom s a use = Some (Inr (), ?s1)"
      using False lo by (simp add: use_atom_def Let_def)
    have "nat (int ?r + use) div 65536 = ?r div 65536"
      using h(2) False r(2) load16_bound [of hi ?p] by simp
    then have "?r div 65536 * 65536 + nat (?low mod 65536) = nat (int ?r + use)"
      using h(1) by (metis div_mult_mod_eq)
    then show ?thesis
      using s1 u nz by (intro exI [of _ ?s1]) simp
  next
    case True
    let ?high = "int (load16 hi ?p) + ?low div 2 ^ 16"
    let ?s2 = "put_ablock ?s1 (atomref_block s a + 1) (store16 hi ?p (nat (?high mod 2 ^ 16)))"
    have b2: "ablock ?s1 (atomref_block ?s1 a + 1) = Some hi" using hi by simp
    note s2 = put_refs [OF s1(1) assms(2) h0(2) b2, where v = "nat (?high mod 2 ^ 16)"]
    have u: "use_atom s a use
        = (if int ?r + use = 0 then kill_atom ?s2 a else Some (Inr (), ?s2))"
      using True lo hi p(5) h(4) by (simp add: use_atom_def Let_def)
    have "nat (?high mod 65536) * 65536 + nat (?low mod 65536) = nat (int ?r + use)"
      using h(1,2) div_mult_mod_eq [of "nat (int ?r + use)" 65536] by simp
    moreover have "nat (?high mod 65536) < 65536" "nat (?low mod 65536) < 65536"
      by (simp_all add: nat_less_iff)
    ultimately have cnt: "nat (?high mod 2 ^ 16) mod 65536 * 65536
        + (?r div 65536 * 65536 + nat (?low mod 2 ^ 16) mod 65536) mod 65536 = nat (int ?r + use)"
      by simp
    have w: "atom_where ?s2 c = atom_where s c" if "c < 2 ^ 32" for c
      using s1(3) [OF that] s2(3) [OF that] by (simp only: put_ablock_simps)
    have ra: "atom_refs ?s1 a = ?r div 65536 * 65536 + nat (?low mod 2 ^ 16) mod 65536"
      using s1(4) [OF assms(2)] by simp
    have rf: "atom_refs ?s2 c = (if c = a then nat (int ?r + use) else atom_refs s c)" if "c < 2 ^ 32" for c
      using s1(4) [OF that] s2(4) [OF that] cnt
      by (cases "c = a") (simp_all only: put_ablock_simps ra if_True if_False one_neq_zero simp_thms)
    have lay: "atoms_layout ?s2" "dir_map (atable ?s2) = dir_map (atable s)"
      using s1(2) s2(1,2) by (simp_all only: put_ablock_simps)
    show ?thesis
      by (intro exI [of _ ?s2] conjI u allI impI w rf lay) simp_all
  qed
qed

section \<open>The table as a whole\<close>

text \<open>The free list: each free atom's slot of the reverse map names the next one.\<close>

fun first_atom :: "nat list \<Rightarrow> nat" where
  "first_atom [] = 0"
| "first_atom (a # _) = a"

fun free_chain :: "atoms \<Rightarrow> nat list \<Rightarrow> bool" where
  "free_chain s [] \<longleftrightarrow> True"
| "free_chain s (a # as) \<longleftrightarrow> atom_where s a = 0xdead * 2 ^ 48 + first_atom as \<and> free_chain s as"

text \<open>
  A name of the dictionary has an atom of its own, below \<open>atomgen\<close>, whose slot of the reverse
  map is the place of the name; the atoms of the free list have no name.
\<close>

definition atoms_ok :: "atoms \<Rightarrow> nat list \<Rightarrow> bool" where
  "atoms_ok s fl \<longleftrightarrow> atoms_layout s \<and> dirs.unique (atable s) \<and> 0 < atomgen s \<and> atomgen s < 2 ^ 32
     \<and> (\<forall>p name a t. dir_map (atable s) p = Some (name, a, t) \<longrightarrow>
          0 < a \<and> a < atomgen s \<and> a \<notin> set fl \<and> atom_where s a = dir_pos (atable s) p)
     \<and> freeatom s = first_atom fl \<and> free_chain s fl \<and> distinct fl
     \<and> (\<forall>a\<in>set fl. 0 < a \<and> a < atomgen s)"

lemma free_chain_cong:
  "(\<And>a. a \<in> set fl \<Longrightarrow> atom_where s' a = atom_where s a) \<Longrightarrow> free_chain s' fl = free_chain s fl"
  by (induction fl) auto

lemma first_atom_bound: "\<forall>a\<in>set fl. a < n \<Longrightarrow> 0 < n \<Longrightarrow> first_atom fl < n"
  by (cases fl) auto

lemma dir_map_block:
  assumes "wf_dir d" "dir_map d p = Some (name, a, t)"
  obtains b where "d_blocks d (fst p) = Some b" "length b = d_blocksize d" "fst p < d_nblocks d"
    "de_inum b (snd p) = a" "de_name b (snd p) = name" "snd p < d_blocksize d"
    "dir_pos d p div d_blocksize d = fst p" "dir_pos d p mod d_blocksize d = snd p"
proof -
  obtain b where b: "fst p < d_nblocks d" "d_blocks d (fst p) = Some b"
    "block_map b (snd p) = Some (name, a, t)"
    using assms(2) by (auto simp: dir_map_def split: if_splits option.splits)
  have ok: "length b = d_blocksize d" "block_ok b" using wf_dir_block [OF assms(1) b(1)] b(2) by auto
  have e: "snd p \<in> set (offs b 0)" "de_inum b (snd p) = a" "de_name b (snd p) = name"
    using b(3) by (auto simp: block_map_def split: if_splits)
  have "snd p < length b"
    using seg_mem [OF block_seg [OF ok(2)] e(1)] entry_okD by fastforce
  then show ?thesis using that [of b] b e ok by (simp add: dir_pos_def)
qed

lemma atoms_ok_bound: "atoms_ok s fl \<Longrightarrow> dir_map (atable s) p = Some (name, a, t) \<Longrightarrow> a < 2 ^ 32 - 1"
  unfolding atoms_ok_def by (metis add_diff_inverse_nat less_diff_conv less_imp_diff_less less_one linorder_neqE_nat not_less_eq order_less_trans plus_1_eq_Suc)


lemma find_atom_cases:
  assumes "atoms_ok s fl" "dir_name name"
  shows "(\<exists>p t. dir_map (atable s) p = Some (name, find_atom s name, t) \<and> find_atom s name < 2 ^ 32 - 1)
    \<or> find_atom s name = no_atom \<and> (\<forall>p a t. dir_map (atable s) p \<noteq> Some (name, a, t))"
proof (cases "tux_find_entry (atable s) name")
  case (Inl err)
  then have "dir_lookup (atable s) name = None" by (simp add: dir_lookup_def)
  then have "dir_map (atable s) p \<noteq> Some (name, a, t)" for p a t
    using dirs.lookup_None [OF _ assms(2), of "atable s" p "(a, t)"] assms(1)
    by (simp add: atoms_ok_def atoms_layout_def dir_entries_def)
  then show ?thesis using Inl by (simp add: find_atom_def)
next
  case (Inr q)
  obtain n e where q: "q = (n, e)" by (cases q)
  have "dir_lookup (atable s) name = Some q" using Inr by (simp add: dir_lookup_def)
  then obtain a t where m: "dir_map (atable s) q = Some (name, a, t)"
    using dirs.lookup_Some [OF _ assms(2), of "atable s" q] assms(1)
    by (auto simp: atoms_ok_def atoms_layout_def dir_entries_def)
  have wf: "wf_dir (atable s)" using assms(1) by (simp add: atoms_ok_def atoms_layout_def)
  note a = atoms_ok_bound [OF assms(1) m]
  have "find_atom s name = a"
    using a Inr q by (rule_tac dir_map_block [OF wf m])
      (simp add: find_atom_def ablock_def entry_atom_def wrap32_id)
  then show ?thesis using m a by blast
qed

lemma find_atom_eq:
  assumes "atoms_ok s fl" "dir_name name" "dir_map (atable s) p = Some (name, a, t)"
  shows "find_atom s name = a"
proof -
  obtain q t' where "dir_map (atable s) q = Some (name, find_atom s name, t')"
    using find_atom_cases [OF assms(1,2)] assms(3) by blast
  moreover have "dirs.unique (atable s)" using assms(1) by (simp add: atoms_ok_def)
  ultimately have "p = q" using assms(3) unfolding dirs.unique_def dir_entries_def by blast
  then show ?thesis using assms(3) \<open>dir_map (atable s) q = _\<close> by simp
qed

lemma unatom_name:
  assumes "atoms_ok s fl" "dir_map (atable s) p = Some (name, a, t)"
  shows "unatom s a 0 = Inr name" "length name \<le> sz \<Longrightarrow> unatom s a sz = Inr name"
proof -
  have lay: "atoms_layout s" and wf: "wf_dir (atable s)"
    using assms(1) by (simp_all add: atoms_ok_def atoms_layout_def)
  have a: "a < 2 ^ 32" using atoms_ok_bound [OF assms] by simp
  note u = unatom_place [OF lay a]
  have "atomref_base s \<le> unatom_base s" using lay by (simp add: atoms_layout_def)
  then obtain ub where ub: "ablock s (unatom_block s a) = Some ub"
    using layout_block [OF lay, of "unatom_block s a"] u by (metis order_trans)
  have w: "atom_where s a = dir_pos (atable s) p" using assms unfolding atoms_ok_def by blast
  obtain b where b: "d_blocks (atable s) (fst p) = Some b" "length b = d_blocksize (atable s)"
    "de_inum b (snd p) = a" "de_name b (snd p) = name"
    "dir_pos (atable s) p div d_blocksize (atable s) = fst p"
    "dir_pos (atable s) p mod d_blocksize (atable s) = snd p"
    using dir_map_block [OF wf assms(2)] by metis
  have n: "de_name_len b (snd p) = length name"
  proof -
    have "block_map b (snd p) = Some (name, a, t)"
      using assms(2) b(1) by (auto simp: dir_map_def split: if_splits)
    then have "snd p \<in> set (offs b 0)" by (auto simp: block_map_def split: if_splits)
    moreover have "block_ok b"
      using wf_dir_block [OF wf] assms(2) b(1) by (fastforce simp: dir_map_def split: if_splits)
    ultimately have "entry_ok b (snd p)" using seg_mem block_seg by blast
    then show ?thesis using length_de_name b(4) by metis
  qed
  have "load64 ub (8 * unatom_offset s a) = dir_pos (atable s) p"
    using w ub by (simp add: atom_where_def)
  then show "unatom s a 0 = Inr name" "length name \<le> sz \<Longrightarrow> unatom s a sz = Inr name"
    using ub b a n
    by (simp_all add: unatom_def Let_def ablock_def entry_atom_def wrap32_id de_name_def [symmetric]
        de_name_def [of b "snd p"])
qed

text \<open>Creating an entry writes one block of the directory, at most the one behind its end.\<close>

lemma create_entry_frame:
  assumes "wf_dir d" "0 < length name" "tux_create_entry d name inum mode = (r, d')"
    "d_nblocks d + 1 < 2 ^ 32"
  shows "d_bits d' = d_bits d" "d_nblocks d' \<le> d_nblocks d + 1"
    "\<And>m. d_nblocks d + 1 \<le> m \<Longrightarrow> d_blocks d' m = d_blocks d m"
proof -
  have r: "0 < TUX_REC_LEN (length name)" using TUX_REC_LEN_bounds(1) [of "length name"] by linarith
  have n1: "d_nblocks (d\<lparr>d_size := d_size d + d_blocksize d\<rparr>) = d_nblocks d + 1"
    using d_nblocks_eq [OF assms(1)] assms(4)
      div_add_self2 [of "d_blocksize d" "d_size d"]
    by (simp add: d_nblocks_def [of "d\<lparr>d_size := _\<rparr>"] d_blocksize_def wrap32_id)
  consider (found) m e b where "find_room_blocks d (TUX_REC_LEN (length name)) (d_nblocks d) 0
      = Inr (Some (m, e, TUX_REC_LEN (de_name_len b e), rlen b e))" "m < d_nblocks d"
    | (fresh) "find_room_blocks d (TUX_REC_LEN (length name)) (d_nblocks d) 0 = Inr None"
    using find_room_blocks_map [OF assms(1) r, of 0] by blast
  then have "d_bits d' = d_bits d \<and> d_nblocks d' \<le> d_nblocks d + 1
    \<and> (\<forall>m. d_nblocks d + 1 \<le> m \<longrightarrow> d_blocks d' m = d_blocks d m)"
  proof cases
    case (found m e b)
    obtain b' q where c: "create_at (the (d_blocks d m)) e (TUX_REC_LEN (de_name_len b e)) (rlen b e) name inum mode
        = (b', q)" by fastforce
    then have "d' = put_block d m b'"
      using assms(3) found(1) by (simp add: tux_create_entry_def Let_def)
    then show ?thesis using found(2) by simp
  next
    case fresh
    obtain b' q where c: "create_at (empty_block d) 0 0 (d_blocksize d) name inum mode = (b', q)" by fastforce
    have "d' = put_block (d\<lparr>d_size := d_size d + d_blocksize d\<rparr>) (d_nblocks d) b'"
      using assms(3) fresh c by (simp add: tux_create_entry_def Let_def)
    then show ?thesis using n1 by simp
  qed
  then show "d_bits d' = d_bits d" "d_nblocks d' \<le> d_nblocks d + 1"
    "\<And>m. d_nblocks d + 1 \<le> m \<Longrightarrow> d_blocks d' m = d_blocks d m" by blast+
qed


lemma atoms_ok_cong:
  assumes "atoms_ok s fl" "atoms_layout s'" "dir_map (atable s') = dir_map (atable s)"
    "freeatom s' = freeatom s" "atomgen s' = atomgen s" "d_bits (atable s') = d_bits (atable s)"
    and w: "\<forall>c < 2 ^ 32. atom_where s' c = atom_where s c"
  shows "atoms_ok s' fl"
proof -
  have pos: "dir_pos (atable s') = dir_pos (atable s)"
    using assms(6) by (simp add: dir_pos_def fun_eq_iff d_blocksize_def)
  have gen: "atomgen s < 2 ^ 32" using assms(1) by (simp add: atoms_ok_def)
  have "free_chain s' fl = free_chain s fl"
    using assms(1) gen w by (intro free_chain_cong) (force simp: atoms_ok_def)
  moreover have "dirs.unique (atable s') = dirs.unique (atable s)"
    using assms(3) by (simp add: dirs.unique_def dir_entries_def)
  moreover have "0 < a \<and> a < atomgen s \<and> a \<notin> set fl \<and> atom_where s' a = dir_pos (atable s) p"
    if "dir_map (atable s) p = Some (name, a, t)" for p name a t
    using assms(1) w gen that unfolding atoms_ok_def by (metis order.strict_trans)
  ultimately show ?thesis
    using assms(1-5) pos unfolding atoms_ok_def by metis
qed

lemma mult_add_div: "x < (m :: nat) \<Longrightarrow> (k * m + x) div m = k \<and> (k * m + x) mod m = x"
  by simp

text \<open>The next atom: off the free list, or a new one. It has no name yet.\<close>

lemma get_freeatom_ok:
  assumes ok: "atoms_ok s fl" and gen: "atomgen s < 2 ^ 32 - 1"
  shows "\<exists>a s' fl'. get_freeatom s = (a, s') \<and> atoms_ok s' fl' \<and> a < 2 ^ 32 - 1 \<and> 0 < a \<and> a < atomgen s'
    \<and> a \<notin> set fl' \<and> atable s' = atable s \<and> atomref_base s' = atomref_base s \<and> unatom_base s' = unatom_base s
    \<and> (\<forall>p name t. dir_map (atable s) p \<noteq> Some (name, a, t))"
proof -
  have lay: "atoms_layout s" and pos: "0 < atomgen s" and fr: "freeatom s = first_atom fl"
    using ok by (auto simp: atoms_ok_def)
  have same: "atoms_layout s' = atoms_layout s \<and> atom_where s' = atom_where s \<and> table_end s' = table_end s"
    if "atable s' = atable s" "atomref_base s' = atomref_base s" "unatom_base s' = unatom_base s" for s'
    using that by (simp add: atoms_layout_def atom_where_def fun_eq_iff table_end_def ablock_def
        unatom_block_def unatom_offset_def)
  show ?thesis
  proof (cases fl)
    case Nil
    let ?s = "s\<lparr>atomgen := wrap32 (atomgen s + 1)\<rparr>"
    have w: "wrap32 (atomgen s + 1) = atomgen s + 1" using gen by (simp add: wrap32_id)
    note sm = same [of ?s, simplified]
    have "atoms_ok ?s []"
      using ok gen w Nil sm unfolding atoms_ok_def by (auto simp: less_Suc_eq)
    moreover have "get_freeatom s = (atomgen s, ?s)" using fr Nil by (simp add: get_freeatom_def)
    moreover have "\<forall>p name t. dir_map (atable s) p \<noteq> Some (name, atomgen s, t)"
      using ok unfolding atoms_ok_def by blast
    ultimately show ?thesis using gen pos w
      by (intro exI [of _ "atomgen s"] exI [of _ ?s] exI [of _ "[]"]) simp
  next
    case (Cons a as)
    have a: "0 < a" "a < atomgen s" "a \<notin> set as" "atom_where s a = 0xdead * 2 ^ 48 + first_atom as"
      "free_chain s as" "distinct as" "\<forall>x\<in>set as. 0 < x \<and> x < atomgen s"
      using ok Cons by (auto simp: atoms_ok_def)
    have n: "first_atom as < atomgen s" using first_atom_bound a(7) pos by blast
    have g32: "atomgen s < 2 ^ 32" using gen by simp
    have a32: "a < 2 ^ 32" using a(2) gen by simp
    note u = unatom_place [OF lay a32]
    have "atomref_base s \<le> unatom_base s" using lay by (simp add: atoms_layout_def)
    then obtain b where b: "ablock s (unatom_block s a) = Some b"
      using layout_block [OF lay, of "unatom_block s a"] u by (metis order_trans)
    have ld: "load64 b (8 * unatom_offset s a) = 0xdead * 2 ^ 48 + first_atom as"
      using a(4) b by (simp add: atom_where_def)
    let ?s = "s\<lparr>freeatom := first_atom as\<rparr>"
    note sm = same [of ?s, simplified]
    have "free_chain ?s as" using a(5) sm free_chain_cong [of as ?s s] by simp
    then have "atoms_ok ?s as"
      using ok Cons sm unfolding atoms_ok_def by auto
    moreover have "get_freeatom s = (a, ?s)"
      using fr Cons a(1) b ld n g32 mult_add_div [of "first_atom as" "2 ^ 48" "0xdead"]
      by (simp add: get_freeatom_def Let_def wrap32_id)
    moreover have "\<forall>p name t. dir_map (atable s) p \<noteq> Some (name, a, t)"
      using ok Cons unfolding atoms_ok_def by (meson list.set_intros(1))
    ultimately show ?thesis using a gen
      by (intro exI [of _ a] exI [of _ ?s] exI [of _ as]) simp
  qed
qed

lemma wf_dir_room: "wf_dir d \<Longrightarrow> d_nblocks d < n \<Longrightarrow> n \<le> 2 ^ 32 \<Longrightarrow> d_nblocks d + 1 \<le> 2 ^ 32"
  by simp

lemma make_atom_fresh:
  assumes ok: "atoms_ok s fl" and gen: "atomgen s < 2 ^ 32 - 1" and name: "dir_name name"
    and fresh: "\<forall>p a t. dir_map (atable s) p \<noteq> Some (name, a, t)"
    and room: "d_size (atable s) + d_blocksize (atable s) < 2 ^ 32"
      "d_nblocks (atable s) + 1 < atomref_base s"
  shows "\<exists>a s' fl' p. make_atom s name = (a, s') \<and> atoms_ok s' fl' \<and> 0 < a \<and> a < 2 ^ 32 - 1
    \<and> dir_map (atable s) p = None \<and> dir_map (atable s') = (dir_map (atable s))(p \<mapsto> (name, a, 0))
    \<and> (\<forall>c < 2 ^ 32. atom_refs s' c = atom_refs s c)"
proof -
  obtain a s1 fl' where g: "get_freeatom s = (a, s1)" "atoms_ok s1 fl'" "a < 2 ^ 32 - 1" "0 < a" "a < atomgen s1"
    "a \<notin> set fl'" "atable s1 = atable s" "atomref_base s1 = atomref_base s" "unatom_base s1 = unatom_base s"
    "\<forall>p name t. dir_map (atable s) p \<noteq> Some (name, a, t)"
    using get_freeatom_ok [OF ok gen] by blast
  let ?d = "atable s"
  have lay: "atoms_layout s1" and wf: "wf_dir ?d" and uniq: "dirs.unique ?d"
    using g(2,7) by (auto simp: atoms_ok_def atoms_layout_def)
  have bases: "atomref_base s \<le> unatom_base s" "atomref_base s < 2 ^ 32"
    using lay g(8,9) zero_less_power [of "2 :: nat" "35 - d_bits (atable s1)"]
    unfolding atoms_layout_def table_end_def by (simp, linarith)
  have nm: "0 < length name" "length name < 256" using name by (auto simp: dir_name_def)
  obtain p d' where c: "tux_create_entry ?d name a 0 = (Inr (dir_pos ?d p), d')" "wf_dir d'"
    "d_blocksize d' = d_blocksize ?d" "dir_map ?d p = None"
    "dir_map d' = (dir_map ?d)(p \<mapsto> (name, a, 0))"
    using create_entry_map [OF wf nm _ room(1), of a 0] g(3)
    by (auto simp: tux_type_of_mode_def tux_type_by_mode_def)
  have "d_nblocks ?d + 1 < 2 ^ 32" using room(2) bases by linarith
  note fr = create_entry_frame [OF wf nm(1) c(1) this]
  let ?s2 = "s1\<lparr>atable := d'\<rparr>"
  have pp: "dir_pos d' = dir_pos ?d" using c(3) by (simp add: dir_pos_def fun_eq_iff)
  have blk: "ablock ?s2 n = ablock s1 n" if "atomref_base s \<le> n" for n
    using fr(3) [of n] that room(2) g(7) by (simp add: ablock_def)
  have lay2: "atoms_layout ?s2"
    using lay blk c(2,3) fr(1,2) room(2) g(7,8) unfolding atoms_layout_def table_end_def by auto
  have blocks2: "unatom_block ?s2 = unatom_block s1" "unatom_offset ?s2 = unatom_offset s1"
    "atomref_block ?s2 = atomref_block s1" "atomref_offset ?s2 = atomref_offset s1"
    using fr(1) g(7) by (simp_all add: unatom_block_def unatom_offset_def atomref_block_def atomref_offset_def fun_eq_iff)
  have w2: "atom_where ?s2 x = atom_where s1 x" if "x < 2 ^ 32" for x
    using unatom_place(2) [OF lay that] bases g(8,9) blk [of "unatom_block s1 x"]
    by (simp add: atom_where_def blocks2)
  have r2: "atom_refs ?s2 x = atom_refs s x" if "x < 2 ^ 32" for x
  proof -
    have "atom_refs ?s2 x = atom_refs s1 x"
      using atomref_place(2) [OF lay that] g(8) blk [of "atomref_block s1 x"] blk [of "atomref_block s1 x + 1"]
      by (simp add: atom_refs_def blocks2)
    also have "\<dots> = atom_refs s x"
      using g(7-9) by (simp add: atom_refs_def ablock_def atomref_block_def atomref_offset_def)
    finally show ?thesis .
  qed
  have a32: "a < 2 ^ 32" using g(3) by simp
  note u = unatom_place [OF lay2 a32]
  have "atomref_base ?s2 \<le> unatom_base ?s2" using bases g(8,9) by simp
  then obtain b where b: "ablock ?s2 (unatom_block ?s2 a) = Some b"
    using layout_block [OF lay2, of "unatom_block ?s2 a"] u by (metis order_trans)
  let ?s3 = "put_ablock ?s2 (unatom_block ?s2 a) (store64 b (8 * unatom_offset ?s2 a) (dir_pos ?d p))"
  note pw = put_where [OF lay2 a32 b, where v = "dir_pos ?d p"]
  have posb: "dir_pos ?d p < 2 ^ 64"
  proof -
    obtain b' where "fst p < d_nblocks d'" "snd p < d_blocksize d'"
      using dir_map_block [OF c(2), of p name a 0] c(5) by auto
    then have "(fst p + 1) * d_blocksize d' \<le> d_nblocks d' * d_blocksize d'" "snd p < d_blocksize d'"
      using mult_le_mono1 [of "fst p + 1" "d_nblocks d'" "d_blocksize d'"] by simp_all
    moreover have "d_nblocks d' * d_blocksize d' = d_size d'" using d_nblocks_eq [OF c(2)] by blast
    moreover have "d_size d' < 2 ^ 32" using c(2) unfolding wf_dir_def by blast
    ultimately have "dir_pos d' p < 2 ^ 32" by (simp add: dir_pos_def)
    then show ?thesis using pp by simp
  qed
  have m: "make_atom s name = (a, ?s3)"
  proof -
    have "find_atom s name = no_atom" using find_atom_cases [OF ok name] fresh by blast
    then show ?thesis using g(1,7) c(1) b by (simp add: make_atom_def Let_def)
  qed
  have gen1: "atomgen s1 < 2 ^ 32" using g(2) by (simp add: atoms_ok_def)
  have w3: "atom_where ?s3 x = (if x = a then dir_pos ?d p else atom_where s1 x)" if "x < 2 ^ 32" for x
    using pw(3) [OF that] w2 [OF that] posb by simp
  have dm3: "dir_map (atable ?s3) = (dir_map ?d)(p \<mapsto> (name, a, 0))" using pw(2) c(5) by simp
  have uniq3: "dirs.unique (atable ?s3)"
    using uniq fresh unfolding dirs.unique_def dir_entries_def dm3
    by (auto split: if_splits)
  have pp3: "dir_pos (atable ?s3) = dir_pos ?d" using c(3) by (simp add: dir_pos_def fun_eq_iff)
  have names: "0 < x \<and> x < atomgen s1 \<and> x \<notin> set fl' \<and> atom_where ?s3 x = dir_pos (atable ?s3) q"
    if q: "dir_map (atable ?s3) q = Some (nm, x, t)" for q nm x t
  proof (cases "q = p")
    case True
    then show ?thesis using q dm3 g(4-6) w3 [OF a32] by (simp only: pp3) auto
  next
    case False
    then have o: "dir_map ?d q = Some (nm, x, t)" using q dm3 by simp
    then have "0 < x \<and> x < atomgen s1 \<and> x \<notin> set fl' \<and> atom_where s1 x = dir_pos ?d q"
      using g(2,7) unfolding atoms_ok_def by metis
    moreover have "x \<noteq> a" using o g(10) by blast
    ultimately show ?thesis using w3 [of x] gen1 by (simp only: pp3) simp
  qed
  have "free_chain ?s3 fl' = free_chain s1 fl'"
  proof (rule free_chain_cong)
    fix x assume "x \<in> set fl'"
    then show "atom_where ?s3 x = atom_where s1 x"
      using g(2,6) w3 [of x] gen1 unfolding atoms_ok_def by force
  qed
  then have ch: "free_chain ?s3 fl'" using g(2) by (simp add: atoms_ok_def)
  have gen3: "atomgen ?s3 = atomgen s1" "freeatom ?s3 = freeatom s1" by simp_all
  have "atoms_ok ?s3 fl'"
    unfolding atoms_ok_def gen3
  proof (intro conjI pw(1) uniq3 ch)
    show "\<forall>q nm x t. dir_map (atable ?s3) q = Some (nm, x, t) \<longrightarrow>
          0 < x \<and> x < atomgen s1 \<and> x \<notin> set fl' \<and> atom_where ?s3 x = dir_pos (atable ?s3) q"
      using names by blast
  qed (use g(2) in \<open>auto simp: atoms_ok_def\<close>)
  moreover have "\<forall>x < 2 ^ 32. atom_refs ?s3 x = atom_refs s x" using pw(4) r2 by simp
  ultimately show ?thesis using m g(3,4) c(4) dm3 by blast
qed


lemma kill_atom_ok:
  assumes ok: "atoms_ok s fl" and p: "dir_map (atable s) p = Some (name, a, t)"
  shows "\<exists>s'. kill_atom s a = Some (Inr (), s') \<and> atoms_ok s' (a # fl)
    \<and> dir_map (atable s') = (dir_map (atable s))(p := None)
    \<and> (\<forall>c < 2 ^ 32. atom_refs s' c = atom_refs s c)"
proof -
  let ?d = "atable s"
  have lay: "atoms_layout s" and wf: "wf_dir ?d" and uniq: "dirs.unique ?d" and fr: "freeatom s = first_atom fl"
    using ok by (auto simp: atoms_ok_def atoms_layout_def)
  have a: "0 < a" "a < atomgen s" "a \<notin> set fl" "atom_where s a = dir_pos ?d p"
    using ok p unfolding atoms_ok_def by blast+
  have gen: "atomgen s < 2 ^ 32" "0 < atomgen s" using ok by (auto simp: atoms_ok_def)
  have a32: "a < 2 ^ 32" using a(2) gen by simp
  note u = unatom_place [OF lay a32]
  have "atomref_base s \<le> unatom_base s" "d_nblocks ?d < atomref_base s" using lay by (auto simp: atoms_layout_def)
  then have ub: "atomref_base s \<le> unatom_block s a" "d_nblocks ?d < unatom_block s a" using u(2) by auto
  obtain b where b: "ablock s (unatom_block s a) = Some b"
    using layout_block [OF lay ub(1) u(3)] by blast
  have ld: "load64 b (8 * unatom_offset s a) = dir_pos ?d p" using a(4) b by (simp add: atom_where_def)
  let ?v = "freeatom s OR 0xdead * 2 ^ 48"
  have fb: "first_atom fl < 2 ^ 32"
  proof -
    have "\<forall>x\<in>set fl. x < atomgen s" using ok by (auto simp: atoms_ok_def)
    then show ?thesis using first_atom_bound [OF _ gen(2)] gen(1) by fastforce
  qed
  have v: "?v = 0xdead * 2 ^ 48 + first_atom fl"
    using or_shift_disjoint [of "first_atom fl" 48 "0xdead"] fb fr
    by (simp add: push_bit_eq_mult or.commute)
  let ?s1 = "put_ablock s (unatom_block s a) (store64 b (8 * unatom_offset s a) ?v)\<lparr>freeatom := a\<rparr>"
  note pw = put_where [OF lay a32 b, where v = ?v]
  obtain db where db: "d_blocks ?d (fst p) = Some db" "fst p < d_nblocks ?d" "de_inum db (snd p) = a"
    "dir_pos ?d p div d_blocksize ?d = fst p" "dir_pos ?d p mod d_blocksize ?d = snd p"
    using dir_map_block [OF wf p] by metis
  have dm1: "dir_map (atable ?s1) = dir_map ?d" using pw(2) by simp
  have wf1: "wf_dir (atable ?s1)" using pw(1) by (simp add: atoms_layout_def)
  have db1: "d_blocks (atable ?s1) (fst p) = Some db"
    using db ub by (simp add: put_ablock_def)
  have nn: "dir_map (atable ?s1) (fst p, snd p) \<noteq> None" using dm1 p by simp
  obtain db' where db': "tux_delete_entry db (snd p) = Inr db'" "wf_dir (put_block (atable ?s1) (fst p) db')"
    "dir_map (put_block (atable ?s1) (fst p) db') = (dir_map ?d)(p := None)"
    using delete_entry_map [OF wf1 nn] db1 dm1 by auto
  let ?s2 = "put_ablock ?s1 (fst p) db'"
  have k: "kill_atom s a = Some (Inr (), ?s2)"
    using b ld db db1 db' a32 ub
    by (simp add: kill_atom_def Let_def entry_atom_def wrap32_id ablock_def)
  have blk: "ablock ?s2 n = ablock (put_ablock s (unatom_block s a) (store64 b (8 * unatom_offset s a) ?v)) n"
    if "atomref_base s \<le> n" for n
    using that db(2) lay by (auto simp: atoms_layout_def ablock_def put_ablock_def)
  let ?s0 = "put_ablock s (unatom_block s a) (store64 b (8 * unatom_offset s a) ?v)"
  have lay2: "atoms_layout ?s2"
    using pw(1) blk db'(2) unfolding atoms_layout_def by (simp add: put_ablock_def table_end_def)
  have w2: "atom_where ?s2 x = (if x = a then 0xdead * 2 ^ 48 + first_atom fl else atom_where s x)" if "x < 2 ^ 32" for x
  proof -
    have "atomref_base s \<le> unatom_block s x"
      using unatom_place(2) [OF lay that] \<open>atomref_base s \<le> unatom_base s\<close> by simp
    then have "atom_where ?s2 x = atom_where ?s0 x"
      using blk [of "unatom_block s x"] by (simp add: atom_where_def unatom_block_def unatom_offset_def put_ablock_def ablock_def)
    then show ?thesis using pw(3) [OF that] v fb by simp
  qed
  have r2: "atom_refs ?s2 x = atom_refs s x" if "x < 2 ^ 32" for x
  proof -
    have "atomref_base s \<le> atomref_block s x" using atomref_place(2) [OF lay that] by simp
    then have "atom_refs ?s2 x = atom_refs ?s0 x"
      using blk [of "atomref_block s x"] blk [of "atomref_block s x + 1"]
      by (simp add: atom_refs_def atomref_block_def atomref_offset_def put_ablock_def ablock_def)
    then show ?thesis using pw(4) [OF that] by simp
  qed
  have dm2: "dir_map (atable ?s2) = (dir_map ?d)(p := None)" using db'(3) by (simp add: put_ablock_def)
  have pp: "dir_pos (atable ?s2) = dir_pos ?d" by (simp add: dir_pos_def fun_eq_iff put_ablock_def d_blocksize_def put_block_def)
  have uniq2: "dirs.unique (atable ?s2)"
    using uniq dm2 unfolding dirs.unique_def dir_entries_def by (auto split: if_splits)
  have names: "0 < x \<and> x < atomgen s \<and> x \<notin> set (a # fl) \<and> atom_where ?s2 x = dir_pos (atable ?s2) q"
    if q: "dir_map (atable ?s2) q = Some (nm, x, t')" for q nm x t'
  proof -
    have o: "q \<noteq> p" "dir_map ?d q = Some (nm, x, t')" using q dm2 by (auto split: if_splits)
    then have x: "0 < x" "x < atomgen s" "x \<notin> set fl" "atom_where s x = dir_pos ?d q"
      using ok unfolding atoms_ok_def by blast+
    have "x \<noteq> a"
    proof
      assume "x = a"
      then have "dir_pos ?d q = dir_pos ?d p" using x(4) a(4) by simp
      then have "fst q = fst p" "snd q = snd p"
        using dir_map_block [OF wf o(2)] db(4,5) by metis+
      then show False using o(1) by (simp add: prod_eq_iff)
    qed
    then show ?thesis using x w2 [of x] gen(1) pp by simp
  qed
  have ch: "free_chain ?s2 fl"
  proof -
    have "free_chain ?s2 fl = free_chain s fl"
    proof (rule free_chain_cong)
      fix x assume "x \<in> set fl"
      then show "atom_where ?s2 x = atom_where s x"
        using ok a(3) w2 [of x] gen(1) unfolding atoms_ok_def by force
    qed
    then show ?thesis using ok by (simp add: atoms_ok_def)
  qed
  have "atoms_ok ?s2 (a # fl)"
    unfolding atoms_ok_def
  proof (intro conjI)
    show "free_chain ?s2 (a # fl)" using ch w2 [OF a32] by simp
    show "\<forall>p name a' t. dir_map (atable ?s2) p = Some (name, a', t) \<longrightarrow>
          0 < a' \<and> a' < atomgen ?s2 \<and> a' \<notin> set (a # fl) \<and> atom_where ?s2 a' = dir_pos (atable ?s2) p"
      using names by (simp add: put_ablock_def)
    show "distinct (a # fl)" "\<forall>x\<in>set (a # fl). 0 < x \<and> x < atomgen ?s2"
      using ok a by (auto simp: atoms_ok_def put_ablock_def)
  qed (use lay2 uniq2 gen in \<open>simp_all add: put_ablock_def\<close>)
  then show ?thesis using k dm2 r2 by blast
qed


section \<open>The cache as a map from atoms to values\<close>

definition xattr_map :: "inode \<Rightarrow> nat \<Rightarrow> bytes option" where
  "xattr_map ino = (case xcache ino of None \<Rightarrow> Map.empty
     | Some xc \<Rightarrow> map_of (map (\<lambda>x. (xatom x, body x)) (xattrs xc)))"

definition inode_xok :: "inode \<Rightarrow> bool" where
  "inode_xok ino \<longleftrightarrow> (\<forall>xc. xcache ino = Some xc \<longrightarrow> xcache_ok xc \<and> distinct (map xatom (xattrs xc)))"

definition xcache_room :: "inode \<Rightarrow> nat \<Rightarrow> bool" where
  "xcache_room ino len \<longleftrightarrow> (case xcache ino of None \<Rightarrow> 4 | Some xc \<Rightarrow> xc_size xc) + 4 + len < 2 ^ 16"

lemma xcache_search_all:
  "xcache_search (pos + sum_list (map xattr_bytes xs)) atom xs pos i
    = Some (if atom \<in> xatom ` set xs then Inr (i + length (takeWhile (\<lambda>x. xatom x \<noteq> atom) xs)) else Inl ENOATTR)"
proof (induction xs arbitrary: pos i)
  case Nil
  then show ?case by (simp add: xcache_search.simps)
next
  case (Cons x xs)
  have "pos < pos + sum_list (map xattr_bytes (x # xs))" by (simp add: xattr_bytes_def [of x])
  then show ?case
    using Cons.IH [of "pos + xattr_bytes x" "i + 1"]
    by (subst xcache_search.simps) (auto simp: add.assoc)
qed

lemma takeWhile_index:
  assumes "atom \<in> xatom ` set xs"
  defines "i \<equiv> length (takeWhile (\<lambda>x. xatom x \<noteq> atom) xs)"
  shows "i < length xs" "xatom (xs ! i) = atom"
    "map_of (map (\<lambda>x. (xatom x, body x)) xs) atom = Some (body (xs ! i))"
  using assms(1) unfolding i_def by (induction xs) auto

lemma map_of_xattrs_None:
  "map_of (map (\<lambda>x. (xatom x, body x)) xs) atom = None \<longleftrightarrow> atom \<notin> xatom ` set xs"
  by (force simp: map_of_eq_None_iff)

lemma xcache_lookup_map:
  assumes "inode_xok ino"
  shows "case xattr_map ino atom of
      None \<Rightarrow> xcache_lookup (xcache ino) atom = Some (Inl ENOATTR)
    | Some data \<Rightarrow> \<exists>xc i. xcache ino = Some xc \<and> xcache_lookup (xcache ino) atom = Some (Inr i)
        \<and> i < length (xattrs xc) \<and> xatom (xattrs xc ! i) = atom \<and> body (xattrs xc ! i) = data"
proof (cases "xcache ino")
  case None
  then show ?thesis by (simp add: xattr_map_def xcache_lookup_def)
next
  case (Some xc)
  let ?xs = "xattrs xc"
  have sz: "xc_size xc = 4 + sum_list (map xattr_bytes ?xs)"
    using assms Some by (auto simp: inode_xok_def xcache_ok_def)
  show ?thesis
  proof (cases "atom \<in> xatom ` set ?xs")
    case True
    then show ?thesis
      using Some sz takeWhile_index [OF True]
      by (simp add: xattr_map_def xcache_lookup_def xcache_search_all)
  next
    case False
    then have "xattr_map ino atom = None" using Some by (simp add: xattr_map_def map_of_xattrs_None)
    then show ?thesis
      using Some sz False by (simp add: xcache_lookup_def xcache_search_all)
  qed
qed

lemma xattr_index_unique:
  assumes "distinct (map xatom xs)" "i < length xs" "xatom (xs ! i) = atom"
  shows "map_of (map (\<lambda>x. (xatom x, body x)) (take i xs @ drop (i + 1) xs))
    = (map_of (map (\<lambda>x. (xatom x, body x)) xs))(atom := None)"
proof -
  have xs: "xs = take i xs @ xs ! i # drop (i + 1) xs" using assms(2) id_take_nth_drop by auto
  then have d: "distinct (map xatom (take i xs @ xs ! i # drop (i + 1) xs))" using assms(1) by metis
  then have n: "atom \<notin> xatom ` set (take i xs)" "atom \<notin> xatom ` set (drop (i + 1) xs)"
    using assms(3) by auto
  let ?f = "map (\<lambda>x. (xatom x, body x))"
  have "map_of (?f xs) = (map_of (?f (drop (i + 1) xs)))(atom \<mapsto> body (xs ! i)) ++ map_of (?f (take i xs))"
    by (subst xs) (simp add: assms(3))
  moreover have "map_of (?f (drop (i + 1) xs)) atom = None" "map_of (?f (take i xs)) atom = None"
    using n by (simp_all add: map_of_xattrs_None)
  ultimately show ?thesis
    by (auto simp: fun_eq_iff map_add_def split: option.splits)
qed

lemma remove_old_ok:
  assumes "xcache_ok xc" "distinct (map xatom (xattrs xc))" "i < length (xattrs xc)"
  shows "xcache_ok (remove_old xc i)" "distinct (map xatom (xattrs (remove_old xc i)))"
    "xc_size (remove_old xc i) \<le> xc_size xc"
    "xattr_map (ino\<lparr>xcache := Some (remove_old xc i)\<rparr>) = (xattr_map (ino\<lparr>xcache := Some xc\<rparr>))(xatom (xattrs xc ! i) := None)"
    "xatom (xattrs xc ! i) \<notin> xatom ` set (xattrs (remove_old xc i))"
proof -
  let ?xs = "xattrs xc"
  have xs: "?xs = take i ?xs @ ?xs ! i # drop (i + 1) ?xs" using assms(3) id_take_nth_drop by auto
  have sum: "sum_list (map xattr_bytes ?xs)
    = xattr_bytes (?xs ! i) + sum_list (map xattr_bytes (take i ?xs @ drop (i + 1) ?xs))"
    by (subst xs) simp
  have sz: "xc_size xc = 4 + sum_list (map xattr_bytes ?xs)" "xc_size xc < 2 ^ 16"
    using assms(1) by (simp_all add: xcache_ok_def)
  have new: "xc_size (remove_old xc i) = 4 + sum_list (map xattr_bytes (take i ?xs @ drop (i + 1) ?xs))"
    using sz sum by (simp add: remove_old_def)
  then show "xc_size (remove_old xc i) \<le> xc_size xc" using sz sum by simp
  have sub: "set (take i ?xs @ drop (i + 1) ?xs) \<subseteq> set ?xs" by (subst (3) xs) auto
  then show "xcache_ok (remove_old xc i)"
    using assms(1) new sz sum by (auto simp: xcache_ok_def remove_old_def)
  have d: "distinct (map xatom (take i ?xs @ ?xs ! i # drop (i + 1) ?xs))" using assms(2) xs by metis
  then show "distinct (map xatom (xattrs (remove_old xc i)))"
    "xatom (xattrs xc ! i) \<notin> xatom ` set (xattrs (remove_old xc i))"
    by (auto simp: remove_old_def)
  show "xattr_map (ino\<lparr>xcache := Some (remove_old xc i)\<rparr>) = (xattr_map (ino\<lparr>xcache := Some xc\<rparr>))(xatom (xattrs xc ! i) := None)"
    using xattr_index_unique [OF assms(2,3) refl] by (simp add: xattr_map_def remove_old_def)
qed

lemma xcache_insert_ok:
  assumes "inode_xok ino" "xattr_map ino atom = None" "atom < 2 ^ 16" "xcache_room ino (length data)"
  defines "ino' \<equiv> ino\<lparr>xcache := Some (xcache_insert (xcache ino) atom data)\<rparr>"
  shows "inode_xok ino' \<and> xattr_map ino' = (xattr_map ino)(atom \<mapsto> data)"
proof -
  define xs where "xs = (case xcache ino of None \<Rightarrow> [] | Some xc \<Rightarrow> xattrs xc)"
  define n where "n = (case xcache ino of None \<Rightarrow> 4 | Some xc \<Rightarrow> xc_size xc)"
  have m: "xattr_map ino = map_of (map (\<lambda>x. (xatom x, body x)) xs)"
    by (simp add: xattr_map_def xs_def split: option.splits)
  have xok: "n = 4 + sum_list (map xattr_bytes xs)" "distinct (map xatom xs)" "\<forall>x\<in>set xs. xatom x < 2 ^ 16"
    using assms(1) by (cases "xcache ino"; simp add: inode_xok_def xcache_ok_def n_def xs_def)+
  have len: "n + 4 + length data < 2 ^ 16" using assms(4) by (simp add: xcache_room_def n_def)
  have new: "xc_size (xcache_insert (xcache ino) atom data) = n + (4 + length data)"
    "xattrs (xcache_insert (xcache ino) atom data) = xs @ [\<lparr>xatom = atom, body = data\<rparr>]"
    "xcache ino' = Some (xcache_insert (xcache ino) atom data)"
    using len assms(3)
    by (cases "xcache ino"; simp add: ino'_def xcache_insert_def Let_def new_xcache_def n_def xs_def)+
  have na: "atom \<notin> xatom ` set xs" using assms(2) unfolding m map_of_xattrs_None .
  have "xattr_map ino' = map_of (map (\<lambda>x. (xatom x, body x)) xs @ [(atom, data)])"
    using new by (simp add: xattr_map_def)
  also have "\<dots> = (map_of (map (\<lambda>x. (xatom x, body x)) xs))(atom \<mapsto> data)"
    using na map_of_xattrs_None [of xs atom] by (auto simp: fun_eq_iff map_add_def split: option.splits)
  finally have "xattr_map ino' = (xattr_map ino)(atom \<mapsto> data)" by (simp add: m)
  moreover have "inode_xok ino'"
    using new xok len na assms(3) by (auto simp: inode_xok_def xcache_ok_def xattr_bytes_def [of "\<lparr>xatom = atom, body = data\<rparr>"])
  ultimately show ?thesis by blast
qed


lemma update_xcache_cases:
  assumes ok: "inode_xok ino" and atom: "atom < 2 ^ 16" and room: "xcache_room ino (length data)"
  shows "\<exists>ino'. inode_xok ino' \<and> xattr_map ino' = (xattr_map ino)(atom \<mapsto> data)
    \<and> update_xcache ino s atom data flags =
      (case xattr_map ino atom of
         None \<Rightarrow> if bit flags XATTR_REPLACE then Some (Inl ENOATTR, ino, s)
           else map_option (\<lambda>(_, s). (Inr (), ino', s)) (use_atom s atom 1)
       | Some _ \<Rightarrow> if bit flags XATTR_CREATE then Some (Inl EEXIST, ino, s) else Some (Inr (), ino', s))"
proof (cases "xattr_map ino atom")
  case None
  let ?ino = "ino\<lparr>xcache := Some (xcache_insert (xcache ino) atom data)\<rparr>"
  have "xcache_lookup (xcache ino) atom = Some (Inl ENOATTR)"
    using xcache_lookup_map [OF ok, of atom] None by simp
  then have "update_xcache ino s atom data flags =
      (if bit flags XATTR_REPLACE then Some (Inl ENOATTR, ino, s)
       else map_option (\<lambda>(_, s). (Inr (), ?ino, s)) (use_atom s atom 1))"
    by (cases "use_atom s atom 1") (auto simp: update_xcache_def)
  then show ?thesis
    using None xcache_insert_ok [OF ok None atom room] by (intro exI [of _ ?ino]) simp
next
  case (Some old)
  then obtain xc i where xc: "xcache ino = Some xc" "xcache_lookup (xcache ino) atom = Some (Inr i)"
    "i < length (xattrs xc)" "xatom (xattrs xc ! i) = atom"
    using xcache_lookup_map [OF ok, of atom] by auto
  let ?xc = "remove_old xc i"
  let ?ino1 = "ino\<lparr>xcache := Some ?xc\<rparr>"
  let ?ino = "ino\<lparr>xcache := Some (xcache_insert (Some ?xc) atom data)\<rparr>"
  have xok: "xcache_ok xc" "distinct (map xatom (xattrs xc))" using ok xc(1) by (auto simp: inode_xok_def)
  note r = remove_old_ok [OF xok xc(3)]
  have id: "ino\<lparr>xcache := Some xc\<rparr> = ino" using xc(1) by (cases ino) simp
  have "inode_xok ?ino1" using r by (simp add: inode_xok_def)
  moreover have m: "xattr_map ?ino1 = (xattr_map ino)(atom := None)" using r(4) [of ino] xc(4) id by simp
  moreover have "xcache_room ?ino1 (length data)" using room r(3) xc(1) by (simp add: xcache_room_def)
  ultimately have "inode_xok ?ino \<and> xattr_map ?ino = (xattr_map ino)(atom \<mapsto> data)"
    using xcache_insert_ok [of ?ino1 atom data] atom by simp
  moreover have "update_xcache ino s atom data flags =
      (if bit flags XATTR_CREATE then Some (Inl EEXIST, ino, s) else Some (Inr (), ?ino, s))"
    using xc by (simp add: update_xcache_def)
  ultimately show ?thesis using Some by (intro exI [of _ ?ino]) simp
qed

lemma get_xattr_map:
  assumes "inode_xok ino" "find_atom s name \<noteq> no_atom"
  shows "get_xattr ino s name sz = Some (case xattr_map ino (find_atom s name) of
      None \<Rightarrow> Inl ENOATTR
    | Some data \<Rightarrow> if length data \<le> sz then Inr (length data, data)
        else if sz \<noteq> 0 then Inl ERANGE else Inr (length data, []))"
  using xcache_lookup_map [OF assms(1), of "find_atom s name"] assms(2)
  by (auto simp: get_xattr_def Let_def split: option.splits)

lemma find_atom_cong:
  assumes "atoms_ok s fl" "atoms_ok s' fl'" "dir_map (atable s') = dir_map (atable s)" "dir_name name"
  shows "find_atom s' name = find_atom s name"
  using find_atom_cases [OF assms(1,4)]
proof
  assume "\<exists>p t. dir_map (atable s) p = Some (name, find_atom s name, t) \<and> find_atom s name < 2 ^ 32 - 1"
  then show ?thesis using find_atom_eq [OF assms(2,4)] assms(3) by metis
next
  assume "find_atom s name = no_atom \<and> (\<forall>p a t. dir_map (atable s) p \<noteq> Some (name, a, t))"
  then show ?thesis using find_atom_cases [OF assms(2,4)] assms(3) by auto
qed

lemma find_atom_inj:
  assumes ok: "atoms_ok s fl" and "dir_name x" "dir_name y" "find_atom s x = find_atom s y" "find_atom s x \<noteq> no_atom"
  shows "x = y"
proof -
  obtain p t where p: "dir_map (atable s) p = Some (x, find_atom s x, t)"
    using find_atom_cases [OF ok assms(2)] assms(5) by blast
  obtain q t' where q: "dir_map (atable s) q = Some (y, find_atom s x, t')"
    using find_atom_cases [OF ok assms(3)] assms(4,5) by metis
  have "dir_pos (atable s) p = dir_pos (atable s) q" using ok p q unfolding atoms_ok_def by metis
  moreover have "wf_dir (atable s)" using ok by (simp add: atoms_ok_def atoms_layout_def)
  ultimately have "p = q" using dir_map_block p q by (metis prod_eqI)
  then show ?thesis using p q by simp
qed

lemma use_atom_cases:
  assumes "atoms_ok s fl" and "dir_map (atable s) p = Some (name, a, t)"
    and "- 65536 < use" and "use < 65536"
    and "0 \<le> int (atom_refs s a) + use" and "int (atom_refs s a) + use < 2 ^ 32"
  shows "\<exists>s'. use_atom s a use = Some (Inr (), s')
    \<and> (\<forall>c < 2 ^ 32. atom_refs s' c = (if c = a then nat (int (atom_refs s a) + use) else atom_refs s c))
    \<and> (if int (atom_refs s a) + use = 0
       then atoms_ok s' (a # fl) \<and> dir_map (atable s') = (dir_map (atable s))(p := None)
       else atoms_ok s' fl \<and> dir_map (atable s') = dir_map (atable s))"
proof -
  have a: "a < 2 ^ 32" using atoms_ok_bound [OF assms(1,2)] by simp
  have lay: "atoms_layout s" using assms(1) by (simp add: atoms_ok_def)
  obtain s1 where u: "use_atom s a use
      = (if int (atom_refs s a) + use = 0 then kill_atom s1 a else Some (Inr (), s1))"
    and lay1: "atoms_layout s1" and dm: "dir_map (atable s1) = dir_map (atable s)"
    and wr: "\<forall>c < 2 ^ 32. atom_where s1 c = atom_where s c
        \<and> atom_refs s1 c = (if c = a then nat (int (atom_refs s a) + use) else atom_refs s c)"
    and fields: "freeatom s1 = freeatom s" "atomgen s1 = atomgen s" "d_bits (atable s1) = d_bits (atable s)"
    using use_atom_split [OF lay a assms(3-6)] by blast
  have "atoms_ok s1 fl"
    using atoms_ok_cong [OF assms(1) lay1 dm fields] wr by blast
  then show ?thesis
    using kill_atom_ok [of s1 fl p name a t] u wr assms(2) dm by auto
qed

lemma make_atom_ok:
  assumes "atoms_ok s fl" and "atomgen s < 2 ^ 32 - 1" and "dir_name name"
    and "d_size (atable s) + d_blocksize (atable s) < 2 ^ 32" and "d_nblocks (atable s) + 1 < atomref_base s"
  shows "\<exists>a s' fl'. make_atom s name = (a, s') \<and> atoms_ok s' fl' \<and> a \<noteq> no_atom
    \<and> find_atom s' name = a \<and> unatom s' a 0 = Inr name
    \<and> (\<forall>other. dir_name other \<and> other \<noteq> name \<longrightarrow> find_atom s' other = find_atom s other)
    \<and> (\<forall>c < 2 ^ 32. atom_refs s' c = atom_refs s c)"
proof (cases "\<exists>p a t. dir_map (atable s) p = Some (name, a, t)")
  case True
  then obtain p a t where p: "dir_map (atable s) p = Some (name, a, t)" by blast
  have "find_atom s name = a" by (rule find_atom_eq [OF assms(1,3) p])
  moreover have "a \<noteq> no_atom" using atoms_ok_bound [OF assms(1) p] by (simp add: no_atom_def)
  ultimately show ?thesis
    using assms(1) unatom_name(1) [OF assms(1) p]
    by (intro exI [of _ a] exI [of _ s] exI [of _ fl]) (simp add: make_atom_def)
next
  case False
  then obtain a s' fl' p where m: "make_atom s name = (a, s')" "atoms_ok s' fl'" "a < 2 ^ 32 - 1"
    "dir_map (atable s) p = None" "dir_map (atable s') = (dir_map (atable s))(p \<mapsto> (name, a, 0))"
    "\<forall>c < 2 ^ 32. atom_refs s' c = atom_refs s c"
    using make_atom_fresh [OF assms(1-3) _ assms(4,5)] by blast
  have p': "dir_map (atable s') p = Some (name, a, 0)" using m(5) by simp
  have "find_atom s' other = find_atom s other" if o: "dir_name other" "other \<noteq> name" for other
    using find_atom_cases [OF assms(1) o(1)]
  proof
    assume "\<exists>q t. dir_map (atable s) q = Some (other, find_atom s other, t) \<and> find_atom s other < 2 ^ 32 - 1"
    then obtain q t where "dir_map (atable s') q = Some (other, find_atom s other, t)"
      using m(4,5) by (metis fun_upd_other option.distinct(1))
    then show ?thesis by (rule find_atom_eq [OF m(2) o(1)])
  next
    assume "find_atom s other = no_atom \<and> (\<forall>q x t. dir_map (atable s) q \<noteq> Some (other, x, t))"
    then show ?thesis
      using find_atom_cases [OF m(2) o(1)] m(5) o(2) by (auto split: if_splits)
  qed
  then show ?thesis
    using m find_atom_eq [OF m(2) assms(3) p'] unatom_name(1) [OF m(2) p']
    by (intro exI [of _ a] exI [of _ s'] exI [of _ fl']) (simp add: no_atom_def)
qed


lemma use_atom_named:
  assumes "atoms_ok s fl" "dir_name name" "find_atom s name = a" "a \<noteq> no_atom"
    "0 < use" "use < 65536" "int (atom_refs s a) + use < 2 ^ 32"
  shows "\<exists>s'. use_atom s a use = Some (Inr (), s') \<and> atoms_ok s' fl \<and> dir_map (atable s') = dir_map (atable s)"
proof -
  obtain p t where "dir_map (atable s) p = Some (name, a, t)"
    using find_atom_cases [OF assms(1,2)] assms(3,4) by blast
  then show ?thesis using use_atom_cases [OF assms(1), of p name a t use] assms(5-7) by auto
qed

section \<open>Properties\<close>

text \<open>C31. A change of the use count of a named atom changes that atom's 32-bit count and no other,
  with the carry or borrow between the two tables. When the count comes to zero the atom's name
  leaves the dictionary and the atom becomes the head of the free list; the table stays
  consistent either way.\<close>

theorem use_atom_counts:
  assumes "atoms_ok s fl" and "dir_map (atable s) p = Some (name, a, t)"
    and "- 65536 < use" and "use < 65536"
    and "0 \<le> int (atom_refs s a) + use" and "int (atom_refs s a) + use < 2 ^ 32"
  shows "\<exists>s'. use_atom s a use = Some (Inr (), s')
    \<and> (\<forall>c < 2 ^ 32. atom_refs s' c = (if c = a then nat (int (atom_refs s a) + use) else atom_refs s c))
    \<and> (if int (atom_refs s a) + use = 0
       then atoms_ok s' (a # fl) \<and> dir_map (atable s') = (dir_map (atable s))(p := None)
       else atoms_ok s' fl \<and> dir_map (atable s') = dir_map (atable s))"
  by (rule use_atom_cases [OF assms])

text \<open>C30. A name that has an atom gets that atom; a new name gets a fresh one, with its entry in the
  dictionary and in the reverse map. Afterwards the name and the atom lead to each other, no other
  name has changed its atom, and no use count has changed.\<close>

theorem make_atom_correct:
  assumes "atoms_ok s fl" and "atomgen s < 2 ^ 32 - 1" and "dir_name name"
    and "d_size (atable s) + d_blocksize (atable s) < 2 ^ 32" and "d_nblocks (atable s) + 1 < atomref_base s"
  shows "\<exists>a s' fl'. make_atom s name = (a, s') \<and> atoms_ok s' fl' \<and> a \<noteq> no_atom
    \<and> find_atom s' name = a \<and> unatom s' a 0 = Inr name
    \<and> (\<forall>other. dir_name other \<and> other \<noteq> name \<longrightarrow> find_atom s' other = find_atom s other)
    \<and> (\<forall>c < 2 ^ 32. atom_refs s' c = atom_refs s c)"
  by (rule make_atom_ok [OF assms])

text \<open>C29. Setting an attribute without flags makes it readable with the value that was set, leaves
  every other attribute of the inode as it was, and keeps the cache and the atom table
  consistent, as long as the atom fits the 16 bits of the cache's entries.\<close>

theorem set_get_xattr:
  assumes "atoms_ok s fl" and "atomgen s < 2 ^ 32 - 1" and "dir_name name"
    and "d_size (atable s) + d_blocksize (atable s) < 2 ^ 32" and "d_nblocks (atable s) + 1 < atomref_base s"
    and "inode_xok ino" and "xcache_room ino (length data)"
    and "fst (make_atom s name) < 2 ^ 16" and "atom_refs s (fst (make_atom s name)) < 2 ^ 32 - 1"
  shows "\<exists>ino' s' fl'. set_xattr ino s name data 0 = Some (Inr (), ino', s') \<and> atoms_ok s' fl' \<and> inode_xok ino'
    \<and> get_xattr ino' s' name (length data) = Some (Inr (length data, data))
    \<and> (\<forall>other sz. dir_name other \<and> other \<noteq> name \<longrightarrow> get_xattr ino' s' other sz = get_xattr ino s other sz)"
proof -
  obtain a s1 fl1 where m: "make_atom s name = (a, s1)" "atoms_ok s1 fl1" "a \<noteq> no_atom" "find_atom s1 name = a"
    "\<forall>other. dir_name other \<and> other \<noteq> name \<longrightarrow> find_atom s1 other = find_atom s other"
    "\<forall>c < 2 ^ 32. atom_refs s1 c = atom_refs s c" "a < 2 ^ 16"
    using make_atom_ok [OF assms(1-5)] assms(8) by auto
  obtain ino' where u: "inode_xok ino'" "xattr_map ino' = (xattr_map ino)(a \<mapsto> data)"
    "update_xcache ino s1 a data 0 = (case xattr_map ino a of
       None \<Rightarrow> map_option (\<lambda>(_, s). (Inr (), ino', s)) (use_atom s1 a 1) | Some _ \<Rightarrow> Some (Inr (), ino', s1))"
    using update_xcache_cases [OF assms(6) m(7) assms(7), of s1 0] by (simp cong: option.case_cong) blast
  have "\<exists>s' fl'. update_xcache ino s1 a data 0 = Some (Inr (), ino', s') \<and> atoms_ok s' fl'
    \<and> dir_map (atable s') = dir_map (atable s1)"
  proof (cases "xattr_map ino a")
    case None
    have "atom_refs s1 a < 2 ^ 32 - 1" using m(1,6,7) assms(9) by simp
    then show ?thesis
      using use_atom_named [OF m(2) _ m(4,3), of 1] assms(3) u(3) None by fastforce
  qed (use u(3) m(2) in auto)
  then obtain s' fl' where s': "update_xcache ino s1 a data 0 = Some (Inr (), ino', s')" "atoms_ok s' fl'"
    "dir_map (atable s') = dir_map (atable s1)" by blast
  have set: "set_xattr ino s name data 0 = Some (Inr (), ino', s')"
    using m(1,3) s'(1) by (simp add: set_xattr_def)
  have f: "find_atom s' x = find_atom s1 x" if "dir_name x" for x
    by (rule find_atom_cong [OF m(2) s'(2,3) that])
  have "get_xattr ino' s' name (length data) = Some (Inr (length data, data))"
    using get_xattr_map [OF u(1), of s' name] f [OF assms(3)] m(3,4) u(2) by simp
  moreover have "get_xattr ino' s' other sz = get_xattr ino s other sz" if o: "dir_name other" "other \<noteq> name" for other sz
  proof (cases "find_atom s other = no_atom")
    case True
    then show ?thesis using f [OF o(1)] m(5) o by (simp add: get_xattr_def)
  next
    case False
    have eq: "find_atom s' other = find_atom s other" using f [OF o(1)] m(5) o by simp
    then have "find_atom s other \<noteq> a"
      using find_atom_inj [OF s'(2) o(1) assms(3)] f [OF assms(3)] m(4) False o(2) by auto
    then show ?thesis
      using get_xattr_map [OF u(1), of s' other sz] get_xattr_map [OF assms(6) False, of sz] eq False u(2) by simp
  qed
  ultimately show ?thesis using set s'(2) u(1) by blast
qed

text \<open>The cache keeps 16 bits of an atom: a value that is set under a larger one is not found
  again.\<close>

lemma xattr_atom_truncated:
  assumes "2 ^ 16 \<le> atom" "length data < 2 ^ 15"
  shows "xcache_lookup (Some (xcache_insert None atom data)) atom = Some (Inl ENOATTR)"
  using assms
  by (simp add: xcache_lookup_def xcache_insert_def new_xcache_def Let_def xcache_search.simps xattr_bytes_def)

text \<open>When the names written so far fill the caller's buffer exactly, the next name is fetched as
  if only its length were wanted and its end is written behind the buffer.\<close>

lemma xattr_list_overrun:
  assumes "0 < sz" "length text = sz" "unatom s (xatom x) 0 = Inr name" "name \<noteq> []"
    "pos + xattr_bytes x = limit"
  shows "xattr_list_loop s sz limit [x] pos text = Some (Inr (text @ name @ [0]))"
    "length (text @ name @ [0]) > sz"
  using assms by (simp_all add: xattr_list_loop.simps xattr_bytes_def)

section \<open>Witnesses\<close>

definition demo_atoms :: atoms where
  "demo_atoms = \<lparr>atable = demo_dir\<lparr>d_blocks := \<lambda>n. if n < 2 ^ 31 then None else Some (replicate 512 0)\<rparr>,
     atomref_base = 2 ^ 31, unatom_base = 2 ^ 31 + 2 ^ 25, freeatom = 0, atomgen = 1\<rparr>"

lemma demo_atoms_ok: "atoms_ok demo_atoms []" "dir_map (atable demo_atoms) p = None"
  "d_size (atable demo_atoms) + d_blocksize (atable demo_atoms) < 2 ^ 32"
  "d_nblocks (atable demo_atoms) + 1 < atomref_base demo_atoms" "atomgen demo_atoms < 2 ^ 32 - 1"
proof -
  have n: "d_nblocks (atable demo_atoms) = 0"
    by (simp add: d_nblocks_def demo_atoms_def demo_dir_def wrap32_def)
  show e: "dir_map (atable demo_atoms) p = None" for p by (simp add: dir_map_def n)
  have "wf_dir (atable demo_atoms)"
    unfolding wf_dir_def n by (simp add: demo_atoms_def demo_dir_def)
  moreover have "ablock demo_atoms m = Some (replicate 512 0)" if "2 ^ 31 \<le> m" for m
    using that by (simp add: ablock_def demo_atoms_def)
  ultimately have "atoms_layout demo_atoms"
    unfolding atoms_layout_def n by (auto simp: demo_atoms_def demo_dir_def table_end_def d_blocksize_def)
  moreover have "dirs.unique (atable demo_atoms)" by (simp add: dirs.unique_def dir_entries_def e)
  ultimately show "atoms_ok demo_atoms []"
    unfolding atoms_ok_def using e by (simp add: demo_atoms_def)
  show "d_size (atable demo_atoms) + d_blocksize (atable demo_atoms) < 2 ^ 32" "atomgen demo_atoms < 2 ^ 32 - 1"
    by (simp_all add: demo_atoms_def demo_dir_def d_blocksize_def)
  show "d_nblocks (atable demo_atoms) + 1 < atomref_base demo_atoms" unfolding n by (simp add: demo_atoms_def)
qed

lemma demo_atoms_refs: "c < 2 ^ 32 \<Longrightarrow> atom_refs demo_atoms c = 0"
proof -
  assume c: "c < 2 ^ 32"
  have lay: "atoms_layout demo_atoms" using demo_atoms_ok(1) by (simp add: atoms_ok_def)
  note p = atomref_place [OF lay c]
  have "load16 (replicate 512 0) (2 * atomref_offset demo_atoms c) = 0"
    using p(4) by (simp add: load16_def load8_def demo_atoms_def demo_dir_def d_blocksize_def)
  moreover have "2 ^ 31 \<le> atomref_block demo_atoms c" using p(2) by (simp add: demo_atoms_def)
  ultimately show ?thesis by (simp add: atom_refs_def ablock_def) (simp add: demo_atoms_def)
qed

lemma demo_atoms_make:
  "\<exists>s' fl' p. make_atom demo_atoms [117] = (1, s') \<and> atoms_ok s' fl'
    \<and> dir_map (atable s') p = Some ([117], 1, 0) \<and> atom_refs s' 1 = 0"
proof -
  have "get_freeatom demo_atoms = (1, demo_atoms\<lparr>atomgen := 2\<rparr>)"
    by (simp add: get_freeatom_def demo_atoms_def wrap32_def)
  moreover have "find_atom demo_atoms [117] = no_atom"
    using find_atom_cases [OF demo_atoms_ok(1), of "[117]"] demo_atoms_ok(2) by (simp add: dir_name_def)
  ultimately have "fst (make_atom demo_atoms [117]) \<in> {1, no_atom}"
    by (auto simp: make_atom_def Let_def split: sum.splits prod.splits option.splits)
  moreover obtain a s' fl' p where m: "make_atom demo_atoms [117] = (a, s')" "atoms_ok s' fl'" "a < 2 ^ 32 - 1"
    "dir_map (atable s') = (dir_map (atable demo_atoms))(p \<mapsto> ([117], a, 0))"
    "\<forall>c < 2 ^ 32. atom_refs s' c = atom_refs demo_atoms c"
    using make_atom_fresh [OF demo_atoms_ok(1,5), of "[117]"] demo_atoms_ok(2-4)
    by (force simp: dir_name_def)
  ultimately have a: "a = 1" by (simp add: no_atom_def)
  have "dir_map (atable s') p = Some ([117], 1, 0)" "atom_refs s' 1 = 0"
    using m(4,5) a demo_atoms_refs [of 1] by simp_all
  then show ?thesis using m(1,2) a by blast
qed

theorem use_atom_counts_witness:
  "\<exists>s s'. use_atom s 1 1 = Some (Inr (), s') \<and> atom_refs s 1 = 0 \<and> atom_refs s' 1 = 1"
proof -
  obtain s fl p where s: "atoms_ok s fl" "dir_map (atable s) p = Some ([117], 1, 0)" "atom_refs s 1 = 0"
    using demo_atoms_make by blast
  then show ?thesis using use_atom_counts [OF s(1,2), of 1] by force
qed

theorem make_atom_correct_witness:
  "\<exists>a s'. make_atom demo_atoms [117] = (a, s') \<and> find_atom s' [117] = a \<and> unatom s' a 0 = Inr [117]"
  using make_atom_correct [OF demo_atoms_ok(1,5) _ demo_atoms_ok(3,4), of "[117]"] by (auto simp: dir_name_def)

theorem set_get_xattr_witness:
  "\<exists>ino s. set_xattr (demo_inode\<lparr>xcache := None\<rparr>) demo_atoms [117] [7, 8] 0 = Some (Inr (), ino, s)
    \<and> get_xattr ino s [117] 2 = Some (Inr (2, [7, 8]))"
proof -
  have "fst (make_atom demo_atoms [117]) = 1" using demo_atoms_make by auto
  then obtain ino s where "set_xattr (demo_inode\<lparr>xcache := None\<rparr>) demo_atoms [117] [7, 8] 0 = Some (Inr (), ino, s)"
    "get_xattr ino s [117] (length ([7, 8] :: bytes)) = Some (Inr (length ([7, 8] :: bytes), [7, 8]))"
    using set_get_xattr [OF demo_atoms_ok(1,5) _ demo_atoms_ok(3,4), of "[117]" "demo_inode\<lparr>xcache := None\<rparr>" "[7, 8]"]
      demo_atoms_refs [of 1]
    by (auto simp: dir_name_def inode_xok_def xcache_room_def)
  then show ?thesis by (simp add: numeral_2_eq_2)
qed

end
