(* ===== verification/Tux_Stash.thy ===== *)
theory Tux_Stash
  imports Tux_Prelude
begin

text \<open>
  The stash of \<open>kernel/log.c\<close>, a queue of 64-bit values in linked pages, with the circular lists
  of \<open>kernel/link.h\<close> and the page allocator of \<open>knlcompat.h\<close>. The memory is explicit: the
  next pointers of the links, the values on the pages, the pages that can be allocated and the
  stashes of the superblock, by number. A pointer into a page is the page and an index. The
  queue that a stash stands for is stated as a relation, and the operations are shown to keep it.
\<close>

section \<open>Memory and pages\<close>

definition PAGE_VALUES :: nat where "PAGE_VALUES = 8"

record stash =
  stash_tail :: "nat option"
  stash_pos :: "(nat \<times> nat) option"
  stash_top :: "(nat \<times> nat) option"

record stash_mem =
  link_next :: "nat \<Rightarrow> nat"
  page_vec :: "nat \<Rightarrow> nat list"
  page_pool :: "nat list"
  stashes :: "nat \<Rightarrow> stash"

text \<open>\<open>alloc_page\<close> hands out a page of the pool; an empty pool is a failed allocation.\<close>

definition alloc_page :: "'a stash_mem_scheme \<Rightarrow> (nat \<times> 'a stash_mem_scheme) option" where
  "alloc_page m = (case page_pool m of [] \<Rightarrow> None | p # ps \<Rightarrow> Some (p, m\<lparr>page_pool := ps\<rparr>))"

definition free_page :: "'a stash_mem_scheme \<Rightarrow> nat \<Rightarrow> 'a stash_mem_scheme" where
  "free_page m p = m\<lparr>page_pool := p # page_pool m\<rparr>"

definition set_stash :: "'a stash_mem_scheme \<Rightarrow> nat \<Rightarrow> stash \<Rightarrow> 'a stash_mem_scheme" where
  "set_stash m i st = m\<lparr>stashes := (stashes m)(i := st)\<rparr>"

section \<open>Circular lists\<close>

definition init_link_circular :: "'a stash_mem_scheme \<Rightarrow> nat \<Rightarrow> 'a stash_mem_scheme" where
  "init_link_circular m head = m\<lparr>link_next := (link_next m)(head := head)\<rparr>"

definition link_empty :: "'a stash_mem_scheme \<Rightarrow> nat \<Rightarrow> bool" where
  "link_empty m head \<longleftrightarrow> link_next m head = head"

definition link_add :: "'a stash_mem_scheme \<Rightarrow> nat \<Rightarrow> nat \<Rightarrow> 'a stash_mem_scheme" where
  "link_add m node head =
     m\<lparr>link_next := (link_next m)(node := link_next m head, head := node)\<rparr>"

definition link_del_next :: "'a stash_mem_scheme \<Rightarrow> nat \<Rightarrow> 'a stash_mem_scheme" where
  "link_del_next m node =
     m\<lparr>link_next := (link_next m)(node := link_next m (link_next m node))\<rparr>"

definition flink_empty :: "stash \<Rightarrow> bool" where
  "flink_empty st \<longleftrightarrow> stash_tail st = None"

definition flink_is_last :: "'a stash_mem_scheme \<Rightarrow> stash \<Rightarrow> bool" where
  "flink_is_last m st \<longleftrightarrow> link_empty m (the (stash_tail st))"

definition flink_next :: "'a stash_mem_scheme \<Rightarrow> stash \<Rightarrow> nat" where
  "flink_next m st = link_next m (the (stash_tail st))"

definition flink_first_add :: "'a stash_mem_scheme \<Rightarrow> nat \<Rightarrow> nat \<Rightarrow> 'a stash_mem_scheme option" where
  "flink_first_add m node i = do {
     c_assert (flink_empty (stashes m i));
     let m = init_link_circular m node;
     Some (set_stash m i ((stashes m i)\<lparr>stash_tail := Some node\<rparr>)) }"

definition flink_add :: "'a stash_mem_scheme \<Rightarrow> nat \<Rightarrow> nat \<Rightarrow> 'a stash_mem_scheme" where
  "flink_add m node i =
     (let m = link_add m node (the (stash_tail (stashes m i)))
      in set_stash m i ((stashes m i)\<lparr>stash_tail := Some node\<rparr>))"

definition flink_del_next :: "'a stash_mem_scheme \<Rightarrow> nat \<Rightarrow> 'a stash_mem_scheme" where
  "flink_del_next m i = link_del_next m (the (stash_tail (stashes m i)))"

section \<open>The stash\<close>

definition stash_init :: "'a stash_mem_scheme \<Rightarrow> nat \<Rightarrow> 'a stash_mem_scheme" where
  "stash_init m i = set_stash m i \<lparr>stash_tail = None, stash_pos = None, stash_top = None\<rparr>"

text \<open>The store and the step of \<open>*stash->pos++ = value\<close>.\<close>

definition stash_store :: "'a stash_mem_scheme \<Rightarrow> nat \<Rightarrow> nat \<Rightarrow> 'a stash_mem_scheme" where
  "stash_store m i val =
     (case the (stash_pos (stashes m i)) of
        (p, k) \<Rightarrow> set_stash (m\<lparr>page_vec := (page_vec m)(p := (page_vec m p)[k := val])\<rparr>) i
          ((stashes m i)\<lparr>stash_pos := Some (p, k + 1)\<rparr>))"

definition stash_value ::
  "'a stash_mem_scheme \<Rightarrow> nat \<Rightarrow> nat \<Rightarrow> ((errno + unit) \<times> 'a stash_mem_scheme) option" where
  "stash_value m i val =
     (if stash_pos (stashes m i) = stash_top (stashes m i) then
        case alloc_page m of
          None \<Rightarrow> Some (Inl ENOMEM, m)
        | Some (page, m) \<Rightarrow> do {
            let m = set_stash m i ((stashes m i)
              \<lparr>stash_top := Some (page, PAGE_VALUES), stash_pos := Some (page, 0)\<rparr>);
            m \<leftarrow> (if \<not> flink_empty (stashes m i) then Some (flink_add m page i)
                  else flink_first_add m page i);
            Some (Inr (), stash_store m i val) }
      else Some (Inr (), stash_store m i val))"

text \<open>A loop over the pages may run for ever on a broken list, which is the value \<open>None\<close> too.\<close>

partial_function (option) empty_stash_loop ::
  "'a stash_mem_scheme \<Rightarrow> nat \<Rightarrow> (nat \<times> 'a stash_mem_scheme) option" where
  "empty_stash_loop m i =
     (let page = flink_next m (stashes m i)
      in if flink_is_last m (stashes m i) then Some (page, m)
         else empty_stash_loop (free_page (flink_del_next m i) page) i)"

definition empty_stash :: "'a stash_mem_scheme \<Rightarrow> nat \<Rightarrow> 'a stash_mem_scheme option" where
  "empty_stash m i =
     (if \<not> flink_empty (stashes m i) then do {
        (page, m) \<leftarrow> empty_stash_loop m i;
        Some (stash_init (free_page m page) i) }
      else Some m)"

type_synonym 'm actor = "'m \<Rightarrow> nat \<Rightarrow> ((errno + unit) \<times> 'm) option"

text \<open>The values of one page, from \<open>vec\<close> up to \<open>lim\<close>.\<close>

function unstash_page ::
  "'a stash_mem_scheme actor \<Rightarrow> nat \<Rightarrow> nat \<Rightarrow> nat \<Rightarrow> 'a stash_mem_scheme
     \<Rightarrow> ((errno + unit) \<times> 'a stash_mem_scheme) option" where
  "unstash_page actor page vec lim m =
     (if vec < lim then
        case actor m (page_vec m page ! vec) of
          None \<Rightarrow> None
        | Some (Inl err, m) \<Rightarrow> Some (Inl err, m)
        | Some (Inr _, m) \<Rightarrow> unstash_page actor page (vec + 1) lim m
      else Some (Inr (), m))"
  by pat_completeness auto
termination
  by (relation "measure (\<lambda>(actor, page, vec, lim, m). lim - vec)") auto

declare unstash_page.simps [simp del]

partial_function (option) unstash_loop ::
  "'a stash_mem_scheme actor \<Rightarrow> nat \<Rightarrow> 'a stash_mem_scheme
     \<Rightarrow> ((errno + nat) \<times> 'a stash_mem_scheme) option" where
  "unstash_loop actor i m =
     (let page = flink_next m (stashes m i);
          lim = (if Some (page, PAGE_VALUES) = stash_top (stashes m i)
                 then snd (the (stash_pos (stashes m i))) else PAGE_VALUES)
      in case unstash_page actor page 0 lim m of
           None \<Rightarrow> None
         | Some (Inl err, m) \<Rightarrow> Some (Inl err, m)
         | Some (Inr _, m) \<Rightarrow>
             if flink_is_last m (stashes m i) then Some (Inr page, m)
             else unstash_loop actor i (free_page (flink_del_next m i) page))"

definition unstash ::
  "'a stash_mem_scheme \<Rightarrow> nat \<Rightarrow> 'a stash_mem_scheme actor
     \<Rightarrow> ((errno + unit) \<times> 'a stash_mem_scheme) option" where
  "unstash m i actor =
     (if flink_empty (stashes m i) then Some (Inr (), m)
      else
        case unstash_loop actor i m of
          None \<Rightarrow> None
        | Some (Inl err, m) \<Rightarrow> Some (Inl err, m)
        | Some (Inr page, m) \<Rightarrow>
            Some (Inr (), set_stash m i ((stashes m i)\<lparr>stash_pos := Some (page, 0)\<rparr>)))"

section \<open>Deferred frees\<close>

definition defer_bfree ::
  "'a stash_mem_scheme \<Rightarrow> nat \<Rightarrow> nat \<Rightarrow> nat \<Rightarrow> ((errno + unit) \<times> 'a stash_mem_scheme) option" where
  "defer_bfree m i block count = stash_value m i (wrap64 (wrap64 (count * 2 ^ 48) + block))"

definition destroy_defer_bfree :: "'a stash_mem_scheme \<Rightarrow> nat \<Rightarrow> 'a stash_mem_scheme option" where
  "destroy_defer_bfree m i = empty_stash m i"


section \<open>The queue that a stash stands for\<close>

fun chain_links :: "(nat \<Rightarrow> nat) \<Rightarrow> nat list \<Rightarrow> bool" where
  "chain_links f (p # q # ps) \<longleftrightarrow> f p = q \<and> chain_links f (q # ps)"
| "chain_links f ps \<longleftrightarrow> True"

definition stash_rep :: "'a stash_mem_scheme \<Rightarrow> nat \<Rightarrow> nat list \<Rightarrow> nat list \<Rightarrow> bool" where
  "stash_rep m i P vs \<longleftrightarrow>
     (if P = [] then stashes m i = \<lparr>stash_tail = None, stash_pos = None, stash_top = None\<rparr> \<and> vs = []
      else \<exists>k \<le> PAGE_VALUES. stashes m i = \<lparr>stash_tail = Some (last P), stash_pos = Some (last P, k),
            stash_top = Some (last P, PAGE_VALUES)\<rparr>
        \<and> chain_links (link_next m) P \<and> link_next m (last P) = hd P \<and> distinct P
        \<and> (\<forall>p\<in>set P. length (page_vec m p) = PAGE_VALUES)
        \<and> vs = concat (map (page_vec m) (butlast P)) @ take k (page_vec m (last P)))"

definition mem_rep :: "'a stash_mem_scheme \<Rightarrow> (nat \<Rightarrow> nat list) \<Rightarrow> (nat \<Rightarrow> nat list) \<Rightarrow> bool" where
  "mem_rep m P vs \<longleftrightarrow> (\<forall>i. stash_rep m i (P i) (vs i)) \<and> (\<forall>i j. i \<noteq> j \<longrightarrow> set (P i) \<inter> set (P j) = {})
     \<and> distinct (page_pool m) \<and> (\<forall>i. set (page_pool m) \<inter> set (P i) = {})
     \<and> (\<forall>p\<in>set (page_pool m). length (page_vec m p) = PAGE_VALUES)"

lemma chain_links_cong: "(\<And>p. p \<in> set ps \<Longrightarrow> f p = g p) \<Longrightarrow> chain_links f ps = chain_links g ps"
  by (induction f ps rule: chain_links.induct) auto

lemma chain_links_append:
  "chain_links f (ps @ [q]) \<longleftrightarrow> chain_links f ps \<and> (ps = [] \<or> f (last ps) = q)"
  by (induction f ps rule: chain_links.induct) auto

lemma chain_links_tl: "chain_links f (p # ps) \<Longrightarrow> chain_links f ps"
  by (cases ps) auto

lemma stash_rep_cong:
  assumes "stashes m' i = stashes m i" "\<And>p. p \<in> set P \<Longrightarrow> link_next m' p = link_next m p \<and> page_vec m' p = page_vec m p"
  shows "stash_rep m' i P vs = stash_rep m i P vs"
proof (cases "P = []")
  case False
  have "chain_links (link_next m') P = chain_links (link_next m) P" using assms(2) by (intro chain_links_cong) auto
  moreover have "concat (map (page_vec m') (butlast P)) = concat (map (page_vec m) (butlast P))"
    using assms(2) by (intro arg_cong [where f = concat] map_cong) (auto dest: in_set_butlastD)
  moreover have "link_next m' (last P) = link_next m (last P)" "page_vec m' (last P) = page_vec m (last P)"
    using assms(2) False by auto
  ultimately show ?thesis using assms False by (simp add: stash_rep_def)
qed (simp add: stash_rep_def assms(1))

lemma stash_rep_same:
  "stash_rep m i P vs \<Longrightarrow> stash_rep m' i P vs' \<Longrightarrow> length vs = length vs' \<Longrightarrow> stashes m' i = stashes m i"
proof (cases "P = []")
  case False
  assume s: "stash_rep m i P vs" "stash_rep m' i P vs'" and l: "length vs = length vs'"
  obtain k k' where k: "k \<le> PAGE_VALUES" "stashes m i = \<lparr>stash_tail = Some (last P), stash_pos = Some (last P, k),
            stash_top = Some (last P, PAGE_VALUES)\<rparr>"
    "vs = concat (map (page_vec m) (butlast P)) @ take k (page_vec m (last P))"
    "\<forall>p\<in>set P. length (page_vec m p) = PAGE_VALUES"
    and k': "k' \<le> PAGE_VALUES" "stashes m' i = \<lparr>stash_tail = Some (last P), stash_pos = Some (last P, k'),
            stash_top = Some (last P, PAGE_VALUES)\<rparr>"
    "vs' = concat (map (page_vec m') (butlast P)) @ take k' (page_vec m' (last P))"
    "\<forall>p\<in>set P. length (page_vec m' p) = PAGE_VALUES"
    using s False by (auto simp: stash_rep_def)
  have "length (concat (map (page_vec m) ps)) = PAGE_VALUES * length ps"
    if "\<forall>p\<in>set ps. length (page_vec m p) = PAGE_VALUES" for ps and m :: "'c stash_mem_scheme"
    using that by (induction ps) auto
  note len = this
  have "\<forall>p\<in>set (butlast P). p \<in> set P" by (auto dest: in_set_butlastD)
  then have "k = k'"
    using k k' l False by (simp add: len)
  then show ?thesis using k(2) k'(2) by simp
qed (simp add: stash_rep_def)

lemma mem_repD:
  assumes "mem_rep m P vs"
  shows "stash_rep m i (P i) (vs i)" "i \<noteq> j \<Longrightarrow> set (P i) \<inter> set (P j) = {}" "distinct (page_pool m)"
    "set (page_pool m) \<inter> set (P i) = {}" "p \<in> set (page_pool m) \<Longrightarrow> length (page_vec m p) = PAGE_VALUES"
  using assms by (auto simp: mem_rep_def)

lemma mem_repI:
  assumes "\<And>i. stash_rep m i (P i) (vs i)" "\<And>i j. i \<noteq> j \<Longrightarrow> set (P i) \<inter> set (P j) = {}"
    "distinct (page_pool m)" "\<And>i. set (page_pool m) \<inter> set (P i) = {}"
    "\<And>p. p \<in> set (page_pool m) \<Longrightarrow> length (page_vec m p) = PAGE_VALUES"
  shows "mem_rep m P vs"
  using assms by (simp add: mem_rep_def)

text \<open>Storing at the position of a stash that has room appends to its queue.\<close>

lemma stash_store_rep:
  assumes rep: "mem_rep m P vs" and pos: "stashes m i = \<lparr>stash_tail = Some (last (P i)), stash_pos = Some (last (P i), k),
      stash_top = Some (last (P i), PAGE_VALUES)\<rparr>" and k: "k < PAGE_VALUES" and ne: "P i \<noteq> []"
  shows "mem_rep (stash_store m i v) P (vs(i := vs i @ [v]))"
proof -
  let ?m = "stash_store m i v" and ?t = "last (P i)"
  note r = mem_repD [OF rep]
  have st: "stashes ?m j = (if j = i then (stashes m i)\<lparr>stash_pos := Some (?t, k + 1)\<rparr> else stashes m j)"
    "link_next ?m = link_next m" "page_pool ?m = page_pool m"
    "page_vec ?m = (page_vec m)(?t := (page_vec m ?t)[k := v])" for j
    using pos by (simp_all add: stash_store_def set_stash_def)
  have chain: "chain_links (link_next m) (P i)" "link_next m ?t = hd (P i)" "distinct (P i)"
    "\<forall>p\<in>set (P i). length (page_vec m p) = PAGE_VALUES"
    "vs i = concat (map (page_vec m) (butlast (P i))) @ take k (page_vec m ?t)"
    using r(1) [of i] ne pos by (auto simp: stash_rep_def)
  have nb: "?t \<notin> set (butlast (P i))" using chain(3) ne by (metis append_butlast_last_id distinct_butlast not_distinct_conv_prefix)
  have own: "stash_rep ?m i (P i) (vs i @ [v])"
  proof -
    have "concat (map (page_vec ?m) (butlast (P i))) = concat (map (page_vec m) (butlast (P i)))"
      using nb st(4) by (intro arg_cong [where f = concat] map_cong) auto
    moreover have "take (k + 1) (page_vec ?m ?t) = take k (page_vec m ?t) @ [v]"
      using k chain(4) ne st(4) by (simp add: take_Suc_conv_app_nth)
    ultimately show ?thesis
      using chain k ne st(1) [of i] st(2) pos unfolding stash_rep_def
      by (auto simp: st(4) intro!: exI [of _ "k + 1"])
  qed
  have other: "stash_rep ?m j (P j) (vs j)" if "j \<noteq> i" for j
  proof -
    have "?t \<notin> set (P j)" using r(2) [OF that] ne by (metis disjoint_iff last_in_set)
    then show ?thesis using r(1) [of j] st that by (subst stash_rep_cong [of _ _ m]) auto
  qed
  show ?thesis
  proof (rule mem_repI)
    show "stash_rep ?m j (P j) ((vs(i := vs i @ [v])) j)" for j using own other by simp
  qed (use r(2-5) st(3,4) in auto)
qed


lemma stash_pos_rep:
  assumes "mem_rep m P vs" "P i \<noteq> []"
  obtains k where "k \<le> PAGE_VALUES" "stashes m i = \<lparr>stash_tail = Some (last (P i)), stash_pos = Some (last (P i), k),
      stash_top = Some (last (P i), PAGE_VALUES)\<rparr>" "chain_links (link_next m) (P i)"
    "link_next m (last (P i)) = hd (P i)" "distinct (P i)" "\<forall>p\<in>set (P i). length (page_vec m p) = PAGE_VALUES"
    "vs i = concat (map (page_vec m) (butlast (P i))) @ take k (page_vec m (last (P i)))"
  using mem_repD(1) [OF assms(1), of i] assms(2) by (auto simp: stash_rep_def)

text \<open>A new page goes behind the last one of the circle, with room for its first value.\<close>

definition grown :: "'a stash_mem_scheme \<Rightarrow> nat \<Rightarrow> nat \<Rightarrow> nat list \<Rightarrow> nat list \<Rightarrow> 'a stash_mem_scheme" where
  "grown m i page ps Q =
     m\<lparr>page_pool := ps,
       link_next := (if Q = [] then (link_next m)(page := page) else (link_next m)(page := hd Q, last Q := page)),
       stashes := (stashes m)(i := \<lparr>stash_tail = Some page, stash_pos = Some (page, 0), stash_top = Some (page, PAGE_VALUES)\<rparr>)\<rparr>"

lemma grown_rep:
  assumes rep: "mem_rep m P vs" and pool: "page_pool m = page # ps"
    and full: "stash_pos (stashes m i) = stash_top (stashes m i)"
  shows "mem_rep (grown m i page ps (P i)) (P(i := P i @ [page])) vs"
proof -
  let ?m = "grown m i page ps (P i)" and ?P = "P(i := P i @ [page])"
  note r = mem_repD [OF rep]
  have new: "page \<notin> set (P j)" for j using r(4) [of j] pool by auto
  have own: "stash_rep ?m i (P i @ [page]) (vs i)"
  proof (cases "P i = []")
    case True
    then show ?thesis
      using r(1) [of i] r(5) [of page] pool by (simp add: stash_rep_def grown_def PAGE_VALUES_def)
  next
    case False
    obtain k where k: "stashes m i = \<lparr>stash_tail = Some (last (P i)), stash_pos = Some (last (P i), k),
        stash_top = Some (last (P i), PAGE_VALUES)\<rparr>" "chain_links (link_next m) (P i)"
      "distinct (P i)" "\<forall>p\<in>set (P i). length (page_vec m p) = PAGE_VALUES"
      "vs i = concat (map (page_vec m) (butlast (P i))) @ take k (page_vec m (last (P i)))"
      using stash_pos_rep [OF rep False] by metis
    have "k = PAGE_VALUES" using full k(1) by simp
    then have "vs i = concat (map (page_vec m) (butlast (P i))) @ page_vec m (last (P i))" using k(4,5) False by simp
    also have "\<dots> = concat (map (page_vec m) (butlast (P i) @ [last (P i)]))"
      by (simp del: append_butlast_last_id)
    finally have v: "vs i = concat (map (page_vec m) (P i))" using False by simp
    have d: "last (P i) \<notin> set (butlast (P i))"
      using k(3) False by (metis append_butlast_last_id distinct_butlast not_distinct_conv_prefix)
    have "chain_links (link_next ?m) (butlast (P i) @ [last (P i)])"
    proof -
      have "chain_links (link_next ?m) (butlast (P i)) = chain_links (link_next m) (butlast (P i))"
        using d new [of i] False by (intro chain_links_cong) (auto simp: grown_def dest: in_set_butlastD)
      moreover have "link_next ?m (last (butlast (P i))) = link_next m (last (butlast (P i)))" if "butlast (P i) \<noteq> []"
      proof -
        have "last (butlast (P i)) \<in> set (butlast (P i))" by (rule last_in_set [OF that])
        then have "last (butlast (P i)) \<noteq> last (P i)" "last (butlast (P i)) \<noteq> page"
          using d new [of i] in_set_butlastD by fastforce+
        then show ?thesis using False by (simp add: grown_def)
      qed
      moreover have "chain_links (link_next m) (butlast (P i) @ [last (P i)])" using k(2) False by simp
      ultimately show ?thesis unfolding chain_links_append by metis
    qed
    then have "chain_links (link_next ?m) (P i)" using False by simp
    then have "chain_links (link_next ?m) (P i @ [page])"
      unfolding chain_links_append using False by (simp add: grown_def)
    moreover have "link_next ?m page = hd (P i)" using False new [of i] by (auto simp: grown_def)
    ultimately show ?thesis
      using False k(3,4) v r(5) [of page] pool new [of i] unfolding stash_rep_def
      by (auto simp: grown_def)
  qed
  have "stash_rep ?m j (P j) (vs j)" if "j \<noteq> i" for j
  proof -
    have l: "P i = [] \<or> last (P i) \<notin> set (P j)" using r(2) [OF that] by (metis disjoint_iff last_in_set)
    have "link_next ?m p = link_next m p \<and> page_vec ?m p = page_vec m p" if "p \<in> set (P j)" for p
    proof -
      have "p \<noteq> page" "P i = [] \<or> p \<noteq> last (P i)" using that l new [of j] by auto
      then show ?thesis by (auto simp: grown_def)
    qed
    moreover have "stashes ?m j = stashes m j" using that by (simp add: grown_def)
    ultimately show ?thesis using r(1) [of j] stash_rep_cong [of ?m j m "P j"] by blast
  qed
  then have reps: "stash_rep ?m j (?P j) (vs j)" for j using own by simp
  have ps: "distinct ps" "page \<notin> set ps" using r(3) pool by auto
  show ?thesis
  proof (rule mem_repI)
    show "set (?P j) \<inter> set (?P j') = {}" if "j \<noteq> j'" for j j'
      using r(2) [OF that] new [of j] new [of j'] that by auto
    show "set (page_pool ?m) \<inter> set (?P j) = {}" for j
      using r(4) [of j] ps pool by (auto simp: grown_def)
    show "length (page_vec ?m p) = PAGE_VALUES" if "p \<in> set (page_pool ?m)" for p
      using r(5) [of p] that pool by (simp add: grown_def)
  qed (use reps ps in \<open>simp_all add: grown_def\<close>)
qed

lemma stash_value_rep:
  assumes rep: "mem_rep m P vs"
  shows "(\<exists>m' P'. stash_value m i v = Some (Inr (), m') \<and> mem_rep m' P' (vs(i := vs i @ [v]))
      \<and> (\<forall>j. j \<noteq> i \<longrightarrow> P' j = P j \<and> (\<forall>p\<in>set (P j). page_vec m' p = page_vec m p))
      \<and> stash_mem.more m' = stash_mem.more m \<and> length (page_pool m) \<le> length (page_pool m') + 1)
    \<or> stash_value m i v = Some (Inl ENOMEM, m) \<and> page_pool m = []"
proof (cases "stash_pos (stashes m i) = stash_top (stashes m i)")
  case True
  show ?thesis
  proof (cases "page_pool m")
    case Nil
    then show ?thesis using True by (simp add: stash_value_def alloc_page_def)
  next
    case (Cons page ps)
    let ?m = "grown m i page ps (P i)"
    note g = grown_rep [OF rep Cons True]
    have st: "stashes ?m i = \<lparr>stash_tail = Some (last (P i @ [page])), stash_pos = Some (last (P i @ [page]), 0),
        stash_top = Some (last (P i @ [page]), PAGE_VALUES)\<rparr>" by (simp add: grown_def)
    have "stash_value m i v = Some (Inr (), stash_store ?m i v)"
    proof (cases "P i = []")
      case e: True
      then have "stashes m i = \<lparr>stash_tail = None, stash_pos = None, stash_top = None\<rparr>"
        using mem_repD(1) [OF rep, of i] by (simp add: stash_rep_def)
      then show ?thesis
        using e Cons by (simp add: stash_value_def alloc_page_def flink_empty_def flink_first_add_def set_stash_def
            init_link_circular_def grown_def)
    next
      case ne: False
      obtain k where "stashes m i = \<lparr>stash_tail = Some (last (P i)), stash_pos = Some (last (P i), k),
          stash_top = Some (last (P i), PAGE_VALUES)\<rparr>" "link_next m (last (P i)) = hd (P i)"
        using stash_pos_rep [OF rep ne] by metis
      then show ?thesis
        using ne Cons True by (simp add: stash_value_def alloc_page_def flink_empty_def flink_add_def set_stash_def
            link_add_def grown_def Let_def)
    qed
    moreover have "mem_rep (stash_store ?m i v) (P(i := P i @ [page])) (vs(i := vs i @ [v]))"
      using stash_store_rep [OF g, of i 0 v] st by (simp add: PAGE_VALUES_def)
    moreover have "stash_mem.more (stash_store ?m i v) = stash_mem.more m" "page_pool (stash_store ?m i v) = ps"
      using st by (simp_all add: stash_store_def set_stash_def grown_def)
    moreover have "\<forall>j. j \<noteq> i \<longrightarrow> (P(i := P i @ [page])) j = P j
        \<and> (\<forall>p\<in>set (P j). page_vec (stash_store ?m i v) p = page_vec m p)"
    proof (intro allI impI conjI ballI)
      fix j p assume "j \<noteq> i" "p \<in> set (P j)"
      moreover from this have "p \<noteq> page" using mem_repD(4) [OF rep, of j] Cons by auto
      ultimately show "page_vec (stash_store ?m i v) p = page_vec m p"
        by (simp add: stash_store_def set_stash_def grown_def)
    qed simp
    ultimately show ?thesis using Cons by (intro disjI1 exI [of _ "stash_store ?m i v"] exI conjI) auto
  qed
next
  case False
  then have ne: "P i \<noteq> []" using mem_repD(1) [OF rep, of i] by (auto simp: stash_rep_def)
  obtain k where k: "k \<le> PAGE_VALUES" "stashes m i = \<lparr>stash_tail = Some (last (P i)), stash_pos = Some (last (P i), k),
      stash_top = Some (last (P i), PAGE_VALUES)\<rparr>"
    using stash_pos_rep [OF rep ne] by metis
  then have "k < PAGE_VALUES" using False by (cases "k = PAGE_VALUES") auto
  then have "mem_rep (stash_store m i v) P (vs(i := vs i @ [v]))"
    using stash_store_rep [OF rep k(2) _ ne] by simp
  moreover have "stash_mem.more (stash_store m i v) = stash_mem.more m" "page_pool (stash_store m i v) = page_pool m"
    using k(2) by (simp_all add: stash_store_def set_stash_def)
  moreover have "\<forall>j. j \<noteq> i \<longrightarrow> (\<forall>p\<in>set (P j). page_vec (stash_store m i v) p = page_vec m p)"
  proof (intro allI impI ballI)
    fix j p assume "j \<noteq> i" "p \<in> set (P j)"
    then have "p \<noteq> last (P i)" using mem_repD(2) [OF rep, of i j] ne by (metis disjoint_iff last_in_set)
    then show "page_vec (stash_store m i v) p = page_vec m p"
      using k(2) by (simp add: stash_store_def set_stash_def)
  qed
  ultimately show ?thesis
    using False by (intro disjI1 exI [of _ "stash_store m i v"] exI [of _ P]) (simp add: stash_value_def)
qed


section \<open>Running through a stash\<close>

text \<open>
  An actor may use the other stashes and the rest of the state. \<open>J done vs n x\<close> relates the
  values it has been given to the queues, the number of free pages and that state; it must not
  depend on the queue that is run through, and more free pages must not break it.
\<close>

definition actor_inv ::
  "'a stash_mem_scheme actor \<Rightarrow> nat \<Rightarrow> (nat list \<Rightarrow> (nat \<Rightarrow> nat list) \<Rightarrow> nat \<Rightarrow> 'a \<Rightarrow> bool) \<Rightarrow> nat list \<Rightarrow> bool" where
  "actor_inv actor i J ws \<longleftrightarrow>
     (\<forall>seen vs n x us. J seen vs n x \<longrightarrow> J seen (vs(i := us)) (Suc n) x \<and> J seen (vs(i := us)) n x) \<and>
     (\<forall>seen v rest m P vs. ws = seen @ v # rest \<longrightarrow> mem_rep m P vs \<longrightarrow> P i \<noteq> [] \<longrightarrow>
        J seen vs (length (page_pool m)) (stash_mem.more m) \<longrightarrow>
        (\<exists>m' P' vs'. actor m v = Some (Inr (), m') \<and> mem_rep m' P' vs' \<and> P' i = P i \<and> vs' i = vs i
          \<and> (\<forall>p\<in>set (P i). page_vec m' p = page_vec m p)
          \<and> J (seen @ [v]) vs' (length (page_pool m')) (stash_mem.more m')))"

lemma unstash_page_rep:
  assumes act: "actor_inv actor i J ws" and rep: "mem_rep m P vs" and p: "page \<in> set (P i)"
    and vec: "take lim (page_vec m page) = us" "lim \<le> PAGE_VALUES" "j \<le> lim" "ws = seen @ drop j us @ rest"
    and J: "J seen vs (length (page_pool m)) (stash_mem.more m)"
  shows "\<exists>m' P' vs'. unstash_page actor page j lim m = Some (Inr (), m') \<and> mem_rep m' P' vs' \<and> P' i = P i \<and> vs' i = vs i
    \<and> (\<forall>p\<in>set (P i). page_vec m' p = page_vec m p)
    \<and> J (seen @ drop j us) vs' (length (page_pool m')) (stash_mem.more m')"
  using rep p vec J
proof (induction "lim - j" arbitrary: j m P vs seen)
  case 0
  then have "drop j us = []" by (auto simp: PAGE_VALUES_def)
  moreover have "unstash_page actor page j lim m = Some (Inr (), m)"
    using 0 by (subst unstash_page.simps) simp
  ultimately show ?case using 0 by (intro exI [of _ m] exI [of _ P] exI [of _ vs]) simp
next
  case (Suc d)
  have j: "j < lim" and d: "d = lim - Suc j" using Suc.hyps(2) by simp_all
  have lv: "length (page_vec m page) = PAGE_VALUES"
    using stash_pos_rep [OF Suc.prems(1)] Suc.prems(2) by (metis list.set_cases list.discI)
  have v: "drop j us = page_vec m page ! j # drop (Suc j) us"
    using j lv Suc.prems(3,4) by (subst Cons_nth_drop_Suc [symmetric]) auto
  let ?v = "page_vec m page ! j"
  have ne: "P i \<noteq> []" using Suc.prems(2) by auto
  have ws: "ws = seen @ ?v # drop (Suc j) us @ rest" using Suc.prems(6) v by simp
  obtain m1 P1 vs1 where a: "actor m ?v = Some (Inr (), m1)" "mem_rep m1 P1 vs1" "P1 i = P i" "vs1 i = vs i"
    "\<forall>p\<in>set (P i). page_vec m1 p = page_vec m p"
    "J (seen @ [?v]) vs1 (length (page_pool m1)) (stash_mem.more m1)"
    using act ws Suc.prems(1,7) ne unfolding actor_inv_def by blast
  have p1: "page \<in> set (P1 i)" "take lim (page_vec m1 page) = us" using a(3,5) Suc.prems(2,3) by auto
  obtain m' P' vs' where r: "unstash_page actor page (Suc j) lim m1 = Some (Inr (), m')" "mem_rep m' P' vs'"
    "P' i = P1 i" "vs' i = vs1 i" "\<forall>p\<in>set (P1 i). page_vec m' p = page_vec m1 p"
    "J ((seen @ [?v]) @ drop (Suc j) us) vs' (length (page_pool m')) (stash_mem.more m')"
    using Suc.hyps(1) [OF d a(2) p1 Suc.prems(4) _ _ a(6)] j ws by auto
  have "unstash_page actor page j lim m = Some (Inr (), m')"
    using j a(1) r(1) by (subst unstash_page.simps) simp
  then show ?case using r a v by (intro exI [of _ m'] exI [of _ P'] exI [of _ vs']) simp
qed

text \<open>The first page of several is taken off and freed.\<close>

lemma del_next_rep:
  assumes rep: "mem_rep m P vs" and Pi: "P i = p # q # ps"
  shows "mem_rep (free_page (flink_del_next m i) p) (P(i := q # ps)) (vs(i := drop PAGE_VALUES (vs i)))"
    "flink_next m (stashes m i) = p" "\<not> flink_is_last m (stashes m i)"
    "take PAGE_VALUES (vs i) = page_vec m p" "Some (p, PAGE_VALUES) \<noteq> stash_top (stashes m i)"
proof -
  let ?t = "last (q # ps)" and ?m = "free_page (flink_del_next m i) p"
  let ?P = "P(i := q # ps)" and ?vs = "vs(i := drop PAGE_VALUES (vs i))"
  note r = mem_repD [OF rep]
  obtain k where k: "k \<le> PAGE_VALUES" "stashes m i = \<lparr>stash_tail = Some ?t, stash_pos = Some (?t, k),
      stash_top = Some (?t, PAGE_VALUES)\<rparr>" "chain_links (link_next m) (p # q # ps)"
    "link_next m ?t = p" "distinct (p # q # ps)" "\<forall>x\<in>set (p # q # ps). length (page_vec m x) = PAGE_VALUES"
    "vs i = page_vec m p @ concat (map (page_vec m) (butlast (q # ps))) @ take k (page_vec m ?t)"
    using stash_pos_rep [OF rep, of i] Pi by auto
  show "flink_next m (stashes m i) = p" using k(2,4) by (simp add: flink_next_def)
  have tp: "?t \<noteq> p" using k(5) by (metis distinct.simps(2) last_in_set list.discI)
  then show "\<not> flink_is_last m (stashes m i)" "Some (p, PAGE_VALUES) \<noteq> stash_top (stashes m i)"
    using k(2,4) by (auto simp: flink_is_last_def link_empty_def)
  show "take PAGE_VALUES (vs i) = page_vec m p" using k(6,7) by simp
  have m: "stashes ?m = stashes m" "page_vec ?m = page_vec m" "page_pool ?m = p # page_pool m"
    "link_next ?m = (link_next m)(?t := q)"
    using k(2-4) by (simp_all add: free_page_def flink_del_next_def link_del_next_def)
  have "chain_links (link_next ?m) (butlast (q # ps) @ [?t])"
  proof -
    have d: "?t \<notin> set (butlast (q # ps))"
      using k(5) by (metis append_butlast_last_id distinct.simps(2) distinct_append list.discI not_distinct_conv_prefix)
    have "chain_links (link_next ?m) (butlast (q # ps)) = chain_links (link_next m) (butlast (q # ps))"
      using d m(4) by (intro chain_links_cong) auto
    moreover have "link_next ?m (last (butlast (q # ps))) = link_next m (last (butlast (q # ps)))" if "butlast (q # ps) \<noteq> []"
      using d m(4) last_in_set [OF that] by auto
    moreover have "chain_links (link_next m) (butlast (q # ps) @ [?t])" 
      using chain_links_tl [OF k(3)] append_butlast_last_id [of "q # ps"] by simp
    ultimately show ?thesis unfolding chain_links_append by metis
  qed
  then have c: "chain_links (link_next ?m) (q # ps)" using append_butlast_last_id [of "q # ps"] by simp
  have "link_next ?m ?t = q" using m(4) by simp
  moreover have "drop PAGE_VALUES (vs i) = concat (map (page_vec m) (butlast (q # ps))) @ take k (page_vec m ?t)"
    using k(6,7) by simp
  ultimately have own: "stash_rep ?m i (q # ps) (drop PAGE_VALUES (vs i))"
    using k(1,2,5,6) m(1,2) c unfolding stash_rep_def
    by (simp del: butlast.simps last.simps chain_links.simps)
  have "stash_rep ?m j (P j) (vs j)" if "j \<noteq> i" for j
  proof -
    have "?t \<notin> set (P j)" using r(2) [OF that] Pi by (metis disjoint_iff last_in_set list.discI list.set_intros(2))
    then show ?thesis using r(1) [of j] m by (subst stash_rep_cong [of _ _ m]) auto
  qed
  then have reps: "stash_rep ?m j (?P j) (?vs j)" for j using own by simp
  have pj: "p \<notin> set (P j)" if "j \<noteq> i" for j using r(2) [OF that] Pi by auto
  have pp: "p \<notin> set (page_pool m)" using r(4) [of i] Pi by auto
  show "mem_rep ?m ?P ?vs"
  proof (rule mem_repI)
    show "set (?P a) \<inter> set (?P b) = {}" if "a \<noteq> b" for a b
      using r(2) [OF that] Pi that by (cases "a = i"; cases "b = i") auto
    show "set (page_pool ?m) \<inter> set (?P a) = {}" for a
      using r(4) [of a] pj [of a] k(5) Pi m(3) by (cases "a = i") auto
    show "length (page_vec ?m x) = PAGE_VALUES" if "x \<in> set (page_pool ?m)" for x
      using that r(5) [of x] k(6) m(2,3) by auto
  qed (use reps r(3) pp m(3) in simp_all)
qed

text \<open>The loop over the pages ends, with every value given to the actor once and in order.\<close>

lemma last_page_rep:
  assumes rep: "mem_rep m P vs" and Pi: "P i = [p]"
  shows "flink_next m (stashes m i) = p" "flink_is_last m (stashes m i)"
    "\<exists>k \<le> PAGE_VALUES. stash_pos (stashes m i) = Some (p, k) \<and> stash_top (stashes m i) = Some (p, PAGE_VALUES)
       \<and> vs i = take k (page_vec m p)"
    "mem_rep (set_stash m i ((stashes m i)\<lparr>stash_pos := Some (p, 0)\<rparr>)) P (vs(i := []))"
proof -
  note r = mem_repD [OF rep]
  obtain k where k: "k \<le> PAGE_VALUES" "stashes m i = \<lparr>stash_tail = Some p, stash_pos = Some (p, k),
      stash_top = Some (p, PAGE_VALUES)\<rparr>" "link_next m p = p" "length (page_vec m p) = PAGE_VALUES"
      "vs i = take k (page_vec m p)"
    using stash_pos_rep [OF rep, of i] Pi by auto
  show "flink_next m (stashes m i) = p" "flink_is_last m (stashes m i)"
    using k(2,3) by (simp_all add: flink_next_def flink_is_last_def link_empty_def)
  show "\<exists>k \<le> PAGE_VALUES. stash_pos (stashes m i) = Some (p, k) \<and> stash_top (stashes m i) = Some (p, PAGE_VALUES)
       \<and> vs i = take k (page_vec m p)" using k by auto
  let ?m = "set_stash m i ((stashes m i)\<lparr>stash_pos := Some (p, 0)\<rparr>)"
  have m: "link_next ?m = link_next m" "page_vec ?m = page_vec m" "page_pool ?m = page_pool m"
    "stashes ?m j = (if j = i then (stashes m i)\<lparr>stash_pos := Some (p, 0)\<rparr> else stashes m j)" for j
    by (simp_all add: set_stash_def)
  have "stash_rep ?m j (P j) ((vs(i := [])) j)" for j
  proof (cases "j = i")
    case True
    then show ?thesis using k Pi m by (auto simp: stash_rep_def)
  next
    case False
    then show ?thesis using r(1) [of j] m by (subst stash_rep_cong [of _ _ m]) auto
  qed
  then show "mem_rep ?m P (vs(i := []))"
    using r(2-5) m by (intro mem_repI) simp_all
qed

lemma unstash_loop_rep:
  assumes act: "actor_inv actor i J ws" and rep: "mem_rep m P vs" and Pi: "P i \<noteq> []"
    and ws: "ws = seen @ vs i" and J: "J seen vs (length (page_pool m)) (stash_mem.more m)"
  shows "\<exists>page m' P' vs'. unstash_loop actor i m = Some (Inr page, m') \<and> mem_rep m' P' vs' \<and> P' i = [page]
    \<and> J ws vs' (length (page_pool m')) (stash_mem.more m')"
  using rep Pi ws J
proof (induction "length (P i)" arbitrary: m P vs seen rule: less_induct)
  case less
  note act_run = unstash_page_rep [OF act less.prems(1)]
  show ?case
  proof (cases "tl (P i)")
    case Nil
    then obtain p where Pi: "P i = [p]" using less.prems(2) by (cases "P i") auto
    note l = last_page_rep [OF less.prems(1) Pi]
    obtain k where k: "k \<le> PAGE_VALUES" "stash_pos (stashes m i) = Some (p, k)"
      "stash_top (stashes m i) = Some (p, PAGE_VALUES)" "vs i = take k (page_vec m p)" using l(3) by blast
    obtain m' P' vs' where a: "unstash_page actor p 0 k m = Some (Inr (), m')" "mem_rep m' P' vs'" "P' i = P i"
      "J (seen @ drop 0 (vs i)) vs' (length (page_pool m')) (stash_mem.more m')"
      using act_run [of p k "vs i" 0 seen "[]"] k less.prems(3,4) Pi by auto
    have "flink_is_last m' (stashes m' i)" using last_page_rep(2) [OF a(2), of i p] a(3) Pi by simp
    then have "unstash_loop actor i m = Some (Inr p, m')"
      using l(1) k a(1) by (subst unstash_loop.simps) (simp add: Let_def)
    then show ?thesis using a Pi less.prems(3) by auto
  next
    case (Cons q ps)
    then obtain p where Pi: "P i = p # q # ps" by (cases "P i") auto
    note d = del_next_rep [OF less.prems(1) Pi]
    have v: "vs i = page_vec m p @ drop PAGE_VALUES (vs i)" using d(4) by (metis append_take_drop_id)
    have lp: "length (page_vec m p) = PAGE_VALUES"
      using stash_pos_rep [OF less.prems(1), of i] Pi by (metis list.discI list.set_intros(1))
    obtain m' P' vs' where a: "unstash_page actor p 0 PAGE_VALUES m = Some (Inr (), m')" "mem_rep m' P' vs'" "P' i = P i"
      "vs' i = vs i" "J (seen @ drop 0 (page_vec m p)) vs' (length (page_pool m')) (stash_mem.more m')"
      using act_run [of p PAGE_VALUES "page_vec m p" 0 seen "drop PAGE_VALUES (vs i)"] lp v less.prems(3,4) Pi by auto
    have Pi': "P' i = p # q # ps" using a(3) Pi by simp
    note d' = del_next_rep [OF a(2) Pi']
    let ?m = "free_page (flink_del_next m' i) p" and ?vs = "vs'(i := drop PAGE_VALUES (vs' i))"
    have step: "unstash_loop actor i m = unstash_loop actor i ?m"
      using d(2,5) a(1) d'(3) by (subst unstash_loop.simps) (simp add: Let_def)
    have len: "length (page_pool ?m) = Suc (length (page_pool m'))" and more: "stash_mem.more ?m = stash_mem.more m'"
      by (simp_all add: free_page_def flink_del_next_def link_del_next_def)
    have "J (seen @ page_vec m p) ?vs (length (page_pool ?m)) (stash_mem.more ?m)"
      using act a(5) unfolding len more actor_inv_def by simp
    moreover have "ws = (seen @ page_vec m p) @ ?vs i" using less.prems(3) v a(4) by simp
    ultimately show ?thesis
      using less.hyps [OF _ d'(1), of "seen @ page_vec m p"] Pi step by simp
  qed
qed

lemma unstash_rep:
  assumes act: "actor_inv actor i J (vs i)" and rep: "mem_rep m P vs"
    and J: "J [] vs (length (page_pool m)) (stash_mem.more m)"
  shows "\<exists>m' P' vs'. unstash m i actor = Some (Inr (), m') \<and> mem_rep m' P' vs' \<and> vs' i = []
    \<and> J (vs i) vs' (length (page_pool m')) (stash_mem.more m')"
proof (cases "P i = []")
  case True
  then have "stash_tail (stashes m i) = None" "vs i = []"
    using mem_repD(1) [OF rep, of i] by (simp_all add: stash_rep_def)
  then show ?thesis using rep J by (auto simp: unstash_def flink_empty_def)
next
  case False
  obtain k where "stashes m i = \<lparr>stash_tail = Some (last (P i)), stash_pos = Some (last (P i), k),
      stash_top = Some (last (P i), PAGE_VALUES)\<rparr>" using stash_pos_rep [OF rep False] by metis
  then have ne: "\<not> flink_empty (stashes m i)" by (simp add: flink_empty_def)
  obtain page m' P' vs' where a: "unstash_loop actor i m = Some (Inr page, m')" "mem_rep m' P' vs'" "P' i = [page]"
    "J (vs i) vs' (length (page_pool m')) (stash_mem.more m')"
    using unstash_loop_rep [OF act rep False _ J] by auto
  let ?m = "set_stash m' i ((stashes m' i)\<lparr>stash_pos := Some (page, 0)\<rparr>)"
  have "J (vs i) (vs'(i := [])) (length (page_pool ?m)) (stash_mem.more ?m)"
    using act a(4) unfolding actor_inv_def by (simp add: set_stash_def)
  moreover have "unstash m i actor = Some (Inr (), ?m)" using ne a(1) by (simp add: unstash_def)
  ultimately show ?thesis using last_page_rep(4) [OF a(2,3)] by (metis fun_upd_same)
qed

text \<open>An actor that only works on the rest of the state, the way \<open>f\<close> says.\<close>

definition plain_actor :: "'a stash_mem_scheme actor \<Rightarrow> (nat \<Rightarrow> 'a \<Rightarrow> 'a) \<Rightarrow> nat \<Rightarrow> bool" where
  "plain_actor actor f v \<longleftrightarrow> (\<forall>m. actor m v = Some (Inr (), stash_mem.more_update (f v) m))"

lemma mem_rep_more [simp]: "mem_rep (stash_mem.more_update g m) P vs = mem_rep m P vs"
  by (simp add: mem_rep_def stash_rep_def)

lemma plain_actor_inv:
  assumes "\<forall>v\<in>set ws. plain_actor actor f v"
  shows "actor_inv actor i (\<lambda>seen us n x. (\<forall>j. j \<noteq> i \<longrightarrow> us j = vs j) \<and> x = fold f seen x0) ws"
  unfolding actor_inv_def
proof (intro conjI allI impI)
  fix seen v rest m P us
  assume ws: "ws = seen @ v # rest" and rep: "mem_rep m P us"
    and J: "(\<forall>j. j \<noteq> i \<longrightarrow> us j = vs j) \<and> stash_mem.more m = fold f seen x0"
  have "actor m v = Some (Inr (), stash_mem.more_update (f v) m)"
    using assms ws by (simp add: plain_actor_def)
  then show "\<exists>m' P' vs'. actor m v = Some (Inr (), m') \<and> mem_rep m' P' vs' \<and> P' i = P i \<and> vs' i = us i
      \<and> (\<forall>p\<in>set (P i). page_vec m' p = page_vec m p)
      \<and> (\<forall>j. j \<noteq> i \<longrightarrow> vs' j = vs j) \<and> stash_mem.more m' = fold f (seen @ [v]) x0"
    using rep J by (intro exI [of _ "stash_mem.more_update (f v) m"] exI [of _ P] exI [of _ us]) simp
qed simp_all

text \<open>A page is run up to the first value that the actor refuses.\<close>

lemma unstash_page_stops:
  assumes "take lim (page_vec m page) = us" "lim \<le> length (page_vec m page)"
    and "drop j us = pre @ v # post" "\<forall>u\<in>set pre. plain_actor actor f u"
    and "\<forall>m. actor m v = Some (Inl err, m)"
  shows "unstash_page actor page j lim m = Some (Inl err, stash_mem.more_update (fold f pre) m)"
  using assms
proof (induction pre arbitrary: j m)
  case Nil
  then have j: "j < lim" by (metis append_Nil length_drop length_take list.discI list.size(3) min.absorb2 not_less diff_is_0_eq length_0_conv)
  then have "page_vec m page ! j = v"
    using Nil.prems(1-3) by (metis append_Nil length_take min.absorb2 nth_via_drop nth_take)
  then show ?case using j Nil.prems(5) by (subst unstash_page.simps) simp
next
  case (Cons u pre)
  have j: "j < lim" using Cons.prems(1-3) by (metis append_Cons length_drop length_take list.discI list.size(3) min.absorb2 not_less diff_is_0_eq length_0_conv)
  then have u: "page_vec m page ! j = u"
    using Cons.prems(1-3) by (metis append_Cons length_take min.absorb2 nth_via_drop nth_take)
  have "drop (Suc j) us = pre @ v # post" using Cons.prems(3) by (metis append_Cons drop_Suc list.sel(3) tl_drop)
  then have "unstash_page actor page (Suc j) lim (stash_mem.more_update (f u) m)
      = Some (Inl err, stash_mem.more_update (fold f pre) (stash_mem.more_update (f u) m))"
    using Cons by (intro Cons.IH) simp_all
  then show ?case
    using j u Cons.prems(4) by (subst unstash_page.simps) (simp add: plain_actor_def comp_def)
qed

section \<open>Properties\<close>

text \<open>C35. \<open>stash_value\<close> appends to the queue of its stash and leaves the others as they are; the
  only way to fail is that no page can be allocated, and then nothing has changed.\<close>

theorem stash_value_appends:
  assumes "mem_rep m P vs"
  shows "(\<exists>m' P'. stash_value m i v = Some (Inr (), m') \<and> mem_rep m' P' (vs(i := vs i @ [v]))
      \<and> stash_mem.more m' = stash_mem.more m)
    \<or> stash_value m i v = Some (Inl ENOMEM, m) \<and> page_pool m = []"
  using stash_value_rep [OF assms, of i v] by blast

text \<open>C37. \<open>unstash\<close> ends, gives the actor every value of the queue once and in the order in which
  they were stored, and leaves the stash with one page and no values.\<close>

theorem unstash_fifo:
  assumes rep: "mem_rep m P vs" and act: "\<forall>v\<in>set (vs i). plain_actor actor f v"
  shows "\<exists>m' P'. unstash m i actor = Some (Inr (), m') \<and> mem_rep m' P' (vs(i := []))
    \<and> stash_mem.more m' = fold f (vs i) (stash_mem.more m)"
proof -
  obtain m' P' vs' where "unstash m i actor = Some (Inr (), m')" "mem_rep m' P' vs'" "vs' i = []"
    "\<forall>j. j \<noteq> i \<longrightarrow> vs' j = vs j" "stash_mem.more m' = fold f (vs i) (stash_mem.more m)"
    using unstash_rep [OF plain_actor_inv [OF act, of i vs "stash_mem.more m"] rep] by auto
  moreover from this have "vs' = vs(i := [])" by auto
  ultimately show ?thesis by blast
qed

text \<open>C35. An actor that refuses a value of the first page ends \<open>unstash\<close> with its error, and the
  stash still holds all the values, those that were accepted included: the next \<open>unstash\<close>
  gives them to the actor a second time.\<close>

theorem unstash_error_keeps_all:
  assumes rep: "mem_rep m P vs" and vs: "vs i = pre @ v # post" and page: "length pre < PAGE_VALUES"
    and act: "\<forall>u\<in>set pre. plain_actor actor f u" and err: "\<forall>m. actor m v = Some (Inl err, m)"
  shows "\<exists>m'. unstash m i actor = Some (Inl err, m') \<and> mem_rep m' P vs
    \<and> stash_mem.more m' = fold f pre (stash_mem.more m)"
proof -
  have ne: "P i \<noteq> []" using mem_repD(1) [OF rep, of i] vs by (auto simp: stash_rep_def)
  obtain k where k: "k \<le> PAGE_VALUES" "stashes m i = \<lparr>stash_tail = Some (last (P i)), stash_pos = Some (last (P i), k),
      stash_top = Some (last (P i), PAGE_VALUES)\<rparr>" "\<forall>p\<in>set (P i). length (page_vec m p) = PAGE_VALUES"
    using stash_pos_rep [OF rep ne] by metis
  let ?m = "stash_mem.more_update (fold f pre) m"
  have "unstash_loop actor i m = Some (Inl err, ?m)"
  proof (cases "tl (P i)")
    case Nil
    then obtain p where Pi: "P i = [p]" using ne by (cases "P i") auto
    note l = last_page_rep [OF rep Pi]
    have "take k (page_vec m p) = vs i" using l(3) k(2) Pi by auto
    then have "unstash_page actor p 0 k m = Some (Inl err, ?m)"
      using unstash_page_stops [of k m p "vs i" 0 pre v post, OF _ _ _ act err] vs k(1,3) Pi by simp
    then show ?thesis using l(1) k(2) Pi by (subst unstash_loop.simps) (simp add: Let_def)
  next
    case (Cons q ps)
    then obtain p where Pi: "P i = p # q # ps" by (cases "P i") auto
    note d = del_next_rep [OF rep Pi]
    have "page_vec m p = pre @ v # take (PAGE_VALUES - Suc (length pre)) post"
      using d(4) [symmetric] vs page by (simp add: take_Cons')
    then have "unstash_page actor p 0 PAGE_VALUES m = Some (Inl err, ?m)"
      using unstash_page_stops [of PAGE_VALUES m p "page_vec m p" 0 pre v "take (PAGE_VALUES - Suc (length pre)) post",
          OF _ _ _ act err] k(3) Pi by (metis drop_0 list.set_intros(1) order_refl take_all_iff)
    then show ?thesis using d(2,5) by (subst unstash_loop.simps) (simp add: Let_def)
  qed
  then have "unstash m i actor = Some (Inl err, ?m)" using k(2) by (simp add: unstash_def flink_empty_def)
  then show ?thesis using rep by auto
qed

section \<open>Witnesses\<close>

text \<open>Four free pages, empty stashes, and an actor that collects the values.\<close>

definition demo_mem :: "nat list stash_mem_scheme" where
  "demo_mem = \<lparr>link_next = id, page_vec = (\<lambda>_. replicate PAGE_VALUES 0), page_pool = [0, 1, 2, 3],
     stashes = (\<lambda>_. \<lparr>stash_tail = None, stash_pos = None, stash_top = None\<rparr>), \<dots> = []\<rparr>"

definition collect_value :: "nat list stash_mem_scheme actor" where
  "collect_value m v = Some (Inr (), stash_mem.more_update (\<lambda>vs. vs @ [v]) m)"

definition collect_until :: "nat \<Rightarrow> nat list stash_mem_scheme actor" where
  "collect_until w m v = (if v = w then Some (Inl EIO, m) else collect_value m v)"

lemma demo_mem_rep: "mem_rep demo_mem (\<lambda>_. []) (\<lambda>_. [])"
  by (simp add: mem_rep_def stash_rep_def demo_mem_def)

lemma demo_two_values:
  obtains m1 m2 P where "stash_value demo_mem 0 7 = Some (Inr (), m1)" "stash_value m1 0 9 = Some (Inr (), m2)"
    "mem_rep m2 P (\<lambda>i. if i = 0 then [7, 9] else [])" "stash_mem.more m2 = []"
proof -
  obtain m1 P1 where 1: "stash_value demo_mem 0 7 = Some (Inr (), m1)" "mem_rep m1 P1 ((\<lambda>_. [])(0 := [7]))"
    "stash_mem.more m1 = []" "3 \<le> length (page_pool m1)"
    using stash_value_rep [OF demo_mem_rep, of 0 7] by (auto simp: demo_mem_def)
  obtain m2 P2 where 2: "stash_value m1 0 9 = Some (Inr (), m2)" "mem_rep m2 P2 ((\<lambda>_. [])(0 := [7, 9]))"
    "stash_mem.more m2 = []"
    using stash_value_rep [OF 1(2), of 0 9] 1(3,4) by auto
  have "(\<lambda>_. [])(0 := [7, 9]) = (\<lambda>i::nat. if i = 0 then [7, 9::nat] else [])" by auto
  then show thesis using that [of m1 m2 P2] 1(1) 2 by simp
qed

theorem stash_value_appends_witness:
  "(\<exists>m' P'. stash_value demo_mem 0 7 = Some (Inr (), m') \<and> mem_rep m' P' ((\<lambda>_. [])(0 := [7])) \<and> stash_mem.more m' = [])
    \<or> stash_value demo_mem 0 7 = Some (Inl ENOMEM, demo_mem) \<and> page_pool demo_mem = []"
  using stash_value_appends [OF demo_mem_rep, of 0 7] by (simp add: demo_mem_def)

theorem unstash_fifo_witness:
  "\<exists>m1 m2 m3. stash_value demo_mem 0 7 = Some (Inr (), m1) \<and> stash_value m1 0 9 = Some (Inr (), m2)
    \<and> unstash m2 0 collect_value = Some (Inr (), m3) \<and> stash_mem.more m3 = [7, 9]"
proof -
  obtain m1 m2 P where m: "stash_value demo_mem 0 7 = Some (Inr (), m1)" "stash_value m1 0 9 = Some (Inr (), m2)"
    "mem_rep m2 P (\<lambda>i. if i = 0 then [7, 9] else [])" "stash_mem.more m2 = []" by (rule demo_two_values)
  have "plain_actor collect_value (\<lambda>v vs. vs @ [v]) v" for v by (simp add: plain_actor_def collect_value_def)
  then show ?thesis
    using unstash_fifo [OF m(3), of 0 collect_value "\<lambda>v vs. vs @ [v]"] m by auto
qed

theorem unstash_error_keeps_all_witness:
  "\<exists>m1 m2 m3. stash_value demo_mem 0 7 = Some (Inr (), m1) \<and> stash_value m1 0 9 = Some (Inr (), m2)
    \<and> unstash m2 0 (collect_until 9) = Some (Inl EIO, m3) \<and> stash_mem.more m3 = [7]
    \<and> (\<exists>P. mem_rep m3 P (\<lambda>i. if i = 0 then [7, 9] else []))"
proof -
  obtain m1 m2 P where m: "stash_value demo_mem 0 7 = Some (Inr (), m1)" "stash_value m1 0 9 = Some (Inr (), m2)"
    "mem_rep m2 P (\<lambda>i. if i = 0 then [7, 9] else [])" "stash_mem.more m2 = []" by (rule demo_two_values)
  have "plain_actor (collect_until 9) (\<lambda>v vs. vs @ [v]) 7"
    by (simp add: plain_actor_def collect_value_def collect_until_def)
  then show ?thesis
    using unstash_error_keeps_all [OF m(3), of 0 "[7]" 9 "[]" "collect_until 9" "\<lambda>v vs. vs @ [v]" EIO] m
    by (auto simp: PAGE_VALUES_def collect_until_def)
qed

end
