(* ===== verification/Tux_Diskio.thy ===== *)
theory Tux_Diskio
  imports Tux_Prelude
begin

text \<open>
  Block device access: the loops of \<open>diskio.c\<close> around \<open>pread\<close> and \<open>pwrite\<close>, and \<open>devio\<close> and
  \<open>blockio\<close> of \<open>utility.c\<close>. The device is a map from byte offsets to bytes. What the system
  calls answer is a script, one result per call; \<open>None\<close> is a script that ends before the loop
  does. The file position of \<open>read\<close> and \<open>write\<close> is part of the result.
\<close>

section \<open>The device\<close>

type_synonym disk = "nat \<Rightarrow> u8"

definition dread :: "disk \<Rightarrow> nat \<Rightarrow> nat \<Rightarrow> bytes" where
  "dread disk off n = map disk [off..<off + n]"

definition dwrite :: "disk \<Rightarrow> nat \<Rightarrow> bytes \<Rightarrow> disk" where
  "dwrite disk off data = (\<lambda>i. if off \<le> i \<and> i < off + length data then data ! (i - off) else disk i)"

text \<open>A system call transfers at most the bytes that are asked for, or fails and transfers none.\<close>

datatype io_ret = Ret nat | Fail errno

text \<open>The offsets are \<open>off_t\<close> and do not wrap.\<close>

section \<open>The transfer loops\<close>

fun ioabs_out :: "io_ret list \<Rightarrow> disk \<Rightarrow> bytes \<Rightarrow> nat \<Rightarrow> ((errno + unit) \<times> disk) option" where
  "ioabs_out rets disk [] off = Some (Inr (), disk)"
| "ioabs_out [] disk (v # vs) off = None"
| "ioabs_out (Fail err # rets) disk (v # vs) off =
     (if err = EAGAIN \<or> err = EINTR then ioabs_out rets disk (v # vs) off else Some (Inl err, disk))"
| "ioabs_out (Ret n # rets) disk (v # vs) off =
     (if n = 0 then Some (Inl EIO, disk)
      else let data = v # vs; n = min n (length data)
           in ioabs_out rets (dwrite disk off (take n data)) (drop n data) (off + n))"

text \<open>\<open>count\<close> bytes are still to come; the result is what was read.\<close>

fun ioabs_in :: "io_ret list \<Rightarrow> disk \<Rightarrow> nat \<Rightarrow> nat \<Rightarrow> ((errno + unit) \<times> bytes) option" where
  "ioabs_in rets disk 0 off = Some (Inr (), [])"
| "ioabs_in [] disk (Suc count) off = None"
| "ioabs_in (Fail err # rets) disk (Suc count) off =
     (if err = EAGAIN \<or> err = EINTR then ioabs_in rets disk (Suc count) off else Some (Inl err, []))"
| "ioabs_in (Ret n # rets) disk (Suc count) off =
     (if n = 0 then Some (Inl EIO, [])
      else let n = min n (Suc count)
           in map_option (\<lambda>(r, data). (r, dread disk off n @ data))
                (ioabs_in rets disk (Suc count - n) (off + n)))"

text \<open>The loop of \<open>iorel\<close> is the same, at the position of the file, which moves along.\<close>

fun iorel_out :: "io_ret list \<Rightarrow> disk \<Rightarrow> bytes \<Rightarrow> nat \<Rightarrow> ((errno + unit) \<times> disk \<times> nat) option" where
  "iorel_out rets disk [] pos = Some (Inr (), disk, pos)"
| "iorel_out [] disk (v # vs) pos = None"
| "iorel_out (Fail err # rets) disk (v # vs) pos =
     (if err = EAGAIN \<or> err = EINTR then iorel_out rets disk (v # vs) pos else Some (Inl err, disk, pos))"
| "iorel_out (Ret n # rets) disk (v # vs) pos =
     (if n = 0 then Some (Inl EIO, disk, pos)
      else let data = v # vs; n = min n (length data)
           in iorel_out rets (dwrite disk pos (take n data)) (drop n data) (pos + n))"

definition diskread :: "io_ret list \<Rightarrow> disk \<Rightarrow> nat \<Rightarrow> nat \<Rightarrow> ((errno + unit) \<times> bytes) option" where
  "diskread rets disk count offset = ioabs_in rets disk count offset"

definition diskwrite :: "io_ret list \<Rightarrow> disk \<Rightarrow> bytes \<Rightarrow> nat \<Rightarrow> ((errno + unit) \<times> disk) option" where
  "diskwrite rets disk data offset = ioabs_out rets disk data offset"

definition streamwrite :: "io_ret list \<Rightarrow> disk \<Rightarrow> bytes \<Rightarrow> nat \<Rightarrow> ((errno + unit) \<times> disk \<times> nat) option" where
  "streamwrite rets disk data pos = iorel_out rets disk data pos"

section \<open>Devices\<close>

text \<open>A device answers the calls of a transfer at an offset with a script.\<close>

type_synonym dev = "nat \<Rightarrow> io_ret list"

definition devio_write :: "dev \<Rightarrow> disk \<Rightarrow> nat \<Rightarrow> bytes \<Rightarrow> ((errno + unit) \<times> disk) option" where
  "devio_write dev disk offset data = ioabs_out (dev offset) disk data offset"

definition devio_read :: "dev \<Rightarrow> disk \<Rightarrow> nat \<Rightarrow> nat \<Rightarrow> ((errno + unit) \<times> bytes) option" where
  "devio_read dev disk offset len = ioabs_in (dev offset) disk len offset"

definition blockio_write :: "dev \<Rightarrow> nat \<Rightarrow> disk \<Rightarrow> nat \<Rightarrow> bytes \<Rightarrow> ((errno + unit) \<times> disk) option" where
  "blockio_write dev bits disk block data = devio_write dev disk (block * 2 ^ bits) data"

definition blockio_read :: "dev \<Rightarrow> nat \<Rightarrow> disk \<Rightarrow> nat \<Rightarrow> ((errno + unit) \<times> bytes) option" where
  "blockio_read dev bits disk block = devio_read dev disk (block * 2 ^ bits) (2 ^ bits)"

section \<open>Lemmas\<close>

lemma length_dread [simp]: "length (dread disk off n) = n"
  by (simp add: dread_def)

lemma dwrite_Nil [simp]: "dwrite disk off [] = disk"
  by (auto simp: dwrite_def fun_eq_iff)

lemma dread_nth [simp]: "i < n \<Longrightarrow> dread disk off n ! i = disk (off + i)"
  by (simp add: dread_def)

lemma dread_dwrite_same [simp]: "n = length data \<Longrightarrow> dread (dwrite disk off data) off n = data"
  by (intro nth_equalityI) (simp_all add: dwrite_def)

lemma dread_dwrite_other:
  "p + n \<le> off \<or> off + length data \<le> p \<Longrightarrow> dread (dwrite disk off data) p n = dread disk p n"
  by (intro nth_equalityI) (auto simp: dwrite_def)

lemma dwrite_append:
  "dwrite (dwrite disk off xs) (off + length xs) ys = dwrite disk off (xs @ ys)"
  by (auto simp: dwrite_def fun_eq_iff nth_append)

lemma dread_append: "dread disk off m @ dread disk (off + m) n = dread disk off (m + n)"
  using upt_add_eq_append [of off "off + m" n] by (simp add: dread_def add.assoc)

text \<open>Whatever the answers, the loop has written a prefix, and all of it when it reports success.\<close>

lemma ioabs_out_prefix:
  "ioabs_out rets disk data off = Some (r, disk') \<Longrightarrow>
    \<exists>n \<le> length data. disk' = dwrite disk off (take n data) \<and> (r = Inr () \<longrightarrow> n = length data)"
proof (induction rets disk data off rule: ioabs_out.induct)
  case (4 n rets disk v vs off)
  let ?data = "v # vs" and ?n = "min n (length (v # vs))"
  show ?case
  proof (cases "n = 0")
    case False
    obtain k where k: "k \<le> length (drop ?n ?data)"
      "disk' = dwrite (dwrite disk off (take ?n ?data)) (off + ?n) (take k (drop ?n ?data))"
      "r = Inr () \<longrightarrow> k = length (drop ?n ?data)"
      using 4 False by (auto simp: Let_def)
    have "disk' = dwrite disk off (take (?n + k) ?data)"
      using k(2) dwrite_append [of disk off "take ?n ?data" "take k (drop ?n ?data)"]
      by (simp only: take_add length_take) simp
    then show ?thesis using k(1,3) by (intro exI [of _ "?n + k"]) auto
  qed (use 4 in auto)
qed (auto split: if_splits)

lemma ioabs_in_prefix:
  "ioabs_in rets disk count off = Some (r, data) \<Longrightarrow>
    \<exists>n \<le> count. data = dread disk off n \<and> (r = Inr () \<longrightarrow> n = count)"
proof (induction rets disk count off arbitrary: data rule: ioabs_in.induct)
  case (4 n rets disk count off)
  let ?n = "min n (Suc count)"
  show ?case
  proof (cases "n = 0")
    case False
    obtain d where d: "ioabs_in rets disk (Suc count - ?n) (off + ?n) = Some (r, d)" "data = dread disk off ?n @ d"
      using 4 False by (auto simp: Let_def)
    obtain k where k: "k \<le> Suc count - ?n" "d = dread disk (off + ?n) k" "r = Inr () \<longrightarrow> k = Suc count - ?n"
      using "4.IH" [OF False refl d(1)] by auto
    then show ?thesis
      using d(2) dread_append [of disk off ?n k] by (intro exI [of _ "?n + k"]) auto
  qed (use 4 in \<open>auto simp: dread_def\<close>)
qed (auto simp: dread_def split: if_splits)

text \<open>The answers that move a transfer on, and how far they carry it.\<close>

fun going :: "io_ret \<Rightarrow> bool" where
  "going (Ret n) = (0 < n)"
| "going (Fail err) = (err = EAGAIN \<or> err = EINTR)"

fun moved :: "io_ret list \<Rightarrow> nat" where
  "moved [] = 0"
| "moved (Ret n # rets) = n + moved rets"
| "moved (Fail err # rets) = moved rets"

lemma ioabs_out_finishes:
  "list_all going rets \<Longrightarrow> length data \<le> moved rets \<Longrightarrow> fst (the (ioabs_out rets disk data off)) = Inr ()
    \<and> ioabs_out rets disk data off \<noteq> None"
proof (induction rets disk data off rule: ioabs_out.induct)
  case (4 n rets disk v vs off)
  then show ?case by (auto simp: Let_def min_def)
qed auto

text \<open>A device whose answers carry every transfer of at most \<open>n\<close> bytes to its end.\<close>

definition dev_good :: "nat \<Rightarrow> dev \<Rightarrow> bool" where
  "dev_good n dev \<longleftrightarrow> (\<forall>off. list_all going (dev off) \<and> n \<le> moved (dev off))"

lemma ioabs_out_complete:
  assumes "list_all going rets" "length data \<le> moved rets"
  shows "ioabs_out rets disk data off = Some (Inr (), dwrite disk off data)"
proof -
  obtain r disk' where r: "ioabs_out rets disk data off = Some (r, disk')" "r = Inr ()"
    using ioabs_out_finishes [OF assms, of disk off] by auto
  then show ?thesis using ioabs_out_prefix [OF r(1)] by auto
qed

lemma ioabs_in_complete:
  "list_all going rets \<Longrightarrow> count \<le> moved rets \<Longrightarrow> ioabs_in rets disk count off = Some (Inr (), dread disk off count)"
proof (induction rets disk count off rule: ioabs_in.induct)
  case (4 n rets disk count off)
  let ?n = "min n (Suc count)"
  have n: "0 < n" "list_all going rets" "Suc count - ?n \<le> moved rets" using 4 by auto
  then show ?case
    using "4.IH" [OF _ refl] dread_append [of disk off ?n "Suc count - ?n"] by (simp add: Let_def)
qed (auto simp: dread_def)

lemma devio_good:
  "dev_good n dev \<Longrightarrow> length data \<le> n \<Longrightarrow> devio_write dev disk off data = Some (Inr (), dwrite disk off data)"
  "dev_good n dev \<Longrightarrow> len \<le> n \<Longrightarrow> devio_read dev disk off len = Some (Inr (), dread disk off len)"
  unfolding dev_good_def devio_write_def devio_read_def
  by (auto intro!: ioabs_out_complete ioabs_in_complete intro: le_trans)

text \<open>An interrupted or failing device leaves a prefix of the data behind.\<close>

lemma devio_write_prefix:
  "devio_write dev disk off data = Some (r, disk') \<Longrightarrow>
    \<exists>n \<le> length data. disk' = dwrite disk off (take n data) \<and> (r = Inr () \<longrightarrow> n = length data)"
  unfolding devio_write_def by (rule ioabs_out_prefix)

lemma dwrite_outside: "i < off \<or> off + length data \<le> i \<Longrightarrow> dwrite disk off data i = disk i"
  by (auto simp: dwrite_def)

section \<open>Properties\<close>

text \<open>C38. A write loop whose calls are all short, interrupted or refused for now, but transfer enough
  bytes in total, ends with success and with all the data on the device, and nothing else changed.\<close>

theorem diskwrite_completes:
  assumes "list_all going rets" and "length data \<le> moved rets"
  shows "diskwrite rets disk data offset = Some (Inr (), dwrite disk offset data)"
  unfolding diskwrite_def by (rule ioabs_out_complete [OF assms])

theorem diskwrite_completes_witness:
  "diskwrite [Ret 1, Fail EINTR, Ret 2, Fail EAGAIN, Ret 5] (\<lambda>_. 0) [1, 2, 3, 4] 7 = Some (Inr (), dwrite (\<lambda>_. 0) 7 [1, 2, 3, 4])"
  using diskwrite_completes [of "[Ret 1, Fail EINTR, Ret 2, Fail EAGAIN, Ret 5]" "[1, 2, 3, 4]" "\<lambda>_. 0" 7] by simp

end
