(* ===== verification/Tux_Super.thy ===== *)
theory Tux_Super
  imports Tux_Balloc Tux_Root Tux_Diskio
begin

text \<open>
  The superblock: the layout of \<open>struct disksuper\<close>, and \<open>load_sb\<close>,
  \<open>save_sb\<close> and \<open>load_itable\<close> of \<open>kernel/commit.c\<close>. The superblock is kept as its 4096 bytes
  and its fields are read and written at their offsets. A shift that C leaves undefined is
  \<open>None\<close>.
\<close>

section \<open>Layout\<close>

definition TUX3_MAGIC :: bytes where "TUX3_MAGIC = [0x74, 0x75, 0x78, 0x33, 0xdd, 0x09, 0x03, 0x10]"

definition SB_LOC :: nat where "SB_LOC = 4096"
definition SB_LEN :: nat where "SB_LEN = 4096"

text \<open>Offsets of the fields of \<open>struct disksuper\<close>; its magic is at 0.\<close>

definition DS_IROOT :: nat where "DS_IROOT = 24"
definition DS_BLOCKBITS :: nat where "DS_BLOCKBITS = 32"
definition DS_VOLBLOCKS :: nat where "DS_VOLBLOCKS = 40"
definition DS_FREEBLOCKS :: nat where "DS_FREEBLOCKS = 48"
definition DS_NEXTALLOC :: nat where "DS_NEXTALLOC = 56"
definition DS_FREEATOM :: nat where "DS_FREEATOM = 64"
definition DS_ATOMGEN :: nat where "DS_ATOMGEN = 68"
definition DS_DICTSIZE :: nat where "DS_DICTSIZE = 72"
definition DS_LOGCHAIN :: nat where "DS_LOGCHAIN = 80"
definition DS_LOGCOUNT :: nat where "DS_LOGCOUNT = 88"
definition DS_NEXT_LOGCOUNT :: nat where "DS_NEXT_LOGCOUNT = 92"

lemmas ds_offsets = DS_IROOT_def DS_BLOCKBITS_def DS_VOLBLOCKS_def DS_FREEBLOCKS_def DS_NEXTALLOC_def
  DS_FREEATOM_def DS_ATOMGEN_def DS_DICTSIZE_def DS_LOGCHAIN_def DS_LOGCOUNT_def DS_NEXT_LOGCOUNT_def

text \<open>
  The volume: \<open>struct sb\<close> as the allocator sees it, with the superblock and the fields that are
  loaded from it. \<open>sb->blocksize\<close> is \<open>blocksize\<close> of the allocator, the power of \<open>blockbits\<close>.
\<close>

record volume = sb +
  super :: bytes
  blockmask :: nat
  entries_per_node :: nat
  max_inodes_per_block :: nat
  vol_atomref_base :: nat
  vol_unatom_base :: nat
  vol_freeatom :: nat
  vol_atomgen :: nat
  vol_dictsize :: nat
  iroot :: root
  logchain :: nat

section \<open>Loading and saving\<close>

definition calc_entries_per_node :: "nat \<Rightarrow> nat" where
  "calc_entries_per_node bsize = sub32 bsize 8 div 16"

text \<open>\<open>1 << n\<close> on \<open>int\<close>.\<close>

definition shl_int :: "int \<Rightarrow> nat option" where
  "shl_int n = (if 0 \<le> n \<and> n < 31 then Some (2 ^ nat n) else None)"

definition to_loff :: "nat \<Rightarrow> int" where
  "to_loff v = (int v + 2 ^ 63) mod 2 ^ 64 - 2 ^ 63"

definition of_loff :: "int \<Rightarrow> nat" where
  "of_loff i = nat (i mod 2 ^ 64)"

definition load_sb :: "dev \<Rightarrow> disk \<Rightarrow> volume \<Rightarrow> ((errno + unit) \<times> volume) option" where
  "load_sb dev disk v = do {
     (r, data) \<leftarrow> devio_read dev disk SB_LOC SB_LEN;
     let v = v\<lparr>super := blit (super v) 0 data\<rparr>;
     case r of
       Inl err \<Rightarrow> Some (Inl err, v)
     | Inr _ \<Rightarrow>
         if chunk 0 8 (super v) \<noteq> TUX3_MAGIC then Some (Inl EINVAL, v)
         else do {
           let bits = load16 (super v) DS_BLOCKBITS;
           bs \<leftarrow> shl_int (int bits);
           let v = v\<lparr>blockbits := bits, blockmask := bs - 1, entries_per_node := calc_entries_per_node bs,
               max_inodes_per_block := bs div 64\<rparr>;
           aref \<leftarrow> shl_int (40 - int bits);
           unatom \<leftarrow> shl_int (34 - int bits);
           Some (Inr (), v\<lparr>vol_atomref_base := aref, vol_unatom_base := wrap32 (aref + unatom),
             volblocks := load64 (super v) DS_VOLBLOCKS,
             freeblocks := to_loff (load64 (super v) DS_FREEBLOCKS),
             nextalloc := load64 (super v) DS_NEXTALLOC,
             vol_atomgen := load32 (super v) DS_ATOMGEN,
             vol_freeatom := load32 (super v) DS_FREEATOM,
             vol_dictsize := load64 (super v) DS_DICTSIZE\<rparr>) } }"

definition fill_super :: "volume \<Rightarrow> bytes" where
  "fill_super v =
     (let super = super v;
          super = store16 super DS_BLOCKBITS (blockbits v);
          super = store64 super DS_VOLBLOCKS (volblocks v);
          super = store64 super DS_FREEBLOCKS (of_loff (freeblocks v));
          super = store64 super DS_NEXTALLOC (nextalloc v);
          super = store32 super DS_ATOMGEN (vol_atomgen v);
          super = store32 super DS_FREEATOM (vol_freeatom v);
          super = store64 super DS_DICTSIZE (vol_dictsize v);
          super = store64 super DS_IROOT (pack_root (iroot v))
      in store64 super DS_LOGCHAIN (logchain v))"

definition save_sb :: "dev \<Rightarrow> disk \<Rightarrow> volume \<Rightarrow> ((errno + unit) \<times> volume \<times> disk) option" where
  "save_sb dev disk v = do {
     let v = v\<lparr>super := fill_super v\<rparr>;
     (r, disk) \<leftarrow> devio_write dev disk SB_LOC (super v);
     Some (r, v, disk) }"

definition load_itable :: "volume \<Rightarrow> volume" where
  "load_itable v = v\<lparr>iroot := unpack_root (load64 (super v) DS_IROOT)\<rparr>"

section \<open>Fields of the superblock\<close>

lemma load32_blit_other [mem_simps]:
  assumes "off + length ys \<le> length b" and "p + 4 \<le> length b"
    and "p + 4 \<le> off \<or> off + length ys \<le> p"
  shows "load32 (blit b off ys) p = load32 b p"
proof -
  have "chunk p 4 (blit b off ys) = chunk p 4 b"
    using assms by (auto simp: mem_simps)
  then show ?thesis
    using assms load32_chunk [of p b] load32_chunk [of p "blit b off ys"] by (simp add: mem_simps)
qed

lemma load32_store32 [mem_simps]:
  assumes "p + 4 \<le> length b" shows "load32 (store32 b p v) p = v mod 4294967296"
  using assms load32_chunk [of p "store32 b p v"]
  by (simp add: store32_def mem_simps load32_be32)

text \<open>What a store of one field leaves of another.\<close>

lemma load_store_other [mem_simps]:
  assumes "p + 8 \<le> length b" "q + 8 \<le> length b"
  shows "q + 2 \<le> p \<or> p + 2 \<le> q \<Longrightarrow> load16 (store16 b p v) q = load16 b q"
    "q + 2 \<le> p \<or> p + 4 \<le> q \<Longrightarrow> load16 (store32 b p v) q = load16 b q"
    "q + 2 \<le> p \<or> p + 8 \<le> q \<Longrightarrow> load16 (store64 b p v) q = load16 b q"
    "q + 4 \<le> p \<or> p + 2 \<le> q \<Longrightarrow> load32 (store16 b p v) q = load32 b q"
    "q + 4 \<le> p \<or> p + 4 \<le> q \<Longrightarrow> load32 (store32 b p v) q = load32 b q"
    "q + 4 \<le> p \<or> p + 8 \<le> q \<Longrightarrow> load32 (store64 b p v) q = load32 b q"
    "q + 8 \<le> p \<or> p + 2 \<le> q \<Longrightarrow> load64 (store16 b p v) q = load64 b q"
    "q + 8 \<le> p \<or> p + 4 \<le> q \<Longrightarrow> load64 (store32 b p v) q = load64 b q"
    "q + 8 \<le> p \<or> p + 8 \<le> q \<Longrightarrow> load64 (store64 b p v) q = load64 b q"
    "q + 8 \<le> p \<or> p + 2 \<le> q \<Longrightarrow> chunk q 8 (store16 b p v) = chunk q 8 b"
    "q + 8 \<le> p \<or> p + 4 \<le> q \<Longrightarrow> chunk q 8 (store32 b p v) = chunk q 8 b"
    "q + 8 \<le> p \<or> p + 8 \<le> q \<Longrightarrow> chunk q 8 (store64 b p v) = chunk q 8 b"
  using assms unfolding store16_def store32_def store64_def
  by (auto simp: load16_blit_other load32_blit_other load64_blit_other chunk_blit_before chunk_blit_after)

lemma length_fill_super [simp]: "length (super v) = SB_LEN \<Longrightarrow> length (fill_super v) = SB_LEN"
  by (simp add: fill_super_def Let_def mem_simps ds_offsets SB_LEN_def)

lemma fill_super_fields:
  assumes len: "length (super v) = SB_LEN"
  shows "chunk 0 8 (fill_super v) = chunk 0 8 (super v)"
    "load16 (fill_super v) DS_BLOCKBITS = blockbits v mod 2 ^ 16"
    "load64 (fill_super v) DS_VOLBLOCKS = wrap64 (volblocks v)"
    "load64 (fill_super v) DS_FREEBLOCKS = of_loff (freeblocks v)"
    "load64 (fill_super v) DS_NEXTALLOC = wrap64 (nextalloc v)"
    "load32 (fill_super v) DS_ATOMGEN = wrap32 (vol_atomgen v)"
    "load32 (fill_super v) DS_FREEATOM = wrap32 (vol_freeatom v)"
    "load64 (fill_super v) DS_DICTSIZE = wrap64 (vol_dictsize v)"
    "load64 (fill_super v) DS_IROOT = wrap64 (pack_root (iroot v))"
    "load64 (fill_super v) DS_LOGCHAIN = wrap64 (logchain v)"
    "load32 (fill_super v) DS_LOGCOUNT = load32 (super v) DS_LOGCOUNT"
    "load32 (fill_super v) DS_NEXT_LOGCOUNT = load32 (super v) DS_NEXT_LOGCOUNT"
  using len unfolding fill_super_def Let_def ds_offsets SB_LEN_def wrap32_def wrap64_def
  by (simp_all add: mem_simps of_loff_def nat_less_iff)

lemma to_loff_of_loff [simp]: "- (2 ^ 63) \<le> i \<Longrightarrow> i < 2 ^ 63 \<Longrightarrow> to_loff (of_loff i) = i"
  by (simp add: to_loff_def of_loff_def mod_add_left_eq)

section \<open>Properties\<close>

text \<open>A volume whose fields fit the superblock.\<close>

definition volume_ok :: "volume \<Rightarrow> bool" where
  "volume_ok v \<longleftrightarrow> length (super v) = SB_LEN \<and> chunk 0 8 (super v) = TUX3_MAGIC
     \<and> 10 \<le> blockbits v \<and> blockbits v \<le> 30 \<and> volblocks v < 2 ^ 64
     \<and> - (2 ^ 63) \<le> freeblocks v \<and> freeblocks v < 2 ^ 63 \<and> nextalloc v < 2 ^ 64
     \<and> vol_atomgen v < 2 ^ 32 \<and> vol_freeatom v < 2 ^ 32 \<and> vol_dictsize v < 2 ^ 64
     \<and> root_depth (iroot v) < 2 ^ 16 \<and> root_block (iroot v) < 2 ^ 48 \<and> logchain v < 2 ^ 64"

lemma save_sb_good:
  assumes "dev_good SB_LEN dev" "length (super v) = SB_LEN"
  shows "save_sb dev disk v = Some (Inr (), v\<lparr>super := fill_super v\<rparr>, dwrite disk SB_LOC (fill_super v))"
  using assms by (simp add: save_sb_def devio_good)

lemma load_sb_good:
  assumes "dev_good SB_LEN dev" "length (super v) = SB_LEN" "dread disk SB_LOC SB_LEN = b"
    "chunk 0 8 b = TUX3_MAGIC" "10 \<le> load16 b DS_BLOCKBITS" "load16 b DS_BLOCKBITS \<le> 30"
  shows "\<exists>v'. load_sb dev disk v = Some (Inr (), v') \<and> super v' = b \<and> blockbits v' = load16 b DS_BLOCKBITS
    \<and> volblocks v' = load64 b DS_VOLBLOCKS \<and> freeblocks v' = to_loff (load64 b DS_FREEBLOCKS)
    \<and> nextalloc v' = load64 b DS_NEXTALLOC \<and> vol_atomgen v' = load32 b DS_ATOMGEN
    \<and> vol_freeatom v' = load32 b DS_FREEATOM \<and> vol_dictsize v' = load64 b DS_DICTSIZE
    \<and> vol_atomref_base v' = 2 ^ (40 - load16 b DS_BLOCKBITS) \<and> logchain v' = logchain v"
proof -
  have b: "length b = SB_LEN" using assms(3) by auto
  then have "blit (super v) 0 b = b" using assms(2) by (simp add: blit_def)
  moreover have "devio_read dev disk SB_LOC SB_LEN = Some (Inr (), b)" using assms(1,3) by (simp add: devio_good)
  moreover have "shl_int (int (load16 b DS_BLOCKBITS)) = Some (2 ^ load16 b DS_BLOCKBITS)"
    "shl_int (40 - int (load16 b DS_BLOCKBITS)) = Some (2 ^ (40 - load16 b DS_BLOCKBITS))"
    "shl_int (34 - int (load16 b DS_BLOCKBITS)) = Some (2 ^ (34 - load16 b DS_BLOCKBITS))"
    using assms(5,6) by (simp_all add: shl_int_def nat_diff_distrib)
  ultimately show ?thesis using assms(4) by (simp add: load_sb_def Let_def)
qed

text \<open>C36. What \<open>save_sb\<close> writes, \<open>load_sb\<close> and \<open>load_itable\<close> bring back: block size, volume
  size, free count, allocation goal, atom and dictionary counters and the root of the inode
  table, whatever the volume in memory was before, and the tail of the log chain is in the
  superblock.\<close>

theorem save_load_sb:
  assumes "volume_ok v" and "dev_good SB_LEN dev" and "dev_good SB_LEN dev'" and "length (super v0) = SB_LEN"
  shows "\<exists>v1 disk1 v2. save_sb dev disk v = Some (Inr (), v1, disk1) \<and> load_sb dev' disk1 v0 = Some (Inr (), v2)
    \<and> blockbits v2 = blockbits v \<and> volblocks v2 = volblocks v \<and> freeblocks v2 = freeblocks v
    \<and> nextalloc v2 = nextalloc v \<and> vol_atomgen v2 = vol_atomgen v \<and> vol_freeatom v2 = vol_freeatom v
    \<and> vol_dictsize v2 = vol_dictsize v \<and> iroot (load_itable v2) = iroot v
    \<and> load64 (super v2) DS_LOGCHAIN = logchain v"
proof -
  let ?b = "fill_super v"
  have len: "length (super v) = SB_LEN" using assms(1) by (simp add: volume_ok_def)
  note f = fill_super_fields [OF len]
  have "blockbits v mod 2 ^ 16 = blockbits v" using assms(1) by (simp add: volume_ok_def)
  then obtain v2 where v2: "load_sb dev' (dwrite disk SB_LOC ?b) v0 = Some (Inr (), v2)" "super v2 = ?b"
    "blockbits v2 = load16 ?b DS_BLOCKBITS" "volblocks v2 = load64 ?b DS_VOLBLOCKS"
    "freeblocks v2 = to_loff (load64 ?b DS_FREEBLOCKS)" "nextalloc v2 = load64 ?b DS_NEXTALLOC"
    "vol_atomgen v2 = load32 ?b DS_ATOMGEN" "vol_freeatom v2 = load32 ?b DS_FREEATOM"
    "vol_dictsize v2 = load64 ?b DS_DICTSIZE"
    using load_sb_good [OF assms(3,4), of "dwrite disk SB_LOC ?b" ?b] assms(1) len f(1,2)
    by (auto simp: volume_ok_def)
  have "iroot (load_itable v2) = iroot v"
    using unpack_pack_root [of "iroot v"] assms(1) v2(2) f(9) by (simp add: load_itable_def volume_ok_def wrap_simps)
  then show ?thesis
    using save_sb_good [OF assms(2) len, of disk] v2 f assms(1) by (simp add: volume_ok_def wrap_simps)
qed

definition demo_volume :: volume where
  "demo_volume = \<lparr>blockbits = 12, volblocks = 64, freeblocks = 60, nextalloc = 4, bitmap = Map.empty,
     super = TUX3_MAGIC @ replicate 4088 0, blockmask = 4095, entries_per_node = 255, max_inodes_per_block = 64,
     vol_atomref_base = 2 ^ 28, vol_unatom_base = 2 ^ 28 + 2 ^ 22, vol_freeatom = 0, vol_atomgen = 1, vol_dictsize = 0,
     iroot = \<lparr>root_depth = 1, root_block = 3\<rparr>, logchain = 0\<rparr>"

lemma demo_volume_ok: "volume_ok demo_volume"
  by (simp add: volume_ok_def demo_volume_def SB_LEN_def TUX3_MAGIC_def chunk_def)

theorem save_load_sb_witness:
  "\<exists>v1 disk1 v2. save_sb (\<lambda>_. [Ret 1000, Fail EINTR, Ret 4000]) (\<lambda>_. 0) demo_volume = Some (Inr (), v1, disk1)
    \<and> load_sb (\<lambda>_. [Ret 4096]) disk1 demo_volume = Some (Inr (), v2) \<and> iroot (load_itable v2) = \<lparr>root_depth = 1, root_block = 3\<rparr>"
  using save_load_sb [OF demo_volume_ok, of "\<lambda>_. [Ret 1000, Fail EINTR, Ret 4000]" "\<lambda>_. [Ret 4096]" demo_volume "\<lambda>_. 0"]
    demo_volume_ok by (auto simp: dev_good_def SB_LEN_def volume_ok_def) (simp add: demo_volume_def)

end
