(* ===== verification/Tux_Log.thy ===== *)
theory Tux_Log
  imports Tux_Balloc Tux_Endian
begin

text \<open>
  The log of \<open>kernel/log.c\<close> and its replay, \<open>kernel/replay.c\<close>. The cache of log blocks is a
  map from indexes to bytes; \<open>logpos\<close> and \<open>logtop\<close> are offsets in the block \<open>logbuf\<close>, both 0
  where the code has null pointers. A failed assertion, or a read outside a log block, is
  \<open>None\<close>. Replay takes the blocks from a disk that answers with the block or with the error of
  \<open>blockio\<close>. What was logged is what replay applies, entry by entry.
\<close>

section \<open>Log blocks\<close>

definition TUX3_MAGIC_LOG :: nat where "TUX3_MAGIC_LOG = 0x10ad"

text \<open>The size of \<open>struct logblock\<close> without its data.\<close>

definition LOG_HEAD :: nat where "LOG_HEAD = 16"

definition LOG_BALLOC :: nat where "LOG_BALLOC = 0x33"
definition LOG_BFREE :: nat where "LOG_BFREE = 0x34"
definition LOG_BFREE_ON_ROLLUP :: nat where "LOG_BFREE_ON_ROLLUP = 0x35"
definition LOG_LEAF_REDIRECT :: nat where "LOG_LEAF_REDIRECT = 0x36"
definition LOG_BNODE_REDIRECT :: nat where "LOG_BNODE_REDIRECT = 0x37"
definition LOG_BNODE_ROOT :: nat where "LOG_BNODE_ROOT = 0x38"
definition LOG_BNODE_SPLIT :: nat where "LOG_BNODE_SPLIT = 0x39"
definition LOG_BNODE_ADD :: nat where "LOG_BNODE_ADD = 0x3a"
definition LOG_BNODE_UPDATE :: nat where "LOG_BNODE_UPDATE = 0x3b"

lemmas log_codes = LOG_BALLOC_def LOG_BFREE_def LOG_BFREE_ON_ROLLUP_def LOG_LEAF_REDIRECT_def
  LOG_BNODE_REDIRECT_def LOG_BNODE_ROOT_def LOG_BNODE_SPLIT_def LOG_BNODE_ADD_def LOG_BNODE_UPDATE_def

record logstate =
  log_bsize :: nat
  logmap :: "nat \<Rightarrow> bytes option"
  lognext :: nat
  logbuf :: "nat option"
  logpos :: nat
  logtop :: nat

text \<open>A block that the cache does not hold yet is a new buffer; its contents do not matter.\<close>

definition log_block :: "logstate \<Rightarrow> nat \<Rightarrow> bytes" where
  "log_block ls i = (case logmap ls i of Some b \<Rightarrow> b | None \<Rightarrow> replicate (log_bsize ls) 0)"

definition put_log :: "logstate \<Rightarrow> nat \<Rightarrow> bytes \<Rightarrow> logstate" where
  "put_log ls i b = ls\<lparr>logmap := (logmap ls)(i \<mapsto> b)\<rparr>"

definition log_next :: "logstate \<Rightarrow> logstate" where
  "log_next ls = (put_log ls (lognext ls) (log_block ls (lognext ls)))
     \<lparr>logbuf := Some (lognext ls), lognext := wrap32 (lognext ls + 1),
      logpos := LOG_HEAD, logtop := log_bsize ls\<rparr>"

definition log_drop :: "logstate \<Rightarrow> logstate" where
  "log_drop ls = ls\<lparr>logbuf := None, logtop := 0, logpos := 0\<rparr>"

definition log_finish :: "logstate \<Rightarrow> logstate option" where
  "log_finish ls =
     (case logbuf ls of
        None \<Rightarrow> Some ls
      | Some i \<Rightarrow> do {
          c_assert (logtop ls \<ge> logpos ls);
          let b = log_block ls i;
          let b = store16 b 2 (logpos ls - LOG_HEAD);
          let b = memset b (logpos ls) 0 (logtop ls - logpos ls);
          Some (log_drop (put_log ls i b)) })"

definition log_header :: bytes where
  "log_header = be16 TUX3_MAGIC_LOG @ replicate 14 0"

definition log_begin :: "logstate \<Rightarrow> nat \<Rightarrow> logstate option" where
  "log_begin ls n =
     (if logpos ls + n > logtop ls then do {
        ls \<leftarrow> log_finish ls;
        let ls = log_next ls;
        let i = the (logbuf ls);
        Some (put_log ls i (blit (log_block ls i) 0 log_header)) }
      else Some ls)"

text \<open>\<open>data\<close> is what was written between \<open>log_begin\<close> and \<open>log_end\<close>.\<close>

definition log_end :: "logstate \<Rightarrow> bytes \<Rightarrow> logstate" where
  "log_end ls data =
     (let i = the (logbuf ls)
      in (put_log ls i (blit (log_block ls i) (logpos ls) data))\<lparr>logpos := logpos ls + length data\<rparr>)"

section \<open>Log entries\<close>

definition log_extent :: "logstate \<Rightarrow> nat \<Rightarrow> nat \<Rightarrow> nat \<Rightarrow> logstate option" where
  "log_extent ls intent block count = do {
     c_assert (count < 256);
     ls \<leftarrow> log_begin ls 8;
     let data = [of_nat intent, of_nat count];
     Some (log_end ls (encode48 data block)) }"

definition log_balloc :: "logstate \<Rightarrow> nat \<Rightarrow> nat \<Rightarrow> logstate option" where
  "log_balloc ls block count = log_extent ls LOG_BALLOC block count"

definition log_bfree :: "logstate \<Rightarrow> nat \<Rightarrow> nat \<Rightarrow> logstate option" where
  "log_bfree ls block count = log_extent ls LOG_BFREE block count"

definition log_bfree_on_rollup :: "logstate \<Rightarrow> nat \<Rightarrow> nat \<Rightarrow> logstate option" where
  "log_bfree_on_rollup ls block count = log_extent ls LOG_BFREE_ON_ROLLUP block count"

definition log_redirect :: "logstate \<Rightarrow> nat \<Rightarrow> nat \<Rightarrow> nat \<Rightarrow> logstate option" where
  "log_redirect ls intent oldblock newblock = do {
     ls \<leftarrow> log_begin ls 13;
     let data = [of_nat intent];
     let data = encode48 data oldblock;
     Some (log_end ls (encode48 data newblock)) }"

definition log_leaf_redirect :: "logstate \<Rightarrow> nat \<Rightarrow> nat \<Rightarrow> logstate option" where
  "log_leaf_redirect ls oldblock newblock = log_redirect ls LOG_LEAF_REDIRECT oldblock newblock"

definition log_bnode_redirect :: "logstate \<Rightarrow> nat \<Rightarrow> nat \<Rightarrow> logstate option" where
  "log_bnode_redirect ls oldblock newblock = log_redirect ls LOG_BNODE_REDIRECT oldblock newblock"

definition log_bnode_root :: "logstate \<Rightarrow> nat \<Rightarrow> nat \<Rightarrow> nat \<Rightarrow> nat \<Rightarrow> nat \<Rightarrow> logstate option" where
  "log_bnode_root ls root count left right rkey = do {
     ls \<leftarrow> log_begin ls 26;
     c_assert (count = 1 \<or> count = 2);
     let data = [of_nat LOG_BNODE_ROOT, of_nat count];
     let data = encode48 data root;
     let data = encode48 data left;
     let data = encode48 data right;
     Some (log_end ls (encode48 data rkey)) }"

definition log_bnode_split :: "logstate \<Rightarrow> nat \<Rightarrow> nat \<Rightarrow> nat \<Rightarrow> logstate option" where
  "log_bnode_split ls src pos dest = do {
     ls \<leftarrow> log_begin ls 15;
     let data = [of_nat LOG_BNODE_SPLIT];
     let data = encode32 data pos;
     let data = encode48 data src;
     Some (log_end ls (encode48 data dest)) }"

definition log_bnode_entry :: "logstate \<Rightarrow> nat \<Rightarrow> nat \<Rightarrow> nat \<Rightarrow> nat \<Rightarrow> logstate option" where
  "log_bnode_entry ls intent parent child key = do {
     ls \<leftarrow> log_begin ls 19;
     let data = [of_nat intent];
     let data = encode48 data parent;
     let data = encode48 data child;
     Some (log_end ls (encode48 data key)) }"

definition log_bnode_add :: "logstate \<Rightarrow> nat \<Rightarrow> nat \<Rightarrow> nat \<Rightarrow> logstate option" where
  "log_bnode_add ls parent child key = log_bnode_entry ls LOG_BNODE_ADD parent child key"

definition log_bnode_update :: "logstate \<Rightarrow> nat \<Rightarrow> nat \<Rightarrow> nat \<Rightarrow> logstate option" where
  "log_bnode_update ls parent child key = log_bnode_entry ls LOG_BNODE_UPDATE parent child key"

section \<open>Replay\<close>

definition LOG_TYPES :: nat where "LOG_TYPES = 0x3c"

definition logsize :: "nat list" where
  "logsize = (replicate LOG_TYPES 0)
     [LOG_BALLOC := 8, LOG_BFREE := 8, LOG_BFREE_ON_ROLLUP := 8, LOG_LEAF_REDIRECT := 13,
      LOG_BNODE_REDIRECT := 13, LOG_BNODE_ROOT := 26, LOG_BNODE_SPLIT := 15,
      LOG_BNODE_ADD := 19, LOG_BNODE_UPDATE := 19]"

text \<open>The first pass over the data of a block, from \<open>p\<close> up to \<open>stop\<close>.\<close>

function replay_pass1 :: "bytes \<Rightarrow> nat \<Rightarrow> nat \<Rightarrow> (errno + unit) option" where
  "replay_pass1 b p stop =
     (if p < stop then
        if p \<ge> length b then None
        else
          let code = load8 b p; data = drop (p + 1) b
          in if code = LOG_BNODE_ADD \<or> code = LOG_BNODE_UPDATE then do {
               (parent, data) \<leftarrow> decode48 data;
               (child, data) \<leftarrow> decode48 data;
               (key, data) \<leftarrow> decode48 data;
               replay_pass1 b (p + 1 + 6 + 6 + 6) stop }
             else if code = LOG_BALLOC \<or> code = LOG_BFREE \<or> code = LOG_BFREE_ON_ROLLUP then
               replay_pass1 b (p + 1 + (logsize ! code - 1)) stop
             else Some (Inl EINVAL)
      else Some (Inr ()))"
  by pat_completeness auto
termination
  by (relation "measure (\<lambda>(b, p, stop). stop - p)") auto

declare replay_pass1.simps [simp del]

text \<open>The second pass; the error of \<open>update_bitmap\<close> is only printed.\<close>

function replay_pass2 ::
  "bytes \<Rightarrow> nat \<Rightarrow> nat \<Rightarrow> 'a sb_scheme \<Rightarrow> ((errno + unit) \<times> 'a sb_scheme) option" where
  "replay_pass2 b p stop sb =
     (if p < stop then
        if p \<ge> length b then None
        else
          let code = load8 b p
          in if code = LOG_BALLOC \<or> code = LOG_BFREE \<or> code = LOG_BFREE_ON_ROLLUP then
               if p + 1 \<ge> length b then None
               else
                 let count = load8 b (p + 1)
                 in case decode48 (drop (p + 2) b) of
                      None \<Rightarrow> None
                    | Some (block, data) \<Rightarrow>
                        (let (err, sb) = update_bitmap sb block count (code = LOG_BALLOC)
                         in replay_pass2 b (p + 2 + 6) stop sb)
             else if code = LOG_LEAF_REDIRECT \<or> code = LOG_BNODE_REDIRECT \<or> code = LOG_BNODE_ROOT
               \<or> code = LOG_BNODE_SPLIT \<or> code = LOG_BNODE_ADD \<or> code = LOG_BNODE_UPDATE then
               replay_pass2 b (p + 1 + (logsize ! code - 1)) stop sb
             else Some (Inl EINVAL, sb)
      else Some (Inr (), sb))"
  by pat_completeness auto
termination
  by (relation "measure (\<lambda>(b, p, stop, sb). stop - p)") auto

declare replay_pass2.simps [simp del]

text \<open>The log blocks are loaded from the last to the first along the chain.\<close>

fun replay_load :: "(nat \<Rightarrow> errno + bytes) \<Rightarrow> nat \<Rightarrow> nat \<Rightarrow> logstate \<Rightarrow> (errno + unit) \<times> logstate" where
  "replay_load disk 0 logchain ls = (Inr (), ls)"
| "replay_load disk (Suc i) logchain ls =
     (case disk logchain of
        Inl err \<Rightarrow> (Inl err, ls)
      | Inr b \<Rightarrow>
          (let ls = put_log ls i b
           in if load16 b 0 \<noteq> TUX3_MAGIC_LOG then (Inl EINVAL, ls)
              else replay_load disk i (load64 b 8) ls))"

fun replay_blocks1 :: "nat \<Rightarrow> logstate \<Rightarrow> ((errno + unit) \<times> logstate) option" where
  "replay_blocks1 0 ls = Some (Inr (), ls)"
| "replay_blocks1 (Suc n) ls =
     (let ls = log_next ls; b = log_block ls (the (logbuf ls))
      in case replay_pass1 b LOG_HEAD (LOG_HEAD + load16 b 2) of
           None \<Rightarrow> None
         | Some (Inl err) \<Rightarrow> Some (Inl err, log_drop ls)
         | Some (Inr _) \<Rightarrow> replay_blocks1 n (log_drop ls))"

fun replay_blocks2 ::
  "nat \<Rightarrow> logstate \<Rightarrow> 'a sb_scheme \<Rightarrow> ((errno + unit) \<times> logstate \<times> 'a sb_scheme) option" where
  "replay_blocks2 0 ls sb = Some (Inr (), ls, sb)"
| "replay_blocks2 (Suc n) ls sb =
     (let ls = log_next ls; b = log_block ls (the (logbuf ls))
      in case replay_pass2 b LOG_HEAD (LOG_HEAD + load16 b 2) sb of
           None \<Rightarrow> None
         | Some (Inl err, sb) \<Rightarrow> Some (Inl err, log_drop ls, sb)
         | Some (Inr _, sb) \<Rightarrow> replay_blocks2 n (log_drop ls) sb)"

definition replay ::
  "(nat \<Rightarrow> errno + bytes) \<Rightarrow> nat \<Rightarrow> nat \<Rightarrow> logstate \<Rightarrow> 'a sb_scheme
     \<Rightarrow> ((errno + unit) \<times> logstate \<times> 'a sb_scheme) option" where
  "replay disk logchain logcount ls sb =
     (case replay_load disk logcount logchain ls of
        (Inl err, ls) \<Rightarrow> Some (Inl err, ls, sb)
      | (Inr _, ls) \<Rightarrow> do {
          (r, ls) \<leftarrow> replay_blocks1 logcount (ls\<lparr>lognext := 0\<rparr>);
          case r of
            Inl err \<Rightarrow> Some (Inl err, ls, sb)
          | Inr _ \<Rightarrow> replay_blocks2 logcount (ls\<lparr>lognext := 0\<rparr>) sb })"


section \<open>Entries as data\<close>

text \<open>An entry is what one call of a \<open>log_*\<close> function records.\<close>

datatype log_entry =
    Balloc nat nat
  | Bfree nat nat
  | Bfree_on_rollup nat nat
  | Leaf_redirect nat nat
  | Bnode_redirect nat nat
  | Bnode_root nat nat nat nat nat
  | Bnode_split nat nat nat
  | Bnode_add nat nat nat
  | Bnode_update nat nat nat

fun log_put :: "log_entry \<Rightarrow> logstate \<Rightarrow> logstate option" where
  "log_put (Balloc block count) ls = log_balloc ls block count"
| "log_put (Bfree block count) ls = log_bfree ls block count"
| "log_put (Bfree_on_rollup block count) ls = log_bfree_on_rollup ls block count"
| "log_put (Leaf_redirect old new) ls = log_leaf_redirect ls old new"
| "log_put (Bnode_redirect old new) ls = log_bnode_redirect ls old new"
| "log_put (Bnode_root root count left right rkey) ls = log_bnode_root ls root count left right rkey"
| "log_put (Bnode_split src pos dest) ls = log_bnode_split ls src pos dest"
| "log_put (Bnode_add parent child key) ls = log_bnode_add ls parent child key"
| "log_put (Bnode_update parent child key) ls = log_bnode_update ls parent child key"

fun log_puts :: "log_entry list \<Rightarrow> logstate \<Rightarrow> logstate option" where
  "log_puts [] ls = Some ls"
| "log_puts (e # es) ls = do { ls \<leftarrow> log_put e ls; log_puts es ls }"

fun entry_bytes :: "log_entry \<Rightarrow> bytes" where
  "entry_bytes (Balloc block count) = [of_nat LOG_BALLOC, of_nat count] @ be48 block"
| "entry_bytes (Bfree block count) = [of_nat LOG_BFREE, of_nat count] @ be48 block"
| "entry_bytes (Bfree_on_rollup block count) = [of_nat LOG_BFREE_ON_ROLLUP, of_nat count] @ be48 block"
| "entry_bytes (Leaf_redirect old new) = of_nat LOG_LEAF_REDIRECT # be48 old @ be48 new"
| "entry_bytes (Bnode_redirect old new) = of_nat LOG_BNODE_REDIRECT # be48 old @ be48 new"
| "entry_bytes (Bnode_root root count left right rkey) =
     [of_nat LOG_BNODE_ROOT, of_nat count] @ be48 root @ be48 left @ be48 right @ be48 rkey"
| "entry_bytes (Bnode_split src pos dest) = of_nat LOG_BNODE_SPLIT # be32 pos @ be48 src @ be48 dest"
| "entry_bytes (Bnode_add parent child key) = of_nat LOG_BNODE_ADD # be48 parent @ be48 child @ be48 key"
| "entry_bytes (Bnode_update parent child key) = of_nat LOG_BNODE_UPDATE # be48 parent @ be48 child @ be48 key"

text \<open>
  The entries that are logged and parsed as they should be: fields that fit, and no entry for a
  split, which is longer than \<open>log_begin\<close> and \<open>logsize\<close> are told.
\<close>

fun entry_ok :: "log_entry \<Rightarrow> bool" where
  "entry_ok (Balloc block count) \<longleftrightarrow> block < 2 ^ 48 \<and> count < 256"
| "entry_ok (Bfree block count) \<longleftrightarrow> block < 2 ^ 48 \<and> count < 256"
| "entry_ok (Bfree_on_rollup block count) \<longleftrightarrow> block < 2 ^ 48 \<and> count < 256"
| "entry_ok (Bnode_root root count left right rkey) \<longleftrightarrow> count = 1 \<or> count = 2"
| "entry_ok (Bnode_split src pos dest) \<longleftrightarrow> False"
| "entry_ok _ \<longleftrightarrow> True"

text \<open>What the second pass makes of an entry, and whether the first pass lets it through.\<close>

fun entry_effect :: "log_entry \<Rightarrow> 'a sb_scheme \<Rightarrow> 'a sb_scheme" where
  "entry_effect (Balloc block count) sb = snd (update_bitmap sb block count True)"
| "entry_effect (Bfree block count) sb = snd (update_bitmap sb block count False)"
| "entry_effect (Bfree_on_rollup block count) sb = snd (update_bitmap sb block count False)"
| "entry_effect _ sb = sb"

fun entry_known :: "log_entry \<Rightarrow> bool" where
  "entry_known (Leaf_redirect old new) \<longleftrightarrow> False"
| "entry_known (Bnode_redirect old new) \<longleftrightarrow> False"
| "entry_known (Bnode_root root count left right rkey) \<longleftrightarrow> False"
| "entry_known (Bnode_split src pos dest) \<longleftrightarrow> False"
| "entry_known _ \<longleftrightarrow> True"

definition entries_bytes :: "log_entry list \<Rightarrow> bytes" where
  "entries_bytes es = concat (map entry_bytes es)"

lemma entries_bytes_simps [simp]:
  "entries_bytes [] = []" "entries_bytes (e # es) = entry_bytes e @ entries_bytes es"
  "entries_bytes (es @ es') = entries_bytes es @ entries_bytes es'"
  by (simp_all add: entries_bytes_def)

fun entry_code :: "log_entry \<Rightarrow> nat" where
  "entry_code (Balloc _ _) = LOG_BALLOC"
| "entry_code (Bfree _ _) = LOG_BFREE"
| "entry_code (Bfree_on_rollup _ _) = LOG_BFREE_ON_ROLLUP"
| "entry_code (Leaf_redirect _ _) = LOG_LEAF_REDIRECT"
| "entry_code (Bnode_redirect _ _) = LOG_BNODE_REDIRECT"
| "entry_code (Bnode_root _ _ _ _ _) = LOG_BNODE_ROOT"
| "entry_code (Bnode_split _ _ _) = LOG_BNODE_SPLIT"
| "entry_code (Bnode_add _ _ _) = LOG_BNODE_ADD"
| "entry_code (Bnode_update _ _ _) = LOG_BNODE_UPDATE"

lemma entry_bytes_code: "entry_bytes e = of_nat (entry_code e) # tl (entry_bytes e)"
  by (cases e) simp_all

lemma entry_bytes_length: "8 \<le> length (entry_bytes e) \<and> length (entry_bytes e) \<le> 26"
  by (cases e) simp_all

lemma log_put_eq:
  "entry_ok e \<Longrightarrow> log_put e ls = do {
     ls \<leftarrow> log_begin ls (length (entry_bytes e)); Some (log_end ls (entry_bytes e)) }"
  by (cases e)
    (auto simp: log_balloc_def log_bfree_def log_bfree_on_rollup_def log_extent_def log_leaf_redirect_def
      log_bnode_redirect_def log_redirect_def log_bnode_root_def log_bnode_split_def log_bnode_add_def
      log_bnode_update_def log_bnode_entry_def encode_append Let_def)

section \<open>Parsing what was written\<close>

lemma drop_next: "drop p b = x # xs \<Longrightarrow> p < length b \<and> b ! p = x \<and> drop (p + 1) b = xs"
  by (metis Cons_nth_drop_Suc Suc_eq_plus1 drop_all list.discI list.inject not_less)

lemma load8_drop: "drop p b = of_nat c # xs \<Longrightarrow> c < 256 \<Longrightarrow> load8 b p = c"
  by (drule drop_next) (simp add: load8_def unat_of_nat)

lemma drop_skip: "drop p b = xs @ ys \<Longrightarrow> drop (p + length xs) b = ys"
  by (metis append_eq_conv_conj drop_drop add.commute)

lemma parse_head:
  assumes "drop p b = entry_bytes e @ rest" "p + length (entry_bytes e) \<le> stop" "entry_ok e"
  shows "replay_pass1 b p stop
      = (if entry_known e then replay_pass1 b (p + length (entry_bytes e)) stop else Some (Inl EINVAL))"
    "replay_pass2 b p stop sb = replay_pass2 b (p + length (entry_bytes e)) stop (entry_effect e sb)"
proof -
  have lt: "p < stop" using assms(2) entry_bytes_length [of e] by linarith
  have dr: "drop p b = of_nat (entry_code e) # tl (entry_bytes e) @ rest"
    using assms(1) entry_bytes_code [of e] by (metis append_Cons)
  have c: "p < length b" "load8 b p = entry_code e"
    using drop_next [OF dr] load8_drop [OF dr] by (cases e; simp add: log_codes)+
  have d: "drop (Suc p) b = tl (entry_bytes e) @ rest" using drop_next [OF dr] by simp
  have d2: "drop (Suc (Suc p)) b = tl (tl (entry_bytes e)) @ rest" if "tl (entry_bytes e) \<noteq> []"
    using d that by (metis append_Nil drop_Suc drop_eq_Nil tl_append2 tl_drop)
  show "replay_pass1 b p stop
      = (if entry_known e then replay_pass1 b (p + length (entry_bytes e)) stop else Some (Inl EINVAL))"
    using lt c d assms(3)
    by (subst replay_pass1.simps, cases e)
      (auto simp: log_codes logsize_def LOG_TYPES_def Let_def add.commute)
  show "replay_pass2 b p stop sb = replay_pass2 b (p + length (entry_bytes e)) stop (entry_effect e sb)"
  proof (cases "entry_code e \<in> {LOG_BALLOC, LOG_BFREE, LOG_BFREE_ON_ROLLUP}")
    case False
    then show ?thesis
      using lt c assms(3)
      by (subst replay_pass2.simps, cases e)
        (auto simp: log_codes logsize_def LOG_TYPES_def Let_def add.commute)
  next
    case True
    then obtain block count where e: "block < 2 ^ 48" "count < 256"
      "tl (entry_bytes e) = of_nat count # be48 block" "length (entry_bytes e) = 8"
      "entry_effect e sb = snd (update_bitmap sb block count (entry_code e = LOG_BALLOC))"
      using assms(3) by (cases e) (auto simp: log_codes)
    have d1: "drop (Suc p) b = of_nat count # be48 block @ rest" using d e(3) by simp
    have "Suc p < length b" "load8 b (Suc p) = count" "drop (Suc (Suc p)) b = be48 block @ rest"
      using drop_next [OF d1] load8_drop [OF d1 e(2)] by simp_all
    moreover from this e(1) have "decode48 (drop (p + 2) b) = Some (block, rest)" by simp
    moreover have "entry_code e = LOG_BALLOC \<or> entry_code e = LOG_BFREE \<or> entry_code e = LOG_BFREE_ON_ROLLUP"
      using True by simp
    moreover have "p + 2 + 6 = p + length (entry_bytes e)" using e(4) by simp
    ultimately show ?thesis
      using lt c e(5) by (subst replay_pass2.simps) (simp add: Let_def case_prod_unfold add.commute)
  qed
qed

lemma parse_entries:
  assumes "drop p b = entries_bytes es @ rest" "\<forall>e\<in>set es. entry_ok e"
  shows "replay_pass1 b p (p + length (entries_bytes es))
      = Some (if list_all entry_known es then Inr () else Inl EINVAL)
    \<and> replay_pass2 b p (p + length (entries_bytes es)) sb = Some (Inr (), fold entry_effect es sb)"
  using assms
proof (induction es arbitrary: p sb)
  case Nil
  then show ?case by (simp add: replay_pass1.simps replay_pass2.simps)
next
  case (Cons e es)
  let ?q = "p + length (entry_bytes e)" and ?stop = "p + length (entries_bytes (e # es))"
  have stop: "?stop = ?q + length (entries_bytes es)" and le: "?q \<le> ?stop" by simp_all
  have d: "drop p b = entry_bytes e @ entries_bytes es @ rest" and ok: "entry_ok e" "\<forall>e\<in>set es. entry_ok e"
    using Cons.prems by simp_all
  note ih = Cons.IH [OF drop_skip [OF d] ok(2), of "entry_effect e sb", folded stop]
  show ?case using parse_head(1) [OF d le ok(1)] parse_head(2) [OF d le ok(1), of sb] ih by simp
qed

section \<open>The writer\<close>

text \<open>A block with the header and the entries \<open>es\<close>, finished when its length is recorded.\<close>

definition open_block :: "nat \<Rightarrow> bytes \<Rightarrow> log_entry list \<Rightarrow> bool" where
  "open_block bs b es \<longleftrightarrow> length b = bs \<and> load16 b 0 = TUX3_MAGIC_LOG
     \<and> LOG_HEAD + length (entries_bytes es) \<le> bs
     \<and> chunk LOG_HEAD (length (entries_bytes es)) b = entries_bytes es"

definition closed_block :: "nat \<Rightarrow> bytes \<Rightarrow> log_entry list \<Rightarrow> bool" where
  "closed_block bs b es \<longleftrightarrow> open_block bs b es \<and> load16 b 2 = length (entries_bytes es)"

text \<open>
  The log since index \<open>n0\<close>: the finished blocks with the entries \<open>ess\<close>, and the current block
  with the entries \<open>cur\<close>.
\<close>

definition log_inv :: "nat \<Rightarrow> log_entry list list \<Rightarrow> log_entry list \<Rightarrow> logstate \<Rightarrow> bool" where
  "log_inv n0 ess cur ls \<longleftrightarrow> 42 \<le> log_bsize ls \<and> log_bsize ls \<le> 2 ^ 16
     \<and> (\<forall>i < length ess. \<exists>b. logmap ls (n0 + i) = Some b \<and> closed_block (log_bsize ls) b (ess ! i))
     \<and> (\<forall>i b. logmap ls i = Some b \<longrightarrow> length b = log_bsize ls)
     \<and> (case logbuf ls of
          None \<Rightarrow> cur = [] \<and> lognext ls = n0 + length ess \<and> logpos ls = 0 \<and> logtop ls = 0
        | Some k \<Rightarrow> k = n0 + length ess \<and> lognext ls = k + 1 \<and> logtop ls = log_bsize ls
            \<and> logpos ls = LOG_HEAD + length (entries_bytes cur)
            \<and> (\<exists>b. logmap ls k = Some b \<and> open_block (log_bsize ls) b cur))"

lemma log_finish_inv:
  assumes "log_inv n0 ess cur ls"
  shows "\<exists>ls'. log_finish ls = Some ls' \<and> log_bsize ls' = log_bsize ls \<and> logbuf ls' = None
    \<and> log_inv n0 (if logbuf ls = None then ess else ess @ [cur]) [] ls'"
proof (cases "logbuf ls")
  case None
  then show ?thesis using assms by (auto simp: log_finish_def log_inv_def)
next
  case (Some k)
  let ?n = "length (entries_bytes cur)"
  obtain b where b: "logmap ls k = Some b" "open_block (log_bsize ls) b cur" "k = n0 + length ess"
    "lognext ls = k + 1" "logtop ls = log_bsize ls" "logpos ls = LOG_HEAD + ?n"
    using assms Some by (auto simp: log_inv_def)
  have ob: "length b = log_bsize ls" "load16 b 0 = TUX3_MAGIC_LOG" "LOG_HEAD + ?n \<le> log_bsize ls"
    "chunk LOG_HEAD ?n b = entries_bytes cur"
    using b(2) by (simp_all add: open_block_def)
  have bs: "log_bsize ls \<le> 65536" "16 \<le> log_bsize ls" using assms by (simp_all add: log_inv_def)
  let ?b1 = "store16 b 2 ?n"
  let ?b2 = "memset ?b1 (LOG_HEAD + ?n) 0 (log_bsize ls - (LOG_HEAD + ?n))"
  let ?ls = "log_drop (put_log ls k ?b2)"
  have f: "log_finish ls = Some ?ls" using Some b ob(3) by (simp add: log_finish_def log_block_def)
  have l1: "length ?b1 = log_bsize ls" using ob(1) bs by (simp add: mem_simps)
  have l2: "length ?b2 = log_bsize ls" using l1 ob(3) by (simp add: mem_simps)
  have m: "load16 ?b2 p = load16 ?b1 p" if "p + 2 \<le> LOG_HEAD" for p
    unfolding memset_def using that l1 ob(3) by (intro load16_blit_other) auto
  have "load16 ?b2 2 = ?n"
    using m [of 2] ob(1,3) bs by (simp add: LOG_HEAD_def load16_store16)
  moreover have "load16 ?b2 0 = TUX3_MAGIC_LOG"
  proof -
    have "load16 ?b1 0 = load16 b 0" unfolding store16_def using ob(1) bs by (intro load16_blit_other) auto
    then show ?thesis using m [of 0] ob(2) by (simp add: LOG_HEAD_def)
  qed
  moreover have "chunk LOG_HEAD ?n ?b2 = entries_bytes cur"
  proof -
    have "chunk LOG_HEAD ?n ?b2 = chunk LOG_HEAD ?n ?b1"
      unfolding memset_def using l1 ob(3) by (intro chunk_blit_before) auto
    also have "\<dots> = chunk LOG_HEAD ?n b"
      unfolding store16_def using ob(1,3) by (intro chunk_blit_after) (auto simp: LOG_HEAD_def)
    finally show ?thesis using ob(4) by simp
  qed
  ultimately have c: "closed_block (log_bsize ls) ?b2 cur"
    using l2 ob(3) by (simp add: closed_block_def open_block_def)
  have "\<exists>b. logmap ?ls (n0 + i) = Some b \<and> closed_block (log_bsize ls) b ((ess @ [cur]) ! i)"
    if "i < length (ess @ [cur])" for i
    using that assms c b(3) by (cases "i = length ess") (auto simp: log_inv_def log_drop_def put_log_def nth_append)
  then have "log_inv n0 (ess @ [cur]) [] ?ls"
    using assms b(3,4) l2 unfolding log_inv_def by (auto simp: log_drop_def put_log_def)
  then show ?thesis using f Some by (simp add: log_drop_def put_log_def)
qed


lemma log_begin_inv:
  assumes "log_inv n0 ess cur ls" "0 < n" "n \<le> 26" "n0 + length ess + 2 < 2 ^ 32"
  shows "\<exists>ls' ess' cur'. log_begin ls n = Some ls' \<and> log_inv n0 ess' cur' ls' \<and> log_bsize ls' = log_bsize ls
    \<and> logbuf ls' \<noteq> None \<and> logpos ls' + n \<le> logtop ls' \<and> concat ess' @ cur' = concat ess @ cur
    \<and> length ess' \<le> length ess + 1"
proof (cases "logpos ls + n > logtop ls")
  case False
  moreover from this have "logbuf ls \<noteq> None"
    using assms(1,2) by (auto simp: log_inv_def split: option.splits)
  ultimately show ?thesis using assms(1)
    by (intro exI [of _ ls] exI [of _ ess] exI [of _ cur]) (simp add: log_begin_def)
next
  case True
  obtain ls1 where f: "log_finish ls = Some ls1" "log_bsize ls1 = log_bsize ls" "logbuf ls1 = None"
    "log_inv n0 (if logbuf ls = None then ess else ess @ [cur]) [] ls1"
    using log_finish_inv [OF assms(1)] by blast
  define ess' where "ess' = (if logbuf ls = None then ess else ess @ [cur])"
  have cur: "concat ess' @ [] = concat ess @ cur" "length ess' \<le> length ess + 1"
    using assms(1) by (auto simp: ess'_def log_inv_def)
  have n1: "lognext ls1 = n0 + length ess'" using f(3,4) by (simp add: log_inv_def ess'_def)
  have bs: "42 \<le> log_bsize ls1" "log_bsize ls1 \<le> 2 ^ 16" using f(4) by (simp_all add: log_inv_def)
  let ?i = "lognext ls1"
  let ?old = "log_block ls1 ?i"
  let ?b = "blit ?old 0 log_header"
  let ?ls = "put_log (log_next ls1) ?i ?b"
  have h: "length log_header = 16" by (simp add: log_header_def)
  have lens: "\<forall>j b. logmap ls1 j = Some b \<longrightarrow> length b = log_bsize ls1" using f(4) by (simp add: log_inv_def)
  have l0: "length ?old = log_bsize ls1"
    using lens by (simp add: log_block_def split: option.splits)
  have l: "length ?b = log_bsize ls1" using l0 h bs by (simp add: mem_simps)
  have "chunk 0 16 ?b = log_header" using l0 h bs by (simp add: mem_simps)
  then have "load16 ?b 0 = load16 log_header 0"
    using load16_chunk [of 0 ?b] load16_chunk [of 0 log_header] l bs h chunk_chunk [of 0 2 16 0 ?b] by simp
  also have "\<dots> = TUX3_MAGIC_LOG"
    by (simp add: log_header_def load16_append_left load16_be16 TUX3_MAGIC_LOG_def)
  finally have ob: "open_block (log_bsize ls1) ?b []"
    using l bs by (simp add: open_block_def LOG_HEAD_def)
  have lb: "log_begin ls n = Some ?ls"
    using True f(1) by (simp add: log_begin_def log_next_def put_log_def log_block_def Let_def)
  have w: "wrap32 (?i + 1) = ?i + 1" using n1 assms(4) cur(2) by (simp add: wrap32_id)
  have blk: "logmap ?ls j = (if j = ?i then Some ?b else logmap ls1 j)" for j
    by (simp add: put_log_def log_next_def)
  have "log_inv n0 ess' [] ?ls"
    unfolding log_inv_def
  proof (intro conjI)
    show "\<forall>j < length ess'. \<exists>b. logmap ?ls (n0 + j) = Some b \<and> closed_block (log_bsize ?ls) b (ess' ! j)"
      using f(4) n1 blk by (auto simp: log_inv_def ess'_def put_log_def log_next_def)
    show "\<forall>j b. logmap ?ls j = Some b \<longrightarrow> length b = log_bsize ?ls"
      using lens blk l by (simp add: put_log_def log_next_def)
  qed (use bs n1 w ob in \<open>auto simp: log_next_def put_log_def\<close>)
  moreover have "logpos ?ls + n \<le> logtop ?ls" "logbuf ?ls \<noteq> None" "log_bsize ?ls = log_bsize ls"
    using assms(3) bs f(2) by (simp_all add: log_next_def put_log_def LOG_HEAD_def)
  ultimately show ?thesis using lb cur by blast
qed


lemma log_end_inv:
  assumes "log_inv n0 ess cur ls" "logbuf ls \<noteq> None" "logpos ls + length (entry_bytes e) \<le> logtop ls"
  shows "log_inv n0 ess (cur @ [e]) (log_end ls (entry_bytes e))"
proof -
  let ?d = "entry_bytes e" and ?n = "length (entries_bytes cur)"
  obtain k b where b: "logbuf ls = Some k" "logmap ls k = Some b" "open_block (log_bsize ls) b cur"
    "k = n0 + length ess" "lognext ls = k + 1" "logtop ls = log_bsize ls" "logpos ls = LOG_HEAD + ?n"
    using assms(1,2) by (auto simp: log_inv_def)
  have ob: "length b = log_bsize ls" "load16 b 0 = TUX3_MAGIC_LOG" "chunk LOG_HEAD ?n b = entries_bytes cur"
    using b(3) by (simp_all add: open_block_def)
  have room: "LOG_HEAD + ?n + length ?d \<le> log_bsize ls" using assms(3) b(6,7) by simp
  let ?b = "blit b (LOG_HEAD + ?n) ?d"
  have "length ?b = log_bsize ls" using room ob(1) by (simp add: mem_simps)
  moreover have "load16 ?b 0 = TUX3_MAGIC_LOG"
    using room ob by (subst load16_blit_other) (auto simp: LOG_HEAD_def)
  moreover have "chunk LOG_HEAD (?n + length ?d) ?b = entries_bytes cur @ ?d"
    using room ob by (simp add: chunk_append chunk_blit_before chunk_blit_same)
  ultimately have nb: "open_block (log_bsize ls) ?b (cur @ [e])"
    using room by (simp add: open_block_def)
  show ?thesis
    unfolding log_inv_def
  proof (intro conjI)
    show "\<forall>i<length ess. \<exists>x. logmap (log_end ls ?d) (n0 + i) = Some x
        \<and> closed_block (log_bsize (log_end ls ?d)) x (ess ! i)"
      using assms(1) b(1,2,4,7) by (auto simp: log_inv_def log_end_def put_log_def log_block_def)
    show "\<forall>i x. logmap (log_end ls ?d) i = Some x \<longrightarrow> length x = log_bsize (log_end ls ?d)"
      using assms(1) b(1,2,7) nb by (auto simp: log_inv_def log_end_def put_log_def log_block_def open_block_def)
  qed (use assms(1) b nb in \<open>auto simp: log_inv_def log_end_def put_log_def log_block_def\<close>)
qed

lemma log_put_inv:
  assumes "log_inv n0 ess cur ls" "entry_ok e" "n0 + length ess + 2 < 2 ^ 32"
  shows "\<exists>ls' ess' cur'. log_put e ls = Some ls' \<and> log_inv n0 ess' cur' ls' \<and> log_bsize ls' = log_bsize ls
    \<and> concat ess' @ cur' = concat ess @ cur @ [e] \<and> length ess' \<le> length ess + 1"
proof -
  have n: "0 < length (entry_bytes e)" "length (entry_bytes e) \<le> 26" using entry_bytes_length [of e] by auto
  obtain ls1 ess' cur' where b: "log_begin ls (length (entry_bytes e)) = Some ls1" "log_inv n0 ess' cur' ls1"
    "log_bsize ls1 = log_bsize ls" "logbuf ls1 \<noteq> None" "logpos ls1 + length (entry_bytes e) \<le> logtop ls1"
    "concat ess' @ cur' = concat ess @ cur" "length ess' \<le> length ess + 1"
    using log_begin_inv [OF assms(1) n assms(3)] by blast
  have "log_put e ls = Some (log_end ls1 (entry_bytes e))" using log_put_eq [OF assms(2)] b(1) by simp
  moreover have "log_inv n0 ess' (cur' @ [e]) (log_end ls1 (entry_bytes e))"
    by (rule log_end_inv [OF b(2,4,5)])
  moreover have "log_bsize (log_end ls1 (entry_bytes e)) = log_bsize ls"
    using b(3) by (simp add: log_end_def put_log_def Let_def)
  moreover have "concat ess' @ cur' @ [e] = concat ess @ cur @ [e]" using b(6) by (metis append_assoc)
  ultimately show ?thesis using b(7) by blast
qed

lemma log_puts_inv:
  assumes "log_inv n0 ess cur ls" "\<forall>e\<in>set es. entry_ok e" "n0 + length ess + length es + 2 < 2 ^ 32"
  shows "\<exists>ls' ess' cur'. log_puts es ls = Some ls' \<and> log_inv n0 ess' cur' ls' \<and> log_bsize ls' = log_bsize ls
    \<and> concat ess' @ cur' = concat ess @ cur @ es \<and> length ess' \<le> length ess + length es"
  using assms
proof (induction es arbitrary: ls ess cur)
  case Nil
  then show ?case by (intro exI [of _ ls] exI [of _ ess] exI [of _ cur]) simp
next
  case (Cons e es)
  obtain ls1 ess1 cur1 where 1: "log_put e ls = Some ls1" "log_inv n0 ess1 cur1 ls1"
    "log_bsize ls1 = log_bsize ls" "concat ess1 @ cur1 = concat ess @ cur @ [e]" "length ess1 \<le> length ess + 1"
    using log_put_inv [of n0 ess cur ls e] Cons.prems by auto
  obtain ls' ess' cur' where 2: "log_puts es ls1 = Some ls'" "log_inv n0 ess' cur' ls'"
    "log_bsize ls' = log_bsize ls1" "concat ess' @ cur' = concat ess1 @ cur1 @ es"
    "length ess' \<le> length ess1 + length es"
    using Cons.IH [OF 1(2)] Cons.prems(2,3) 1(5) by auto
  have "concat ess' @ cur' = concat ess @ cur @ e # es" using 1(4) 2(4) by (metis append_Cons append_Nil append_assoc)
  then show ?case using 1 2 by (intro exI [of _ ls'] exI [of _ ess'] exI [of _ cur']) simp
qed

section \<open>Replay of finished blocks\<close>

definition log_stored :: "nat \<Rightarrow> log_entry list list \<Rightarrow> logstate \<Rightarrow> bool" where
  "log_stored n0 ess ls \<longleftrightarrow> log_bsize ls \<le> 2 ^ 16 \<and> n0 + length ess < 2 ^ 32 \<and> lognext ls = n0 \<and> (\<forall>i < length ess. \<exists>b. logmap ls (n0 + i) = Some b
     \<and> closed_block (log_bsize ls) b (ess ! i) \<and> (\<forall>e\<in>set (ess ! i). entry_ok e))"

lemma log_stored_Cons:
  assumes "log_stored n0 (es # ess) ls"
  obtains b where "logmap ls n0 = Some b" "closed_block (log_bsize ls) b es" "\<forall>e\<in>set es. entry_ok e"
    "log_stored (n0 + 1) ess (log_drop (log_next ls))" "log_block (log_next ls) (the (logbuf (log_next ls))) = b"
    "logmap (log_drop (log_next ls)) = logmap ls"
proof -
  obtain b where b: "logmap ls n0 = Some b" "closed_block (log_bsize ls) b es" "\<forall>e\<in>set es. entry_ok e"
    using assms by (force simp: log_stored_def)
  have n: "lognext ls = n0" "wrap32 (n0 + 1) = n0 + 1" using assms by (simp_all add: log_stored_def wrap32_id)
  have m: "logmap (log_drop (log_next ls)) = logmap ls"
    using b(1) n(1) by (auto simp: log_drop_def log_next_def put_log_def log_block_def)
  have "\<exists>b. logmap ls (n0 + 1 + i) = Some b \<and> closed_block (log_bsize ls) b (ess ! i) \<and> (\<forall>e\<in>set (ess ! i). entry_ok e)"
    if "i < length ess" for i
    using assms that unfolding log_stored_def by (auto dest: spec [of _ "Suc i"])
  then have "log_stored (n0 + 1) ess (log_drop (log_next ls))"
    using assms n m unfolding log_stored_def by (simp add: log_drop_def log_next_def put_log_def)
  then show ?thesis
    using that [OF b] m b(1) n(1) by (simp add: log_next_def put_log_def log_block_def)
qed

lemma parse_block:
  assumes "closed_block bs b es" "\<forall>e\<in>set es. entry_ok e"
  shows "replay_pass1 b LOG_HEAD (LOG_HEAD + load16 b 2) = Some (if list_all entry_known es then Inr () else Inl EINVAL)"
    "replay_pass2 b LOG_HEAD (LOG_HEAD + load16 b 2) sb = Some (Inr (), fold entry_effect es sb)"
proof -
  let ?n = "length (entries_bytes es)"
  have "chunk LOG_HEAD ?n b = entries_bytes es" "load16 b 2 = ?n"
    using assms(1) by (simp_all add: closed_block_def open_block_def)
  then have "drop LOG_HEAD b = entries_bytes es @ drop ?n (drop LOG_HEAD b)" "load16 b 2 = ?n"
    by (metis append_take_drop_id chunk_def)+
  then show "replay_pass1 b LOG_HEAD (LOG_HEAD + load16 b 2) = Some (if list_all entry_known es then Inr () else Inl EINVAL)"
    "replay_pass2 b LOG_HEAD (LOG_HEAD + load16 b 2) sb = Some (Inr (), fold entry_effect es sb)"
    using parse_entries [OF _ assms(2)] by metis+
qed

lemma replay_blocks1_stored:
  "log_stored n0 ess ls \<Longrightarrow> \<exists>ls'. replay_blocks1 (length ess) ls
      = Some (if list_all (list_all entry_known) ess then Inr () else Inl EINVAL, ls')
    \<and> log_bsize ls' = log_bsize ls \<and> logmap ls' = logmap ls"
proof (induction ess arbitrary: n0 ls)
  case Nil
  then show ?case by simp
next
  case (Cons es ess)
  obtain b where b: "logmap ls n0 = Some b" "closed_block (log_bsize ls) b es" "\<forall>e\<in>set es. entry_ok e"
    "log_stored (n0 + 1) ess (log_drop (log_next ls))" "log_block (log_next ls) (the (logbuf (log_next ls))) = b"
    "logmap (log_drop (log_next ls)) = logmap ls"
    using log_stored_Cons [OF Cons.prems] .
  have s: "log_bsize (log_drop (log_next ls)) = log_bsize ls" by (simp add: log_drop_def log_next_def put_log_def)
  show ?case
    using Cons.IH [OF b(4)] parse_block(1) [OF b(2,3)] b(5,6) s by (auto simp: Let_def)
qed

lemma replay_blocks2_stored:
  "log_stored n0 ess ls \<Longrightarrow> \<exists>ls'. replay_blocks2 (length ess) ls sb
      = Some (Inr (), ls', fold entry_effect (concat ess) sb)"
proof (induction ess arbitrary: n0 ls sb)
  case Nil
  then show ?case by simp
next
  case (Cons es ess)
  obtain b where b: "logmap ls n0 = Some b" "closed_block (log_bsize ls) b es" "\<forall>e\<in>set es. entry_ok e"
    "log_stored (n0 + 1) ess (log_drop (log_next ls))" "log_block (log_next ls) (the (logbuf (log_next ls))) = b"
    "logmap (log_drop (log_next ls)) = logmap ls"
    using log_stored_Cons [OF Cons.prems] .
  show ?case
    using Cons.IH [OF b(4), of "fold entry_effect es sb"] parse_block(2) [OF b(2,3), of sb] b(5) by (auto simp: Let_def)
qed


text \<open>
  The chain on disk, from the last block back: each block is closed and names its predecessor.
\<close>

fun log_on_disk :: "(nat \<Rightarrow> errno + bytes) \<Rightarrow> nat \<Rightarrow> nat \<Rightarrow> log_entry list list \<Rightarrow> bool" where
  "log_on_disk disk bs chain [] \<longleftrightarrow> True"
| "log_on_disk disk bs chain (es # ess) \<longleftrightarrow>
     (case disk chain of
        Inl _ \<Rightarrow> False
      | Inr b \<Rightarrow> closed_block bs b es \<and> log_on_disk disk bs (load64 b 8) ess)"

lemma replay_load_chain:
  "log_on_disk disk (log_bsize ls) chain (rev ess) \<Longrightarrow>
    \<exists>ls'. replay_load disk (length ess) chain ls = (Inr (), ls') \<and> log_bsize ls' = log_bsize ls
      \<and> (\<forall>i < length ess. \<exists>b. logmap ls' i = Some b \<and> closed_block (log_bsize ls) b (ess ! i))
      \<and> (\<forall>i \<ge> length ess. logmap ls' i = logmap ls i)"
proof (induction ess arbitrary: chain ls rule: rev_induct)
  case Nil
  then show ?case by simp
next
  case (snoc es ess)
  obtain b where b: "disk chain = Inr b" "closed_block (log_bsize ls) b es"
    "log_on_disk disk (log_bsize ls) (load64 b 8) (rev ess)"
    using snoc.prems by (auto split: sum.splits)
  let ?ls = "put_log ls (length ess) b"
  have s: "log_bsize ?ls = log_bsize ls" by (simp add: put_log_def)
  obtain ls' where ls': "replay_load disk (length ess) (load64 b 8) ?ls = (Inr (), ls')"
    "log_bsize ls' = log_bsize ls"
    "\<forall>i < length ess. \<exists>b. logmap ls' i = Some b \<and> closed_block (log_bsize ls) b (ess ! i)"
    "\<forall>i \<ge> length ess. logmap ls' i = logmap ?ls i"
    using snoc.IH [of ?ls "load64 b 8"] b(3) s by auto
  have "load16 b 0 = TUX3_MAGIC_LOG" using b(2) by (simp add: closed_block_def open_block_def)
  then have "replay_load disk (length (ess @ [es])) chain ls = (Inr (), ls')"
    using b(1) ls'(1) by simp
  moreover have "\<exists>b. logmap ls' i = Some b \<and> closed_block (log_bsize ls) b ((ess @ [es]) ! i)"
    if "i < length (ess @ [es])" for i
    using that ls'(3,4) b(2) by (cases "i = length ess") (auto simp: put_log_def nth_append)
  moreover have "logmap ls' i = logmap ls i" if "i \<ge> length (ess @ [es])" for i
    using that ls'(4) by (auto simp: put_log_def)
  ultimately show ?case using ls'(2) by blast
qed

lemma replay_chain:
  assumes "log_on_disk disk (log_bsize ls) chain (rev ess)" "\<forall>es\<in>set ess. \<forall>e\<in>set es. entry_ok e"
    "log_bsize ls \<le> 2 ^ 16" "length ess < 2 ^ 32"
  shows "\<exists>ls'. replay disk chain (length ess) ls sb
    = Some (if list_all entry_known (concat ess) then (Inr (), ls', fold entry_effect (concat ess) sb)
            else (Inl EINVAL, ls', sb))"
proof -
  obtain ls1 where 1: "replay_load disk (length ess) chain ls = (Inr (), ls1)" "log_bsize ls1 = log_bsize ls"
    "\<forall>i < length ess. \<exists>b. logmap ls1 i = Some b \<and> closed_block (log_bsize ls) b (ess ! i)"
    using replay_load_chain [OF assms(1)] by blast
  have st: "log_stored 0 ess (ls1\<lparr>lognext := 0\<rparr>)"
    using 1(2,3) assms(2-4) by (force simp: log_stored_def)
  obtain ls2 where 2: "replay_blocks1 (length ess) (ls1\<lparr>lognext := 0\<rparr>)
      = Some (if list_all (list_all entry_known) ess then Inr () else Inl EINVAL, ls2)"
    "log_bsize ls2 = log_bsize ls1" "logmap ls2 = logmap ls1"
    using replay_blocks1_stored [OF st] by auto
  have "log_stored 0 ess (ls2\<lparr>lognext := 0\<rparr>)" using st 2(2,3) by (simp add: log_stored_def)
  then obtain ls3 where 3: "replay_blocks2 (length ess) (ls2\<lparr>lognext := 0\<rparr>) sb
      = Some (Inr (), ls3, fold entry_effect (concat ess) sb)"
    using replay_blocks2_stored by blast
  have "list_all (list_all entry_known) ess \<longleftrightarrow> list_all entry_known (concat ess)"
    by (auto simp: list_all_iff)
  then show ?thesis using 1(1) 2(1) 3 by (auto simp: replay_def)
qed

section \<open>Properties\<close>

text \<open>C18. Replay of a chain of finished log blocks applies every recorded allocation and free to the
  bitmaps, in the order they were logged. If any entry of the chain records a redirect, a new root
  or a split, the first pass refuses the log, and no bitmap is touched.\<close>

theorem replay_applies_log:
  assumes "log_on_disk disk (log_bsize ls) chain (rev ess)" and "\<forall>es\<in>set ess. \<forall>e\<in>set es. entry_ok e"
    and "log_bsize ls \<le> 2 ^ 16" and "length ess < 2 ^ 32"
  shows "\<exists>ls'. replay disk chain (length ess) ls sb
    = Some (if list_all entry_known (concat ess) then (Inr (), ls', fold entry_effect (concat ess) sb)
            else (Inl EINVAL, ls', sb))"
  by (rule replay_chain [OF assms])

text \<open>C19. The log writer packs the entries it is given into blocks of the map, in order and without
  loss: after \<open>log_finish\<close> the blocks from the first index on hold exactly the entries that were
  logged, each with its header and the length of its data.\<close>

theorem log_writes_all:
  assumes "42 \<le> log_bsize ls" and "log_bsize ls \<le> 2 ^ 16" and "logbuf ls = None" and "logpos ls = 0"
    and "logtop ls = 0" and "logmap ls = Map.empty" and "lognext ls + length es + 2 < 2 ^ 32"
    and "\<forall>e\<in>set es. entry_ok e"
  shows "\<exists>ls1 ls2 ess. log_puts es ls = Some ls1 \<and> log_finish ls1 = Some ls2 \<and> concat ess = es
    \<and> lognext ls2 = lognext ls + length ess \<and> logbuf ls2 = None
    \<and> (\<forall>i < length ess. \<exists>b. logmap ls2 (lognext ls + i) = Some b \<and> closed_block (log_bsize ls) b (ess ! i))"
proof -
  have "log_inv (lognext ls) [] [] ls" using assms by (simp add: log_inv_def)
  then obtain ls1 ess cur where 1: "log_puts es ls = Some ls1" "log_inv (lognext ls) ess cur ls1"
    "log_bsize ls1 = log_bsize ls" "concat ess @ cur = es"
    using log_puts_inv [of "lognext ls" "[]" "[]" ls es] assms(7,8) by auto
  obtain ls2 where 2: "log_finish ls1 = Some ls2" "log_bsize ls2 = log_bsize ls1" "logbuf ls2 = None"
    "log_inv (lognext ls) (if logbuf ls1 = None then ess else ess @ [cur]) [] ls2"
    using log_finish_inv [OF 1(2)] by blast
  let ?ess = "if logbuf ls1 = None then ess else ess @ [cur]"
  have "concat ?ess = es" using 1(2,4) by (auto simp: log_inv_def)
  moreover have "lognext ls2 = lognext ls + length ?ess" using 2(3,4) by (simp add: log_inv_def)
  moreover have "\<forall>i < length ?ess. \<exists>b. logmap ls2 (lognext ls + i) = Some b \<and> closed_block (log_bsize ls) b (?ess ! i)"
    using 1(3) 2(2,4) unfolding log_inv_def by metis
  ultimately show ?thesis using 1(1) 2(1,3) by blast
qed

text \<open>C20. A split entry is 17 bytes long, but 15 bytes are reserved for it: when only 15 or 16 are left
  in the block, its end is written behind the block, and the assertion of the next
  \<open>log_finish\<close> fails.\<close>

theorem log_bnode_split_overruns:
  assumes "logbuf ls = Some k" and "logmap ls k = Some b" and "length b = logtop ls"
    and "logpos ls + 15 = logtop ls"
  shows "\<exists>ls' b'. log_bnode_split ls src pos dest = Some ls' \<and> logmap ls' k = Some b'
    \<and> length b' = length b + 2 \<and> log_finish ls' = None"
  using assms
  by (auto simp: log_bnode_split_def log_begin_def log_end_def log_block_def put_log_def encode_append
      Let_def log_finish_def blit_def)

section \<open>Witnesses\<close>

definition demo_log :: logstate where
  "demo_log = \<lparr>log_bsize = 64, logmap = Map.empty, lognext = 0, logbuf = None, logpos = 0, logtop = 0\<rparr>"

theorem log_writes_all_witness:
  "\<exists>ls1 ls2. log_puts (replicate 7 (Balloc 5 3)) demo_log = Some ls1 \<and> log_finish ls1 = Some ls2 \<and> logbuf ls2 = None"
  using log_writes_all [of demo_log "replicate 7 (Balloc 5 3)"] by (auto simp: demo_log_def)

definition demo_log_block :: bytes where
  "demo_log_block = be16 TUX3_MAGIC_LOG @ be16 8 @ replicate 12 0 @ entry_bytes (Balloc 6 1) @ replicate 40 0"

lemma demo_log_block_closed: "closed_block 64 demo_log_block [Balloc 6 1]"
proof -
  have "load16 demo_log_block 0 = TUX3_MAGIC_LOG" "load16 demo_log_block 2 = 8"
    by (simp_all add: demo_log_block_def load16_def load8_def be16_def TUX3_MAGIC_LOG_def)
  then show ?thesis
    by (simp add: closed_block_def open_block_def LOG_HEAD_def) (simp add: demo_log_block_def chunk_def)
qed

theorem replay_applies_log_witness:
  "\<exists>ls'. replay (\<lambda>n. if n = 9 then Inr demo_log_block else Inl EIO) 9 1 demo_log demo_sb
    = Some (Inr (), ls', snd (update_bitmap demo_sb 6 1 True))"
  using replay_applies_log [of "\<lambda>n. if n = 9 then Inr demo_log_block else Inl EIO" demo_log 9 "[[Balloc 6 1]]" demo_sb]
    demo_log_block_closed by (simp add: demo_log_def)

theorem log_bnode_split_overruns_witness:
  "\<exists>ls. log_bnode_split (demo_log\<lparr>logbuf := Some 0, logmap := [0 \<mapsto> replicate 64 0], logpos := 49, logtop := 64\<rparr>) 3 1 4
      = Some ls \<and> log_finish ls = None"
  using log_bnode_split_overruns [of "demo_log\<lparr>logbuf := Some 0, logmap := [0 \<mapsto> replicate 64 0], logpos := 49, logtop := 64\<rparr>" 0
      "replicate 64 0" 3 1 4] by (auto simp: demo_log_def)

end
