(* ===== verification/Tux_Commit.thy ===== *)
theory Tux_Commit
  imports Tux_Stash Tux_Super Tux_Log
begin

text \<open>
  Delta commit, \<open>kernel/commit.c\<close>: the stages of \<open>do_commit\<close> over the volume, the log, the
  stashes of deferred frees and the device, for the default build, where a dirty buffer is not
  forked. The state is \<open>struct sb\<close> as the commit sees it. The locks are left out; \<open>change_end\<close>
  lets another task run where it holds none. Where the bitmap file lies on the volume is a
  parameter. A failed assertion, and a device that never answers, is \<open>None\<close>.
\<close>

section \<open>State\<close>

text \<open>The stashes of the superblock.\<close>

definition DEFREE :: nat where "DEFREE = 0"
definition DEROLLUP :: nat where "DEROLLUP = 1"
definition DECYCLE :: nat where "DECYCLE = 2"
definition NEW_DECYCLE :: nat where "NEW_DECYCLE = 3"

lemmas stash_ids = DEFREE_def DEROLLUP_def DECYCLE_def NEW_DECYCLE_def

text \<open>
  \<open>pinned\<close> and \<open>commits\<close> are lists of dirty volume buffers, block and contents;
  \<open>dirty_bitmaps\<close> are the dirty buffers of the bitmap file with the number of their dirty state.
\<close>

record cstate = stash_mem +
  volume :: volume
  clog :: logstate
  logbase :: nat
  next_logbase :: nat
  logthis :: nat
  rollup :: nat
  delta :: nat
  pinned :: "(nat \<times> bytes) list"
  commits :: "(nat \<times> bytes) list"
  dirty_bitmaps :: "(nat \<times> nat) list"
  device :: disk
  delta_calls :: nat
  rollup_calls :: nat

type_synonym 'a result = "((errno + 'a) \<times> cstate) option"

text \<open>The buffer of the bitmap block of \<open>block\<close> is marked dirty, behind those that are already.\<close>

definition mark_bitmap :: "cstate \<Rightarrow> nat \<Rightarrow> cstate" where
  "mark_bitmap st block =
     (let i = wrap32 (block div mapsize (volume st))
      in if i \<in> fst ` set (dirty_bitmaps st) then st
         else st\<lparr>dirty_bitmaps := dirty_bitmaps st @ [(i, 0)]\<rparr>)"

definition commit_balloc :: "cstate \<Rightarrow> nat \<Rightarrow> nat result" where
  "commit_balloc st blocks = do {
     (r, v) \<leftarrow> balloc (volume st) blocks;
     let st = st\<lparr>volume := v\<rparr>;
     Some (r, case r of Inl _ \<Rightarrow> st | Inr block \<Rightarrow> mark_bitmap st block) }"

definition commit_bfree :: "cstate \<Rightarrow> nat \<Rightarrow> nat \<Rightarrow> unit result" where
  "commit_bfree st block blocks = do {
     (r, v) \<leftarrow> bfree (volume st) block blocks;
     let st = st\<lparr>volume := v\<rparr>;
     Some (r, case r of Inl _ \<Rightarrow> st | Inr _ \<Rightarrow> mark_bitmap st block) }"

section \<open>Rollup\<close>

definition move_deferred :: "cstate \<Rightarrow> nat \<Rightarrow> unit result" where
  "move_deferred st val = stash_value st DEFREE val"

definition defree_logblocks :: "cstate \<Rightarrow> nat \<Rightarrow> unit result" where
  "defree_logblocks st val = do {
     l \<leftarrow> log_bfree (clog st) (val mod 2 ^ 48) (val div 2 ^ 48);
     move_deferred (st\<lparr>clog := l\<rparr>) val }"

definition new_cycle_log :: "cstate \<Rightarrow> unit result" where
  "new_cycle_log st = do {
     c_assert (logbuf (clog st) = None);
     let st = st\<lparr>logbase := next_logbase st\<rparr>;
     let st = st\<lparr>next_logbase := lognext (clog st)\<rparr>;
     (_, st) \<leftarrow> unstash st DECYCLE defree_logblocks;
     let tmp = stashes st DECYCLE;
     let st = set_stash st DECYCLE (stashes st NEW_DECYCLE);
     Some (Inr (), set_stash st NEW_DECYCLE tmp) }"

text \<open>A buffer whose write fails stays dirty, and \<open>evict_buffer\<close> asserts that it is not.\<close>

fun flush_buffer_list :: "dev \<Rightarrow> (nat \<times> bytes) list \<Rightarrow> cstate \<Rightarrow> cstate option" where
  "flush_buffer_list dev [] st = Some st"
| "flush_buffer_list dev ((block, data) # bufs) st = do {
     (r, disk) \<leftarrow> blockio_write dev (blockbits (volume st)) (device st) block data;
     c_assert (r = Inr ());
     flush_buffer_list dev bufs (st\<lparr>device := disk\<rparr>) }"

text \<open>
  \<open>map_region\<close> of the bitmap file, asked for the block of one bitmap buffer: the result, and the
  state that it leaves.
\<close>

type_synonym bitmap_region = "nat \<Rightarrow> cstate \<Rightarrow> nat result"

text \<open>
  The result says whether the buffer was cleaned; the error of the write itself is dropped.
\<close>

definition write_bitmap :: "bitmap_region \<Rightarrow> dev \<Rightarrow> nat \<times> nat \<Rightarrow> cstate \<Rightarrow> bool result" where
  "write_bitmap region dev buf st =
     (case buf of (index, dirty) \<Rightarrow> do {
        (r, st) \<leftarrow> region index st;
        case r of
          Inl err \<Rightarrow> Some (Inl err, st)
        | Inr block \<Rightarrow> do {
            c_assert (dirty = sub32 (rollup st) 1 mod 4);
            (r, disk) \<leftarrow> blockio_write dev (blockbits (volume st)) (device st) block
              (the (bitmap (volume st) index));
            Some (Inr (r = Inr ()), st\<lparr>device := disk\<rparr>) } })"

text \<open>The loop over the spliced list; \<open>left\<close> are the buffers that were not cleaned.\<close>

fun write_bitmaps :: "bitmap_region \<Rightarrow> dev \<Rightarrow> (nat \<times> nat) list \<Rightarrow> bool \<Rightarrow> cstate \<Rightarrow> unit result" where
  "write_bitmaps region dev [] left st = do { c_assert (\<not> left); Some (Inr (), st) }"
| "write_bitmaps region dev (buf # bufs) left st = do {
     (r, st) \<leftarrow> write_bitmap region dev buf st;
     case r of
       Inl err \<Rightarrow> Some (Inl err, st)
     | Inr cleaned \<Rightarrow> write_bitmaps region dev bufs (left \<or> \<not> cleaned) st }"

definition rollup_log :: "bitmap_region \<Rightarrow> dev \<Rightarrow> cstate \<Rightarrow> unit result" where
  "rollup_log region dev st = do {
     let st = st\<lparr>rollup := wrap32 (rollup st + 1)\<rparr>;
     let io_buffers = dirty_bitmaps st;
     let st = st\<lparr>dirty_bitmaps := []\<rparr>;
     (_, st) \<leftarrow> new_cycle_log st;
     (_, st) \<leftarrow> unstash st DEROLLUP move_deferred;
     st \<leftarrow> flush_buffer_list dev (pinned st) st;
     let st = st\<lparr>pinned := []\<rparr>;
     write_bitmaps region dev io_buffers False st }"

section \<open>Delta\<close>

definition stage_delta :: "dev \<Rightarrow> cstate \<Rightarrow> unit result" where
  "stage_delta dev st = do {
     st \<leftarrow> flush_buffer_list dev (commits st) st;
     Some (Inr (), st\<lparr>commits := []\<rparr>) }"

text \<open>One log block, and then the others; \<open>lognext\<close> does not change meanwhile.\<close>

definition write_log_block :: "dev \<Rightarrow> nat \<Rightarrow> cstate \<Rightarrow> unit result" where
  "write_log_block dev index st = do {
     (r, st) \<leftarrow> commit_balloc st 1;
     case r of
       Inl err \<Rightarrow> Some (Inl err, st)
     | Inr block \<Rightarrow> do {
         let b = log_block (clog st) index;
         c_assert (load16 b 0 = TUX3_MAGIC_LOG);
         let b = store64 b 8 (logchain (volume st));
         let st = st\<lparr>clog := put_log (clog st) index b\<rparr>;
         (r, disk) \<leftarrow> blockio_write dev (blockbits (volume st)) (device st) block b;
         let st = st\<lparr>device := disk\<rparr>;
         case r of
           Inl err \<Rightarrow> do {
             (_, st) \<leftarrow> commit_bfree st block 1;
             Some (Inl err, st) }
         | Inr _ \<Rightarrow> do {
             (_, st) \<leftarrow> defer_bfree st NEW_DECYCLE block 1;
             Some (Inr (), st\<lparr>volume := (volume st)\<lparr>logchain := block\<rparr>\<rparr>) } } }"

fun write_log_blocks :: "dev \<Rightarrow> nat \<Rightarrow> nat \<Rightarrow> cstate \<Rightarrow> unit result" where
  "write_log_blocks dev 0 index st = Some (Inr (), st)"
| "write_log_blocks dev (Suc n) index st = do {
     (r, st) \<leftarrow> write_log_block dev index st;
     case r of
       Inl err \<Rightarrow> Some (Inl err, st)
     | Inr _ \<Rightarrow> write_log_blocks dev n (index + 1) st }"

definition write_log :: "dev \<Rightarrow> cstate \<Rightarrow> unit result" where
  "write_log dev st = do {
     l \<leftarrow> log_finish (clog st);
     let st = st\<lparr>clog := l\<rparr>;
     (r, st) \<leftarrow> write_log_blocks dev (lognext (clog st) - logthis st) (logthis st) st;
     Some (r, case r of Inl _ \<Rightarrow> st | Inr _ \<Rightarrow> st\<lparr>logthis := lognext (clog st)\<rparr>) }"

definition retire_bfree :: "cstate \<Rightarrow> nat \<Rightarrow> unit result" where
  "retire_bfree st val = commit_bfree st (val mod 2 ^ 48) (val div 2 ^ 48)"

definition commit_delta :: "dev \<Rightarrow> cstate \<Rightarrow> unit result" where
  "commit_delta dev st = do {
     let b = super (volume st);
     let b = store32 b DS_LOGCOUNT (sub32 (lognext (clog st)) (logbase st));
     let b = store32 b DS_NEXT_LOGCOUNT (sub32 (lognext (clog st)) (next_logbase st));
     (r, v, disk) \<leftarrow> save_sb dev (device st) ((volume st)\<lparr>super := b\<rparr>);
     let st = st\<lparr>volume := v, device := disk\<rparr>;
     case r of
       Inl err \<Rightarrow> Some (Inl err, st)
     | Inr _ \<Rightarrow> unstash st DEFREE retire_bfree }"

definition need_delta :: "cstate \<Rightarrow> bool \<times> cstate" where
  "need_delta st =
     (let n = wrap32 (delta_calls st + 1) in (n mod 10 = 0, st\<lparr>delta_calls := n\<rparr>))"

definition need_rollup :: "cstate \<Rightarrow> bool \<times> cstate" where
  "need_rollup st =
     (let n = wrap32 (rollup_calls st + 1) in (n mod 3 = 0, st\<lparr>rollup_calls := n\<rparr>))"

text \<open>The errors of the three stages of a delta are dropped.\<close>

definition do_commit :: "bitmap_region \<Rightarrow> dev \<Rightarrow> bool \<Rightarrow> cstate \<Rightarrow> unit result" where
  "do_commit region dev can_rollup st = do {
     let st = st\<lparr>delta := wrap32 (delta st + 1)\<rparr>;
     let (due, st) = (if can_rollup then need_rollup st else (False, st));
     (r, st) \<leftarrow> (if due then rollup_log region dev st else Some (Inr (), st));
     case r of
       Inl err \<Rightarrow> Some (Inl err, st)
     | Inr _ \<Rightarrow> do {
         (_, st) \<leftarrow> stage_delta dev st;
         (_, st) \<leftarrow> write_log dev st;
         (_, st) \<leftarrow> commit_delta dev st;
         Some (Inr (), st) } }"

definition force_delta :: "bitmap_region \<Rightarrow> dev \<Rightarrow> cstate \<Rightarrow> unit result" where
  "force_delta region dev st = do_commit region dev False st"

text \<open>\<open>others\<close> is what other tasks do while \<open>change_end\<close> holds no lock.\<close>

definition change_end :: "bitmap_region \<Rightarrow> dev \<Rightarrow> (cstate \<Rightarrow> cstate) \<Rightarrow> cstate \<Rightarrow> unit result" where
  "change_end region dev others st =
     (let (due, st) = need_delta st
      in if \<not> due then Some (Inr (), st)
         else
           let d = delta st; st = others st
           in if delta st = d then do_commit region dev True st else Some (Inr (), st))"

section \<open>The stashes inside the commit state\<close>

lemma mem_rep_cong:
  assumes "link_next m' = link_next m" "page_vec m' = page_vec m" "page_pool m' = page_pool m" "stashes m' = stashes m"
  shows "mem_rep m' P vs = mem_rep m P vs"
  using assms by (simp add: mem_rep_def stash_rep_def)

lemma mem_rep_cstate [simp]:
  "mem_rep (volume_update f st) P vs = mem_rep st P vs" "mem_rep (clog_update g st) P vs = mem_rep st P vs"
  "mem_rep (device_update h st) P vs = mem_rep st P vs" "mem_rep (dirty_bitmaps_update k st) P vs = mem_rep st P vs"
  "mem_rep (logthis_update l st) P vs = mem_rep st P vs" "mem_rep (delta_update n st) P vs = mem_rep st P vs"
  "mem_rep (commits_update c st) P vs = mem_rep st P vs"
  by (simp_all add: mem_rep_def stash_rep_def)

lemma more_fields:
  fixes st st' :: cstate
  assumes "stash_mem.more st = stash_mem.more st'"
  shows "volume st = volume st'" "clog st = clog st'" "device st = device st'" "logbase st = logbase st'"
    "next_logbase st = next_logbase st'" "logthis st = logthis st'" "rollup st = rollup st'" "delta st = delta st'"
    "pinned st = pinned st'" "commits st = commits st'"
  using assms by (cases st; cases st'; simp)+

text \<open>Two stashes change places.\<close>

lemma swap_stashes_rep:
  assumes rep: "mem_rep m P vs" and ij: "i \<noteq> j"
  shows "mem_rep (set_stash (set_stash m i (stashes m j)) j (stashes m i)) (P(i := P j, j := P i)) (vs(i := vs j, j := vs i))"
proof -
  let ?m = "set_stash (set_stash m i (stashes m j)) j (stashes m i)"
  define other where "other a = (if a = i then j else if a = j then i else a)" for a
  have inj: "other a \<noteq> other b" if "a \<noteq> b" for a b using that ij by (auto simp: other_def)
  have sw: "P(i := P j, j := P i) = P \<circ> other" "vs(i := vs j, j := vs i) = vs \<circ> other" "stashes ?m = stashes m \<circ> other"
    by (auto simp: other_def fun_eq_iff set_stash_def)
  have m: "link_next ?m = link_next m" "page_vec ?m = page_vec m" "page_pool ?m = page_pool m"
    by (simp_all add: set_stash_def)
  note r = mem_repD [OF rep]
  have "stash_rep ?m k Q ws = stash_rep m (other k) Q ws" for k Q ws
    using sw(3) m by (simp add: stash_rep_def)
  then show ?thesis unfolding sw(1,2) using r inj m by (intro mem_repI) simp_all
qed

section \<open>Retiring the deferred frees\<close>

definition val_blocks :: "nat \<Rightarrow> nat list" where
  "val_blocks val = [val mod 2 ^ 48..<val mod 2 ^ 48 + val div 2 ^ 48]"

definition stash_blocks :: "nat list \<Rightarrow> nat list" where
  "stash_blocks vals = concat (map val_blocks vals)"

text \<open>Every value is an extent in use, and no block is named twice.\<close>

definition deferred_ok :: "volume \<Rightarrow> nat list \<Rightarrow> bool" where
  "deferred_ok v vals \<longleftrightarrow> (\<forall>val\<in>set vals. extent_ok v (val mod 2 ^ 48) (val div 2 ^ 48))
     \<and> distinct (stash_blocks vals) \<and> (\<forall>b\<in>set (stash_blocks vals). used v b)"

text \<open>Only the bitmap and the free count of the volume may have changed.\<close>

definition same_volume :: "volume \<Rightarrow> volume \<Rightarrow> bool" where
  "same_volume v0 v \<longleftrightarrow> blockbits v = blockbits v0 \<and> volblocks v = volblocks v0 \<and> nextalloc v = nextalloc v0
     \<and> super v = super v0 \<and> logchain v = logchain v0 \<and> iroot v = iroot v0
     \<and> vol_freeatom v = vol_freeatom v0 \<and> vol_atomgen v = vol_atomgen v0 \<and> vol_dictsize v = vol_dictsize v0"

lemma same_volume_refl [simp]: "same_volume v v"
  by (simp add: same_volume_def)

lemma same_volume_trans: "same_volume a b \<Longrightarrow> same_volume b c \<Longrightarrow> same_volume a c"
  by (simp add: same_volume_def)

lemma stash_blocks_simps [simp]:
  "stash_blocks [] = []" "stash_blocks (v # vs) = val_blocks v @ stash_blocks vs"
  "stash_blocks (us @ vs) = stash_blocks us @ stash_blocks vs"
  by (simp_all add: stash_blocks_def)

lemma retire_bfree_ok:
  fixes st :: cstate
  assumes wf: "wf_sb (volume st)" and ok: "extent_ok (volume st) (val mod 2 ^ 48) (val div 2 ^ 48)"
    and used: "\<forall>b\<in>set (val_blocks val). used (volume st) b"
  obtains st' where "retire_bfree st val = Some (Inr (), st')" "wf_sb (volume st')"
    "\<And>b. used (volume st') b \<longleftrightarrow> used (volume st) b \<and> b \<notin> set (val_blocks val)"
    "\<And>w n. extent_ok (volume st') w n = extent_ok (volume st) w n"
    "freeblocks (volume st') = freeblocks (volume st) + int (length (val_blocks val))"
    "same_volume (volume st) (volume st')" "clog st' = clog st" "device st' = device st"
    "link_next st' = link_next st" "page_vec st' = page_vec st" "page_pool st' = page_pool st" "stashes st' = stashes st"
proof -
  let ?w = "val mod 2 ^ 48" and ?n = "val div 2 ^ 48"
  let ?v = "free_extent (volume st) ?w ?n"
  have s: "extent_set (volume st) ?w ?n" using used extent_set_iff(1) [OF ok] by (simp add: val_blocks_def)
  then have b: "bfree (volume st) ?w ?n = Some (Inr (), ?v)" using bfree_extent [OF ok] by simp
  let ?st = "mark_bitmap (st\<lparr>volume := ?v\<rparr>) ?w"
  have m: "volume ?st = ?v" "clog ?st = clog st" "device ?st = device st" "link_next ?st = link_next st"
    "page_vec ?st = page_vec st" "page_pool ?st = page_pool st" "stashes ?st = stashes st"
    by (simp_all add: mark_bitmap_def Let_def)
  have "retire_bfree st val = Some (Inr (), ?st)"
    using b by (simp add: retire_bfree_def commit_bfree_def)
  moreover have "wf_sb ?v" by (rule wf_sb_free [OF wf ok s])
  moreover have "extent_ok ?v w n = extent_ok (volume st) w n" for w n
    using wf_bitmap_extent(2) [OF ok] ok by (simp add: extent_ok_def one_mapblock_def)
  moreover have "used ?v b \<longleftrightarrow> used (volume st) b \<and> b \<notin> set (val_blocks val)" for b
    unfolding used_free_extent [OF ok] val_blocks_def by auto
  moreover have "freeblocks ?v = freeblocks (volume st) + int (length (val_blocks val))" "same_volume (volume st) ?v"
    by (simp_all add: free_extent_def val_blocks_def same_volume_def)
  ultimately show thesis using m that [of ?st] by simp
qed

definition retired :: "cstate \<Rightarrow> (nat \<Rightarrow> nat list) \<Rightarrow> nat list \<Rightarrow> (nat \<Rightarrow> nat list) \<Rightarrow> cstate \<Rightarrow> bool" where
  "retired st0 vs seen us st \<longleftrightarrow> (\<forall>j. j \<noteq> DEFREE \<longrightarrow> us j = vs j) \<and> wf_sb (volume st)
     \<and> (\<forall>b. used (volume st) b \<longleftrightarrow> used (volume st0) b \<and> b \<notin> set (stash_blocks seen))
     \<and> (\<forall>w n. extent_ok (volume st) w n = extent_ok (volume st0) w n)
     \<and> freeblocks (volume st) = freeblocks (volume st0) + int (length (stash_blocks seen))
     \<and> same_volume (volume st0) (volume st) \<and> clog st = clog st0 \<and> device st = device st0"

lemma retired_more:
  assumes "stash_mem.more st = stash_mem.more st'"
  shows "retired st0 vs seen us st = retired st0 vs seen us st'"
  unfolding retired_def more_fields(1-3) [OF assms] by (rule refl)

lemma retire_actor:
  fixes st0 :: cstate
  assumes ok: "deferred_ok (volume st0) vals"
  shows "actor_inv retire_bfree DEFREE (\<lambda>seen us n x. \<forall>st. stash_mem.more st = x \<longrightarrow> retired st0 vs seen us st) vals"
  unfolding actor_inv_def
proof (intro conjI allI impI)
  fix seen v rest us and st :: cstate and P
  assume vals: "vals = seen @ v # rest" and rep: "mem_rep st P us"
    and J: "\<forall>st'. stash_mem.more st' = stash_mem.more st \<longrightarrow> retired st0 vs seen us st'"
  have r: "retired st0 vs seen us st" using J by simp
  have e: "extent_ok (volume st) (v mod 2 ^ 48) (v div 2 ^ 48)"
    using r ok vals by (simp add: retired_def deferred_ok_def)
  have dis: "set (val_blocks v) \<inter> set (stash_blocks seen) = {}" "\<forall>b\<in>set (val_blocks v). used (volume st0) b"
    using ok vals by (auto simp: deferred_ok_def)
  then have u: "\<forall>b\<in>set (val_blocks v). used (volume st) b" using r by (auto simp: retired_def)
  obtain st' where st': "retire_bfree st v = Some (Inr (), st')" "wf_sb (volume st')"
    "\<And>b. used (volume st') b \<longleftrightarrow> used (volume st) b \<and> b \<notin> set (val_blocks v)"
    "\<And>w n. extent_ok (volume st') w n = extent_ok (volume st) w n"
    "freeblocks (volume st') = freeblocks (volume st) + int (length (val_blocks v))"
    "same_volume (volume st) (volume st')" "clog st' = clog st" "device st' = device st"
    "link_next st' = link_next st" "page_vec st' = page_vec st" "page_pool st' = page_pool st" "stashes st' = stashes st"
    using retire_bfree_ok [of st v, OF _ e u] r by (auto simp: retired_def)
  have sv: "same_volume (volume st0) (volume st')"
    using r st'(6) same_volume_trans by (auto simp: retired_def)
  have "retired st0 vs (seen @ [v]) us st'"
    using r st' sv unfolding retired_def by auto
  moreover have "mem_rep st' P us" using rep mem_rep_cong [of st' st] st'(9-12) by metis
  moreover have "\<forall>p\<in>set (P DEFREE). page_vec st' p = page_vec st p" using st'(10) by simp
  moreover have "\<forall>st''. stash_mem.more st'' = stash_mem.more st' \<longrightarrow> retired st0 vs (seen @ [v]) us st''"
    using calculation(1) retired_more [of _ st' st0 vs "seen @ [v]" us] by blast
  ultimately show "\<exists>m' P' vs'. retire_bfree st v = Some (Inr (), m') \<and> mem_rep m' P' vs' \<and> P' DEFREE = P DEFREE
      \<and> vs' DEFREE = us DEFREE \<and> (\<forall>p\<in>set (P DEFREE). page_vec m' p = page_vec st p)
      \<and> (\<forall>st. stash_mem.more st = stash_mem.more m' \<longrightarrow> retired st0 vs (seen @ [v]) vs' st)"
    using st'(1) by blast
qed (auto simp: retired_def)

lemma unstash_defree:
  fixes st :: cstate
  assumes rep: "mem_rep st P vs" and wf: "wf_sb (volume st)" and ok: "deferred_ok (volume st) (vs DEFREE)"
  shows "\<exists>st' P'. unstash st DEFREE retire_bfree = Some (Inr (), st') \<and> mem_rep st' P' (vs(DEFREE := []))
    \<and> retired st vs (vs DEFREE) (vs(DEFREE := [])) st'"
proof -
  have "retired st vs [] vs st" using wf by (simp add: retired_def)
  then have "\<forall>st'. stash_mem.more st' = stash_mem.more st \<longrightarrow> retired st vs [] vs st'"
    using retired_more [of _ st st vs "[]" vs] by blast
  then obtain st' P' vs' where u: "unstash st DEFREE retire_bfree = Some (Inr (), st')" "mem_rep st' P' vs'"
    "vs' DEFREE = []" "retired st vs (vs DEFREE) vs' st'"
    using unstash_rep [OF retire_actor [OF ok, of vs] rep] by auto
  moreover have "vs' = vs(DEFREE := [])" using u(3,4) by (auto simp: retired_def)
  ultimately show ?thesis by blast
qed

section \<open>The superblock of a delta\<close>

definition counted :: "cstate \<Rightarrow> volume" where
  "counted st = (volume st)\<lparr>super := store32 (store32 (super (volume st)) DS_LOGCOUNT (sub32 (lognext (clog st)) (logbase st)))
      DS_NEXT_LOGCOUNT (sub32 (lognext (clog st)) (next_logbase st))\<rparr>"

definition saved :: "cstate \<Rightarrow> cstate" where
  "saved st = st\<lparr>volume := (counted st)\<lparr>super := fill_super (counted st)\<rparr>,
     device := dwrite (device st) SB_LOC (fill_super (counted st))\<rparr>"

lemma volume_super [simp]:
  fixes v :: volume
  shows "used (v\<lparr>super := b\<rparr>) = used v" "wf_sb (v\<lparr>super := b\<rparr>) = wf_sb v"
    "extent_ok (v\<lparr>super := b\<rparr>) w n = extent_ok v w n" "deferred_ok (v\<lparr>super := b\<rparr>) vals = deferred_ok v vals"
  by (auto simp: used_def wf_sb_def wf_bitmap_def free_count_def extent_ok_def one_mapblock_def mapsize_def
      mapshift_def blocksize_def deferred_ok_def fun_eq_iff)

lemma length_counted [simp]: "length (super (volume st)) = SB_LEN \<Longrightarrow> length (super (counted st)) = SB_LEN"
  by (simp add: counted_def mem_simps ds_offsets SB_LEN_def)

lemma counted_fields:
  assumes len: "length (super (volume st)) = SB_LEN"
  shows "load32 (fill_super (counted st)) DS_LOGCOUNT = sub32 (lognext (clog st)) (logbase st)"
    "load32 (fill_super (counted st)) DS_NEXT_LOGCOUNT = sub32 (lognext (clog st)) (next_logbase st)"
    "load64 (fill_super (counted st)) DS_LOGCHAIN = wrap64 (logchain (volume st))"
    "chunk 0 8 (fill_super (counted st)) = chunk 0 8 (super (volume st))"
proof -
  note f = fill_super_fields [OF length_counted [OF len]]
  have s: "sub32 a b mod 2 ^ 32 = sub32 a b" for a b
    by (simp add: sub32_def nat_less_iff)
  show "load32 (fill_super (counted st)) DS_LOGCOUNT = sub32 (lognext (clog st)) (logbase st)"
    "load32 (fill_super (counted st)) DS_NEXT_LOGCOUNT = sub32 (lognext (clog st)) (next_logbase st)"
    unfolding f(11,12) using len s by (simp_all add: counted_def mem_simps ds_offsets SB_LEN_def)
  show "load64 (fill_super (counted st)) DS_LOGCHAIN = wrap64 (logchain (volume st))"
    unfolding f(10) by (simp add: counted_def)
  show "chunk 0 8 (fill_super (counted st)) = chunk 0 8 (super (volume st))"
    unfolding f(1) using len by (simp add: counted_def mem_simps ds_offsets SB_LEN_def)
qed

lemma commit_delta_save:
  assumes "dev_good SB_LEN dev" "length (super (volume st)) = SB_LEN"
  shows "commit_delta dev st = unstash (saved st) DEFREE retire_bfree"
proof -
  have "save_sb dev (device st) (counted st)
      = Some (Inr (), (counted st)\<lparr>super := fill_super (counted st)\<rparr>, dwrite (device st) SB_LOC (fill_super (counted st)))"
    using save_sb_good [OF assms(1)] assms(2) by simp
  then show ?thesis by (simp add: commit_delta_def saved_def flip: counted_def)
qed

lemma commit_delta_ok:
  assumes dev: "dev_good SB_LEN dev" and len: "length (super (volume st)) = SB_LEN"
    and rep: "mem_rep st P vs" and wf: "wf_sb (volume st)" and ok: "deferred_ok (volume st) (vs DEFREE)"
  shows "\<exists>st' P'. commit_delta dev st = Some (Inr (), st') \<and> mem_rep st' P' (vs(DEFREE := []))
    \<and> retired (saved st) vs (vs DEFREE) (vs(DEFREE := [])) st'"
proof -
  have "mem_rep (saved st) P vs" "wf_sb (volume (saved st))" "deferred_ok (volume (saved st)) (vs DEFREE)"
    using rep wf ok by (simp_all add: saved_def counted_def)
  then show ?thesis unfolding commit_delta_save [OF dev len] by (rule unstash_defree)
qed

section \<open>Writing the log\<close>

text \<open>What a working device answers to the read of a block.\<close>

definition read_block :: "nat \<Rightarrow> disk \<Rightarrow> nat \<Rightarrow> errno + bytes" where
  "read_block bits disk b = Inr (dread disk (b * 2 ^ bits) (2 ^ bits))"

fun chain_blocks :: "(nat \<Rightarrow> errno + bytes) \<Rightarrow> nat \<Rightarrow> nat \<Rightarrow> nat list" where
  "chain_blocks rd 0 chain = []"
| "chain_blocks rd (Suc n) chain =
     chain # (case rd chain of Inl _ \<Rightarrow> [] | Inr b \<Rightarrow> chain_blocks rd n (load64 b 8))"

lemma chain_cong:
  "(\<And>c. c \<in> set (chain_blocks rd (length ess) chain) \<Longrightarrow> rd' c = rd c) \<Longrightarrow>
    log_on_disk rd' bs chain ess = log_on_disk rd bs chain ess
    \<and> chain_blocks rd' (length ess) chain = chain_blocks rd (length ess) chain"
  by (induction rd bs chain ess rule: log_on_disk.induct) (auto split: sum.splits)

lemma block_apart: "b \<noteq> c \<Longrightarrow> b * n + n \<le> c * n \<or> c * n + n \<le> (b::nat) * n"
proof -
  assume "b \<noteq> c"
  then have "Suc b \<le> c \<or> Suc c \<le> b" by auto
  then have "Suc b * n \<le> c * n \<or> Suc c * n \<le> b * n" by (metis mult_le_mono1)
  then show ?thesis by (simp add: add.commute)
qed

lemma read_block_other:
  "length data = 2 ^ bits \<Longrightarrow> b \<noteq> c \<Longrightarrow> read_block bits (dwrite disk (b * 2 ^ bits) data) c = read_block bits disk c"
  using block_apart [of b c "2 ^ bits"] by (auto simp: read_block_def intro!: dread_dwrite_other)

lemma read_block_same [simp]:
  "length data = 2 ^ bits \<Longrightarrow> read_block bits (dwrite disk (b * 2 ^ bits) data) b = Inr data"
  by (simp add: read_block_def)

lemma closed_block_chain:
  assumes "closed_block bs b es" "LOG_HEAD \<le> bs"
  shows "closed_block bs (store64 b 8 v) es"
proof -
  have l: "length b = bs" "LOG_HEAD + length (entries_bytes es) \<le> bs"
    using assms(1) by (simp_all add: closed_block_def open_block_def)
  have "load16 (store64 b 8 v) p = load16 b p" if "p + 2 \<le> 8" for p
    unfolding store64_def using that l assms(2) by (intro load16_blit_other) (auto simp: LOG_HEAD_def)
  moreover have "chunk LOG_HEAD (length (entries_bytes es)) (store64 b 8 v) = chunk LOG_HEAD (length (entries_bytes es)) b"
    unfolding store64_def using l by (intro chunk_blit_after) (auto simp: LOG_HEAD_def)
  ultimately show ?thesis
    using assms l by (simp add: closed_block_def open_block_def mem_simps LOG_HEAD_def)
qed

text \<open>The blocks of the volume that hold the superblock.\<close>

definition sb_block :: "nat \<Rightarrow> nat \<Rightarrow> bool" where
  "sb_block bits b \<longleftrightarrow> b * 2 ^ bits < SB_LOC + SB_LEN \<and> SB_LOC < b * 2 ^ bits + 2 ^ bits"

lemma read_block_super:
  "length data = SB_LEN \<Longrightarrow> \<not> sb_block bits b \<Longrightarrow> read_block bits (dwrite disk SB_LOC data) b = read_block bits disk b"
  by (auto simp: read_block_def sb_block_def not_less intro!: dread_dwrite_other)

text \<open>
  The log on the device ends at \<open>logchain\<close> and holds \<open>old\<close>, newest block first; its blocks are in
  use and are not the superblock's.
\<close>

definition chain_ok :: "cstate \<Rightarrow> log_entry list list \<Rightarrow> bool" where
  "chain_ok st old \<longleftrightarrow>
     (let bits = blockbits (volume st); rd = read_block bits (device st)
      in log_on_disk rd (2 ^ bits) (logchain (volume st)) old
       \<and> (\<forall>c\<in>set (chain_blocks rd (length old) (logchain (volume st))). used (volume st) c \<and> \<not> sb_block bits c))"

definition commit_wf :: "cstate \<Rightarrow> bool" where
  "commit_wf st \<longleftrightarrow> wf_sb (volume st) \<and> length (super (volume st)) = SB_LEN
     \<and> log_bsize (clog st) = 2 ^ blockbits (volume st) \<and> 42 \<le> log_bsize (clog st) \<and> logchain (volume st) < 2 ^ 64
     \<and> (\<forall>b < volblocks (volume st). sb_block (blockbits (volume st)) b \<longrightarrow> used (volume st) b)"

text \<open>What the log blocks of a delta leave as it was, and what only grows.\<close>

definition log_written :: "cstate \<Rightarrow> cstate \<Rightarrow> bool" where
  "log_written st st' \<longleftrightarrow> blockbits (volume st') = blockbits (volume st) \<and> super (volume st') = super (volume st)
     \<and> lognext (clog st') = lognext (clog st) \<and> logbase st' = logbase st \<and> logthis st' = logthis st
     \<and> (\<forall>w n. extent_ok (volume st') w n = extent_ok (volume st) w n)
     \<and> (\<forall>b. used (volume st) b \<longrightarrow> used (volume st') b)"

lemma log_written_trans: "log_written a b \<Longrightarrow> log_written b c \<Longrightarrow> log_written a c"
  by (simp add: log_written_def)

lemma log_written_refl [simp]: "log_written st st"
  by (simp add: log_written_def)

lemma volume_logchain [simp]:
  fixes v :: volume
  shows "used (v\<lparr>logchain := c\<rparr>) = used v" "wf_sb (v\<lparr>logchain := c\<rparr>) = wf_sb v"
    "extent_ok (v\<lparr>logchain := c\<rparr>) w n = extent_ok v w n"
  by (auto simp: used_def wf_sb_def wf_bitmap_def free_count_def extent_ok_def one_mapblock_def mapsize_def
      mapshift_def blocksize_def fun_eq_iff)

lemma alloc_extent_fields [simp]:
  fixes v :: volume
  shows "blockbits (alloc_extent v w n) = blockbits v" "super (alloc_extent v w n) = super v"
    "logchain (alloc_extent v w n) = logchain v" "freeblocks (alloc_extent v w n) = freeblocks v - int n"
  by (simp_all add: alloc_extent_def)

lemma defer_bfree_rep:
  assumes "mem_rep m P vs"
  shows "\<exists>r m' P' vs'. defer_bfree m j block n = Some (r, m') \<and> mem_rep m' P' vs' \<and> (\<forall>i. i \<noteq> j \<longrightarrow> vs' i = vs i)
    \<and> stash_mem.more m' = stash_mem.more m"
  using stash_value_rep [OF assms, of j "wrap64 (wrap64 (n * 2 ^ 48) + block)"]
proof (elim disjE exE conjE)
  fix m' P'
  assume "stash_value m j (wrap64 (wrap64 (n * 2 ^ 48) + block)) = Some (Inr (), m')"
    "mem_rep m' P' (vs(j := vs j @ [wrap64 (wrap64 (n * 2 ^ 48) + block)]))" "stash_mem.more m' = stash_mem.more m"
  then show ?thesis unfolding defer_bfree_def
    by (intro exI [of _ "Inr ()"] exI [of _ m'] exI [of _ P']
        exI [of _ "vs(j := vs j @ [wrap64 (wrap64 (n * 2 ^ 48) + block)])"]) simp
next
  assume "stash_value m j (wrap64 (wrap64 (n * 2 ^ 48) + block)) = Some (Inl ENOMEM, m)"
  then show ?thesis using assms unfolding defer_bfree_def
    by (intro exI [of _ "Inl ENOMEM"] exI [of _ m] exI [of _ P] exI [of _ vs]) simp
qed

lemma write_log_block_ok:
  fixes st :: cstate
  assumes wf: "commit_wf st" and free: "0 < freeblocks (volume st)" and dev: "dev_good (2 ^ blockbits (volume st)) dev"
    and blk: "logmap (clog st) index = Some b" "closed_block (log_bsize (clog st)) b es"
    and chain: "chain_ok st old" and rep: "mem_rep st P vs"
  obtains st' P' vs' b' where "write_log_block dev index st = Some (Inr (), st')" "commit_wf st'" "chain_ok st' (es # old)"
    "log_written st st'" "freeblocks (volume st') = freeblocks (volume st) - 1"
    "mem_rep st' P' vs'" "\<forall>j. j \<noteq> NEW_DECYCLE \<longrightarrow> vs' j = vs j" "clog st' = put_log (clog st) index b'"
proof -
  let ?v = "volume st" and ?bits = "blockbits (volume st)"
  have w: "wf_sb ?v" "length (super ?v) = SB_LEN" "log_bsize (clog st) = 2 ^ ?bits" "42 \<le> log_bsize (clog st)"
    "logchain ?v < 2 ^ 64" "\<And>b. b < volblocks ?v \<Longrightarrow> sb_block ?bits b \<Longrightarrow> used ?v b"
    using wf by (auto simp: commit_wf_def)
  have "balloc ?v 1 \<noteq> Some (Inl ENOSPC, ?v)" using balloc_one_full [OF w(1)] free by simp
  then obtain k where k: "balloc ?v 1 = Some (Inr k, alloc_extent ?v k 1)" "extent_ok ?v k 1" "free_window (used ?v) k 1"
    using balloc_cases [OF w(1), of 1] by (metis zero_less_one)
  have kf: "\<not> used ?v k" "k < volblocks ?v" using k(2,3) by (auto simp: free_window_def extent_ok_def)
  have k64: "k < 2 ^ 64" using k(2) kf(2) by (auto simp: extent_ok_def wf_bitmap_def)
  let ?v1 = "alloc_extent ?v k 1"
  define b' where "b' = store64 b 8 (logchain ?v)"
  let ?disk = "dwrite (device st) (k * 2 ^ ?bits) b'"
  have cb: "closed_block (log_bsize (clog st)) b' es" "length b' = 2 ^ ?bits" "load16 b 0 = TUX3_MAGIC_LOG"
    using closed_block_chain [OF blk(2), of "logchain ?v"] blk(2) w(3,4)
    by (auto simp: b'_def closed_block_def open_block_def LOG_HEAD_def)
  have b8: "load64 b' 8 = logchain ?v"
    using blk(2) w(3,4,5) unfolding b'_def by (subst load64_store64) (auto simp: closed_block_def open_block_def)
  define st1 where "st1 = (mark_bitmap (st\<lparr>volume := ?v1\<rparr>) k)\<lparr>clog := put_log (clog st) index b', device := ?disk\<rparr>"
  have f1: "volume st1 = ?v1" "clog st1 = put_log (clog st) index b'" "device st1 = ?disk"
    "logbase st1 = logbase st" "logthis st1 = logthis st" "pinned st1 = pinned st"
    by (simp_all add: st1_def mark_bitmap_def Let_def)
  have rep1: "mem_rep st1 P vs"
    using rep by (simp add: st1_def mark_bitmap_def Let_def)
  obtain r st2 P2 vs2 where s2: "defer_bfree st1 NEW_DECYCLE k 1 = Some (r, st2)" "mem_rep st2 P2 vs2"
    "\<forall>j. j \<noteq> NEW_DECYCLE \<longrightarrow> vs2 j = vs j" "stash_mem.more st2 = stash_mem.more st1"
    using defer_bfree_rep [OF rep1] by blast
  note m = more_fields [OF s2(4)]
  let ?st = "st2\<lparr>volume := ?v1\<lparr>logchain := k\<rparr>\<rparr>"
  have dw: "blockio_write dev ?bits (device st) k b' = Some (Inr (), ?disk)"
    using dev cb(2) by (simp add: blockio_write_def devio_good)
  have "write_log_block dev index st = Some (Inr (), ?st)"
  proof -
    have "commit_balloc st 1 = Some (Inr k, mark_bitmap (st\<lparr>volume := ?v1\<rparr>) k)"
      using k(1) by (simp add: commit_balloc_def)
    moreover have "clog (mark_bitmap (st\<lparr>volume := ?v1\<rparr>) k) = clog st" "volume (mark_bitmap (st\<lparr>volume := ?v1\<rparr>) k) = ?v1"
      "device (mark_bitmap (st\<lparr>volume := ?v1\<rparr>) k) = device st"
      by (simp_all add: mark_bitmap_def Let_def)
    moreover have "log_block (clog st) index = b" using blk(1) by (simp add: log_block_def)
    moreover have "mark_bitmap (st\<lparr>volume := ?v1\<rparr>) k\<lparr>clog := put_log (clog st) index b', device := ?disk\<rparr> = st1"
      by (simp add: st1_def)
    ultimately show ?thesis
      using cb(3) dw s2(1) m(1) f1(1) unfolding write_log_block_def by (simp flip: b'_def)
  qed
  moreover have "commit_wf ?st"
    using wf_sb_alloc [OF w(1) k(2,3)] w m f1 k64 used_alloc_extent [OF k(2)] by (auto simp: commit_wf_def put_log_def)
  moreover have "chain_ok ?st (es # old)"
  proof -
    let ?rd = "read_block ?bits (device st)" and ?rd' = "read_block ?bits ?disk"
    have o: "log_on_disk ?rd (2 ^ ?bits) (logchain ?v) old"
      "\<And>c. c \<in> set (chain_blocks ?rd (length old) (logchain ?v)) \<Longrightarrow> used ?v c \<and> \<not> sb_block ?bits c"
      using chain by (auto simp: chain_ok_def Let_def)
    have "?rd' c = ?rd c" if "c \<in> set (chain_blocks ?rd (length old) (logchain ?v))" for c
      using o(2) [OF that] kf(1) cb(2) by (intro read_block_other) auto
    then have "log_on_disk ?rd' (2 ^ ?bits) (logchain ?v) old"
      "chain_blocks ?rd' (length old) (logchain ?v) = chain_blocks ?rd (length old) (logchain ?v)"
      using chain_cong [of ?rd old "logchain ?v" ?rd' "2 ^ ?bits"] o(1) by blast+
    moreover have "\<not> sb_block ?bits k" using w(6) [OF kf(2)] kf(1) by blast
    ultimately show ?thesis
      using m f1 cb b8 w(3) o(2) used_alloc_extent [OF k(2)] by (auto simp: chain_ok_def Let_def)
  qed
  moreover have ext: "extent_ok ?v1 a n = extent_ok ?v a n" for a n
    using wf_bitmap_extent(1) [OF k(2)] k(2) by (simp add: extent_ok_def one_mapblock_def)
  moreover have "log_written st ?st"
    using m f1 ext used_alloc_extent [OF k(2)] by (simp add: log_written_def put_log_def)
  moreover have "freeblocks (volume ?st) = freeblocks ?v - 1" "mem_rep ?st P2 vs2" "clog ?st = put_log (clog st) index b'"
    using s2(2) m f1 by simp_all
  ultimately show thesis using that s2(3) by blast
qed

text \<open>The log blocks from \<open>index\<close> on hold \<open>ess\<close>.\<close>

definition log_holds :: "logstate \<Rightarrow> nat \<Rightarrow> log_entry list list \<Rightarrow> bool" where
  "log_holds ls index ess \<longleftrightarrow>
     (\<forall>i < length ess. \<exists>b. logmap ls (index + i) = Some b \<and> closed_block (log_bsize ls) b (ess ! i))"

lemma log_holds_Cons:
  assumes "log_holds ls index (es # ess)"
  obtains b where "logmap ls index = Some b" "closed_block (log_bsize ls) b es"
    "\<And>c. log_holds (put_log ls index c) (index + 1) ess"
proof -
  obtain b where "logmap ls index = Some b" "closed_block (log_bsize ls) b es"
    using assms unfolding log_holds_def by (metis add_0_right length_greater_0_conv list.discI nth_Cons_0)
  moreover have "log_holds (put_log ls index c) (index + 1) ess" for c
    using assms by (force simp: log_holds_def put_log_def)
  ultimately show thesis using that by blast
qed

lemma write_log_blocks_ok:
  fixes st :: cstate
  assumes "commit_wf st" and "int (length ess) \<le> freeblocks (volume st)" and "dev_good (2 ^ blockbits (volume st)) dev"
    and "log_holds (clog st) index ess" and "chain_ok st old" and "mem_rep st P vs"
  shows "\<exists>st' P' vs'. write_log_blocks dev (length ess) index st = Some (Inr (), st') \<and> commit_wf st'
    \<and> chain_ok st' (rev ess @ old) \<and> log_written st st' \<and> mem_rep st' P' vs' \<and> (\<forall>j. j \<noteq> NEW_DECYCLE \<longrightarrow> vs' j = vs j)"
  using assms
proof (induction ess arbitrary: st index old P vs)
  case Nil
  then have "write_log_blocks dev (length []) index st = Some (Inr (), st)" "chain_ok st (rev [] @ old)" by simp_all
  then show ?case using Nil(1,6) log_written_refl by blast
next
  case (Cons es ess)
  obtain b where b: "logmap (clog st) index = Some b" "closed_block (log_bsize (clog st)) b es"
    "\<And>c. log_holds (put_log (clog st) index c) (index + 1) ess"
    using log_holds_Cons [OF Cons.prems(4)] by blast
  have pos: "0 < freeblocks (volume st)" using Cons.prems(2) by simp
  obtain st1 P1 vs1 b' where 1: "write_log_block dev index st = Some (Inr (), st1)" "commit_wf st1" "chain_ok st1 (es # old)"
    "log_written st st1" "freeblocks (volume st1) = freeblocks (volume st) - 1"
    "mem_rep st1 P1 vs1" "\<forall>j. j \<noteq> NEW_DECYCLE \<longrightarrow> vs1 j = vs j" "clog st1 = put_log (clog st) index b'"
    by (rule write_log_block_ok [OF Cons.prems(1) pos Cons.prems(3) b(1,2) Cons.prems(5,6)])
  have bits: "blockbits (volume st1) = blockbits (volume st)" using 1(4) by (simp add: log_written_def)
  have "int (length ess) \<le> freeblocks (volume st1)" using 1(5) Cons.prems(2) by simp
  moreover have "dev_good (2 ^ blockbits (volume st1)) dev" using Cons.prems(3) bits by simp
  moreover have "log_holds (clog st1) (index + 1) ess" using b(3) 1(8) by simp
  ultimately obtain st' P' vs' where 2: "write_log_blocks dev (length ess) (index + 1) st1 = Some (Inr (), st')" "commit_wf st'"
    "chain_ok st' (rev ess @ es # old)" "log_written st1 st'" "mem_rep st' P' vs'" "\<forall>j. j \<noteq> NEW_DECYCLE \<longrightarrow> vs' j = vs1 j"
    using Cons.IH [OF 1(2) _ _ _ 1(3,6)] by blast
  have "write_log_blocks dev (length (es # ess)) index st = Some (Inr (), st')" using 1(1) 2(1) by simp
  moreover have "chain_ok st' (rev (es # ess) @ old)" using 2(3) by simp
  moreover have "\<forall>j. j \<noteq> NEW_DECYCLE \<longrightarrow> vs' j = vs j" using 1(7) 2(6) by simp
  ultimately show ?case using log_written_trans [OF 1(4) 2(4)] 2(2,5) by blast
qed

lemma write_log_ok:
  fixes st :: cstate
  assumes wf: "commit_wf st" and free: "int (length ess + 1) \<le> freeblocks (volume st)"
    and dev: "dev_good (2 ^ blockbits (volume st)) dev" and log: "log_inv (logthis st) ess cur (clog st)"
    and chain: "chain_ok st old" and rep: "mem_rep st P vs"
  shows "\<exists>st' ess' P' vs'. write_log dev st = Some (Inr (), st') \<and> concat ess' = concat ess @ cur \<and> commit_wf st'
    \<and> chain_ok st' (rev ess' @ old) \<and> lognext (clog st') = logthis st + length ess' \<and> logbase st' = logbase st
    \<and> (\<forall>w n. extent_ok (volume st') w n = extent_ok (volume st) w n) \<and> (\<forall>b. used (volume st) b \<longrightarrow> used (volume st') b)
    \<and> blockbits (volume st') = blockbits (volume st) \<and> super (volume st') = super (volume st)
    \<and> mem_rep st' P' vs' \<and> (\<forall>j. j \<noteq> NEW_DECYCLE \<longrightarrow> vs' j = vs j) \<and> length ess' \<le> length ess + 1"
proof -
  define ess' where "ess' = (if logbuf (clog st) = None then ess else ess @ [cur])"
  obtain l where l: "log_finish (clog st) = Some l" "log_bsize l = log_bsize (clog st)" "logbuf l = None"
    "log_inv (logthis st) ess' [] l"
    using log_finish_inv [OF log] by (auto simp: ess'_def)
  let ?st = "st\<lparr>clog := l\<rparr>"
  have e: "concat ess' = concat ess @ cur" "length ess' \<le> length ess + 1" using log by (auto simp: ess'_def log_inv_def)
  have n: "lognext l = logthis st + length ess'" using l(3,4) by (simp add: log_inv_def)
  have "log_holds l (logthis st) ess'" using l(4) by (simp add: log_inv_def log_holds_def)
  moreover have "commit_wf ?st" "chain_ok ?st old" "mem_rep ?st P vs"
    using wf chain rep l(2) by (simp_all add: commit_wf_def chain_ok_def)
  ultimately obtain st' P' vs' where w: "write_log_blocks dev (length ess') (logthis st) ?st = Some (Inr (), st')" "commit_wf st'"
    "chain_ok st' (rev ess' @ old)" "log_written ?st st'" "mem_rep st' P' vs'" "\<forall>j. j \<noteq> NEW_DECYCLE \<longrightarrow> vs' j = vs j"
    using write_log_blocks_ok [of ?st ess' dev "logthis st" old P vs] free dev e(2) by auto
  let ?st' = "st'\<lparr>logthis := lognext (clog st')\<rparr>"
  have "write_log dev st = Some (Inr (), ?st')" using l(1) n w(1) by (simp add: write_log_def)
  moreover have "commit_wf ?st'" "chain_ok ?st' (rev ess' @ old)" "mem_rep ?st' P' vs'"
    using w by (simp_all add: commit_wf_def chain_ok_def)
  moreover have "lognext (clog ?st') = logthis st + length ess'" "logbase ?st' = logbase st"
    "\<forall>w n. extent_ok (volume ?st') w n = extent_ok (volume st) w n" "\<forall>b. used (volume st) b \<longrightarrow> used (volume ?st') b"
    "blockbits (volume ?st') = blockbits (volume st)" "super (volume ?st') = super (volume st)"
    using w(4) n by (simp_all add: log_written_def)
  ultimately show ?thesis using e w(6) by blast
qed

section \<open>A whole delta\<close>

text \<open>The buffers that the delta writes are whole blocks, and none of them is part of the log.\<close>

definition buffers_ok :: "cstate \<Rightarrow> log_entry list list \<Rightarrow> bool" where
  "buffers_ok st old \<longleftrightarrow> (\<forall>(b, data)\<in>set (commits st). length data = 2 ^ blockbits (volume st)
     \<and> b \<notin> set (chain_blocks (read_block (blockbits (volume st)) (device st)) (length old) (logchain (volume st))))"

lemma flush_buffer_list_ok:
  fixes st :: cstate
  assumes "dev_good (2 ^ blockbits (volume st)) dev" and "chain_ok st old"
    and "\<forall>(b, data)\<in>set bufs. length data = 2 ^ blockbits (volume st)
     \<and> b \<notin> set (chain_blocks (read_block (blockbits (volume st)) (device st)) (length old) (logchain (volume st)))"
  shows "\<exists>disk. flush_buffer_list dev bufs st = Some (st\<lparr>device := disk\<rparr>) \<and> chain_ok (st\<lparr>device := disk\<rparr>) old"
  using assms
proof (induction bufs arbitrary: st)
  case Nil
  have "st\<lparr>device := device st\<rparr> = st" by simp
  then have "flush_buffer_list dev [] st = Some (st\<lparr>device := device st\<rparr>)" "chain_ok (st\<lparr>device := device st\<rparr>) old"
    using Nil(2) by simp_all
  then show ?case by blast
next
  case (Cons buf bufs)
  obtain b data where buf: "buf = (b, data)" by fastforce
  let ?bits = "blockbits (volume st)" and ?disk = "dwrite (device st) (b * 2 ^ blockbits (volume st)) data"
  let ?rd = "read_block ?bits (device st)" and ?c = "logchain (volume st)"
  let ?st = "st\<lparr>device := ?disk\<rparr>"
  have d: "length data = 2 ^ ?bits" "b \<notin> set (chain_blocks ?rd (length old) ?c)" using Cons.prems(3) buf by auto
  have "read_block ?bits ?disk c = ?rd c" if "c \<in> set (chain_blocks ?rd (length old) ?c)" for c
    using d that by (intro read_block_other) auto
  then have cong: "log_on_disk (read_block ?bits ?disk) (2 ^ ?bits) ?c old = log_on_disk ?rd (2 ^ ?bits) ?c old"
    "chain_blocks (read_block ?bits ?disk) (length old) ?c = chain_blocks ?rd (length old) ?c"
    using chain_cong [of ?rd old ?c "read_block ?bits ?disk" "2 ^ ?bits"] by blast+
  have "chain_ok ?st old" using Cons.prems(2) cong by (simp add: chain_ok_def Let_def)
  moreover have "\<forall>(b, data)\<in>set bufs. length data = 2 ^ blockbits (volume ?st)
     \<and> b \<notin> set (chain_blocks (read_block (blockbits (volume ?st)) (device ?st)) (length old) (logchain (volume ?st)))"
    using Cons.prems(3) cong(2) by simp
  ultimately obtain disk where "flush_buffer_list dev bufs ?st = Some (?st\<lparr>device := disk\<rparr>)" "chain_ok (?st\<lparr>device := disk\<rparr>) old"
    using Cons.IH [of ?st] Cons.prems(1) by auto
  moreover have "blockio_write dev ?bits (device st) b data = Some (Inr (), ?disk)"
    using Cons.prems(1) d(1) by (simp add: blockio_write_def devio_good)
  ultimately show ?case using buf by (intro exI [of _ disk]) simp
qed

lemma deferred_ok_mono:
  assumes "deferred_ok v vals" "\<forall>w n. extent_ok v' w n = extent_ok v w n" "\<forall>b. used v b \<longrightarrow> used v' b"
  shows "deferred_ok v' vals"
  using assms by (auto simp: deferred_ok_def)

lemma chain_ok_saved:
  assumes "chain_ok st old" "length (super (volume st)) = SB_LEN"
  shows "log_on_disk (read_block (blockbits (volume st)) (device (saved st))) (2 ^ blockbits (volume st)) (logchain (volume st)) old"
proof -
  let ?bits = "blockbits (volume st)" and ?c = "logchain (volume st)"
  let ?rd = "read_block ?bits (device st)" and ?rd' = "read_block ?bits (device (saved st))"
  have "?rd' c = ?rd c" if "c \<in> set (chain_blocks ?rd (length old) ?c)" for c
    using that assms read_block_super [of "fill_super (counted st)" ?bits c] by (simp add: chain_ok_def saved_def Let_def)
  then show ?thesis using assms(1) chain_cong [of ?rd old ?c ?rd' "2 ^ ?bits"] by (auto simp: chain_ok_def Let_def)
qed

text \<open>What a commit starts from: the entries \<open>concat (rev old)\<close> on the device, and then those of
  this delta in memory.\<close>

definition delta_ready :: "dev \<Rightarrow> cstate \<Rightarrow> log_entry list list \<Rightarrow> log_entry list list \<Rightarrow> log_entry list
    \<Rightarrow> (nat \<Rightarrow> nat list) \<Rightarrow> (nat \<Rightarrow> nat list) \<Rightarrow> bool" where
  "delta_ready dev st old ess cur P vs \<longleftrightarrow> commit_wf st \<and> dev_good SB_LEN dev \<and> dev_good (2 ^ blockbits (volume st)) dev
     \<and> chain_ok st old \<and> buffers_ok st old \<and> logthis st = logbase st + length old
     \<and> log_inv (logthis st) ess cur (clog st) \<and> logthis st + length ess + 1 < 2 ^ 32
     \<and> mem_rep st P vs \<and> deferred_ok (volume st) (vs DEFREE)"

lemma force_delta_ok:
  fixes st :: cstate
  assumes ready: "delta_ready dev st old ess cur P vs" and free: "int (length ess + 1) \<le> freeblocks (volume st)"
  shows "\<exists>st' ess'. force_delta region dev st = Some (Inr (), st') \<and> concat ess' = concat ess @ cur
    \<and> log_on_disk (read_block (blockbits (volume st)) (device st')) (2 ^ blockbits (volume st))
        (load64 (dread (device st') SB_LOC SB_LEN) DS_LOGCHAIN) (rev ess' @ old)
    \<and> load32 (dread (device st') SB_LOC SB_LEN) DS_LOGCOUNT = length old + length ess' \<and> length ess' \<le> length ess + 1"
proof -
  let ?bits = "blockbits (volume st)" and ?st1 = "st\<lparr>delta := wrap32 (delta st + 1)\<rparr>"
  note r = ready [unfolded delta_ready_def]
  obtain disk where fl: "flush_buffer_list dev (commits st) ?st1 = Some (?st1\<lparr>device := disk\<rparr>)" "chain_ok (?st1\<lparr>device := disk\<rparr>) old"
    using flush_buffer_list_ok [of ?st1 dev old "commits st"] r by (auto simp: chain_ok_def buffers_ok_def)
  let ?st2 = "?st1\<lparr>device := disk, commits := []\<rparr>"
  have "stage_delta dev ?st1 = Some (Inr (), ?st2)" using fl(1) by (simp add: stage_delta_def)
  moreover have "commit_wf ?st2" "chain_ok ?st2 old" "mem_rep ?st2 P vs"
    using r fl(2) by (simp_all add: commit_wf_def chain_ok_def)
  then obtain st3 ess' P3 vs3 where w: "write_log dev ?st2 = Some (Inr (), st3)" "concat ess' = concat ess @ cur" "commit_wf st3"
    "chain_ok st3 (rev ess' @ old)" "lognext (clog st3) = logthis st + length ess'" "logbase st3 = logbase st"
    "\<forall>w n. extent_ok (volume st3) w n = extent_ok (volume st) w n" "\<forall>b. used (volume st) b \<longrightarrow> used (volume st3) b"
    "blockbits (volume st3) = ?bits" "mem_rep st3 P3 vs3" "\<forall>j. j \<noteq> NEW_DECYCLE \<longrightarrow> vs3 j = vs j"
    "length ess' \<le> length ess + 1"
    using write_log_ok [of ?st2 ess dev cur old P vs] r free by auto
  have wf3: "wf_sb (volume st3)" "length (super (volume st3)) = SB_LEN" "logchain (volume st3) < 2 ^ 64"
    using w(3) by (simp_all add: commit_wf_def)
  have "vs3 DEFREE = vs DEFREE" using w(11) by (simp add: stash_ids)
  then have "deferred_ok (volume st3) (vs3 DEFREE)"
    using deferred_ok_mono [OF _ w(7,8)] r by simp
  then obtain st4 P4 where c: "commit_delta dev st3 = Some (Inr (), st4)"
    "retired (saved st3) vs3 (vs3 DEFREE) (vs3(DEFREE := [])) st4"
    using commit_delta_ok [OF _ wf3(2) w(10) wf3(1)] r by blast
  have dv: "device st4 = device (saved st3)" using c(2) by (simp add: retired_def)
  have sbl: "dread (device st4) SB_LOC SB_LEN = fill_super (counted st3)"
    unfolding dv using wf3(2) by (simp add: saved_def)
  have f: "load32 (fill_super (counted st3)) DS_LOGCOUNT = sub32 (lognext (clog st3)) (logbase st3)"
    "load64 (fill_super (counted st3)) DS_LOGCHAIN = logchain (volume st3)"
    using counted_fields(1,3) [OF wf3(2)] wf3(3) by (simp_all add: wrap_simps)
  have "sub32 (lognext (clog st3)) (logbase st3) = length old + length ess'"
    using w(5,6,12) r by (simp add: sub32_id)
  moreover have "log_on_disk (read_block ?bits (device st4)) (2 ^ ?bits) (logchain (volume st3)) (rev ess' @ old)"
    unfolding dv using chain_ok_saved [OF w(4) wf3(2)] w(9) by simp
  moreover have "force_delta region dev st = Some (Inr (), st4)"
    using calculation(1) fl(1) w(1) c(1) by (simp add: force_delta_def do_commit_def stage_delta_def)
  ultimately show ?thesis using w(2,12) sbl f by (intro exI [of _ st4] exI [of _ ess']) simp
qed

text \<open>On a full volume no log block is written, and the superblock counts them all the same.\<close>

lemma full_delta_ok:
  fixes st :: cstate
  assumes ready: "delta_ready dev st old ess cur P vs" and full: "freeblocks (volume st) = 0"
    and some: "logbuf (clog st) \<noteq> None"
  shows "\<exists>st'. force_delta region dev st = Some (Inr (), st')
    \<and> load64 (dread (device st') SB_LOC SB_LEN) DS_LOGCHAIN = logchain (volume st)
    \<and> load32 (dread (device st') SB_LOC SB_LEN) DS_LOGCOUNT = length old + length ess + 1"
proof -
  let ?st1 = "st\<lparr>delta := wrap32 (delta st + 1)\<rparr>"
  note r = ready [unfolded delta_ready_def]
  obtain disk where fl: "flush_buffer_list dev (commits st) ?st1 = Some (?st1\<lparr>device := disk\<rparr>)"
    using flush_buffer_list_ok [of ?st1 dev old "commits st"] r by (auto simp: chain_ok_def buffers_ok_def)
  obtain l where l: "log_finish (clog st) = Some l" "logbuf l = None" "log_inv (logthis st) (ess @ [cur]) [] l"
    using log_finish_inv [of "logthis st" ess cur "clog st"] r some by auto
  let ?st3 = "?st1\<lparr>device := disk, commits := [], clog := l\<rparr>"
  have n: "lognext l = logthis st + length ess + 1" using l(2,3) by (simp add: log_inv_def)
  have wf: "wf_sb (volume st)" "length (super (volume st)) = SB_LEN" "logchain (volume st) < 2 ^ 64"
    using r by (simp_all add: commit_wf_def)
  have "balloc (volume st) 1 = Some (Inl ENOSPC, volume st)" using balloc_one_full [OF wf(1)] full by simp
  then have "write_log_block dev (logthis st) ?st3 = Some (Inl ENOSPC, ?st3)"
    by (simp add: write_log_block_def commit_balloc_def)
  then have "write_log dev (?st1\<lparr>device := disk, commits := []\<rparr>) = Some (Inl ENOSPC, ?st3)"
    using l(1) n by (simp add: write_log_def)
  moreover obtain st4 P4 where c: "commit_delta dev ?st3 = Some (Inr (), st4)"
    "retired (saved ?st3) vs (vs DEFREE) (vs(DEFREE := [])) st4"
    using commit_delta_ok [of dev ?st3 P vs] r wf by auto
  ultimately have "force_delta region dev st = Some (Inr (), st4)"
    using fl by (simp add: force_delta_def do_commit_def stage_delta_def)
  moreover have "dread (device st4) SB_LOC SB_LEN = fill_super (counted ?st3)"
    using c(2) wf(2) by (simp add: retired_def saved_def)
  moreover have "load32 (fill_super (counted ?st3)) DS_LOGCOUNT = length old + length ess + 1"
    using counted_fields(1) [of ?st3] wf(2) n r by (simp add: sub32_id)
  moreover have "load64 (fill_super (counted ?st3)) DS_LOGCHAIN = logchain (volume st)"
    using counted_fields(3) [of ?st3] wf by (simp add: wrap_simps)
  ultimately show ?thesis by simp
qed

section \<open>Moving the deferred frees on\<close>

text \<open>Moving one value to \<open>defree\<close>, with a page to spare.\<close>

lemma move_deferred_ok:
  fixes st :: cstate
  assumes "mem_rep st P us" "page_pool st \<noteq> []" "i \<noteq> DEFREE"
  shows "\<exists>st' P'. move_deferred st v = Some (Inr (), st') \<and> mem_rep st' P' (us(DEFREE := us DEFREE @ [v])) \<and> P' i = P i
    \<and> (\<forall>p\<in>set (P i). page_vec st' p = page_vec st p) \<and> stash_mem.more st' = stash_mem.more st
    \<and> length (page_pool st) \<le> length (page_pool st') + 1"
  using stash_value_rep [OF assms(1), of DEFREE v]
proof (elim disjE exE conjE)
  fix m' P'
  assume "stash_value st DEFREE v = Some (Inr (), m')" "mem_rep m' P' (us(DEFREE := us DEFREE @ [v]))"
    "\<forall>j. j \<noteq> DEFREE \<longrightarrow> P' j = P j \<and> (\<forall>p\<in>set (P j). page_vec m' p = page_vec st p)"
    "stash_mem.more m' = stash_mem.more st" "length (page_pool st) \<le> length (page_pool m') + 1"
  then show ?thesis using assms(3) unfolding move_deferred_def
    by (intro exI [of _ m'] exI [of _ P']) simp
qed (use assms(2) in simp)

text \<open>The run through stash \<open>i\<close> with enough pages: \<open>seen\<close> is behind the queue of \<open>defree\<close>.\<close>

definition moving :: "(nat \<Rightarrow> nat list) \<Rightarrow> nat \<Rightarrow> nat list \<Rightarrow> nat list \<Rightarrow> (nat \<Rightarrow> nat list) \<Rightarrow> nat \<Rightarrow> bool" where
  "moving vs i ws seen us n \<longleftrightarrow> us DEFREE = vs DEFREE @ seen \<and> (\<forall>j. j \<noteq> i \<longrightarrow> j \<noteq> DEFREE \<longrightarrow> us j = vs j)
     \<and> length ws \<le> n + length seen"

lemma move_actor:
  assumes i: "i \<noteq> DEFREE"
  shows "actor_inv move_deferred i (\<lambda>seen us n x. moving vs i ws seen us n \<and> x = x0) ws"
  unfolding actor_inv_def
proof (intro conjI allI impI)
  fix seen v rest us and st :: cstate and P
  assume ws: "ws = seen @ v # rest" and rep: "mem_rep st P us"
    and J: "moving vs i ws seen us (length (page_pool st)) \<and> stash_mem.more st = x0"
  have "page_pool st \<noteq> []" using J ws by (auto simp: moving_def)
  then obtain st' P' where m: "move_deferred st v = Some (Inr (), st')" "mem_rep st' P' (us(DEFREE := us DEFREE @ [v]))"
    "P' i = P i" "\<forall>p\<in>set (P i). page_vec st' p = page_vec st p" "stash_mem.more st' = stash_mem.more st"
    "length (page_pool st) \<le> length (page_pool st') + 1"
    using move_deferred_ok [OF rep _ i] by blast
  have "moving vs i ws (seen @ [v]) (us(DEFREE := us DEFREE @ [v])) (length (page_pool st'))"
    using J m(6) by (auto simp: moving_def)
  then show "\<exists>m' P' vs'. move_deferred st v = Some (Inr (), m') \<and> mem_rep m' P' vs' \<and> P' i = P i \<and> vs' i = us i
      \<and> (\<forall>p\<in>set (P i). page_vec m' p = page_vec st p)
      \<and> moving vs i ws (seen @ [v]) vs' (length (page_pool m')) \<and> stash_mem.more m' = x0"
    using m i J by (intro exI [of _ st'] exI [of _ P'] exI [of _ "us(DEFREE := us DEFREE @ [v])"]) simp
qed (use i in \<open>auto simp: moving_def\<close>)

text \<open>The entry that a value of \<open>decycle\<close> makes in the log.\<close>

definition val_entry :: "nat \<Rightarrow> log_entry" where
  "val_entry v = Bfree (v mod 2 ^ 48) (v div 2 ^ 48)"

definition logging :: "nat \<Rightarrow> nat \<Rightarrow> nat list \<Rightarrow> cstate \<Rightarrow> cstate \<Rightarrow> bool" where
  "logging n0 k seen st0 st \<longleftrightarrow> volume st = volume st0 \<and> logbase st = logbase st0 \<and> next_logbase st = next_logbase st0
     \<and> logthis st = logthis st0 \<and> pinned st = pinned st0 \<and> device st = device st0
     \<and> (\<exists>ess cur. log_inv n0 ess cur (clog st) \<and> concat ess @ cur = map val_entry seen \<and> length ess \<le> length seen)
     \<and> n0 + k + 2 < 2 ^ 32"

lemma logging_more: "stash_mem.more st = stash_mem.more st' \<Longrightarrow> logging n0 k seen st0 st = logging n0 k seen st0 st'"
  unfolding logging_def using more_fields [of st st'] by simp

lemma defree_actor:
  fixes st0 :: cstate
  assumes i: "i \<noteq> DEFREE" and small: "\<forall>v\<in>set ws. v < 2 ^ 56"
  shows "actor_inv defree_logblocks i
    (\<lambda>seen us n x. moving vs i ws seen us n \<and> (\<forall>st. stash_mem.more st = x \<longrightarrow> logging n0 (length ws) seen st0 st)) ws"
  unfolding actor_inv_def
proof (intro conjI allI impI)
  fix seen v rest us and st :: cstate and P
  assume ws: "ws = seen @ v # rest" and rep: "mem_rep st P us"
    and J: "moving vs i ws seen us (length (page_pool st))
      \<and> (\<forall>st'. stash_mem.more st' = stash_mem.more st \<longrightarrow> logging n0 (length ws) seen st0 st')"
  have lg: "logging n0 (length ws) seen st0 st" using J by simp
  then obtain ess cur where e: "log_inv n0 ess cur (clog st)" "concat ess @ cur = map val_entry seen" "length ess \<le> length seen"
    "n0 + length ws + 2 < 2 ^ 32" by (auto simp: logging_def)
  have "v < 2 ^ 56" using small ws by simp
  then have ok: "entry_ok (val_entry v)" by (simp add: val_entry_def less_mult_imp_div_less)
  obtain l ess' cur' where l: "log_put (val_entry v) (clog st) = Some l" "log_inv n0 ess' cur' l"
    "concat ess' @ cur' = concat ess @ cur @ [val_entry v]" "length ess' \<le> length ess + 1"
    using log_put_inv [OF e(1) ok] e(3,4) ws by auto
  let ?st = "st\<lparr>clog := l\<rparr>"
  have "page_pool ?st \<noteq> []" using J ws by (auto simp: moving_def)
  then obtain st' P' where m: "move_deferred ?st v = Some (Inr (), st')" "mem_rep st' P' (us(DEFREE := us DEFREE @ [v]))"
    "P' i = P i" "\<forall>p\<in>set (P i). page_vec st' p = page_vec ?st p" "stash_mem.more st' = stash_mem.more ?st"
    "length (page_pool ?st) \<le> length (page_pool st') + 1"
    using move_deferred_ok [of ?st P us i v] rep i by auto
  have "log_bfree (clog st) (v mod 2 ^ 48) (v div 2 ^ 48) = Some l" using l(1) by (simp add: val_entry_def)
  then have "defree_logblocks st v = Some (Inr (), st')" using m(1) by (simp add: defree_logblocks_def)
  moreover have "\<forall>st''. stash_mem.more st'' = stash_mem.more st' \<longrightarrow> logging n0 (length ws) (seen @ [v]) st0 st''"
  proof (intro allI impI)
    fix st'' assume "stash_mem.more st'' = stash_mem.more st'"
    then have "stash_mem.more st'' = stash_mem.more ?st" using m(5) by (rule trans)
    note eq = logging_more [OF this]
    have "logging n0 (length ws) (seen @ [v]) st0 ?st"
      using lg l(2-4) e(2,3) by (auto simp: logging_def intro!: exI [of _ ess'] exI [of _ cur'])
    then show "logging n0 (length ws) (seen @ [v]) st0 st''" unfolding eq .
  qed
  moreover have "moving vs i ws (seen @ [v]) (us(DEFREE := us DEFREE @ [v])) (length (page_pool st'))"
    using J m(6) by (auto simp: moving_def)
  moreover have "(us(DEFREE := us DEFREE @ [v])) i = us i" "\<forall>p\<in>set (P i). page_vec st' p = page_vec st p"
    using i m(4) by simp_all
  ultimately show "\<exists>m' P' vs'. defree_logblocks st v = Some (Inr (), m') \<and> mem_rep m' P' vs' \<and> P' i = P i \<and> vs' i = us i
      \<and> (\<forall>p\<in>set (P i). page_vec m' p = page_vec st p) \<and> moving vs i ws (seen @ [v]) vs' (length (page_pool m'))
      \<and> (\<forall>st. stash_mem.more st = stash_mem.more m' \<longrightarrow> logging n0 (length ws) (seen @ [v]) st0 st)"
    using m(2,3) by blast
qed (use i in \<open>auto simp: moving_def\<close>)

lemma log_inv_open: "log_inv n0 ess cur ls \<Longrightarrow> logbuf ls = Some k \<Longrightarrow> lognext ls = n0 + length ess + 1"
  by (simp add: log_inv_def)

lemma log_inv_closed:
  assumes "log_inv (lognext ls) [] [] ls"
  shows "logbuf ls = None"
proof (cases "logbuf ls")
  case (Some k)
  have "lognext ls = lognext ls + length ([]::log_entry list list) + 1" by (rule log_inv_open [OF assms Some])
  then show ?thesis by linarith
qed

lemma new_cycle_log_ok:
  fixes st :: cstate
  assumes rep: "mem_rep st P vs" and log: "log_inv (lognext (clog st)) [] [] (clog st)"
    and small: "\<forall>v\<in>set (vs DECYCLE). v < 2 ^ 56" and pages: "length (vs DECYCLE) \<le> length (page_pool st)"
    and n: "lognext (clog st) + length (vs DECYCLE) + 2 < 2 ^ 32"
  shows "\<exists>st' P' ess cur. new_cycle_log st = Some (Inr (), st')
    \<and> mem_rep st' P' (vs(DEFREE := vs DEFREE @ vs DECYCLE, DECYCLE := vs NEW_DECYCLE, NEW_DECYCLE := []))
    \<and> logbase st' = next_logbase st \<and> next_logbase st' = lognext (clog st) \<and> volume st' = volume st \<and> device st' = device st
    \<and> log_inv (lognext (clog st)) ess cur (clog st') \<and> concat ess @ cur = map val_entry (vs DECYCLE)"
proof -
  let ?n0 = "lognext (clog st)" and ?ws = "vs DECYCLE"
  let ?st = "st\<lparr>logbase := next_logbase st, next_logbase := lognext (clog st)\<rparr>"
  have lb: "logbuf (clog st) = None" by (rule log_inv_closed [OF log])
  have rep1: "mem_rep ?st P vs" using rep by (simp add: mem_rep_def stash_rep_def)
  have i: "DECYCLE \<noteq> DEFREE" by (simp add: stash_ids)
  define J where "J = (\<lambda>seen us n x. moving vs DECYCLE ?ws seen us n
      \<and> (\<forall>st. stash_mem.more st = x \<longrightarrow> logging ?n0 (length ?ws) seen ?st st))"
  have act: "actor_inv defree_logblocks DECYCLE J ?ws"
    unfolding J_def by (rule defree_actor [OF i small])
  have "\<exists>ess cur. log_inv ?n0 ess cur (clog ?st) \<and> concat ess @ cur = map val_entry [] \<and> length ess \<le> length ([]::nat list)"
    using log by (intro exI [of _ "[]"]) simp
  then have lg: "logging ?n0 (length ?ws) [] ?st ?st" using n unfolding logging_def by simp
  have "J [] vs (length (page_pool ?st)) (stash_mem.more ?st)"
    unfolding J_def
  proof (intro conjI allI impI)
    show "moving vs DECYCLE ?ws [] vs (length (page_pool ?st))" using pages by (simp add: moving_def)
    fix st' assume "stash_mem.more st' = stash_mem.more ?st"
    note eq = logging_more [OF this]
    show "logging ?n0 (length ?ws) [] ?st st'" unfolding eq by (rule lg)
  qed
  then obtain st1 P1 vs1 where u: "unstash ?st DECYCLE defree_logblocks = Some (Inr (), st1)" "mem_rep st1 P1 vs1"
    "vs1 DECYCLE = []" "J ?ws vs1 (length (page_pool st1)) (stash_mem.more st1)"
    using unstash_rep [where i = DECYCLE, OF act rep1] by blast
  then have u: "unstash ?st DECYCLE defree_logblocks = Some (Inr (), st1)" "mem_rep st1 P1 vs1" "vs1 DECYCLE = []"
    "moving vs DECYCLE ?ws ?ws vs1 (length (page_pool st1))" "logging ?n0 (length ?ws) ?ws ?st st1"
    by (simp_all add: J_def)
  let ?st2 = "set_stash st1 DECYCLE (stashes st1 NEW_DECYCLE)"
  let ?st3 = "set_stash ?st2 NEW_DECYCLE (stashes st1 DECYCLE)"
  have "new_cycle_log st = Some (Inr (), ?st3)" using lb u(1) by (simp add: new_cycle_log_def Let_def)
  moreover have "mem_rep ?st3 (P1(DECYCLE := P1 NEW_DECYCLE, NEW_DECYCLE := P1 DECYCLE))
      (vs(DEFREE := vs DEFREE @ ?ws, DECYCLE := vs NEW_DECYCLE, NEW_DECYCLE := []))"
  proof -
    have v1: "vs(DEFREE := vs DEFREE @ ?ws, DECYCLE := vs NEW_DECYCLE, NEW_DECYCLE := [])
        = vs1(DECYCLE := vs1 NEW_DECYCLE, NEW_DECYCLE := vs1 DECYCLE)"
      using u(3,4) by (auto simp: moving_def stash_ids fun_eq_iff)
    show ?thesis unfolding v1 by (rule swap_stashes_rep [OF u(2)]) (simp add: stash_ids)
  qed
  moreover obtain ess cur where "log_inv ?n0 ess cur (clog st1)" "concat ess @ cur = map val_entry ?ws"
    using u(5) by (auto simp: logging_def)
  moreover have "logbase st1 = next_logbase st" "next_logbase st1 = lognext (clog st)" "volume st1 = volume st" "device st1 = device st"
    using u(5) by (simp_all add: logging_def)
  ultimately show ?thesis by (intro exI [of _ ?st3] exI conjI) (auto simp: set_stash_def)
qed

section \<open>Properties\<close>


text \<open>C32. A commit whose superblock is written frees exactly the extents whose frees were deferred:
  their blocks become free and are counted, no other block changes, the volume stays well
  formed, and the stash is empty. The superblock on the device names the tail of the log chain
  and the length of the log.\<close>

theorem commit_frees_deferred:
  assumes "dev_good SB_LEN dev" and "length (super (volume st)) = SB_LEN"
    and "mem_rep st P vs" and "wf_sb (volume st)" and "deferred_ok (volume st) (vs DEFREE)"
  shows "\<exists>st' P'. commit_delta dev st = Some (Inr (), st') \<and> mem_rep st' P' (vs(DEFREE := [])) \<and> wf_sb (volume st')
    \<and> (\<forall>b. used (volume st') b \<longleftrightarrow> used (volume st) b \<and> b \<notin> set (stash_blocks (vs DEFREE)))
    \<and> freeblocks (volume st') = freeblocks (volume st) + int (length (stash_blocks (vs DEFREE)))
    \<and> load64 (dread (device st') SB_LOC SB_LEN) DS_LOGCHAIN = wrap64 (logchain (volume st))
    \<and> load32 (dread (device st') SB_LOC SB_LEN) DS_LOGCOUNT = sub32 (lognext (clog st)) (logbase st)"
proof -
  obtain st' P' where c: "commit_delta dev st = Some (Inr (), st')" "mem_rep st' P' (vs(DEFREE := []))"
    "retired (saved st) vs (vs DEFREE) (vs(DEFREE := [])) st'"
    using commit_delta_ok [OF assms] by blast
  have "device st' = dwrite (device st) SB_LOC (fill_super (counted st))"
    using c(3) by (simp add: retired_def saved_def)
  then have "dread (device st') SB_LOC SB_LEN = fill_super (counted st)" using assms(2) by simp
  moreover have "used (volume (saved st)) = used (volume st)" "freeblocks (volume (saved st)) = freeblocks (volume st)"
    by (simp_all add: saved_def counted_def)
  ultimately show ?thesis
    using c counted_fields [OF assms(2)] by (intro exI [of _ st'] exI [of _ P']) (simp add: retired_def)
qed

text \<open>C32. A new cycle of the log frees the blocks of the cycle before the last, and not before: every
  extent of \<open>decycle\<close> is logged as free and moves behind the deferred frees, the log blocks
  written since become the next to go, and the start of the log moves on by one cycle.\<close>

theorem new_cycle_retires_old_log:
  assumes "mem_rep st P vs" and "log_inv (lognext (clog st)) [] [] (clog st)"
    and "\<forall>v\<in>set (vs DECYCLE). v < 2 ^ 56" and "length (vs DECYCLE) \<le> length (page_pool st)"
    and "lognext (clog st) + length (vs DECYCLE) + 2 < 2 ^ 32"
  shows "\<exists>st' P' ess cur. new_cycle_log st = Some (Inr (), st')
    \<and> mem_rep st' P' (vs(DEFREE := vs DEFREE @ vs DECYCLE, DECYCLE := vs NEW_DECYCLE, NEW_DECYCLE := []))
    \<and> logbase st' = next_logbase st \<and> next_logbase st' = lognext (clog st) \<and> volume st' = volume st \<and> device st' = device st
    \<and> log_inv (lognext (clog st)) ess cur (clog st') \<and> concat ess @ cur = map val_entry (vs DECYCLE)"
  by (rule new_cycle_log_ok [OF assms])

text \<open>A commit whose superblock write fails reports the error, and nothing is freed: the bitmaps,
  the free count and the stashes are as they were.\<close>

theorem commit_error_frees_nothing:
  assumes "dev SB_LOC = Fail err # rets" and "err \<noteq> EAGAIN" and "err \<noteq> EINTR"
    and "length (super (volume st)) = SB_LEN"
  shows "\<exists>st'. commit_delta dev st = Some (Inl err, st') \<and> used (volume st') = used (volume st)
    \<and> freeblocks (volume st') = freeblocks (volume st) \<and> device st' = device st
    \<and> stashes st' = stashes st \<and> page_vec st' = page_vec st \<and> link_next st' = link_next st"
proof -
  obtain x xs where "fill_super (counted st) = x # xs"
    using length_fill_super [of "counted st"] assms(4) by (cases "fill_super (counted st)") (auto simp: SB_LEN_def)
  then have "save_sb dev (device st) (counted st)
      = Some (Inl err, (counted st)\<lparr>super := fill_super (counted st)\<rparr>, device st)"
    using assms by (simp add: save_sb_def devio_write_def)
  then show ?thesis by (simp add: commit_delta_def counted_def)
qed

text \<open>C35. A rollup in the commit of a delta that has logged anything fails: the log block is still
  open when \<open>new_cycle_log\<close> asserts that it is not, since it is only finished by \<open>write_log\<close>,
  which comes later.\<close>

theorem rollup_commit_asserts:
  assumes "logbuf (clog st) \<noteq> None" and "wrap32 (rollup_calls st + 1) mod 3 = 0"
  shows "do_commit region dev True st = None"
proof -
  obtain k where "logbuf (clog st) = Some k" using assms(1) by auto
  then show ?thesis using assms(2) by (simp add: do_commit_def need_rollup_def rollup_log_def new_cycle_log_def)
qed

text \<open>C34. When the volume is full the commit still reports success: the errors of \<open>write_log\<close> are
  dropped, and the superblock that is written counts log blocks which are not in the chain, so
  that the next replay follows the chain past its end.\<close>

theorem full_commit_counts_unwritten:
  assumes "delta_ready dev st old ess cur P vs" and "freeblocks (volume st) = 0" and "logbuf (clog st) \<noteq> None"
  shows "\<exists>st'. force_delta region dev st = Some (Inr (), st')
    \<and> load64 (dread (device st') SB_LOC SB_LEN) DS_LOGCHAIN = logchain (volume st)
    \<and> load32 (dread (device st') SB_LOC SB_LEN) DS_LOGCOUNT = length old + length ess + 1"
  by (rule full_delta_ok [OF assms])

section \<open>Witnesses\<close>

text \<open>
  A volume of eight 4096-byte blocks whose bitmap byte is \<open>m\<close>, with \<open>n\<close> free blocks, an empty
  log and empty stashes.
\<close>

definition demo_commit :: "u8 \<Rightarrow> int \<Rightarrow> cstate" where
  "demo_commit m n = \<lparr>link_next = id, page_vec = (\<lambda>_. replicate PAGE_VALUES 0), page_pool = [0, 1, 2, 3],
     stashes = (\<lambda>_. \<lparr>stash_tail = None, stash_pos = None, stash_top = None\<rparr>),
     volume = \<lparr>blockbits = 12, volblocks = 8, freeblocks = n, nextalloc = 2, bitmap = [0 \<mapsto> m # replicate 4095 0],
       super = TUX3_MAGIC @ replicate 4088 0, blockmask = 4095, entries_per_node = 255, max_inodes_per_block = 64,
       vol_atomref_base = 2 ^ 28, vol_unatom_base = 2 ^ 28 + 2 ^ 22, vol_freeatom = 0, vol_atomgen = 1,
       vol_dictsize = 0, iroot = \<lparr>root_depth = 1, root_block = 3\<rparr>, logchain = 0\<rparr>,
     clog = \<lparr>log_bsize = 4096, logmap = Map.empty, lognext = 0, logbuf = None, logpos = 0, logtop = 0\<rparr>,
     logbase = 0, next_logbase = 0, logthis = 0, rollup = 0, delta = 0, pinned = [], commits = [],
     dirty_bitmaps = [], device = (\<lambda>_. 0), delta_calls = 0, rollup_calls = 2\<rparr>"

text \<open>A bitmap file whose blocks follow each other on the volume, from block 2 on.\<close>

definition demo_region :: bitmap_region where "demo_region index st = Some (Inr (2 + index), st)"

definition demo_dev :: dev where "demo_dev off = [Ret 4096]"

lemma demo_dev_good: "dev_good SB_LEN demo_dev" "dev_good (2 ^ 12) demo_dev"
  by (simp_all add: dev_good_def demo_dev_def SB_LEN_def)

lemma demo_rep: "mem_rep (demo_commit m n) (\<lambda>_. []) (\<lambda>_. [])"
  by (simp add: mem_rep_def stash_rep_def demo_commit_def)

lemma demo_used: "b < 8 \<Longrightarrow> used (volume (demo_commit m n)) b = bit m b"
  by (simp add: used_def bm_bit_def demo_commit_def mapsize_def mapshift_def)

lemma demo_bitmap: "wf_bitmap (volume (demo_commit m n))"
  by (auto simp: wf_bitmap_def demo_commit_def mapsize_def mapshift_def blocksize_def)

lemma demo_commit_free: "free_count (volume (demo_commit m n)) = length (filter (\<lambda>b. \<not> bit m b) [0..<8])"
proof -
  have v: "volblocks (volume (demo_commit m n)) = 8" by (simp add: demo_commit_def)
  show ?thesis unfolding free_count_code v
    by (intro arg_cong [where f = length] filter_cong) (auto simp: demo_used)
qed

lemma demo_commit_wf:
  assumes "bit m 1" "n = int (length (filter (\<lambda>b. \<not> bit m b) [0..<8]))"
  shows "commit_wf (demo_commit m n)"
proof -
  have "wf_sb (volume (demo_commit m n))"
    using demo_bitmap demo_commit_free [of m n] assms(2) unfolding wf_sb_def by (simp add: demo_commit_def)
  moreover have "used (volume (demo_commit m n)) b" if "b < 8" "sb_block 12 b" for b
  proof -
    have "b = 1" using that(2) by (simp add: sb_block_def SB_LOC_def SB_LEN_def)
    then show ?thesis using demo_used [of 1] assms(1) by simp
  qed
  ultimately show ?thesis
    by (simp add: commit_wf_def) (simp add: demo_commit_def SB_LEN_def TUX3_MAGIC_def)
qed

lemma demo_fields [simp]:
  "freeblocks (volume (demo_commit m n)) = n" "length (super (volume (demo_commit m n))) = SB_LEN"
  "blockbits (volume (demo_commit m n)) = 12" "log_bsize (clog (demo_commit m n)) = 4096"
  "rollup_calls (demo_commit m n) = 2" "page_pool (demo_commit m n) = [0, 1, 2, 3]"
  "logchain (volume (demo_commit m n)) = 0"
  by (simp_all add: demo_commit_def SB_LEN_def TUX3_MAGIC_def)

lemma demo_counts:
  "bit (7::u8) 1" "5 = int (length (filter (\<lambda>b. \<not> bit (7::u8) b) [0..<8]))"
  "bit (255::u8) 1" "0 = int (length (filter (\<lambda>b. \<not> bit (255::u8) b) [0..<8]))"
  by code_simp+

lemma demo_log_inv: "log_inv 0 [] [] (clog (demo_commit m n))"
  by (simp add: log_inv_def demo_commit_def)

lemma demo_ready:
  assumes "bit m 1" "n = int (length (filter (\<lambda>b. \<not> bit m b) [0..<8]))" "log_inv 0 ess cur ls" "log_bsize ls = 4096"
    "length ess \<le> 10"
  shows "delta_ready demo_dev ((demo_commit m n)\<lparr>clog := ls\<rparr>) [] ess cur (\<lambda>_. []) (\<lambda>_. [])"
proof -
  have "commit_wf ((demo_commit m n)\<lparr>clog := ls\<rparr>)"
    using demo_commit_wf [OF assms(1,2)] assms(4) by (simp add: commit_wf_def demo_commit_def)
  then show ?thesis
    using demo_dev_good demo_rep [of m n] assms(3,5)
    by (simp add: delta_ready_def chain_ok_def buffers_ok_def deferred_ok_def Let_def) (simp add: demo_commit_def)
qed

theorem rollup_commit_asserts_witness:
  "do_commit demo_region demo_dev True ((demo_commit 7 5)\<lparr>clog := demo_log\<lparr>logbuf := Some 0\<rparr>\<rparr>) = None"
  by (rule rollup_commit_asserts) (simp_all add: demo_commit_def demo_log_def wrap32_def)

theorem commit_error_frees_nothing_witness:
  "\<exists>st'. commit_delta (\<lambda>_. [Fail ENOSPC]) (demo_commit 7 5) = Some (Inl ENOSPC, st')
    \<and> freeblocks (volume st') = 5"
  using commit_error_frees_nothing [of "\<lambda>_. [Fail ENOSPC]" ENOSPC "[]" "demo_commit 7 5"] by auto


theorem full_commit_counts_unwritten_witness:
  "\<exists>ls st'. log_puts [Balloc 6 1] (clog (demo_commit 255 0)) = Some ls
    \<and> force_delta demo_region demo_dev ((demo_commit 255 0)\<lparr>clog := ls\<rparr>) = Some (Inr (), st')
    \<and> 0 < load32 (dread (device st') SB_LOC SB_LEN) DS_LOGCOUNT
    \<and> load64 (dread (device st') SB_LOC SB_LEN) DS_LOGCHAIN = 0"
proof -
  obtain ls ess cur where l: "log_puts [Balloc 6 1] (clog (demo_commit 255 0)) = Some ls" "log_inv 0 ess cur ls"
    "log_bsize ls = log_bsize (clog (demo_commit 255 0))" "concat ess @ cur = [Balloc 6 1]" "length ess \<le> 1"
    using log_puts_inv [OF demo_log_inv, of "[Balloc 6 1]" 255 0] by auto
  have b: "log_bsize ls = 4096" using l(3) by simp
  have "logbuf ls \<noteq> None"
  proof -
    obtain l1 where "log_begin (clog (demo_commit 255 0)) (length (entry_bytes (Balloc 6 1))) = Some l1" "ls = log_end l1 (entry_bytes (Balloc 6 1))"
      using l(1) by (auto simp: log_put_eq bind_eq_Some_conv simp del: entry_bytes.simps log_put.simps)
    then show ?thesis
      by (auto simp: log_begin_def demo_commit_def log_finish_def log_next_def put_log_def log_end_def Let_def)
  qed
  moreover have "delta_ready demo_dev ((demo_commit 255 0)\<lparr>clog := ls\<rparr>) [] ess cur (\<lambda>_. []) (\<lambda>_. [])"
    using l(2,5) b demo_counts by (intro demo_ready) simp_all
  ultimately show ?thesis
    using full_commit_counts_unwritten [of demo_dev "(demo_commit 255 0)\<lparr>clog := ls\<rparr>" "[]" ess cur "\<lambda>_. []" "\<lambda>_. []" demo_region] l(1)
    by auto
qed

theorem commit_frees_deferred_witness:
  "\<exists>st r st'. defer_bfree (demo_commit 7 5) DEFREE 2 1 = Some (r, st) \<and> commit_delta demo_dev st = Some (Inr (), st')
    \<and> freeblocks (volume st') = 6 \<and> \<not> used (volume st') 2"
proof -
  let ?d = "demo_commit 7 5"
  let ?val = "wrap64 (wrap64 (1 * 2 ^ 48) + 2)"
  obtain st P where s: "stash_value ?d DEFREE ?val = Some (Inr (), st)" "mem_rep st P ((\<lambda>_. [])(DEFREE := [?val]))"
    "stash_mem.more st = stash_mem.more ?d"
    using stash_value_rep [OF demo_rep, of 7 5 DEFREE ?val] by (auto simp: demo_commit_def)
  have val: "?val mod 2 ^ 48 = 2" "?val div 2 ^ 48 = 1" by (simp_all add: wrap64_def)
  have wf: "wf_sb (volume ?d)" using demo_commit_wf [of 7 5] demo_counts by (simp add: commit_wf_def)
  have "extent_ok (volume ?d) 2 1"
    using demo_bitmap [of 7 5] by (simp add: extent_ok_def one_mapblock_def) (simp add: demo_commit_def mapsize_def mapshift_def)
  moreover have "used (volume ?d) 2" using demo_used [of 2] by simp
  ultimately have "deferred_ok (volume ?d) [?val]" using val by (simp add: deferred_ok_def val_blocks_def)
  then show ?thesis
    using commit_frees_deferred [of demo_dev st P "(\<lambda>_. [])(DEFREE := [?val])"] s wf demo_dev_good(1)
      more_fields(1) [OF s(3)] val
    by (auto simp: defer_bfree_def val_blocks_def)
qed

theorem new_cycle_retires_old_log_witness:
  "\<exists>r st st' P'. defer_bfree (demo_commit 7 5) DECYCLE 2 1 = Some (r, st) \<and> new_cycle_log st = Some (Inr (), st')
    \<and> mem_rep st' P' ((\<lambda>_. [])(DEFREE := [2 ^ 48 + 2]))"
proof -
  let ?d = "demo_commit 7 5"
  let ?val = "wrap64 (wrap64 (1 * 2 ^ 48) + 2)"
  obtain st P where s: "stash_value ?d DECYCLE ?val = Some (Inr (), st)" "mem_rep st P ((\<lambda>_. [])(DECYCLE := [?val]))"
    "stash_mem.more st = stash_mem.more ?d" "3 \<le> length (page_pool st)"
    using stash_value_rep [OF demo_rep, of 7 5 DECYCLE ?val] by auto
  have c: "clog st = clog ?d" using more_fields(2) [OF s(3)] .
  have n0: "lognext (clog ?d) = 0" by (simp add: demo_commit_def)
  have log: "log_inv (lognext (clog st)) [] [] (clog st)" unfolding c n0 by (rule demo_log_inv)
  obtain st' P' where r: "new_cycle_log st = Some (Inr (), st')"
    "mem_rep st' P' (((\<lambda>_. [])(DECYCLE := [?val]))(DEFREE := [?val], DECYCLE := [], NEW_DECYCLE := []))"
    using new_cycle_retires_old_log [OF s(2) log] s(4) c n0 by (auto simp: stash_ids wrap64_def)
  have "((\<lambda>_. [])(DECYCLE := [?val]))(DEFREE := [?val], DECYCLE := [], NEW_DECYCLE := []) = (\<lambda>_. [])(DEFREE := [2 ^ 48 + 2])"
    by (auto simp: fun_eq_iff stash_ids wrap64_def)
  then show ?thesis using s(1) r by (auto simp: defer_bfree_def)
qed

end
