(* ===== verification/Tux_Btree.thy ===== *)
theory Tux_Btree
  imports Tux_Balloc Tux_Root Tux_Log
begin

text \<open>
  The generic B-tree, \<open>kernel/btree.c\<close>. A block of the volume cache is an index node, a list of
  keys and child blocks, or a leaf of any type with the operations of \<open>struct btree_ops\<close>. A
  cursor is its path of blocks with, at each index node, the position of the next entry.
  Reference counts are left out. The calls of the log functions are recorded in order, as are
  the blocks whose free is deferred; what the log makes of a call is the subject of the theory
  of the log. \<open>atomic\<close> chooses between the two builds, with and without \<open>ATOMIC\<close>. A failed
  assertion, and a read of an entry behind the count of a node, is \<open>None\<close>.
\<close>

section \<open>State\<close>

datatype 'l tblock = Node "(nat \<times> nat) list" | Leaf 'l

record 'l tree = sb +
  cache :: "nat \<Rightarrow> 'l tblock option"
  t_root :: root
  node_max :: nat
  atomic :: bool
  t_dirty :: "nat \<Rightarrow> bool"
  t_logged :: "log_entry list"
  t_defree :: "(nat \<times> nat) list"
  t_derollup :: "(nat \<times> nat) list"

record 'l btree_ops =
  leaf_sniff :: "'l \<Rightarrow> bool"
  leaf_init :: 'l
  leaf_split :: "nat \<Rightarrow> 'l \<Rightarrow> 'l \<Rightarrow> (nat \<times> 'l \<times> 'l) option"
  leaf_resize :: "nat \<Rightarrow> 'l \<Rightarrow> nat \<Rightarrow> (nat option \<times> 'l) option"
  leaf_need :: "'l \<Rightarrow> nat"
  leaf_free :: "'l \<Rightarrow> nat"
  leaf_chop :: "nat \<Rightarrow> 'l \<Rightarrow> ((errno + bool) \<times> 'l \<times> (nat \<times> nat) list) option"
  leaf_merge :: "'l \<Rightarrow> 'l \<Rightarrow> 'l option"

record cursor =
  path :: "(nat \<times> nat option) list"
  maxlen :: nat

definition node_of :: "('l, 'a) tree_scheme \<Rightarrow> nat \<Rightarrow> (nat \<times> nat) list option" where
  "node_of st b = (case cache st b of Some (Node es) \<Rightarrow> Some es | _ \<Rightarrow> None)"

definition leaf_of :: "('l, 'a) tree_scheme \<Rightarrow> nat \<Rightarrow> 'l option" where
  "leaf_of st b = (case cache st b of Some (Leaf l) \<Rightarrow> Some l | _ \<Rightarrow> None)"

definition put_block :: "('l, 'a) tree_scheme \<Rightarrow> nat \<Rightarrow> 'l tblock \<Rightarrow> ('l, 'a) tree_scheme" where
  "put_block st b x = st\<lparr>cache := (cache st)(b \<mapsto> x)\<rparr>"

definition add_log :: "('l, 'a) tree_scheme \<Rightarrow> log_entry \<Rightarrow> ('l, 'a) tree_scheme" where
  "add_log st e = st\<lparr>t_logged := t_logged st @ [e]\<rparr>"

section \<open>Dirty buffers\<close>

definition mark_buffer_dirty :: "('l, 'a) tree_scheme \<Rightarrow> nat \<Rightarrow> ('l, 'a) tree_scheme" where
  "mark_buffer_dirty st b = st\<lparr>t_dirty := (t_dirty st)(b := True)\<rparr>"

definition mark_buffer_dirty_atomic :: "('l, 'a) tree_scheme \<Rightarrow> nat \<Rightarrow> ('l, 'a) tree_scheme" where
  "mark_buffer_dirty_atomic st b = (if atomic st then mark_buffer_dirty st b else st)"

definition mark_buffer_dirty_non :: "('l, 'a) tree_scheme \<Rightarrow> nat \<Rightarrow> ('l, 'a) tree_scheme option" where
  "mark_buffer_dirty_non st b =
     (if atomic st then do { c_assert (t_dirty st b); Some st } else Some (mark_buffer_dirty st b))"

text \<open>
  The rollup variants put the buffer on \<open>sb->pinned\<close> instead of the list of its map; here a
  buffer is dirty or not.
\<close>

definition mark_buffer_rollup :: "('l, 'a) tree_scheme \<Rightarrow> nat \<Rightarrow> ('l, 'a) tree_scheme" where
  "mark_buffer_rollup st b = mark_buffer_dirty st b"

definition mark_buffer_rollup_atomic :: "('l, 'a) tree_scheme \<Rightarrow> nat \<Rightarrow> ('l, 'a) tree_scheme" where
  "mark_buffer_rollup_atomic st b = (if atomic st then mark_buffer_rollup st b else st)"

definition mark_buffer_rollup_non :: "('l, 'a) tree_scheme \<Rightarrow> nat \<Rightarrow> ('l, 'a) tree_scheme option" where
  "mark_buffer_rollup_non st b =
     (if atomic st then do { c_assert (t_dirty st b); Some st } else Some (mark_buffer_rollup st b))"

section \<open>New blocks\<close>

definition new_block :: "('l, 'a) tree_scheme \<Rightarrow> ((errno + nat) \<times> ('l, 'a) tree_scheme) option" where
  "new_block st = balloc st 1"

definition new_leaf ::
  "'l btree_ops \<Rightarrow> ('l, 'a) tree_scheme \<Rightarrow> ((errno + nat) \<times> ('l, 'a) tree_scheme) option" where
  "new_leaf ops st = do {
     (r, st) \<leftarrow> new_block st;
     case r of
       Inl err \<Rightarrow> Some (Inl err, st)
     | Inr b \<Rightarrow> Some (Inr b, mark_buffer_dirty_atomic (put_block st b (Leaf (leaf_init ops))) b) }"

definition new_node :: "('l, 'a) tree_scheme \<Rightarrow> ((errno + nat) \<times> ('l, 'a) tree_scheme) option" where
  "new_node st = do {
     (r, st) \<leftarrow> new_block st;
     case r of
       Inl err \<Rightarrow> Some (Inl err, st)
     | Inr b \<Rightarrow> Some (Inr b, mark_buffer_rollup_atomic (put_block st b (Node [])) b) }"

section \<open>Cursors\<close>

definition cursor_len :: "cursor \<Rightarrow> nat" where
  "cursor_len c = length (path c)"

definition alloc_cursor :: "('l, 'a) tree_scheme \<Rightarrow> nat \<Rightarrow> cursor" where
  "alloc_cursor st extra = \<lparr>path = [], maxlen = root_depth (t_root st) + 1 + extra\<rparr>"

definition cursor_leafbuf :: "cursor \<Rightarrow> nat option" where
  "cursor_leafbuf c = do { c_assert (cursor_len c \<ge> 2); Some (fst (path c ! (cursor_len c - 1))) }"

definition level_root_add :: "cursor \<Rightarrow> nat \<Rightarrow> nat option \<Rightarrow> cursor option" where
  "level_root_add c b next = do {
     c_assert (cursor_len c < maxlen c);
     Some (c\<lparr>path := (b, next) # path c\<rparr>) }"

definition level_replace_blockput :: "cursor \<Rightarrow> nat \<Rightarrow> nat \<Rightarrow> nat option \<Rightarrow> cursor option" where
  "level_replace_blockput c level b next = do {
     c_assert (level < cursor_len c);
     Some (c\<lparr>path := (path c)[level := (b, next)]\<rparr>) }"

definition level_push :: "cursor \<Rightarrow> nat \<Rightarrow> nat option \<Rightarrow> cursor option" where
  "level_push c b next = do {
     c_assert (cursor_len c < maxlen c);
     Some (c\<lparr>path := path c @ [(b, next)]\<rparr>) }"

definition level_pop :: "cursor \<Rightarrow> (nat \<times> cursor) option" where
  "level_pop c = do {
     c_assert (cursor_len c > 0);
     Some (fst (last (path c)), c\<lparr>path := butlast (path c)\<rparr>) }"

definition release_cursor :: "cursor \<Rightarrow> cursor" where
  "release_cursor c = c\<lparr>path := []\<rparr>"

definition level_next :: "cursor \<Rightarrow> nat \<Rightarrow> nat option" where
  "level_next c level = snd (path c ! level)"

definition set_next :: "cursor \<Rightarrow> nat \<Rightarrow> nat \<Rightarrow> cursor" where
  "set_next c level n = c\<lparr>path := (path c)[level := (fst (path c ! level), Some n)]\<rparr>"

definition cursor_node :: "('l, 'a) tree_scheme \<Rightarrow> cursor \<Rightarrow> nat \<Rightarrow> (nat \<times> nat) list option" where
  "cursor_node st c level = node_of st (fst (path c ! level))"

definition level_finished :: "('l, 'a) tree_scheme \<Rightarrow> cursor \<Rightarrow> nat \<Rightarrow> bool option" where
  "level_finished st c level = do {
     es \<leftarrow> cursor_node st c level;
     Some (level_next c level = Some (length es)) }"

fun cursor_check_path :: "('l, 'a) tree_scheme \<Rightarrow> (nat \<times> nat option) list \<Rightarrow> nat \<Rightarrow> nat \<Rightarrow> bool" where
  "cursor_check_path st [] block key = True"
| "cursor_check_path st ((b, next) # rest) block key =
     (b = block \<and>
      (case next of
         None \<Rightarrow> True
       | Some n \<Rightarrow>
           (case node_of st b of
              None \<Rightarrow> False
            | Some es \<Rightarrow> 0 < n \<and> n \<le> length es \<and> key \<le> fst (es ! (n - 1))
                \<and> cursor_check_path st rest (snd (es ! (n - 1))) (fst (es ! (n - 1))))))"

definition cursor_check :: "('l, 'a) tree_scheme \<Rightarrow> cursor \<Rightarrow> bool" where
  "cursor_check st c = cursor_check_path st (path c) (root_block (t_root st)) 0"

section \<open>Descent and traversal\<close>

text \<open>The position at which the search of \<open>probe\<close> in one node stops.\<close>

definition probe_next :: "(nat \<times> nat) list \<Rightarrow> nat \<Rightarrow> nat" where
  "probe_next es key = 1 + length (takeWhile (\<lambda>(k, b). k \<le> key) (tl es))"

text \<open>\<open>n\<close> levels of index nodes are still to be read, and \<open>block\<close> has been.\<close>

fun probe_levels ::
  "'l btree_ops \<Rightarrow> ('l, 'a) tree_scheme \<Rightarrow> nat \<Rightarrow> nat \<Rightarrow> nat \<Rightarrow> cursor \<Rightarrow> ((errno + unit) \<times> cursor) option" where
  "probe_levels ops st key 0 block c = do {
     leaf \<leftarrow> leaf_of st block;
     c_assert (leaf_sniff ops leaf);
     c \<leftarrow> level_push c block None;
     c_assert (cursor_check st c);
     Some (Inr (), c) }"
| "probe_levels ops st key (Suc n) block c = do {
     es \<leftarrow> node_of st block;
     c_assert (es \<noteq> []);
     let next = probe_next es key;
     c \<leftarrow> level_push c block (Some next);
     let child = snd (es ! (next - 1));
     if cache st child = None then Some (Inl EIO, release_cursor c)
     else probe_levels ops st key n child c }"

definition probe ::
  "'l btree_ops \<Rightarrow> ('l, 'a) tree_scheme \<Rightarrow> nat \<Rightarrow> cursor \<Rightarrow> ((errno + unit) \<times> cursor) option" where
  "probe ops st key c = do {
     c_assert (has_root (t_root st));
     if cache st (root_block (t_root st)) = None then Some (Inl EIO, c)
     else probe_levels ops st key (root_depth (t_root st)) (root_block (t_root st)) c }"

text \<open>The first loop of \<open>advance\<close>: off the finished levels, to the level to go on at, or off the tree.\<close>

fun advance_up :: "('l, 'a) tree_scheme \<Rightarrow> nat \<Rightarrow> cursor \<Rightarrow> (nat option \<times> cursor) option" where
  "advance_up st 0 c = do {
     (_, c) \<leftarrow> level_pop c;
     Some (None, c) }"
| "advance_up st (Suc level) c = do {
     (_, c) \<leftarrow> level_pop c;
     fin \<leftarrow> level_finished st c level;
     if fin then advance_up st level c else Some (Some level, c) }"

text \<open>The second: down to a leaf, \<open>n\<close> levels above it. The result 1 is \<open>True\<close>, 0 is \<open>False\<close>.\<close>

fun advance_down :: "('l, 'a) tree_scheme \<Rightarrow> nat \<Rightarrow> nat \<Rightarrow> cursor \<Rightarrow> ((errno + bool) \<times> cursor) option" where
  "advance_down st 0 level c = None"
| "advance_down st (Suc n) level c = do {
     es \<leftarrow> cursor_node st c level;
     next \<leftarrow> level_next c level;
     c_assert (next < length es);
     let child = snd (es ! next);
     if cache st child = None then Some (Inl EIO, release_cursor c)
     else do {
       let c = set_next c level (next + 1);
       if n = 0 then do {
         c \<leftarrow> level_push c child None;
         c_assert (cursor_check st c);
         Some (Inr True, c) }
       else do {
         c \<leftarrow> level_push c child (Some 0);
         advance_down st n (level + 1) c } } }"

definition advance :: "('l, 'a) tree_scheme \<Rightarrow> cursor \<Rightarrow> ((errno + bool) \<times> cursor) option" where
  "advance st c = do {
     let depth = root_depth (t_root st);
     (r, c) \<leftarrow> advance_up st depth c;
     case r of
       None \<Rightarrow> Some (Inr False, c)
     | Some level \<Rightarrow> advance_down st (depth - level) level c }"

fun next_keyp :: "('l, 'a) tree_scheme \<Rightarrow> cursor \<Rightarrow> nat \<Rightarrow> nat option option" where
  "next_keyp st c 0 = Some None"
| "next_keyp st c (Suc level) = do {
     fin \<leftarrow> level_finished st c level;
     if fin then next_keyp st c level
     else do {
       es \<leftarrow> cursor_node st c level;
       next \<leftarrow> level_next c level;
       c_assert (next < length es);
       Some (Some (fst (es ! next))) } }"

definition next_key :: "('l, 'a) tree_scheme \<Rightarrow> cursor \<Rightarrow> nat \<Rightarrow> nat option" where
  "next_key st c d = map_option (\<lambda>kp. case kp of Some k \<Rightarrow> k | None \<Rightarrow> 2 ^ 64 - 1) (next_keyp st c d)"

section \<open>Redirection\<close>

definition level_redirect_blockput ::
  "('l, 'a) tree_scheme \<Rightarrow> cursor \<Rightarrow> nat \<Rightarrow> nat \<Rightarrow> (('l, 'a) tree_scheme \<times> cursor) option" where
  "level_redirect_blockput st c level clone = do {
     x \<leftarrow> cache st (fst (path c ! level));
     c \<leftarrow> level_replace_blockput c level clone (level_next c level);
     Some (put_block st clone x, c) }"

text \<open>The loop at \<open>level\<close>; \<open>child\<close> is the clone one level down, 0 at the leaf.\<close>

fun redirect_levels ::
  "('l, 'a) tree_scheme \<Rightarrow> cursor \<Rightarrow> nat \<Rightarrow> nat \<Rightarrow> ((errno + unit) \<times> ('l, 'a) tree_scheme \<times> cursor) option" where
  "redirect_levels st c level child =
     (let buffer = fst (path c ! level)
      in if level \<ge> cursor_len c then None
         else if t_dirty st buffer then Some (Inr (), st, c)
         else do {
           (r, st) \<leftarrow> new_block st;
           case r of
             Inl err \<Rightarrow> Some (Inl err, st, c)
           | Inr clone \<Rightarrow> do {
               (st, c) \<leftarrow> level_redirect_blockput st c level clone;
               st \<leftarrow> (if level = root_depth (t_root st) then do {
                   let st = mark_buffer_dirty_atomic st clone;
                   let st = add_log st (Leaf_redirect buffer clone);
                   Some (st\<lparr>t_defree := t_defree st @ [(buffer, 1)]\<rparr>) }
                 else do {
                   let st = mark_buffer_rollup_atomic st clone;
                   let st = add_log st (Bnode_redirect buffer clone);
                   let st = st\<lparr>t_derollup := t_derollup st @ [(buffer, 1)]\<rparr>;
                   es \<leftarrow> node_of st clone;
                   next \<leftarrow> level_next c level;
                   c_assert (0 < next \<and> next \<le> length es);
                   let st = put_block st clone (Node (es[next - 1 := (fst (es ! (next - 1)), child)]));
                   Some (add_log st (Bnode_update clone child (fst (es ! (next - 1))))) });
               case level of
                 0 \<Rightarrow> do {
                   c_assert (buffer = root_block (t_root st));
                   let st = st\<lparr>t_root := (t_root st)\<lparr>root_block := clone\<rparr>\<rparr>;
                   c_assert (cursor_check st c);
                   Some (Inr (), st, c) }
               | Suc level \<Rightarrow> redirect_levels st c level clone } })"

definition cursor_redirect ::
  "('l, 'a) tree_scheme \<Rightarrow> cursor \<Rightarrow> ((errno + unit) \<times> ('l, 'a) tree_scheme \<times> cursor) option" where
  "cursor_redirect st c =
     (if \<not> atomic st then Some (Inr (), st, c) else redirect_levels st c (root_depth (t_root st)) 0)"

section \<open>Insertion\<close>

definition add_child :: "(nat \<times> nat) list \<Rightarrow> nat \<Rightarrow> nat \<Rightarrow> nat \<Rightarrow> (nat \<times> nat) list" where
  "add_child es p child childkey = take p es @ (childkey, child) # drop p es"

text \<open>
  One level of \<open>insert_leaf\<close> goes on with the new node, its key and \<open>keep\<close> when the node had to
  be split, and is done when it had not.
\<close>

definition insert_level ::
  "('l, 'a) tree_scheme \<Rightarrow> cursor \<Rightarrow> nat \<Rightarrow> nat \<Rightarrow> nat \<Rightarrow> bool
    \<Rightarrow> ((errno + (nat \<times> nat \<times> bool) option) \<times> ('l, 'a) tree_scheme \<times> cursor) option" where
  "insert_level st c level childkey childblock keep = do {
     let parentbuf = fst (path c ! level);
     parent \<leftarrow> node_of st parentbuf;
     next \<leftarrow> level_next c level;
     if length parent < node_max st then do {
       let st = put_block st parentbuf (Node (add_child parent next childblock childkey));
       let c = (if keep then c else set_next c level (next + 1));
       let st = add_log st (Bnode_add parentbuf childblock childkey);
       st \<leftarrow> mark_buffer_rollup_non st parentbuf;
       Some (Inr None, st, c) }
     else do {
       (r, st) \<leftarrow> new_node st;
       case r of
         Inl err \<Rightarrow> Some (Inl err, st, release_cursor c)
       | Inr newbuf \<Rightarrow> do {
           let half = length parent div 2;
           let newkey = fst (parent ! half);
           let newnode = drop half parent;
           let st = put_block st newbuf (Node newnode);
           let st = put_block st parentbuf (Node (take half parent));
           let st = add_log st (Bnode_split parentbuf half newbuf);
           let child_is_left = next \<le> half;
           (st, c) \<leftarrow> (if \<not> child_is_left then do {
               st \<leftarrow> mark_buffer_rollup_non st parentbuf;
               c \<leftarrow> level_replace_blockput c level newbuf (Some (next - half));
               Some (st, c) }
             else do {
               st \<leftarrow> mark_buffer_rollup_non st newbuf;
               Some (st, c) });
           let parentbuf = fst (path c ! level);
           parent \<leftarrow> node_of st parentbuf;
           next \<leftarrow> level_next c level;
           let st = put_block st parentbuf (Node (add_child parent next childblock childkey));
           let c = (if keep then c else set_next c level (next + 1));
           let st = add_log st (Bnode_add parentbuf childblock childkey);
           st \<leftarrow> mark_buffer_rollup_non st parentbuf;
           Some (Inr (Some (newkey, newbuf, keep \<or> child_is_left)), st, c) } } }"

text \<open>The loop over the levels, and the new root when it runs out of them.\<close>

fun insert_levels ::
  "('l, 'a) tree_scheme \<Rightarrow> cursor \<Rightarrow> nat \<Rightarrow> nat \<Rightarrow> nat \<Rightarrow> bool
    \<Rightarrow> ((errno + unit) \<times> ('l, 'a) tree_scheme \<times> cursor) option" where
  "insert_levels st c 0 childkey childblock keep = do {
     (r, st) \<leftarrow> new_node st;
     case r of
       Inl err \<Rightarrow> Some (Inl err, st, release_cursor c)
     | Inr newbuf \<Rightarrow> do {
         let oldroot = root_block (t_root st);
         let left_node = (fst (path c ! 0) \<noteq> childblock);
         let st = put_block st newbuf (Node [(0, oldroot), (childkey, childblock)]);
         c \<leftarrow> level_root_add c newbuf (Some (if left_node then 1 else 2));
         let st = add_log st (Bnode_root newbuf 2 oldroot childblock childkey);
         let st = st\<lparr>t_root := \<lparr>root_depth = root_depth (t_root st) + 1, root_block = newbuf\<rparr>\<rparr>;
         st \<leftarrow> mark_buffer_rollup_non st newbuf;
         c_assert (cursor_check st c);
         Some (Inr (), st, c) } }"
| "insert_levels st c (Suc level) childkey childblock keep = do {
     (r, st, c) \<leftarrow> insert_level st c level childkey childblock keep;
     case r of
       Inl err \<Rightarrow> Some (Inl err, st, c)
     | Inr None \<Rightarrow> Some (Inr (), st, c)
     | Inr (Some (childkey, childblock, keep)) \<Rightarrow> insert_levels st c level childkey childblock keep }"

definition insert_leaf ::
  "('l, 'a) tree_scheme \<Rightarrow> cursor \<Rightarrow> nat \<Rightarrow> nat \<Rightarrow> bool
    \<Rightarrow> ((errno + unit) \<times> ('l, 'a) tree_scheme \<times> cursor) option" where
  "insert_leaf st c childkey leafbuf keep = do {
     c \<leftarrow> (if keep then Some c
       else do {
         (_, c) \<leftarrow> level_pop c;
         level_push c leafbuf None });
     insert_levels st c (root_depth (t_root st)) childkey leafbuf keep }"

definition btree_insert_leaf ::
  "('l, 'a) tree_scheme \<Rightarrow> cursor \<Rightarrow> nat \<Rightarrow> nat \<Rightarrow> ((errno + unit) \<times> ('l, 'a) tree_scheme \<times> cursor) option" where
  "btree_insert_leaf st c key leafbuf = insert_leaf st c key leafbuf False"

definition btree_leaf_split ::
  "'l btree_ops \<Rightarrow> ('l, 'a) tree_scheme \<Rightarrow> cursor \<Rightarrow> nat \<Rightarrow> ((errno + unit) \<times> ('l, 'a) tree_scheme \<times> cursor) option" where
  "btree_leaf_split ops st c key = do {
     (r, st) \<leftarrow> new_leaf ops st;
     case r of
       Inl err \<Rightarrow> Some (Inl err, st, release_cursor c)
     | Inr newbuf \<Rightarrow> do {
         let st = add_log st (Balloc newbuf 1);
         leafbuf \<leftarrow> cursor_leafbuf c;
         from \<leftarrow> leaf_of st leafbuf;
         into \<leftarrow> leaf_of st newbuf;
         (newkey, from, into) \<leftarrow> leaf_split ops key from into;
         let st = put_block (put_block st leafbuf (Leaf from)) newbuf (Leaf into);
         st \<leftarrow> mark_buffer_dirty_non st (if key < newkey then newbuf else leafbuf);
         insert_leaf st c newkey newbuf (key < newkey) } }"

text \<open>The result is the offset of the space in the leaf that the cursor is at then.\<close>

definition tree_expand_once ::
  "'l btree_ops \<Rightarrow> ('l, 'a) tree_scheme \<Rightarrow> cursor \<Rightarrow> nat \<Rightarrow> nat \<Rightarrow> (nat option \<times> ('l, 'a) tree_scheme) option" where
  "tree_expand_once ops st c key newsize = do {
     leafbuf \<leftarrow> cursor_leafbuf c;
     leaf \<leftarrow> leaf_of st leafbuf;
     (space, leaf) \<leftarrow> leaf_resize ops key leaf newsize;
     Some (space, put_block st leafbuf (Leaf leaf)) }"

definition tree_expand ::
  "'l btree_ops \<Rightarrow> ('l, 'a) tree_scheme \<Rightarrow> cursor \<Rightarrow> nat \<Rightarrow> nat
    \<Rightarrow> ((errno + nat) \<times> ('l, 'a) tree_scheme \<times> cursor) option" where
  "tree_expand ops st c key newsize = do {
     (r, st, c) \<leftarrow> cursor_redirect st c;
     case r of
       Inl err \<Rightarrow> Some (Inl err, st, c)
     | Inr _ \<Rightarrow> do {
         (space, st) \<leftarrow> tree_expand_once ops st c key newsize;
         case space of
           Some p \<Rightarrow> Some (Inr p, st, c)
         | None \<Rightarrow> do {
             (r, st, c) \<leftarrow> btree_leaf_split ops st c key;
             case r of
               Inl err \<Rightarrow> Some (Inl err, st, c)
             | Inr _ \<Rightarrow> do {
                 (space, st) \<leftarrow> tree_expand_once ops st c key newsize;
                 case space of
                   Some p \<Rightarrow> Some (Inr p, st, c)
                 | None \<Rightarrow> None } } } }"

section \<open>Empty trees\<close>

definition alloc_empty_btree ::
  "'l btree_ops \<Rightarrow> ('l, 'a) tree_scheme \<Rightarrow> ((errno + unit) \<times> ('l, 'a) tree_scheme) option" where
  "alloc_empty_btree ops st = do {
     (r, st) \<leftarrow> new_node st;
     case r of
       Inl err \<Rightarrow> Some (Inl err, st)
     | Inr rootblock \<Rightarrow> do {
         (r, st) \<leftarrow> new_leaf ops st;
         case r of
           Inl err \<Rightarrow> do {
             (_, st) \<leftarrow> bfree st rootblock 1;
             Some (Inl err, st) }
         | Inr leafblock \<Rightarrow> do {
             c_assert (\<not> has_root (t_root st));
             let st = put_block st rootblock (Node [(0, leafblock)]);
             let st = st\<lparr>t_root := \<lparr>root_depth = 1, root_block = rootblock\<rparr>\<rparr>;
             let st = add_log st (Bnode_root rootblock 1 leafblock 0 0);
             let st = add_log st (Balloc leafblock 1);
             st \<leftarrow> mark_buffer_dirty_non st rootblock;
             st \<leftarrow> mark_buffer_dirty_non st leafblock;
             Some (Inr (), st) } } }"

definition free_empty_btree :: "('l, 'a) tree_scheme \<Rightarrow> ((errno + unit) \<times> ('l, 'a) tree_scheme) option" where
  "free_empty_btree st =
     (if \<not> has_root (t_root st) then Some (Inr (), st)
      else do {
        c_assert (root_depth (t_root st) = 1);
        let rootbuf = root_block (t_root st);
        if cache st rootbuf = None then Some (Inl EIO, st)
        else do {
          es \<leftarrow> node_of st rootbuf;
          c_assert (length es = 1);
          (_, st) \<leftarrow> bfree st (snd (es ! 0)) 1;
          (_, st) \<leftarrow> bfree st rootbuf 1;
          Some (Inr (), st) } })"

section \<open>Deletion\<close>

text \<open>The climb of \<open>remove_index\<close>: the level whose current entry is not its first, if there is one.\<close>

fun sep_level :: "cursor \<Rightarrow> nat \<Rightarrow> nat option" where
  "sep_level c 0 = (if level_next c 0 = Some 1 then None else Some 0)"
| "sep_level c (Suc i) = (if level_next c (Suc i) = Some 1 then sep_level c i else Some (Suc i))"

definition remove_index ::
  "('l, 'a) tree_scheme \<Rightarrow> cursor \<Rightarrow> nat \<Rightarrow> (('l, 'a) tree_scheme \<times> cursor) option" where
  "remove_index st c level = do {
     es \<leftarrow> cursor_node st c level;
     next \<leftarrow> level_next c level;
     c_assert (0 < next \<and> next \<le> length es);
     let buffer = fst (path c ! level);
     let es = take (next - 1) es @ drop next es;
     let st = put_block st buffer (Node es);
     let c = set_next c level (next - 1);
     let st = mark_buffer_dirty st buffer;
     if next - 1 = length es then Some (st, c)
     else if next - 1 = 0 \<and> 0 < level then
       (let sep = fst (es ! 0)
        in case sep_level c (level - 1) of
             None \<Rightarrow> Some (st, c)
           | Some i \<Rightarrow> do {
               ps \<leftarrow> cursor_node st c i;
               n \<leftarrow> level_next c i;
               let ps = ps[n - 1 := (sep, snd (ps ! (n - 1)))];
               Some (mark_buffer_dirty (put_block st (fst (path c ! i)) (Node ps)) (fst (path c ! i)), c) })
     else Some (st, c) }"

definition merge_nodes :: "(nat \<times> nat) list \<Rightarrow> (nat \<times> nat) list \<Rightarrow> (nat \<times> nat) list" where
  "merge_nodes node node2 = node @ node2"

text \<open>The buffer has no other user; it leaves the cache, and the result of \<open>bfree\<close> is dropped.\<close>

definition blockput_free :: "('l, 'a) tree_scheme \<Rightarrow> nat \<Rightarrow> ('l, 'a) tree_scheme option" where
  "blockput_free st b = do {
     (_, st) \<leftarrow> bfree st b 1;
     Some (st\<lparr>cache := (cache st)(b := None)\<rparr>) }"

text \<open>
  What \<open>tree_chop\<close> keeps in its local variables: the last leaf and the last node of each level
  that have been dealt with, the level, the depth and \<open>suspend\<close>.
\<close>

record chop =
  ch_leafprev :: "nat option"
  ch_prev :: "nat option list"
  ch_level :: nat
  ch_levels :: nat
  ch_suspend :: int

definition chop_merge_leaf ::
  "'l btree_ops \<Rightarrow> ('l, 'a) tree_scheme \<Rightarrow> cursor \<Rightarrow> chop \<Rightarrow> nat
    \<Rightarrow> (('l, 'a) tree_scheme \<times> cursor \<times> chop) option" where
  "chop_merge_leaf ops st c ch leafbuf =
     (case ch_leafprev ch of
        None \<Rightarrow> Some (st, c, ch\<lparr>ch_leafprev := Some leafbuf\<rparr>)
      | Some p \<Rightarrow> do {
          this \<leftarrow> leaf_of st leafbuf;
          that \<leftarrow> leaf_of st p;
          if leaf_need ops this \<le> leaf_free ops that then do {
            merged \<leftarrow> leaf_merge ops that this;
            let st = put_block st p (Leaf merged);
            (st, c) \<leftarrow> remove_index st c (ch_level ch);
            let st = mark_buffer_dirty st p;
            st \<leftarrow> blockput_free st leafbuf;
            Some (st, c, ch) }
          else Some (st, c, ch\<lparr>ch_leafprev := Some leafbuf\<rparr>) })"

definition chop_merge_node ::
  "('l, 'a) tree_scheme \<Rightarrow> cursor \<Rightarrow> chop \<Rightarrow> (('l, 'a) tree_scheme \<times> cursor \<times> chop) option" where
  "chop_merge_node st c ch =
     (case ch_prev ch ! ch_level ch of
        None \<Rightarrow> do {
          (b, c) \<leftarrow> level_pop c;
          Some (st, c, ch\<lparr>ch_prev := (ch_prev ch)[ch_level ch := Some b]\<rparr>) }
      | Some p \<Rightarrow> do {
          c_assert (ch_level ch > 0);
          this \<leftarrow> cursor_node st c (ch_level ch);
          that \<leftarrow> node_of st p;
          if length this \<le> sub32 (node_max st) (length that) then do {
            let st = put_block st p (Node (merge_nodes that this));
            (st, c) \<leftarrow> remove_index st c (ch_level ch - 1);
            let st = mark_buffer_dirty st p;
            (b, c) \<leftarrow> level_pop c;
            st \<leftarrow> blockput_free st b;
            Some (st, c, ch) }
          else do {
            (b, c) \<leftarrow> level_pop c;
            Some (st, c, ch\<lparr>ch_prev := (ch_prev ch)[ch_level ch := Some b]\<rparr>) } })"

text \<open>\<open>n + 1\<close> is the depth: the ch_levels with a single node at the top are dropped.\<close>

fun chop_root :: "('l, 'a) tree_scheme \<Rightarrow> nat \<Rightarrow> nat option list \<Rightarrow> (('l, 'a) tree_scheme \<times> nat option list) option" where
  "chop_root st 0 prev = Some (st, prev)"
| "chop_root st (Suc n) prev = do {
     top \<leftarrow> prev ! 0;
     es \<leftarrow> node_of st top;
     if length es \<noteq> 1 then Some (st, prev)
     else do {
       below \<leftarrow> prev ! 1;
       let st = st\<lparr>t_root := (t_root st)\<lparr>root_block := below\<rparr>\<rparr>;
       st \<leftarrow> blockput_free st top;
       let st = st\<lparr>t_root := (t_root st)\<lparr>root_depth := n + 1\<rparr>\<rparr>;
       chop_root st n (tl prev) } }"

text \<open>
  Up through the finished nodes, \<open>n\<close> the level; the last component says whether the root was
  reached. After the node was popped, its position is read again when the walk is to be
  suspended, which is a read of a slot of the cursor that is no longer in use.
\<close>

fun chop_up ::
  "('l, 'a) tree_scheme \<Rightarrow> cursor \<Rightarrow> chop \<Rightarrow> nat \<Rightarrow> (('l, 'a) tree_scheme \<times> cursor \<times> chop \<times> bool) option" where
  "chop_up st c ch n = do {
     let ch = ch\<lparr>ch_level := n\<rparr>;
     fin \<leftarrow> (if ch_suspend ch \<noteq> 0 then Some True else level_finished st c n);
     if \<not> fin then Some (st, c, ch, False)
     else do {
       (st, c, ch) \<leftarrow> chop_merge_node st c ch;
       c_assert (ch_suspend ch \<noteq> - 1 \<or> n < cursor_len c);
       case n of
         0 \<Rightarrow> do {
           (st, prev) \<leftarrow> chop_root st (ch_levels ch - 1) (ch_prev ch);
           Some (st, c, ch\<lparr>ch_prev := prev\<rparr>, True) }
       | Suc n \<Rightarrow> chop_up st c ch n } }"

text \<open>Down again, \<open>n\<close> ch_levels, and on to the next leaf.\<close>

fun chop_down ::
  "('l, 'a) tree_scheme \<Rightarrow> cursor \<Rightarrow> nat \<Rightarrow> nat \<Rightarrow> ((errno + nat) \<times> cursor) option" where
  "chop_down st c n level = do {
     es \<leftarrow> cursor_node st c level;
     next \<leftarrow> level_next c level;
     c_assert (next < length es);
     let child = snd (es ! next);
     let c = set_next c level (next + 1);
     if cache st child = None then Some (Inl EIO, c)
     else case n of
         0 \<Rightarrow> Some (Inr child, c)
       | Suc n \<Rightarrow> do {
           c \<leftarrow> level_push c child (Some 0);
           chop_down st c n (level + 1) } }"

text \<open>
  A leaf operation frees extents through \<open>btree->ops->bfree\<close>; it returns the list of its calls,
  and drops their errors.
\<close>

fun bfree_extents :: "(nat \<times> nat) list \<Rightarrow> ('l, 'a) tree_scheme \<Rightarrow> ('l, 'a) tree_scheme option" where
  "bfree_extents [] st = Some st"
| "bfree_extents ((b, n) # xs) st = do { (_, st) \<leftarrow> bfree st b n; bfree_extents xs st }"

text \<open>The leaf walk; \<open>limit\<close> says that as many blocks were freed as were asked for.\<close>

partial_function (option) chop_leaves ::
  "'l btree_ops \<Rightarrow> bool \<Rightarrow> nat \<Rightarrow> ('l, 'a) tree_scheme \<Rightarrow> cursor \<Rightarrow> chop \<Rightarrow> nat
    \<Rightarrow> ((errno + int) \<times> ('l, 'a) tree_scheme) option" where
  "chop_leaves ops limit key st c ch leafbuf = do {
     (r, st, c) \<leftarrow> cursor_redirect st c;
     case r of
       Inl err \<Rightarrow> Some (Inl err, st)
     | Inr _ \<Rightarrow> do {
         leaf \<leftarrow> leaf_of st leafbuf;
         (r, leaf, frees) \<leftarrow> leaf_chop ops key leaf;
         st \<leftarrow> bfree_extents frees st;
         let st = put_block st leafbuf (Leaf leaf);
         case r of
           Inl err \<Rightarrow> Some (Inl err, st)
         | Inr changed \<Rightarrow> do {
             let st = (if changed then mark_buffer_dirty st leafbuf else st);
             (st, c, ch) \<leftarrow> chop_merge_leaf ops st c ch leafbuf;
             let ch = (if limit then ch\<lparr>ch_suspend := - 1\<rparr> else ch);
             (st, c, ch, done) \<leftarrow> chop_up st c ch (ch_level ch);
             if done then Some (Inr (ch_suspend ch), st)
             else do {
               (r, c) \<leftarrow> chop_down st c (ch_levels ch - 1 - ch_level ch) (ch_level ch);
               case r of
                 Inl err \<Rightarrow> Some (Inl err, st)
               | Inr leafbuf \<Rightarrow> chop_leaves ops limit key st c (ch\<lparr>ch_level := ch_levels ch - 1\<rparr>) leafbuf } } } }"

definition tree_chop ::
  "'l btree_ops \<Rightarrow> bool \<Rightarrow> nat \<Rightarrow> ('l, 'a) tree_scheme \<Rightarrow> ((errno + int) \<times> ('l, 'a) tree_scheme) option" where
  "tree_chop ops limit key st =
     (let depth = root_depth (t_root st)
      in if \<not> has_root (t_root st) then Some (Inr 0, st)
         else do {
           (r, c) \<leftarrow> probe ops st key (alloc_cursor st 0);
           (leafbuf, c) \<leftarrow> level_pop c;
           chop_leaves ops limit key st c
             \<lparr>ch_leafprev = None, ch_prev = replicate depth None, ch_level = depth - 1, ch_levels = depth, ch_suspend = 0\<rparr>
             leafbuf })"

end
