(* ===== verification/Tux_Tree.thy ===== *)
theory Tux_Tree
  imports Tux_Btree "HOL-Library.Multiset"
begin

text \<open>
  What the B-tree functions do: the tree is seen as the sequence of its leaves with their low
  keys, and a cursor as a place in this sequence. Descent finds the leaf that is responsible for
  a key, \<open>advance\<close> goes to the next, and \<open>insert_leaf\<close> inserts into the sequence.
\<close>

section \<open>The leaves of a tree\<close>

text \<open>The tree of height \<open>d\<close> at block \<open>b\<close> whose keys start at \<open>k\<close>.\<close>

fun leaves :: "('l, 'a) tree_scheme \<Rightarrow> nat \<Rightarrow> nat \<Rightarrow> nat \<Rightarrow> (nat \<times> nat) list" where
  "leaves st 0 k b = [(k, b)]"
| "leaves st (Suc d) k b = concat (map (\<lambda>(k, c). leaves st d k c) (case node_of st b of Some es \<Rightarrow> es | None \<Rightarrow> []))"

fun tblocks :: "('l, 'a) tree_scheme \<Rightarrow> nat \<Rightarrow> nat \<Rightarrow> nat list" where
  "tblocks st 0 b = [b]"
| "tblocks st (Suc d) b = b # concat (map (\<lambda>(k, c). tblocks st d c) (case node_of st b of Some es \<Rightarrow> es | None \<Rightarrow> []))"

fun tree_ok :: "('l, 'a) tree_scheme \<Rightarrow> nat \<Rightarrow> nat \<Rightarrow> nat \<Rightarrow> bool" where
  "tree_ok st 0 k b \<longleftrightarrow> leaf_of st b \<noteq> None"
| "tree_ok st (Suc d) k b \<longleftrightarrow> (\<exists>es. node_of st b = Some es \<and> es \<noteq> [] \<and> length es \<le> node_max st \<and> fst (hd es) = k
     \<and> sorted_wrt (<) (map fst es) \<and> (\<forall>(k, c)\<in>set es. tree_ok st d k c))"

definition seq :: "('l, 'a) tree_scheme \<Rightarrow> nat \<Rightarrow> (nat \<times> nat) list \<Rightarrow> (nat \<times> nat) list" where
  "seq st d es = concat (map (\<lambda>(k, c). leaves st d k c) es)"

lemma seq_simps [simp]:
  "seq st d [] = []" "seq st d ((k, c) # es) = leaves st d k c @ seq st d es"
  "seq st d (es @ es') = seq st d es @ seq st d es'"
  by (simp_all add: seq_def)

lemma leaves_Suc: "node_of st b = Some es \<Longrightarrow> leaves st (Suc d) k b = seq st d es"
  by (simp add: seq_def)

lemma tree_ok_Suc:
  assumes "tree_ok st (Suc d) k b"
  obtains es where "node_of st b = Some es" "es \<noteq> []" "length es \<le> node_max st" "fst (hd es) = k"
    "sorted_wrt (<) (map fst es)" "\<forall>(k, c)\<in>set es. tree_ok st d k c" "leaves st (Suc d) k b = seq st d es"
proof -
  from assms obtain es where es: "node_of st b = Some es" "es \<noteq> []" "length es \<le> node_max st" "fst (hd es) = k"
    "sorted_wrt (<) (map fst es)" "\<forall>(k, c)\<in>set es. tree_ok st d k c" by auto
  then show thesis using that leaves_Suc [OF es(1)] by blast
qed

lemma cached_node: "node_of st b = Some es \<Longrightarrow> cache st b = Some (Node es)"
  by (auto simp: node_of_def split: option.splits tblock.splits)

lemma tree_ok_cached: "tree_ok st d k b \<Longrightarrow> cache st b \<noteq> None"
  by (cases d) (auto simp: leaf_of_def dest: cached_node split: option.splits)

lemma leaves_first: "tree_ok st d k b \<Longrightarrow> \<exists>c ys. leaves st d k b = (k, c) # ys"
proof (induction d arbitrary: k b)
  case (Suc d)
  from Suc.prems obtain es where es: "es \<noteq> []" "fst (hd es) = k"
    "\<forall>(k, c)\<in>set es. tree_ok st d k c" "leaves st (Suc d) k b = seq st d es" by (rule tree_ok_Suc)
  from es(1,2) obtain c es' where "es = (k, c) # es'" by (cases es) auto
  then show ?case unfolding es(4) using Suc.IH [of k c] es(3) by auto
qed simp

lemma seq_first:
  "(\<And>k c. (k, c) \<in> set es \<Longrightarrow> tree_ok st d k c) \<Longrightarrow> es \<noteq> [] \<Longrightarrow> seq st d es \<noteq> [] \<and> fst (hd (seq st d es)) = fst (hd es)"
  using leaves_first [of st d] by (cases es) fastforce+

section \<open>Places\<close>

text \<open>The path leads to leaf \<open>kb\<close>, with \<open>pre\<close> to its left and \<open>post\<close> to its right.\<close>

fun at_leaf ::
  "('l, 'a) tree_scheme \<Rightarrow> nat \<Rightarrow> nat \<Rightarrow> nat \<Rightarrow> (nat \<times> nat option) list
    \<Rightarrow> (nat \<times> nat) list \<Rightarrow> nat \<times> nat \<Rightarrow> (nat \<times> nat) list \<Rightarrow> bool" where
  "at_leaf st 0 k b p pre kb post \<longleftrightarrow> p = [(b, None)] \<and> pre = [] \<and> kb = (k, b) \<and> post = []"
| "at_leaf st (Suc d) k b p pre kb post \<longleftrightarrow> (\<exists>es n k' c rest pre' post'. node_of st b = Some es
     \<and> p = (b, Some n) # rest \<and> 0 < n \<and> n \<le> length es \<and> es ! (n - 1) = (k', c)
     \<and> at_leaf st d k' c rest pre' kb post' \<and> pre = seq st d (take (n - 1) es) @ pre' \<and> post = post' @ seq st d (drop n es))"

lemma at_leafI:
  "node_of st b = Some es \<Longrightarrow> j < length es \<Longrightarrow> es ! j = (k', c) \<Longrightarrow> at_leaf st d k' c rest pre kb post \<Longrightarrow>
    at_leaf st (Suc d) k b ((b, Some (Suc j)) # rest) (seq st d (take j es) @ pre) kb (post @ seq st d (drop (Suc j) es))"
  by (simp add: Suc_le_eq)

lemma at_leaf_Suc:
  assumes "at_leaf st (Suc d) k b p pre kb post"
  obtains es j k' c rest pre' post' where "node_of st b = Some es" "p = (b, Some (Suc j)) # rest" "j < length es"
    "es ! j = (k', c)" "at_leaf st d k' c rest pre' kb post'"
    "pre = seq st d (take j es) @ pre'" "post = post' @ seq st d (drop (Suc j) es)"
proof -
  obtain es n k' c rest pre' post' where "node_of st b = Some es" "p = (b, Some n) # rest" "0 < n" "n \<le> length es"
    "es ! (n - 1) = (k', c)" "at_leaf st d k' c rest pre' kb post'" "pre = seq st d (take (n - 1) es) @ pre'"
    "post = post' @ seq st d (drop n es)" using assms by auto
  then show thesis using that [of es "n - 1"] by simp
qed

lemma seq_split: "j < length es \<Longrightarrow> es ! j = (k, c) \<Longrightarrow>
    seq st d es = seq st d (take j es) @ leaves st d k c @ seq st d (drop (Suc j) es)"
  by (subst id_take_nth_drop [of j es]) simp_all

lemma at_leaf_leaves: "at_leaf st d k b p pre kb post \<Longrightarrow> leaves st d k b = pre @ kb # post"
proof (induction d arbitrary: k b p pre post)
  case (Suc d)
  from Suc.prems obtain es j k' c rest pre' post' where a: "node_of st b = Some es" "j < length es"
    "es ! j = (k', c)" "at_leaf st d k' c rest pre' kb post'"
    "pre = seq st d (take j es) @ pre'" "post = post' @ seq st d (drop (Suc j) es)" by (rule at_leaf_Suc)
  show ?case unfolding leaves_Suc [OF a(1)] seq_split [OF a(2,3)] a(5,6) Suc.IH [OF a(4)] by simp
qed simp

lemma at_leaf_check:
  "at_leaf st d k b p pre kb post \<Longrightarrow> tree_ok st d k b \<Longrightarrow> key \<le> k \<Longrightarrow> cursor_check_path st p b key"
proof (induction d arbitrary: k b p pre post key)
  case (Suc d)
  from Suc.prems(1) obtain es j k' c rest pre' post' where a: "node_of st b = Some es" "p = (b, Some (Suc j)) # rest"
    "j < length es" "es ! j = (k', c)" "at_leaf st d k' c rest pre' kb post'" by (rule at_leaf_Suc)
  from Suc.prems(2) a(1) have es: "es \<noteq> []" "fst (hd es) = k" "sorted_wrt (<) (map fst es)"
    and sub: "tree_ok st d k' c" using nth_mem [OF a(3)] a(4) by auto
  have "k \<le> k'" using sorted_wrt_nth_less [OF es(3), of 0 j] a(3,4) es(1,2) by (cases j) (auto simp: hd_conv_nth)
  then show ?case using a Suc.IH [OF a(5) sub, of k'] Suc.prems(3) by simp
qed simp

lemma at_leaf_length: "at_leaf st d k b p pre kb post \<Longrightarrow> length p = Suc d \<and> fst (last p) = snd kb \<and> fst (hd p) = b"
proof (induction d arbitrary: k b p pre post)
  case (Suc d)
  from Suc.prems obtain es j k' c rest pre' post' where a: "p = (b, Some (Suc j)) # rest"
    "at_leaf st d k' c rest pre' kb post'" by (rule at_leaf_Suc)
  then show ?case using Suc.IH [OF a(2)] by auto
qed simp


section \<open>Trees and cursors\<close>

definition leaf_seq :: "('l, 'a) tree_scheme \<Rightarrow> (nat \<times> nat) list" where
  "leaf_seq st = leaves st (root_depth (t_root st)) 0 (root_block (t_root st))"

definition tree_blocks :: "('l, 'a) tree_scheme \<Rightarrow> nat list" where
  "tree_blocks st = tblocks st (root_depth (t_root st)) (root_block (t_root st))"

definition wf_tree :: "'l btree_ops \<Rightarrow> ('l, 'a) tree_scheme \<Rightarrow> bool" where
  "wf_tree ops st \<longleftrightarrow> has_root (t_root st) \<and> tree_ok st (root_depth (t_root st)) 0 (root_block (t_root st))
     \<and> distinct (tree_blocks st) \<and> sorted_wrt (<) (map fst (leaf_seq st))
     \<and> (\<forall>(k, b)\<in>set (leaf_seq st). leaf_sniff ops (the (leaf_of st b)))"

definition cursor_at ::
  "('l, 'a) tree_scheme \<Rightarrow> cursor \<Rightarrow> (nat \<times> nat) list \<Rightarrow> nat \<times> nat \<Rightarrow> (nat \<times> nat) list \<Rightarrow> bool" where
  "cursor_at st c pre kb post \<longleftrightarrow>
     at_leaf st (root_depth (t_root st)) 0 (root_block (t_root st)) (path c) pre kb post \<and> root_depth (t_root st) < maxlen c"

lemma cursor_at_leaves: "cursor_at st c pre kb post \<Longrightarrow> leaf_seq st = pre @ kb # post"
  unfolding cursor_at_def leaf_seq_def by (blast intro: at_leaf_leaves)

lemma cursor_at_check:
  assumes "tree_ok st (root_depth (t_root st)) 0 (root_block (t_root st))"
    "at_leaf st (root_depth (t_root st)) 0 (root_block (t_root st)) p pre kb post"
  shows "cursor_check st (c\<lparr>path := p\<rparr>)"
  unfolding cursor_check_def using at_leaf_check [OF assms(2,1), of 0] by simp

section \<open>Descent\<close>

lemma probe_next_facts:
  assumes "es \<noteq> []"
  obtains j where "probe_next es key = Suc j" "j < length es" "j = 0 \<or> fst (es ! j) \<le> key"
    "Suc j = length es \<or> key < fst (es ! Suc j)"
proof -
  obtain e es' where es: "es = e # es'" using assms by (cases es) auto
  let ?P = "\<lambda>(k, b). k \<le> key" and ?j = "length (takeWhile (\<lambda>(k, b). k \<le> key) es')"
  have le: "?j \<le> length es'" by (rule length_takeWhile_le)
  have "fst (es' ! i) \<le> key" if "Suc i = ?j" for i
    using set_takeWhileD [OF nth_mem, of i ?P es'] takeWhile_nth [of i ?P es'] that by (auto simp: split_beta)
  moreover have "key < fst (es' ! ?j)" if "?j < length es'"
    using nth_length_takeWhile [OF that] by (auto simp: split_beta)
  ultimately show thesis using that [of ?j] le es by (cases ?j) (auto simp: probe_next_def le_less)
qed

lemma path_append [simp]: "path (c\<lparr>path := p\<rparr>) = p" "maxlen (c\<lparr>path := p\<rparr>) = maxlen c"
  "c\<lparr>path := p, path := q\<rparr> = c\<lparr>path := q\<rparr>" "c\<lparr>path := path c\<rparr> = c"
  by simp_all

lemma level_push_ok: "length (path c) < maxlen c \<Longrightarrow> level_push c b x = Some (c\<lparr>path := path c @ [(b, x)]\<rparr>)"
  by (simp add: level_push_def cursor_len_def)

lemma level_pop_ok: "path c = q @ [(b, x)] \<Longrightarrow> level_pop c = Some (b, c\<lparr>path := q\<rparr>)"
  by (simp add: level_pop_def cursor_len_def)

lemma probe_levels_correct:
  assumes "tree_ok st d k b" "k \<le> key" "length (path c) + d < maxlen c"
    "\<forall>(k, b)\<in>set (leaves st d k b). leaf_sniff ops (the (leaf_of st b))"
    "\<And>p pre kb post. at_leaf st d k b p pre kb post \<Longrightarrow> cursor_check st (c\<lparr>path := path c @ p\<rparr>)"
  shows "\<exists>p pre k' b' post. probe_levels ops st key d b c = Some (Inr (), c\<lparr>path := path c @ p\<rparr>)
    \<and> at_leaf st d k b p pre (k', b') post \<and> k' \<le> key \<and> (post = [] \<or> key < fst (hd post))"
  using assms
proof (induction d arbitrary: k b c)
  case 0
  then show ?case using 0(5) [of "[(b, None)]" "[]" "(k, b)" "[]"] by (auto simp: level_push_ok)
next
  case (Suc d)
  from Suc.prems(1) obtain es where es: "node_of st b = Some es" "es \<noteq> []" "fst (hd es) = k"
    "\<forall>(k, c)\<in>set es. tree_ok st d k c" "leaves st (Suc d) k b = seq st d es" by (rule tree_ok_Suc)
  obtain j where j: "probe_next es key = Suc j" "j < length es" "j = 0 \<or> fst (es ! j) \<le> key"
    "Suc j = length es \<or> key < fst (es ! Suc j)" using probe_next_facts [OF es(2)] .
  obtain k' b' where kb: "es ! j = (k', b')" by (cases "es ! j")
  have sub: "tree_ok st d k' b'" using es(4) nth_mem [OF j(2)] kb by auto
  have le: "k' \<le> key" using j(3) kb es(2,3) Suc.prems(2) by (auto simp: hd_conv_nth)
  let ?c = "c\<lparr>path := path c @ [(b, Some (Suc j))]\<rparr>"
  have "\<exists>p pre k'' b'' post. probe_levels ops st key d b' ?c = Some (Inr (), ?c\<lparr>path := path ?c @ p\<rparr>)
    \<and> at_leaf st d k' b' p pre (k'', b'') post \<and> k'' \<le> key \<and> (post = [] \<or> key < fst (hd post))"
  proof (rule Suc.IH [OF sub le])
    show "\<forall>(k, b)\<in>set (leaves st d k' b'). leaf_sniff ops (the (leaf_of st b))"
      using Suc.prems(4) unfolding es(5) seq_split [OF j(2) kb] by simp
    show "length (path ?c) + d < maxlen ?c" using Suc.prems(3) by simp
    fix p pre kb post assume "at_leaf st d k' b' p pre kb post"
    from Suc.prems(5) [OF at_leafI [OF es(1) j(2) kb this, of k]]
    show "cursor_check st (?c\<lparr>path := path ?c @ p\<rparr>)" by simp
  qed
  then obtain p pre k'' b'' post where r: "probe_levels ops st key d b' ?c = Some (Inr (), c\<lparr>path := path c @ (b, Some (Suc j)) # p\<rparr>)"
    "at_leaf st d k' b' p pre (k'', b'') post" "k'' \<le> key" "post = [] \<or> key < fst (hd post)" by auto
  have right: "drop (Suc j) es \<noteq> [] \<longrightarrow> key < fst (hd (seq st d (drop (Suc j) es)))"
  proof
    assume "drop (Suc j) es \<noteq> []"
    moreover have "\<And>k c. (k, c) \<in> set (drop (Suc j) es) \<Longrightarrow> tree_ok st d k c" using es(4) in_set_dropD by fast
    ultimately have "fst (hd (seq st d (drop (Suc j) es))) = fst (hd (drop (Suc j) es))" using seq_first by blast
    then show "key < fst (hd (seq st d (drop (Suc j) es)))" using j(4) \<open>drop (Suc j) es \<noteq> []\<close> by (simp add: hd_drop_conv_nth)
  qed
  have "post @ seq st d (drop (Suc j) es) = [] \<or> key < fst (hd (post @ seq st d (drop (Suc j) es)))"
    using r(4) right by (cases post; cases "drop (Suc j) es = []") auto
  moreover have "probe_levels ops st key (Suc d) b c = Some (Inr (), c\<lparr>path := path c @ (b, Some (Suc j)) # p\<rparr>)"
    using es(1,2) j(1) kb tree_ok_cached [OF sub] r(1) Suc.prems(3) by (simp add: level_push_ok)
  ultimately show ?case using at_leafI [OF es(1) j(2) kb r(2), of k] r(3) by blast
qed

lemma probe_finds:
  assumes "wf_tree ops st" "path c = []" "root_depth (t_root st) < maxlen c"
  shows "\<exists>c' pre k b post. probe ops st key c = Some (Inr (), c') \<and> cursor_at st c' pre (k, b) post
    \<and> maxlen c' = maxlen c \<and> leaf_seq st = pre @ (k, b) # post
    \<and> (\<forall>x\<in>set pre. fst x < key) \<and> k \<le> key \<and> (\<forall>x\<in>set post. key < fst x)"
proof -
  let ?r = "t_root st"
  have wf: "has_root ?r" "tree_ok st (root_depth ?r) 0 (root_block ?r)" "sorted_wrt (<) (map fst (leaf_seq st))"
    "\<forall>(k, b)\<in>set (leaf_seq st). leaf_sniff ops (the (leaf_of st b))" using assms(1) by (auto simp: wf_tree_def)
  have "\<exists>p pre k b post. probe_levels ops st key (root_depth ?r) (root_block ?r) c = Some (Inr (), c\<lparr>path := path c @ p\<rparr>)
    \<and> at_leaf st (root_depth ?r) 0 (root_block ?r) p pre (k, b) post \<and> k \<le> key \<and> (post = [] \<or> key < fst (hd post))"
    using wf(4) assms(2,3) cursor_at_check [OF wf(2)] by (intro probe_levels_correct wf(2)) (auto simp: leaf_seq_def)
  then obtain p pre k b post where r: "probe_levels ops st key (root_depth ?r) (root_block ?r) c = Some (Inr (), c\<lparr>path := p\<rparr>)"
    "at_leaf st (root_depth ?r) 0 (root_block ?r) p pre (k, b) post" "k \<le> key" "post = [] \<or> key < fst (hd post)"
    using assms(2) by auto
  have at: "cursor_at st (c\<lparr>path := p\<rparr>) pre (k, b) post" using r(2) assms(3) by (simp add: cursor_at_def)
  have ls: "leaf_seq st = pre @ (k, b) # post" by (rule cursor_at_leaves [OF at])
  have "\<forall>x\<in>set pre. fst x < key" using wf(3) r(3) unfolding ls by (fastforce simp: sorted_wrt_append)
  moreover have "\<forall>x\<in>set post. key < fst x" using wf(3) r(4) unfolding ls by (cases post) (auto simp: sorted_wrt_append)
  moreover have "probe ops st key c = Some (Inr (), c\<lparr>path := p\<rparr>)"
    using r(1) wf(1) tree_ok_cached [OF wf(2)] by (simp add: probe_def)
  ultimately show ?thesis using at ls r(3) by fastforce
qed

text \<open>C6. 
  \<open>probe\<close> finds the leaf responsible for a key: the last one whose low key is not greater.
\<close>
theorem probe_correct:
  assumes "wf_tree ops st" "path c = []" "root_depth (t_root st) < maxlen c"
  shows "\<exists>c' pre k b post. probe ops st key c = Some (Inr (), c') \<and> cursor_at st c' pre (k, b) post
    \<and> maxlen c' = maxlen c \<and> leaf_seq st = pre @ (k, b) # post
    \<and> (\<forall>x\<in>set pre. fst x < key) \<and> k \<le> key \<and> (\<forall>x\<in>set post. key < fst x)"
  by (rule probe_finds [OF assms])

section \<open>Traversal\<close>

lemma path_nth [simp]: "(up @ x # r) ! length up = x" by simp

lemma advance_down_step:
  assumes "path c = up @ [(b, Some n)]" "node_of st b = Some es" "n < length es" "es ! n = (k', c')"
    "cache st c' \<noteq> None" "Suc (length up) < maxlen c"
  shows "advance_down st (Suc 0) (length up) c =
      (let c = c\<lparr>path := up @ [(b, Some (Suc n)), (c', None)]\<rparr> in do { c_assert (cursor_check st c); Some (Inr True, c) })"
    "advance_down st (Suc (Suc d)) (length up) c =
      advance_down st (Suc d) (Suc (length up)) (c\<lparr>path := up @ [(b, Some (Suc n)), (c', Some 0)]\<rparr>)"
proof -
  obtain y where y: "cache st c' = Some y" using assms(5) by auto
  note d = cursor_node_def level_next_def set_next_def level_push_ok Let_def
  show "advance_down st (Suc 0) (length up) c =
      (let c = c\<lparr>path := up @ [(b, Some (Suc n)), (c', None)]\<rparr> in do { c_assert (cursor_check st c); Some (Inr True, c) })"
    by (subst advance_down.simps) (use assms y in \<open>simp add: d\<close>)
  show "advance_down st (Suc (Suc d)) (length up) c =
      advance_down st (Suc d) (Suc (length up)) (c\<lparr>path := up @ [(b, Some (Suc n)), (c', Some 0)]\<rparr>)"
    by (subst advance_down.simps) (use assms y in \<open>simp add: d del: advance_down.simps\<close>)
qed

lemma advance_up_pop:
  "path c = up @ [(b, Some n), x] \<Longrightarrow> node_of st b = Some es \<Longrightarrow>
    advance_up st (Suc (length up)) c =
      (if n = length es then advance_up st (length up) (c\<lparr>path := up @ [(b, Some n)]\<rparr>)
       else Some (Some (length up), c\<lparr>path := up @ [(b, Some n)]\<rparr>))"
  using level_pop_ok [of c "up @ [(b, Some n)]" "fst x" "snd x"]
  by (simp add: level_finished_def cursor_node_def level_next_def)

declare advance_up.simps [simp del] advance_down.simps [simp del]

text \<open>Down to the leftmost leaf behind entry \<open>n\<close> of the node that the cursor ends at.\<close>

lemma advance_down_correct:
  assumes "node_of st b = Some es" "n < length es" "\<forall>(k, c)\<in>set es. tree_ok st d k c"
    "path c = up @ [(b, Some n)]" "length up + Suc d < maxlen c" "es ! n = (k', c')"
    "\<And>rest kb' post. at_leaf st d k' c' rest [] kb' post \<Longrightarrow> cursor_check st (c\<lparr>path := up @ (b, Some (Suc n)) # rest\<rparr>)"
  shows "\<exists>rest kb' post. advance_down st (Suc d) (length up) c = Some (Inr True, c\<lparr>path := up @ (b, Some (Suc n)) # rest\<rparr>)
    \<and> at_leaf st d k' c' rest [] kb' post"
  using assms
proof (induction d arbitrary: b es n c up k' c')
  case 0
  have "tree_ok st 0 k' c'" using 0(2,3,6) nth_mem by fastforce
  then have "cache st c' \<noteq> None" by (rule tree_ok_cached)
  then show ?case using advance_down_step(1) [OF 0(4,1,2,6)] 0(5) 0(7) [of "[(c', None)]" "(k', c')" "[]"]
    by (auto simp: Let_def)
next
  case (Suc d)
  have sub: "tree_ok st (Suc d) k' c'" using Suc.prems(2,3,6) nth_mem by fastforce
  from sub obtain es' where es': "node_of st c' = Some es'" "es' \<noteq> []" "\<forall>(k, c)\<in>set es'. tree_ok st d k c" by (rule tree_ok_Suc)
  obtain k2 c2 where e0: "es' ! 0 = (k2, c2)" by (cases "es' ! 0")
  have down: "at_leaf st (Suc d) k' c' ((c', Some (Suc 0)) # rest) [] kb' (post @ seq st d (drop (Suc 0) es'))"
    if "at_leaf st d k2 c2 rest [] kb' post" for rest kb' post
    using at_leafI [OF es'(1) _ e0 that, of k'] es'(2) by simp
  let ?up = "up @ [(b, Some (Suc n))]"
  let ?c = "c\<lparr>path := ?up @ [(c', Some 0)]\<rparr>"
  have chk: "cursor_check st (?c\<lparr>path := ?up @ (c', Some (Suc 0)) # rest\<rparr>)" if "at_leaf st d k2 c2 rest [] kb' post" for rest kb' post
    using Suc.prems(7) [OF down [OF that]] by simp
  obtain rest kb' post where r: "advance_down st (Suc d) (length ?up) ?c = Some (Inr True, ?c\<lparr>path := ?up @ (c', Some (Suc 0)) # rest\<rparr>)"
    "at_leaf st d k2 c2 rest [] kb' post"
    using Suc.IH [OF es'(1) _ es'(3) _ _ e0 chk] es'(2) Suc.prems(5) by fastforce
  have "advance_down st (Suc (Suc d)) (length up) c = Some (Inr True, c\<lparr>path := up @ (b, Some (Suc n)) # (c', Some (Suc 0)) # rest\<rparr>)"
    using r(1) Suc.prems(5) tree_ok_cached [OF sub] by (subst advance_down_step(2) [OF Suc.prems(4,1,2,6)]) simp_all
  with down [OF r(2)] show ?case by blast
qed

lemma seq_Nil: "\<forall>(k, c)\<in>set es. tree_ok st d k c \<Longrightarrow> seq st d es = [] \<longleftrightarrow> es = []"
  using seq_first [of es st d] by (cases es) auto

lemma at_leaf_Suc_ok:
  assumes "at_leaf st (Suc d) k b p pre kb post" "tree_ok st (Suc d) k b"
  obtains es j k' c rest pre' post' where "node_of st b = Some es" "p = (b, Some (Suc j)) # rest" "j < length es"
    "es ! j = (k', c)" "at_leaf st d k' c rest pre' kb post'" "tree_ok st d k' c" "\<forall>(k, c)\<in>set es. tree_ok st d k c"
    "pre = seq st d (take j es) @ pre'" "post = post' @ seq st d (drop (Suc j) es)"
    "seq st d (drop (Suc j) es) = [] \<longleftrightarrow> Suc j = length es"
proof -
  from assms(1) obtain es j k' c rest pre' post' where a: "node_of st b = Some es" "p = (b, Some (Suc j)) # rest"
    "j < length es" "es ! j = (k', c)" "at_leaf st d k' c rest pre' kb post'" "pre = seq st d (take j es) @ pre'"
    "post = post' @ seq st d (drop (Suc j) es)" by (rule at_leaf_Suc)
  have subs: "\<forall>(k, c)\<in>set es. tree_ok st d k c" using assms(2) a(1) by auto
  then have "\<forall>(k, c)\<in>set (drop (Suc j) es). tree_ok st d k c" by (auto dest: in_set_dropD)
  from seq_Nil [OF this] have "seq st d (drop (Suc j) es) = [] \<longleftrightarrow> Suc j = length es" using a(3) by auto
  moreover have "tree_ok st d k' c" using subs nth_mem [OF a(3)] a(4) by auto
  ultimately show thesis using that a subs by blast
qed

lemma advance_up_last:
  "at_leaf st d k b p pre kb [] \<Longrightarrow> tree_ok st d k b \<Longrightarrow> path c = up @ p \<Longrightarrow>
    \<exists>x. advance_up st (length up + d) c = advance_up st (length up) (c\<lparr>path := up @ [(b, x)]\<rparr>)"
proof (induction d arbitrary: k b p pre up)
  case 0
  then have "c = c\<lparr>path := up @ [(b, None)]\<rparr>" by (cases c) simp
  then show ?case by (metis add.right_neutral)
next
  case (Suc d)
  from Suc.prems(1,2) obtain es j k' c' rest pre' post' where a: "node_of st b = Some es" "p = (b, Some (Suc j)) # rest"
    "at_leaf st d k' c' rest pre' kb post'" "tree_ok st d k' c'" "[] = post' @ seq st d (drop (Suc j) es)"
    "seq st d (drop (Suc j) es) = [] \<longleftrightarrow> Suc j = length es" by (rule at_leaf_Suc_ok)
  have post: "post' = []" "Suc j = length es" using a(5,6) by simp_all
  obtain x where "advance_up st (length (up @ [(b, Some (Suc j))]) + d) c =
      advance_up st (Suc (length up)) (c\<lparr>path := up @ [(b, Some (Suc j)), (c', x)]\<rparr>)"
    using Suc.IH [OF a(3) [unfolded post] a(4), of "up @ [(b, Some (Suc j))]"] Suc.prems(3) a(2) by auto
  then show ?case using advance_up_pop [OF _ a(1), of "c\<lparr>path := up @ [(b, Some (Suc j)), (c', x)]\<rparr>" up "Suc j"] post(2) by auto
qed

lemma advance_next:
  assumes "at_leaf st d k b p pre kb post" "tree_ok st d k b" "path c = up @ p" "length up + d < maxlen c" "post \<noteq> []"
    "\<And>p pre kb post. at_leaf st d k b p pre kb post \<Longrightarrow> cursor_check st (c\<lparr>path := up @ p\<rparr>)"
  shows "\<exists>lev c' p'. advance_up st (length up + d) c = Some (Some lev, c')
       \<and> advance_down st (length up + d - lev) lev c' = Some (Inr True, c\<lparr>path := up @ p'\<rparr>)
       \<and> at_leaf st d k b p' (pre @ [kb]) (hd post) (tl post)"
  using assms
proof (induction d arbitrary: k b p pre post up)
  case (Suc d)
  from Suc.prems(1,2) obtain es j k' c' rest pre' post' where a: "node_of st b = Some es" "p = (b, Some (Suc j)) # rest"
    "j < length es" "es ! j = (k', c')" "at_leaf st d k' c' rest pre' kb post'" "tree_ok st d k' c'"
    "\<forall>(k, c)\<in>set es. tree_ok st d k c" "pre = seq st d (take j es) @ pre'" "post = post' @ seq st d (drop (Suc j) es)"
    "seq st d (drop (Suc j) es) = [] \<longleftrightarrow> Suc j = length es" by (rule at_leaf_Suc_ok)
  let ?up = "up @ [(b, Some (Suc j))]"
  have pa: "path c = ?up @ rest" "length ?up + d < maxlen c" using Suc.prems(3,4) a(2) by simp_all
  show ?case
  proof (cases "post' = []")
    case False
    have chk: "cursor_check st (c\<lparr>path := ?up @ p\<rparr>)" if "at_leaf st d k' c' p pre kb post" for p pre kb post
      using Suc.prems(6) [OF at_leafI [OF a(1,3,4) that, of k]] by simp
    have "\<exists>lev c1 p'. advance_up st (length ?up + d) c = Some (Some lev, c1)
       \<and> advance_down st (length ?up + d - lev) lev c1 = Some (Inr True, c\<lparr>path := ?up @ p'\<rparr>)
       \<and> at_leaf st d k' c' p' (pre' @ [kb]) (hd post') (tl post')"
      by (rule Suc.IH [OF a(5,6) pa False]) (rule chk)
    then obtain lev c1 p' where r: "advance_up st (length ?up + d) c = Some (Some lev, c1)"
       "advance_down st (length ?up + d - lev) lev c1 = Some (Inr True, c\<lparr>path := ?up @ p'\<rparr>)"
       "at_leaf st d k' c' p' (pre' @ [kb]) (hd post') (tl post')" by blast
    have "at_leaf st (Suc d) k b ((b, Some (Suc j)) # p') (pre @ [kb]) (hd post) (tl post)"
      using at_leafI [OF a(1,3,4) r(3), of k] False unfolding a(8,9) by simp
    then show ?thesis using r(1,2) by fastforce
  next
    case True
    then have j: "Suc j < length es" using Suc.prems(5) a(3,9,10) by auto
    obtain k2 c2 where e2: "es ! Suc j = (k2, c2)" by (cases "es ! Suc j")
    obtain x where "advance_up st (length ?up + d) c = advance_up st (Suc (length up)) (c\<lparr>path := up @ [(b, Some (Suc j)), (c', x)]\<rparr>)"
      using advance_up_last [OF a(5) [unfolded True] a(6) pa(1)] by auto
    then have up: "advance_up st (length up + Suc d) c = Some (Some (length up), c\<lparr>path := ?up\<rparr>)"
      using advance_up_pop [OF _ a(1), of "c\<lparr>path := up @ [(b, Some (Suc j)), (c', x)]\<rparr>" up "Suc j"] j by auto
    have at2: "at_leaf st (Suc d) k b ((b, Some (Suc (Suc j))) # rest) (pre @ [kb]) kb' (post2 @ seq st d (drop (Suc (Suc j)) es))"
      if "at_leaf st d k2 c2 rest [] kb' post2" for rest kb' post2
      using at_leafI [OF a(1) j e2 that, of k] seq_split [OF a(3,4), of st d] at_leaf_leaves [OF a(5)] True a(8)
        take_Suc_conv_app_nth [OF a(3)] a(4) by simp
    have "cursor_check st ((c\<lparr>path := ?up\<rparr>)\<lparr>path := up @ (b, Some (Suc (Suc j))) # rest\<rparr>)"
      if "at_leaf st d k2 c2 rest [] kb' post2" for rest kb' post2
      using Suc.prems(6) [OF at2 [OF that]] by simp
    from advance_down_correct [OF a(1) j a(7) _ _ e2 this]
    obtain rest kb' post2 where r: "advance_down st (Suc d) (length up) (c\<lparr>path := ?up\<rparr>) =
        Some (Inr True, c\<lparr>path := up @ (b, Some (Suc (Suc j))) # rest\<rparr>)" "at_leaf st d k2 c2 rest [] kb' post2"
      using Suc.prems(4) by fastforce
    have "post = kb' # post2 @ seq st d (drop (Suc (Suc j)) es)"
      using at_leaf_leaves [OF r(2)] seq_split [of 0 "drop (Suc j) es" k2 c2 st d] j e2 unfolding a(9) True by simp
    then show ?thesis using up r(1) at2 [OF r(2)] by auto
  qed
qed simp

text \<open>C7. 
  \<open>advance\<close> goes on to the next leaf, and at the last one reports the end with the cursor released.
\<close>
theorem advance_correct:
  assumes "wf_tree ops st" "cursor_at st c pre kb post"
  shows "case post of
      [] \<Rightarrow> advance st c = Some (Inr False, c\<lparr>path := []\<rparr>)
    | kb' # post' \<Rightarrow> \<exists>c'. advance st c = Some (Inr True, c') \<and> cursor_at st c' (pre @ [kb]) kb' post' \<and> maxlen c' = maxlen c"
proof -
  let ?r = "t_root st"
  have ok: "tree_ok st (root_depth ?r) 0 (root_block ?r)" using assms(1) by (simp add: wf_tree_def)
  have at: "at_leaf st (root_depth ?r) 0 (root_block ?r) (path c) pre kb post" and max: "root_depth ?r < maxlen c"
    using assms(2) by (simp_all add: cursor_at_def)
  show ?thesis
  proof (cases post)
    case Nil
    obtain x where "advance_up st (length [] + root_depth ?r) c = advance_up st (length []) (c\<lparr>path := [] @ [(root_block ?r, x)]\<rparr>)"
      using advance_up_last [OF at [unfolded Nil] ok, of c "[]"] by auto
    then show ?thesis by (simp add: advance_def Nil advance_up.simps level_pop_def cursor_len_def)
  next
    case (Cons kb' post')
    let ?up = "[] :: (nat \<times> nat option) list"
    have "\<exists>lev c' p'. advance_up st (length ?up + root_depth ?r) c = Some (Some lev, c')
       \<and> advance_down st (length ?up + root_depth ?r - lev) lev c' = Some (Inr True, c\<lparr>path := ?up @ p'\<rparr>)
       \<and> at_leaf st (root_depth ?r) 0 (root_block ?r) p' (pre @ [kb]) (hd post) (tl post)"
      by (rule advance_next [OF at ok]) (use max Cons cursor_at_check [OF ok] in auto)
    then obtain lev c' p' where r: "advance_up st (root_depth ?r) c = Some (Some lev, c')"
      "advance_down st (root_depth ?r - lev) lev c' = Some (Inr True, c\<lparr>path := p'\<rparr>)"
      "at_leaf st (root_depth ?r) 0 (root_block ?r) p' (pre @ [kb]) kb' post'" by (auto simp: Cons)
    have "cursor_at st (c\<lparr>path := p'\<rparr>) (pre @ [kb]) kb' post'" using r(3) max by (simp add: cursor_at_def)
    then show ?thesis using r(1,2) by (fastforce simp: advance_def Cons)
  qed
qed

lemma next_keyp_at:
  "at_leaf st d k b p pre kb post \<Longrightarrow> tree_ok st d k b \<Longrightarrow> path c = up @ p \<Longrightarrow>
    next_keyp st c (length up + d) = (if post = [] then next_keyp st c (length up) else Some (Some (fst (hd post))))"
proof (induction d arbitrary: k b p pre post up)
  case (Suc d)
  from Suc.prems(1,2) obtain es j k' c' rest pre' post' where a: "node_of st b = Some es" "p = (b, Some (Suc j)) # rest" "j < length es"
    "at_leaf st d k' c' rest pre' kb post'" "tree_ok st d k' c'" "\<forall>(k, c)\<in>set es. tree_ok st d k c"
    "post = post' @ seq st d (drop (Suc j) es)" "seq st d (drop (Suc j) es) = [] \<longleftrightarrow> Suc j = length es" by (rule at_leaf_Suc_ok)
  let ?up = "up @ [(b, Some (Suc j))]"
  have IH: "next_keyp st c (Suc (length up) + d) = (if post' = [] then next_keyp st c (Suc (length up)) else Some (Some (fst (hd post'))))"
    using Suc.IH [OF a(4,5), of ?up] Suc.prems(3) a(2) by simp
  have here: "next_keyp st c (Suc (length up)) = (if Suc j = length es then next_keyp st c (length up) else Some (Some (fst (es ! Suc j))))"
    using a(1,2,3) Suc.prems(3) by (simp add: level_finished_def cursor_node_def level_next_def)
  have "fst (hd (seq st d (drop (Suc j) es))) = fst (es ! Suc j)" if "Suc j \<noteq> length es"
    using seq_first [of "drop (Suc j) es" st d] a(3,6) that by (auto simp: hd_drop_conv_nth dest: in_set_dropD)
  then show ?case using IH here a(7,8) by (auto split: if_splits)
qed simp

text \<open>
  \<open>next_key\<close> is the low key of the next leaf, and all ones at the last leaf.
\<close>
theorem next_key_correct:
  assumes "wf_tree ops st" "cursor_at st c pre kb post"
  shows "next_key st c (root_depth (t_root st)) = Some (case post of [] \<Rightarrow> 2 ^ 64 - 1 | (k, b) # _ \<Rightarrow> k)"
proof -
  have "tree_ok st (root_depth (t_root st)) 0 (root_block (t_root st))" using assms(1) by (simp add: wf_tree_def)
  from next_keyp_at [OF _ this, of "path c" pre kb post c "[]"] assms(2)
  show ?thesis by (auto simp: next_key_def cursor_at_def split: list.splits)
qed

end
