(* ===== verification/Tux_Insert.thy ===== *)
theory Tux_Insert
  imports Tux_Tree
begin

text \<open>
  Insertion into the B-tree: \<open>insert_leaf\<close> puts the new leaf behind the leaf of the cursor,
  splits the full index nodes on the way up and adds a level when the root was full.
\<close>

section \<open>Fields of the state\<close>

lemma put_block_fields [simp]:
  "volblocks (put_block st b x) = volblocks st"
  "used (put_block st b x) = used st" "wf_sb (put_block st b x) = wf_sb st"
  "freeblocks (put_block st b x) = freeblocks st" "t_root (put_block st b x) = t_root st"
  "node_max (put_block st b x) = node_max st" "atomic (put_block st b x) = atomic st"
  "t_dirty (put_block st b x) = t_dirty st" "cache (put_block st b x) = (cache st)(b \<mapsto> x)"
  by (auto simp: put_block_def used_def fun_eq_iff mapsize_def mapshift_def wf_sb_def wf_bitmap_def free_count_def blocksize_def)

lemma add_log_fields [simp]:
  "volblocks (add_log st e) = volblocks st"
  "used (add_log st e) = used st" "wf_sb (add_log st e) = wf_sb st" "freeblocks (add_log st e) = freeblocks st"
  "t_root (add_log st e) = t_root st" "node_max (add_log st e) = node_max st" "atomic (add_log st e) = atomic st"
  "t_dirty (add_log st e) = t_dirty st" "cache (add_log st e) = cache st"
  by (auto simp: add_log_def used_def fun_eq_iff mapsize_def mapshift_def wf_sb_def wf_bitmap_def free_count_def blocksize_def)

lemma mark_dirty_fields [simp]:
  "volblocks (mark_buffer_dirty st b) = volblocks st"
  "used (mark_buffer_dirty st b) = used st" "wf_sb (mark_buffer_dirty st b) = wf_sb st"
  "freeblocks (mark_buffer_dirty st b) = freeblocks st" "t_root (mark_buffer_dirty st b) = t_root st"
  "node_max (mark_buffer_dirty st b) = node_max st" "atomic (mark_buffer_dirty st b) = atomic st"
  "t_dirty (mark_buffer_dirty st b) = (t_dirty st)(b := True)" "cache (mark_buffer_dirty st b) = cache st"
  by (auto simp: mark_buffer_dirty_def used_def fun_eq_iff mapsize_def mapshift_def wf_sb_def wf_bitmap_def free_count_def
      blocksize_def)

lemma set_root_fields [simp]:
  "used (st\<lparr>t_root := r\<rparr>) = used st" "wf_sb (st\<lparr>t_root := r\<rparr>) = wf_sb st"
  by (auto simp: used_def fun_eq_iff mapsize_def mapshift_def wf_sb_def wf_bitmap_def free_count_def blocksize_def)

lemma alloc_tree_fields [simp]:
  "t_root (alloc_extent st w n) = t_root st" "node_max (alloc_extent st w n) = node_max st"
  "atomic (alloc_extent st w n) = atomic st" "t_dirty (alloc_extent st w n) = t_dirty st"
  "t_defree (alloc_extent st w n) = t_defree st" "cache (alloc_extent st w n) = cache st" "freeblocks (alloc_extent st w n) = freeblocks st - int n"
  by (simp_all add: alloc_extent_def)

lemma node_of_cache: "node_of st b = (case cache st b of Some (Node es) \<Rightarrow> Some es | _ \<Rightarrow> None)"
  by (simp add: node_of_def)

lemma rollup_non_dirty: "(atomic st \<longrightarrow> t_dirty st b) \<Longrightarrow> mark_buffer_rollup_non st b = Some (mark_buffer_dirty st b)"
  by (auto simp: mark_buffer_rollup_non_def mark_buffer_rollup_def mark_buffer_dirty_def fun_upd_idem)

lemma dirty_non_dirty: "(atomic st \<longrightarrow> t_dirty st b) \<Longrightarrow> mark_buffer_dirty_non st b = Some (mark_buffer_dirty st b)"
  by (auto simp: mark_buffer_dirty_non_def mark_buffer_dirty_def fun_upd_idem)

section \<open>Growing states\<close>

text \<open>
  \<open>st'\<close> comes from \<open>st\<close> by allocating at most \<open>n\<close> blocks and writing only new blocks
  and the index nodes in \<open>M\<close>.
\<close>

definition grows :: "nat set \<Rightarrow> nat \<Rightarrow> ('l, 'a) tree_scheme \<Rightarrow> ('l, 'a) tree_scheme \<Rightarrow> bool" where
  "grows M n st st' \<longleftrightarrow> wf_sb st' \<and> node_max st' = node_max st \<and> atomic st' = atomic st \<and> t_root st' = t_root st
     \<and> freeblocks st - int n \<le> freeblocks st' \<and> (\<forall>x. used st x \<longrightarrow> used st' x) \<and> (\<forall>x. t_dirty st x \<longrightarrow> t_dirty st' x)
     \<and> (\<forall>x. used st x \<and> x \<notin> M \<longrightarrow> cache st' x = cache st x)
     \<and> (\<forall>x l. used st x \<and> cache st x = Some (Leaf l) \<longrightarrow> cache st' x = Some (Leaf l))"

lemma growsD:
  assumes "grows M n st st'"
  shows "wf_sb st'" "node_max st' = node_max st" "atomic st' = atomic st" "t_root st' = t_root st"
    "freeblocks st - int n \<le> freeblocks st'" "used st x \<Longrightarrow> used st' x" "t_dirty st x \<Longrightarrow> t_dirty st' x"
    "used st x \<Longrightarrow> x \<notin> M \<Longrightarrow> cache st' x = cache st x"
    "used st x \<Longrightarrow> cache st x = Some (Leaf l) \<Longrightarrow> cache st' x = Some (Leaf l)"
  using assms by (auto simp: grows_def)

lemma grows_refl: "wf_sb st \<Longrightarrow> grows M n st st"
  by (simp add: grows_def)

lemma grows_trans:
  assumes "grows M n st st1" "grows M' n' st1 st2" "\<And>x. x \<in> M' \<Longrightarrow> used st x \<Longrightarrow> x \<in> M" "n + n' \<le> m"
  shows "grows M m st st2"
  using assms unfolding grows_def by (auto 0 3)

lemma grows_mono: "grows M n st st' \<Longrightarrow> M \<subseteq> M' \<Longrightarrow> n \<le> n' \<Longrightarrow> grows M' n' st st'"
  unfolding grows_def by auto

lemma grows_put:
  assumes "wf_sb st" "b \<in> M" "node_of st b \<noteq> None"
  shows "grows M n st (put_block st b x)"
  using assms by (auto simp: grows_def node_of_cache split: option.splits tblock.splits)

lemma grows_put_new: "wf_sb st \<Longrightarrow> \<not> used st b \<Longrightarrow> grows M n st (put_block st b x)"
  by (auto simp: grows_def)

lemma grows_log: "wf_sb st \<Longrightarrow> grows M n st (add_log st e)" by (simp add: grows_def)

lemma grows_dirty: "wf_sb st \<Longrightarrow> grows M n st (mark_buffer_dirty st b)" by (simp add: grows_def)

lemma new_block_ok:
  assumes "wf_sb st" "0 < freeblocks st"
  obtains b st' where "new_block st = Some (Inr b, st')" "\<not> used st b" "\<And>x. used st' x \<longleftrightarrow> used st x \<or> x = b"
    "grows {} 1 st st'" "cache st' = cache st" "t_dirty st' = t_dirty st" "b < volblocks st" "volblocks st' = volblocks st"
    "freeblocks st' = freeblocks st - 1" "t_defree st' = t_defree st"
proof -
  from assms have full: "balloc st 1 \<noteq> Some (Inl ENOSPC, st)" using balloc_one_full by fastforce
  obtain w where w: "balloc st 1 = Some (Inr w, alloc_extent st w 1)" "extent_ok st w 1" "free_window (used st) w 1"
    by (rule balloc_cases [OF assms(1) zero_less_one]) (use full in auto)
  show thesis
  proof (rule that [of w "alloc_extent st w 1"])
    show "\<not> used st w" using w(3) by (simp add: free_window_def)
    show u: "used (alloc_extent st w 1) x \<longleftrightarrow> used st x \<or> x = w" for x using used_alloc_extent [OF w(2)] by auto
    show "grows {} 1 st (alloc_extent st w 1)" using wf_sb_alloc [OF assms(1) w(2,3)] u by (simp add: grows_def)
  qed (use w(1,2) in \<open>simp_all add: new_block_def extent_ok_def\<close>)
qed

lemma new_node_ok:
  assumes "wf_sb st" "0 < freeblocks st"
  obtains b st' where "new_node st = Some (Inr b, st')" "\<not> used st b" "\<And>x. used st' x \<longleftrightarrow> used st x \<or> x = b"
    "grows {} 1 st st'" "cache st' = (cache st)(b \<mapsto> Node [])" "atomic st \<Longrightarrow> t_dirty st' b"
proof -
  obtain b st1 where n: "new_block st = Some (Inr b, st1)" "\<not> used st b" "\<And>x. used st1 x \<longleftrightarrow> used st x \<or> x = b"
    "grows {} 1 st st1" "cache st1 = cache st" using new_block_ok [OF assms] by metis
  let ?st = "mark_buffer_rollup_atomic (put_block st1 b (Node [])) b"
  note d = mark_buffer_rollup_atomic_def mark_buffer_rollup_def
  have "grows {} 1 st ?st" using n(2,3,4) by (auto simp: d grows_def)
  then show thesis using n growsD(3) [OF n(4)] by (intro that [of b ?st]) (auto simp: new_node_def d)
qed

section \<open>Parts of the tree that are not written\<close>

lemma concat_map_cong: "(\<And>k c. (k, c) \<in> set es \<Longrightarrow> f k c = g k c) \<Longrightarrow>
    concat (map (\<lambda>(k, c). f k c) es) = concat (map (\<lambda>(k, c). g k c) es)"
  by (induction es) auto

definition bseq :: "('l, 'a) tree_scheme \<Rightarrow> nat \<Rightarrow> (nat \<times> nat) list \<Rightarrow> nat list" where
  "bseq st d es = concat (map (\<lambda>(k, c). tblocks st d c) es)"

lemma bseq_simps [simp]:
  "bseq st d [] = []" "bseq st d ((k, c) # es) = tblocks st d c @ bseq st d es"
  "bseq st d (es @ es') = bseq st d es @ bseq st d es'"
  by (simp_all add: bseq_def)

lemma tblocks_Suc: "node_of st b = Some es \<Longrightarrow> tblocks st (Suc d) b = b # bseq st d es"
  by (simp add: bseq_def)

lemma in_bseq: "x \<in> set (bseq st d es) \<longleftrightarrow> (\<exists>k c. (k, c) \<in> set es \<and> x \<in> set (tblocks st d c))"
  by (auto simp: bseq_def)

lemma node_of_cong: "cache st' b = cache st b \<Longrightarrow> node_of st' b = node_of st b"
  by (simp add: node_of_def)

lemma tblocks_self: "b \<in> set (tblocks st d b)" by (cases d) auto

text \<open>Leaves may be written as long as they stay leaves: the tree has the same structure.\<close>

definition same_at :: "('l, 'a) tree_scheme \<Rightarrow> ('l, 'a) tree_scheme \<Rightarrow> nat \<Rightarrow> bool" where
  "same_at st st' x \<longleftrightarrow> node_of st' x = node_of st x \<and> (leaf_of st' x = None \<longleftrightarrow> leaf_of st x = None)"

lemma same_atI: "cache st' x = cache st x \<Longrightarrow> same_at st st' x"
  by (simp add: same_at_def node_of_def leaf_of_def)

lemma tree_struct:
  assumes "tree_ok st d k b" "\<And>x. x \<in> set (tblocks st d b) \<Longrightarrow> same_at st st' x" "node_max st' = node_max st"
  shows "tree_ok st' d k b" "leaves st' d k b = leaves st d k b" "tblocks st' d b = tblocks st d b"
proof -
  have "tree_ok st' d k b \<and> leaves st' d k b = leaves st d k b \<and> tblocks st' d b = tblocks st d b"
    using assms(1,2)
  proof (induction d arbitrary: k b)
    case 0
    then show ?case by (simp add: same_at_def)
  next
    case (Suc d)
    from Suc.prems(1) obtain es where es: "node_of st b = Some es" "es \<noteq> []" "length es \<le> node_max st" "fst (hd es) = k"
      "sorted_wrt (<) (map fst es)" "\<forall>(k, c)\<in>set es. tree_ok st d k c" by (rule tree_ok_Suc)
    have "node_of st' b = Some es" using es(1) Suc.prems(2) [OF tblocks_self] by (simp add: same_at_def)
    moreover have IH: "tree_ok st' d k' c \<and> leaves st' d k' c = leaves st d k' c \<and> tblocks st' d c = tblocks st d c"
      if "(k', c) \<in> set es" for k' c
    proof (rule Suc.IH)
      show "tree_ok st d k' c" using es(6) that by auto
      show "same_at st st' x" if "x \<in> set (tblocks st d c)" for x
        using Suc.prems(2) [of x] that \<open>(k', c) \<in> set es\<close> unfolding tblocks_Suc [OF es(1)] by (auto simp: in_bseq)
    qed
    ultimately show ?case
      using es assms(3) concat_map_cong [of es "leaves st' d" "leaves st d"] concat_map_cong [of es "\<lambda>k. tblocks st' d" "\<lambda>k. tblocks st d"]
      by auto
  qed
  then show "tree_ok st' d k b" "leaves st' d k b = leaves st d k b" "tblocks st' d b = tblocks st d b" by auto
qed

lemma seq_struct:
  assumes "\<forall>(k, c)\<in>set es. tree_ok st d k c" "\<And>x. x \<in> set (bseq st d es) \<Longrightarrow> same_at st st' x"
    "node_max st' = node_max st"
  shows "\<forall>(k, c)\<in>set es. tree_ok st' d k c" "seq st' d es = seq st d es" "bseq st' d es = bseq st d es"
proof -
  have "tree_ok st' d k c \<and> leaves st' d k c = leaves st d k c \<and> tblocks st' d c = tblocks st d c" if "(k, c) \<in> set es" for k c
    using tree_struct [of st d k c st'] assms that by (auto simp: in_bseq)
  then show "\<forall>(k, c)\<in>set es. tree_ok st' d k c" "seq st' d es = seq st d es" "bseq st' d es = bseq st d es"
    unfolding seq_def bseq_def by (auto intro!: concat_map_cong)
qed

lemma at_leaf_struct:
  assumes "at_leaf st d k b p pre kb post" "tree_ok st d k b" "\<And>x. x \<in> set (tblocks st d b) \<Longrightarrow> same_at st st' x"
    "node_max st' = node_max st"
  shows "at_leaf st' d k b p pre kb post"
  using assms(1-3)
proof (induction d arbitrary: k b p pre post)
  case (Suc d)
  from Suc.prems(1,2) obtain es j k' c rest pre' post' where a: "node_of st b = Some es" "p = (b, Some (Suc j)) # rest" "j < length es"
    "es ! j = (k', c)" "at_leaf st d k' c rest pre' kb post'" "tree_ok st d k' c" "\<forall>(k, c)\<in>set es. tree_ok st d k c"
    "pre = seq st d (take j es) @ pre'" "post = post' @ seq st d (drop (Suc j) es)" by (rule at_leaf_Suc_ok)
  have same: "same_at st st' x" if "(k, c) \<in> set es" "x \<in> set (tblocks st d c)" for k c x
    using Suc.prems(3) [of x] that unfolding tblocks_Suc [OF a(1)] by (auto simp: in_bseq)
  have seq: "seq st' d es' = seq st d es'" if "set es' \<subseteq> set es" for es'
    using a(7) that assms(4) by (intro seq_struct(2)) (auto simp: in_bseq intro: same)
  have "at_leaf st' d k' c rest pre' kb post'"
    using nth_mem [OF a(3)] a(4) by (intro Suc.IH [OF a(5,6)]) (auto intro: same)
  moreover have "node_of st' b = Some es" using a(1) Suc.prems(3) [OF tblocks_self] by (simp add: same_at_def)
  ultimately show ?case
    using at_leafI [of st' b es j k' c d rest pre' kb post' k] a(2,3,4,8,9) seq [OF set_take_subset] seq [OF set_drop_subset] by simp
qed simp

lemma tree_frame:
  fixes st st' :: "('l, 'a) tree_scheme"
  assumes "tree_ok st d k b" "\<And>x. x \<in> set (tblocks st d b) \<Longrightarrow> cache st' x = cache st x" "node_max st' = node_max st"
  shows "tree_ok st' d k b" "leaves st' d k b = leaves st d k b" "tblocks st' d b = tblocks st d b"
proof -
  have "same_at st st' x" if "x \<in> set (tblocks st d b)" for x using assms(2) that by (intro same_atI) auto
  from tree_struct [OF assms(1) this assms(3)]
  show "tree_ok st' d k b" "leaves st' d k b = leaves st d k b" "tblocks st' d b = tblocks st d b" by auto
qed

lemma seq_frame:
  fixes st st' :: "('l, 'a) tree_scheme"
  assumes "\<forall>(k, c)\<in>set es. tree_ok st d k c" "\<And>x. x \<in> set (bseq st d es) \<Longrightarrow> cache st' x = cache st x"
    "node_max st' = node_max st"
  shows "\<forall>(k, c)\<in>set es. tree_ok st' d k c" "seq st' d es = seq st d es" "bseq st' d es = bseq st d es"
proof -
  have "same_at st st' x" if "x \<in> set (bseq st d es)" for x using assms(2) that by (intro same_atI) auto
  from seq_struct [OF assms(1) this assms(3)]
  show "\<forall>(k, c)\<in>set es. tree_ok st' d k c" "seq st' d es = seq st d es" "bseq st' d es = bseq st d es" by auto
qed

lemma at_leaf_frame:
  fixes st st' :: "('l, 'a) tree_scheme"
  assumes "at_leaf st d k b p pre kb post" "tree_ok st d k b" "\<And>x. x \<in> set (tblocks st d b) \<Longrightarrow> cache st' x = cache st x"
    "node_max st' = node_max st"
  shows "at_leaf st' d k b p pre kb post"
proof -
  have "same_at st st' x" if "x \<in> set (tblocks st d b)" for x using assms(3) that by (intro same_atI) auto
  from at_leaf_struct [OF assms(1,2) this assms(4)] show ?thesis by auto
qed

section \<open>One level\<close>

lemma insert_level_room:
  assumes "wf_sb st" "path c = up @ (b, Some n) # rest" "node_of st b = Some es" "length es < node_max st"
    "atomic st \<longrightarrow> t_dirty st b"
  shows "\<exists>st'. insert_level st c (length up) ck cb keep = Some (Inr None, st', c\<lparr>path := up @ (b, Some (if keep then n else Suc n)) # rest\<rparr>)
    \<and> grows {b} 0 st st' \<and> used st' = used st \<and> cache st' = (cache st)(b \<mapsto> Node (add_child es n cb ck))"
proof -
  let ?st = "mark_buffer_dirty (add_log (put_block st b (Node (add_child es n cb ck))) (Bnode_add b cb ck)) b"
  have "mark_buffer_rollup_non (add_log (put_block st b (Node (add_child es n cb ck))) (Bnode_add b cb ck)) b = Some ?st"
    using assms(5) by (intro rollup_non_dirty) simp
  moreover have "grows {b} 0 st ?st" using assms(1,3) by (auto simp: grows_def node_of_cache split: option.splits tblock.splits)
  moreover have "(if keep then c else set_next c (length up) (n + 1)) = c\<lparr>path := up @ (b, Some (if keep then n else Suc n)) # rest\<rparr>"
    using assms(2) by (cases c) (auto simp: set_next_def)
  ultimately show ?thesis
    using assms(2-4) by (auto simp: insert_level_def level_next_def Let_def)
qed

lemma add_child_left: "n \<le> h \<Longrightarrow> h \<le> length es \<Longrightarrow> add_child (take h es) n cb ck = take (Suc h) (add_child es n cb ck)"
  by (auto simp: add_child_def min_def Suc_diff_le take_drop)

lemma add_child_right: "h \<le> n \<Longrightarrow> n \<le> length es \<Longrightarrow> add_child (drop h es) (n - h) cb ck = drop h (add_child es n cb ck)"
  by (simp add: add_child_def drop_take)

lemma drop_add_child: "n \<le> h \<Longrightarrow> h \<le> length es \<Longrightarrow> drop (Suc h) (add_child es n cb ck) = drop h es"
  by (simp add: add_child_def Suc_diff_le)

lemma take_add_child: "h \<le> n \<Longrightarrow> n \<le> length es \<Longrightarrow> take h (add_child es n cb ck) = take h es"
  by (simp add: add_child_def)

lemma path_put [simp]:
  "path c = up @ x # rest \<Longrightarrow> level_next c (length up) = snd x"
  "path c = up @ x # rest \<Longrightarrow> set_next c (length up) n = c\<lparr>path := up @ (fst x, Some n) # rest\<rparr>"
  "path c = up @ x # rest \<Longrightarrow> level_replace_blockput c (length up) b m = Some (c\<lparr>path := up @ (b, m) # rest\<rparr>)"
  by (simp_all add: level_next_def set_next_def level_replace_blockput_def cursor_len_def)

lemma insert_level_full:
  fixes cb ck :: nat and keep :: bool
  assumes "wf_sb st" "0 < freeblocks st" "path c = up @ (b, Some n) # rest" "node_of st b = Some es" "\<not> length es < node_max st"
    "n \<le> length es" "used st b" "atomic st \<longrightarrow> t_dirty st b"
  defines "half \<equiv> length es div 2" and "es' \<equiv> add_child es n cb ck"
  defines "m \<equiv> (if n \<le> half then Suc half else half)" and "n' \<equiv> (if keep then n else Suc n)"
  shows "\<exists>st' nb. insert_level st c (length up) ck cb keep = Some (Inr (Some (fst (es ! half), nb, keep \<or> n \<le> half)), st',
        c\<lparr>path := up @ (if n \<le> half then (b, Some n') else (nb, Some (n' - half))) # rest\<rparr>)
    \<and> grows {b} 1 st st' \<and> \<not> used st nb \<and> (\<forall>x. used st' x \<longleftrightarrow> used st x \<or> x = nb)
    \<and> cache st' = (cache st)(b \<mapsto> Node (take m es'), nb \<mapsto> Node (drop m es'))"
proof -
  obtain nb st1 where n: "new_node st = Some (Inr nb, st1)" "\<not> used st nb" "\<And>x. used st1 x \<longleftrightarrow> used st x \<or> x = nb"
    "grows {} 1 st st1" "cache st1 = (cache st)(nb \<mapsto> Node [])" "atomic st \<Longrightarrow> t_dirty st1 nb"
    using new_node_ok [OF assms(1,2)] by metis
  have ne: "b \<noteq> nb" using n(2) assms(7) by auto
  have h: "half \<le> length es" by (simp add: half_def)
  let ?e1 = "Bnode_split b half nb" and ?e2 = "\<lambda>x. Bnode_add x cb ck"
  let ?s1 = "add_log (put_block (put_block st1 nb (Node (drop half es))) b (Node (take half es))) ?e1"
  have fit: "grows {b} 1 st ?s1" "node_of ?s1 b = Some (take half es)" "node_of ?s1 nb = Some (drop half es)" "used ?s1 = used st1"
    "atomic ?s1 = atomic st" "atomic st \<longrightarrow> t_dirty ?s1 b" "atomic st \<longrightarrow> t_dirty ?s1 nb"
    using n(2-4,6) ne assms(4,8) by (auto simp: grows_def node_of_cache split: option.splits tblock.splits)
  show ?thesis
  proof (cases "n \<le> half")
    case True
    let ?st = "mark_buffer_dirty (add_log (put_block (mark_buffer_dirty ?s1 nb) b (Node (take m es'))) (?e2 b)) b"
    have "mark_buffer_rollup_non ?s1 nb = Some (mark_buffer_dirty ?s1 nb)" using fit(5,7) by (intro rollup_non_dirty) simp
    moreover have "mark_buffer_rollup_non (add_log (put_block (mark_buffer_dirty ?s1 nb) b (Node (take m es'))) (?e2 b)) b = Some ?st"
      using fit(5,6) by (intro rollup_non_dirty) simp
    ultimately have "insert_level st c (length up) ck cb keep = Some (Inr (Some (fst (es ! half), nb, keep \<or> n \<le> half)), ?st,
        c\<lparr>path := up @ (b, Some n') # rest\<rparr>)"
      using assms(3-5) n(1) True fit(2) add_child_left [OF True h, of cb ck] ne
      by (auto simp: insert_level_def Let_def half_def [symmetric] m_def es'_def n'_def node_of_cache)
    moreover have "grows {b} 1 st ?st" using fit(1) assms(4) by (auto simp: grows_def node_of_cache split: if_splits)
    moreover have "cache ?st = (cache st)(b \<mapsto> Node (take m es'), nb \<mapsto> Node (drop m es'))"
      using n(5) ne True drop_add_child [OF True h, of cb ck] by (auto simp: m_def es'_def)
    ultimately show ?thesis using n(2,3) True by (auto intro!: exI [of _ ?st])
  next
    case False
    let ?st = "mark_buffer_dirty (add_log (put_block (mark_buffer_dirty ?s1 b) nb (Node (drop m es'))) (?e2 nb)) nb"
    have "mark_buffer_rollup_non ?s1 b = Some (mark_buffer_dirty ?s1 b)" using fit(5,6) by (intro rollup_non_dirty) simp
    moreover have "mark_buffer_rollup_non (add_log (put_block (mark_buffer_dirty ?s1 b) nb (Node (drop m es'))) (?e2 nb)) nb = Some ?st"
      using fit(5,7) by (intro rollup_non_dirty) simp
    moreover have "add_child (drop half es) (n - half) cb ck = drop m es'"
      using add_child_right [of half n es cb ck] False assms(6) by (simp add: m_def es'_def)
    ultimately have "insert_level st c (length up) ck cb keep = Some (Inr (Some (fst (es ! half), nb, keep \<or> n \<le> half)), ?st,
        c\<lparr>path := up @ (nb, Some (n' - half)) # rest\<rparr>)"
      using assms(3-5) n(1) False ne
      by (auto simp: insert_level_def Let_def half_def [symmetric] n'_def node_of_cache Suc_diff_le)
    moreover have "grows {b} 1 st ?st" using fit(1) n(2) assms(4) by (auto simp: grows_def node_of_cache split: if_splits)
    moreover have "cache ?st = (cache st)(b \<mapsto> Node (take m es'), nb \<mapsto> Node (drop m es'))"
      using n(5) ne False take_add_child [of half n es cb ck] assms(6) by (auto simp: m_def es'_def)
    ultimately show ?thesis using n(2,3) False by (auto intro!: exI [of _ ?st])
  qed
qed

section \<open>All levels of a subtree\<close>

text \<open>
  After the insertion below, the subtree at \<open>b\<close> has a new right neighbour \<open>nb\<close> of the same
  height; \<open>right\<close> says in which of the two the cursor is.
\<close>

definition place2 ::
  "('l, 'a) tree_scheme \<Rightarrow> nat \<Rightarrow> nat \<Rightarrow> nat \<Rightarrow> nat \<Rightarrow> nat \<Rightarrow> (nat \<times> nat option) list \<Rightarrow> bool
    \<Rightarrow> (nat \<times> nat) list \<Rightarrow> nat \<times> nat \<Rightarrow> (nat \<times> nat) list \<Rightarrow> bool" where
  "place2 st d k b nk nb p right pre kb post \<longleftrightarrow>
     (if right then \<exists>pre'. at_leaf st d nk nb p pre' kb post \<and> pre = leaves st d k b @ pre'
      else \<exists>post'. at_leaf st d k b p pre kb post' \<and> post = post' @ leaves st d nk nb)"

text \<open>
  The positions and entry counts of the nodes on a path, from the leaf up, and the condition
  under which the parent's position follows the cursor: \<open>insert_leaf\<close> does not advance it above
  a split that moved the cursor into the new node while it was to stay at the old leaf.
\<close>

fun node_stack :: "('l, 'a) tree_scheme \<Rightarrow> (nat \<times> nat option) list \<Rightarrow> (nat \<times> nat) list" where
  "node_stack st [] = []"
| "node_stack st ((b, None) # rest) = node_stack st rest"
| "node_stack st ((b, Some n) # rest) = node_stack st rest @ [(n, length (the (node_of st b)))]"

fun keep_ok :: "nat \<Rightarrow> (nat \<times> nat) list \<Rightarrow> bool \<Rightarrow> bool" where
  "keep_ok m [] keep \<longleftrightarrow> True"
| "keep_ok m ((n, len) # ns) keep \<longleftrightarrow> len < m
     \<or> (ns = [] \<or> n \<le> len div 2 \<or> \<not> keep) \<and> keep_ok m ns (keep \<or> n \<le> len div 2)"

definition leaf_put :: "nat \<Rightarrow> bool \<Rightarrow> (nat \<times> nat option) list \<Rightarrow> (nat \<times> nat option) list" where
  "leaf_put cb keep p = (if keep then p else butlast p @ [(cb, None)])"

lemma leaf_put_Cons: "rest \<noteq> [] \<Longrightarrow> leaf_put cb keep (x # rest) = x # leaf_put cb keep rest"
  by (simp add: leaf_put_def)

definition new_pre :: "bool \<Rightarrow> (nat \<times> nat) list \<Rightarrow> nat \<times> nat \<Rightarrow> (nat \<times> nat) list" where
  "new_pre keep pre kb = (if keep then pre else pre @ [kb])"

definition new_post :: "bool \<Rightarrow> nat \<times> nat \<Rightarrow> (nat \<times> nat) list \<Rightarrow> (nat \<times> nat) list" where
  "new_post keep nkb post = (if keep then nkb # post else post)"

definition fresh_blocks :: "('l, 'a) tree_scheme \<Rightarrow> ('l, 'a) tree_scheme \<Rightarrow> nat set \<Rightarrow> nat list \<Rightarrow> bool" where
  "fresh_blocks st st' B blks \<longleftrightarrow> distinct blks \<and> (\<forall>x\<in>set blks. used st' x \<and> (x \<in> B \<or> \<not> used st x))"

lemma split_place:
  assumes "node_of st b = Some (take m es)" "node_of st nb = Some (drop m es)" "i < length es" "es ! i = (k', c')"
    "at_leaf st d k' c' p pre kb post"
  shows "place2 st (Suc d) k b nk nb ((if i < m then (b, Some (Suc i)) else (nb, Some (Suc (i - m)))) # p) (m \<le> i)
    (seq st d (take i es) @ pre) kb (post @ seq st d (drop (Suc i) es))"
proof (cases "i < m")
  case True
  have "at_leaf st (Suc d) k b ((b, Some (Suc i)) # p) (seq st d (take i es) @ pre) kb (post @ seq st d (drop (Suc i) (take m es)))"
    using at_leafI [of st b "take m es" i k' c' d p pre kb post k] assms True by (simp add: min_def)
  moreover have "drop (Suc i) es = drop (Suc i) (take m es) @ drop m es"
    using True assms(3) append_take_drop_id [of "m - Suc i" "drop (Suc i) es"] by (simp add: drop_take)
  then have "seq st d (drop (Suc i) es) = seq st d (drop (Suc i) (take m es)) @ leaves st (Suc d) nk nb"
    by (simp add: leaves_Suc [OF assms(2)] del: leaves.simps)
  ultimately show ?thesis using True by (simp add: place2_def del: leaves.simps at_leaf.simps)
next
  case False
  have "at_leaf st (Suc d) nk nb ((nb, Some (Suc (i - m))) # p) (seq st d (take (i - m) (drop m es)) @ pre) kb
      (post @ seq st d (drop (Suc (i - m)) (drop m es)))"
    using at_leafI [of st nb "drop m es" "i - m" k' c' d p pre kb post nk] assms False by simp
  moreover have "take i es = take m es @ take (i - m) (drop m es)" using False by (simp add: take_add [symmetric])
  then have "seq st d (take i es) = leaves st (Suc d) k b @ seq st d (take (i - m) (drop m es))"
    by (simp add: leaves_Suc [OF assms(1)] del: leaves.simps)
  ultimately show ?thesis using False by (simp add: place2_def del: leaves.simps at_leaf.simps)
qed

lemma bseq_split: "j < length es \<Longrightarrow> es ! j = (k, c) \<Longrightarrow>
    bseq st d es = bseq st d (take j es) @ tblocks st d c @ bseq st d (drop (Suc j) es)"
  by (subst id_take_nth_drop [of j es]) simp_all

lemma node_after_child:
  assumes "node_of st b = Some es" "j < length es" "es ! j = (k', c')" "tree_ok st (Suc d) k b"
    "distinct (tblocks st (Suc d) b)" "\<forall>x\<in>set (tblocks st (Suc d) b). used st x" "cb \<notin> set (tblocks st (Suc d) b)"
    "grows (set (tblocks st d c')) n st st1" "fresh_blocks st st1 (insert cb (set (tblocks st d c'))) blks"
  shows "node_of st1 b = Some es" "seq st1 d (take j es) = seq st d (take j es)"
    "seq st1 d (drop (Suc j) es) = seq st d (drop (Suc j) es)"
    "\<forall>(k, c)\<in>set (take j es) \<union> set (drop (Suc j) es). tree_ok st1 d k c"
    "fresh_blocks st st1 (insert cb (set (tblocks st (Suc d) b)))
      (b # bseq st1 d (take j es) @ blks @ bseq st1 d (drop (Suc j) es))"
    "used st1 b"
proof -
  have tb: "tblocks st (Suc d) b = b # bseq st d (take j es) @ tblocks st d c' @ bseq st d (drop (Suc j) es)"
    using tblocks_Suc [OF assms(1), of d] bseq_split [OF assms(2,3), of st d] by simp
  have kids: "\<forall>(k, c)\<in>set es. tree_ok st d k c" using assms(1,4) by auto
  have same: "cache st1 x = cache st x" if "x \<in> set (b # bseq st d (take j es) @ bseq st d (drop (Suc j) es))" for x
  proof (rule growsD(8) [OF assms(8)])
    show "used st x" using assms(6) that unfolding tb by auto
    show "x \<notin> set (tblocks st d c')" using assms(5) that unfolding tb by auto
  qed
  show "node_of st1 b = Some es" using assms(1) same [of b] node_of_cong by (metis list.set_intros(1))
  have sib: "\<forall>(k, c)\<in>set es'. tree_ok st1 d k c" "seq st1 d es' = seq st d es'" "bseq st1 d es' = bseq st d es'"
    if "es' = take j es \<or> es' = drop (Suc j) es" for es'
  proof -
    have t: "\<forall>(k, c)\<in>set es'. tree_ok st d k c" using kids that by (auto dest: in_set_takeD in_set_dropD)
    have s: "\<And>x. x \<in> set (bseq st d es') \<Longrightarrow> cache st1 x = cache st x" using same that by auto
    from seq_frame [OF t s growsD(2) [OF assms(8)]]
    show "\<forall>(k, c)\<in>set es'. tree_ok st1 d k c" "seq st1 d es' = seq st d es'" "bseq st1 d es' = bseq st d es'" by auto
  qed
  show "seq st1 d (take j es) = seq st d (take j es)" "seq st1 d (drop (Suc j) es) = seq st d (drop (Suc j) es)"
    using sib(2) by auto
  show "\<forall>(k, c)\<in>set (take j es) \<union> set (drop (Suc j) es). tree_ok st1 d k c" using sib(1) by blast
  show "used st1 b" using growsD(6) [OF assms(8)] assms(6) unfolding tb by auto
  have dis: "x \<notin> set blks" if "x \<in> set (b # bseq st d (take j es) @ bseq st d (drop (Suc j) es))" for x
  proof
    assume "x \<in> set blks"
    then have "x = cb \<or> x \<in> set (tblocks st d c') \<or> \<not> used st x" using assms(9) by (auto simp: fresh_blocks_def)
    then show False using that assms(5,6,7) unfolding tb by auto
  qed
  have u: "used st1 x" if "x \<in> set (b # bseq st d (take j es) @ bseq st d (drop (Suc j) es))" for x
    using growsD(6) [OF assms(8)] assms(6) that unfolding tb by auto
  have "distinct (b # bseq st d (take j es) @ blks @ bseq st d (drop (Suc j) es))"
    using assms(5,9) dis unfolding tb fresh_blocks_def by (auto dest: dis)
  then show "fresh_blocks st st1 (insert cb (set (tblocks st (Suc d) b))) (b # bseq st1 d (take j es) @ blks @ bseq st1 d (drop (Suc j) es))"
    using assms(9) u sib(3) unfolding tb fresh_blocks_def by auto
qed

text \<open>The two outcomes at a subtree: the insertion ends in it, or it has a new neighbour.\<close>

definition ends_in ::
  "('l, 'a) tree_scheme \<Rightarrow> nat \<Rightarrow> nat \<Rightarrow> nat \<Rightarrow> nat \<Rightarrow> ('l, 'a) tree_scheme \<Rightarrow> (nat \<times> nat option) list
    \<Rightarrow> (nat \<times> nat) list \<Rightarrow> nat \<times> nat \<Rightarrow> (nat \<times> nat) list \<Rightarrow> bool" where
  "ends_in st cb d k b st' p pre kb post \<longleftrightarrow> grows (set (tblocks st d b)) d st st' \<and> tree_ok st' d k b
     \<and> fresh_blocks st st' (insert cb (set (tblocks st d b))) (tblocks st' d b) \<and> at_leaf st' d k b p pre kb post"

definition splits_to ::
  "('l, 'a) tree_scheme \<Rightarrow> nat \<Rightarrow> nat \<Rightarrow> nat \<Rightarrow> nat \<Rightarrow> ('l, 'a) tree_scheme \<Rightarrow> (nat \<times> nat option) list \<Rightarrow> nat \<Rightarrow> nat \<Rightarrow> bool
    \<Rightarrow> (nat \<times> nat) list \<Rightarrow> nat \<times> nat \<Rightarrow> (nat \<times> nat) list \<Rightarrow> bool" where
  "splits_to st cb d k b st' p nk nb right pre kb post \<longleftrightarrow> grows (set (tblocks st d b)) d st st' \<and> tree_ok st' d k b
     \<and> tree_ok st' d nk nb \<and> fresh_blocks st st' (insert cb (set (tblocks st d b))) (tblocks st' d b @ tblocks st' d nb)
     \<and> place2 st' d k b nk nb p right pre kb post"

lemma ends_in_parent:
  assumes "node_of st b = Some es" "j < length es" "es ! j = (k', c')" "tree_ok st (Suc d) k b"
    "distinct (tblocks st (Suc d) b)" "\<forall>x\<in>set (tblocks st (Suc d) b). used st x" "cb \<notin> set (tblocks st (Suc d) b)"
    "ends_in st cb d k' c' st1 p pre kb post"
  shows "ends_in st cb (Suc d) k b st1 ((b, Some (Suc j)) # p) (seq st d (take j es) @ pre) kb (post @ seq st d (drop (Suc j) es))"
proof -
  have e: "grows (set (tblocks st d c')) d st st1" "tree_ok st1 d k' c'"
    "fresh_blocks st st1 (insert cb (set (tblocks st d c'))) (tblocks st1 d c')" "at_leaf st1 d k' c' p pre kb post"
    using assms(8) by (auto simp: ends_in_def)
  note n = node_after_child [OF assms(1-7) e(1,3)]
  have es: "es \<noteq> []" "length es \<le> node_max st" "fst (hd es) = k" "sorted_wrt (<) (map fst es)"
    using assms(1,4) by auto
  have "\<forall>(k, c)\<in>set es. tree_ok st1 d k c"
    using n(4) e(2) id_take_nth_drop [OF assms(2)] assms(3) by (metis (no_types, lifting) UnE UnI1 UnI2 case_prodI list.set(2) insertE set_append)
  then have "tree_ok st1 (Suc d) k b" using es n(1) growsD(2) [OF e(1)] by simp
  moreover have "tblocks st1 (Suc d) b = b # bseq st1 d (take j es) @ tblocks st1 d c' @ bseq st1 d (drop (Suc j) es)"
    using tblocks_Suc [OF n(1), of d] bseq_split [OF assms(2,3), of st1 d] by simp
  moreover have "set (tblocks st d c') \<subseteq> set (tblocks st (Suc d) b)"
    using tblocks_Suc [OF assms(1), of d] bseq_split [OF assms(2,3), of st d] by auto
  then have "grows (set (tblocks st (Suc d) b)) (Suc d) st st1" using grows_mono [OF e(1)] by simp
  moreover have "at_leaf st1 (Suc d) k b ((b, Some (Suc j)) # p) (seq st d (take j es) @ pre) kb (post @ seq st d (drop (Suc j) es))"
    using at_leafI [OF n(1) assms(2,3) e(4), of k] n(2,3) by simp
  ultimately show ?thesis unfolding ends_in_def using n(5) by simp
qed

lemma place2_leaves: "place2 st d k b nk nb p right pre kb post \<Longrightarrow> pre @ kb # post = leaves st d k b @ leaves st d nk nb"
  by (auto simp: place2_def dest!: at_leaf_leaves split: if_splits)

lemma place2_index:
  assumes "place2 st d k' c' nk nb p right pre kb post" "j < length es" "es ! j = (k', c')"
  defines "es' \<equiv> add_child es (Suc j) nb nk" and "i \<equiv> (if right then Suc j else j)"
  shows "\<exists>k2 c2 pre2 post2. es' ! i = (k2, c2) \<and> i < length es' \<and> at_leaf st d k2 c2 p pre2 kb post2
    \<and> seq st d (take i es') @ pre2 = seq st d (take j es) @ pre
    \<and> post2 @ seq st d (drop (Suc i) es') = post @ seq st d (drop (Suc j) es)"
proof -
  have tk: "take (Suc j) es = take j es @ [(k', c')]" using take_Suc_conv_app_nth [OF assms(2)] assms(3) by simp
  have es': "es' = take j es @ (k', c') # (nk, nb) # drop (Suc j) es" by (simp add: es'_def add_child_def tk)
  have lj: "length (take j es) = j" using assms(2) by simp
  show ?thesis
  proof (cases right)
    case True
    then obtain pre' where "at_leaf st d nk nb p pre' kb post" "pre = leaves st d k' c' @ pre'" using assms(1) by (auto simp: place2_def)
    moreover have "es' ! i = (nk, nb)" "take i es' = take j es @ [(k', c')]" "drop (Suc i) es' = drop (Suc j) es" "i < length es'"
      using True lj assms(2) by (auto simp: es' i_def nth_append)
    ultimately show ?thesis by fastforce
  next
    case False
    then obtain post' where "at_leaf st d k' c' p pre kb post'" "post = post' @ leaves st d nk nb" using assms(1) by (auto simp: place2_def)
    moreover have "es' ! i = (k', c')" "take i es' = take j es" "drop (Suc i) es' = (nk, nb) # drop (Suc j) es" "i < length es'"
      using False lj assms(2) by (auto simp: es' i_def nth_append)
    ultimately show ?thesis by fastforce
  qed
qed

lemma sorted_insert_key:
  assumes "sorted_wrt (<) (map fst es)" "j < length es" "fst (es ! j) < ck" "Suc j < length es \<Longrightarrow> ck < fst (es ! Suc j)"
  shows "sorted_wrt (<) (map fst (add_child es (Suc j) cb ck))"
proof -
  have srt: "fst (es ! i) < fst (es ! i')" if "i < i'" "i' < length es" for i i'
    using sorted_wrt_nth_less [OF assms(1), of i i'] that by simp
  have "fst x < ck" if x: "x \<in> set (take (Suc j) es)" for x
  proof -
    obtain i where i: "i \<le> j" "x = es ! i" using x by (auto simp: in_set_conv_nth less_Suc_eq_le)
    then show ?thesis using srt [of i j] assms(2,3) by (cases "i = j") auto
  qed
  moreover have "ck < fst x" if x: "x \<in> set (drop (Suc j) es)" for x
  proof -
    obtain i where "i < length es - Suc j" "x = drop (Suc j) es ! i" using x by (metis in_set_conv_nth length_drop)
    then have i: "Suc j + i < length es" "x = es ! (Suc j + i)" by simp_all
    then show ?thesis using srt [of "Suc j" "Suc j + i"] assms(4) by (cases "i = 0") auto
  qed
  moreover have "sorted_wrt (<) (map fst (take (Suc j) es) @ map fst (drop (Suc j) es))"
    unfolding map_append [symmetric] append_take_drop_id by (rule assms(1))
  ultimately show ?thesis by (auto simp: add_child_def sorted_wrt_append)
qed

lemma wide_node:
  assumes "node_of st b = Some es" "j < length es" "es ! j = (k', c')" "tree_ok st (Suc d) k b"
    "distinct (tblocks st (Suc d) b)" "\<forall>x\<in>set (tblocks st (Suc d) b). used st x" "cb \<notin> set (tblocks st (Suc d) b)"
    "splits_to st cb d k' c' st1 p nk nb right pre kb post"
    "sorted_wrt (<) (map fst (seq st d (take j es) @ (pre @ kb # post) @ seq st d (drop (Suc j) es)))"
  defines "es' \<equiv> add_child es (Suc j) nb nk"
  shows "node_of st1 b = Some es" "\<forall>(k, c)\<in>set es'. tree_ok st1 d k c" "sorted_wrt (<) (map fst es')" "fst (hd es') = k"
    "fresh_blocks st st1 (insert cb (set (tblocks st (Suc d) b))) (b # bseq st1 d es')" "used st1 b"
    "grows (set (tblocks st (Suc d) b)) d st st1"
    "seq st1 d (take j es) = seq st d (take j es)" "seq st1 d (drop (Suc j) es) = seq st d (drop (Suc j) es)"
proof -
  have e: "grows (set (tblocks st d c')) d st st1" "tree_ok st1 d k' c'" "tree_ok st1 d nk nb"
    "fresh_blocks st st1 (insert cb (set (tblocks st d c'))) (tblocks st1 d c' @ tblocks st1 d nb)"
    "place2 st1 d k' c' nk nb p right pre kb post"
    using assms(8) by (auto simp: splits_to_def)
  note n = node_after_child [OF assms(1-7) e(1,4)]
  have es: "es \<noteq> []" "fst (hd es) = k" "sorted_wrt (<) (map fst es)" "\<forall>(k, c)\<in>set es. tree_ok st d k c"
    using assms(1,4) by auto
  have tk: "take (Suc j) es = take j es @ [(k', c')]" using take_Suc_conv_app_nth [OF assms(2)] assms(3) by simp
  have es': "es' = take j es @ (k', c') # (nk, nb) # drop (Suc j) es" by (simp add: es'_def add_child_def tk)
  show "node_of st1 b = Some es" "used st1 b" by (rule n(1), rule n(6))
  show "seq st1 d (take j es) = seq st d (take j es)" "seq st1 d (drop (Suc j) es) = seq st d (drop (Suc j) es)"
    by (rule n(2), rule n(3))
  show "\<forall>(k, c)\<in>set es'. tree_ok st1 d k c" using n(4) e(2,3) unfolding es' by auto
  show "fst (hd es') = k" using es(1,2) assms(2) by (cases j; cases es) (auto simp: es'_def add_child_def)
  show "fresh_blocks st st1 (insert cb (set (tblocks st (Suc d) b))) (b # bseq st1 d es')" using n(5) unfolding es' by simp
  have "set (tblocks st d c') \<subseteq> set (tblocks st (Suc d) b)"
    using tblocks_Suc [OF assms(1), of d] bseq_split [OF assms(2,3), of st d] by auto
  then show "grows (set (tblocks st (Suc d) b)) d st st1" using grows_mono [OF e(1)] by simp
  obtain c1 ys1 where l1: "leaves st1 d k' c' = (k', c1) # ys1" using leaves_first [OF e(2)] by auto
  obtain c2 ys2 where l2: "leaves st1 d nk nb = (nk, c2) # ys2" using leaves_first [OF e(3)] by auto
  have srt: "sorted_wrt (<) (map fst (((k', c1) # ys1) @ ((nk, c2) # ys2) @ seq st d (drop (Suc j) es)))"
    using assms(9) unfolding place2_leaves [OF e(5)] l1 l2 by (simp add: sorted_wrt_append)
  have "nk < fst (es ! Suc j)" if "Suc j < length es"
  proof -
    have "\<forall>(k, c)\<in>set (drop (Suc j) es). tree_ok st d k c" using es(4) by (auto dest: in_set_dropD)
    then have "seq st d (drop (Suc j) es) \<noteq> []" "fst (hd (seq st d (drop (Suc j) es))) = fst (es ! Suc j)"
      using seq_first [of "drop (Suc j) es" st d] that by (auto simp: hd_drop_conv_nth)
    then show ?thesis using srt by (cases "seq st d (drop (Suc j) es)") (auto simp: sorted_wrt_append)
  qed
  moreover have "fst (es ! j) < nk" using srt assms(3) by simp
  ultimately show "sorted_wrt (<) (map fst es')" unfolding es'_def using sorted_insert_key [OF es(3) assms(2)] by blast
qed

lemma kids_frame:
  fixes st st' :: "('l, 'a) tree_scheme"
  assumes "\<forall>(k, c)\<in>set es. tree_ok st d k c" "\<forall>x\<in>set (bseq st d es). cache st' x = cache st x" "node_max st' = node_max st"
    "i < length es" "es ! i = (k', c')" "at_leaf st d k' c' p pre kb post"
  shows "\<forall>(k, c)\<in>set es. tree_ok st' d k c" "bseq st' d es = bseq st d es" "at_leaf st' d k' c' p pre kb post"
    "seq st' d (take n es) = seq st d (take n es)" "seq st' d (drop n es) = seq st d (drop n es)"
proof -
  show "\<forall>(k, c)\<in>set es. tree_ok st' d k c" "bseq st' d es = bseq st d es" using seq_frame [OF assms(1) _ assms(3)] assms(2) by auto
  have sub: "set (bseq st d es') \<subseteq> set (bseq st d es)" "\<forall>(k, c)\<in>set es'. tree_ok st d k c" if "set es' \<subseteq> set es" for es'
    using that assms(1) unfolding bseq_def by (fastforce, blast)
  have fr: "seq st' d es' = seq st d es'" if "set es' \<subseteq> set es" for es'
    by (rule seq_frame(2) [OF sub(2) [OF that] _ assms(3)]) (use assms(2) sub(1) [OF that] in auto)
  show "seq st' d (take n es) = seq st d (take n es)" "seq st' d (drop n es) = seq st d (drop n es)"
    by (rule fr [OF set_take_subset], rule fr [OF set_drop_subset])
  have kid: "(k', c') \<in> set es" using nth_mem [OF assms(4)] assms(5) by simp
  then show "at_leaf st' d k' c' p pre kb post"
    using assms(1,2) by (intro at_leaf_frame [OF assms(6) _ _ assms(3)]) (auto simp: in_bseq)
qed

lemma level_room:
  assumes "node_of st1 b = Some es" "length es < node_max st1" "j < length es"
    "\<forall>(k, c)\<in>set es'. tree_ok st1 d k c" "sorted_wrt (<) (map fst es')" "fst (hd es') = k"
    "fresh_blocks st st1 (insert cb (set (tblocks st (Suc d) b))) (b # bseq st1 d es')" "used st1 b"
    "grows (set (tblocks st (Suc d) b)) d st st1" "atomic st1 \<longrightarrow> t_dirty st1 b" "path c = up @ (b, Some (Suc j)) # p"
    "i < length es'" "es' ! i = (k2, c2)" "at_leaf st1 d k2 c2 p pre2 kb post2" "i = (if keep then j else Suc j)"
    and es'_def: "es' = add_child es (Suc j) nb nk"
  shows "\<exists>st2. insert_levels st1 c (Suc (length up)) nk nb keep = Some (Inr (), st2, c\<lparr>path := up @ (b, Some (Suc i)) # p\<rparr>)
    \<and> ends_in st cb (Suc d) k b st2 ((b, Some (Suc i)) # p) (seq st1 d (take i es') @ pre2) kb (post2 @ seq st1 d (drop (Suc i) es'))"
proof -
  have wf: "wf_sb st1" using growsD(1) [OF assms(9)] .
  obtain st2 where l: "insert_level st1 c (length up) nk nb keep = Some (Inr None, st2, c\<lparr>path := up @ (b, Some (if keep then Suc j else Suc (Suc j))) # p\<rparr>)"
    "grows {b} 0 st1 st2" "used st2 = used st1" "cache st2 = (cache st1)(b \<mapsto> Node es')"
    using insert_level_room [OF wf assms(11,1,2,10), of nk nb keep] by (auto simp: es'_def)
  have "\<forall>x\<in>set (bseq st1 d es'). cache st2 x = cache st1 x" using assms(7) l(4) by (auto simp: fresh_blocks_def)
  note f = kids_frame [OF assms(4) this growsD(2) [OF l(2)] assms(12,13,14)]
  have nd: "node_of st2 b = Some es'" using l(4) by (simp add: node_of_cache)
  have len: "length es' = Suc (length es)" using assms(3) by (simp add: es'_def add_child_def)
  then have "es' \<noteq> []" "length es' \<le> node_max st2" using growsD(2) [OF l(2)] assms(2) by auto
  then have "tree_ok st2 (Suc d) k b" using nd f(1) assms(5,6) by auto
  moreover have "grows (set (tblocks st (Suc d) b)) (Suc d) st st2"
    by (rule grows_trans [OF assms(9) l(2)]) auto
  moreover have "fresh_blocks st st2 (insert cb (set (tblocks st (Suc d) b))) (tblocks st2 (Suc d) b)"
    using assms(7) f(2) l(3) unfolding tblocks_Suc [OF nd] by (simp add: fresh_blocks_def)
  moreover have "at_leaf st2 (Suc d) k b ((b, Some (Suc i)) # p) (seq st1 d (take i es') @ pre2) kb (post2 @ seq st1 d (drop (Suc i) es'))"
    using at_leafI [OF nd assms(12,13) f(3), of k] f(4,5) by simp
  ultimately show ?thesis using l(1) assms(15) by (auto simp: ends_in_def)
qed

lemma level_full:
  assumes "node_of st1 b = Some es" "\<not> length es < node_max st1" "length es \<le> node_max st1" "2 \<le> length es" "j < length es"
    "\<forall>(k, c)\<in>set es'. tree_ok st1 d k c" "sorted_wrt (<) (map fst es')" "fst (hd es') = k"
    "fresh_blocks st st1 (insert cb (set (tblocks st (Suc d) b))) (b # bseq st1 d es')" "used st1 b"
    "grows (set (tblocks st (Suc d) b)) d st st1" "atomic st1 \<longrightarrow> t_dirty st1 b" "path c = up @ (b, Some (Suc j)) # p"
    "i < length es'" "es' ! i = (k2, c2)" "at_leaf st1 d k2 c2 p pre2 kb post2" "i = (if keep then j else Suc j)"
    "int (Suc d) \<le> freeblocks st" and es'_def: "es' = add_child es (Suc j) nb nk"
  defines "half \<equiv> length es div 2"
  shows "\<exists>st2 p' nk2 nb2. insert_levels st1 c (Suc (length up)) nk nb keep
      = insert_levels st2 (c\<lparr>path := up @ p'\<rparr>) (length up) nk2 nb2 (keep \<or> Suc j \<le> half)
    \<and> fst (hd p') = (if half < Suc j then nb2 else b)
    \<and> splits_to st cb (Suc d) k b st2 p' nk2 nb2 (half < Suc j)
        (seq st1 d (take i es') @ pre2) kb (post2 @ seq st1 d (drop (Suc i) es'))"
proof -
  have wf: "wf_sb st1" and free: "0 < freeblocks st1" using growsD(1,5) [OF assms(11)] assms(18) by auto
  let ?m = "if Suc j \<le> half then Suc half else half" and ?n = "if keep then Suc j else Suc (Suc j)"
  have sj: "Suc j \<le> length es" using assms(5) by simp
  obtain st2 nb2 where l: "insert_level st1 c (length up) nk nb keep = Some (Inr (Some (fst (es ! half), nb2, keep \<or> Suc j \<le> half)), st2,
        c\<lparr>path := up @ (if Suc j \<le> half then (b, Some ?n) else (nb2, Some (?n - half))) # p\<rparr>)"
    "grows {b} 1 st1 st2" "\<not> used st1 nb2" "\<And>x. used st2 x \<longleftrightarrow> used st1 x \<or> x = nb2"
    "cache st2 = (cache st1)(b \<mapsto> Node (take ?m es'), nb2 \<mapsto> Node (drop ?m es'))"
    using insert_level_full [OF wf free assms(13,1,2) sj assms(10,12), of nk nb keep] unfolding half_def es'_def by blast
  have ne: "b \<noteq> nb2" using l(3) assms(10) by auto
  have new: "x \<noteq> b \<and> x \<noteq> nb2" if "x \<in> set (bseq st1 d es')" for x
    using assms(9) that l(3) by (auto simp: fresh_blocks_def)
  then have "\<forall>x\<in>set (bseq st1 d es'). cache st2 x = cache st1 x" using l(5) by auto
  note f = kids_frame [OF assms(6) this growsD(2) [OF l(2)] assms(14,15,16)]
  have nd: "node_of st2 b = Some (take ?m es')" "node_of st2 nb2 = Some (drop ?m es')"
    using l(5) ne by (simp_all add: node_of_cache)
  have len: "length es' = Suc (length es)" using assms(5) by (simp add: es'_def add_child_def)
  have h: "0 < half" "half < length es" "Suc half \<le> length es" using assms(4) by (auto simp: half_def)
  have m: "0 < ?m" "?m < length es'" "?m \<le> node_max st1" "length es' - ?m \<le> node_max st1" using h len assms(2,3) by auto
  have dr: "fst (hd (drop ?m es')) = fst (es ! half)"
    using h drop_add_child [of "Suc j" half es nb nk] take_add_child [of half "Suc j" es nb nk] sj
      add_child_right [of half "Suc j" es nb nk]
    by (auto simp: es'_def hd_drop_conv_nth add_child_def)
  have srt: "sorted_wrt (<) (map fst (take ?m es'))" "sorted_wrt (<) (map fst (drop ?m es'))"
    using assms(7) by (simp_all add: sorted_wrt_take sorted_wrt_drop flip: take_map drop_map)
  have ok1: "tree_ok st2 (Suc d) k b"
    using nd(1) m srt(1) f(1) assms(8) growsD(2) [OF l(2)] by (auto simp: hd_take dest: in_set_takeD split del: if_split)
  have ok2: "tree_ok st2 (Suc d) (fst (es ! half)) nb2"
    using nd(2) m srt(2) f(1) dr growsD(2) [OF l(2)] by (auto dest: in_set_dropD split del: if_split)
  have gr: "grows (set (tblocks st (Suc d) b)) (Suc d) st st2"
    by (rule grows_trans [OF assms(11) l(2)]) (use tblocks_self in auto)
  have "tblocks st2 (Suc d) b @ tblocks st2 (Suc d) nb2 = b # bseq st2 d (take ?m es') @ nb2 # bseq st2 d (drop ?m es')"
    using tblocks_Suc [OF nd(1)] tblocks_Suc [OF nd(2)] by simp
  moreover have "bseq st2 d (take ?m es') @ bseq st2 d (drop ?m es') = bseq st1 d es'"
    using f(2) bseq_simps(3) [of st2 d "take ?m es'" "drop ?m es'"] by simp
  then have "set (bseq st2 d (take ?m es')) \<union> set (bseq st2 d (drop ?m es')) = set (bseq st1 d es')"
    "distinct (bseq st2 d (take ?m es') @ bseq st2 d (drop ?m es'))"
    using assms(9) by (metis set_append, simp add: fresh_blocks_def)
  ultimately have bl: "fresh_blocks st st2 (insert cb (set (tblocks st (Suc d) b))) (tblocks st2 (Suc d) b @ tblocks st2 (Suc d) nb2)"
    using assms(9) new l(4) ne growsD(6) [OF assms(11)] l(3) unfolding fresh_blocks_def by auto
  let ?p = "(if i < ?m then (b, Some (Suc i)) else (nb2, Some (Suc (i - ?m)))) # p"
  have right: "(?m \<le> i) = (half < Suc j)" and pa: "(if Suc j \<le> half then (b, Some ?n) else (nb2, Some (?n - half))) # p = ?p"
    using assms(17) by (auto simp: Suc_diff_le)
  have "place2 st2 (Suc d) k b (fst (es ! half)) nb2 ?p (half < Suc j)
      (seq st1 d (take i es') @ pre2) kb (post2 @ seq st1 d (drop (Suc i) es'))"
    using split_place [OF nd assms(14,15) f(3), of k "fst (es ! half)"] unfolding right f(4,5) .
  with ok1 ok2 gr bl have "splits_to st cb (Suc d) k b st2 ?p (fst (es ! half)) nb2 (half < Suc j)
      (seq st1 d (take i es') @ pre2) kb (post2 @ seq st1 d (drop (Suc i) es'))" by (simp only: splits_to_def)
  moreover have "insert_levels st1 c (Suc (length up)) nk nb keep
      = insert_levels st2 (c\<lparr>path := up @ ?p\<rparr>) (length up) (fst (es ! half)) nb2 (keep \<or> Suc j \<le> half)"
    using l(1) unfolding pa by simp
  moreover have "fst (hd ?p) = (if half < Suc j then nb2 else b)" using right by auto
  ultimately show ?thesis by blast
qed

definition new_at :: "bool \<Rightarrow> nat \<times> nat \<Rightarrow> nat \<times> nat \<Rightarrow> nat \<times> nat" where
  "new_at keep kb nkb = (if keep then kb else nkb)"

lemma new_seq: "new_pre keep pre kb @ new_at keep kb nkb # new_post keep nkb post = pre @ kb # nkb # post"
  by (simp add: new_pre_def new_at_def new_post_def)

lemma new_append [simp]:
  "new_pre keep (xs @ pre) kb = xs @ new_pre keep pre kb" "new_post keep nkb (post @ xs) = new_post keep nkb post @ xs"
  by (simp_all add: new_pre_def new_post_def)

lemma level_outcome:
  assumes "node_of st b = Some es" "j < length es" "es ! j = (k', c')" "tree_ok st (Suc d) k b"
    "distinct (tblocks st (Suc d) b)" "\<forall>x\<in>set (tblocks st (Suc d) b). used st x" "cb \<notin> set (tblocks st (Suc d) b)"
    "splits_to st cb d k' c' st1 p nk nb right pre kb post"
    "sorted_wrt (<) (map fst (seq st d (take j es) @ (pre @ kb # post) @ seq st d (drop (Suc j) es)))"
    "int (Suc d) \<le> freeblocks st" "2 \<le> node_max st" "atomic st \<longrightarrow> t_dirty st b" "path c = up @ (b, Some (Suc j)) # p"
    "keep_ok (node_max st) ((Suc j, length es) # us) keep" "keep \<longleftrightarrow> \<not> right"
  shows "(\<exists>st' p'. insert_levels st1 c (Suc (length up)) nk nb keep = Some (Inr (), st', c\<lparr>path := up @ p'\<rparr>)
      \<and> ends_in st cb (Suc d) k b st' p' (seq st d (take j es) @ pre) kb (post @ seq st d (drop (Suc j) es)))
    \<or> (\<exists>st' p' nk2 nb2 keep' right'. insert_levels st1 c (Suc (length up)) nk nb keep
        = insert_levels st' (c\<lparr>path := up @ p'\<rparr>) (length up) nk2 nb2 keep'
      \<and> splits_to st cb (Suc d) k b st' p' nk2 nb2 right' (seq st d (take j es) @ pre) kb (post @ seq st d (drop (Suc j) es))
      \<and> fst (hd p') = (if right' then nb2 else b) \<and> keep_ok (node_max st) us keep' \<and> (us = [] \<or> (keep' \<longleftrightarrow> \<not> right')))"
proof -
  note w = wide_node [OF assms(1-9)]
  define es' where "es' = add_child es (Suc j) nb nk"
  define i where "i = (if keep then j else Suc j)"
  have i: "(if right then Suc j else j) = i" using assms(15) by (simp add: i_def)
  have pl: "place2 st1 d k' c' nk nb p right pre kb post" using assms(8) by (simp add: splits_to_def)
  obtain k2 c2 pre2 post2 where x: "es' ! i = (k2, c2)" "i < length es'" "at_leaf st1 d k2 c2 p pre2 kb post2"
    "seq st1 d (take i es') @ pre2 = seq st d (take j es) @ pre" "post2 @ seq st1 d (drop (Suc i) es') = post @ seq st d (drop (Suc j) es)"
    using place2_index [OF pl assms(2,3)] unfolding w(8,9) es'_def [symmetric] i by blast
  have dirty: "atomic st1 \<longrightarrow> t_dirty st1 b" using growsD(3,7) [OF w(7)] assms(12) by auto
  have nm: "node_max st1 = node_max st" and len: "length es \<le> node_max st1" using growsD(2) [OF w(7)] assms(1,4) by auto
  show ?thesis
  proof (cases "length es < node_max st1")
    case True
    from level_room [OF w(1) this assms(2) w(2-7) [folded es'_def] dirty assms(13) x(2,1,3) i_def es'_def]
    show ?thesis unfolding x(4,5) by blast
  next
    case False
    then have "2 \<le> length es" using nm assms(11) by simp
    from level_full [OF w(1) False len this assms(2) w(2-7) [folded es'_def] dirty assms(13) x(2,1,3) i_def assms(10) es'_def]
    obtain st2 p' nk2 nb2 where f: "insert_levels st1 c (Suc (length up)) nk nb keep
        = insert_levels st2 (c\<lparr>path := up @ p'\<rparr>) (length up) nk2 nb2 (keep \<or> Suc j \<le> length es div 2)"
      "fst (hd p') = (if length es div 2 < Suc j then nb2 else b)"
      "splits_to st cb (Suc d) k b st2 p' nk2 nb2 (length es div 2 < Suc j)
        (seq st d (take j es) @ pre) kb (post @ seq st d (drop (Suc j) es))" unfolding x(4,5) by blast
    have "keep_ok (node_max st) us (keep \<or> Suc j \<le> length es div 2)" "us = [] \<or> Suc j \<le> length es div 2 \<or> \<not> keep"
      using assms(14) False nm by auto
    then show ?thesis using f by (intro disjI2 exI [of _ st2] exI [of _ p'] exI [of _ nk2] exI [of _ nb2]
          exI [of _ "keep \<or> Suc j \<le> length es div 2"] exI [of _ "length es div 2 < Suc j"]) auto
  qed
qed

declare insert_levels.simps [simp del]

lemma insert_levels_at:
  assumes "tree_ok st d k b" "at_leaf st d k b p pre kb post" "distinct (tblocks st d b)"
    "\<forall>x\<in>set (tblocks st d b). used st x" "cb \<notin> set (tblocks st d b)" "used st cb" "leaf_of st cb \<noteq> None"
    "sorted_wrt (<) (map fst (pre @ kb # (ck, cb) # post))" "wf_sb st" "int d \<le> freeblocks st" "2 \<le> node_max st"
    "\<forall>(x, n)\<in>set p. n \<noteq> None \<and> atomic st \<longrightarrow> t_dirty st x" "path c = up @ leaf_put cb keep p"
    "keep_ok (node_max st) (node_stack st p @ us) keep"
  shows "(\<exists>st' p'. insert_levels st c (length up + d) ck cb keep = Some (Inr (), st', c\<lparr>path := up @ p'\<rparr>)
      \<and> ends_in st cb d k b st' p' (new_pre keep pre kb) (new_at keep kb (ck, cb)) (new_post keep (ck, cb) post))
    \<or> (\<exists>st' p' nk nb keep' right. insert_levels st c (length up + d) ck cb keep
        = insert_levels st' (c\<lparr>path := up @ p'\<rparr>) (length up) nk nb keep'
      \<and> splits_to st cb d k b st' p' nk nb right (new_pre keep pre kb) (new_at keep kb (ck, cb)) (new_post keep (ck, cb) post)
      \<and> fst (hd p') = (if right then nb else b) \<and> keep_ok (node_max st) us keep' \<and> (us = [] \<or> (keep' \<longleftrightarrow> \<not> right)))"
  using assms
proof (induction d arbitrary: k b p pre post up us)
  case 0
  have p: "p = [(b, None)]" "pre = []" "kb = (k, b)" "post = []" using 0(2) by auto
  let ?p = "leaf_put cb keep p"
  have "path c = up @ ?p" by (rule 0(13))
  then have c: "c\<lparr>path := up @ ?p\<rparr> = c" by (cases c) simp
  have "splits_to st cb 0 k b st ?p ck cb (\<not> keep) (new_pre keep pre kb) (new_at keep kb (ck, cb)) (new_post keep (ck, cb) post)"
    using 0(1,4-7,9) grows_refl [OF 0(9)]
    by (auto simp: splits_to_def fresh_blocks_def place2_def leaf_put_def new_pre_def new_at_def new_post_def p)
  moreover have "fst (hd ?p) = (if \<not> keep then cb else b)" by (simp add: leaf_put_def p)
  moreover have "keep_ok (node_max st) us keep" using 0(14) by (simp add: p)
  ultimately show ?case
    by (intro disjI2 exI [of _ st] exI [of _ ?p] exI [of _ ck] exI [of _ cb] exI [of _ keep] exI [of _ "\<not> keep"]) (simp add: c)
next
  case (Suc d)
  from Suc.prems(2,1) obtain es j k' c' rest pre' post' where a: "node_of st b = Some es" "p = (b, Some (Suc j)) # rest" "j < length es"
    "es ! j = (k', c')" "at_leaf st d k' c' rest pre' kb post'" "tree_ok st d k' c'" "\<forall>(k, c)\<in>set es. tree_ok st d k c"
    "pre = seq st d (take j es) @ pre'" "post = post' @ seq st d (drop (Suc j) es)" by (rule at_leaf_Suc_ok)
  have tb: "tblocks st (Suc d) b = b # bseq st d (take j es) @ tblocks st d c' @ bseq st d (drop (Suc j) es)"
    using tblocks_Suc [OF a(1), of d] bseq_split [OF a(3,4), of st d] by simp
  let ?up = "up @ [(b, Some (Suc j))]" and ?us = "(Suc j, length es) # us"
  have rest: "rest \<noteq> []" using at_leaf_length [OF a(5)] by auto
  have pa: "path c = ?up @ leaf_put cb keep rest" using Suc.prems(13) a(2) leaf_put_Cons [OF rest] by simp
  have st: "keep_ok (node_max st) (node_stack st rest @ ?us) keep" using Suc.prems(14) a(1,2) by simp
  note lc = level_outcome [OF a(1,3,4) Suc.prems(1,3,4,5)]
  have seqs: "sorted_wrt (<) (map fst (seq st d (take j es) @ (new_pre keep pre' kb @ new_at keep kb (ck, cb)
      # new_post keep (ck, cb) post') @ seq st d (drop (Suc j) es)))"
    using Suc.prems(8) unfolding new_seq a(8,9) by simp
  have own: "distinct (tblocks st d c')" "\<forall>x\<in>set (tblocks st d c'). used st x" "cb \<notin> set (tblocks st d c')"
    using Suc.prems(3,4,5) unfolding tb by simp_all
  have srt: "sorted_wrt (<) (map fst (pre' @ kb # (ck, cb) # post'))"
    using Suc.prems(8) unfolding a(8,9) by (simp add: sorted_wrt_append)
  have fr: "int d \<le> freeblocks st" using Suc.prems(10) by simp
  have dirty: "\<forall>(x, n)\<in>set rest. n \<noteq> None \<and> atomic st \<longrightarrow> t_dirty st x" using Suc.prems(12) a(2) by simp
  have IH: "(\<exists>st' p'. insert_levels st c (length ?up + d) ck cb keep = Some (Inr (), st', c\<lparr>path := ?up @ p'\<rparr>)
      \<and> ends_in st cb d k' c' st' p' (new_pre keep pre' kb) (new_at keep kb (ck, cb)) (new_post keep (ck, cb) post'))
    \<or> (\<exists>st' p' nk nb keep' right. insert_levels st c (length ?up + d) ck cb keep
        = insert_levels st' (c\<lparr>path := ?up @ p'\<rparr>) (length ?up) nk nb keep'
      \<and> splits_to st cb d k' c' st' p' nk nb right (new_pre keep pre' kb) (new_at keep kb (ck, cb)) (new_post keep (ck, cb) post')
      \<and> fst (hd p') = (if right then nb else c') \<and> keep_ok (node_max st) ?us keep' \<and> (?us = [] \<or> (keep' \<longleftrightarrow> \<not> right)))"
    by (rule Suc.IH [OF a(6,5) own Suc.prems(6,7) srt Suc.prems(9) fr Suc.prems(11) dirty pa st])
  then consider
      (ended) st' p' where "insert_levels st c (length ?up + d) ck cb keep = Some (Inr (), st', c\<lparr>path := ?up @ p'\<rparr>)"
        "ends_in st cb d k' c' st' p' (new_pre keep pre' kb) (new_at keep kb (ck, cb)) (new_post keep (ck, cb) post')"
    | (split) st' p' nk nb keep' right where
        "insert_levels st c (length ?up + d) ck cb keep = insert_levels st' (c\<lparr>path := ?up @ p'\<rparr>) (length ?up) nk nb keep'"
        "splits_to st cb d k' c' st' p' nk nb right (new_pre keep pre' kb) (new_at keep kb (ck, cb)) (new_post keep (ck, cb) post')"
        "keep_ok (node_max st) ?us keep'" "keep' \<longleftrightarrow> \<not> right" by blast
  then show ?case
  proof cases
    case ended
    from ends_in_parent [OF a(1,3,4) Suc.prems(1,3,4,5) ended(2)] ended(1)
    show ?thesis unfolding a(8,9) new_append by (intro disjI1) fastforce
  next
    case split
    have pc: "path (c\<lparr>path := ?up @ p'\<rparr>) = up @ (b, Some (Suc j)) # p'" by simp
    have dirty: "atomic st \<longrightarrow> t_dirty st b" using Suc.prems(12) a(2) by auto
    have eq: "insert_levels st c (length up + Suc d) ck cb keep = insert_levels st' (c\<lparr>path := ?up @ p'\<rparr>) (Suc (length up)) nk nb keep'"
      using split(1) by simp
    show ?thesis
      using lc [OF split(2) seqs Suc.prems(10,11) dirty pc split(3,4)] unfolding a(8,9) new_append eq path_append(3) .
  qed
qed

section \<open>The whole insertion\<close>

text \<open>What \<open>insert_leaf\<close> is called with.\<close>

definition insert_ready ::
  "'l btree_ops \<Rightarrow> ('l, 'a) tree_scheme \<Rightarrow> cursor \<Rightarrow> (nat \<times> nat) list \<Rightarrow> nat \<times> nat \<Rightarrow> (nat \<times> nat) list
    \<Rightarrow> nat \<Rightarrow> nat \<Rightarrow> bool \<Rightarrow> bool" where
  "insert_ready ops st c pre kb post ck cb keep \<longleftrightarrow> wf_tree ops st \<and> wf_sb st \<and> (\<forall>x\<in>set (tree_blocks st). used st x)
     \<and> cursor_at st c pre kb post \<and> root_depth (t_root st) + 1 < maxlen c
     \<and> fst kb < ck \<and> (post = [] \<or> ck < fst (hd post))
     \<and> used st cb \<and> cb \<notin> set (tree_blocks st) \<and> (case leaf_of st cb of Some l \<Rightarrow> leaf_sniff ops l | None \<Rightarrow> False)
     \<and> 2 \<le> node_max st \<and> int (root_depth (t_root st)) < freeblocks st
     \<and> (\<forall>(x, n)\<in>set (path c). n \<noteq> None \<and> atomic st \<longrightarrow> t_dirty st x)
     \<and> keep_ok (node_max st) (node_stack st (path c)) keep"

lemma add_root:
  assumes s: "splits_to st cb d 0 b st1 p nk nb right pre kb post" and free: "int d < freeblocks st"
    and c: "path c = p" "Suc d < maxlen c" "fst (hd p) = (if right then nb else b)"
    and r: "root_block (t_root st) = b" "root_depth (t_root st) = d"
    and srt: "sorted_wrt (<) (map fst (pre @ kb # post))" and nm: "2 \<le> node_max st"
  shows "\<exists>st2 rb. insert_levels st1 c 0 nk nb keep = Some (Inr (), st2, c\<lparr>path := (rb, Some (if right then 2 else 1)) # p\<rparr>)
    \<and> grows (set (tblocks st d b)) (Suc d) st (st2\<lparr>t_root := t_root st\<rparr>) \<and> t_root st2 = \<lparr>root_depth = Suc d, root_block = rb\<rparr>
    \<and> tree_ok st2 (Suc d) 0 rb \<and> fresh_blocks st st2 (insert cb (set (tblocks st d b))) (tblocks st2 (Suc d) rb)
    \<and> at_leaf st2 (Suc d) 0 rb ((rb, Some (if right then 2 else 1)) # p) pre kb post"
proof -
  have e: "grows (set (tblocks st d b)) d st st1" "tree_ok st1 d 0 b" "tree_ok st1 d nk nb"
    "fresh_blocks st st1 (insert cb (set (tblocks st d b))) (tblocks st1 d b @ tblocks st1 d nb)"
    "place2 st1 d 0 b nk nb p right pre kb post" using s by (auto simp: splits_to_def)
  let ?es = "[(0, b), (nk, nb)]" and ?i = "if right then 1 else 0 :: nat"
  have ne: "b \<noteq> nb" using e(4) tblocks_self [of b st1 d] tblocks_self [of nb st1 d] by (auto simp: fresh_blocks_def)
  have "wf_sb st1" "0 < freeblocks st1" using growsD(1,5) [OF e(1)] free by auto
  then obtain rb st' where n: "new_node st1 = Some (Inr rb, st')" "\<not> used st1 rb" "\<And>x. used st' x \<longleftrightarrow> used st1 x \<or> x = rb"
    "grows {} 1 st1 st'" "cache st' = (cache st1)(rb \<mapsto> Node [])" "atomic st1 \<Longrightarrow> t_dirty st' rb" using new_node_ok by metis
  define s1 where "s1 = add_log (put_block st' rb (Node ?es)) (Bnode_root rb 2 b nb nk)"
  define s2 where "s2 = s1\<lparr>t_root := \<lparr>root_depth = Suc d, root_block = rb\<rparr>\<rparr>"
  define st2 where "st2 = mark_buffer_dirty s2 rb"
  have fields: "cache st2 = (cache st1)(rb \<mapsto> Node ?es)" "t_root st2 = \<lparr>root_depth = Suc d, root_block = rb\<rparr>"
    "node_max st2 = node_max st1" "used st2 = used st'"
    using n(5) growsD(2) [OF n(4)] by (simp_all add: st2_def s2_def s1_def)
  have tr: "t_root st1 = t_root st" "t_root st' = t_root st" using growsD(4) [OF e(1)] growsD(4) [OF n(4)] by simp_all
  obtain k2 c2 pre2 post2 where x: "?es ! ?i = (k2, c2)" "at_leaf st1 d k2 c2 p pre2 kb post2"
    "seq st1 d (take ?i ?es) @ pre2 = pre" "post2 @ seq st1 d (drop (Suc ?i) ?es) = post"
    using e(5) by (auto simp: place2_def split: if_splits)
  have "\<forall>(k, c)\<in>set ?es. tree_ok st1 d k c" using e(2,3) by simp
  moreover have "x \<noteq> rb" if "x \<in> set (bseq st1 d ?es)" for x using e(4) n(2) that by (auto simp: fresh_blocks_def)
  then have "\<forall>x\<in>set (bseq st1 d ?es). cache st2 x = cache st1 x" using fields(1) by auto
  ultimately have f: "\<forall>(k, c)\<in>set ?es. tree_ok st2 d k c" "bseq st2 d ?es = bseq st1 d ?es" "at_leaf st2 d k2 c2 p pre2 kb post2"
    "seq st2 d (take n ?es) = seq st1 d (take n ?es)" "seq st2 d (drop n ?es) = seq st1 d (drop n ?es)" for n
    using kids_frame [of ?es st1 d st2 ?i k2 c2 p pre2 kb post2] fields(3) x(1,2) by auto
  have nd: "node_of st2 rb = Some ?es" using fields(1) by (simp add: node_of_cache)
  have "0 < nk"
  proof -
    obtain c1 y1 c2 y2 where "leaves st1 d 0 b = (0, c1) # y1" "leaves st1 d nk nb = (nk, c2) # y2"
      using leaves_first [OF e(2)] leaves_first [OF e(3)] by auto
    then show ?thesis using srt place2_leaves [OF e(5)] by (simp add: sorted_wrt_append)
  qed
  then have ok: "tree_ok st2 (Suc d) 0 rb" using nd f(1) nm fields(3) growsD(2) [OF e(1)] by simp
  have ri: "Suc ?i = (if right then 2 else 1)" by simp
  have at: "at_leaf st2 (Suc d) 0 rb ((rb, Some (if right then 2 else 1)) # p) pre kb post"
    using at_leafI [OF nd _ x(1) f(3), of 0] f(4,5) x(3,4) unfolding ri by simp
  have "grows (set (tblocks st d b)) (Suc d) st st'" by (rule grows_trans [OF e(1) n(4)]) auto
  then have "grows (set (tblocks st d b)) (Suc d) st (st2\<lparr>t_root := t_root st\<rparr>)"
    using n(2) growsD(6) [OF e(1)] by (auto simp: grows_def st2_def s2_def s1_def)
  moreover have "fresh_blocks st st2 (insert cb (set (tblocks st d b))) (tblocks st2 (Suc d) rb)"
    using e(4) n(2,3) fields(4) growsD(6) [OF e(1)] unfolding tblocks_Suc [OF nd] f(2) by (auto simp: fresh_blocks_def)
  moreover have "insert_levels st1 c 0 nk nb keep = Some (Inr (), st2, c\<lparr>path := (rb, Some (if right then 2 else 1)) # p\<rparr>)"
  proof -
    have len: "length p = Suc d" using e(5) by (auto simp: place2_def split: if_splits dest: at_leaf_length)
    have left: "fst (path c ! 0) \<noteq> nb \<longleftrightarrow> \<not> right" using c(1,3) len ne by (cases p) auto
    have mark: "mark_buffer_rollup_non s2 rb = Some st2" unfolding st2_def
      using n(6) growsD(3) [OF n(4)] by (intro rollup_non_dirty) (simp add: s2_def s1_def)
    have chk: "cursor_check st2 (c\<lparr>path := (rb, Some (if right then 2 else 1)) # p\<rparr>)"
      unfolding cursor_check_def using at_leaf_check [OF at ok, of 0] fields(2) by simp
    have root: "level_root_add c rb (Some (if \<not> right then 1 else 2)) = Some (c\<lparr>path := (rb, Some (if right then 2 else 1)) # p\<rparr>)"
      using c(1,2) len by (simp add: level_root_add_def cursor_len_def)
    show ?thesis
      using n(1) mark chk tr r
      by (simp add: insert_levels.simps(1) left root s1_def [symmetric] s2_def Let_def)
  qed
  ultimately show ?thesis using ok at fields(2) by blast
qed

lemma leaves_blocks:
  "tree_ok st d k b \<Longrightarrow> (k', x) \<in> set (leaves st d k b) \<Longrightarrow> x \<in> set (tblocks st d b) \<and> leaf_of st x \<noteq> None"
proof (induction d arbitrary: k b)
  case (Suc d)
  from Suc.prems(1) obtain es where es: "node_of st b = Some es" "\<forall>(k, c)\<in>set es. tree_ok st d k c" by (rule tree_ok_Suc)
  obtain k2 c where kc: "(k2, c) \<in> set es" "(k', x) \<in> set (leaves st d k2 c)"
    using Suc.prems(2) unfolding leaves_Suc [OF es(1)] by (auto simp: seq_def)
  have "tree_ok st d k2 c" using es(2) kc(1) by auto
  from Suc.IH [OF this kc(2)] show ?case using kc(1) tblocks_Suc [OF es(1), of d] by (auto simp: in_bseq)
qed simp

lemma leaf_of_cache: "leaf_of st b = Some l \<longleftrightarrow> cache st b = Some (Leaf l)"
  by (auto simp: leaf_of_def split: option.splits tblock.splits)

text \<open>What holds after it.\<close>

definition inserted ::
  "'l btree_ops \<Rightarrow> ('l, 'a) tree_scheme \<Rightarrow> nat \<Rightarrow> ('l, 'a) tree_scheme \<Rightarrow> cursor
    \<Rightarrow> (nat \<times> nat) list \<Rightarrow> nat \<times> nat \<Rightarrow> (nat \<times> nat) list \<Rightarrow> bool" where
  "inserted ops st cb st' c' pre kb post \<longleftrightarrow> wf_tree ops st' \<and> wf_sb st' \<and> cursor_at st' c' pre kb post
     \<and> (\<forall>x\<in>set (tree_blocks st'). used st' x \<and> (x \<in> set (tree_blocks st) \<or> x = cb \<or> \<not> used st x))
     \<and> (\<forall>x. used st x \<longrightarrow> used st' x) \<and> (\<forall>x l. used st x \<and> cache st x = Some (Leaf l) \<longrightarrow> cache st' x = Some (Leaf l))"

lemma insertedI:
  assumes "grows B n st (st'\<lparr>t_root := t_root st\<rparr>)" "t_root st' = \<lparr>root_depth = d, root_block = b\<rparr>" "has_root (t_root st')"
    "tree_ok st' d 0 b" "fresh_blocks st st' (insert cb (set (tree_blocks st))) (tblocks st' d b)" "at_leaf st' d 0 b (path c') pre kb post"
    "d < maxlen c'" "sorted_wrt (<) (map fst (pre @ kb # post))"
    "\<forall>(k, x)\<in>set (pre @ kb # post). used st x \<and> (\<exists>l. cache st x = Some (Leaf l) \<and> leaf_sniff ops l)"
  shows "inserted ops st cb st' c' pre kb post"
proof -
  have at: "cursor_at st' c' pre kb post" using assms(2,6,7) by (simp add: cursor_at_def)
  have keep: "cache st' x = Some (Leaf l)" if "used st x" "cache st x = Some (Leaf l)" for x l
    using growsD(9) [OF assms(1) that] by simp
  have "\<forall>(k, x)\<in>set (leaf_seq st'). leaf_sniff ops (the (leaf_of st' x))"
    using assms(9) keep unfolding cursor_at_leaves [OF at] leaf_of_def by fastforce
  then have "wf_tree ops st'"
    using assms(2-5,8) cursor_at_leaves [OF at] by (auto simp: wf_tree_def tree_blocks_def fresh_blocks_def)
  moreover have "wf_sb st'" using growsD(1) [OF assms(1)] by simp
  moreover have "used st x \<Longrightarrow> used st' x" for x using growsD(6) [OF assms(1), of x] by simp
  ultimately show ?thesis using at keep assms(2,5) by (auto simp: inserted_def tree_blocks_def fresh_blocks_def)
qed

lemma insert_leaf_start:
  assumes "at_leaf st d k b (path c) pre kb post" "d < maxlen c"
  shows "insert_leaf st c ck cb keep = insert_levels st (c\<lparr>path := leaf_put cb keep (path c)\<rparr>) (root_depth (t_root st)) ck cb keep"
proof (cases keep)
  case True
  then show ?thesis by (simp add: insert_leaf_def leaf_put_def)
next
  case False
  obtain q x where p: "path c = q @ [x]" "length q = d" using at_leaf_length [OF assms(1)] by (cases "path c" rule: rev_cases) auto
  then show ?thesis
    using False assms(2) level_pop_ok [of c q "fst x" "snd x"] by (simp add: insert_leaf_def leaf_put_def level_push_ok)
qed

lemma insert_ready_facts:
  assumes "insert_ready ops st c pre kb post ck cb keep"
  defines "d \<equiv> root_depth (t_root st)" and "b \<equiv> root_block (t_root st)"
  shows "has_root (t_root st)" "tree_ok st d 0 b" "distinct (tblocks st d b)" "\<forall>x\<in>set (tblocks st d b). used st x"
    "at_leaf st d 0 b (path c) pre kb post" "d + 1 < maxlen c" "cb \<notin> set (tblocks st d b)" "used st cb" "leaf_of st cb \<noteq> None"
    "sorted_wrt (<) (map fst (pre @ kb # (ck, cb) # post))" "wf_sb st" "2 \<le> node_max st" "int d < freeblocks st"
    "\<forall>(x, n)\<in>set (path c). n \<noteq> None \<and> atomic st \<longrightarrow> t_dirty st x" "keep_ok (node_max st) (node_stack st (path c)) keep"
    "\<forall>(k, x)\<in>set (pre @ kb # (ck, cb) # post). used st x \<and> (\<exists>l. cache st x = Some (Leaf l) \<and> leaf_sniff ops l)"
proof -
  have wf: "tree_ok st d 0 b" "\<forall>x\<in>set (tblocks st d b). used st x" "sorted_wrt (<) (map fst (leaf_seq st))"
    "\<forall>(k, b)\<in>set (leaf_seq st). leaf_sniff ops (the (leaf_of st b))"
    using assms by (auto simp: insert_ready_def wf_tree_def tree_blocks_def)
  have ls: "leaf_seq st = pre @ kb # post" using assms by (auto simp: insert_ready_def dest: cursor_at_leaves)
  have "used st x \<and> (\<exists>l. cache st x = Some (Leaf l) \<and> leaf_sniff ops l)" if "(k, x) \<in> set (leaf_seq st)" for k x
    using that wf(2,4) leaves_blocks [OF wf(1)] unfolding leaf_seq_def d_def b_def by (fastforce simp: leaf_of_cache)
  moreover have "\<exists>l. cache st cb = Some (Leaf l) \<and> leaf_sniff ops l" and cb: "used st cb"
    using assms by (auto simp: insert_ready_def leaf_of_cache split: option.splits)
  ultimately show "\<forall>(k, x)\<in>set (pre @ kb # (ck, cb) # post). used st x \<and> (\<exists>l. cache st x = Some (Leaf l) \<and> leaf_sniff ops l)"
    unfolding ls by auto
  show "sorted_wrt (<) (map fst (pre @ kb # (ck, cb) # post))"
    using assms wf(3) unfolding ls by (cases post) (auto simp: insert_ready_def sorted_wrt_append)
qed (use assms in \<open>auto simp: insert_ready_def wf_tree_def tree_blocks_def cursor_at_def split: option.splits\<close>)

lemma insert_levels_top:
  assumes "insert_ready ops st c pre kb post ck cb keep"
  shows "\<exists>st' c'. insert_levels st (c\<lparr>path := leaf_put cb keep (path c)\<rparr>) (root_depth (t_root st)) ck cb keep = Some (Inr (), st', c')
    \<and> inserted ops st cb st' c' (new_pre keep pre kb) (new_at keep kb (ck, cb)) (new_post keep (ck, cb) post)"
proof -
  let ?d = "root_depth (t_root st)" and ?b = "root_block (t_root st)" and ?c = "c\<lparr>path := leaf_put cb keep (path c)\<rparr>"
  note f = insert_ready_facts [OF assms]
  have pa: "path ?c = [] @ leaf_put cb keep (path c)" by simp
  have sp: "set (tree_blocks st) = set (tblocks st ?d ?b)" by (simp add: tree_blocks_def)
  have fr: "int ?d \<le> freeblocks st" and ko: "keep_ok (node_max st) (node_stack st (path c) @ []) keep" using f(13,15) by simp_all
  note srt = f(10) [folded new_seq [of keep]] and lf = f(16) [folded new_seq [of keep]]
  from insert_levels_at [OF f(2,5,3,4,7-11) fr f(12,14) pa ko]
  consider
      (ended) st' p' where "insert_levels st ?c ?d ck cb keep = Some (Inr (), st', c\<lparr>path := p'\<rparr>)"
        "ends_in st cb ?d 0 ?b st' p' (new_pre keep pre kb) (new_at keep kb (ck, cb)) (new_post keep (ck, cb) post)"
    | (split) st' p' nk nb keep' right where "insert_levels st ?c ?d ck cb keep = insert_levels st' (c\<lparr>path := p'\<rparr>) 0 nk nb keep'"
        "splits_to st cb ?d 0 ?b st' p' nk nb right (new_pre keep pre kb) (new_at keep kb (ck, cb)) (new_post keep (ck, cb) post)"
        "fst (hd p') = (if right then nb else ?b)" by auto
  then show ?thesis
  proof cases
    case ended
    then have e: "grows (set (tblocks st ?d ?b)) ?d st st'" "tree_ok st' ?d 0 ?b"
      "fresh_blocks st st' (insert cb (set (tblocks st ?d ?b))) (tblocks st' ?d ?b)"
      "at_leaf st' ?d 0 ?b p' (new_pre keep pre kb) (new_at keep kb (ck, cb)) (new_post keep (ck, cb) post)" by (simp_all add: ends_in_def)
    have r: "t_root st' = t_root st" using growsD(4) [OF e(1)] .
    have g: "grows (set (tblocks st ?d ?b)) ?d st (st'\<lparr>t_root := t_root st\<rparr>)" using e(1) unfolding r [symmetric] by simp
    have rt: "t_root st' = \<lparr>root_depth = ?d, root_block = ?b\<rparr>" unfolding r by simp
    have "inserted ops st cb st' (c\<lparr>path := p'\<rparr>) (new_pre keep pre kb) (new_at keep kb (ck, cb)) (new_post keep (ck, cb) post)"
      by (rule insertedI [OF g rt _ e(2) _ _ _ srt lf]) (use e(3,4) r f(1,6) sp in simp_all)
    with ended(1) show ?thesis by blast
  next
    case split
    from add_root [OF split(2) f(13) _ _ _ refl refl srt f(12), of "c\<lparr>path := p'\<rparr>" keep'] split(3) f(6)
    obtain st2 rb where e: "insert_levels st' (c\<lparr>path := p'\<rparr>) 0 nk nb keep' = Some (Inr (), st2, c\<lparr>path := (rb, Some (if right then 2 else 1)) # p'\<rparr>)"
      "grows (set (tblocks st ?d ?b)) (Suc ?d) st (st2\<lparr>t_root := t_root st\<rparr>)" "t_root st2 = \<lparr>root_depth = Suc ?d, root_block = rb\<rparr>"
      "tree_ok st2 (Suc ?d) 0 rb" "fresh_blocks st st2 (insert cb (set (tblocks st ?d ?b))) (tblocks st2 (Suc ?d) rb)"
      "at_leaf st2 (Suc ?d) 0 rb ((rb, Some (if right then 2 else 1)) # p') (new_pre keep pre kb) (new_at keep kb (ck, cb)) (new_post keep (ck, cb) post)"
      by auto
    have "inserted ops st cb st2 (c\<lparr>path := (rb, Some (if right then 2 else 1)) # p'\<rparr>)
        (new_pre keep pre kb) (new_at keep kb (ck, cb)) (new_post keep (ck, cb) post)"
      by (rule insertedI [OF e(2,3) _ e(4) _ _ _ srt lf]) (use e(3,5,6) sp f(6) in \<open>simp_all add: has_root_def no_root_def\<close>)
    with split(1) e(1) show ?thesis by auto
  qed
qed

text \<open>C4. 
  \<open>insert_leaf\<close> puts the new leaf behind the leaf of the cursor and keeps the tree well formed,
  whether nodes have to be split, up to a new root, or not. Every other leaf is as before, and the
  cursor stays at the old leaf or goes to the new one.
\<close>
theorem insert_leaf_correct:
  assumes "insert_ready ops st c pre kb post ck cb keep"
  shows "\<exists>st' c'. insert_leaf st c ck cb keep = Some (Inr (), st', c')
    \<and> leaf_seq st' = pre @ kb # (ck, cb) # post
    \<and> inserted ops st cb st' c' (if keep then pre else pre @ [kb]) (if keep then kb else (ck, cb)) (if keep then (ck, cb) # post else post)"
proof -
  let ?c = "c\<lparr>path := leaf_put cb keep (path c)\<rparr>"
  note f = insert_ready_facts [OF assms]
  have start: "insert_leaf st c ck cb keep = insert_levels st ?c (root_depth (t_root st)) ck cb keep"
    using insert_leaf_start [OF f(5)] f(6) by simp
  obtain st' c' where r: "insert_levels st ?c (root_depth (t_root st)) ck cb keep = Some (Inr (), st', c')"
    "inserted ops st cb st' c' (new_pre keep pre kb) (new_at keep kb (ck, cb)) (new_post keep (ck, cb) post)"
    using insert_levels_top [OF assms] by blast
  have "leaf_seq st' = pre @ kb # (ck, cb) # post"
    using r(2) unfolding inserted_def by (metis cursor_at_leaves new_seq)
  then show ?thesis using r start unfolding new_pre_def new_at_def new_post_def by auto
qed

end
