(* ===== verification/Tux_Expand.thy ===== *)
theory Tux_Expand
  imports Tux_Insert
begin

text \<open>
  Splitting a leaf and making room in it: \<open>btree_leaf_split\<close> and \<open>tree_expand\<close>, for any leaf
  type, on top of the insertion.
\<close>

definition leaf_ready ::
  "'l btree_ops \<Rightarrow> ('l, 'a) tree_scheme \<Rightarrow> cursor \<Rightarrow> (nat \<times> nat) list \<Rightarrow> nat \<times> nat \<Rightarrow> (nat \<times> nat) list \<Rightarrow> bool" where
  "leaf_ready ops st c pre kb post \<longleftrightarrow> wf_tree ops st \<and> wf_sb st \<and> (\<forall>x\<in>set (tree_blocks st). used st x)
     \<and> cursor_at st c pre kb post \<and> 0 < root_depth (t_root st) \<and> root_depth (t_root st) + 1 < maxlen c
     \<and> 2 \<le> node_max st \<and> int (root_depth (t_root st) + 1) < freeblocks st
     \<and> (\<forall>(x, n)\<in>set (path c). atomic st \<longrightarrow> t_dirty st x)"

text \<open>A split that gives two good leaves, with the key of the new one between its neighbours.\<close>

definition split_ok ::
  "'l btree_ops \<Rightarrow> nat \<Rightarrow> nat \<Rightarrow> 'l \<Rightarrow> (nat \<times> nat) list \<Rightarrow> nat \<Rightarrow> 'l \<Rightarrow> 'l \<Rightarrow> bool" where
  "split_ok ops key k leaf post nk l r \<longleftrightarrow> leaf_split ops key leaf (leaf_init ops) = Some (nk, l, r)
     \<and> leaf_sniff ops l \<and> leaf_sniff ops r \<and> k < nk \<and> (post = [] \<or> nk < fst (hd post))"

lemma cursor_leafbuf_at: "at_leaf st d k b (path c) pre kb post \<Longrightarrow> 0 < d \<Longrightarrow> cursor_leafbuf c = Some (snd kb)"
proof -
  assume at: "at_leaf st d k b (path c) pre kb post" and d: "0 < d"
  have l: "length (path c) = Suc d" "fst (last (path c)) = snd kb" using at_leaf_length [OF at] by auto
  then have "fst (path c ! d) = snd kb" by (metis diff_Suc_1 last_conv_nth length_0_conv nat.distinct(1))
  then show ?thesis using l(1) d by (simp add: cursor_leafbuf_def cursor_len_def)
qed

lemma leaf_readyD:
  assumes "leaf_ready ops st c pre kb post"
  shows "tree_ok st (root_depth (t_root st)) 0 (root_block (t_root st))" "wf_sb st" "leaf_seq st = pre @ kb # post"
    "cursor_leafbuf c = Some (snd kb)" "snd kb \<in> set (tree_blocks st)" "leaf_of st (snd kb) \<noteq> None"
    "snd kb \<in> fst ` set (path c)"
proof -
  have ok: "tree_ok st (root_depth (t_root st)) 0 (root_block (t_root st))" and d: "0 < root_depth (t_root st)"
    and at: "cursor_at st c pre kb post" and "wf_sb st" using assms by (auto simp: leaf_ready_def wf_tree_def)
  then show "tree_ok st (root_depth (t_root st)) 0 (root_block (t_root st))" "wf_sb st" by auto
  show ls: "leaf_seq st = pre @ kb # post" using cursor_at_leaves [OF at] .
  have al: "at_leaf st (root_depth (t_root st)) 0 (root_block (t_root st)) (path c) pre kb post" using at by (simp add: cursor_at_def)
  show "cursor_leafbuf c = Some (snd kb)" by (rule cursor_leafbuf_at [OF al d])
  have "(fst kb, snd kb) \<in> set (leaf_seq st)" unfolding ls by simp
  from leaves_blocks [OF ok this [unfolded leaf_seq_def]]
  show "snd kb \<in> set (tree_blocks st)" "leaf_of st (snd kb) \<noteq> None" by (auto simp: tree_blocks_def)
  have "length (path c) = Suc (root_depth (t_root st)) \<and> fst (last (path c)) = snd kb"
    using at at_leaf_length by (fastforce simp: cursor_at_def)
  then show "snd kb \<in> fst ` set (path c)" by (metis image_eqI last_in_set length_greater_0_conv zero_less_Suc)
qed

text \<open>Writing leaves of the tree, and blocks outside it, keeps the tree and the cursor.\<close>

lemma wf_tree_struct:
  fixes st st' :: "('l, 'a) tree_scheme"
  assumes "wf_tree ops st" "\<forall>x\<in>set (tree_blocks st). same_at st st' x" "node_max st' = node_max st" "t_root st' = t_root st"
    "\<forall>(k, x)\<in>set (leaf_seq st). leaf_sniff ops (the (leaf_of st' x))"
  shows "wf_tree ops st'" "leaf_seq st' = leaf_seq st" "tree_blocks st' = tree_blocks st"
    "cursor_at st c pre kb post \<Longrightarrow> cursor_at st' c pre kb post"
proof -
  have ok: "tree_ok st (root_depth (t_root st)) 0 (root_block (t_root st))" using assms(1) by (simp add: wf_tree_def)
  have sm: "same_at st st' x" if "x \<in> set (tblocks st (root_depth (t_root st)) (root_block (t_root st)))" for x
    using assms(2) that by (simp add: tree_blocks_def)
  note f = tree_struct [OF ok sm assms(3)]
  show ls: "leaf_seq st' = leaf_seq st" and tb: "tree_blocks st' = tree_blocks st"
    using f(2,3) assms(4) by (simp_all add: leaf_seq_def tree_blocks_def)
  have "tree_ok st' (root_depth (t_root st)) 0 (root_block (t_root st))" using f(1) by simp
  then show "wf_tree ops st'" using assms(1,4,5) unfolding wf_tree_def ls tb by auto
  assume "cursor_at st c pre kb post"
  then show "cursor_at st' c pre kb post"
    using at_leaf_struct [OF _ ok sm assms(3), of "path c" pre kb post] assms(4)
    by (simp add: cursor_at_def)
qed

lemma node_stack_cong: "(\<And>x. x \<in> fst ` set p \<Longrightarrow> node_of st' x = node_of st x) \<Longrightarrow> node_stack st' p = node_stack st p"
  by (induction st p rule: node_stack.induct) auto

lemma path_blocks: "at_leaf st d k b p pre kb post \<Longrightarrow> fst ` set p \<subseteq> set (tblocks st d b)"
proof (induction d arbitrary: k b p pre post)
  case (Suc d)
  from Suc.prems obtain es j k' c rest pre' post' where a: "node_of st b = Some es" "p = (b, Some (Suc j)) # rest"
    "j < length es" "es ! j = (k', c)" "at_leaf st d k' c rest pre' kb post'" by (rule at_leaf_Suc)
  have "set (tblocks st d c) \<subseteq> set (bseq st d es)" using nth_mem [OF a(3)] a(4) by (auto simp: in_bseq) blast
  then show ?case using Suc.IH [OF a(5)] unfolding tblocks_Suc [OF a(1)] a(2) by auto
qed simp

lemma seq_distinct:
  assumes "\<And>k c. (k, c) \<in> set es \<Longrightarrow> distinct (map snd (leaves st d k c)) \<and> snd ` set (leaves st d k c) \<subseteq> set (tblocks st d c)"
    "distinct (bseq st d es)"
  shows "distinct (map snd (seq st d es)) \<and> snd ` set (seq st d es) \<subseteq> set (bseq st d es)"
  using assms
proof (induction es)
  case (Cons e es)
  obtain k c where e: "e = (k, c)" by (cases e)
  have "distinct (map snd (seq st d es)) \<and> snd ` set (seq st d es) \<subseteq> set (bseq st d es)"
    using Cons.prems by (intro Cons.IH) (auto simp: e)
  moreover have "distinct (map snd (leaves st d k c))" "snd ` set (leaves st d k c) \<subseteq> set (tblocks st d c)"
    using Cons.prems(1) [of k c] by (simp_all add: e)
  moreover have "set (tblocks st d c) \<inter> set (bseq st d es) = {}" using Cons.prems(2) by (simp add: e)
  ultimately show ?case by (auto simp: e)
qed simp

lemma leaves_distinct:
  "tree_ok st d k b \<Longrightarrow> distinct (tblocks st d b) \<Longrightarrow> distinct (map snd (leaves st d k b)) \<and> snd ` set (leaves st d k b) \<subseteq> set (tblocks st d b)"
proof (induction d arbitrary: k b)
  case (Suc d)
  from Suc.prems(1) obtain es where es: "node_of st b = Some es" "\<forall>(k, c)\<in>set es. tree_ok st d k c" by (rule tree_ok_Suc)
  have dis: "distinct (bseq st d es)" using Suc.prems(2) unfolding tblocks_Suc [OF es(1)] by simp
  have "distinct (tblocks st d c)" if "(k, c) \<in> set es" for k c
    using dis that by (metis bseq_def case_prod_conv distinct_concat_iff image_eqI list.set_map)
  then have "distinct (map snd (leaves st d k c)) \<and> snd ` set (leaves st d k c) \<subseteq> set (tblocks st d c)" if "(k, c) \<in> set es" for k c
    using Suc.IH es(2) that by blast
  from seq_distinct [OF this dis] show ?case unfolding leaves_Suc [OF es(1)] tblocks_Suc [OF es(1)] by auto
qed simp

text \<open>The state in which \<open>btree_leaf_split\<close> calls \<open>insert_leaf\<close>.\<close>

lemma leaf_split_start:
  assumes "wf_sb st" "0 < freeblocks st" "cursor_leafbuf c = Some b" "used st b" "atomic st \<longrightarrow> t_dirty st b" "leaf_of st b = Some leaf"
    "leaf_split ops key leaf (leaf_init ops) = Some (nk, l, r)"
  shows "\<exists>s5 nb. btree_leaf_split ops st c key = insert_leaf s5 c nk nb (key < nk)
    \<and> cache s5 = (cache st)(b \<mapsto> Leaf l, nb \<mapsto> Leaf r) \<and> \<not> used st nb \<and> (\<forall>x. used s5 x \<longleftrightarrow> used st x \<or> x = nb)
    \<and> wf_sb s5 \<and> node_max s5 = node_max st \<and> atomic s5 = atomic st \<and> t_root s5 = t_root st
    \<and> freeblocks s5 = freeblocks st - 1 \<and> (\<forall>x. t_dirty st x \<longrightarrow> t_dirty s5 x)"
proof -
  obtain nb st1 where n: "new_block st = Some (Inr nb, st1)" "\<not> used st nb" "\<And>x. used st1 x \<longleftrightarrow> used st x \<or> x = nb"
    "grows {} 1 st st1" "cache st1 = cache st" "t_dirty st1 = t_dirty st" "freeblocks st1 = freeblocks st - 1"
    using new_block_ok [OF assms(1,2)] by metis
  have ne: "b \<noteq> nb" using n(2) assms(4) by auto
  note db = assms(5)
  define s3 where "s3 = add_log (mark_buffer_dirty_atomic (put_block st1 nb (Leaf (leaf_init ops))) nb) (Balloc nb 1)"
  define s4 where "s4 = put_block (put_block s3 b (Leaf l)) nb (Leaf r)"
  define s5 where "s5 = mark_buffer_dirty s4 (if key < nk then nb else b)"
  note g = growsD [OF n(4)]
  have d4: "atomic s4 \<longrightarrow> t_dirty s4 (if key < nk then nb else b)" "atomic s4 = atomic st" "\<forall>x. t_dirty st x \<longrightarrow> t_dirty s4 x"
    using db g(3) n(6) by (auto simp: s4_def s3_def mark_buffer_dirty_atomic_def)
  have c3: "cache s3 = (cache st)(nb \<mapsto> Leaf (leaf_init ops))" using n(5) by (simp add: s3_def mark_buffer_dirty_atomic_def)
  have lo: "leaf_of s3 b = Some leaf" "leaf_of s3 nb = Some (leaf_init ops)"
    using c3 ne assms(6) by (simp_all add: leaf_of_cache)
  have "btree_leaf_split ops st c key = insert_leaf s5 c nk nb (key < nk)"
    using n(1) assms(3,7) lo dirty_non_dirty [OF d4(1)] unfolding s5_def s4_def s3_def
    by (simp add: btree_leaf_split_def new_leaf_def Let_def split del: if_split)
  moreover have "cache s5 = (cache st)(b \<mapsto> Leaf l, nb \<mapsto> Leaf r)" using c3 ne by (simp add: s5_def s4_def fun_eq_iff)
  moreover have "used s5 = used st1" "wf_sb s5" "node_max s5 = node_max st" "t_root s5 = t_root st" "freeblocks s5 = freeblocks st - 1"
    using g(1-4) n(7) by (auto simp: s5_def s4_def s3_def mark_buffer_dirty_atomic_def)
  moreover have "atomic s5 = atomic st" "\<forall>x. t_dirty st x \<longrightarrow> t_dirty s5 x" using d4(2,3) by (auto simp: s5_def)
  ultimately show ?thesis using n(2,3) by (intro exI [of _ s5] exI [of _ nb]) simp
qed

lemma leaf_split_ready:
  fixes st s5 :: "('l, 'a) tree_scheme"
  assumes "leaf_ready ops st c pre (k, b) post" "leaf_of st b = Some leaf" "split_ok ops key k leaf post nk l r"
    "keep_ok (node_max st) (node_stack st (path c)) keep"
    and s5: "cache s5 = (cache st)(b \<mapsto> Leaf l, nb \<mapsto> Leaf r)" "\<not> used st nb" "\<forall>x. used s5 x \<longleftrightarrow> used st x \<or> x = nb"
    "wf_sb s5" "node_max s5 = node_max st" "atomic s5 = atomic st" "t_root s5 = t_root st"
    "freeblocks s5 = freeblocks st - 1" "\<forall>x. t_dirty st x \<longrightarrow> t_dirty s5 x"
  shows "insert_ready ops s5 c pre (k, b) post nk nb keep"
proof -
  note R = leaf_readyD [OF assms(1)]
  have L: "wf_tree ops st" "\<forall>x\<in>set (tree_blocks st). used st x" "cursor_at st c pre (k, b) post"
    "root_depth (t_root st) + 1 < maxlen c" "2 \<le> node_max st" "int (root_depth (t_root st) + 1) < freeblocks st"
    "\<forall>(x, n)\<in>set (path c). atomic st \<longrightarrow> t_dirty st x" using assms(1) by (auto simp: leaf_ready_def)
  have S: "leaf_sniff ops l" "leaf_sniff ops r" "k < nk" "post = [] \<or> nk < fst (hd post)" using assms(3) by (auto simp: split_ok_def)
  have new: "x \<noteq> nb" if "x \<in> set (tree_blocks st)" for x using that L(2) s5(2) by auto
  have sm: "\<forall>x\<in>set (tree_blocks st). same_at st s5 x"
    using new assms(2) s5(1) by (auto simp: same_at_def node_of_def leaf_of_def split: option.splits tblock.splits)
  have "leaf_sniff ops (the (leaf_of s5 x))" if "(k', x) \<in> set (leaf_seq st)" for k' x
  proof -
    have "leaf_sniff ops (the (leaf_of st x))" using L(1) that by (auto simp: wf_tree_def)
    moreover have "x \<noteq> nb" using leaves_blocks [OF R(1) that [unfolded leaf_seq_def]] new by (auto simp: tree_blocks_def)
    ultimately show ?thesis using s5(1) S(1) by (simp add: leaf_of_def)
  qed
  then have sn: "\<forall>(k, x)\<in>set (leaf_seq st). leaf_sniff ops (the (leaf_of s5 x))" by auto
  note W = wf_tree_struct [OF L(1) sm s5(5,7) sn]
  have ns: "node_stack s5 (path c) = node_stack st (path c)"
    using L(3) path_blocks sm by (intro node_stack_cong) (fastforce simp: cursor_at_def tree_blocks_def same_at_def)
  show ?thesis
    unfolding insert_ready_def
  proof (intro conjI)
    show "cursor_at s5 c pre (k, b) post" by (rule W(4) [OF L(3)])
    show "case leaf_of s5 nb of None \<Rightarrow> False | Some l \<Rightarrow> leaf_sniff ops l" using s5(1) S(2) by (simp add: leaf_of_def)
    show "\<forall>x\<in>set (tree_blocks s5). used s5 x" "nb \<notin> set (tree_blocks s5)" using W(3) L(2) s5(3) new by auto
    show "\<forall>(x, n)\<in>set (path c). n \<noteq> None \<and> atomic s5 \<longrightarrow> t_dirty s5 x" using L(7) s5(6,9) by auto
    show "keep_ok (node_max s5) (node_stack s5 (path c)) keep" using assms(4) ns s5(5) by simp
    show "int (root_depth (t_root s5)) < freeblocks s5" using L(6) s5(7,8) by simp
  qed (use W(1) L(4,5) s5(3-7) S(3,4) in simp_all)
qed

text \<open>The other leaves are not the one that is split.\<close>

lemma other_leaves:
  assumes "leaf_ready ops st c pre (k, b) post" "(k', x) \<in> set (pre @ post)"
  shows "x \<noteq> b" "x \<in> set (tree_blocks st)" "\<exists>y. cache st x = Some (Leaf y)"
proof -
  note R = leaf_readyD [OF assms(1)]
  have "distinct (map snd (leaf_seq st))"
    using leaves_distinct [OF R(1)] assms(1) by (auto simp: leaf_ready_def wf_tree_def leaf_seq_def tree_blocks_def)
  then show "x \<noteq> b" using assms(2) unfolding R(3) by (auto simp: image_iff)
  have "(k', x) \<in> set (leaf_seq st)" using assms(2) unfolding R(3) by auto
  from leaves_blocks [OF R(1) this [unfolded leaf_seq_def]]
  show "x \<in> set (tree_blocks st)" "\<exists>y. cache st x = Some (Leaf y)" by (auto simp: tree_blocks_def leaf_of_cache)
qed

text \<open>
  \<open>btree_leaf_split\<close> moves the upper part of the cursor's leaf into a new leaf with the key that
  the leaf type chose, and leaves the cursor at the part that the search key belongs to.
\<close>
theorem btree_leaf_split_correct:
  assumes "leaf_ready ops st c pre (k, b) post" "leaf_of st b = Some leaf" "split_ok ops key k leaf post nk l r"
    "keep_ok (node_max st) (node_stack st (path c)) (key < nk)"
  shows "\<exists>st' c' nb. btree_leaf_split ops st c key = Some (Inr (), st', c')
    \<and> leaf_seq st' = pre @ (k, b) # (nk, nb) # post \<and> wf_tree ops st' \<and> wf_sb st' \<and> (\<forall>x\<in>set (tree_blocks st'). used st' x)
    \<and> leaf_of st' b = Some l \<and> leaf_of st' nb = Some r \<and> (\<forall>(k', x)\<in>set (pre @ post). leaf_of st' x = leaf_of st x)
    \<and> (if key < nk then cursor_at st' c' pre (k, b) ((nk, nb) # post) else cursor_at st' c' (pre @ [(k, b)]) (nk, nb) post)"
proof -
  note R = leaf_readyD [OF assms(1), unfolded snd_conv]
  have used: "\<forall>x\<in>set (tree_blocks st). used st x" using assms(1) by (simp add: leaf_ready_def)
  have split: "leaf_split ops key leaf (leaf_init ops) = Some (nk, l, r)" using assms(3) by (simp add: split_ok_def)
  obtain s5 nb where e: "btree_leaf_split ops st c key = insert_leaf s5 c nk nb (key < nk)"
    and s5: "cache s5 = (cache st)(b \<mapsto> Leaf l, nb \<mapsto> Leaf r)" "\<not> used st nb" "\<forall>x. used s5 x \<longleftrightarrow> used st x \<or> x = nb"
    "wf_sb s5" "node_max s5 = node_max st" "atomic s5 = atomic st" "t_root s5 = t_root st"
    "freeblocks s5 = freeblocks st - 1" "\<forall>x. t_dirty st x \<longrightarrow> t_dirty s5 x"
    using leaf_split_start [OF R(2) _ R(4)] assms(1,2) used R(5,7) split by (auto simp: leaf_ready_def) blast
  from insert_leaf_correct [OF leaf_split_ready [OF assms s5]]
  obtain st' c' where i: "insert_leaf s5 c nk nb (key < nk) = Some (Inr (), st', c')" "leaf_seq st' = pre @ (k, b) # (nk, nb) # post"
    "inserted ops s5 nb st' c' (if key < nk then pre else pre @ [(k, b)]) (if key < nk then (k, b) else (nk, nb))
       (if key < nk then (nk, nb) # post else post)" by blast
  have keep: "leaf_of st' x = Some y" if "used s5 x" "cache s5 x = Some (Leaf y)" for x y
    using i(3) that by (auto simp: inserted_def leaf_of_cache)
  have b: "b \<in> set (tree_blocks st)" "b \<noteq> nb" using leaf_readyD(5) [OF assms(1)] used s5(2) by auto
  have other: "leaf_of st' x = leaf_of st x" if x: "(k', x) \<in> set (pre @ post)" for k' x
  proof -
    note o = other_leaves [OF assms(1) x]
    then obtain y where y: "cache st x = Some (Leaf y)" by blast
    then have "leaf_of st' x = Some y" using used s5(1-3) o by (intro keep) auto
    then show ?thesis using y by (simp add: leaf_of_def)
  qed
  have "leaf_of st' b = Some l" "leaf_of st' nb = Some r" using keep [of b l] keep [of nb r] s5(1,3) used b by auto
  moreover have "wf_tree ops st' \<and> wf_sb st' \<and> (\<forall>x\<in>set (tree_blocks st'). used st' x)
      \<and> (if key < nk then cursor_at st' c' pre (k, b) ((nk, nb) # post) else cursor_at st' c' (pre @ [(k, b)]) (nk, nb) post)"
    using i(3) by (auto simp: inserted_def)
  ultimately show ?thesis using i(1,2) e other by fastforce
qed

section \<open>Room in a leaf\<close>

lemma cursor_redirect_idle:
  assumes "leaf_ready ops st c pre kb post"
  shows "cursor_redirect st c = Some (Inr (), st, c)"
proof (cases "atomic st")
  case True
  have at: "at_leaf st (root_depth (t_root st)) 0 (root_block (t_root st)) (path c) pre kb post"
    using assms by (simp add: leaf_ready_def cursor_at_def)
  have len: "length (path c) = Suc (root_depth (t_root st))" using at_leaf_length [OF at] by simp
  then have "path c ! root_depth (t_root st) \<in> set (path c)" by simp
  then have "t_dirty st (fst (path c ! root_depth (t_root st)))" using assms True by (auto simp: leaf_ready_def split_beta)
  then show ?thesis using True len
    by (simp add: cursor_redirect_def cursor_len_def redirect_levels.simps [of st c "root_depth (t_root st)"] Let_def)
qed (simp add: cursor_redirect_def)

lemma put_same: "leaf_of st b = Some leaf \<Longrightarrow> put_block st b (Leaf leaf) = st"
  by (simp add: leaf_of_cache put_block_def fun_upd_idem)

lemma tree_expand_fits:
  assumes "leaf_ready ops st c pre (k, b) post" "leaf_of st b = Some leaf" "leaf_resize ops key leaf newsize = Some (Some p, leaf')"
  shows "tree_expand ops st c key newsize = Some (Inr p, put_block st b (Leaf leaf'), c)"
  using cursor_redirect_idle [OF assms(1)] leaf_readyD(4) [OF assms(1)] assms(2,3)
  by (simp add: tree_expand_def tree_expand_once_def)

lemma cursor_at_leaf:
  assumes "wf_tree ops st" "cursor_at st c pre kb post" "0 < root_depth (t_root st)"
  shows "cursor_leafbuf c = Some (snd kb)"
proof -
  have "at_leaf st (root_depth (t_root st)) 0 (root_block (t_root st)) (path c) pre kb post"
    using assms(2) by (simp add: cursor_at_def)
  then show ?thesis by (rule cursor_leafbuf_at [OF _ assms(3)])
qed

lemma leaf_of_put: "leaf_of (put_block st b (Leaf y)) x = (if x = b then Some y else leaf_of st x)"
  by (simp add: leaf_of_def)


section \<open>Empty trees\<close>

lemma free_tree_fields [simp]:
  "t_root (free_extent st w n) = t_root st" "cache (free_extent st w n) = cache st"
  "freeblocks (free_extent st w n) = freeblocks st + int n"
  by (simp_all add: free_extent_def)

lemma bfree_one:
  assumes "wf_sb st" "used st b" "b < volblocks st"
  shows "bfree st b 1 = Some (Inr (), free_extent st b 1)" "wf_sb (free_extent st b 1)"
    "used (free_extent st b 1) x \<longleftrightarrow> used st x \<and> x \<noteq> b"
proof -
  have ok: "extent_ok st b 1"
    using assms mod_less_divisor [OF mapsize_pos, of b st] by (simp add: extent_ok_def wf_sb_def one_mapblock_def Suc_le_eq)
  have "used st x" if "b \<le> x" "x < b + 1" for x
  proof -
    have "x = b" using that by simp
    then show ?thesis using assms(2) by simp
  qed
  then have set: "extent_set st b 1" using extent_set_iff(1) [OF ok] by blast
  then show "bfree st b 1 = Some (Inr (), free_extent st b 1)" using bfree_extent [OF ok] by simp
  show "wf_sb (free_extent st b 1)" by (rule wf_sb_free [OF assms(1) ok set])
  show "used (free_extent st b 1) x \<longleftrightarrow> used st x \<and> x \<noteq> b" unfolding used_free_extent [OF ok] by auto
qed

text \<open>C37. 
  \<open>alloc_empty_btree\<close> makes a tree with one empty leaf, in two blocks that were free, and
  \<open>free_empty_btree\<close> gives them back.
\<close>
theorem alloc_free_empty_btree:
  assumes "wf_sb st" "2 \<le> freeblocks st" "\<not> has_root (t_root st)" "leaf_sniff ops (leaf_init ops)" "0 < node_max st"
  shows "\<exists>st' lb st''. alloc_empty_btree ops st = Some (Inr (), st') \<and> wf_tree ops st' \<and> leaf_seq st' = [(0, lb)]
    \<and> leaf_of st' lb = Some (leaf_init ops) \<and> wf_sb st' \<and> freeblocks st' = freeblocks st - 2
    \<and> free_empty_btree st' = Some (Inr (), st'') \<and> wf_sb st'' \<and> freeblocks st'' = freeblocks st \<and> (\<forall>x. used st'' x = used st x)"
proof -
  have "0 < freeblocks st" using assms(2) by simp
  then obtain rb s1 where n: "new_block st = Some (Inr rb, s1)" "\<not> used st rb" "\<And>x. used s1 x \<longleftrightarrow> used st x \<or> x = rb"
    "grows {} 1 st s1" "rb < volblocks st" "volblocks s1 = volblocks st" "freeblocks s1 = freeblocks st - 1"
    using new_block_ok [OF assms(1)] by metis
  define s2 where "s2 = mark_buffer_rollup_atomic (put_block s1 rb (Node [])) rb"
  have s2: "wf_sb s2" "0 < freeblocks s2" "used s2 = used s1" "volblocks s2 = volblocks s1" "t_root s2 = t_root st" "node_max s2 = node_max st"
    "atomic s2 = atomic st" "atomic st \<longrightarrow> t_dirty s2 rb" "freeblocks s2 = freeblocks st - 1"
    using growsD [OF n(4)] n(7) assms(2) by (auto simp: s2_def mark_buffer_rollup_atomic_def mark_buffer_rollup_def)
  obtain lb s3 where m: "new_block s2 = Some (Inr lb, s3)" "\<not> used s2 lb" "\<And>x. used s3 x \<longleftrightarrow> used s2 x \<or> x = lb"
    "grows {} 1 s2 s3" "lb < volblocks s2" "volblocks s3 = volblocks s2" "freeblocks s3 = freeblocks s2 - 1"
    using new_block_ok [OF s2(1,2)] by metis
  have ne: "lb \<noteq> rb" using m(2) n(3) s2(3) by auto
  define s4 where "s4 = mark_buffer_dirty_atomic (put_block s3 lb (Leaf (leaf_init ops))) lb"
  have s4: "wf_sb s4" "used s4 = used s3" "volblocks s4 = volblocks st" "t_root s4 = t_root st" "node_max s4 = node_max st"
    "freeblocks s4 = freeblocks st - 2" "cache s4 lb = Some (Leaf (leaf_init ops))"
    "atomic s4 \<longrightarrow> t_dirty s4 rb \<and> t_dirty s4 lb"
    using growsD [OF m(4)] m(6,7) n(6) s2 by (auto simp: s4_def mark_buffer_dirty_atomic_def)
  define s5 where "s5 = (put_block s4 rb (Node [(0, lb)]))\<lparr>t_root := \<lparr>root_depth = 1, root_block = rb\<rparr>\<rparr>"
  define s6 where "s6 = add_log (add_log s5 (Bnode_root rb 1 lb 0 0)) (Balloc lb 1)"
  define s7 where "s7 = mark_buffer_dirty (mark_buffer_dirty s6 rb) lb"
  have d: "mark_buffer_dirty_non s6 rb = Some (mark_buffer_dirty s6 rb)"
    "mark_buffer_dirty_non (mark_buffer_dirty s6 rb) lb = Some s7"
    unfolding s7_def using s4(8) by (intro dirty_non_dirty; simp add: s6_def s5_def)+
  have "new_node st = Some (Inr rb, s2)" "new_leaf ops s2 = Some (Inr lb, s4)"
    using n(1) m(1) by (simp_all add: new_node_def new_leaf_def s2_def s4_def)
  then have alloc: "alloc_empty_btree ops st = Some (Inr (), s7)"
    using assms(3) s4(4) d [unfolded s6_def s5_def] unfolding s7_def s6_def s5_def by (simp add: alloc_empty_btree_def)
  have s7: "t_root s7 = \<lparr>root_depth = 1, root_block = rb\<rparr>" "node_of s7 rb = Some [(0, lb)]" "leaf_of s7 lb = Some (leaf_init ops)"
    "node_max s7 = node_max st" "wf_sb s7" "used s7 = used s3" "volblocks s7 = volblocks st" "freeblocks s7 = freeblocks st - 2"
    using s4 ne by (simp_all add: s7_def s6_def s5_def node_of_def leaf_of_def)
  have tree: "wf_tree ops s7" "leaf_seq s7 = [(0, lb)]"
    using s7(1-4) ne assms(4,5) by (auto simp: wf_tree_def has_root_def no_root_def tree_blocks_def leaf_seq_def)
  have lb: "used s7 lb" "lb < volblocks s7" using m(3,5) s7(6,7) n(6) s2(4) by simp_all
  let ?f = "free_extent s7 lb 1"
  note f1 = bfree_one [OF s7(5) lb]
  have rb: "used ?f rb" "rb < volblocks ?f" using n(3,5) m(3) s2(3) s7(6,7) ne f1(3) by simp_all
  note f2 = bfree_one [OF f1(2) rb]
  have "free_empty_btree s7 = Some (Inr (), free_extent ?f rb 1)"
    using f1(1) f2(1) s7(1,2) cached_node [OF s7(2)] by (simp add: free_empty_btree_def has_root_def no_root_def)
  moreover have "used (free_extent ?f rb 1) x = used st x" for x
    using f1(3) f2(3) s7(6) m(2,3) n(2,3) s2(3) by auto
  moreover have "freeblocks (free_extent ?f rb 1) = freeblocks st" using s7(8) by simp
  ultimately show ?thesis using alloc tree s7(3,5,8) f2(2) by blast
qed

end
