(* ===== verification/Tux_Demo.thy ===== *)
theory Tux_Demo
  imports Tux_Expand
begin

text \<open>
  Concrete trees: the properties of the B-tree at work, and the inputs on which its code does not
  do what it is meant to.
\<close>

section \<open>A small volume\<close>

text \<open>
  Blocks of 8 bytes, 16 of them; the set bits of \<open>m\<close> say which of the first 8 are in use. The
  leaves are sorted lists of keys.
\<close>

definition demo_tree :: "u8 \<Rightarrow> int \<Rightarrow> nat \<Rightarrow> nat \<Rightarrow> (nat \<Rightarrow> nat list tblock option) \<Rightarrow> nat list tree" where
  "demo_tree m free d b c = \<lparr>blockbits = 3, volblocks = 16, freeblocks = free, nextalloc = 6,
     bitmap = [0 \<mapsto> m # replicate 7 0], cache = c, t_root = \<lparr>root_depth = d, root_block = b\<rparr>, node_max = 2, atomic = False,
     t_dirty = (\<lambda>_. False), t_logged = [], t_defree = [], t_derollup = []\<rparr>"

lemma demo_tree_fields [simp]:
  "t_root (demo_tree m free d b c) = \<lparr>root_depth = d, root_block = b\<rparr>" "cache (demo_tree m free d b c) = c"
  "node_max (demo_tree m free d b c) = 2" "atomic (demo_tree m free d b c) = False" "freeblocks (demo_tree m free d b c) = free"
  "volblocks (demo_tree m free d b c) = 16"
  by (simp_all add: demo_tree_def)

lemma demo_tree_used: "x < 8 \<Longrightarrow> used (demo_tree m free d b c) x = bit m x"
  by (simp add: used_def bm_bit_def demo_tree_def mapsize_def mapshift_def)

lemma demo_tree_unused: "8 \<le> x \<Longrightarrow> x < 16 \<Longrightarrow> \<not> used (demo_tree m free d b c) x"
proof -
  assume x: "8 \<le> x" "x < 16"
  then have "x div 8 = 1" by simp
  then show ?thesis using x by (simp add: used_def bm_bit_def demo_tree_def mapsize_def mapshift_def)
qed

lemma demo_wf_sb:
  assumes "free = int (length (filter (\<lambda>x. \<not> bit m x) [0..<8])) + 8"
  shows "wf_sb (demo_tree m free d b c)"
proof -
  let ?st = "demo_tree m free d b c"
  have u: "[0..<16] = [0..<8] @ [8..<16::nat]" by (simp add: upt_rec)
  have "filter (\<lambda>x. \<not> used ?st x) [0..<8] = filter (\<lambda>x. \<not> bit m x) [0..<8]"
    by (rule filter_cong) (auto simp: demo_tree_used)
  moreover have "filter (\<lambda>x. \<not> used ?st x) [8..<16] = [8..<16]" by (rule filter_True) (auto simp: demo_tree_unused)
  ultimately have "free_count ?st = length (filter (\<lambda>x. \<not> bit m x) [0..<8]) + 8"
    unfolding free_count_code demo_tree_fields u filter_append by simp
  moreover have "wf_bitmap ?st" by (auto simp: wf_bitmap_def demo_tree_def mapsize_def mapshift_def blocksize_def)
  ultimately show ?thesis using assms by (simp add: wf_sb_def) (simp add: demo_tree_def)
qed

lemma demo_frees: "int (length (filter (\<lambda>x. \<not> bit (63::u8) x) [0..<8])) + 8 = 10"
  by code_simp

lemma demo_bits: "bit (63::u8) 2" "bit (63::u8) 3" "bit (63::u8) 4" "bit (63::u8) 5"
  by code_simp+

definition demo_ops :: "nat list btree_ops" where
  "demo_ops = \<lparr>leaf_sniff = sorted, leaf_init = [], leaf_split = (\<lambda>key from into. Some (key, filter (\<lambda>k. k < key) from, filter (\<lambda>k. key \<le> k) from)),
     leaf_resize = (\<lambda>key leaf size. if length leaf < 4 then Some (Some (length (filter (\<lambda>k. k < key) leaf)), insort key leaf) else Some (None, leaf)),
     leaf_need = length, leaf_free = (\<lambda>leaf. 4 - length leaf), leaf_chop = (\<lambda>key leaf. Some (Inr True, filter (\<lambda>k. k < key) leaf, [])),
     leaf_merge = (\<lambda>l m. Some (l @ m))\<rparr>"

text \<open>One full index node over two leaves, and a third leaf to be inserted.\<close>

definition demo_flat :: "nat list tree" where
  "demo_flat = demo_tree 63 10 1 2 [2 \<mapsto> Node [(0, 3), (10, 4)], 3 \<mapsto> Leaf [1, 3, 5, 7], 4 \<mapsto> Leaf [10, 12], 5 \<mapsto> Leaf [5, 7]]"

definition demo_cursor :: cursor where
  "demo_cursor = \<lparr>path = [(2, Some 1), (3, None)], maxlen = 3\<rparr>"

lemma demo_flat_facts [simp]:
  "t_root demo_flat = \<lparr>root_depth = 1, root_block = 2\<rparr>" "node_max demo_flat = 2" "atomic demo_flat = False"
  "freeblocks demo_flat = 10" "node_of demo_flat 2 = Some [(0, 3), (10, 4)]"
  "leaf_of demo_flat 3 = Some [1, 3, 5, 7]" "leaf_of demo_flat 4 = Some [10, 12]" "leaf_of demo_flat 5 = Some [5, 7]"
  "cache demo_flat 2 = Some (Node [(0, 3), (10, 4)])" "cache demo_flat 3 = Some (Leaf [1, 3, 5, 7])"
  by (simp_all add: demo_flat_def node_of_def leaf_of_def)

lemma demo_flat_ok:
  "wf_sb demo_flat" "used demo_flat 5" "\<forall>x\<in>set (tree_blocks demo_flat). used demo_flat x"
  "leaf_seq demo_flat = [(0, 3), (10, 4)]" "tree_blocks demo_flat = [2, 3, 4]" "wf_tree demo_ops demo_flat"
  "cursor_at demo_flat demo_cursor [] (0, 3) [(10, 4)]"
proof -
  show "wf_sb demo_flat" unfolding demo_flat_def by (rule demo_wf_sb) (rule demo_frees [symmetric])
  show ls: "leaf_seq demo_flat = [(0, 3), (10, 4)]" and tb: "tree_blocks demo_flat = [2, 3, 4]"
    by (simp_all add: leaf_seq_def tree_blocks_def)
  show "used demo_flat 5" "\<forall>x\<in>set (tree_blocks demo_flat). used demo_flat x"
    unfolding tb using demo_bits by (simp_all add: demo_flat_def demo_tree_used)
  show "wf_tree demo_ops demo_flat" unfolding wf_tree_def ls tb by (simp add: has_root_def no_root_def demo_ops_def)
  show "cursor_at demo_flat demo_cursor [] (0, 3) [(10, 4)]" by (simp add: cursor_at_def demo_cursor_def seq_def)
qed

section \<open>Witnesses\<close>

theorem probe_correct_witness:
  "\<exists>c' pre k b post. probe demo_ops demo_flat 7 (alloc_cursor demo_flat 1) = Some (Inr (), c')
    \<and> leaf_seq demo_flat = pre @ (k, b) # post \<and> k \<le> 7 \<and> (\<forall>x\<in>set post. 7 < fst x)"
  using probe_correct [OF demo_flat_ok(6), of "alloc_cursor demo_flat 1" 7] by (auto simp: alloc_cursor_def)

theorem advance_correct_witness:
  "\<exists>c'. advance demo_flat demo_cursor = Some (Inr True, c') \<and> cursor_at demo_flat c' [(0, 3)] (10, 4) []"
  using advance_correct [OF demo_flat_ok(6,7)] by auto

theorem next_key_correct_witness: "next_key demo_flat demo_cursor 1 = Some 10"
  using next_key_correct [OF demo_flat_ok(6,7)] by simp

lemma demo_insert_ready: "insert_ready demo_ops demo_flat demo_cursor [] (0, 3) [(10, 4)] 5 5 False"
  using demo_flat_ok by (simp add: insert_ready_def demo_cursor_def) (simp add: demo_ops_def)

theorem insert_leaf_correct_witness:
  "\<exists>st' c'. insert_leaf demo_flat demo_cursor 5 5 False = Some (Inr (), st', c') \<and> leaf_seq st' = [(0, 3), (5, 5), (10, 4)]
    \<and> cursor_at st' c' [(0, 3)] (5, 5) [(10, 4)]"
  using insert_leaf_correct [OF demo_insert_ready] by (auto simp: inserted_def)

lemma demo_leaf_ready: "leaf_ready demo_ops demo_flat demo_cursor [] (0, 3) [(10, 4)]"
  using demo_flat_ok by (simp add: leaf_ready_def demo_cursor_def)

lemma demo_split_ok: "split_ok demo_ops 4 0 [1, 3, 5, 7] [(10, 4)] 4 [1, 3] [5, 7]"
  by (simp add: split_ok_def demo_ops_def)


theorem alloc_free_empty_btree_witness:
  "\<exists>st' st''. alloc_empty_btree demo_ops (demo_tree 63 10 0 0 Map.empty) = Some (Inr (), st') \<and> wf_tree demo_ops st'
    \<and> free_empty_btree st' = Some (Inr (), st'') \<and> freeblocks st'' = 10"
proof -
  have "wf_sb (demo_tree 63 10 0 0 Map.empty)" by (rule demo_wf_sb) (rule demo_frees [symmetric])
  then show ?thesis
    using alloc_free_empty_btree [of "demo_tree 63 10 0 0 Map.empty" demo_ops]
    by (auto simp: has_root_def no_root_def demo_ops_def)
qed

section \<open>Where the code goes wrong\<close>

definition demo_deep :: "nat list tree" where
  "demo_deep = demo_tree 126 10 2 1 [1 \<mapsto> Node [(0, 2)], 2 \<mapsto> Node [(0, 4), (10, 5)], 4 \<mapsto> Leaf [1], 5 \<mapsto> Leaf [10], 6 \<mapsto> Leaf [15]]"

definition demo_deep_cursor :: cursor where
  "demo_deep_cursor = \<lparr>path = [(1, Some 1), (2, Some 2), (5, None)], maxlen = 4\<rparr>"

lemma demo_deep_facts [simp]:
  "t_root demo_deep = \<lparr>root_depth = 2, root_block = 1\<rparr>" "node_max demo_deep = 2" "atomic demo_deep = False"
  "freeblocks demo_deep = 10" "node_of demo_deep (Suc 0) = Some [(0, 2)]" "node_of demo_deep 2 = Some [(0, 4), (10, 5)]"
  "used demo_deep (Suc 0)" "used demo_deep 2" "used demo_deep 4"
proof -
  have "bit (126::u8) 1" "bit (126::u8) 2" "bit (126::u8) 4" by code_simp+
  then show "used demo_deep (Suc 0)" "used demo_deep 2" "used demo_deep 4" by (simp_all add: demo_deep_def demo_tree_used)
qed (simp_all add: demo_deep_def node_of_def)

lemma demo_deep_wf: "wf_sb demo_deep"
proof -
  have "10 = int (length (filter (\<lambda>x. \<not> bit (126::u8) x) [0..<8])) + 8" by code_simp
  then show ?thesis unfolding demo_deep_def by (rule demo_wf_sb)
qed

text \<open>
  The cursor is to stay at the old leaf, which moves into the new node; the position in the node
  above is not advanced, so the cursor is no path of the tree any more.
\<close>
theorem insert_keep_breaks_cursor:
  "cursor_check demo_deep demo_deep_cursor \<and> (\<exists>st' c'. insert_leaf demo_deep demo_deep_cursor 15 6 True = Some (Inr (), st', c')
    \<and> leaf_seq st' = [(0, 4), (10, 5), (15, 6)] \<and> \<not> cursor_check st' c')"
proof
  show "cursor_check demo_deep demo_deep_cursor" by (simp add: cursor_check_def demo_deep_cursor_def)
  let ?c = demo_deep_cursor and ?up = "[(1::nat, Some (1::nat))]"
  have p: "path ?c = ?up @ (2, Some 2) # [(5, None)]" by (simp add: demo_deep_cursor_def)
  obtain st1 nb where l1: "insert_level demo_deep ?c (length ?up) 15 6 True = Some (Inr (Some (10, nb, True)), st1,
      ?c\<lparr>path := [(1, Some 1), (nb, Some 1), (5, None)]\<rparr>)" "grows {2} 1 demo_deep st1" "\<not> used demo_deep nb"
    "cache st1 = (cache demo_deep)(2 \<mapsto> Node [(0, 4)], nb \<mapsto> Node [(10, 5), (15, 6)])"
    using insert_level_full [OF demo_deep_wf _ p, of "[(0, 4), (10, 5)]" 15 6 True] by (auto simp: add_child_def)
  have nb: "nb \<noteq> 1" "nb \<noteq> 2" using l1(3) demo_deep_facts(7,8) by (metis One_nat_def)+
  let ?c1 = "?c\<lparr>path := [(1, Some 1), (nb, Some 1), (5, None)]\<rparr>"
  have p1: "path ?c1 = [] @ (1, Some 1) # [(nb, Some 1), (5, None)]" by simp
  have g: "wf_sb st1" "node_max st1 = 2" "atomic st1 = False" "t_root st1 = \<lparr>root_depth = 2, root_block = 1\<rparr>"
    using growsD(1-4) [OF l1(2)] by simp_all
  have n1: "node_of st1 1 = Some [(0, 2)]" using l1(4) nb demo_deep_facts(5) by (simp add: node_of_def)
  obtain st2 where l2: "insert_level st1 ?c1 0 10 nb True = Some (Inr None, st2, ?c1)" "grows {1} 0 st1 st2"
    "cache st2 = (cache st1)(1 \<mapsto> Node [(0, 2), (10, nb)])"
    using insert_level_room [OF g(1) p1 n1, of 10 nb True] g by (auto simp: add_child_def)
  have "insert_leaf demo_deep ?c 15 6 True = Some (Inr (), st2, ?c1)"
    using l1(1) l2(1) by (simp add: insert_leaf_def insert_levels.simps numeral_2_eq_2)
  moreover have "leaf_seq st2 = [(0, 4), (10, 5), (15, 6)]"
    using l2(3) l1(4) nb growsD(4) [OF l2(2)] g(4) by (simp add: leaf_seq_def numeral_2_eq_2 node_of_def)
  moreover have "\<not> cursor_check st2 ?c1"
    using l2(3) nb growsD(4) [OF l2(2)] g(4) by (simp add: cursor_check_def node_of_def)
  ultimately show "\<exists>st' c'. insert_leaf demo_deep ?c 15 6 True = Some (Inr (), st', c')
    \<and> leaf_seq st' = [(0, 4), (10, 5), (15, 6)] \<and> \<not> cursor_check st' c'" by blast
qed

definition demo_dirty :: "nat list tree" where
  "demo_dirty = demo_flat\<lparr>atomic := True, t_dirty := (\<lambda>b. b = 2)\<rparr>"

text \<open>
  With a clean leaf below a dirty node the leaf is copied and the old block is to be freed, but
  the node still leads to the old block.
\<close>
theorem redirect_skips_dirty_parent:
  "cursor_check demo_dirty demo_cursor \<and> (\<exists>st' c'. cursor_redirect demo_dirty demo_cursor = Some (Inr (), st', c')
    \<and> leaf_seq st' = [(0, 3), (10, 4)] \<and> t_defree st' = [(3, 1)] \<and> \<not> cursor_check st' c')"
proof
  have f: "t_root demo_dirty = \<lparr>root_depth = 1, root_block = 2\<rparr>" "atomic demo_dirty" "t_dirty demo_dirty = (\<lambda>b. b = 2)"
    "cache demo_dirty = cache demo_flat" "freeblocks demo_dirty = 10" "t_defree demo_dirty = []"
    by (simp_all add: demo_dirty_def) (simp add: demo_flat_def demo_tree_def)
  have u: "used demo_dirty = used demo_flat" "wf_sb demo_dirty"
    using demo_flat_ok(1) by (auto simp: demo_dirty_def used_def fun_eq_iff mapsize_def mapshift_def wf_sb_def wf_bitmap_def
        free_count_def blocksize_def)
  show "cursor_check demo_dirty demo_cursor" using f demo_flat_facts(5) by (simp add: cursor_check_def demo_cursor_def node_of_def)
  have fr: "0 < freeblocks demo_dirty" using f(5) by simp
  obtain nb st1 where n: "new_block demo_dirty = Some (Inr nb, st1)" "\<not> used demo_dirty nb" "grows {} 1 demo_dirty st1"
    "cache st1 = cache demo_dirty" "t_dirty st1 = t_dirty demo_dirty" "t_defree st1 = t_defree demo_dirty"
    using new_block_ok [OF u(2) fr] by metis
  have nb: "nb \<noteq> 2" "nb \<noteq> 3" "nb \<noteq> 4" using n(2) demo_flat_ok(3,5) u(1) by auto
  let ?c = "\<lparr>path = [(2, Some 1), (nb, None)], maxlen = 3\<rparr>"
  define s2 where "s2 = add_log (mark_buffer_dirty_atomic (put_block st1 nb (Leaf [1, 3, 5, 7])) nb) (Leaf_redirect 3 nb)"
  define s3 where "s3 = s2\<lparr>t_defree := t_defree s2 @ [(3, 1)]\<rparr>"
  have s3: "cache s3 = (cache demo_flat)(nb \<mapsto> Leaf [1, 3, 5, 7])" "t_root s3 = \<lparr>root_depth = 1, root_block = 2\<rparr>" "t_defree s3 = [(3, 1)]"
    "t_dirty s3 2"
    using n(4-6) growsD(3,4) [OF n(3)] f
    by (auto simp: s3_def s2_def mark_buffer_dirty_atomic_def) (simp_all add: put_block_def add_log_def mark_buffer_dirty_def)
  have "level_redirect_blockput st1 demo_cursor 1 nb = Some (put_block st1 nb (Leaf [1, 3, 5, 7]), ?c)"
    using n(4) f(4) by (simp add: level_redirect_blockput_def level_replace_blockput_def cursor_len_def level_next_def demo_cursor_def)
  then have "redirect_levels demo_dirty demo_cursor (Suc 0) 0 = Some (Inr (), s3, ?c)"
    using n(1,5) f growsD(3,4) [OF n(3)]
    by (simp add: demo_cursor_def cursor_len_def s3_def s2_def Let_def mark_buffer_dirty_atomic_def)
  then have "cursor_redirect demo_dirty demo_cursor = Some (Inr (), s3, ?c)" using f(1,2) by (simp add: cursor_redirect_def)
  moreover have "leaf_seq s3 = [(0, 3), (10, 4)]" using s3(1,2) nb by (simp add: leaf_seq_def node_of_def)
  moreover have "\<not> cursor_check s3 ?c" using s3(1,2) nb by (simp add: cursor_check_def node_of_def)
  ultimately show "\<exists>st' c'. cursor_redirect demo_dirty demo_cursor = Some (Inr (), st', c')
    \<and> leaf_seq st' = [(0, 3), (10, 4)] \<and> t_defree st' = [(3, 1)] \<and> \<not> cursor_check st' c'" using s3(3) by blast
qed

definition demo_full :: "nat list tree" where
  "demo_full = (demo_tree 63 1 1 2 [2 \<mapsto> Node [(0, 3), (10, 4)], 3 \<mapsto> Leaf [1, 3, 5, 7], 4 \<mapsto> Leaf [10, 12]])\<lparr>volblocks := 7\<rparr>"

lemma demo_full_facts [simp]:
  "t_root demo_full = \<lparr>root_depth = 1, root_block = 2\<rparr>" "node_max demo_full = 2" "atomic demo_full = False"
  "freeblocks demo_full = 1" "node_of demo_full 2 = Some [(0, 3), (10, 4)]" "cache demo_full 2 = Some (Node [(0, 3), (10, 4)])"
  "leaf_of demo_full 3 = Some [1, 3, 5, 7]" "leaf_of demo_full 4 = Some [10, 12]"
  by (simp_all add: demo_full_def node_of_def leaf_of_def)

lemma demo_full_ok: "wf_sb demo_full" "used demo_full 2" "used demo_full 3" "used demo_full 4"
proof -
  let ?st = "demo_tree 63 1 1 2 [2 \<mapsto> Node [(0, 3), (10, 4)], 3 \<mapsto> Leaf [1, 3, 5, 7], 4 \<mapsto> Leaf [10, 12]]"
  have u: "used demo_full = used ?st" by (simp add: demo_full_def used_def fun_eq_iff mapsize_def mapshift_def)
  have v: "volblocks demo_full = 7" by (simp add: demo_full_def)
  have "free_count demo_full = length (filter (\<lambda>x. \<not> bit (63::u8) x) [0..<7])"
    unfolding free_count_code u v by (intro arg_cong [where f = length] filter_cong) (auto simp: demo_tree_used)
  also have "\<dots> = 1" by code_simp
  finally have "int (free_count demo_full) = 1" by simp
  moreover have "wf_bitmap demo_full"
    by (auto simp: wf_bitmap_def demo_full_def demo_tree_def mapsize_def mapshift_def blocksize_def)
  ultimately show "wf_sb demo_full" by (simp add: wf_sb_def) (simp add: demo_full_def demo_tree_def)
  show "used demo_full 2" "used demo_full 3" "used demo_full 4" unfolding u using demo_bits by (simp_all add: demo_tree_used)
qed

lemma new_node_full: "wf_sb st \<Longrightarrow> freeblocks st = 0 \<Longrightarrow> new_node st = Some (Inl ENOSPC, st)"
  using balloc_one_full by (fastforce simp: new_node_def new_block_def)

text \<open>C38. 
  When the volume is full after the new leaf was allocated, \<open>tree_expand\<close> reports the error, but the
  upper part of the leaf has been moved out of the tree.
\<close>
theorem expand_enospc_loses_entries:
  "leaf_of demo_full 3 = Some [1, 3, 5, 7] \<and> (\<exists>st'. tree_expand demo_ops demo_full demo_cursor 4 1
      = Some (Inl ENOSPC, st', release_cursor demo_cursor)
    \<and> leaf_seq st' = leaf_seq demo_full \<and> leaf_of st' 3 = Some [1, 3])"
proof
  have lb: "cursor_leafbuf demo_cursor = Some 3" by (simp add: cursor_leafbuf_def cursor_len_def demo_cursor_def)
  have "leaf_split demo_ops 4 [1, 3, 5, 7] (leaf_init demo_ops) = Some (4, [1, 3], [5, 7])" by (simp add: demo_ops_def)
  from leaf_split_start [OF demo_full_ok(1) _ lb demo_full_ok(3) _ demo_full_facts(7) this]
  obtain s5 nb where s5: "btree_leaf_split demo_ops demo_full demo_cursor 4 = insert_leaf s5 demo_cursor 4 nb False"
    "cache s5 = (cache demo_full)(3 \<mapsto> Leaf [1, 3], nb \<mapsto> Leaf [5, 7])" "\<not> used demo_full nb" "wf_sb s5" "node_max s5 = 2"
    "t_root s5 = t_root demo_full" "freeblocks s5 = 0" by auto
  have nb: "nb \<noteq> 2" "nb \<noteq> 3" "nb \<noteq> 4" using s5(3) demo_full_ok(2-4) by metis+
  have node: "node_of s5 2 = Some [(0, 3), (10, 4)]" "leaf_of s5 3 = Some [1, 3]" using s5(2) nb demo_full_facts(5) by (simp_all add: node_of_def leaf_of_def)
  have "insert_leaf s5 demo_cursor 4 nb False = Some (Inl ENOSPC, s5, release_cursor demo_cursor)"
    using node new_node_full [OF s5(4,7)] s5(5,6)
    by (simp add: insert_leaf_def level_pop_def level_push_def cursor_len_def demo_cursor_def insert_levels.simps insert_level_def
        level_next_def release_cursor_def)
  moreover have "leaf_resize demo_ops 4 [1, 3, 5, 7] 1 = Some (None, [1, 3, 5, 7])" by (simp add: demo_ops_def)
  ultimately have "tree_expand demo_ops demo_full demo_cursor 4 1 = Some (Inl ENOSPC, s5, release_cursor demo_cursor)"
    using lb s5(1) demo_full_facts(7) by (simp add: tree_expand_def cursor_redirect_def tree_expand_once_def put_same)
  moreover have "leaf_seq s5 = leaf_seq demo_full" using node(1) s5(6) by (simp add: leaf_seq_def)
  ultimately show "\<exists>st'. tree_expand demo_ops demo_full demo_cursor 4 1 = Some (Inl ENOSPC, st', release_cursor demo_cursor)
    \<and> leaf_seq st' = leaf_seq demo_full \<and> leaf_of st' 3 = Some [1, 3]" using node(2) by blast
qed simp

end
