(* ===== verification/Tux_Dleaf.thy ===== *)
theory Tux_Dleaf
  imports Tux_Balloc Tux_Btree
begin

text \<open>
  File index leaves, \<open>kernel/dleaf.c\<close> with the wrappers of \<open>tux3.h\<close>: the extent and the index
  words, the leaf and its operations, and the walk over its extents.

  A leaf holds a table of extents that grows up from its header (\<open>dl_table\<close>) and, growing down
  from the end of the block, the group words and behind them the entry words (\<open>dl_dict\<close>, in
  the order in which they grow; its first \<open>dl_groups\<close> words are groups). Both lists hold the
  used part of the block, up to \<open>dl_free\<close> and down to \<open>dl_used\<close>. A pointer to a group or to
  an entry is the number of words between it and the end of the block, so that the pointer
  \<open>gdict\<close> is 0 and the word it points to is number \<open>p - 1\<close> of the list: \<open>--p\<close> of the code
  adds one, and \<open>p > q\<close> of the code is \<open>p < q\<close>. A pointer to an extent is its position in the
  table. A failed assertion is \<open>None\<close>. \<open>dleaf_dump\<close> and \<open>dwalk_dump\<close> only print.
\<close>

section \<open>Extents, groups and entries\<close>

definition make_extent :: "nat \<Rightarrow> nat \<Rightarrow> u64 option" where
  "make_extent block count = do {
     c_assert (block < 2 ^ 48 \<and> sub32 count 1 < 2 ^ 6);
     Some (push_bit 48 (word_of_nat (sub32 count 1)) OR word_of_nat block) }"

definition extent_block :: "u64 \<Rightarrow> nat" where
  "extent_block x = unat (x AND 0xffffffffffff)"

definition extent_count :: "u64 \<Rightarrow> nat" where
  "extent_count x = unat (drop_bit 48 x AND 0x3f) + 1"

definition extent_version :: "u64 \<Rightarrow> nat" where
  "extent_version x = unat (drop_bit 54 x)"

definition MAX_GROUP_ENTRIES :: nat where
  "MAX_GROUP_ENTRIES = 255"

definition make_group :: "nat \<Rightarrow> nat \<Rightarrow> u32" where
  "make_group keyhi count = word_of_nat keyhi OR push_bit 24 (word_of_nat count)"

definition group_keyhi :: "u32 \<Rightarrow> nat" where
  "group_keyhi g = unat (g AND 0xffffff)"

definition group_count :: "u32 \<Rightarrow> nat" where
  "group_count g = unat (drop_bit 24 g)"

definition set_group_count :: "u32 \<Rightarrow> int \<Rightarrow> u32" where
  "set_group_count g n = (g AND 0xffffff) OR push_bit 24 (word_of_int n)"

definition inc_group_count :: "u32 \<Rightarrow> int \<Rightarrow> u32" where
  "inc_group_count g n = set_group_count g (int (group_count g) + n)"

definition make_entry :: "nat \<Rightarrow> nat \<Rightarrow> u32" where
  "make_entry keylo limit = word_of_nat keylo OR push_bit 24 (word_of_nat limit)"

definition entry_keylo :: "u32 \<Rightarrow> nat" where
  "entry_keylo e = unat (e AND 0xffffff)"

definition entry_limit :: "u32 \<Rightarrow> nat" where
  "entry_limit e = unat (drop_bit 24 e)"

definition inc_entry_limit :: "u32 \<Rightarrow> int \<Rightarrow> u32" where
  "inc_entry_limit e n = (e AND 0xffffff) OR push_bit 24 (word_of_int (int (entry_limit e) + n))"

section \<open>The leaf\<close>

definition TUX3_MAGIC_DLEAF :: nat where
  "TUX3_MAGIC_DLEAF = 0x1eaf"

definition DLEAF_SIZE :: nat where
  "DLEAF_SIZE = 8"

definition wrap16 :: "nat \<Rightarrow> nat" where
  "wrap16 n = n mod 2 ^ 16"

definition sub16 :: "nat \<Rightarrow> nat \<Rightarrow> nat" where
  "sub16 a b = nat ((int a - int b) mod 2 ^ 16)"

record dleaf =
  dl_magic :: nat
  dl_groups :: nat
  dl_free :: nat
  dl_used :: nat
  dl_table :: "u64 list"
  dl_dict :: "u32 list"

definition word_at :: "dleaf \<Rightarrow> nat \<Rightarrow> u32" where
  "word_at leaf p = dl_dict leaf ! (p - 1)"

definition put_word :: "dleaf \<Rightarrow> nat \<Rightarrow> u32 \<Rightarrow> dleaf" where
  "put_word leaf p w = leaf\<lparr>dl_dict := (dl_dict leaf)[p - 1 := w]\<rparr>"

definition dleaf_groups :: "dleaf \<Rightarrow> nat" where
  "dleaf_groups leaf = dl_groups leaf"

definition set_dleaf_groups :: "dleaf \<Rightarrow> nat \<Rightarrow> dleaf" where
  "set_dleaf_groups leaf n = leaf\<lparr>dl_groups := wrap16 n\<rparr>"

definition inc_dleaf_groups :: "dleaf \<Rightarrow> nat \<Rightarrow> dleaf" where
  "inc_dleaf_groups leaf n = leaf\<lparr>dl_groups := wrap16 (dl_groups leaf + n)\<rparr>"

definition dleaf_init :: "nat \<Rightarrow> dleaf" where
  "dleaf_init bs = \<lparr>dl_magic = TUX3_MAGIC_DLEAF, dl_groups = 0, dl_free = DLEAF_SIZE,
     dl_used = wrap16 bs, dl_table = [], dl_dict = []\<rparr>"

definition dleaf_sniff :: "dleaf \<Rightarrow> bool" where
  "dleaf_sniff leaf \<longleftrightarrow> dl_magic leaf = TUX3_MAGIC_DLEAF"

definition dleaf_free :: "dleaf \<Rightarrow> nat" where
  "dleaf_free leaf = sub32 (dl_used leaf) (dl_free leaf)"

definition dleaf_need :: "nat \<Rightarrow> dleaf \<Rightarrow> nat" where
  "dleaf_need bs leaf = sub32 (sub32 bs (dleaf_free leaf)) DLEAF_SIZE"

definition get_index :: "u32 \<Rightarrow> u32 \<Rightarrow> nat" where
  "get_index g e = group_keyhi g * 2 ^ 24 + entry_keylo e"

text \<open>The pointers \<open>entry\<close> and \<open>extents\<close> behind the last group, as the loop over the groups leaves them.\<close>

fun free2_loop :: "dleaf \<Rightarrow> u32 list \<Rightarrow> nat \<Rightarrow> nat \<Rightarrow> nat \<times> nat" where
  "free2_loop leaf [] entry extents = (entry, extents)"
| "free2_loop leaf (g # gs) entry extents =
     (let entry = entry + group_count g
      in free2_loop leaf gs entry (extents + entry_limit (word_at leaf entry)))"

definition dleaf_free2 :: "dleaf \<Rightarrow> nat \<Rightarrow> int" where
  "dleaf_free2 leaf bs =
     (let (entry, extents) = free2_loop leaf (take (dleaf_groups leaf) (dl_dict leaf)) (dleaf_groups leaf) 0
      in (int bs - 4 * int entry) - (int DLEAF_SIZE + 8 * int extents))"

text \<open>The entries of one group: \<open>keylo\<close> starts at -1.\<close>

fun check_entries :: "u32 list \<Rightarrow> nat \<Rightarrow> int \<Rightarrow> bool" where
  "check_entries [] limit keylo = True"
| "check_entries (e # es) limit keylo \<longleftrightarrow>
     int (entry_keylo e) > keylo \<and> entry_limit e > limit
     \<and> check_entries es (entry_limit e) (int (entry_keylo e))"

fun check_groups :: "dleaf \<Rightarrow> u32 list \<Rightarrow> nat \<Rightarrow> nat \<Rightarrow> nat \<Rightarrow> nat \<Rightarrow> (nat \<times> nat) option" where
  "check_groups leaf [] keyhi estop exbase encount = Some (exbase, encount)"
| "check_groups leaf (g # gs) keyhi estop exbase encount = do {
     c_assert (group_keyhi g \<ge> keyhi);
     c_assert (group_count g > 0);
     c_assert (group_count g \<le> MAX_GROUP_ENTRIES);
     c_assert (check_entries (chunk estop (group_count g) (dl_dict leaf)) 0 (- 1));
     let estop = estop + group_count g;
     let limit = entry_limit (word_at leaf estop);
     c_assert (\<forall>x\<in>set (chunk exbase limit (dl_table leaf)). extent_block x \<noteq> 0);
     check_groups leaf gs (group_keyhi g) estop (exbase + limit) (encount + group_count g) }"

text \<open>\<open>Some False\<close> is the return value -1.\<close>

definition dleaf_check :: "dleaf \<Rightarrow> nat \<Rightarrow> bool option" where
  "dleaf_check leaf bs =
     (let groups = dleaf_groups leaf
      in if groups = 0 then Some True
         else do {
           (excount, encount) \<leftarrow> check_groups leaf (take groups (dl_dict leaf)) 0 groups 0 0;
           Some (int (dl_used leaf) = int bs - 4 * (int groups + int encount)
             \<and> dl_free leaf = DLEAF_SIZE + 8 * excount
             \<and> int (dl_used leaf) - int (dl_free leaf) = dleaf_free2 leaf bs) })"

definition assert_check :: "dleaf \<Rightarrow> nat \<Rightarrow> unit option" where
  "assert_check leaf bs = do { ok \<leftarrow> dleaf_check leaf bs; c_assert ok }"

section \<open>Splitting and merging\<close>

text \<open>The loop that finds the group to cut: \<open>(edict, exsplit, recount, grsplit)\<close>.\<close>

fun split_groups :: "dleaf \<Rightarrow> nat \<Rightarrow> u32 list \<Rightarrow> nat \<Rightarrow> nat \<Rightarrow> nat \<Rightarrow> nat \<Rightarrow> nat \<times> nat \<times> nat \<times> nat" where
  "split_groups leaf split [] edict exsplit recount grsplit = (edict, exsplit, recount, grsplit)"
| "split_groups leaf split (g # gs) edict exsplit recount grsplit =
     (if recount + group_count g > split then (edict, exsplit, recount, grsplit)
      else
        let edict = edict + group_count g
        in split_groups leaf split gs edict (exsplit + entry_limit (word_at leaf edict))
             (recount + group_count g) (grsplit + 1))"

text \<open>
  The number of groups of the second leaf and the two leaves. \<open>entry\<close> is a pointer to an entry.
\<close>

definition dleaf_split_at :: "dleaf \<Rightarrow> dleaf \<Rightarrow> nat \<Rightarrow> nat \<Rightarrow> (nat \<times> dleaf \<times> dleaf) option" where
  "dleaf_split_at leaf leaf2 entry bs =
     (let groups = dleaf_groups leaf;
          ebase = (bs - dl_used leaf) div 4;
          dict = dl_dict leaf;
          entries = ebase - groups;
          split = entry - groups - 1
      in if groups = 0 then Some (0, leaf, leaf2)
      else do {
        c_assert (groups < entry \<and> entry \<le> ebase);
        c_assert (split < entries);
        let (edict, exsplit, recount, grsplit) = split_groups leaf split (take groups dict) groups 0 0 0;
        let cut = split - recount;
        let exsplit = (if cut \<noteq> 0 then exsplit + entry_limit (word_at leaf (edict + cut)) else exsplit);
        let size = (dl_free leaf - DLEAF_SIZE) div 8 - exsplit;
        let table2 = chunk exsplit size (dl_table leaf);
        let groups2 = groups - grsplit;
        let gdict2 = chunk grsplit groups2 dict;
        let gdict2 = gdict2[0 := inc_group_count (gdict2 ! 0) (- int cut)];
        let groups' = grsplit + (if cut \<noteq> 0 then 1 else 0);
        let dict' = (if cut \<noteq> 0 then dict[groups' - 1 := set_group_count (dict ! (groups' - 1)) (int cut)] else dict);
        let encopy = entries - split;
        let edict2 = chunk (ebase - encopy) encopy dict';
        let adjust = (if cut \<noteq> 0 then entry_limit (dict' ! (groups + split - 1)) else 0);
        let gcount2 = (if cut \<noteq> 0 then group_count (gdict2 ! 0) else 0);
        let edict2 = map (\<lambda>e. inc_entry_limit e (- int adjust)) (take gcount2 edict2) @ drop gcount2 edict2;
        let leaf' = leaf\<lparr>dl_groups := wrap16 groups', dl_free := wrap16 (DLEAF_SIZE + 8 * exsplit),
          dl_used := wrap16 (bs - 4 * (groups' + split)), dl_table := take exsplit (dl_table leaf),
          dl_dict := take (groups' + split) (memmove dict' groups' groups split)\<rparr>;
        let leaf2' = leaf2\<lparr>dl_groups := wrap16 groups2, dl_free := wrap16 (DLEAF_SIZE + 8 * size),
          dl_used := wrap16 (bs - 4 * (groups2 + encopy)), dl_table := table2,
          dl_dict := gdict2 @ edict2\<rparr>;
        assert_check leaf' bs;
        assert_check leaf2' bs;
        Some (groups2, leaf', leaf2') })"

text \<open>An index that is read behind the tables of the new leaf is \<open>None\<close>.\<close>

definition dleaf_split :: "nat \<Rightarrow> nat \<Rightarrow> dleaf \<Rightarrow> dleaf \<Rightarrow> (nat \<times> dleaf \<times> dleaf) option" where
  "dleaf_split bs key leaf leaf2 = do {
     c_assert (dleaf_sniff leaf);
     let groups = dleaf_groups leaf;
     let ebase = (bs - dl_used leaf) div 4;
     let entries = ebase - groups;
     (groups2, leaf, leaf2) \<leftarrow> dleaf_split_at leaf leaf2 (groups + entries div 2) bs;
     c_assert (groups2 < length (dl_dict leaf2));
     Some (get_index (word_at leaf2 1) (word_at leaf2 (groups2 + 1)), leaf, leaf2) }"

text \<open>The groups that \<open>dleaf_merge\<close> adds and the index words that it builds from those of the two leaves.\<close>

definition merge_dict :: "nat \<Rightarrow> u32 list \<Rightarrow> nat \<Rightarrow> u32 list \<Rightarrow> nat \<times> u32 list" where
  "merge_dict gstop dict groups2 dict2 =
     (let last = dict ! (gstop - 1);
          first = dict2 ! 0;
          same = (group_keyhi last = group_keyhi first \<and> group_count last < MAX_GROUP_ENTRIES);
          room = MAX_GROUP_ENTRIES - group_count last;
          merge_gcount = (if same then min room (group_count first) else 0);
          rest_gcount = (if same \<and> room < group_count first then group_count first - room else 0);
          can_merge_group = (if same \<and> \<not> room < group_count first then 1 else 0);
          addgroups = groups2 - can_merge_group;
          groups = take gstop dict @ chunk (groups2 - addgroups) addgroups dict2;
          entries = drop gstop dict;
          entries2 = drop groups2 dict2;
          limit_adjust = entry_limit (entries ! (length entries - 1));
          groups = (if merge_gcount \<noteq> 0
            then groups[gstop - 1 := inc_group_count (groups ! (gstop - 1)) (int merge_gcount)] else groups);
          merged = map (\<lambda>e. inc_entry_limit e (int limit_adjust)) (take merge_gcount entries2);
          limit_adjust = (if rest_gcount \<noteq> 0 then entry_limit (entries2 ! (merge_gcount - 1)) else 0);
          groups = (if rest_gcount \<noteq> 0
            then groups[gstop := set_group_count (groups ! gstop) (int rest_gcount)] else groups);
          rest = map (\<lambda>e. inc_entry_limit e (- int limit_adjust)) (chunk merge_gcount rest_gcount entries2)
      in (addgroups, groups @ entries @ merged @ rest @ drop (merge_gcount + rest_gcount) entries2))"

definition dleaf_merge :: "nat \<Rightarrow> dleaf \<Rightarrow> dleaf \<Rightarrow> dleaf option" where
  "dleaf_merge bs leaf from =
     (let gstop = dleaf_groups leaf;
          groups2 = dleaf_groups from
      in if groups2 = 0 then Some leaf
      else if gstop = 0 then Some from
      else do {
        let (addgroups, dict) = merge_dict gstop (dl_dict leaf) groups2 (dl_dict from);
        let entries2 = length (dl_dict from) - groups2;
        let leaf = inc_dleaf_groups leaf addgroups;
        let leaf = leaf\<lparr>dl_dict := dict, dl_free := wrap16 (dl_free leaf + (dl_free from - DLEAF_SIZE)),
          dl_used := sub16 (dl_used leaf) (4 * addgroups + 4 * entries2),
          dl_table := dl_table leaf @ dl_table from\<rparr>;
        assert_check leaf bs;
        Some leaf })"

section \<open>The walk\<close>

record dwalk =
  w_group :: nat
  w_gstop :: nat
  w_entry :: nat
  w_estop :: nat
  w_exbase :: nat
  w_extent :: nat
  w_exstop :: nat
  mock_group :: u32
  mock_entry :: u32
  mock_used :: int
  mock_free :: int
  mock_groups :: int

definition dwalk_first :: "dwalk \<Rightarrow> bool" where
  "dwalk_first walk \<longleftrightarrow> w_extent walk = 0"

definition dwalk_end :: "dwalk \<Rightarrow> bool" where
  "dwalk_end walk \<longleftrightarrow> w_extent walk = w_exstop walk"

definition dwalk_index :: "dleaf \<Rightarrow> dwalk \<Rightarrow> nat" where
  "dwalk_index leaf walk = get_index (word_at leaf (w_group walk)) (word_at leaf (w_entry walk))"

definition dwalk_block :: "dleaf \<Rightarrow> dwalk \<Rightarrow> nat" where
  "dwalk_block leaf walk = extent_block (dl_table leaf ! w_extent walk)"

definition dwalk_count :: "dleaf \<Rightarrow> dwalk \<Rightarrow> nat" where
  "dwalk_count leaf walk = extent_count (dl_table leaf ! w_extent walk)"

definition dwalk_check :: "dleaf \<Rightarrow> dwalk \<Rightarrow> bool" where
  "dwalk_check leaf walk =
     (if dleaf_groups leaf = 0 then
        w_group walk = w_gstop walk \<and> w_entry walk = w_estop walk \<and> w_exbase walk = w_extent walk
        \<and> w_extent walk = w_exstop walk \<and> w_exstop walk = 0
      else if dwalk_end walk then
        w_group walk = w_gstop walk \<and> w_entry walk = w_estop walk \<and> w_exbase walk < w_extent walk
        \<and> w_extent walk = w_exstop walk
      else
        w_group walk \<le> w_gstop walk \<and> w_entry walk \<le> w_estop walk \<and> w_exbase walk \<le> w_extent walk
        \<and> w_extent walk < w_exstop walk)"

definition dwalk_next :: "dleaf \<Rightarrow> dwalk \<Rightarrow> (bool \<times> dwalk) option" where
  "dwalk_next leaf walk =
     (if dwalk_end walk then Some (False, walk)
      else
        let walk = walk\<lparr>w_extent := w_extent walk + 1\<rparr>
        in if w_extent walk = w_exstop walk then
             if w_entry walk = w_estop walk \<and> w_group walk = w_gstop walk then Some (False, walk)
             else do {
               let walk = (if w_entry walk = w_estop walk then
                   let walk = walk\<lparr>w_group := w_group walk + 1,
                     w_exbase := w_exbase walk + entry_limit (word_at leaf (w_estop walk))\<rparr>
                   in walk\<lparr>w_estop := w_estop walk + group_count (word_at leaf (w_group walk))\<rparr>
                 else walk);
               let walk = walk\<lparr>w_entry := w_entry walk + 1\<rparr>;
               let walk = walk\<lparr>w_exstop := w_exbase walk + entry_limit (word_at leaf (w_entry walk))\<rparr>;
               c_assert (dwalk_check leaf walk);
               Some (True, walk) }
           else do {
             c_assert (dwalk_check leaf walk);
             Some (True, walk) })"

text \<open>The first extent of the entry a walk is at, and the limit of the entry before it.\<close>

definition entry_exbase :: "dleaf \<Rightarrow> dwalk \<Rightarrow> nat" where
  "entry_exbase leaf walk =
     (if int (w_entry walk) - 1 = int (w_estop walk) - int (group_count (word_at leaf (w_group walk)))
      then w_exbase walk
      else w_exbase walk + entry_limit (word_at leaf (w_entry walk - 1)))"

definition dwalk_back :: "dleaf \<Rightarrow> dwalk \<Rightarrow> (bool \<times> dwalk) option" where
  "dwalk_back leaf walk =
     (if dwalk_first walk then Some (False, walk)
      else
        let exbase = entry_exbase leaf walk;
            walk = walk\<lparr>w_extent := w_extent walk - 1\<rparr>
        in if w_extent walk < exbase then
             if w_extent walk < w_exbase walk \<and> w_group walk = 0 then Some (True, walk)
             else do {
               let walk = (if w_extent walk < w_exbase walk then
                   walk\<lparr>w_group := w_group walk - 1, w_estop := w_entry walk - 1,
                     w_exbase := w_exbase walk - entry_limit (word_at leaf (w_entry walk - 1))\<rparr>
                 else walk);
               let walk = walk\<lparr>w_entry := w_entry walk - 1\<rparr>;
               let walk = walk\<lparr>w_exstop := w_exbase walk + entry_limit (word_at leaf (w_entry walk))\<rparr>;
               c_assert (dwalk_check leaf walk);
               Some (True, walk) }
           else do {
             c_assert (dwalk_check leaf walk);
             Some (True, walk) })"

text \<open>Where the loop over the groups of \<open>dwalk_probe\<close> goes: to a label, or through.\<close>

datatype probed = No_group | Probe_entry | Past

fun probe_groups :: "dleaf \<Rightarrow> nat \<Rightarrow> nat \<Rightarrow> nat \<Rightarrow> dwalk \<Rightarrow> probed \<times> dwalk" where
  "probe_groups leaf keyhi keylo 0 walk = (Past, walk)"
| "probe_groups leaf keyhi keylo (Suc n) walk =
     (let walk = walk\<lparr>w_group := w_group walk + 1, w_entry := w_estop walk + 1\<rparr>;
          g = word_at leaf (w_group walk);
          walk = walk\<lparr>w_estop := w_estop walk + group_count g\<rparr>
      in if group_keyhi g > keyhi then (No_group, walk)
         else if group_keyhi g = keyhi \<and> entry_keylo (word_at leaf (w_entry walk)) > keylo
         then (No_group, walk)
         else if group_keyhi g = keyhi
           \<and> (w_group walk = w_gstop walk
              \<or> group_keyhi (word_at leaf (w_group walk + 1)) > keyhi
              \<or> entry_keylo (word_at leaf (w_estop walk + 1)) > keylo)
         then (Probe_entry, walk)
         else probe_groups leaf keyhi keylo n
           (walk\<lparr>w_exbase := w_exbase walk + entry_limit (word_at leaf (w_estop walk))\<rparr>))"

fun probe_entries :: "dleaf \<Rightarrow> nat \<Rightarrow> nat \<Rightarrow> dwalk \<Rightarrow> dwalk" where
  "probe_entries leaf keylo 0 walk = walk"
| "probe_entries leaf keylo (Suc n) walk =
     (if entry_keylo (word_at leaf (w_entry walk + 1)) > keylo then walk
      else
        let walk = walk\<lparr>w_entry := w_entry walk + 1\<rparr>
        in probe_entries leaf keylo n
             (walk\<lparr>w_extent := w_exstop walk,
                w_exstop := w_exbase walk + entry_limit (word_at leaf (w_entry walk))\<rparr>))"

definition dwalk_probe :: "dleaf \<Rightarrow> nat \<Rightarrow> dwalk \<Rightarrow> (bool \<times> dwalk) option" where
  "dwalk_probe leaf key walk =
     (let keylo = key mod 2 ^ 24;
          keyhi = wrap32 (key div 2 ^ 24);
          gstop = dleaf_groups leaf;
          walk = walk\<lparr>w_group := 0, w_gstop := gstop, w_estop := gstop, w_exbase := 0\<rparr>
      in if gstop = 0 then do {
           let walk = walk\<lparr>w_entry := gstop, w_extent := 0, w_exstop := 0\<rparr>;
           c_assert (dwalk_check leaf walk);
           Some (False, walk) }
         else case probe_groups leaf keyhi keylo gstop walk of
           (Past, walk) \<Rightarrow> do {
             let walk = walk\<lparr>w_entry := w_estop walk, w_exstop := w_exbase walk, w_extent := w_exbase walk\<rparr>;
             let walk = walk\<lparr>w_exbase := w_exbase walk - entry_limit (word_at leaf (w_estop walk))\<rparr>;
             c_assert (dwalk_check leaf walk);
             Some (False, walk) }
         | (No_group, walk) \<Rightarrow> do {
             let walk = walk\<lparr>w_extent := w_exbase walk,
               w_exstop := w_exbase walk + entry_limit (word_at leaf (w_entry walk))\<rparr>;
             c_assert (dwalk_check leaf walk);
             Some (True, walk) }
         | (Probe_entry, walk) \<Rightarrow> do {
             let walk = walk\<lparr>w_extent := w_exbase walk,
               w_exstop := w_exbase walk + entry_limit (word_at leaf (w_entry walk))\<rparr>;
             let walk = probe_entries leaf keylo (w_estop walk - w_entry walk) walk;
             if key < dwalk_index leaf walk + dwalk_count leaf walk then Some (True, walk)
             else do {
               (_, walk) \<leftarrow> dwalk_next leaf walk;
               Some (\<not> dwalk_end walk, walk) } })"

section \<open>Changing a leaf through a walk\<close>

definition dwalk_mock :: "dleaf \<Rightarrow> dwalk \<Rightarrow> nat \<Rightarrow> dwalk" where
  "dwalk_mock leaf walk index =
     (let walk =
        (if dleaf_groups leaf = 0 \<or> w_entry walk = w_estop walk \<or> dwalk_index leaf walk \<noteq> index then
           let keylo = index mod 2 ^ 24;
               keyhi = wrap32 (index div 2 ^ 24);
               walk = (if mock_groups walk = 0 \<or> group_keyhi (mock_group walk) \<noteq> keyhi
                   \<or> group_count (mock_group walk) \<ge> MAX_GROUP_ENTRIES
                 then walk\<lparr>w_exbase := w_exbase walk + entry_limit (mock_entry walk),
                   mock_group := make_group keyhi 0, mock_used := mock_used walk - 4,
                   mock_groups := mock_groups walk + 1\<rparr>
                 else walk)
           in walk\<lparr>mock_used := mock_used walk - 4,
                mock_entry := make_entry keylo (w_extent walk - w_exbase walk),
                mock_group := inc_group_count (mock_group walk) 1\<rparr>
         else walk)
      in walk\<lparr>mock_free := mock_free walk + 8, w_extent := w_extent walk + 1,
           mock_entry := inc_entry_limit (mock_entry walk) 1\<rparr>)"

definition dwalk_copy :: "nat \<Rightarrow> dleaf \<Rightarrow> dwalk \<Rightarrow> dleaf \<Rightarrow> dleaf option" where
  "dwalk_copy bs leaf walk dest = do {
     c_assert (dleaf_groups dest = 0);
     if dwalk_end walk then Some dest
     else if dwalk_first walk then Some leaf
     else do {
       let groups2 = w_gstop walk + 1 - w_group walk;
       let ebase = (bs - dl_used leaf) div 4;
       let entries = ebase + 1 - w_entry walk;
       let exbase = entry_exbase leaf walk;
       let limit_adjust = exbase - w_exbase walk;
       let extents = (dl_free leaf - DLEAF_SIZE) div 8 - exbase;
       let gcount2 = w_estop walk + 1 - w_entry walk;
       let groups = chunk (w_group walk - 1) groups2 (dl_dict leaf);
       let groups = groups[0 := set_group_count (groups ! 0) (int gcount2)];
       let ents = chunk (w_entry walk - 1) entries (dl_dict leaf);
       let ents = map (\<lambda>e. inc_entry_limit e (- int limit_adjust)) (take gcount2 ents) @ drop gcount2 ents;
       let dest = dest\<lparr>dl_groups := wrap16 groups2, dl_free := wrap16 (DLEAF_SIZE + 8 * extents),
         dl_used := wrap16 (bs - 4 * (groups2 + entries)),
         dl_table := chunk exbase extents (dl_table leaf), dl_dict := groups @ ents\<rparr>;
       assert_check dest bs;
       Some dest } }"

definition dwalk_chop :: "nat \<Rightarrow> dleaf \<Rightarrow> dwalk \<Rightarrow> (dleaf \<times> dwalk) option" where
  "dwalk_chop bs leaf walk =
     (if dwalk_end walk then Some (leaf, walk)
      else if dwalk_first walk then do {
        let leaf = leaf\<lparr>dl_groups := 0, dl_free := DLEAF_SIZE, dl_used := wrap16 bs,
          dl_table := [], dl_dict := []\<rparr>;
        (_, walk) \<leftarrow> dwalk_probe leaf 0 walk;
        Some (leaf, walk) }
      else do {
        (_, walk) \<leftarrow> dwalk_back leaf walk;
        let ebase = w_estop walk - group_count (word_at leaf (w_group walk));
        let leaf = set_dleaf_groups leaf (w_group walk);
        let leaf = put_word leaf (w_group walk)
          (set_group_count (word_at leaf (w_group walk)) (int (w_entry walk) - int ebase));
        let entry = w_entry walk - (w_gstop walk - w_group walk);
        let dict = memmove (dl_dict leaf) (w_group walk) (w_gstop walk) (w_entry walk - w_gstop walk);
        let leaf = leaf\<lparr>dl_dict := take entry dict\<rparr>;
        let walk = walk\<lparr>w_estop := entry, w_entry := entry, w_gstop := w_group walk\<rparr>;
        let walk = walk\<lparr>w_exstop := w_exbase walk + entry_limit (word_at leaf (w_entry walk))\<rparr>;
        let walk = walk\<lparr>w_extent := w_exstop walk\<rparr>;
        let leaf = leaf\<lparr>dl_free := wrap16 (DLEAF_SIZE + 8 * w_exstop walk),
          dl_used := wrap16 (bs - 4 * w_estop walk), dl_table := take (w_exstop walk) (dl_table leaf)\<rparr>;
        c_assert (dwalk_check leaf walk);
        assert_check leaf bs;
        Some (leaf, walk) })"

text \<open>The new group of \<open>dwalk_add\<close>: the entries move one word down to make room for it.\<close>

definition add_group :: "dleaf \<Rightarrow> dwalk \<Rightarrow> nat \<Rightarrow> dleaf \<times> dwalk" where
  "add_group leaf walk keyhi =
     (let groups = dleaf_groups leaf;
          dict = blit (dl_dict leaf @ [0]) (w_group walk + 1)
            (chunk (w_group walk) (w_entry walk - w_group walk) (dl_dict leaf));
          walk = walk\<lparr>w_entry := w_entry walk + 1\<rparr>;
          walk = walk\<lparr>w_exbase := w_exbase walk + (if groups = 0 then 0 else entry_limit (dict ! (w_entry walk - 1))),
            w_group := w_group walk + 1\<rparr>;
          dict = dict[w_group walk - 1 := make_group keyhi 0]
      in (set_dleaf_groups (leaf\<lparr>dl_dict := dict\<rparr>) (groups + 1), walk))"

definition add_entry :: "dleaf \<Rightarrow> dwalk \<Rightarrow> nat \<Rightarrow> nat \<Rightarrow> dleaf \<times> dwalk" where
  "add_entry leaf walk room keylo =
     (let leaf = leaf\<lparr>dl_used := wrap16 room,
            dl_dict := (dl_dict leaf @ [0])[w_entry walk := make_entry keylo (w_extent walk - w_exbase walk)]\<rparr>;
          walk = walk\<lparr>w_entry := w_entry walk + 1\<rparr>
      in (put_word leaf (w_group walk) (inc_group_count (word_at leaf (w_group walk)) 1), walk))"

definition add_extent :: "dleaf \<Rightarrow> dwalk \<Rightarrow> nat \<Rightarrow> u64 \<Rightarrow> dleaf \<times> dwalk" where
  "add_extent leaf walk free extent =
     (let leaf = leaf\<lparr>dl_free := wrap16 free, dl_table := (dl_table leaf @ [0])[w_extent walk := extent]\<rparr>;
          walk = walk\<lparr>w_extent := w_extent walk + 1\<rparr>
      in (put_word leaf (w_entry walk) (inc_entry_limit (word_at leaf (w_entry walk)) 1), walk))"

definition dwalk_add :: "nat \<Rightarrow> dleaf \<Rightarrow> dwalk \<Rightarrow> nat \<Rightarrow> u64 \<Rightarrow> (dleaf \<times> dwalk) option" where
  "dwalk_add bs leaf walk index extent = do {
     let groups = dleaf_groups leaf;
     let free = dl_free leaf;
     let used = dl_used leaf;
     c_assert (groups = 0 \<or> dwalk_index leaf walk \<noteq> index);
     c_assert (extent_block extent > 0 \<and> extent_count extent > 0);
     let keylo = index mod 2 ^ 24;
     let keyhi = wrap32 (index div 2 ^ 24);
     (leaf, walk, used) \<leftarrow>
       (if groups = 0 \<or> group_keyhi (word_at leaf (w_group walk)) \<noteq> keyhi
           \<or> group_count (word_at leaf (w_group walk)) \<ge> MAX_GROUP_ENTRIES
        then do {
          c_assert (free \<le> sub64 used 4);
          let (leaf, walk) = add_group leaf walk keyhi;
          Some (leaf, walk, sub32 used 4) }
        else Some (leaf, walk, used));
     c_assert (free \<le> sub64 used 4);
     let used = sub32 used 4;
     let (leaf, walk) = add_entry leaf walk used keylo;
     c_assert (free + 8 \<le> used);
     let (leaf, walk) = add_extent leaf walk (free + 8) extent;
     assert_check leaf bs;
     Some (leaf, walk) }"

definition dwalk_update :: "dleaf \<Rightarrow> dwalk \<Rightarrow> u64 \<Rightarrow> dleaf" where
  "dwalk_update leaf walk extent = leaf\<lparr>dl_table := (dl_table leaf)[w_extent walk := extent]\<rparr>"

text \<open>
  \<open>dleaf_chop\<close> frees through \<open>btree->ops->bfree\<close>, here \<open>bf\<close> on the state \<open>'s\<close>, and drops its
  errors. \<open>chop_free\<close> is its loop over the extents from the walk's on; \<open>n\<close> bounds the extents.
\<close>

fun chop_free ::
  "(nat \<Rightarrow> nat \<Rightarrow> 's \<Rightarrow> ((errno + unit) \<times> 's) option) \<Rightarrow> dleaf \<Rightarrow> nat \<Rightarrow> dwalk \<Rightarrow> 's \<Rightarrow> 's option" where
  "chop_free bf leaf 0 walk s = None"
| "chop_free bf leaf (Suc n) walk s = do {
     (_, s) \<leftarrow> bf (dwalk_block leaf walk) (dwalk_count leaf walk) s;
     (more, walk) \<leftarrow> dwalk_next leaf walk;
     if more then chop_free bf leaf n walk s else Some s }"

definition dleaf_chop ::
  "(nat \<Rightarrow> nat \<Rightarrow> 's \<Rightarrow> ((errno + unit) \<times> 's) option) \<Rightarrow> nat \<Rightarrow> nat \<Rightarrow> dleaf \<Rightarrow> dwalk \<Rightarrow> 's
    \<Rightarrow> (bool \<times> dleaf \<times> 's) option" where
  "dleaf_chop bf bs chop leaf walk s = do {
     (found, walk) \<leftarrow> dwalk_probe leaf chop walk;
     if \<not> found then Some (False, leaf, s)
     else do {
       (more, leaf, walk, s) \<leftarrow>
         (if dwalk_index leaf walk < chop then do {
            let block = dwalk_block leaf walk;
            let count = wrap32 (chop - dwalk_index leaf walk);
            (_, s) \<leftarrow> bf (block + count) (sub32 (dwalk_count leaf walk) count) s;
            extent \<leftarrow> make_extent block count;
            let leaf = dwalk_update leaf walk extent;
            (more, walk) \<leftarrow> dwalk_next leaf walk;
            Some (more, leaf, walk, s) }
          else Some (True, leaf, walk, s));
       (leaf, s) \<leftarrow>
         (if more then do {
            s \<leftarrow> chop_free bf leaf (length (dl_table leaf)) walk s;
            (leaf, _) \<leftarrow> dwalk_chop bs leaf walk;
            Some (leaf, s) }
          else Some (leaf, s));
       assert_check leaf bs;
       Some (True, leaf, s) } }"

end
