(* ===== verification/Tux_Dwalk.thy ===== *)
theory Tux_Dwalk
  imports Tux_Dleaf
begin

text \<open>
  What a file index leaf stores and how the walk moves over it. \<open>dl_rep\<close> relates a leaf to a
  list of groups, each the high part of its keys and the low parts in order, with one extent to
  a key as the code assumes; \<open>walk_at\<close> is the walk's state at an extent.
\<close>

section \<open>The fields of the words\<close>

lemma mask24: "(0xffffff :: u32) = mask 24"
  by (simp add: mask_eq_decr_exp)

lemma mask48: "(0xffffffffffff :: u64) = mask 48"
  by (simp add: mask_eq_decr_exp)

lemma low_field:
  fixes a b :: "'a::len word"
  assumes "a = take_bit n a"
  shows "(a OR push_bit n b) AND mask n = a"
  using assms by (auto simp: bit_eq_iff bit_simps)

lemma high_field:
  fixes a b :: "'a::len word"
  assumes "a = take_bit n a"
  shows "drop_bit n (a OR push_bit n b) = take_bit (LENGTH('a) - n) b"
proof (rule bit_word_eqI)
  fix i assume i: "i < LENGTH('a)"
  have "\<not> bit a (n + i)" using assms by (metis bit_take_bit_iff less_add_same_cancel1 not_add_less1)
  then show "bit (drop_bit n (a OR push_bit n b)) i = bit (take_bit (LENGTH('a) - n) b) i"
    using i by (auto simp: bit_simps)
qed

lemma small_take_bit:
  assumes "h < 2 ^ n"
  shows "(word_of_nat h :: 'a::len word) = take_bit n (word_of_nat h)"
  using assms by (simp add: take_bit_of_nat take_bit_nat_eq_self)

lemma unat_small: "h < 2 ^ 24 \<Longrightarrow> unat (word_of_nat h :: u32) = h"
  by (simp add: unat_of_nat)

lemma group_keyhi_make [simp]: "h < 2 ^ 24 \<Longrightarrow> group_keyhi (make_group h c) = h"
  by (simp only: group_keyhi_def make_group_def mask24 low_field [OF small_take_bit] unat_small)

lemma group_count_make [simp]: "h < 2 ^ 24 \<Longrightarrow> c < 256 \<Longrightarrow> group_count (make_group h c) = c"
  by (simp only: group_count_def make_group_def high_field [OF small_take_bit])
    (simp add: take_bit_of_nat [symmetric] take_bit_nat_eq_self unat_of_nat unsigned_take_bit_eq)

lemma set_group_count_make:
  "h < 2 ^ 24 \<Longrightarrow> set_group_count (make_group h c) (int n) = make_group h n"
  by (simp only: set_group_count_def make_group_def mask24 low_field [OF small_take_bit] of_int_of_nat_eq)

lemma entry_as_group:
  "entry_keylo = group_keyhi" "entry_limit = group_count" "make_entry = make_group"
  "inc_entry_limit = inc_group_count"
  by (simp_all add: fun_eq_iff entry_keylo_def group_keyhi_def entry_limit_def group_count_def
      make_entry_def make_group_def inc_entry_limit_def inc_group_count_def set_group_count_def)

lemma inc_group_count_make:
  assumes "h < 2 ^ 24" "c < 256" "0 \<le> int c + n"
  shows "inc_group_count (make_group h c) n = make_group h (nat (int c + n))"
  using assms set_group_count_make [of h c "nat (int c + n)"] by (simp add: inc_group_count_def)

lemma entry_keylo_make [simp]: "k < 2 ^ 24 \<Longrightarrow> entry_keylo (make_entry k l) = k"
  by (simp only: entry_as_group group_keyhi_make)

lemma entry_limit_make [simp]: "k < 2 ^ 24 \<Longrightarrow> l < 256 \<Longrightarrow> entry_limit (make_entry k l) = l"
  by (simp only: entry_as_group group_count_make)

lemma inc_entry_limit_make:
  "k < 2 ^ 24 \<Longrightarrow> c < 256 \<Longrightarrow> 0 \<le> int c + n \<Longrightarrow>
    inc_entry_limit (make_entry k c) n = make_entry k (nat (int c + n))"
  by (simp only: entry_as_group inc_group_count_make)

lemma unat_small48: "b < 2 ^ 48 \<Longrightarrow> unat (word_of_nat b :: u64) = b"
  by (simp add: unat_of_nat)

lemma make_extent_fields:
  assumes "block < 2 ^ 48" "0 < count" "count \<le> 64"
  obtains x where "make_extent block count = Some x" "extent_block x = block" "extent_count x = count"
    "extent_version x = 0"
proof -
  obtain c where c: "count = Suc c" "c < 64" using assms by (cases count) auto
  let ?x = "word_of_nat block OR push_bit 48 (word_of_nat c) :: u64"
  have m: "make_extent block count = Some ?x"
    using assms c by (simp add: make_extent_def wrap_simps or.commute)
  have b: "extent_block ?x = block"
    by (simp only: extent_block_def mask48 low_field [OF small_take_bit] assms unat_small48)
  have d: "drop_bit 48 ?x = word_of_nat c"
    unfolding high_field [OF small_take_bit [OF assms(1)]]
    using c by (simp add: take_bit_of_nat take_bit_nat_eq_self)
  have six: "(0x3f :: u64) = mask 6" by (simp add: mask_eq_decr_exp)
  have "drop_bit 48 ?x AND 0x3f = word_of_nat c"
    unfolding d six take_bit_eq_mask [symmetric] using c by (simp add: take_bit_of_nat take_bit_nat_eq_self)
  then have n: "extent_count ?x = count"
    using c by (simp add: extent_count_def unat_of_nat)
  have "drop_bit 54 ?x = drop_bit 6 (drop_bit 48 ?x)" by simp
  then have "drop_bit 54 ?x = drop_bit 6 (word_of_nat c)" by (simp only: d)
  then have v: "extent_version ?x = 0"
    using c by (simp only: extent_version_def unat_drop_bit_eq) (simp add: drop_bit_eq_div unat_of_nat)
  show ?thesis by (rule that [OF m b n v])
qed

section \<open>What a leaf stores\<close>

type_synonym grp = "nat \<times> nat list"

definition group_words :: "grp list \<Rightarrow> u32 list" where
  "group_words L = map (\<lambda>(h, ks). make_group h (length ks)) L"

text \<open>The entries of a group: the limit counts from 1, since an entry has one extent.\<close>

definition key_words :: "nat list \<Rightarrow> u32 list" where
  "key_words ks = map2 make_entry ks [1..<Suc (length ks)]"

definition entry_words :: "grp list \<Rightarrow> u32 list" where
  "entry_words L = concat (map (key_words \<circ> snd) L)"

definition leaf_keys :: "grp list \<Rightarrow> nat list" where
  "leaf_keys L = concat (map (\<lambda>(h, ks). map (\<lambda>k. h * 2 ^ 24 + k) ks) L)"

definition group_ok :: "grp \<Rightarrow> bool" where
  "group_ok g \<longleftrightarrow> fst g < 2 ^ 24 \<and> snd g \<noteq> [] \<and> length (snd g) \<le> MAX_GROUP_ENTRIES \<and> (\<forall>k\<in>set (snd g). k < 2 ^ 24)"

definition dl_rep :: "nat \<Rightarrow> dleaf \<Rightarrow> grp list \<Rightarrow> bool" where
  "dl_rep bs leaf L \<longleftrightarrow>
     dl_magic leaf = TUX3_MAGIC_DLEAF
     \<and> (\<forall>g\<in>set L. group_ok g) \<and> sorted_wrt (<) (leaf_keys L)
     \<and> dl_groups leaf = length L
     \<and> dl_dict leaf = group_words L @ entry_words L
     \<and> length (dl_table leaf) = length (leaf_keys L)
     \<and> (\<forall>x\<in>set (dl_table leaf). extent_block x \<noteq> 0)
     \<and> dl_free leaf = DLEAF_SIZE + 8 * length (dl_table leaf)
     \<and> dl_used leaf = bs - 4 * length (dl_dict leaf)
     \<and> DLEAF_SIZE + 8 * length (dl_table leaf) + 4 * length (dl_dict leaf) \<le> bs \<and> bs < 2 ^ 16"

text \<open>The number of entries of the first \<open>j\<close> groups.\<close>

definition skips :: "grp list \<Rightarrow> nat \<Rightarrow> nat" where
  "skips L j = length (leaf_keys (take j L))"

lemma leaf_keys_simps [simp]:
  "leaf_keys [] = []" "leaf_keys (g # L) = map (\<lambda>k. fst g * 2 ^ 24 + k) (snd g) @ leaf_keys L"
  "leaf_keys (L @ M) = leaf_keys L @ leaf_keys M"
  by (simp_all add: leaf_keys_def split_def)

lemma group_words_simps [simp]:
  "group_words [] = []" "group_words (g # L) = make_group (fst g) (length (snd g)) # group_words L"
  "group_words (L @ M) = group_words L @ group_words M" "length (group_words L) = length L"
  by (simp_all add: group_words_def split_def)

lemma entry_words_simps [simp]:
  "entry_words [] = []" "entry_words (g # L) = key_words (snd g) @ entry_words L"
  "entry_words (L @ M) = entry_words L @ entry_words M"
  by (simp_all add: entry_words_def)

lemma length_key_words [simp]: "length (key_words ks) = length ks"
  by (simp add: key_words_def del: upt_Suc)

lemma nth_key_words [simp]: "t < length ks \<Longrightarrow> key_words ks ! t = make_entry (ks ! t) (Suc t)"
  by (simp add: key_words_def del: upt_Suc)

lemma length_entry_words [simp]: "length (entry_words L) = length (leaf_keys L)"
  by (induction L) auto

lemma skips_0 [simp]: "skips L 0 = 0"
  by (simp add: skips_def)

lemma skips_Suc: "j < length L \<Longrightarrow> skips L (Suc j) = skips L j + length (snd (L ! j))"
  by (simp add: skips_def take_Suc_conv_app_nth)

lemma skips_all [simp]: "skips L (length L) = length (leaf_keys L)"
  by (simp add: skips_def)

lemma skips_mono: "i \<le> j \<Longrightarrow> skips L i \<le> skips L j"
  using arg_cong [OF take_add [of i "j - i" L], of "\<lambda>x. length (leaf_keys x)"] by (simp add: skips_def)

lemma group_split: "j < length L \<Longrightarrow> L = take j L @ L ! j # drop (Suc j) L"
  by (rule id_take_nth_drop)

lemma nth_group_words: "j < length L \<Longrightarrow> group_words L ! j = make_group (fst (L ! j)) (length (snd (L ! j)))"
  by (simp add: group_words_def split_def)

lemma nth_middle: "n = length xs \<Longrightarrow> t < length ys \<Longrightarrow> (xs @ ys @ zs) ! (n + t) = ys ! t"
  by (simp add: nth_append)

lemma nth_entry_words:
  assumes "j < length L" "t < length (snd (L ! j))"
  shows "entry_words L ! (skips L j + t) = make_entry (snd (L ! j) ! t) (Suc t)"
  using assms arg_cong [OF group_split [OF assms(1)], of "\<lambda>x. entry_words x ! (skips L j + t)"]
  by (simp add: nth_middle skips_def)

lemma nth_leaf_keys:
  assumes "j < length L" "t < length (snd (L ! j))"
  shows "leaf_keys L ! (skips L j + t) = fst (L ! j) * 2 ^ 24 + snd (L ! j) ! t"
  using assms arg_cong [OF group_split [OF assms(1)], of "\<lambda>x. leaf_keys x ! (skips L j + t)"]
  by (simp add: nth_middle skips_def) (simp add: nth_append)

lemma leaf_keys_bound:
  assumes "j < length L" "t < length (snd (L ! j))"
  shows "skips L j + t < length (leaf_keys L)"
  using skips_mono [of "Suc j" "length L" L] assms by (simp add: skips_Suc)

text \<open>Every position of a leaf is an entry of a group.\<close>

lemma position_cases:
  assumes "i < length (leaf_keys L)"
  obtains j t where "j < length L" "t < length (snd (L ! j))" "i = skips L j + t"
proof -
  have "\<exists>j t. j < length L \<and> t < length (snd (L ! j)) \<and> i = skips L j + t" using assms
  proof (induction L arbitrary: i)
    case (Cons g L)
    show ?case
    proof (cases "i < length (snd g)")
      case True
      then show ?thesis by (intro exI [of _ 0] exI [of _ i]) simp
    next
      case False
      then have "i - length (snd g) < length (leaf_keys L)" using Cons.prems by auto
      from Cons.IH [OF this] obtain j t
        where "j < length L" "t < length (snd (L ! j))" "i - length (snd g) = skips L j + t" by blast
      then show ?thesis using False by (intro exI [of _ "Suc j"] exI [of _ t]) (auto simp: skips_def)
    qed
  qed simp
  then show thesis using that by blast
qed

section \<open>Reading the words of a leaf\<close>

lemma dl_repD:
  assumes "dl_rep bs leaf L"
  shows "dl_magic leaf = TUX3_MAGIC_DLEAF" "\<And>g. g \<in> set L \<Longrightarrow> group_ok g" "sorted_wrt (<) (leaf_keys L)"
    "dl_groups leaf = length L" "dl_dict leaf = group_words L @ entry_words L"
    "length (dl_table leaf) = length (leaf_keys L)" "\<And>x. x \<in> set (dl_table leaf) \<Longrightarrow> extent_block x \<noteq> 0"
    "dl_free leaf = DLEAF_SIZE + 8 * length (leaf_keys L)"
    "dl_used leaf = bs - 4 * (length L + length (leaf_keys L))"
    "DLEAF_SIZE + 8 * length (leaf_keys L) + 4 * (length L + length (leaf_keys L)) \<le> bs" "bs < 2 ^ 16"
  using assms by (auto simp: dl_rep_def)

lemma group_okD:
  assumes "group_ok g"
  shows "fst g < 2 ^ 24" "snd g \<noteq> []" "length (snd g) < 256" "length (snd g) \<le> 255"
    "t < length (snd g) \<Longrightarrow> snd g ! t < 2 ^ 24"
  using assms by (auto simp: group_ok_def MAX_GROUP_ENTRIES_def)

lemma rep_group_ok: "dl_rep bs leaf L \<Longrightarrow> j < length L \<Longrightarrow> group_ok (L ! j)"
  by (simp add: dl_repD(2))

lemma word_group:
  assumes "dl_rep bs leaf L" "j < length L"
  shows "word_at leaf (Suc j) = make_group (fst (L ! j)) (length (snd (L ! j)))"
    "group_keyhi (word_at leaf (Suc j)) = fst (L ! j)" "group_count (word_at leaf (Suc j)) = length (snd (L ! j))"
proof -
  show w: "word_at leaf (Suc j) = make_group (fst (L ! j)) (length (snd (L ! j)))"
    using assms by (simp add: word_at_def dl_repD(5) nth_append nth_group_words)
  show "group_keyhi (word_at leaf (Suc j)) = fst (L ! j)" "group_count (word_at leaf (Suc j)) = length (snd (L ! j))"
    unfolding w using group_okD(1,3) [OF rep_group_ok [OF assms]] by simp_all
qed

lemma word_entry:
  assumes "dl_rep bs leaf L" "j < length L" "t < length (snd (L ! j))"
  shows "word_at leaf (Suc (length L + skips L j + t)) = make_entry (snd (L ! j) ! t) (Suc t)"
    "entry_keylo (word_at leaf (Suc (length L + skips L j + t))) = snd (L ! j) ! t"
    "entry_limit (word_at leaf (Suc (length L + skips L j + t))) = Suc t"
proof -
  show w: "word_at leaf (Suc (length L + skips L j + t)) = make_entry (snd (L ! j) ! t) (Suc t)"
    using assms nth_entry_words [OF assms(2,3)]
    by (simp add: word_at_def dl_repD(5) nth_append add.assoc)
  show "entry_keylo (word_at leaf (Suc (length L + skips L j + t))) = snd (L ! j) ! t"
    "entry_limit (word_at leaf (Suc (length L + skips L j + t))) = Suc t"
    unfolding w using group_okD(3,5) [OF rep_group_ok [OF assms(1,2)]] assms(3) by simp_all
qed

section \<open>Moving over a leaf\<close>

definition walk_at :: "grp list \<Rightarrow> dwalk \<Rightarrow> nat \<Rightarrow> nat \<Rightarrow> bool" where
  "walk_at L walk j t \<longleftrightarrow> j < length L \<and> t < length (snd (L ! j))
     \<and> w_group walk = Suc j \<and> w_gstop walk = length L
     \<and> w_entry walk = Suc (length L + skips L j + t) \<and> w_estop walk = length L + skips L (Suc j)
     \<and> w_exbase walk = skips L j \<and> w_extent walk = skips L j + t \<and> w_exstop walk = Suc (skips L j + t)"

definition walk_end :: "grp list \<Rightarrow> dwalk \<Rightarrow> bool" where
  "walk_end L walk \<longleftrightarrow> w_group walk = length L \<and> w_gstop walk = length L
     \<and> w_entry walk = length L + length (leaf_keys L) \<and> w_estop walk = length L + length (leaf_keys L)
     \<and> w_exbase walk = skips L (length L - 1)
     \<and> w_extent walk = length (leaf_keys L) \<and> w_exstop walk = length (leaf_keys L)"

text \<open>The walk is at extent \<open>i\<close>, or behind the last one.\<close>

definition walk_pos :: "grp list \<Rightarrow> dwalk \<Rightarrow> nat \<Rightarrow> bool" where
  "walk_pos L walk i \<longleftrightarrow>
     (\<exists>j t. i = skips L j + t \<and> walk_at L walk j t) \<or> (i = length (leaf_keys L) \<and> walk_end L walk)"

lemma walk_atI: "walk_at L walk j t \<Longrightarrow> walk_pos L walk (skips L j + t)"
  by (auto simp: walk_pos_def)

lemma walk_endI: "walk_end L walk \<Longrightarrow> walk_pos L walk (length (leaf_keys L))"
  by (simp add: walk_pos_def)

lemma walk_pos_cases:
  assumes "walk_pos L walk i"
  obtains (At) j t where "i = skips L j + t" "i < length (leaf_keys L)" "walk_at L walk j t"
    | (End) "i = length (leaf_keys L)" "walk_end L walk"
proof -
  have "i < length (leaf_keys L)" if "i = skips L j + t" "walk_at L walk j t" for j t
    using that leaf_keys_bound [of j L t] by (simp add: walk_at_def)
  then show ?thesis using assms that by (auto simp: walk_pos_def)
qed

lemma walk_pos_extent: "walk_pos L walk i \<Longrightarrow> w_extent walk = i \<and> i \<le> length (leaf_keys L)"
  by (elim walk_pos_cases) (auto simp: walk_at_def walk_end_def)

lemma walk_pos_end: "walk_pos L walk i \<Longrightarrow> dwalk_end walk \<longleftrightarrow> i = length (leaf_keys L)"
  by (elim walk_pos_cases) (auto simp: walk_at_def walk_end_def dwalk_end_def)

lemma walk_pos_first: "walk_pos L walk i \<Longrightarrow> dwalk_first walk \<longleftrightarrow> i = 0"
  by (simp add: dwalk_first_def walk_pos_extent)

lemma walk_index:
  assumes "dl_rep bs leaf L" "walk_pos L walk i" "i < length (leaf_keys L)"
  shows "dwalk_index leaf walk = leaf_keys L ! i"
  using assms(2)
proof (cases rule: walk_pos_cases)
  case (At j t)
  then have "j < length L" "t < length (snd (L ! j))" by (auto simp: walk_at_def)
  then show ?thesis
    using At nth_leaf_keys [of j L t] word_group [OF assms(1), of j] word_entry [OF assms(1), of j t]
    by (simp add: dwalk_index_def get_index_def walk_at_def)
qed (use assms in simp)

lemma last_entry_limit:
  assumes "dl_rep bs leaf L" "j < length L"
  shows "entry_limit (word_at leaf (length L + skips L (Suc j))) = length (snd (L ! j))"
proof -
  have "length (snd (L ! j)) \<noteq> 0" using group_okD(2) [OF rep_group_ok [OF assms]] by simp
  then obtain t where t: "length (snd (L ! j)) = Suc t" by (cases "length (snd (L ! j))") auto
  then show ?thesis using word_entry(3) [OF assms, of t] assms(2) by (simp add: skips_Suc add.assoc)
qed

lemma walk_at_check: "dl_rep bs leaf L \<Longrightarrow> walk_at L walk j t \<Longrightarrow> dwalk_check leaf walk"
  by (auto simp: dwalk_check_def walk_at_def dleaf_groups_def dl_repD(4) dwalk_end_def skips_Suc)

lemma last_group:
  assumes "dl_rep bs leaf L" "L \<noteq> []"
  shows "skips L (length L - 1) < length (leaf_keys L)"
    "length (leaf_keys L) = skips L (length L - 1) + length (snd (L ! (length L - 1)))"
proof -
  have j: "length L - 1 < length L" using assms(2) by simp
  then show *: "length (leaf_keys L) = skips L (length L - 1) + length (snd (L ! (length L - 1)))"
    using skips_Suc [OF j] assms(2) by simp
  show "skips L (length L - 1) < length (leaf_keys L)"
    unfolding * using group_okD(2) [OF rep_group_ok [OF assms(1) j]] by simp
qed

lemma walk_end_check: "dl_rep bs leaf L \<Longrightarrow> walk_end L walk \<Longrightarrow> dwalk_check leaf walk"
  using last_group [of bs leaf L]
  by (auto simp: dwalk_check_def walk_end_def dleaf_groups_def dl_repD(4) dwalk_end_def)

lemma dwalk_next_at:
  assumes rep: "dl_rep bs leaf L" and at: "walk_at L walk j t"
  obtains walk' where "dwalk_next leaf walk = Some (Suc (skips L j + t) < length (leaf_keys L), walk')"
    "walk_pos L walk' (Suc (skips L j + t))"
proof -
  have jt: "j < length L" "t < length (snd (L ! j))" and nend: "\<not> dwalk_end walk"
    using at by (auto simp: walk_at_def dwalk_end_def)
  have bound: "Suc (skips L j + t) < length (leaf_keys L)" if "Suc t < length (snd (L ! j))"
    using leaf_keys_bound [OF jt(1) that] by simp
  consider (entry) "Suc t < length (snd (L ! j))" | (group) "Suc t = length (snd (L ! j))" "Suc j < length L"
    | (leaf) "Suc t = length (snd (L ! j))" "Suc j = length L"
    using jt by linarith
  then show ?thesis
  proof cases
    case entry
    let ?w = "walk\<lparr>w_extent := Suc (skips L j + t), w_entry := Suc (Suc (length L + skips L j + t)),
      w_exstop := Suc (Suc (skips L j + t))\<rparr>"
    have "walk_at L ?w j (Suc t)" using at entry by (simp add: walk_at_def)
    moreover have "dwalk_next leaf walk = Some (True, ?w)"
      using at entry nend jt word_entry(3) [OF rep jt(1) entry] walk_at_check [OF rep \<open>walk_at L ?w j (Suc t)\<close>]
      by (simp add: dwalk_next_def walk_at_def skips_Suc)
    ultimately show ?thesis using that bound [OF entry] walk_atI [of L ?w j "Suc t"] by simp
  next
    case group
    let ?w = "walk\<lparr>w_extent := skips L (Suc j), w_group := Suc (Suc j), w_exbase := skips L (Suc j),
      w_estop := length L + skips L (Suc (Suc j)), w_entry := Suc (length L + skips L (Suc j)),
      w_exstop := Suc (skips L (Suc j))\<rparr>"
    have ne: "snd (L ! Suc j) \<noteq> []" using group_okD(2) [OF rep_group_ok [OF rep group(2)]] .
    then have w: "walk_at L ?w (Suc j) 0" using at group by (simp add: walk_at_def)
    have "dwalk_next leaf walk = Some (True, ?w)"
      using at group(2) nend jt ne last_entry_limit [OF rep jt(1)] word_group(3) [OF rep group(2)]
        word_entry(3) [OF rep group(2), of 0] walk_at_check [OF rep w]
      by (simp add: dwalk_next_def walk_at_def skips_Suc add.assoc group(1) [symmetric] Let_def)
    moreover have "skips L (Suc j) < length (leaf_keys L)"
      using leaf_keys_bound [OF group(2), of 0] ne by simp
    ultimately show ?thesis using that walk_atI [OF w] jt(1) group(1) [symmetric] by (simp add: skips_Suc)
  next
    case leaf
    let ?w = "walk\<lparr>w_extent := Suc (skips L j + t)\<rparr>"
    have n: "length (leaf_keys L) = Suc (skips L j + t)"
      using skips_Suc [OF jt(1)] leaf by simp
    moreover have "length L - Suc 0 = j" using leaf(2) by simp
    ultimately have w: "walk_end L ?w" using at leaf(2) by (auto simp: walk_end_def walk_at_def)
    have "dwalk_next leaf walk = Some (False, ?w)"
      using at leaf(2) nend n by (simp add: dwalk_next_def walk_at_def)
    then show ?thesis using that walk_endI [OF w] n by simp
  qed
qed

lemma dwalk_next_pos:
  assumes "dl_rep bs leaf L" "walk_pos L walk i" "i < length (leaf_keys L)"
  obtains walk' where "dwalk_next leaf walk = Some (Suc i < length (leaf_keys L), walk')" "walk_pos L walk' (Suc i)"
  using assms(2)
proof (cases rule: walk_pos_cases)
  case (At j t)
  then show ?thesis using dwalk_next_at [OF assms(1) At(3)] that by blast
qed (use assms(3) in simp)

lemma dwalk_next_end: "walk_pos L walk (length (leaf_keys L)) \<Longrightarrow> dwalk_next leaf walk = Some (False, walk)"
  using walk_pos_end [of L walk "length (leaf_keys L)"] by (simp add: dwalk_next_def)

lemma group_nonempty:
  assumes "dl_rep bs leaf L" "j < length L"
  obtains m where "length (snd (L ! j)) = Suc m"
  using group_okD(2) [OF rep_group_ok [OF assms]] by (cases "length (snd (L ! j))") auto

lemma entry_exbase_at:
  assumes rep: "dl_rep bs leaf L" and at: "walk_at L walk j t"
  shows "entry_exbase leaf walk = skips L j + t"
proof -
  have jt: "j < length L" "t < length (snd (L ! j))" using at by (auto simp: walk_at_def)
  show ?thesis
  proof (cases t)
    case 0
    then show ?thesis using at jt word_group(3) [OF rep jt(1)]
      by (simp add: entry_exbase_def walk_at_def skips_Suc)
  next
    case (Suc u)
    then show ?thesis using at jt word_group(3) [OF rep jt(1)] word_entry(3) [OF rep jt(1), of u]
      by (simp add: entry_exbase_def walk_at_def skips_Suc)
  qed
qed

lemma dwalk_back_at:
  assumes rep: "dl_rep bs leaf L" and at: "walk_at L walk j t" and i: "0 < skips L j + t"
  obtains walk' where "dwalk_back leaf walk = Some (True, walk')" "walk_pos L walk' (skips L j + t - 1)"
proof -
  have jt: "j < length L" "t < length (snd (L ! j))" using at by (auto simp: walk_at_def)
  have nfirst: "\<not> dwalk_first walk" using at i by (simp add: dwalk_first_def walk_at_def)
  show ?thesis
  proof (cases t)
    case (Suc u)
    let ?w = "walk\<lparr>w_extent := skips L j + u, w_entry := Suc (length L + skips L j + u),
      w_exstop := Suc (skips L j + u)\<rparr>"
    have w: "walk_at L ?w j u" using at Suc by (simp add: walk_at_def)
    have "dwalk_back leaf walk = Some (True, ?w)"
      using at jt Suc nfirst walk_at_check [OF rep w] word_entry(3) [OF rep jt(1), of u]
      by (simp add: dwalk_back_def entry_exbase_at [OF rep at]) (simp add: walk_at_def)
    then show ?thesis using that walk_atI [OF w] Suc by simp
  next
    case 0
    then have "j \<noteq> 0" using i by (cases j) auto
    then obtain k where j: "j = Suc k" by (cases j) auto
    then have k: "k < length L" using jt by simp
    obtain m where m: "length (snd (L ! k)) = Suc m" by (rule group_nonempty [OF rep k])
    have sk: "skips L (Suc k) = Suc (skips L k + m)" using k m by (simp add: skips_Suc)
    let ?w = "walk\<lparr>w_extent := skips L k + m, w_group := Suc k, w_estop := Suc (length L + (skips L k + m)),
      w_exbase := skips L k, w_entry := Suc (length L + (skips L k + m)), w_exstop := Suc (skips L k + m)\<rparr>"
    have w: "walk_at L ?w k m" using at k m sk by (simp add: walk_at_def)
    have "entry_limit (word_at leaf (Suc (length L + (skips L k + m)))) = Suc m"
      using word_entry(3) [OF rep k, of m] m by (simp add: add.assoc)
    then have "dwalk_back leaf walk = Some (True, ?w)"
      using at 0 j nfirst walk_at_check [OF rep w] sk
      by (simp add: dwalk_back_def entry_exbase_at [OF rep at] Let_def) (simp add: walk_at_def)
    then show ?thesis using that walk_atI [OF w] 0 j sk by simp
  qed
qed

lemma entry_exbase_end:
  assumes rep: "dl_rep bs leaf L" and at: "walk_end L walk" and k: "length L = Suc k"
    and m: "length (snd (L ! k)) = Suc m"
  shows "entry_exbase leaf walk = skips L k + m" "length (leaf_keys L) = Suc (skips L k + m)"
proof -
  have kl: "k < length L" using k by simp
  then show n: "length (leaf_keys L) = Suc (skips L k + m)"
    using skips_Suc [OF kl] m k skips_all [of L] by simp
  show "entry_exbase leaf walk = skips L k + m"
  proof (cases m)
    case 0
    then show ?thesis using at k n m word_group(3) [OF rep kl]
      by (simp add: entry_exbase_def walk_end_def)
  next
    case (Suc u)
    have "entry_limit (word_at leaf (Suc (length L + (skips L k + u)))) = Suc u"
      using word_entry(3) [OF rep kl, of u] m Suc by (simp add: add.assoc)
    then show ?thesis using at k n m Suc word_group(3) [OF rep kl]
      by (simp add: entry_exbase_def walk_end_def)
  qed
qed

lemma dwalk_back_end:
  assumes rep: "dl_rep bs leaf L" and at: "walk_end L walk" and i: "0 < length (leaf_keys L)"
  obtains walk' where "dwalk_back leaf walk = Some (True, walk')" "walk_pos L walk' (length (leaf_keys L) - 1)"
proof -
  have "L \<noteq> []" using i by auto
  then obtain k where k: "length L = Suc k" by (cases L) auto
  then have kl: "k < length L" by simp
  obtain m where m: "length (snd (L ! k)) = Suc m" by (rule group_nonempty [OF rep kl])
  note n = entry_exbase_end [OF rep at k m]
  have nfirst: "\<not> dwalk_first walk" using at i by (simp add: dwalk_first_def walk_end_def)
  let ?w = "walk\<lparr>w_extent := skips L k + m\<rparr>"
  have sk: "skips L (Suc k) = Suc (skips L k + m)" using kl m by (simp add: skips_Suc)
  then have w: "walk_at L ?w k m" using at k m n kl by (simp add: walk_at_def walk_end_def)
  have "dwalk_back leaf walk = Some (True, ?w)"
    using at nfirst n walk_at_check [OF rep w]
    by (simp add: dwalk_back_def) (simp add: walk_end_def)
  then show ?thesis using that walk_atI [OF w] n by simp
qed

lemma dwalk_back_pos:
  assumes "dl_rep bs leaf L" "walk_pos L walk i" "0 < i"
  obtains walk' where "dwalk_back leaf walk = Some (True, walk')" "walk_pos L walk' (i - 1)"
  using assms(2)
proof (cases rule: walk_pos_cases)
  case (At j t)
  then have "0 < skips L j + t" using assms(3) by simp
  from dwalk_back_at [OF assms(1) At(3) this] show ?thesis using that At(1) by blast
next
  case End
  then have "0 < length (leaf_keys L)" using assms(3) by simp
  from dwalk_back_end [OF assms(1) End(2) this] show ?thesis using that End(1) by blast
qed

section \<open>Probing\<close>

text \<open>The first key behind extent \<open>p\<close>; extents that do not overlap, and none over a multiple of \<open>2 ^ 24\<close>.\<close>

definition extent_end :: "dleaf \<Rightarrow> grp list \<Rightarrow> nat \<Rightarrow> nat" where
  "extent_end leaf L p = leaf_keys L ! p + extent_count (dl_table leaf ! p)"

definition disjoint_extents :: "dleaf \<Rightarrow> grp list \<Rightarrow> bool" where
  "disjoint_extents leaf L \<longleftrightarrow>
     (\<forall>p. Suc p < length (leaf_keys L) \<longrightarrow> extent_end leaf L p \<le> leaf_keys L ! Suc p)"

definition extents_within :: "dleaf \<Rightarrow> grp list \<Rightarrow> bool" where
  "extents_within leaf L \<longleftrightarrow>
     (\<forall>p<length (leaf_keys L). leaf_keys L ! p mod 2 ^ 24 + extent_count (dl_table leaf ! p) \<le> 2 ^ 24)"

lemma extent_count_pos: "0 < extent_count x"
  by (simp add: extent_count_def)

lemma rep_keys_less:
  "dl_rep bs leaf L \<Longrightarrow> p < q \<Longrightarrow> q < length (leaf_keys L) \<Longrightarrow> leaf_keys L ! p < leaf_keys L ! q"
  using sorted_wrt_nth_less [OF dl_repD(3)] .

lemma disjoint_end_le:
  assumes rep: "dl_rep bs leaf L" and dis: "disjoint_extents leaf L" and "p < q" "q < length (leaf_keys L)"
  shows "extent_end leaf L p \<le> leaf_keys L ! q"
proof -
  have "extent_end leaf L p \<le> leaf_keys L ! Suc p" using dis assms by (simp add: disjoint_extents_def)
  also have "\<dots> \<le> leaf_keys L ! q"
  proof (cases "Suc p = q")
    case False
    then show ?thesis using rep_keys_less [OF rep, of "Suc p" q] assms by simp
  qed simp
  finally show ?thesis .
qed

lemma end_above: "key < leaf_keys L ! p \<Longrightarrow> key < extent_end leaf L p"
  by (simp add: extent_end_def)

text \<open>The walk where the search of the groups stops, at group \<open>k\<close>.\<close>

definition at_group :: "grp list \<Rightarrow> dwalk \<Rightarrow> nat \<Rightarrow> bool" where
  "at_group L walk k \<longleftrightarrow> k < length L \<and> w_group walk = Suc k \<and> w_gstop walk = length L
     \<and> w_entry walk = Suc (length L + skips L k) \<and> w_estop walk = length L + skips L (Suc k)
     \<and> w_exbase walk = skips L k"

definition before_group :: "grp list \<Rightarrow> dwalk \<Rightarrow> nat \<Rightarrow> bool" where
  "before_group L walk k \<longleftrightarrow> w_group walk = k \<and> w_gstop walk = length L
     \<and> w_estop walk = length L + skips L k \<and> w_exbase walk = skips L k"

lemma group_first:
  assumes "dl_rep bs leaf L" "k < length L"
  shows "0 < length (snd (L ! k))" "skips L k < length (leaf_keys L)"
    "leaf_keys L ! skips L k = fst (L ! k) * 2 ^ 24 + snd (L ! k) ! 0"
    "entry_keylo (word_at leaf (Suc (length L + skips L k))) = snd (L ! k) ! 0"
    "snd (L ! k) ! 0 < 2 ^ 24"
proof -
  show p: "0 < length (snd (L ! k))" by (rule group_nonempty [OF assms]) simp
  show "skips L k < length (leaf_keys L)" using leaf_keys_bound [OF assms(2) p] by simp
  show "leaf_keys L ! skips L k = fst (L ! k) * 2 ^ 24 + snd (L ! k) ! 0"
    using nth_leaf_keys [OF assms(2) p] by simp
  show "entry_keylo (word_at leaf (Suc (length L + skips L k))) = snd (L ! k) ! 0"
    using word_entry(2) [OF assms p] by simp
  show "snd (L ! k) ! 0 < 2 ^ 24" using group_okD(5) [OF rep_group_ok [OF assms] p] .
qed

lemma group_ends_below:
  assumes rep: "dl_rep bs leaf L" and within: "extents_within leaf L"
    and k: "k < length L" and hi: "fst (L ! k) < keyhi"
    and p: "skips L k \<le> p" "p < skips L (Suc k)"
  shows "extent_end leaf L p \<le> keyhi * 2 ^ 24"
proof -
  obtain t where t: "p = skips L k + t" "t < length (snd (L ! k))"
    using p k by (metis add_less_cancel_left le_iff_add skips_Suc)
  have "leaf_keys L ! p = fst (L ! k) * 2 ^ 24 + snd (L ! k) ! t"
    using nth_leaf_keys [OF k t(2)] t by simp
  moreover have "snd (L ! k) ! t < 2 ^ 24" by (rule group_okD(5) [OF rep_group_ok [OF rep k] t(2)])
  moreover have "leaf_keys L ! p mod 2 ^ 24 + extent_count (dl_table leaf ! p) \<le> 2 ^ 24"
    using within leaf_keys_bound [OF k t(2)] t by (simp add: extents_within_def)
  ultimately have "extent_end leaf L p \<le> Suc (fst (L ! k)) * 2 ^ 24"
    by (simp add: extent_end_def)
  also have "\<dots> \<le> keyhi * 2 ^ 24" using hi by (intro mult_right_mono) auto
  finally show ?thesis .
qed

lemma group_hi_mono:
  assumes rep: "dl_rep bs leaf L" and "Suc k < length L"
  shows "fst (L ! k) \<le> fst (L ! Suc k)"
proof -
  note a = group_first [OF rep, of k] and b = group_first [OF rep, of "Suc k"]
  have "skips L k < skips L (Suc k)" using assms a by (simp add: skips_Suc)
  then have "leaf_keys L ! skips L k < leaf_keys L ! skips L (Suc k)"
    by (rule rep_keys_less [OF rep]) (use assms b in simp)
  then show ?thesis using assms a b by simp
qed

definition below_key :: "dleaf \<Rightarrow> grp list \<Rightarrow> nat \<Rightarrow> nat \<Rightarrow> bool" where
  "below_key leaf L i key \<longleftrightarrow> (\<forall>p<i. extent_end leaf L p \<le> key)"

definition probe_result :: "dleaf \<Rightarrow> grp list \<Rightarrow> nat \<Rightarrow> probed \<times> dwalk \<Rightarrow> bool" where
  "probe_result leaf L key r \<longleftrightarrow> (case r of
       (Past, w) \<Rightarrow> before_group L w (length L) \<and> below_key leaf L (length (leaf_keys L)) key
     | (No_group, w) \<Rightarrow> (\<exists>k. at_group L w k \<and> below_key leaf L (skips L k) key \<and> key < leaf_keys L ! skips L k)
     | (Probe_entry, w) \<Rightarrow> (\<exists>k. at_group L w k \<and> below_key leaf L (skips L k) key
         \<and> fst (L ! k) = key div 2 ^ 24 \<and> snd (L ! k) ! 0 \<le> key mod 2 ^ 24
         \<and> (Suc k < length L \<longrightarrow> key < leaf_keys L ! skips L (Suc k))))"

lemma key_less_iff:
  fixes h l key :: nat
  assumes "l < 2 ^ 24"
  shows "key < h * 2 ^ 24 + l \<longleftrightarrow> key div 2 ^ 24 < h \<or> (key div 2 ^ 24 = h \<and> key mod 2 ^ 24 < l)"
proof -
  obtain q r where "q = key div 2 ^ 24" "r = key mod 2 ^ 24" by simp
  then have "key = q * 2 ^ 24 + r" "r < 2 ^ 24" by simp_all
  then show ?thesis unfolding \<open>q = _\<close> [symmetric] \<open>r = _\<close> [symmetric]
    using assms by (cases q h rule: linorder_cases) auto
qed

lemma first_key_less_iff:
  assumes "dl_rep bs leaf L" "k < length L"
  shows "key < leaf_keys L ! skips L k \<longleftrightarrow>
    key div 2 ^ 24 < fst (L ! k) \<or> (fst (L ! k) = key div 2 ^ 24 \<and> key mod 2 ^ 24 < snd (L ! k) ! 0)"
  using group_first [OF assms] key_less_iff [of "snd (L ! k) ! 0" key "fst (L ! k)"] by auto

lemma below_key_next_group:
  assumes rep: "dl_rep bs leaf L" and dis: "disjoint_extents leaf L" and within: "extents_within leaf L"
    and k: "k < length L" and below: "below_key leaf L (skips L k) key"
    and past: "fst (L ! k) < key div 2 ^ 24 \<or> (Suc k < length L \<and> leaf_keys L ! skips L (Suc k) \<le> key)"
  shows "below_key leaf L (skips L (Suc k)) key"
  unfolding below_key_def
proof (intro allI impI)
  fix p assume p: "p < skips L (Suc k)"
  show "extent_end leaf L p \<le> key"
  proof (cases "p < skips L k")
    case False
    show ?thesis using past
    proof
      assume "fst (L ! k) < key div 2 ^ 24"
      from group_ends_below [OF rep within k this _ p] False
      have "extent_end leaf L p \<le> key div 2 ^ 24 * 2 ^ 24" by simp
      also have "\<dots> \<le> key" by simp
      finally show ?thesis .
    next
      assume "Suc k < length L \<and> leaf_keys L ! skips L (Suc k) \<le> key"
      then show ?thesis
        using disjoint_end_le [OF rep dis p] group_first(2) [OF rep, of "Suc k"] by simp
    qed
  qed (use below in \<open>simp add: below_key_def\<close>)
qed

lemma probe_groups_correct:
  assumes rep: "dl_rep bs leaf L" and dis: "disjoint_extents leaf L" and within: "extents_within leaf L"
    and "before_group L walk k" "below_key leaf L (skips L k) key" "k + n = length L"
  shows "probe_result leaf L key (probe_groups leaf (key div 2 ^ 24) (key mod 2 ^ 24) n walk)"
  using assms(4-)
proof (induction n arbitrary: walk k)
  case 0
  then show ?case by (simp add: probe_result_def)
next
  case (Suc n)
  let ?hi = "key div 2 ^ 24" and ?lo = "key mod 2 ^ 24"
  have k: "k < length L" using Suc.prems by simp
  note g = word_group(2,3) [OF rep k] and f = group_first [OF rep k]
  let ?w = "walk\<lparr>w_group := Suc k, w_entry := Suc (length L + skips L k), w_estop := length L + skips L (Suc k)\<rparr>"
  let ?w' = "?w\<lparr>w_exbase := skips L (Suc k)\<rparr>"
  have at: "at_group L ?w k" "before_group L ?w' (Suc k)"
    using Suc.prems k by (simp_all add: at_group_def before_group_def)
  let ?more = "Suc k < length L \<and> leaf_keys L ! skips L (Suc k) \<le> key"
  have stop: "(w_group ?w = w_gstop ?w \<or> group_keyhi (word_at leaf (Suc (Suc k))) > ?hi
      \<or> entry_keylo (word_at leaf (Suc (length L + skips L (Suc k)))) > ?lo) \<longleftrightarrow> \<not> ?more"
    if hi: "fst (L ! k) = ?hi"
  proof (cases "Suc k < length L")
    case True
    then have "?hi \<le> fst (L ! Suc k)" using group_hi_mono [OF rep True] hi by simp
    then show ?thesis
      using True word_group(2) [OF rep True] group_first(4) [OF rep True]
        first_key_less_iff [OF rep True, of key] Suc.prems
      by (auto simp: before_group_def not_le)
  next
    case False
    then show ?thesis using Suc.prems k by (simp add: before_group_def)
  qed
  have step: "probe_groups leaf ?hi ?lo (Suc n) walk =
      (if fst (L ! k) > ?hi then (No_group, ?w)
       else if fst (L ! k) = ?hi \<and> snd (L ! k) ! 0 > ?lo then (No_group, ?w)
       else if fst (L ! k) = ?hi \<and> \<not> ?more then (Probe_entry, ?w)
       else probe_groups leaf ?hi ?lo n ?w')"
    using Suc.prems(1) stop g f(4) last_entry_limit [OF rep k] k
    by (cases "fst (L ! k) = ?hi") (auto simp: before_group_def Let_def skips_Suc add.assoc)
  have next_group: "probe_result leaf L key (probe_groups leaf ?hi ?lo n ?w')"
    if "fst (L ! k) < ?hi \<or> ?more"
    using Suc.IH [OF at(2)] below_key_next_group [OF rep dis within k Suc.prems(2) that] Suc.prems(3)
    by simp
  show ?case unfolding step
    using next_group at(1) Suc.prems(2) first_key_less_iff [OF rep k, of key]
    by (auto simp: probe_result_def not_less not_le)
qed

lemma probe_entries_correct:
  assumes rep: "dl_rep bs leaf L"
    and "walk_at L walk k t" "snd (L ! k) ! t \<le> lo" "t + n + 1 = length (snd (L ! k))"
  obtains u where "walk_at L (probe_entries leaf lo n walk) k u" "snd (L ! k) ! u \<le> lo"
    "Suc u < length (snd (L ! k)) \<Longrightarrow> lo < snd (L ! k) ! Suc u"
proof -
  have "\<exists>u. walk_at L (probe_entries leaf lo n walk) k u \<and> snd (L ! k) ! u \<le> lo
      \<and> (Suc u < length (snd (L ! k)) \<longrightarrow> lo < snd (L ! k) ! Suc u)"
    using assms(2-)
  proof (induction n arbitrary: walk t)
    case 0
    then show ?case by auto
  next
    case (Suc n)
    have k: "k < length L" and t: "Suc t < length (snd (L ! k))" and e: "w_entry walk = Suc (length L + skips L k + t)"
      using Suc.prems by (auto simp: walk_at_def)
    note w = word_entry(2,3) [OF rep k t]
    show ?case
    proof (cases "lo < snd (L ! k) ! Suc t")
      case True
      then show ?thesis using Suc.prems w e by auto
    next
      case False
      let ?w = "walk\<lparr>w_entry := Suc (Suc (length L + skips L k + t)), w_extent := Suc (skips L k + t),
        w_exstop := Suc (Suc (skips L k + t))\<rparr>"
      have "walk_at L ?w k (Suc t)" using Suc.prems t by (simp add: walk_at_def)
      from Suc.IH [OF this] False Suc.prems have
        "\<exists>u. walk_at L (probe_entries leaf lo n ?w) k u \<and> snd (L ! k) ! u \<le> lo
          \<and> (Suc u < length (snd (L ! k)) \<longrightarrow> lo < snd (L ! k) ! Suc u)" by simp
      moreover have "probe_entries leaf lo (Suc n) walk = probe_entries leaf lo n ?w"
        using Suc.prems(1) False w e by (simp add: walk_at_def)
      ultimately show ?thesis by simp
    qed
  qed
  then show thesis using that by blast
qed

text \<open>The position a probe is to find: the first extent that ends behind the key.\<close>

definition probe_at :: "dleaf \<Rightarrow> grp list \<Rightarrow> nat \<Rightarrow> nat \<Rightarrow> bool" where
  "probe_at leaf L key i \<longleftrightarrow> i \<le> length (leaf_keys L) \<and> below_key leaf L i key
     \<and> (i < length (leaf_keys L) \<longrightarrow> key < extent_end leaf L i)"

lemma at_group_walk:
  assumes "dl_rep bs leaf L" "at_group L walk k"
  shows "walk_at L (walk\<lparr>w_extent := skips L k, w_exstop := Suc (skips L k)\<rparr>) k 0"
    "entry_limit (word_at leaf (w_entry walk)) = 1"
  using assms group_first(1) [OF assms(1), of k] word_entry(3) [OF assms(1), of k 0]
  by (auto simp: walk_at_def at_group_def)

lemma before_group_end:
  assumes "dl_rep bs leaf L" "before_group L walk (length L)" "L \<noteq> []"
  shows "walk_end L (walk\<lparr>w_entry := w_estop walk, w_exstop := w_exbase walk, w_extent := w_exbase walk,
    w_exbase := w_exbase walk - entry_limit (word_at leaf (w_estop walk))\<rparr>)"
proof -
  have "length L - 1 < length L" "Suc (length L - 1) = length L" using assms(3) by simp_all
  then show ?thesis
    using assms(2) last_entry_limit [OF assms(1), of "length L - 1"] last_group(2) [OF assms(1,3)]
    by (simp add: walk_end_def before_group_def)
qed

lemma next_key_above:
  assumes rep: "dl_rep bs leaf L" and k: "k < length L" and u: "u < length (snd (L ! k))"
    and hi: "fst (L ! k) = key div 2 ^ 24"
    and gt: "Suc u < length (snd (L ! k)) \<Longrightarrow> key mod 2 ^ 24 < snd (L ! k) ! Suc u"
    and nxt: "Suc k < length L \<longrightarrow> key < leaf_keys L ! skips L (Suc k)"
    and i: "Suc (skips L k + u) < length (leaf_keys L)"
  shows "key < leaf_keys L ! Suc (skips L k + u)"
proof (cases "Suc u < length (snd (L ! k))")
  case True
  have "snd (L ! k) ! Suc u < 2 ^ 24" by (rule group_okD(5) [OF rep_group_ok [OF rep k] True])
  then show ?thesis using key_less_iff [of "snd (L ! k) ! Suc u" key "fst (L ! k)"] nth_leaf_keys [OF k True] gt [OF True] hi
    by simp
next
  case False
  then have "skips L (Suc k) = Suc (skips L k + u)" using u k by (simp add: skips_Suc)
  moreover have "Suc k < length L"
  proof (rule ccontr)
    assume "\<not> ?thesis"
    then have "Suc k = length L" using k by simp
    then show False using i skips_all [of L] calculation by simp
  qed
  ultimately show ?thesis using nxt by simp
qed

lemma probe_entry_rep:
  assumes rep: "dl_rep bs leaf L" and dis: "disjoint_extents leaf L"
    and k: "at_group L w k" "below_key leaf L (skips L k) key" "fst (L ! k) = key div 2 ^ 24"
      "snd (L ! k) ! 0 \<le> key mod 2 ^ 24" "Suc k < length L \<longrightarrow> key < leaf_keys L ! skips L (Suc k)"
  defines "v \<equiv> probe_entries leaf (key mod 2 ^ 24) (length (snd (L ! k)) - 1)
      (w\<lparr>w_extent := skips L k, w_exstop := Suc (skips L k)\<rparr>)"
  defines "r \<equiv> (if key < dwalk_index leaf v + dwalk_count leaf v then Some (True, v)
      else do { (_, walk) \<leftarrow> dwalk_next leaf v; Some (\<not> dwalk_end walk, walk) })"
  obtains i walk' where "r = Some (i < length (leaf_keys L), walk')" "walk_pos L walk' i" "probe_at leaf L key i"
proof -
  have kl: "k < length L" using k(1) by (simp add: at_group_def)
  let ?lo = "key mod 2 ^ 24"
  obtain u where u: "walk_at L v k u" "snd (L ! k) ! u \<le> ?lo"
    "Suc u < length (snd (L ! k)) \<Longrightarrow> ?lo < snd (L ! k) ! Suc u"
    unfolding v_def
    by (rule probe_entries_correct [OF rep at_group_walk(1) [OF rep k(1)] k(4), of "length (snd (L ! k)) - 1"])
      (use group_first(1) [OF rep kl] in simp_all)
  note at = u(1)
  have ul: "u < length (snd (L ! k))" using u(1) by (simp add: walk_at_def)
  have n: "skips L k + u < length (leaf_keys L)" by (rule leaf_keys_bound [OF kl ul])
  have end_u: "dwalk_index leaf v + dwalk_count leaf v = extent_end leaf L (skips L k + u)"
    using walk_index [OF rep walk_atI [OF at] n] at by (simp add: extent_end_def dwalk_count_def walk_at_def)
  have "leaf_keys L ! (skips L k + u) \<le> key div 2 ^ 24 * 2 ^ 24 + key mod 2 ^ 24"
    unfolding nth_leaf_keys [OF kl ul] k(3) using u(2) by (rule add_left_mono)
  also have "\<dots> = key" by (rule div_mult_mod_eq)
  finally have below: "below_key leaf L (skips L k + u) key"
    using disjoint_end_le [OF rep dis _ n] unfolding below_key_def by (meson order_trans)
  show ?thesis
  proof (cases "key < extent_end leaf L (skips L k + u)")
    case True
    then have "r = Some (skips L k + u < length (leaf_keys L), v)"
      using n by (simp add: r_def end_u)
    then show ?thesis by (rule that [OF _ walk_atI [OF at]]) (use True n below in \<open>simp add: probe_at_def\<close>)
  next
    case False
    obtain v' where v': "dwalk_next leaf v = Some (Suc (skips L k + u) < length (leaf_keys L), v')"
      "walk_pos L v' (Suc (skips L k + u))" by (rule dwalk_next_at [OF rep at])
    have above: "key < extent_end leaf L (Suc (skips L k + u))" if "Suc (skips L k + u) < length (leaf_keys L)"
      using end_above [OF next_key_above [OF rep kl ul k(3) u(3) k(5) that]] by simp
    have "r = Some (Suc (skips L k + u) < length (leaf_keys L), v')"
      using v' False n walk_pos_end [OF v'(2)] by (simp add: r_def end_u) linarith
    then show ?thesis
      by (rule that [OF _ v'(2)]) (use above below n False in \<open>auto simp: probe_at_def below_key_def less_Suc_eq\<close>)
  qed
qed

lemma dwalk_probe_rep:
  assumes rep: "dl_rep bs leaf L" and dis: "disjoint_extents leaf L" and within: "extents_within leaf L"
    and key: "key < 2 ^ 56"
  obtains i walk' where "dwalk_probe leaf key walk = Some (i < length (leaf_keys L), walk')"
    "walk_pos L walk' i" "probe_at leaf L key i"
proof (cases "L = []")
  case True
  let ?w = "walk\<lparr>w_group := 0, w_gstop := 0, w_estop := 0, w_exbase := 0, w_entry := 0, w_extent := 0, w_exstop := 0\<rparr>"
  have w: "walk_end L ?w" using True by (simp add: walk_end_def)
  have "dwalk_probe leaf key walk = Some (False, ?w)"
    using True dl_repD(4) [OF rep] walk_end_check [OF rep w] by (simp add: dwalk_probe_def dleaf_groups_def Let_def)
  then show ?thesis using that [of 0 ?w] walk_endI [OF w] True by (simp add: probe_at_def below_key_def)
next
  case False
  let ?hi = "key div 2 ^ 24" and ?lo = "key mod 2 ^ 24"
  let ?w0 = "walk\<lparr>w_group := 0, w_gstop := length L, w_estop := length L, w_exbase := 0\<rparr>"
  have hi: "wrap32 ?hi = ?hi" using key by (simp add: wrap32_def)
  have "before_group L ?w0 0" by (simp add: before_group_def)
  from probe_groups_correct [OF rep dis within this, of key "length L"]
  have res: "probe_result leaf L key (probe_groups leaf ?hi ?lo (length L) ?w0)" by (simp add: below_key_def)
  obtain r w where r: "probe_groups leaf ?hi ?lo (length L) ?w0 = (r, w)" by fastforce
  note eq = dwalk_probe_def [of leaf key walk, unfolded Let_def hi dleaf_groups_def dl_repD(4) [OF rep]]
  show ?thesis
  proof (cases r)
    case Past
    let ?w = "w\<lparr>w_entry := w_estop w, w_exstop := w_exbase w, w_extent := w_exbase w,
      w_exbase := w_exbase w - entry_limit (word_at leaf (w_estop w))\<rparr>"
    have w: "walk_end L ?w" and b: "below_key leaf L (length (leaf_keys L)) key"
      using res r Past before_group_end [OF rep _ False, of w] by (auto simp: probe_result_def)
    have "dwalk_probe leaf key walk = Some (False, ?w)"
      using eq False r Past walk_end_check [OF rep w] by simp
    then show ?thesis using that [of "length (leaf_keys L)" ?w] walk_endI [OF w] b by (simp add: probe_at_def)
  next
    case No_group
    then obtain k where k: "at_group L w k" "below_key leaf L (skips L k) key" "key < leaf_keys L ! skips L k"
      using res r by (auto simp: probe_result_def)
    let ?w = "w\<lparr>w_extent := skips L k, w_exstop := Suc (skips L k)\<rparr>"
    note w = at_group_walk [OF rep k(1)]
    have n: "skips L k < length (leaf_keys L)" using group_first(2) [OF rep] k(1) by (simp add: at_group_def)
    have "dwalk_probe leaf key walk = Some (True, ?w)"
      using eq False r No_group walk_at_check [OF rep w(1)] w(2) k(1) by (simp add: at_group_def)
    then show ?thesis using that [of "skips L k" ?w] walk_atI [OF w(1)] n k end_above [OF k(3)] by (simp add: probe_at_def)
  next
    case Probe_entry
    then obtain k where k: "at_group L w k" "below_key leaf L (skips L k) key" "fst (L ! k) = ?hi"
      "snd (L ! k) ! 0 \<le> ?lo" "Suc k < length L \<longrightarrow> key < leaf_keys L ! skips L (Suc k)"
      using res r by (auto simp: probe_result_def)
    let ?w = "w\<lparr>w_extent := skips L k, w_exstop := Suc (skips L k)\<rparr>"
    have "w_estop ?w - w_entry ?w = length (snd (L ! k)) - 1" using k(1) by (simp add: at_group_def skips_Suc)
    moreover define v where "v = probe_entries leaf ?lo (length (snd (L ! k)) - 1) ?w"
    ultimately have "dwalk_probe leaf key walk =
        (if key < dwalk_index leaf v + dwalk_count leaf v then Some (True, v)
         else do { (_, walk) \<leftarrow> dwalk_next leaf v; Some (\<not> dwalk_end walk, walk) })"
      using eq False r Probe_entry at_group_walk(2) [OF rep k(1)] k(1) by (simp add: at_group_def)
    moreover obtain i walk' where "(if key < dwalk_index leaf v + dwalk_count leaf v then Some (True, v)
         else do { (_, walk) \<leftarrow> dwalk_next leaf v; Some (\<not> dwalk_end walk, walk) })
        = Some (i < length (leaf_keys L), walk')" "walk_pos L walk' i" "probe_at leaf L key i"
      unfolding v_def by (rule probe_entry_rep [OF rep dis k])
    ultimately show ?thesis using that by simp
  qed
qed

end
