(* ===== verification/Tux_Dleaf_Ops.thy ===== *)
theory Tux_Dleaf_Ops
  imports Tux_Dwalk
begin

text \<open>
  What the operations of a file index leaf do to what it stores: the check of a leaf, cutting a
  leaf at a walk and copying the rest out, adding extents, merging, splitting, and truncation.
\<close>

section \<open>The check\<close>

lemma chunk_entry_words:
  assumes "k < length L" "n = length L + skips L k"
  shows "chunk n (length (snd (L ! k))) (group_words L @ entry_words L) = key_words (snd (L ! k))"
  using assms arg_cong [OF group_split [OF assms(1)], of entry_words]
  by (simp add: chunk_def skips_def)

lemma check_entries_map2:
  assumes "sorted_wrt (<) ks" "\<forall>k\<in>set ks. k < 2 ^ 24 \<and> lo < int k" "l + length ks < 256"
  shows "check_entries (map2 make_entry ks [Suc l..<Suc (l + length ks)]) l lo"
  using assms
proof (induction ks arbitrary: l lo)
  case (Cons k ks)
  have "[Suc l..<Suc (l + length (k # ks))] = Suc l # [Suc (Suc l)..<Suc (Suc l + length ks)]"
    by (simp add: upt_rec)
  then show ?case using Cons.prems Cons.IH [of "int k" "Suc l"] by (simp del: upt_Suc)
qed simp

lemma group_keys_sorted:
  assumes rep: "dl_rep bs leaf L" and k: "k < length L"
  shows "sorted_wrt (<) (snd (L ! k))"
proof -
  have "leaf_keys L = leaf_keys (take k L) @ map (\<lambda>l. fst (L ! k) * 2 ^ 24 + l) (snd (L ! k)) @ leaf_keys (drop (Suc k) L)"
    by (subst group_split [OF k]) (simp only: leaf_keys_simps)
  then show ?thesis using dl_repD(3) [OF rep] by (simp add: sorted_wrt_append sorted_wrt_map)
qed

lemma check_entries_group:
  assumes "dl_rep bs leaf L" "k < length L"
  shows "check_entries (key_words (snd (L ! k))) 0 (- 1)"
proof -
  note ok = rep_group_ok [OF assms]
  show ?thesis using check_entries_map2 [OF group_keys_sorted [OF assms], of "- 1" 0] group_okD(3) [OF ok] ok
    by (auto simp: key_words_def group_ok_def simp del: upt_Suc)
qed

lemma drop_group_words:
  "k < length L \<Longrightarrow> drop k (group_words L) = make_group (fst (L ! k)) (length (snd (L ! k))) # drop (Suc k) (group_words L)"
  by (simp add: Cons_nth_drop_Suc [symmetric] nth_group_words)

lemma check_groups_rep:
  assumes rep: "dl_rep bs leaf L" and "k \<le> length L" "k < length L \<Longrightarrow> hi \<le> fst (L ! k)"
  shows "check_groups leaf (drop k (group_words L)) hi (length L + skips L k) (skips L k) (skips L k)
    = Some (length (leaf_keys L), length (leaf_keys L))"
  using assms(2,3)
proof (induction "length L - k" arbitrary: k hi)
  case 0
  then have "k = length L" by simp
  then show ?case by simp
next
  case (Suc m)
  then have k: "k < length L" by simp
  note g = word_group(2,3) [OF rep k, unfolded word_group(1) [OF rep k]]
  note ok = rep_group_ok [OF rep k]
  have "check_groups leaf (drop (Suc k) (group_words L)) (fst (L ! k)) (length L + skips L (Suc k))
      (skips L (Suc k)) (skips L (Suc k)) = Some (length (leaf_keys L), length (leaf_keys L))"
    by (rule Suc.hyps(1)) (use Suc.hyps(2) k group_hi_mono [OF rep, of k] in auto)
  moreover have "\<forall>x\<in>set (chunk (skips L k) (length (snd (L ! k))) (dl_table leaf)). extent_block x \<noteq> 0"
    using dl_repD(7) [OF rep] by (auto simp: chunk_def dest: in_set_takeD in_set_dropD)
  ultimately show ?case
    using k Suc.prems(2) [OF k] g group_okD(2,4) [OF ok] chunk_entry_words [OF k refl] check_entries_group [OF rep k]
      last_entry_limit [OF rep k]
    by (simp add: drop_group_words dl_repD(5) [OF rep] MAX_GROUP_ENTRIES_def skips_Suc add.assoc)
qed

lemma free2_rep:
  assumes rep: "dl_rep bs leaf L" and "k \<le> length L"
  shows "free2_loop leaf (drop k (group_words L)) (length L + skips L k) (skips L k)
    = (length L + length (leaf_keys L), length (leaf_keys L))"
  using assms(2)
proof (induction "length L - k" arbitrary: k)
  case 0
  then have "k = length L" by simp
  then show ?case by simp
next
  case (Suc m)
  then have k: "k < length L" by simp
  note g = word_group(3) [OF rep k, unfolded word_group(1) [OF rep k]]
  have "free2_loop leaf (drop (Suc k) (group_words L)) (length L + skips L (Suc k)) (skips L (Suc k))
      = (length L + length (leaf_keys L), length (leaf_keys L))"
    by (rule Suc.hyps(1)) (use Suc.hyps(2) k in auto)
  then show ?case using k g last_entry_limit [OF rep k] by (simp add: drop_group_words skips_Suc Let_def add.assoc)
qed

lemma dleaf_free2_rep:
  assumes rep: "dl_rep bs leaf L"
  shows "dleaf_free2 leaf bs = int (dl_used leaf) - int (dl_free leaf)"
  using free2_rep [OF rep, of 0] dl_repD(8,9,10) [OF rep]
  by (simp add: dleaf_free2_def dleaf_groups_def dl_repD(4,5) [OF rep] of_nat_diff)

lemma dleaf_check_rep:
  assumes rep: "dl_rep bs leaf L"
  shows "dleaf_check leaf bs = Some True"
  using check_groups_rep [OF rep, of 0 0] dleaf_free2_rep [OF rep] dl_repD(8,9,10) [OF rep]
  by (simp add: dleaf_check_def dleaf_groups_def dl_repD(4,5) [OF rep] Let_def of_nat_diff)

lemma assert_check_rep [simp]: "dl_rep bs leaf L \<Longrightarrow> assert_check leaf bs = Some ()"
  by (simp add: assert_check_def dleaf_check_rep)

section \<open>The two sides of a cut\<close>

text \<open>The groups of the first \<open>skips L j + t\<close> entries, and of the others.\<close>

definition groups_upto :: "grp list \<Rightarrow> nat \<Rightarrow> nat \<Rightarrow> grp list" where
  "groups_upto L j t = take j L @ (if t = 0 then [] else [(fst (L ! j), take t (snd (L ! j)))])"

definition groups_from :: "grp list \<Rightarrow> nat \<Rightarrow> nat \<Rightarrow> grp list" where
  "groups_from L j t = (fst (L ! j), drop t (snd (L ! j))) # drop (Suc j) L"

lemma leaf_keys_upto:
  assumes "j < length L" "t \<le> length (snd (L ! j))"
  shows "leaf_keys (groups_upto L j t) = take (skips L j + t) (leaf_keys L)"
  using assms arg_cong [OF group_split [OF assms(1)], of "\<lambda>x. take (skips L j + t) (leaf_keys x)"]
  by (simp add: groups_upto_def skips_def take_map)

lemma leaf_keys_from:
  assumes "j < length L" "t \<le> length (snd (L ! j))"
  shows "leaf_keys (groups_from L j t) = drop (skips L j + t) (leaf_keys L)"
  using assms arg_cong [OF group_split [OF assms(1)], of "\<lambda>x. drop (skips L j + t) (leaf_keys x)"]
  by (simp add: groups_from_def skips_def drop_map)

lemma take_key_words: "take t (key_words ks) = key_words (take t ks)"
  by (cases "t \<le> length ks") (simp_all add: key_words_def take_zip take_map del: upt_Suc)

lemma entry_words_upto:
  assumes "j < length L" "t \<le> length (snd (L ! j))"
  shows "entry_words (groups_upto L j t) = take (skips L j + t) (entry_words L)"
  using assms arg_cong [OF group_split [OF assms(1)], of "\<lambda>x. take (skips L j + t) (entry_words x)"]
  by (simp add: groups_upto_def skips_def take_key_words) (simp add: key_words_def)

lemma group_words_upto:
  assumes "j < length L"
  shows "group_words (groups_upto L j t) =
    (if t = 0 then take j (group_words L) else (take (Suc j) (group_words L))[j := make_group (fst (L ! j)) (length (take t (snd (L ! j))))])"
  using assms by (simp add: groups_upto_def take_Suc_conv_app_nth list_update_append group_words_def take_map)

lemma group_words_from:
  assumes "j < length L"
  shows "group_words (groups_from L j t) =
    (drop j (group_words L))[0 := make_group (fst (L ! j)) (length (snd (L ! j)) - t)]"
  using assms by (simp add: groups_from_def drop_group_words) (simp add: group_words_def drop_map)

lemma shift_key_words:
  assumes "\<forall>k\<in>set ks. k < 2 ^ 24" "length ks < 256" "t \<le> length ks"
  shows "map (\<lambda>e. inc_entry_limit e (- int t)) (drop t (key_words ks)) = key_words (drop t ks)"
proof (rule nth_equalityI)
  fix u assume "u < length (map (\<lambda>e. inc_entry_limit e (- int t)) (drop t (key_words ks)))"
  then have u: "t + u < length ks" using assms by auto
  then have "ks ! (t + u) < 2 ^ 24" using assms(1) by simp
  then show "map (\<lambda>e. inc_entry_limit e (- int t)) (drop t (key_words ks)) ! u = key_words (drop t ks) ! u"
    using u assms by (simp add: inc_entry_limit_make nat_add_distrib)
qed simp

lemma entry_words_from:
  assumes "j < length L" "t \<le> length (snd (L ! j))" "group_ok (L ! j)"
  shows "entry_words (groups_from L j t) =
    map (\<lambda>e. inc_entry_limit e (- int t)) (take (length (snd (L ! j)) - t) (drop (skips L j + t) (entry_words L)))
      @ drop (length (snd (L ! j)) - t) (drop (skips L j + t) (entry_words L))"
proof -
  have "drop (skips L j + t) (entry_words L) = drop t (key_words (snd (L ! j))) @ entry_words (drop (Suc j) L)"
    using assms arg_cong [OF group_split [OF assms(1)], of "\<lambda>x. drop (skips L j + t) (entry_words x)"]
    by (simp add: skips_def)
  then show ?thesis using assms shift_key_words [of "snd (L ! j)" t] group_okD(3) [OF assms(3)]
    by (simp add: groups_from_def group_ok_def)
qed

lemma group_ok_take: "group_ok g \<Longrightarrow> 0 < t \<Longrightarrow> group_ok (fst g, take t (snd g))"
  by (auto simp: group_ok_def dest: in_set_takeD)

lemma group_ok_drop: "group_ok g \<Longrightarrow> t < length (snd g) \<Longrightarrow> group_ok (fst g, drop t (snd g))"
  by (auto simp: group_ok_def dest: in_set_dropD)

lemma groups_upto_ok:
  "\<forall>g\<in>set L. group_ok g \<Longrightarrow> j < length L \<Longrightarrow> g \<in> set (groups_upto L j t) \<Longrightarrow> group_ok g"
  using nth_mem [of j L] group_ok_take [of "L ! j" t]
  by (auto simp: groups_upto_def split: if_splits dest: in_set_takeD)

lemma groups_from_ok:
  "\<forall>g\<in>set L. group_ok g \<Longrightarrow> j < length L \<Longrightarrow> t < length (snd (L ! j)) \<Longrightarrow> g \<in> set (groups_from L j t) \<Longrightarrow> group_ok g"
  using nth_mem [of j L] group_ok_drop [of "L ! j" t]
  by (auto simp: groups_from_def dest: in_set_dropD)

lemma length_groups_upto: "j < length L \<Longrightarrow> length (groups_upto L j t) = j + (if t = 0 then 0 else 1)"
  by (simp add: groups_upto_def)

lemma length_groups_from: "j < length L \<Longrightarrow> length (groups_from L j t) = length L - j"
  by (simp add: groups_from_def)

lemma wrap16_id: "n < 2 ^ 16 \<Longrightarrow> wrap16 n = n"
  by (simp add: wrap16_def)

text \<open>Either side of a cut is a leaf again when its tables and its header are those of the side.\<close>

lemma dl_rep_upto:
  assumes rep: "dl_rep bs leaf L" and j: "j < length L" and t: "t \<le> length (snd (L ! j))"
    and "dl_magic leaf' = TUX3_MAGIC_DLEAF" "dl_groups leaf' = length (groups_upto L j t)"
    "dl_dict leaf' = group_words (groups_upto L j t) @ entry_words (groups_upto L j t)"
    "dl_table leaf' = take (skips L j + t) (dl_table leaf)"
    "dl_free leaf' = DLEAF_SIZE + 8 * (skips L j + t)"
    "dl_used leaf' = bs - 4 * (length (groups_upto L j t) + (skips L j + t))"
  shows "dl_rep bs leaf' (groups_upto L j t)"
proof -
  have n: "skips L j + t \<le> length (leaf_keys L)"
    using skips_mono [of "Suc j" "length L" L] j t by (simp add: skips_Suc)
  show ?thesis unfolding dl_rep_def
    using assms n dl_repD(6,10,11) [OF rep] groups_upto_ok [of L j _ t] dl_repD(2,3,7) [OF rep]
      length_groups_upto [OF j, of t] leaf_keys_upto [OF j t]
    by (auto simp: sorted_wrt_take min_def dest: in_set_takeD)
qed

lemma dl_rep_from:
  assumes rep: "dl_rep bs leaf L" and j: "j < length L" and t: "t < length (snd (L ! j))"
    and "dl_magic leaf' = TUX3_MAGIC_DLEAF" "dl_groups leaf' = length L - j"
    "dl_dict leaf' = group_words (groups_from L j t) @ entry_words (groups_from L j t)"
    "dl_table leaf' = drop (skips L j + t) (dl_table leaf)"
    "dl_free leaf' = DLEAF_SIZE + 8 * (length (leaf_keys L) - (skips L j + t))"
    "dl_used leaf' = bs - 4 * (length L - j + (length (leaf_keys L) - (skips L j + t)))"
  shows "dl_rep bs leaf' (groups_from L j t)"
proof -
  have n: "skips L j + t < length (leaf_keys L)" by (rule leaf_keys_bound [OF j t])
  show ?thesis unfolding dl_rep_def
    using assms n dl_repD(6,10,11) [OF rep] groups_from_ok [of L j t] dl_repD(2,3,7) [OF rep]
      length_groups_from [OF j, of t] leaf_keys_from [OF j less_imp_le [OF t]]
    by (auto simp: sorted_wrt_drop dest: in_set_dropD)
qed

section \<open>Cutting a leaf\<close>

lemma take_memmove:
  assumes "dst + n \<le> length xs" "src + n \<le> length xs"
  shows "take (dst + n) (memmove xs dst src n) = take dst xs @ chunk src n xs"
  using assms by (simp add: memmove_def blit_def length_chunk)

lemma chunk_entries:
  "chunk (length L) n (group_words L @ entry_words L) = take n (entry_words L)"
  by (simp add: chunk_def)

lemma rep_empty:
  assumes "dl_magic leaf = TUX3_MAGIC_DLEAF" "dl_groups leaf = 0" "dl_free leaf = DLEAF_SIZE" "dl_used leaf = bs"
    "dl_table leaf = []" "dl_dict leaf = []" "bs < 2 ^ 16" "DLEAF_SIZE \<le> bs"
  shows "dl_rep bs leaf []"
  using assms by (simp add: dl_rep_def)

lemma dleaf_init_rep: "bs < 2 ^ 16 \<Longrightarrow> DLEAF_SIZE \<le> bs \<Longrightarrow> dl_rep bs (dleaf_init bs) []"
  by (rule rep_empty) (simp_all add: dleaf_init_def wrap16_id)

lemma probe_empty:
  assumes "dl_rep bs leaf []"
  obtains walk' where "dwalk_probe leaf 0 walk = Some (False, walk')" "walk_end [] walk'"
proof -
  obtain i walk' where "dwalk_probe leaf 0 walk = Some (i < length (leaf_keys []), walk')" "walk_pos [] walk' i"
    by (rule dwalk_probe_rep [OF assms, of 0]) (simp_all add: disjoint_extents_def extents_within_def)
  then show thesis using that by (auto simp: walk_pos_def walk_at_def)
qed

text \<open>The walk of \<open>dwalk_chop\<close> after it has gone back to the last extent that stays.\<close>

lemma chop_dict:
  assumes rep: "dl_rep bs leaf L" and at: "walk_at L walk j t"
  defines "w \<equiv> set_group_count (word_at leaf (w_group walk))
      (int (w_entry walk) - int (w_estop walk - group_count (word_at leaf (w_group walk))))"
  shows "take (w_entry walk - (w_gstop walk - w_group walk))
      (memmove ((dl_dict leaf)[w_group walk - 1 := w]) (w_group walk) (w_gstop walk) (w_entry walk - w_gstop walk))
    = group_words (groups_upto L j (Suc t)) @ entry_words (groups_upto L j (Suc t))"
proof -
  have j: "j < length L" and t: "t < length (snd (L ! j))" using at by (auto simp: walk_at_def)
  have n: "int (w_entry walk) - int (w_estop walk - group_count (word_at leaf (w_group walk))) = int (Suc t)"
    using at word_group(3) [OF rep j] by (simp add: walk_at_def skips_Suc)
  have "word_at leaf (w_group walk) = make_group (fst (L ! j)) (length (snd (L ! j)))"
    using at word_group(1) [OF rep j] by (simp add: walk_at_def)
  then have w: "w = make_group (fst (L ! j)) (Suc t)"
    unfolding w_def n by (simp only: set_group_count_make [OF group_okD(1) [OF rep_group_ok [OF rep j]]])
  have n: "Suc (skips L j + t) \<le> length (leaf_keys L)" using leaf_keys_bound [OF j t] by simp
  let ?d = "(dl_dict leaf)[j := w]"
  have d: "?d = (group_words L)[j := w] @ entry_words L"
    using j by (simp add: dl_repD(5) [OF rep] list_update_append)
  have "take (Suc j + Suc (skips L j + t)) (memmove ?d (Suc j) (length L) (Suc (skips L j + t)))
      = take (Suc j) ?d @ chunk (length L) (Suc (skips L j + t)) ?d"
    by (rule take_memmove) (use j n d in simp_all)
  also have "chunk (length L) (Suc (skips L j + t)) ?d = entry_words (groups_upto L j (Suc t))"
    using t by (simp add: d chunk_def entry_words_upto [OF j])
  also have "take (Suc j) ?d = group_words (groups_upto L j (Suc t))"
    unfolding d using j t by (simp add: w group_words_upto take_update_swap min.absorb2 Suc_le_eq)
  finally show ?thesis using at by (simp add: walk_at_def add_ac)
qed

lemma dleaf_updates:
  "leaf\<lparr>dl_groups := g, dl_dict := d, dl_free := f, dl_used := u, dl_table := t\<rparr> =
    \<lparr>dl_magic = dl_magic leaf, dl_groups = g, dl_free = f, dl_used = u, dl_table = t, dl_dict = d\<rparr>"
  by (cases leaf) simp

lemma dwalk_chop_middle:
  assumes rep: "dl_rep bs leaf L" and "walk_pos L walk i" and i: "0 < i" "i < length (leaf_keys L)"
  obtains leaf' walk' L' where "dwalk_chop bs leaf walk = Some (leaf', walk')" "dl_rep bs leaf' L'"
    "leaf_keys L' = take i (leaf_keys L)" "dl_table leaf' = take i (dl_table leaf)" "walk_end L' walk'"
proof -
  obtain b where b: "dwalk_back leaf walk = Some (True, b)" "walk_pos L b (i - 1)"
    by (rule dwalk_back_pos [OF rep assms(2) i(1)])
  from b(2) i obtain j t where at: "walk_at L b j t" and it: "i = Suc (skips L j + t)"
    by (cases rule: walk_pos_cases) auto
  have j: "j < length L" and t: "t < length (snd (L ! j))" using at by (auto simp: walk_at_def)
  let ?U = "groups_upto L j (Suc t)"
  let ?leaf = "\<lparr>dl_magic = TUX3_MAGIC_DLEAF, dl_groups = Suc j, dl_free = DLEAF_SIZE + 8 * i,
    dl_used = bs - 4 * (Suc j + i), dl_table = take i (dl_table leaf), dl_dict = group_words ?U @ entry_words ?U\<rparr>"
  let ?w = "b\<lparr>w_estop := Suc j + i, w_entry := Suc j + i, w_gstop := Suc j, w_exstop := i, w_extent := i\<rparr>"
  have U: "dl_rep bs ?leaf ?U"
    by (rule dl_rep_upto [OF rep j]) (use j t it in \<open>simp_all add: length_groups_upto\<close>)
  have keys: "leaf_keys ?U = take i (leaf_keys L)" using leaf_keys_upto [OF j, of "Suc t"] t it by simp
  have "skips ?U j = skips L j" using j by (simp add: skips_def groups_upto_def)
  then have w: "walk_end ?U ?w"
    using at i it by (simp add: walk_end_def walk_at_def length_groups_upto [OF j] keys)
  have small: "j < 65535" "8 + 8 * i < 65536"
    using dl_repD(10,11) [OF rep] i j by (simp_all add: DLEAF_SIZE_def)
  have "length ?U = Suc j" "snd (?U ! j) = take (Suc t) (snd (L ! j))"
    using j by (simp_all add: length_groups_upto) (simp add: groups_upto_def nth_append)
  moreover from this have "skips ?U (Suc j) = i" using keys i skips_all [of ?U] by simp
  ultimately have limit: "entry_limit (word_at ?leaf (Suc j + i)) = Suc t"
    using last_entry_limit [OF U, of j] t by simp
  let ?limit = "entry_limit ((group_words ?U @ entry_words ?U) ! (j + i))"
  have w_b: "w_entry b - (w_gstop b - Suc j) = Suc (j + i)" "w_entry b - Suc (w_gstop b - Suc j) = j + i"
    "w_group b = Suc j" "w_exbase b = skips L j"
    using at it j by (simp_all add: walk_at_def)
  have lim: "skips L j + ?limit = i" "8 * skips L j + 8 * ?limit = 8 * i"
    using limit it by (simp_all add: word_at_def)
  have fits: "wrap16 (Suc j) = Suc j" "wrap16 (DLEAF_SIZE + 8 * i) = DLEAF_SIZE + 8 * i"
    "wrap16 (bs - 4 * Suc (j + i)) = bs - 4 * Suc (j + i)"
    using dl_repD(11) [OF rep] small by (simp_all add: wrap16_id DLEAF_SIZE_def)
  have "dwalk_chop bs leaf walk = Some (?leaf, ?w)"
    using walk_pos_end [OF assms(2)] walk_pos_first [OF assms(2)] i
    by (simp add: dwalk_chop_def b(1) Let_def set_dleaf_groups_def put_word_def word_at_def
        chop_dict [OF rep at, unfolded word_at_def One_nat_def] del: of_nat_diff,
      simp only: w_b lim fits dleaf_updates dl_repD(1) [OF rep])
      (simp add: walk_end_check [OF U w, simplified] assert_check_rep [OF U, simplified])
  then show ?thesis by (rule that) (use U keys w in simp_all)
qed

lemma dwalk_chop_rep:
  assumes rep: "dl_rep bs leaf L" and pos: "walk_pos L walk i"
  obtains leaf' walk' L' where "dwalk_chop bs leaf walk = Some (leaf', walk')" "dl_rep bs leaf' L'"
    "leaf_keys L' = take i (leaf_keys L)" "dl_table leaf' = take i (dl_table leaf)" "walk_end L' walk'"
proof -
  have n: "length (dl_table leaf) = length (leaf_keys L)" by (rule dl_repD(6) [OF rep])
  consider "i = length (leaf_keys L)" | "i = 0" "0 < length (leaf_keys L)" | "0 < i" "i < length (leaf_keys L)"
    using walk_pos_extent [OF pos] by linarith
  then show ?thesis
  proof cases
    case 1
    from pos have "walk_end L walk" by (cases rule: walk_pos_cases) (use 1 in auto)
    moreover have "dwalk_chop bs leaf walk = Some (leaf, walk)"
      using 1 walk_pos_end [OF pos] by (simp add: dwalk_chop_def)
    ultimately show ?thesis using that rep 1 n by simp
  next
    case 2
    let ?leaf = "leaf\<lparr>dl_groups := 0, dl_free := DLEAF_SIZE, dl_used := wrap16 bs, dl_table := [], dl_dict := []\<rparr>"
    have e: "dl_rep bs ?leaf []"
      by (rule rep_empty) (use dl_repD(1,10,11) [OF rep] in \<open>simp_all add: wrap16_id\<close>)
    obtain w where w: "dwalk_probe ?leaf 0 walk = Some (False, w)" "walk_end [] w" by (rule probe_empty [OF e])
    have "dwalk_chop bs leaf walk = Some (?leaf, w)"
      using 2 walk_pos_end [OF pos] walk_pos_first [OF pos] w(1) by (simp add: dwalk_chop_def)
    then show ?thesis using that e w(2) 2 by simp
  next
    case 3
    then show ?thesis using dwalk_chop_middle [OF rep pos] that by blast
  qed
qed

section \<open>Copying the rest of a leaf\<close>

lemma dwalk_copy_middle:
  assumes rep: "dl_rep bs leaf L" and at: "walk_at L walk j t" and i: "0 < skips L j + t"
    and dest: "dl_rep bs dest []"
  obtains dest' where "dwalk_copy bs leaf walk dest = Some dest'" "dl_rep bs dest' (groups_from L j t)"
    "dl_table dest' = drop (skips L j + t) (dl_table leaf)"
proof -
  have j: "j < length L" and t: "t < length (snd (L ! j))" using at by (auto simp: walk_at_def)
  note g = rep_group_ok [OF rep j]
  let ?F = "groups_from L j t" and ?i = "skips L j + t" and ?n = "length (leaf_keys L)"
  have n: "?i < ?n" by (rule leaf_keys_bound [OF j t])
  let ?dest = "\<lparr>dl_magic = TUX3_MAGIC_DLEAF, dl_groups = length L - j, dl_free = DLEAF_SIZE + 8 * (?n - ?i),
    dl_used = bs - 4 * (length L - j + (?n - ?i)), dl_table = drop ?i (dl_table leaf),
    dl_dict = group_words ?F @ entry_words ?F\<rparr>"
  have F: "dl_rep bs ?dest ?F" by (rule dl_rep_from [OF rep j t]) simp_all
  have w: "w_gstop walk + 1 - w_group walk = length L - j" "w_estop walk + 1 - w_entry walk = length (snd (L ! j)) - t"
    "w_group walk - 1 = j" "w_entry walk - 1 = length L + ?i" "w_exbase walk = skips L j"
    using at j by (simp_all add: walk_at_def skips_Suc)
  have len: "(bs - dl_used leaf) div 4 + 1 - w_entry walk = ?n - ?i" "(dl_free leaf - DLEAF_SIZE) div 8 - ?i = ?n - ?i"
    using at dl_repD(8,9,10) [OF rep] by (simp_all add: walk_at_def)
  have "set_group_count (drop j (group_words L) ! 0) (int (length (snd (L ! j)) - t))
      = make_group (fst (L ! j)) (length (snd (L ! j)) - t)"
    using j set_group_count_make [OF group_okD(1) [OF g]] by (simp only: drop_group_words [OF j] nth_Cons_0)
  moreover have "chunk j (length L - j) (dl_dict leaf) = drop j (group_words L)"
    using j by (simp add: dl_repD(5) [OF rep] chunk_def)
  ultimately have groups: "(chunk j (length L - j) (dl_dict leaf))[0 := set_group_count (chunk j (length L - j) (dl_dict leaf) ! 0)
      (int (length (snd (L ! j)) - t))] = group_words ?F"
    by (simp only: group_words_from [OF j])
  have ents: "chunk (length L + ?i) (?n - ?i) (dl_dict leaf) = drop ?i (entry_words L)"
    by (simp add: dl_repD(5) [OF rep] chunk_def)
  have table: "chunk ?i (?n - ?i) (dl_table leaf) = drop ?i (dl_table leaf)"
    by (simp add: chunk_def dl_repD(6) [OF rep])
  have fits: "wrap16 (length L - j) = length L - j" "wrap16 (DLEAF_SIZE + 8 * (?n - ?i)) = DLEAF_SIZE + 8 * (?n - ?i)"
    "wrap16 (bs - 4 * (length L - j + (?n - ?i))) = bs - 4 * (length L - j + (?n - ?i))"
    using dl_repD(10,11) [OF rep] by (simp_all add: wrap16_id)
  have nend: "\<not> dwalk_end walk" "\<not> dwalk_first walk" "skips L j + t - skips L j = t"
    using at i by (simp_all add: dwalk_end_def dwalk_first_def walk_at_def)
  have e: "entry_words ?F = map (\<lambda>e. inc_entry_limit e (- int t)) (take (length (snd (L ! j)) - t) (drop ?i (entry_words L)))
      @ drop (length (snd (L ! j)) - t) (drop ?i (entry_words L))"
    using entry_words_from [OF j less_imp_le [OF t] g] .
  have d: "dest\<lparr>dl_groups := a, dl_free := b, dl_used := c, dl_table := x, dl_dict := y\<rparr> =
      \<lparr>dl_magic = TUX3_MAGIC_DLEAF, dl_groups = a, dl_free = b, dl_used = c, dl_table = x, dl_dict = y\<rparr>" for a b c x y
    using dl_repD(1) [OF dest] by (cases dest) simp
  have "dwalk_copy bs leaf walk dest = Some ?dest"
    unfolding dwalk_copy_def Let_def dleaf_groups_def dl_repD(4) [OF dest] entry_exbase_at [OF rep at] w len groups ents
      table fits e [symmetric] nend d assert_check_rep [OF F]
    using assert_check_rep [OF F] nend by simp
  then show ?thesis by (rule that) (use F in simp_all)
qed

lemma dwalk_copy_rep:
  assumes rep: "dl_rep bs leaf L" and pos: "walk_pos L walk i" and dest: "dl_rep bs dest []"
  obtains dest' L' where "dwalk_copy bs leaf walk dest = Some dest'" "dl_rep bs dest' L'"
    "leaf_keys L' = drop i (leaf_keys L)" "dl_table dest' = drop i (dl_table leaf)"
  using pos
proof (cases rule: walk_pos_cases)
  case (At j t)
  show ?thesis
  proof (cases "i = 0")
    case True
    then have "dwalk_copy bs leaf walk dest = Some leaf"
      using walk_pos_end [OF pos] walk_pos_first [OF pos] At(2) dl_repD(4) [OF dest]
      by (simp add: dwalk_copy_def dleaf_groups_def)
    then show ?thesis using that rep True by simp
  next
    case False
    have jt: "j < length L" "t \<le> length (snd (L ! j))" using At(3) by (auto simp: walk_at_def)
    from False At(1) have "0 < skips L j + t" by simp
    from dwalk_copy_middle [OF rep At(3) this dest] show ?thesis
      using that leaf_keys_from [OF jt] At(1) by metis
  qed
next
  case End
  then have "dwalk_copy bs leaf walk dest = Some dest"
    using walk_pos_end [OF pos] dl_repD(4) [OF dest] by (simp add: dwalk_copy_def dleaf_groups_def)
  then show ?thesis using that dest End(1) dl_repD(6) [OF dest] dl_repD(6) [OF rep] by simp
qed

section \<open>Adding extents\<close>

text \<open>What \<open>dwalk_add\<close> reads of a walk; it does not keep \<open>gstop\<close>, \<open>estop\<close> and \<open>exstop\<close> up to date.\<close>

definition walk_add :: "grp list \<Rightarrow> dwalk \<Rightarrow> bool" where
  "walk_add L walk \<longleftrightarrow> w_group walk = length L \<and> w_entry walk = length L + length (leaf_keys L)
     \<and> w_exbase walk = skips L (length L - 1) \<and> w_extent walk = length (leaf_keys L)"

lemma walk_end_add: "walk_end L walk \<Longrightarrow> walk_add L walk"
  by (simp add: walk_end_def walk_add_def)

definition add_key :: "grp list \<Rightarrow> nat \<Rightarrow> nat \<Rightarrow> grp list" where
  "add_key L hi lo =
     (if L = [] \<or> fst (last L) \<noteq> hi \<or> length (snd (last L)) \<ge> MAX_GROUP_ENTRIES then L @ [(hi, [lo])]
      else butlast L @ [(hi, snd (last L) @ [lo])])"

lemma add_key_cases:
  obtains (new) "L = [] \<or> fst (last L) \<noteq> hi \<or> length (snd (last L)) \<ge> MAX_GROUP_ENTRIES"
      "add_key L hi lo = L @ [(hi, [lo])]"
    | (old) M ks where "L = M @ [(hi, ks)]" "length ks < MAX_GROUP_ENTRIES" "add_key L hi lo = M @ [(hi, ks @ [lo])]"
proof (cases "L = [] \<or> fst (last L) \<noteq> hi \<or> length (snd (last L)) \<ge> MAX_GROUP_ENTRIES")
  case False
  then have "L = butlast L @ [(hi, snd (last L))]" by (metis append_butlast_last_id prod.collapse)
  then show thesis using old [of "butlast L" "snd (last L)"] False by (simp add: add_key_def)
qed (use new in \<open>simp add: add_key_def\<close>)

lemma leaf_keys_add: "leaf_keys (add_key L hi lo) = leaf_keys L @ [hi * 2 ^ 24 + lo]"
  by (cases rule: add_key_cases [of L hi lo]) simp_all

lemma add_key_ok:
  "\<forall>g\<in>set L. group_ok g \<Longrightarrow> hi < 2 ^ 24 \<Longrightarrow> lo < 2 ^ 24 \<Longrightarrow> g \<in> set (add_key L hi lo) \<Longrightarrow> group_ok g"
  by (cases rule: add_key_cases [of L hi lo]) (auto simp: group_ok_def MAX_GROUP_ENTRIES_def)

text \<open>The words after the entry is stored and the counts of its group and of itself have gone up.\<close>

definition add_words :: "u32 list \<Rightarrow> nat \<Rightarrow> u32 \<Rightarrow> u32 list" where
  "add_words dict g e =
     (let dict = dict @ [e];
          dict = dict[g := inc_group_count (dict ! g) 1];
          p = length dict - 1
      in dict[p := inc_entry_limit (dict ! p) 1])"

lemma add_words_eq:
  assumes "h < 2 ^ 24" "lo < 2 ^ 24" "c < 255" "g = length A"
  shows "add_words (A @ make_group h c # B) g (make_entry lo c) = A @ make_group h (Suc c) # B @ [make_entry lo (Suc c)]"
  using assms
  by (simp add: add_words_def inc_group_count_make inc_entry_limit_make nth_append list_update_append nat_add_distrib)

lemma key_words_snoc: "key_words (ks @ [lo]) = key_words ks @ [make_entry lo (Suc (length ks))]"
proof -
  have "[1..<Suc (length (ks @ [lo]))] = [1..<Suc (length ks)] @ [Suc (length ks)]" by simp
  then show ?thesis by (simp add: key_words_def del: upt_Suc)
qed

lemma group_dict_new:
  assumes "hi < 2 ^ 24" "lo < 2 ^ 24"
  shows "add_words (group_words L @ make_group hi 0 # entry_words L) (length L) (make_entry lo 0)
    = group_words (L @ [(hi, [lo])]) @ entry_words (L @ [(hi, [lo])])"
  using assms add_words_eq [of hi lo 0 "length L" "group_words L" "entry_words L"] key_words_snoc [of "[]" lo]
  by (simp add: key_words_def)

lemma group_dict_old:
  assumes "hi < 2 ^ 24" "lo < 2 ^ 24" "length ks < 255" "L = M @ [(hi, ks)]"
  shows "add_words (group_words L @ entry_words L) (length M) (make_entry lo (length ks))
    = group_words (M @ [(hi, ks @ [lo])]) @ entry_words (M @ [(hi, ks @ [lo])])"
  using assms add_words_eq [of hi lo "length ks" "length M" "group_words M" "entry_words L"]
  by (simp add: key_words_snoc)

lemma add_entry_extent:
  assumes "w_entry walk = length (dl_dict leaf)" "0 < w_group walk" "w_group walk \<le> w_entry walk"
    "w_extent walk = length (dl_table leaf)" "u < 2 ^ 16" "free < 2 ^ 16"
  obtains leaf' walk' where "add_entry leaf walk u lo = (leaf', walk')"
    "add_extent leaf' walk' free x =
      (\<lparr>dl_magic = dl_magic leaf, dl_groups = dl_groups leaf, dl_free = free, dl_used = u, dl_table = dl_table leaf @ [x],
         dl_dict = add_words (dl_dict leaf) (w_group walk - 1) (make_entry lo (w_extent walk - w_exbase walk))\<rparr>,
       walk\<lparr>w_entry := w_entry walk + 1, w_extent := w_extent walk + 1\<rparr>)"
proof -
  obtain leaf' walk' where e: "add_entry leaf walk u lo = (leaf', walk')" by fastforce
  show thesis
  proof (rule that [OF e])
    have "dl_table leaf' = dl_table leaf" "dl_magic leaf' = dl_magic leaf" "dl_groups leaf' = dl_groups leaf"
      "dl_used leaf' = u" "walk' = walk\<lparr>w_entry := w_entry walk + 1\<rparr>"
      "dl_dict leaf' = (let d = dl_dict leaf @ [make_entry lo (w_extent walk - w_exbase walk)]
         in d[w_group walk - 1 := inc_group_count (d ! (w_group walk - 1)) 1])"
      using assms e by (auto simp: add_entry_def put_word_def word_at_def Let_def wrap16_id)
    then show "add_extent leaf' walk' free x =
      (\<lparr>dl_magic = dl_magic leaf, dl_groups = dl_groups leaf, dl_free = free, dl_used = u, dl_table = dl_table leaf @ [x],
         dl_dict = add_words (dl_dict leaf) (w_group walk - 1) (make_entry lo (w_extent walk - w_exbase walk))\<rparr>,
       walk\<lparr>w_entry := w_entry walk + 1, w_extent := w_extent walk + 1\<rparr>)"
      using assms by (cases leaf') (simp add: add_extent_def put_word_def word_at_def add_words_def Let_def wrap16_id)
  qed
qed

lemma walk_add_last:
  assumes rep: "dl_rep bs leaf L" and add: "walk_add L walk" and L: "L \<noteq> []"
  shows "dwalk_index leaf walk = leaf_keys L ! (length (leaf_keys L) - 1)" "0 < length (leaf_keys L)"
    "entry_limit (word_at leaf (length L + length (leaf_keys L))) = length (snd (last L))"
    "word_at leaf (w_group walk) = make_group (fst (last L)) (length (snd (last L)))"
proof -
  obtain k where k: "length L = Suc k" using L by (cases L) auto
  then have kl: "k < length L" and last: "last L = L ! k" using L by (simp_all add: last_conv_nth)
  obtain m where m: "length (snd (L ! k)) = Suc m" by (rule group_nonempty [OF rep kl])
  have n: "length (leaf_keys L) = Suc (skips L k + m)" using skips_Suc [OF kl] m k skips_all [of L] by simp
  then show "0 < length (leaf_keys L)" by simp
  show "word_at leaf (w_group walk) = make_group (fst (last L)) (length (snd (last L)))"
    using word_group(1) [OF rep kl] add k last by (simp add: walk_add_def)
  show "entry_limit (word_at leaf (length L + length (leaf_keys L))) = length (snd (last L))"
    using last_entry_limit [OF rep kl] k last skips_all [of L] by simp
  have "walk_at L (walk\<lparr>w_gstop := length L, w_estop := length L + length (leaf_keys L), w_exbase := skips L k,
      w_extent := skips L k + m, w_exstop := Suc (skips L k + m)\<rparr>) k m"
    using add k m n kl skips_all [of L] by (simp add: walk_at_def walk_add_def)
  from walk_index [OF rep walk_atI [OF this]] show "dwalk_index leaf walk = leaf_keys L ! (length (leaf_keys L) - 1)"
    using n by (simp add: dwalk_index_def)
qed

lemma shift_words: "n = length A \<Longrightarrow> blit (A @ B @ [x]) (Suc n) B = A @ hd (B @ [x]) # B"
  by (cases B) (simp_all add: blit_def)

lemma add_group_rep:
  assumes rep: "dl_rep bs leaf L" and add: "walk_add L walk"
  shows "add_group leaf walk hi =
    (leaf\<lparr>dl_dict := group_words L @ make_group hi 0 # entry_words L, dl_groups := wrap16 (length L + 1)\<rparr>,
     walk\<lparr>w_entry := Suc (length L + length (leaf_keys L)), w_exbase := length (leaf_keys L), w_group := Suc (length L)\<rparr>)"
proof -
  let ?d = "blit (dl_dict leaf @ [0]) (w_group walk + 1) (chunk (w_group walk) (w_entry walk - w_group walk) (dl_dict leaf))"
  have c: "chunk (w_group walk) (w_entry walk - w_group walk) (dl_dict leaf) = entry_words L"
    using add by (simp add: walk_add_def dl_repD(5) [OF rep] chunk_def)
  define z where "z = hd (entry_words L @ [0])"
  have d: "?d = group_words L @ z # entry_words L"
    unfolding c z_def using add shift_words [of "length L" "group_words L" "entry_words L" 0]
    by (simp add: dl_repD(5) [OF rep] walk_add_def)
  have exbase: "skips L (length L - 1) + (if L = [] then 0
      else entry_limit ((group_words L @ z # entry_words L) ! (length L + length (leaf_keys L)))) = length (leaf_keys L)"
  proof (cases "L = []")
    case False
    note l = walk_add_last [OF rep add False]
    have "(group_words L @ z # entry_words L) ! (length L + length (leaf_keys L))
        = word_at leaf (length L + length (leaf_keys L))"
      using l(2) by (cases "leaf_keys L") (simp_all add: word_at_def dl_repD(5) [OF rep] nth_append)
    then show ?thesis using False l(3) last_group(2) [OF rep False] last_conv_nth [OF False] by simp
  qed simp
  show ?thesis
    unfolding add_group_def Let_def dleaf_groups_def dl_repD(4) [OF rep]
    using add exbase unfolding d
    by (cases "L = []") (simp_all add: set_dleaf_groups_def walk_add_def list_update_append)
qed

text \<open>A leaf that has got one more key is a leaf again.\<close>

lemma dl_rep_add:
  assumes rep: "dl_rep bs leaf L" and below: "\<forall>k\<in>set (leaf_keys L). k < index" and index: "index < 2 ^ 48"
    and x: "extent_block x \<noteq> 0" and room: "dl_free leaf + 16 \<le> dl_used leaf"
    and L': "L' = add_key L (index div 2 ^ 24) (index mod 2 ^ 24)"
    and "dl_magic leaf' = TUX3_MAGIC_DLEAF" "dl_groups leaf' = length L'"
    "dl_dict leaf' = group_words L' @ entry_words L'" "dl_table leaf' = dl_table leaf @ [x]"
    "dl_free leaf' = dl_free leaf + 8" "dl_used leaf' = dl_used leaf - 4 * (1 + length L' - length L)"
  shows "dl_rep bs leaf' L'" "leaf_keys L' = leaf_keys L @ [index]"
proof -
  show keys: "leaf_keys L' = leaf_keys L @ [index]" by (simp add: L' leaf_keys_add)
  have len: "length L' = length L \<or> length L' = Suc (length L)"
    unfolding L' by (cases rule: add_key_cases [of L "index div 2 ^ 24" "index mod 2 ^ 24"]) auto
  have ok: "group_ok g" if "g \<in> set L'" for g
    using add_key_ok [of L "index div 2 ^ 24" "index mod 2 ^ 24" g] that index dl_repD(2) [OF rep]
    by (simp add: L' div_less_iff_less_mult)
  show "dl_rep bs leaf' L'"
    unfolding dl_rep_def using assms(7-) ok keys below x room len dl_repD(3,6,7,8,9,10,11) [OF rep]
    by (auto simp: sorted_wrt_append DLEAF_SIZE_def)
qed

lemma walk_add_key:
  assumes "w_group walk = length L'" "w_entry walk = length L' + length (leaf_keys L')"
    "w_extent walk = length (leaf_keys L')" "w_exbase walk = length (leaf_keys L') - length (snd (last L'))" "L' \<noteq> []"
  shows "walk_add L' walk"
proof -
  obtain M g where "L' = M @ [g]" using assms(5) by (cases L' rule: rev_cases) auto
  then show ?thesis using assms by (simp add: walk_add_def skips_def)
qed

lemma dwalk_add_rep:
  assumes rep: "dl_rep bs leaf L" and add: "walk_add L walk"
    and below: "\<forall>k\<in>set (leaf_keys L). k < index" and index: "index < 2 ^ 48"
    and x: "extent_block x \<noteq> 0" and room: "dl_free leaf + 16 \<le> dl_used leaf"
  obtains leaf' walk' L' where "dwalk_add bs leaf walk index x = Some (leaf', walk')" "dl_rep bs leaf' L'"
    "leaf_keys L' = leaf_keys L @ [index]" "dl_table leaf' = dl_table leaf @ [x]" "walk_add L' walk'"
    "dl_used leaf' - dl_free leaf' + 16 \<ge> dl_used leaf - dl_free leaf"
proof -
  let ?hi = "index div 2 ^ 24" and ?lo = "index mod 2 ^ 24" and ?n = "length (leaf_keys L)"
  let ?L' = "add_key L ?hi ?lo"
  have hi: "?hi < 2 ^ 24" "wrap32 ?hi = ?hi" and lo: "?lo < 2 ^ 24"
    using index by (simp_all add: div_less_iff_less_mult wrap32_def)
  have a1: "L = [] \<or> dwalk_index leaf walk \<noteq> index"
    using walk_add_last(1,2) [OF rep add] below nth_mem by fastforce
  have used: "dl_used leaf < 2 ^ 16" using dl_repD(9,11) [OF rep] by simp
  have n: "length (dl_table leaf) = ?n" by (rule dl_repD(6) [OF rep])
  let ?new = "L = [] \<or> fst (last L) \<noteq> ?hi \<or> length (snd (last L)) \<ge> MAX_GROUP_ENTRIES"
  have a2: "(length L = 0 \<or> group_keyhi (word_at leaf (w_group walk)) \<noteq> ?hi
      \<or> group_count (word_at leaf (w_group walk)) \<ge> MAX_GROUP_ENTRIES) = ?new"
    using walk_add_last(4) [OF rep add] group_okD(1,3) [OF dl_repD(2) [OF rep, of "last L"]]
    by (cases "L = []") simp_all
  have f: "dl_free leaf \<le> sub64 (dl_used leaf) 4" "dl_free leaf \<le> sub64 (dl_used leaf - 4) 4"
    "sub32 (dl_used leaf) 4 = dl_used leaf - 4" "sub32 (dl_used leaf - 4) 4 = dl_used leaf - 8"
    using room used by (simp_all add: wrap_simps)
  let ?leaf = "\<lambda>u. \<lparr>dl_magic = TUX3_MAGIC_DLEAF, dl_groups = length ?L', dl_free = dl_free leaf + 8,
    dl_used = dl_used leaf - u, dl_table = dl_table leaf @ [x], dl_dict = group_words ?L' @ entry_words ?L'\<rparr>"
  show ?thesis
  proof (cases rule: add_key_cases [of L ?hi ?lo])
    case new
    let ?leaf1 = "leaf\<lparr>dl_dict := group_words L @ make_group ?hi 0 # entry_words L, dl_groups := wrap16 (length L + 1)\<rparr>"
    let ?walk1 = "walk\<lparr>w_entry := Suc (length L + ?n), w_exbase := ?n, w_group := Suc (length L)\<rparr>"
    let ?walk2 = "?walk1\<lparr>w_entry := w_entry ?walk1 + 1, w_extent := w_extent ?walk1 + 1\<rparr>"
    have w: "w_extent ?walk1 = ?n" "w_exbase ?walk1 = ?n" "w_extent ?walk1 - w_exbase ?walk1 = 0"
      using add by (simp_all add: walk_add_def)
    have small: "length L + 1 < 2 ^ 16" "dl_used leaf - 8 < 2 ^ 16" "dl_free leaf + 8 < 2 ^ 16"
      using room used dl_repD(10,11) [OF rep] by simp_all
    obtain l1 w1 where s: "add_entry ?leaf1 ?walk1 (dl_used leaf - 8) ?lo = (l1, w1)"
      "add_extent l1 w1 (dl_free leaf + 8) x = (?leaf 8, ?walk2)"
      by (rule add_entry_extent [of ?walk1 ?leaf1 "dl_used leaf - 8" "dl_free leaf + 8" ?lo x])
        (use w n small group_dict_new [OF hi(1) lo, of L] new(2) dl_repD(1) [OF rep] in \<open>simp_all add: wrap16_id\<close>)
    have rep': "dl_rep bs (?leaf 8) ?L'"
      by (rule dl_rep_add(1) [OF rep below index x room refl]) (use new(2) in simp_all)
    have "dwalk_add bs leaf walk index x = Some (?leaf 8, ?walk2)"
      unfolding dwalk_add_def dleaf_groups_def dl_repD(4) [OF rep] Let_def hi(2) a2 add_group_rep [OF rep add]
      using new(1) a1 x extent_count_pos [of x] room f s assert_check_rep [OF rep'] by simp
    moreover have "walk_add ?L' ?walk2"
      by (rule walk_add_key) (use w new(2) in simp_all)
    ultimately show ?thesis using that rep' leaf_keys_add [of L ?hi ?lo] room by simp
  next
    case (old M ks)
    let ?walk2 = "walk\<lparr>w_entry := w_entry walk + 1, w_extent := w_extent walk + 1\<rparr>"
    have w: "w_extent walk = ?n" "w_exbase walk = ?n - length ks" "w_extent walk - w_exbase walk = length ks"
      "w_entry walk = length L + ?n" "w_group walk = length L"
      using add old(1) by (simp_all add: walk_add_def skips_def)
    have small: "dl_used leaf - 4 < 2 ^ 16" "dl_free leaf + 8 < 2 ^ 16" using room used by simp_all
    obtain l1 w1 where s: "add_entry leaf walk (dl_used leaf - 4) ?lo = (l1, w1)"
      "add_extent l1 w1 (dl_free leaf + 8) x = (?leaf 4, ?walk2)"
      by (rule add_entry_extent [of walk leaf "dl_used leaf - 4" "dl_free leaf + 8" ?lo x])
        (use w n small old group_dict_old [OF hi(1) lo _ old(1)] dl_repD(1,4,5) [OF rep] in \<open>simp_all add: MAX_GROUP_ENTRIES_def\<close>)
    have rep': "dl_rep bs (?leaf 4) ?L'"
      by (rule dl_rep_add(1) [OF rep below index x room refl]) (use old in simp_all)
    have "\<not> ?new" using old(1,2) by simp
    then have "dwalk_add bs leaf walk index x = Some (?leaf 4, ?walk2)"
      unfolding dwalk_add_def dleaf_groups_def dl_repD(4) [OF rep] Let_def hi(2) a2
      using a1 x extent_count_pos [of x] room f s assert_check_rep [OF rep'] by simp
    moreover have "walk_add ?L' ?walk2"
      by (rule walk_add_key) (use w old in simp_all)
    ultimately show ?thesis using that rep' leaf_keys_add [of L ?hi ?lo] room by simp
  qed
qed

end
