(* ===== verification/Tux_Dmerge.thy ===== *)
theory Tux_Dmerge
  imports Tux_Dleaf_Ops
begin

text \<open>
  Merging and splitting file index leaves, and their truncation: \<open>dleaf_merge\<close>,
  \<open>dleaf_split_at\<close>, \<open>dleaf_split\<close> and \<open>dleaf_chop\<close> of \<open>kernel/dleaf.c\<close>.
\<close>

section \<open>Merging\<close>

definition merge_groups :: "grp list \<Rightarrow> grp \<Rightarrow> grp \<Rightarrow> grp list \<Rightarrow> grp list" where
  "merge_groups M g g2 N =
     (if fst g = fst g2 \<and> length (snd g) < MAX_GROUP_ENTRIES then
        let m = min (MAX_GROUP_ENTRIES - length (snd g)) (length (snd g2))
        in M @ [(fst g, snd g @ take m (snd g2))]
           @ (if m < length (snd g2) then [(fst g2, drop m (snd g2))] else []) @ N
      else M @ [g, g2] @ N)"

lemma leaf_keys_merge: "leaf_keys (merge_groups M g g2 N) = leaf_keys (M @ [g]) @ leaf_keys (g2 # N)"
proof -
  have "map ((+) (x :: nat)) (take m ks) @ map ((+) x) (drop m ks) = map ((+) x) ks" for x m ks
    by (simp add: map_append [symmetric] del: map_append)
  then show ?thesis by (auto simp: merge_groups_def Let_def)
qed

lemma merge_groups_ok:
  assumes "\<forall>g\<in>set (M @ g # g2 # N). group_ok g" "x \<in> set (merge_groups M g g2 N)"
  shows "group_ok x"
proof -
  have ok: "group_ok g" "group_ok g2" and rest: "\<forall>x\<in>set M \<union> set N. group_ok x" using assms(1) by auto
  let ?m = "min (MAX_GROUP_ENTRIES - length (snd g)) (length (snd g2))"
  have app: "group_ok (fst g, snd g @ take ?m (snd g2))"
    using ok by (auto simp: group_ok_def dest: in_set_takeD)
  show ?thesis
  proof (cases "fst g = fst g2 \<and> length (snd g) < MAX_GROUP_ENTRIES")
    case True
    have "x \<in> set M \<union> set N \<or> x = (fst g, snd g @ take ?m (snd g2))
        \<or> (?m < length (snd g2) \<and> x = (fst g2, drop ?m (snd g2)))"
      using assms(2) unfolding merge_groups_def Let_def if_P [OF True] by (auto simp del: min_less_iff_conj split: if_splits)
    then show ?thesis using rest app group_ok_drop [OF ok(2), of ?m] by blast
  next
    case False
    then show ?thesis using assms(2) ok rest unfolding merge_groups_def if_not_P [OF False] by auto
  qed
qed

lemma key_words_append:
  assumes "\<forall>k\<in>set ks2. k < 2 ^ 24" "length ks + length ks2 < 256"
  shows "key_words (ks @ ks2) = key_words ks @ map (\<lambda>e. inc_entry_limit e (int (length ks))) (key_words ks2)"
proof (rule nth_equalityI)
  fix u assume u: "u < length (key_words (ks @ ks2))"
  have "ks2 ! (u - length ks) < 2 ^ 24" if "\<not> u < length ks" using assms(1) u that by simp
  then show "key_words (ks @ ks2) ! u = (key_words ks @ map (\<lambda>e. inc_entry_limit e (int (length ks))) (key_words ks2)) ! u"
    using u assms by (auto simp: nth_append inc_entry_limit_make nat_add_distrib)
qed simp

lemma merge_group_bounds:
  assumes "group_ok (h, ks)" "group_ok (h2, ks2)"
  shows "h < 2 ^ 24" "h2 < 2 ^ 24" "ks \<noteq> []" "ks2 \<noteq> []" "length ks < 256" "length ks2 < 256"
    "\<forall>k\<in>set ks. k < 2 ^ 24" "\<forall>k\<in>set ks2. k < 2 ^ 24"
  using assms by (auto simp: group_ok_def MAX_GROUP_ENTRIES_def)

lemma merge_dict_ends:
  assumes "group_ok (h, ks)"
  shows "(group_words (M @ [(h, ks)]) @ entry_words (M @ [(h, ks)])) ! (length (M @ [(h, ks)]) - 1) = make_group h (length ks)"
    "(group_words ((h2, ks2) # N) @ entry_words ((h2, ks2) # N)) ! 0 = make_group h2 (length ks2)"
    "entry_limit (entry_words (M @ [(h, ks)]) ! (length (entry_words (M @ [(h, ks)])) - 1)) = length ks"
proof -
  obtain k where k: "length ks = Suc k" using assms by (cases "length ks") (auto simp: group_ok_def)
  show "entry_limit (entry_words (M @ [(h, ks)]) ! (length (entry_words (M @ [(h, ks)])) - 1)) = length ks"
    using merge_group_bounds [OF assms assms] k nth_key_words [of k ks] by (simp add: nth_append)
qed (simp_all add: nth_append)

lemma merge_dict_disjoint:
  fixes M N :: "grp list"
  assumes g: "group_ok (h, ks)" and g2: "group_ok (h2, ks2)"
  assumes disjoint: "\<not> (h = h2 \<and> length ks < 255)"
  defines "L \<equiv> M @ [(h, ks)]" and "L2 \<equiv> (h2, ks2) # N" and "J \<equiv> merge_groups M (h, ks) (h2, ks2) N"
  shows "merge_dict (length L) (group_words L @ entry_words L) (length L2) (group_words L2 @ entry_words L2)
    = (length J - length L, group_words J @ entry_words J)"
proof -
  note ok = merge_group_bounds [OF g g2]
  note ends = merge_dict_ends(1) [OF g, of M, folded L_def] merge_dict_ends(2) [OF g, of h2 ks2 N, folded L2_def]
    merge_dict_ends(3) [OF g, of M, folded L_def]
  note last = ends(1) and first = ends(2) and lim = ends(3)
  have "\<not> (fst (h, ks) = fst (h2, ks2) \<and> length (snd (h, ks)) < MAX_GROUP_ENTRIES)"
    using disjoint by (simp add: MAX_GROUP_ENTRIES_def)
  then have J: "J = L @ L2" unfolding J_def merge_groups_def L_def L2_def by (subst if_not_P) simp_all
  have no: "(group_keyhi (make_group h (length ks)) = group_keyhi (make_group h2 (length ks2))
      \<and> group_count (make_group h (length ks)) < MAX_GROUP_ENTRIES) = False"
    using disjoint ok by (simp add: MAX_GROUP_ENTRIES_def)
  show ?thesis unfolding merge_dict_def Let_def last first no by (simp add: J chunk_def)
qed

lemma merge_dict_all:
  fixes M N :: "grp list"
  assumes g: "group_ok (h, ks)" and g2: "group_ok (h2, ks2)"
  assumes all: "h = h2" "length ks < 255" "length ks2 \<le> 255 - length ks"
  defines "L \<equiv> M @ [(h, ks)]" and "L2 \<equiv> (h2, ks2) # N" and "J \<equiv> merge_groups M (h, ks) (h2, ks2) N"
  shows "merge_dict (length L) (group_words L @ entry_words L) (length L2) (group_words L2 @ entry_words L2)
    = (length J - length L, group_words J @ entry_words J)"
proof -
  note ok = merge_group_bounds [OF g g2]
  note ends = merge_dict_ends(1) [OF g, of M, folded L_def] merge_dict_ends(2) [OF g, of h2 ks2 N, folded L2_def]
    merge_dict_ends(3) [OF g, of M, folded L_def]
  note last = ends(1) and first = ends(2) and lim = ends(3)
  let ?m = "length ks2"
  have yes: "(group_keyhi (make_group h (length ks)) = group_keyhi (make_group h2 (length ks2))) = True"
    "(length ks < MAX_GROUP_ENTRIES) = True"
    "group_count (make_group h (length ks)) = length ks" "group_count (make_group h2 (length ks2)) = ?m"
    "(MAX_GROUP_ENTRIES - length ks < ?m) = False" "min (MAX_GROUP_ENTRIES - length ks) ?m = ?m"
    using all ok by (simp_all add: MAX_GROUP_ENTRIES_def)
  have J: "J = M @ (h, ks @ ks2) # N"
    using all by (simp add: J_def merge_groups_def MAX_GROUP_ENTRIES_def Let_def)
  have groups: "(take (length L) (group_words L @ entry_words L) @ chunk 1 (length N) (group_words L2 @ entry_words L2))
      [length L - 1 := make_group h (length ks + ?m)] = group_words J"
    by (simp add: J L_def L2_def g chunk_def list_update_append)
  have entries: "entry_words J = entry_words L @ map (\<lambda>e. inc_entry_limit e (int (length ks))) (key_words ks2) @ entry_words N"
    using key_words_append [of ks2 ks] all ok by (simp add: J L_def)
  have inc: "inc_group_count (make_group h (length ks)) (int ?m) = make_group h (length ks + ?m)"
    using ok by (simp add: inc_group_count_make nat_add_distrib)
  have e2: "drop (length L2) (group_words L2 @ entry_words L2) = key_words ks2 @ entry_words N"
    "drop (length L) (group_words L @ entry_words L) = entry_words L"
    by (simp_all add: L2_def)
  have n2: "length L2 - length N = 1" "length L2 - 1 = length N" "length J - length L = length N" "?m \<noteq> 0"
    using ok by (simp_all add: J L_def L2_def)
  have l1: "(take (length L) (group_words L @ entry_words L) @ chunk 1 (length N) (group_words L2 @ entry_words L2))
      ! (length L - 1) = make_group h (length ks)"
    by (simp add: L_def nth_append)
  show ?thesis
    unfolding merge_dict_def Let_def last first yes e2
    by (simp only: if_True if_False n2 lim simp_thms l1 inc groups entries) (simp add: chunk_def)
qed

lemma merge_dict_some:
  fixes M N :: "grp list"
  assumes g: "group_ok (h, ks)" and g2: "group_ok (h2, ks2)"
  assumes some: "h = h2" "length ks < 255" "255 - length ks < length ks2"
  defines "L \<equiv> M @ [(h, ks)]" and "L2 \<equiv> (h2, ks2) # N" and "J \<equiv> merge_groups M (h, ks) (h2, ks2) N"
  shows "merge_dict (length L) (group_words L @ entry_words L) (length L2) (group_words L2 @ entry_words L2)
    = (length J - length L, group_words J @ entry_words J)"
proof -
  note ok = merge_group_bounds [OF g g2]
  note ends = merge_dict_ends(1) [OF g, of M, folded L_def] merge_dict_ends(2) [OF g, of h2 ks2 N, folded L2_def]
    merge_dict_ends(3) [OF g, of M, folded L_def]
  note last = ends(1) and first = ends(2) and lim = ends(3)
  define m where "m = 255 - length ks"
  define r where "r = length ks2 - m"
  have mr: "0 < m" "0 < r" "length ks2 = m + r" "m \<le> length ks2" using some by (simp_all add: m_def r_def)
  have yes: "(group_keyhi (make_group h (length ks)) = group_keyhi (make_group h2 (length ks2))) = True"
    "(length ks < MAX_GROUP_ENTRIES) = True"
    "group_count (make_group h (length ks)) = length ks" "group_count (make_group h2 (length ks2)) = length ks2"
    "MAX_GROUP_ENTRIES - length ks = m" "(m < length ks2) = True" "min m (length ks2) = m" "length ks2 - m = r"
    using some ok by (simp_all add: MAX_GROUP_ENTRIES_def m_def r_def)
  have J: "J = M @ (h, ks @ take m ks2) # (h2, drop m ks2) # N"
    using some mr by (simp add: J_def merge_groups_def MAX_GROUP_ENTRIES_def Let_def m_def min_def)
  let ?G = "take (length L) (group_words L @ entry_words L) @ chunk 0 (length L2) (group_words L2 @ entry_words L2)"
  have inc: "inc_group_count (?G ! (length L - 1)) (int m) = make_group h (length ks + m)"
    using ok by (simp add: L_def nth_append inc_group_count_make nat_add_distrib)
  have set: "set_group_count (?G[length L - 1 := x] ! length L) (int r) = make_group h2 r" for x
    using ok by (simp add: L_def L2_def nth_append chunk_def set_group_count_make)
  have groups: "?G[length L - 1 := make_group h (length ks + m), length L := make_group h2 r] = group_words J"
    using mr by (simp add: J L_def L2_def chunk_def list_update_append m_def)
  have "key_words (take m ks2) = take m (key_words ks2)" by (rule take_key_words [symmetric])
  then have entries: "entry_words J = entry_words L @ map (\<lambda>e. inc_entry_limit e (int (length ks))) (take m (key_words ks2))
      @ map (\<lambda>e. inc_entry_limit e (- int m)) (drop m (key_words ks2)) @ entry_words N"
    using key_words_append [of "take m ks2" ks] shift_key_words [of ks2 m] ok mr some
    by (auto simp: J L_def m_def dest: in_set_takeD)
  have e2: "drop (length L2) (group_words L2 @ entry_words L2) = key_words ks2 @ entry_words N"
    "drop (length L) (group_words L @ entry_words L) = entry_words L"
    by (simp_all add: L2_def)
  have lim2: "entry_limit ((key_words ks2 @ entry_words N) ! (m - 1)) = m"
    using mr ok by (cases m) (simp_all add: nth_append)
  have n2: "length L2 - 0 = length L2" "length L2 - length L2 = 0" "length J - length L = length L2" "m \<noteq> 0" "r \<noteq> 0"
    using mr by (simp_all add: J L_def L2_def)
  show ?thesis
    unfolding merge_dict_def Let_def last first yes e2
    by (simp only: if_True if_False n2 lim lim2 simp_thms inc set groups entries)
      (simp add: chunk_def mr(3))
qed

lemma merge_dict_eq:
  assumes "\<forall>x\<in>set (M @ g # g2 # N). group_ok x"
  defines "L \<equiv> M @ [g]" and "L2 \<equiv> g2 # N" and "J \<equiv> merge_groups M g g2 N"
  shows "merge_dict (length L) (group_words L @ entry_words L) (length L2) (group_words L2 @ entry_words L2)
    = (length J - length L, group_words J @ entry_words J)"
proof -
  obtain h ks where g: "g = (h, ks)" by (cases g)
  obtain h2 ks2 where g2: "g2 = (h2, ks2)" by (cases g2)
  have ok: "group_ok (h, ks)" "group_ok (h2, ks2)" using assms(1) by (simp_all add: g g2)
  consider "\<not> (h = h2 \<and> length ks < 255)" | "h = h2" "length ks < 255" "length ks2 \<le> 255 - length ks"
    | "h = h2" "length ks < 255" "255 - length ks < length ks2" by linarith
  then show ?thesis unfolding L_def L2_def J_def g g2
    by cases (rule merge_dict_disjoint [OF ok] merge_dict_all [OF ok] merge_dict_some [OF ok]; assumption)+
qed

lemma length_merge_groups:
  "length M + 1 \<le> length (merge_groups M g g2 N)" "length (merge_groups M g g2 N) \<le> length M + 2 + length N"
  by (simp_all add: merge_groups_def Let_def)

lemma dleaf_merge_rep:
  assumes rep: "dl_rep bs leaf L" and rep2: "dl_rep bs from L2"
    and apart: "\<forall>k\<in>set (leaf_keys L). \<forall>k2\<in>set (leaf_keys L2). k < k2"
    and room: "dleaf_need bs from \<le> dleaf_free leaf"
  obtains leaf' L' where "dleaf_merge bs leaf from = Some leaf'" "dl_rep bs leaf' L'"
    "leaf_keys L' = leaf_keys L @ leaf_keys L2" "dl_table leaf' = dl_table leaf @ dl_table from"
proof -
  let ?n = "length (leaf_keys L)" and ?n2 = "length (leaf_keys L2)"
  note D = dl_repD(8,9,10,11) [OF rep] and D2 = dl_repD(8,9,10,11) [OF rep2]
  have free: "dleaf_free leaf = dl_used leaf - dl_free leaf" "dleaf_free from = dl_used from - dl_free from"
    using D D2 by (simp_all add: dleaf_free_def wrap_simps)
  have need: "dleaf_need bs from = 4 * (length L2 + ?n2) + 8 * ?n2"
    unfolding dleaf_need_def free using D2 by (simp add: wrap_simps DLEAF_SIZE_def)
  have fits: "DLEAF_SIZE + 8 * (?n + ?n2) + 4 * (length L + length L2 + (?n + ?n2)) \<le> bs"
    using room D unfolding need free by (simp add: DLEAF_SIZE_def)
  consider "L2 = []" | "L = []" "L2 \<noteq> []" | "L \<noteq> []" "L2 \<noteq> []" by blast
  then show ?thesis
  proof cases
    case 1
    then have "dleaf_merge bs leaf from = Some leaf"
      by (simp add: dleaf_merge_def dleaf_groups_def dl_repD(4) [OF rep2] Let_def)
    then show ?thesis using that rep 1 dl_repD(6) [OF rep2] by simp
  next
    case 2
    then have "dleaf_merge bs leaf from = Some from"
      by (simp add: dleaf_merge_def dleaf_groups_def dl_repD(4) [OF rep2] dl_repD(4) [OF rep] Let_def)
    then show ?thesis using that rep2 2 dl_repD(6) [OF rep] by simp
  next
    case 3
    obtain M g where L: "L = M @ [g]" using 3(1) by (cases L rule: rev_cases) auto
    obtain g2 N where L2: "L2 = g2 # N" using 3(2) by (cases L2) auto
    let ?J = "merge_groups M g g2 N"
    have all_ok: "\<forall>x\<in>set (M @ g # g2 # N). group_ok x" using dl_repD(2) [OF rep] dl_repD(2) [OF rep2] by (auto simp: L L2)
    have keys: "leaf_keys ?J = leaf_keys L @ leaf_keys L2" unfolding leaf_keys_merge L L2 ..
    have len: "length L \<le> length ?J" "length ?J \<le> length L + length L2"
      using length_merge_groups [of M g g2 N] by (simp_all add: L L2)
    let ?leaf = "\<lparr>dl_magic = TUX3_MAGIC_DLEAF, dl_groups = length ?J, dl_free = DLEAF_SIZE + 8 * (?n + ?n2),
      dl_used = bs - 4 * (length ?J + (?n + ?n2)), dl_table = dl_table leaf @ dl_table from,
      dl_dict = group_words ?J @ entry_words ?J\<rparr>"
    have J: "dl_rep bs ?leaf ?J"
      unfolding dl_rep_def using merge_groups_ok [OF all_ok] len fits D(4) apart keys
        dl_repD(3,6,7) [OF rep] dl_repD(3,6,7) [OF rep2]
      by (auto simp: sorted_wrt_append)
    have w: "wrap16 (length L + (length ?J - length L)) = length ?J"
      "wrap16 (dl_free leaf + (dl_free from - DLEAF_SIZE)) = DLEAF_SIZE + 8 * (?n + ?n2)"
      "sub16 (dl_used leaf) (4 * (length ?J - length L) + 4 * ?n2) = bs - 4 * (length ?J + (?n + ?n2))"
      using len fits D D2(1) by (simp_all add: wrap16_id sub16_def of_nat_diff DLEAF_SIZE_def)
    have "dleaf_merge bs leaf from = Some ?leaf"
      using 3 merge_dict_eq [OF all_ok] w assert_check_rep [OF J] dl_repD(1) [OF rep]
      by (simp add: dleaf_merge_def dleaf_groups_def dl_repD(4,5) [OF rep2] dl_repD(4,5) [OF rep] Let_def
          inc_dleaf_groups_def L [symmetric] L2 [symmetric] dleaf_updates)
    then show ?thesis using that J keys by simp
  qed
qed

section \<open>Splitting\<close>

lemma split_groups_rep:
  assumes rep: "dl_rep bs leaf L" and j: "j < length L" and t: "t < length (snd (L ! j))" and k: "k \<le> j"
  shows "split_groups leaf (skips L j + t) (drop k (group_words L)) (length L + skips L k) (skips L k) (skips L k) k
    = (length L + skips L j, skips L j, skips L j, j)"
  using k
proof (induction "j - k" arbitrary: k)
  case 0
  then have "k = j" by simp
  then show ?case using j t word_group(1,3) [OF rep j] by (simp add: drop_group_words)
next
  case (Suc m)
  then have k: "k < j" "k < length L" using j by simp_all
  have "skips L (Suc k) \<le> skips L j" using k(1) by (intro skips_mono) simp
  then have "\<not> skips L j + t < skips L k + length (snd (L ! k))" using k(2) by (simp add: skips_Suc)
  moreover have "split_groups leaf (skips L j + t) (drop (Suc k) (group_words L)) (length L + skips L (Suc k))
      (skips L (Suc k)) (skips L (Suc k)) (Suc k) = (length L + skips L j, skips L j, skips L j, j)"
    by (rule Suc.hyps(1)) (use Suc.hyps(2) k in auto)
  ultimately show ?case
    using k word_group(1,3) [OF rep k(2)] last_entry_limit [OF rep k(2)]
    by (simp add: drop_group_words skips_Suc Let_def add.assoc)
qed

lemma split_left_words:
  assumes rep: "dl_rep bs leaf L" and j: "j < length L" and t: "t < length (snd (L ! j))"
  defines "g \<equiv> j + (if t \<noteq> 0 then 1 else 0)"
  defines "d \<equiv> (if t \<noteq> 0 then (dl_dict leaf)[g - 1 := set_group_count (dl_dict leaf ! (g - 1)) (int t)] else dl_dict leaf)"
  shows "take (g + (skips L j + t)) (memmove d g (length L) (skips L j + t))
      = group_words (groups_upto L j t) @ entry_words (groups_upto L j t)"
    "drop (length L) d = entry_words L" "length d = length L + length (leaf_keys L)"
proof -
  note h = group_okD(1) [OF rep_group_ok [OF rep j]]
  have n: "skips L j + t < length (leaf_keys L)" by (rule leaf_keys_bound [OF j t])
  have d: "d = (if t \<noteq> 0 then (group_words L)[j := make_group (fst (L ! j)) t] else group_words L) @ entry_words L"
    using j h by (simp add: d_def g_def dl_repD(5) [OF rep] nth_append nth_group_words set_group_count_make list_update_append)
  then show "drop (length L) d = entry_words L" "length d = length L + length (leaf_keys L)" by simp_all
  have "take (g + (skips L j + t)) (memmove d g (length L) (skips L j + t)) = take g d @ chunk (length L) (skips L j + t) d"
    by (rule take_memmove) (use j n d in \<open>simp_all add: g_def\<close>)
  also have "chunk (length L) (skips L j + t) d = entry_words (groups_upto L j t)"
    using t by (simp add: d chunk_def entry_words_upto [OF j])
  also have "take g d = group_words (groups_upto L j t)"
    unfolding d g_def using j t by (simp add: group_words_upto take_update_swap min.absorb2)
  finally show "take (g + (skips L j + t)) (memmove d g (length L) (skips L j + t))
      = group_words (groups_upto L j t) @ entry_words (groups_upto L j t)" .
qed

lemma split_right_words:
  assumes rep: "dl_rep bs leaf L" and j: "j < length L" and t: "t < length (snd (L ! j))"
  defines "G \<equiv> (chunk j (length L - j) (dl_dict leaf))[0 := inc_group_count (chunk j (length L - j) (dl_dict leaf) ! 0) (- int t)]"
  defines "n \<equiv> (if t \<noteq> 0 then group_count (G ! 0) else 0)"
  defines "E \<equiv> drop (skips L j + t) (entry_words L)"
  shows "G = group_words (groups_from L j t)"
    "map (\<lambda>e. inc_entry_limit e (- int (if t \<noteq> 0 then t else 0))) (take n E) @ drop n E = entry_words (groups_from L j t)"
proof -
  note g = rep_group_ok [OF rep j]
  have c: "chunk j (length L - j) (dl_dict leaf) = drop j (group_words L)"
    using j by (simp add: dl_repD(5) [OF rep] chunk_def)
  have "inc_group_count (drop j (group_words L) ! 0) (- int t) = make_group (fst (L ! j)) (length (snd (L ! j)) - t)"
    using t group_okD(1,3) [OF g] by (simp add: drop_group_words [OF j] inc_group_count_make nat_diff_distrib)
  then show G: "G = group_words (groups_from L j t)"
    unfolding G_def c by (simp only: group_words_from [OF j])
  have "t \<noteq> 0 \<Longrightarrow> n = length (snd (L ! j)) - t" "t = 0 \<Longrightarrow> n = 0"
    using group_okD(1,3) [OF g] by (simp_all add: n_def G groups_from_def)
  moreover have "entry_words (groups_from L j 0) = drop (skips L j) (entry_words L)"
    using arg_cong [OF group_split [OF j], of "\<lambda>x. drop (skips L j) (entry_words x)"] by (simp add: groups_from_def skips_def)
  ultimately show "map (\<lambda>e. inc_entry_limit e (- int (if t \<noteq> 0 then t else 0))) (take n E) @ drop n E = entry_words (groups_from L j t)"
    using entry_words_from [OF j less_imp_le [OF t] g] by (cases "t = 0") (simp_all add: E_def)
qed

lemma dleaf_split_at_rep:
  assumes rep: "dl_rep bs leaf L" and dest: "dl_rep bs leaf2 []" and s: "s < length (leaf_keys L)"
  obtains left right L1 L2 where
    "dleaf_split_at leaf leaf2 (length L + s + 1) bs = Some (length L2, left, right)"
    "dl_rep bs left L1" "leaf_keys L1 = take s (leaf_keys L)" "dl_table left = take s (dl_table leaf)"
    "dl_rep bs right L2" "leaf_keys L2 = drop s (leaf_keys L)" "dl_table right = drop s (dl_table leaf)"
proof -
  obtain j t where j: "j < length L" and t: "t < length (snd (L ! j))" and sj: "s = skips L j + t"
    by (rule position_cases [OF s])
  let ?n = "length (leaf_keys L)" and ?g = "j + (if t \<noteq> 0 then 1 else 0)"
  let ?U = "groups_upto L j t" and ?F = "groups_from L j t"
  note D = dl_repD(4,8,9,10,11) [OF rep] and S = dl_repD(1) [OF dest]
  let ?left = "\<lparr>dl_magic = TUX3_MAGIC_DLEAF, dl_groups = ?g, dl_free = DLEAF_SIZE + 8 * s, dl_used = bs - 4 * (?g + s),
    dl_table = take s (dl_table leaf), dl_dict = group_words ?U @ entry_words ?U\<rparr>"
  let ?right = "\<lparr>dl_magic = TUX3_MAGIC_DLEAF, dl_groups = length L - j, dl_free = DLEAF_SIZE + 8 * (?n - s),
    dl_used = bs - 4 * (length L - j + (?n - s)), dl_table = drop s (dl_table leaf), dl_dict = group_words ?F @ entry_words ?F\<rparr>"
  have U: "dl_rep bs ?left ?U"
    by (rule dl_rep_upto [OF rep j less_imp_le [OF t]]) (simp_all add: sj length_groups_upto [OF j])
  have F: "dl_rep bs ?right ?F" by (rule dl_rep_from [OF rep j t]) (simp_all add: sj)
  have ebase: "(bs - dl_used leaf) div 4 = length L + ?n" "(dl_free leaf - DLEAF_SIZE) div 8 = ?n" using D by simp_all
  have groups: "split_groups leaf s (take (length L) (dl_dict leaf)) (length L) 0 0 0 = (length L + skips L j, skips L j, skips L j, j)"
    using split_groups_rep [OF rep j t, of 0] by (simp add: sj dl_repD(5) [OF rep])
  have limit: "(if t \<noteq> 0 then skips L j + entry_limit (word_at leaf (length L + skips L j + t)) else skips L j) = s"
    using word_entry(3) [OF rep j, of "t - 1"] t by (cases t) (simp_all add: sj)
  define d where "d = (if t \<noteq> 0 then (dl_dict leaf)[?g - 1 := set_group_count (dl_dict leaf ! (?g - 1)) (int t)] else dl_dict leaf)"
  note left = split_left_words [OF rep j t, folded sj d_def] and right = split_right_words [OF rep j t, folded sj]
  have chunks: "chunk (length L + ?n - (?n - s)) (?n - s) d = drop s (entry_words L)"
    "chunk s (?n - s) (dl_table leaf) = drop s (dl_table leaf)"
    using left(3) s dl_repD(6) [OF rep] arg_cong [OF left(2), of "drop s"]
    by (simp_all add: chunk_def add.commute)
  have adjust: "(if t \<noteq> 0 then entry_limit (d ! (length L + s - 1)) else 0) = (if t \<noteq> 0 then t else 0)"
  proof (cases t)
    case (Suc u)
    then have "d ! (length L + s - 1) = entry_words L ! (skips L j + u)"
      using left(3) s arg_cong [OF left(2), of "\<lambda>x. x ! (skips L j + u)"] by (simp add: sj)
    then show ?thesis using nth_entry_words [OF j, of u] t Suc group_okD(3,5) [OF rep_group_ok [OF rep j]] by simp
  qed simp
  have fits: "wrap16 ?g = ?g" "wrap16 (DLEAF_SIZE + 8 * s) = DLEAF_SIZE + 8 * s" "wrap16 (bs - 4 * (?g + s)) = bs - 4 * (?g + s)"
    "wrap16 (length L - j) = length L - j" "wrap16 (DLEAF_SIZE + 8 * (?n - s)) = DLEAF_SIZE + 8 * (?n - s)"
    "wrap16 (bs - 4 * (length L - j + (?n - s))) = bs - 4 * (length L - j + (?n - s))"
    using D s j by (simp_all add: wrap16_id DLEAF_SIZE_def)
  have arith: "length L + s + 1 - length L - 1 = s" "length L + ?n - length L = ?n" "s - skips L j = t"
    "(length L = 0) = False" "(length L < length L + s + 1 \<and> length L + s + 1 \<le> length L + ?n) = True" "(s < ?n) = True"
    using s j by (auto simp: sj)
  have upd: "l\<lparr>dl_groups := a, dl_free := b, dl_used := c, dl_table := x, dl_dict := y\<rparr> =
      \<lparr>dl_magic = dl_magic l, dl_groups = a, dl_free = b, dl_used = c, dl_table = x, dl_dict = y\<rparr>" for l :: dleaf and a b c x y
    by (cases l) simp
  have "dleaf_split_at leaf leaf2 (length L + s + 1) bs = Some (length ?F, ?left, ?right)"
    unfolding dleaf_split_at_def Let_def dleaf_groups_def D(1) ebase arith groups prod.case d_def [symmetric]
    by (simp only: if_False c_assert_True bind.bind_lunit option.case prod.case arith limit left right right(2) [unfolded right(1)] chunks adjust fits upd
        dl_repD(1) [OF rep] S assert_check_rep [OF U] assert_check_rep [OF F] length_groups_from [OF j])
  then show ?thesis
    by (rule that [OF _ U _ _ F]) (use leaf_keys_upto [OF j less_imp_le [OF t]] leaf_keys_from [OF j less_imp_le [OF t]] sj in simp_all)
qed

lemma dleaf_split_rep:
  assumes rep: "dl_rep bs leaf L" and dest: "dl_rep bs leaf2 []" and n: "2 \<le> length (leaf_keys L)"
  defines "s \<equiv> length (leaf_keys L) div 2 - 1"
  obtains left right L1 L2 where
    "dleaf_split bs key leaf leaf2 = Some (leaf_keys L ! s, left, right)"
    "dl_rep bs left L1" "leaf_keys L1 = take s (leaf_keys L)" "dl_table left = take s (dl_table leaf)"
    "dl_rep bs right L2" "leaf_keys L2 = drop s (leaf_keys L)" "dl_table right = drop s (dl_table leaf)"
proof -
  let ?n = "length (leaf_keys L)"
  have s: "s < ?n" "length L + ?n div 2 = length L + s + 1" using n by (simp_all add: s_def)
  obtain left right L1 L2 where split:
    "dleaf_split_at leaf leaf2 (length L + s + 1) bs = Some (length L2, left, right)"
    "dl_rep bs left L1" "leaf_keys L1 = take s (leaf_keys L)" "dl_table left = take s (dl_table leaf)"
    "dl_rep bs right L2" "leaf_keys L2 = drop s (leaf_keys L)" "dl_table right = drop s (dl_table leaf)"
    by (rule dleaf_split_at_rep [OF rep dest s(1)])
  have "L2 \<noteq> []" using split(6) s(1) by auto
  then have g: "0 < length L2" by simp
  note f = group_first [OF split(5) g]
  have "get_index (word_at right 1) (word_at right (length L2 + 1)) = leaf_keys L2 ! 0"
    using word_group(2) [OF split(5) g] f(3,4) by (simp add: get_index_def)
  also have "\<dots> = leaf_keys L ! s" using split(6) s(1) by simp
  finally have key: "get_index (word_at right 1) (word_at right (length L2 + 1)) = leaf_keys L ! s" .
  have "length L2 < length (dl_dict right)" using dl_repD(5) [OF split(5)] f(2) by simp
  moreover have "(bs - dl_used leaf) div 4 = length L + ?n" using dl_repD(9,10) [OF rep] by simp
  ultimately have "dleaf_split bs key leaf leaf2 = Some (leaf_keys L ! s, left, right)"
    using split(1) s(2) key dl_repD(1) [OF rep]
    by (simp add: dleaf_split_def dleaf_sniff_def dleaf_groups_def dl_repD(4) [OF rep] Let_def)
  then show ?thesis by (rule that) (use split in simp_all)
qed

lemma dleaf_split_short:
  assumes rep: "dl_rep bs leaf L" and dest: "dl_rep bs leaf2 []" and n: "length (leaf_keys L) < 2"
  shows "dleaf_split bs key leaf leaf2 = None"
proof (cases "L = []")
  case True
  then show ?thesis using dl_repD(4,9,10) [OF rep] dl_repD(5) [OF dest]
    by (simp add: dleaf_split_def dleaf_split_at_def dleaf_groups_def Let_def c_assert_def)
next
  case False
  then have L: "(length L = 0) = False" by simp
  have e: "(bs - dl_used leaf) div 4 = length L + length (leaf_keys L)" using dl_repD(9,10) [OF rep] by simp
  have h: "(length L + length (leaf_keys L) - length L) div 2 = 0" using n by simp
  show ?thesis
    unfolding dleaf_split_def dleaf_split_at_def dleaf_groups_def Let_def dl_repD(4) [OF rep] e h L
    by (simp add: c_assert_def)
qed

end
