(* ===== verification/Tux_Dchop.thy ===== *)
theory Tux_Dchop
  imports Tux_Dmerge
begin

text \<open>
  Truncation of a file index leaf, \<open>dleaf_chop\<close> of \<open>kernel/dleaf.c\<close>: what a leaf maps, which
  extents stay below the key, which blocks are freed; and the properties of the file index leaf.
\<close>

section \<open>What a leaf maps\<close>

text \<open>An extent is its first key, its first block and its length.\<close>

definition leaf_extents :: "dleaf \<Rightarrow> grp list \<Rightarrow> (nat \<times> nat \<times> nat) list" where
  "leaf_extents leaf L = zip (leaf_keys L) (map (\<lambda>x. (extent_block x, extent_count x)) (dl_table leaf))"

definition map_block :: "(nat \<times> nat \<times> nat) list \<Rightarrow> nat \<Rightarrow> nat option" where
  "map_block xs k = (case find (\<lambda>(i, b, n). i \<le> k \<and> k < i + n) xs of
     None \<Rightarrow> None
   | Some (i, b, n) \<Rightarrow> Some (b + (k - i)))"

definition keep_below :: "nat \<Rightarrow> (nat \<times> nat \<times> nat) list \<Rightarrow> (nat \<times> nat \<times> nat) list" where
  "keep_below c xs = map (\<lambda>(i, b, n). (i, b, min n (c - i))) (filter (\<lambda>(i, b, n). i < c) xs)"

definition cut_blocks :: "nat \<Rightarrow> (nat \<times> nat \<times> nat) list \<Rightarrow> (nat \<times> nat) list" where
  "cut_blocks c xs = map (\<lambda>(i, b, n). (b + (c - i), n - (c - i))) (filter (\<lambda>(i, b, n). c < i + n) xs)"

fun free_all :: "(nat \<Rightarrow> nat \<Rightarrow> 's \<Rightarrow> ((errno + unit) \<times> 's) option) \<Rightarrow> (nat \<times> nat) list \<Rightarrow> 's \<Rightarrow> 's option" where
  "free_all bf [] s = Some s"
| "free_all bf ((b, n) # xs) s = do { (_, s) \<leftarrow> bf b n s; free_all bf xs s }"

lemma map_block_keep: "map_block (keep_below c xs) k = (if k < c then map_block xs k else None)"
proof (induction xs)
  case (Cons x xs)
  then show ?case by (cases x) (auto simp: map_block_def keep_below_def)
qed (simp add: map_block_def keep_below_def)

lemma length_leaf_extents: "dl_rep bs leaf L \<Longrightarrow> length (leaf_extents leaf L) = length (leaf_keys L)"
  by (simp add: leaf_extents_def dl_repD(6))

lemma nth_leaf_extents:
  "dl_rep bs leaf L \<Longrightarrow> p < length (leaf_keys L) \<Longrightarrow>
    leaf_extents leaf L ! p = (leaf_keys L ! p, extent_block (dl_table leaf ! p), extent_count (dl_table leaf ! p))"
  by (simp add: leaf_extents_def dl_repD(6))

text \<open>Where the probe stops, both lists are cut.\<close>

lemma filter_cut:
  assumes "i \<le> length xs" "\<And>p. p < i \<Longrightarrow> P (xs ! p)" "\<And>p. i \<le> p \<Longrightarrow> p < length xs \<Longrightarrow> \<not> P (xs ! p)"
  shows "filter P xs = take i xs"
proof -
  have "filter P (take i xs) = take i xs" using assms(1,2) by (intro filter_True) (auto simp: in_set_conv_nth)
  moreover have "filter P (drop i xs) = []" using assms(1,3) by (intro filter_False) (auto simp: in_set_conv_nth)
  ultimately show ?thesis using filter_append [of P "take i xs" "drop i xs"] by simp
qed

lemma probe_split:
  assumes rep: "dl_rep bs leaf L" and dis: "disjoint_extents leaf L" and at: "probe_at leaf L c i"
  defines "X \<equiv> leaf_extents leaf L"
  shows "filter (\<lambda>(k, b, n). c < k + n) X = drop i X"
    "filter (\<lambda>(k, b, n). k < c) X = take (if i < length X \<and> leaf_keys L ! i < c then Suc i else i) X"
    "\<And>p. p < i \<Longrightarrow> fst (X ! p) + snd (snd (X ! p)) \<le> c"
proof -
  let ?n = "length (leaf_keys L)"
  have len: "length X = ?n" unfolding X_def by (rule length_leaf_extents [OF rep])
  have x: "X ! p = (leaf_keys L ! p, extent_block (dl_table leaf ! p), extent_count (dl_table leaf ! p))" if "p < ?n" for p
    unfolding X_def by (rule nth_leaf_extents [OF rep that])
  have below: "leaf_keys L ! p + extent_count (dl_table leaf ! p) \<le> c" if "p < i" for p
    using at that by (simp add: probe_at_def below_key_def extent_end_def)
  have i: "i \<le> ?n" using at by (simp add: probe_at_def)
  have above: "c < leaf_keys L ! p + extent_count (dl_table leaf ! p) \<and> (i < p \<longrightarrow> c < leaf_keys L ! p)" if "i \<le> p" "p < ?n" for p
  proof -
    have e: "c < extent_end leaf L i" using at that by (simp add: probe_at_def)
    have "c < leaf_keys L ! p" if "i < p" using disjoint_end_le [OF rep dis that \<open>p < ?n\<close>] e by simp
    then show ?thesis using e that by (cases "p = i") (auto simp: extent_end_def)
  qed
  show "fst (X ! p) + snd (snd (X ! p)) \<le> c" if "p < i" for p using below [OF that] x [of p] that i by simp
  have f: "filter (\<lambda>(k, b, n). c < k + n) (take i X) = []"
    using below x i len by (intro filter_False) (fastforce simp: in_set_conv_nth not_less)
  have g: "filter (\<lambda>(k, b, n). c < k + n) (drop i X) = drop i X"
    using above x i len by (intro filter_True) (auto simp: in_set_conv_nth)
  show "filter (\<lambda>(k, b, n). c < k + n) X = drop i X"
    using f g filter_append [of "\<lambda>(k, b, n). c < k + n" "take i X" "drop i X"] by simp
  show "filter (\<lambda>(k, b, n). k < c) X = take (if i < length X \<and> leaf_keys L ! i < c then Suc i else i) X"
  proof (rule filter_cut)
    fix p assume p: "p < (if i < length X \<and> leaf_keys L ! i < c then Suc i else i)"
    then have "p < ?n" "p < i \<or> (p = i \<and> leaf_keys L ! i < c)" using i len by (auto split: if_splits)
    then show "case X ! p of (k, b, n) \<Rightarrow> k < c"
      using x [of p] below [of p] extent_count_pos [of "dl_table leaf ! p"] by auto
  next
    fix p assume p: "(if i < length X \<and> leaf_keys L ! i < c then Suc i else i) \<le> p" "p < length X"
    then show "\<not> (case X ! p of (k, b, n) \<Rightarrow> k < c)"
      using x [of p] above [of p] len by (cases "p = i") (auto split: if_splits)
  qed (use i len in auto)
qed

section \<open>Truncation\<close>

lemma chop_free_rep:
  assumes rep: "dl_rep bs leaf L" and "walk_pos L walk i" "i < length (leaf_keys L)" "length (leaf_keys L) - i \<le> m"
  shows "chop_free bf leaf m walk s = free_all bf (map snd (drop i (leaf_extents leaf L))) s"
  using assms(2-)
proof (induction m arbitrary: walk i s)
  case 0
  then show ?case by simp
next
  case (Suc m)
  let ?n = "length (leaf_keys L)"
  obtain w where w: "dwalk_next leaf walk = Some (Suc i < ?n, w)" "walk_pos L w (Suc i)"
    by (rule dwalk_next_pos [OF rep Suc.prems(1,2)])
  have head: "drop i (leaf_extents leaf L) =
      (leaf_keys L ! i, dwalk_block leaf walk, dwalk_count leaf walk) # drop (Suc i) (leaf_extents leaf L)"
    using nth_leaf_extents [OF rep Suc.prems(2)] Suc.prems(2) length_leaf_extents [OF rep] walk_pos_extent [OF Suc.prems(1)]
    by (simp add: Cons_nth_drop_Suc [symmetric] dwalk_block_def dwalk_count_def)
  show ?case
  proof (cases "Suc i < ?n")
    case True
    then have "chop_free bf leaf m w s' = free_all bf (map snd (drop (Suc i) (leaf_extents leaf L))) s'" for s'
      using Suc.IH [OF w(2) True] Suc.prems(3) by simp
    then show ?thesis using True w(1) by (simp add: head)
  next
    case False
    then have "drop (Suc i) (leaf_extents leaf L) = []" using length_leaf_extents [OF rep] by simp
    then show ?thesis using False w(1) by (auto simp: head split: bind_split)
  qed
qed

text \<open>Cutting at position \<open>j\<close> and freeing what is behind it.\<close>

lemma free_and_chop:
  assumes rep: "dl_rep bs leaf L" and pos: "walk_pos L walk j" and j: "j < length (leaf_keys L)"
  obtains leaf' L' where
    "\<And>s. do { s \<leftarrow> chop_free bf leaf (length (dl_table leaf)) walk s;
          (leaf, _) \<leftarrow> dwalk_chop bs leaf walk; Some (leaf, s) }
       = (case free_all bf (map snd (drop j (leaf_extents leaf L))) s of None \<Rightarrow> None | Some s \<Rightarrow> Some (leaf', s))"
    "dl_rep bs leaf' L'" "leaf_extents leaf' L' = take j (leaf_extents leaf L)"
proof -
  obtain leaf' w L' where c: "dwalk_chop bs leaf walk = Some (leaf', w)" "dl_rep bs leaf' L'"
    "leaf_keys L' = take j (leaf_keys L)" "dl_table leaf' = take j (dl_table leaf)" by (rule dwalk_chop_rep [OF rep pos])
  show ?thesis
  proof (rule that [OF _ c(2)])
    show "leaf_extents leaf' L' = take j (leaf_extents leaf L)"
      using c(3,4) by (simp add: leaf_extents_def take_zip take_map)
    fix s
    show "do { s \<leftarrow> chop_free bf leaf (length (dl_table leaf)) walk s;
          (leaf, _) \<leftarrow> dwalk_chop bs leaf walk; Some (leaf, s) }
       = (case free_all bf (map snd (drop j (leaf_extents leaf L))) s of None \<Rightarrow> None | Some s \<Rightarrow> Some (leaf', s))"
      using chop_free_rep [OF rep pos j, of "length (dl_table leaf)" bf s] c(1) dl_repD(6) [OF rep]
      by (simp split: option.split)
  qed
qed

text \<open>Writing the shortened extent back.\<close>

lemma dwalk_update_rep:
  assumes rep: "dl_rep bs leaf L" and pos: "walk_pos L walk i" and i: "i < length (leaf_keys L)" and x: "extent_block x \<noteq> 0"
  shows "dl_rep bs (dwalk_update leaf walk x) L"
    "leaf_extents (dwalk_update leaf walk x) L = (leaf_extents leaf L)[i := (leaf_keys L ! i, extent_block x, extent_count x)]"
proof -
  have e: "dwalk_update leaf walk x = leaf\<lparr>dl_table := (dl_table leaf)[i := x]\<rparr>"
    using walk_pos_extent [OF pos] by (simp add: dwalk_update_def)
  show "dl_rep bs (dwalk_update leaf walk x) L"
    using rep x unfolding e dl_rep_def by (auto dest: subsetD [OF set_update_subset_insert])
  show "leaf_extents (dwalk_update leaf walk x) L = (leaf_extents leaf L)[i := (leaf_keys L ! i, extent_block x, extent_count x)]"
    unfolding e leaf_extents_def by (simp add: map_update update_zip)
qed

lemma extent_bounds: "extent_block x < 2 ^ 48" "extent_count x \<le> 64"
proof -
  show "extent_block x < 2 ^ 48"
    unfolding extent_block_def mask48 take_bit_eq_mask [symmetric] unsigned_take_bit_eq by (rule take_bit_nat_less_exp)
  have "(0x3f :: u64) = mask 6" by (simp add: mask_eq_decr_exp)
  moreover have "unat (take_bit 6 (drop_bit 48 x)) < 2 ^ 6"
    unfolding unsigned_take_bit_eq by (rule take_bit_nat_less_exp)
  ultimately show "extent_count x \<le> 64" unfolding extent_count_def by (simp add: take_bit_eq_mask)
qed

lemma dleaf_chop_past:
  assumes rep: "dl_rep bs leaf L" and dis: "disjoint_extents leaf L" and i: "probe_at leaf L c (length (leaf_keys L))"
    and p: "dwalk_probe leaf c walk = Some (False, w)"
  shows "cut_blocks c (leaf_extents leaf L) = []" "keep_below c (leaf_extents leaf L) = leaf_extents leaf L"
    "dleaf_chop bf bs c leaf walk s = Some (False, leaf, s)"
proof -
  let ?X = "leaf_extents leaf L"
  note split = probe_split [OF rep dis i]
  have n: "length ?X = length (leaf_keys L)" by (rule length_leaf_extents [OF rep])
  show "cut_blocks c ?X = []" using split(1) n by (simp add: cut_blocks_def)
  have "map (\<lambda>(i, b, n). (i, b, min n (c - i))) ?X = ?X"
  proof (rule map_idI)
    fix x assume "x \<in> set ?X"
    then obtain p where "x = ?X ! p" "p < length (leaf_keys L)" using n by (auto simp: in_set_conv_nth)
    then show "(case x of (i, b, n) \<Rightarrow> (i, b, min n (c - i))) = x" using split(3) [of p] by (auto split: prod.splits)
  qed
  then show "keep_below c ?X = ?X" using split(2) n by (simp add: keep_below_def)
  show "dleaf_chop bf bs c leaf walk s = Some (False, leaf, s)" using p by (simp add: dleaf_chop_def)
qed

text \<open>The two lists at the extent where the probe stops.\<close>

lemma keep_cut_at:
  assumes rep: "dl_rep bs leaf L" and dis: "disjoint_extents leaf L" and at: "probe_at leaf L c i" and i: "i < length (leaf_keys L)"
  defines "X \<equiv> leaf_extents leaf L" and "key \<equiv> leaf_keys L ! i" and "x \<equiv> dl_table leaf ! i"
  shows "keep_below c X = take i X @ (if key < c then [(key, extent_block x, c - key)] else [])"
    "cut_blocks c X = (extent_block x + (c - key), extent_count x - (c - key)) # map snd (drop (Suc i) X)"
    "key < c \<Longrightarrow> c - key < extent_count x"
proof -
  note split = probe_split [OF rep dis at, folded X_def]
  have n: "length X = length (leaf_keys L)" unfolding X_def by (rule length_leaf_extents [OF rep])
  have xi: "X ! i = (key, extent_block x, extent_count x)" unfolding X_def key_def x_def by (rule nth_leaf_extents [OF rep i])
  have end_i: "c < key + extent_count x" using at i by (simp add: probe_at_def extent_end_def key_def x_def)
  then show "key < c \<Longrightarrow> c - key < extent_count x" by simp
  have front: "map (\<lambda>(i, b, n). (i, b, min n (c - i))) (take i X) = take i X"
  proof (rule map_idI)
    fix y assume "y \<in> set (take i X)"
    then obtain p where "y = X ! p" "p < i" by (auto simp: in_set_conv_nth)
    then show "(case y of (i, b, n) \<Rightarrow> (i, b, min n (c - i))) = y" using split(3) [of p] by (auto split: prod.splits)
  qed
  have "take (Suc i) X = take i X @ [X ! i]" using i n by (simp add: take_Suc_conv_app_nth)
  then show "keep_below c X = take i X @ (if key < c then [(key, extent_block x, c - key)] else [])"
    using split(2) front i n xi end_i by (simp add: keep_below_def key_def [symmetric] min_def) linarith
  have rest: "map (\<lambda>(i, b, n). (b + (c - i), n - (c - i))) (drop (Suc i) X) = map snd (drop (Suc i) X)"
  proof (rule map_cong [OF refl])
    fix y assume "y \<in> set (drop (Suc i) X)"
    then obtain p where p: "y = X ! p" "i < p" "p < length (leaf_keys L)" using n by (auto simp: in_set_conv_nth)
    have "extent_end leaf L i \<le> leaf_keys L ! p" by (rule disjoint_end_le [OF rep dis p(2,3)])
    then have "c - fst y = 0" using end_i nth_leaf_extents [OF rep p(3)] p(1) by (simp add: X_def extent_end_def key_def x_def)
    then show "(case y of (i, b, n) \<Rightarrow> (b + (c - i), n - (c - i))) = snd y" by (cases y) simp
  qed
  have "drop i X = X ! i # drop (Suc i) X" using i n by (simp add: Cons_nth_drop_Suc)
  then show "cut_blocks c X = (extent_block x + (c - key), extent_count x - (c - key)) # map snd (drop (Suc i) X)"
    using split(1) rest by (simp add: cut_blocks_def xi)
qed

lemma dleaf_chop_whole:
  assumes rep: "dl_rep bs leaf L" and dis: "disjoint_extents leaf L" and at: "probe_at leaf L c i"
    and i: "i < length (leaf_keys L)" and pos: "walk_pos L w i" and probe: "dwalk_probe leaf c walk = Some (True, w)"
    and key: "c \<le> leaf_keys L ! i"
  obtains leaf' L' where
    "\<And>s. dleaf_chop bf bs c leaf walk s
      = (case free_all bf (cut_blocks c (leaf_extents leaf L)) s of None \<Rightarrow> None | Some s \<Rightarrow> Some (True, leaf', s))"
    "dl_rep bs leaf' L'" "leaf_extents leaf' L' = keep_below c (leaf_extents leaf L)"
proof -
  let ?X = "leaf_extents leaf L"
  note k = keep_cut_at [OF rep dis at i]
  have n: "length ?X = length (leaf_keys L)" by (rule length_leaf_extents [OF rep])
  have cut: "cut_blocks c ?X = map snd (drop i ?X)"
    using k(2) key i n nth_leaf_extents [OF rep i] by (simp add: Cons_nth_drop_Suc [symmetric])
  have keep: "keep_below c ?X = take i ?X" using k(1) key by simp
  obtain leaf' L' where f: "\<And>s. do { s \<leftarrow> chop_free bf leaf (length (dl_table leaf)) w s;
      (leaf, _) \<leftarrow> dwalk_chop bs leaf w; Some (leaf, s) }
      = (case free_all bf (map snd (drop i ?X)) s of None \<Rightarrow> None | Some s \<Rightarrow> Some (leaf', s))"
    "dl_rep bs leaf' L'" "leaf_extents leaf' L' = take i ?X" using free_and_chop [OF rep pos i, of bf] by metis
  show ?thesis
  proof (rule that [OF _ f(2)])
    show "leaf_extents leaf' L' = keep_below c ?X" by (simp add: f(3) keep)
    fix s
    have "\<not> dwalk_index leaf w < c" using walk_index [OF rep pos i] key by simp
    then have "dleaf_chop bf bs c leaf walk s =
        do { (leaf, s) \<leftarrow> do { s \<leftarrow> chop_free bf leaf (length (dl_table leaf)) w s;
               (leaf, _) \<leftarrow> dwalk_chop bs leaf w; Some (leaf, s) };
             assert_check leaf bs; Some (True, leaf, s) }"
      using probe by (simp add: dleaf_chop_def)
    then show "dleaf_chop bf bs c leaf walk s
        = (case free_all bf (cut_blocks c ?X) s of None \<Rightarrow> None | Some s \<Rightarrow> Some (True, leaf', s))"
      unfolding f(1) cut using assert_check_rep [OF f(2)] by (simp split: option.split)
  qed
qed

lemma dleaf_chop_partial:
  assumes rep: "dl_rep bs leaf L" and dis: "disjoint_extents leaf L" and at: "probe_at leaf L c i"
    and i: "i < length (leaf_keys L)" and pos: "walk_pos L w i" and probe: "dwalk_probe leaf c walk = Some (True, w)"
    and key: "leaf_keys L ! i < c"
  obtains leaf' L' where
    "\<And>s. dleaf_chop bf bs c leaf walk s
      = (case free_all bf (cut_blocks c (leaf_extents leaf L)) s of None \<Rightarrow> None | Some s \<Rightarrow> Some (True, leaf', s))"
    "dl_rep bs leaf' L'" "leaf_extents leaf' L' = keep_below c (leaf_extents leaf L)"
proof -
  let ?X = "leaf_extents leaf L" and ?x = "dl_table leaf ! i" and ?d = "c - leaf_keys L ! i"
  note k = keep_cut_at [OF rep dis at i]
  have n: "length ?X = length (leaf_keys L)" by (rule length_leaf_extents [OF rep])
  have d: "?d < extent_count ?x" "extent_count ?x \<le> 64" "0 < ?d" using k(3) key extent_bounds by auto
  then have d64: "?d \<le> 64" by simp
  have w32: "wrap32 ?d = ?d" "sub32 (extent_count ?x) ?d = extent_count ?x - ?d" using d d64 by (simp_all add: wrap_simps)
  obtain y where y: "make_extent (extent_block ?x) ?d = Some y" "extent_block y = extent_block ?x" "extent_count y = ?d"
    by (rule make_extent_fields [of "extent_block ?x" ?d]) (use d(3) d64 extent_bounds in simp_all)
  have "extent_block ?x \<noteq> 0" using dl_repD(6,7) [OF rep] i by simp
  then have ne: "extent_block y \<noteq> 0" using y(2) by simp
  define leaf1 where "leaf1 = dwalk_update leaf w y"
  note u = dwalk_update_rep [OF rep pos i ne, folded leaf1_def]
  obtain w1 where w1: "dwalk_next leaf1 w = Some (Suc i < length (leaf_keys L), w1)" "walk_pos L w1 (Suc i)"
    by (rule dwalk_next_pos [OF u(1) pos i])
  have keep: "keep_below c ?X = take (Suc i) (leaf_extents leaf1 L)"
    using k(1) key i n y(2,3) by (simp add: u(2) take_Suc_conv_app_nth)
  have rest: "drop (Suc i) (leaf_extents leaf1 L) = drop (Suc i) ?X" by (simp add: u(2))
  have idx: "dwalk_index leaf w = leaf_keys L ! i" "dwalk_block leaf w = extent_block ?x" "dwalk_count leaf w = extent_count ?x"
    using walk_index [OF rep pos i] walk_pos_extent [OF pos] by (simp_all add: dwalk_block_def dwalk_count_def)
  have eq: "dleaf_chop bf bs c leaf walk s = do {
      (_, s) \<leftarrow> bf (extent_block ?x + ?d) (extent_count ?x - ?d) s;
      (leaf, s) \<leftarrow> (if Suc i < length (leaf_keys L) then do { s \<leftarrow> chop_free bf leaf1 (length (dl_table leaf1)) w1 s;
            (leaf, _) \<leftarrow> dwalk_chop bs leaf1 w1; Some (leaf, s) } else Some (leaf1, s));
      assert_check leaf bs; Some (True, leaf, s) }" for s
    using probe key y(1) w1(1) by (simp add: dleaf_chop_def idx w32 Let_def leaf1_def split: bind_split)
  show ?thesis
  proof (cases "Suc i < length (leaf_keys L)")
    case True
    obtain leaf' L' where f: "\<And>s. do { s \<leftarrow> chop_free bf leaf1 (length (dl_table leaf1)) w1 s;
        (leaf, _) \<leftarrow> dwalk_chop bs leaf1 w1; Some (leaf, s) }
        = (case free_all bf (map snd (drop (Suc i) (leaf_extents leaf1 L))) s of None \<Rightarrow> None | Some s \<Rightarrow> Some (leaf', s))"
      "dl_rep bs leaf' L'" "leaf_extents leaf' L' = take (Suc i) (leaf_extents leaf1 L)"
      using free_and_chop [OF u(1) w1(2) True, of bf] by metis
    show ?thesis
      by (rule that [OF _ f(2)])
        (use True keep assert_check_rep [OF f(2)] in \<open>simp_all add: eq f(1,3) k(2) rest split: bind_split option.split\<close>)
  next
    case False
    then have "drop (Suc i) ?X = []" "take (Suc i) (leaf_extents leaf1 L) = leaf_extents leaf1 L"
      using n length_leaf_extents [OF u(1)] by simp_all
    then show ?thesis
      by (intro that [of leaf1 L]) (use False keep assert_check_rep [OF u(1)] u(1) in \<open>auto simp: eq k(2) split: bind_split\<close>)
  qed
qed

end
