(* ===== verification/Tux_Dfile.thy ===== *)
theory Tux_Dfile
  imports Tux_Dchop
begin

text \<open>
  The properties of the file index leaf. The states that its users can bring a leaf and a walk
  to are an inductive relation, \<open>dl_reach\<close>; its rules carry what the callers of
  \<open>kernel/filemap.c\<close> have to see to, and nothing that such a run calls fails an assertion.
\<close>

section \<open>A leaf for the witnesses\<close>

definition demo_groups :: "grp list" where
  "demo_groups = [(0, [5, 10]), (1, [1])]"

definition demo_dleaf :: dleaf where
  "demo_dleaf = \<lparr>dl_magic = TUX3_MAGIC_DLEAF, dl_groups = 2, dl_free = 32, dl_used = 236,
     dl_table = [0x2000000000064, 0x10000000000c8, 0x300000000012c],
     dl_dict = [0x2000000, 0x1000001, 0x1000005, 0x200000a, 0x1000001]\<rparr>"

definition demo_walk :: dwalk where
  "demo_walk = \<lparr>w_group = 0, w_gstop = 0, w_entry = 0, w_estop = 0, w_exbase = 0, w_extent = 0, w_exstop = 0,
     mock_group = 0, mock_entry = 0, mock_used = 0, mock_free = 0, mock_groups = 0\<rparr>"

lemma demo_extents:
  "map (\<lambda>x. (extent_block x, extent_count x)) (dl_table demo_dleaf) = [(100, 3), (200, 2), (300, 4)]"
  by code_simp

lemma demo_dl_rep: "dl_rep 256 demo_dleaf demo_groups"
proof -
  have "group_words demo_groups @ entry_words demo_groups = dl_dict demo_dleaf" by code_simp
  moreover have "\<forall>x\<in>set (dl_table demo_dleaf). extent_block x \<noteq> 0" by code_simp
  ultimately show ?thesis
    by (simp add: dl_rep_def demo_groups_def demo_dleaf_def group_ok_def MAX_GROUP_ENTRIES_def DLEAF_SIZE_def)
qed

lemma demo_leaf_extents: "leaf_extents demo_dleaf demo_groups = [(5, 100, 3), (10, 200, 2), (16777217, 300, 4)]"
  by (simp add: leaf_extents_def demo_extents) (simp add: demo_groups_def)

lemma demo_disjoint: "disjoint_extents demo_dleaf demo_groups" and demo_within: "extents_within demo_dleaf demo_groups"
proof -
  have keys: "leaf_keys demo_groups = [5, 10, 16777217]" by (simp add: demo_groups_def)
  have c: "extent_count (dl_table demo_dleaf ! 0) = 3" "extent_count (dl_table demo_dleaf ! 1) = 2"
    "extent_count (dl_table demo_dleaf ! Suc (Suc 0)) = 4" by code_simp+
  show "extents_within demo_dleaf demo_groups"
    unfolding extents_within_def keys using c by (simp add: All_less_Suc numeral_3_eq_3)
  show "disjoint_extents demo_dleaf demo_groups"
    unfolding disjoint_extents_def extent_end_def keys using c by (auto simp: less_Suc_eq)
qed

lemma demo_first: "walk_pos demo_groups (snd (the (dwalk_probe demo_dleaf 0 demo_walk))) 0"
proof -
  obtain i w where p: "dwalk_probe demo_dleaf 0 demo_walk = Some (i < length (leaf_keys demo_groups), w)"
    "walk_pos demo_groups w i" "probe_at demo_dleaf demo_groups 0 i"
    by (rule dwalk_probe_rep [OF demo_dl_rep demo_disjoint demo_within, of 0]) simp
  have "\<not> 0 < i"
  proof
    assume "0 < i"
    then have "extent_end demo_dleaf demo_groups 0 \<le> 0" using p(3) by (simp add: probe_at_def below_key_def)
    then show False using extent_count_pos [of "dl_table demo_dleaf ! 0"] by (simp add: extent_end_def)
  qed
  then show ?thesis using p by simp
qed

section \<open>Probing\<close>

lemma find_filter: "find (\<lambda>x. P x \<and> Q x) xs = find P (filter Q xs)"
  by (induction xs) auto

lemma map_block_probe:
  assumes rep: "dl_rep bs leaf L" and dis: "disjoint_extents leaf L" and at: "probe_at leaf L key i"
  shows "map_block (leaf_extents leaf L) key =
    (if i < length (leaf_keys L) \<and> leaf_keys L ! i \<le> key
     then Some (extent_block (dl_table leaf ! i) + (key - leaf_keys L ! i)) else None)"
proof -
  let ?X = "leaf_extents leaf L"
  have n: "length ?X = length (leaf_keys L)" by (rule length_leaf_extents [OF rep])
  have "find (\<lambda>(k, b, n). k \<le> key \<and> key < k + n) ?X = find (\<lambda>(k, b, n). k \<le> key) (drop i ?X)"
    using find_filter [of "\<lambda>(k, b, n). k \<le> key" "\<lambda>(k, b, n). key < k + n" ?X] probe_split(1) [OF rep dis at]
    by (simp add: split_def)
  moreover have "find (\<lambda>(k, b, n). k \<le> key) (drop i ?X) = (if i < length (leaf_keys L) \<and> leaf_keys L ! i \<le> key then Some (?X ! i) else None)"
  proof (cases "i < length (leaf_keys L)")
    case True
    then have d: "drop i ?X = ?X ! i # drop (Suc i) ?X" using n by (simp add: Cons_nth_drop_Suc)
    have "find (\<lambda>(k, b, n). k \<le> key) (drop (Suc i) ?X) = None" if "\<not> leaf_keys L ! i \<le> key"
    proof -
      have "\<not> leaf_keys L ! p \<le> key" if "i < p" "p < length (leaf_keys L)" for p
        using rep_keys_less [OF rep that] \<open>\<not> leaf_keys L ! i \<le> key\<close> by simp
      then show ?thesis using n by (fastforce simp: find_None_iff in_set_conv_nth nth_leaf_extents [OF rep])
    qed
    then show ?thesis using d True nth_leaf_extents [OF rep True] by simp
  next
    case False
    then show ?thesis using n by simp
  qed
  ultimately show ?thesis by (simp add: map_block_def nth_leaf_extents [OF rep])
qed

text \<open>C9. A probe at a key stops at the first extent that ends behind the key: the extents before the
  position it returns end at the key or below, and the extent at the position, if there is one,
  covers the key or begins behind it. So the walk tells whether the leaf maps the key, and
  where. The extents must not overlap, and none may reach over a multiple of \<open>2 ^ 24\<close>.\<close>

theorem dwalk_probe_correct:
  assumes "dl_rep bs leaf L" "disjoint_extents leaf L" "extents_within leaf L" "key < 2 ^ 56"
  shows "\<exists>i walk'. dwalk_probe leaf key walk = Some (i < length (leaf_keys L), walk')
    \<and> walk_pos L walk' i \<and> probe_at leaf L key i
    \<and> map_block (leaf_extents leaf L) key =
        (if i < length (leaf_keys L) \<and> dwalk_index leaf walk' \<le> key
         then Some (dwalk_block leaf walk' + (key - dwalk_index leaf walk')) else None)"
proof -
  obtain i w where p: "dwalk_probe leaf key walk = Some (i < length (leaf_keys L), w)" "walk_pos L w i"
    "probe_at leaf L key i" by (rule dwalk_probe_rep [OF assms])
  have "map_block (leaf_extents leaf L) key =
      (if i < length (leaf_keys L) \<and> dwalk_index leaf w \<le> key
       then Some (dwalk_block leaf w + (key - dwalk_index leaf w)) else None)"
    using map_block_probe [OF assms(1,2) p(3)] walk_index [OF assms(1) p(2)] walk_pos_extent [OF p(2)]
    by (simp add: dwalk_block_def)
  then show ?thesis using p by blast
qed

lemma less_eleven: "(11 :: nat) < 2 ^ 56"
  by simp

theorem dwalk_probe_correct_witness:
  "\<exists>w. dwalk_probe demo_dleaf 11 demo_walk = Some (True, w) \<and> dwalk_block demo_dleaf w + (11 - dwalk_index demo_dleaf w) = 201"
proof -
  obtain i w where p: "dwalk_probe demo_dleaf 11 demo_walk = Some (i < length (leaf_keys demo_groups), w)"
    "map_block (leaf_extents demo_dleaf demo_groups) 11 =
        (if i < length (leaf_keys demo_groups) \<and> dwalk_index demo_dleaf w \<le> 11
         then Some (dwalk_block demo_dleaf w + (11 - dwalk_index demo_dleaf w)) else None)"
    using dwalk_probe_correct [OF demo_dl_rep demo_disjoint demo_within, of 11 demo_walk, OF less_eleven] by blast
  then show ?thesis by (auto simp: demo_leaf_extents map_block_def split: if_splits)
qed

definition crossing_groups :: "grp list" where
  "crossing_groups = [(0, [2 ^ 24 - 1])]"

definition crossing_leaf :: dleaf where
  "crossing_leaf = \<lparr>dl_magic = TUX3_MAGIC_DLEAF, dl_groups = 1, dl_free = 16, dl_used = 248,
     dl_table = [0x1000000000064], dl_dict = group_words crossing_groups @ entry_words crossing_groups\<rparr>"


section \<open>The states of a leaf and a walk\<close>

definition apart :: "(nat \<times> nat \<times> nat) list \<Rightarrow> bool" where
  "apart X \<longleftrightarrow> (\<forall>p. Suc p < length X \<longrightarrow> fst (X ! p) + snd (snd (X ! p)) \<le> fst (X ! Suc p))
     \<and> (\<forall>(k, b, n)\<in>set X. k mod 2 ^ 24 + n \<le> 2 ^ 24)"

lemma apart_extents:
  assumes "dl_rep bs leaf L"
  shows "apart (leaf_extents leaf L) \<longleftrightarrow> disjoint_extents leaf L \<and> extents_within leaf L"
proof -
  note n = length_leaf_extents [OF assms] and x = nth_leaf_extents [OF assms]
  have "(\<forall>p. Suc p < length (leaf_extents leaf L) \<longrightarrow>
      fst (leaf_extents leaf L ! p) + snd (snd (leaf_extents leaf L ! p)) \<le> fst (leaf_extents leaf L ! Suc p))
      \<longleftrightarrow> disjoint_extents leaf L"
    by (simp add: disjoint_extents_def extent_end_def n x)
  moreover have "(\<forall>(k, b, m)\<in>set (leaf_extents leaf L). k mod 2 ^ 24 + m \<le> 2 ^ 24) \<longleftrightarrow> extents_within leaf L"
    by (simp add: extents_within_def all_set_conv_all_nth n x)
  ultimately show ?thesis by (simp only: apart_def)
qed

lemma apart_take: "apart X \<Longrightarrow> apart (take i X)"
  by (auto simp: apart_def dest: in_set_takeD)

lemma apart_snoc:
  assumes "apart X" "X \<noteq> [] \<Longrightarrow> fst (last X) + snd (snd (last X)) \<le> k" "k mod 2 ^ 24 + n \<le> 2 ^ 24"
  shows "apart (X @ [(k, b, n)])"
proof -
  have "fst ((X @ [(k, b, n)]) ! p) + snd (snd ((X @ [(k, b, n)]) ! p)) \<le> fst ((X @ [(k, b, n)]) ! Suc p)"
    if "Suc p < length (X @ [(k, b, n)])" for p
  proof (cases "Suc p < length X")
    case False
    then have "p = length X - 1" "X \<noteq> []" using that by auto
    then show ?thesis using assms(2) by (simp add: nth_append last_conv_nth)
  qed (use assms(1) in \<open>simp add: apart_def nth_append\<close>)
  then show ?thesis using assms(1,3) by (auto simp: apart_def)
qed

datatype phase = Walking | Adding

text \<open>The first key behind the last extent, as the walk that adds sees it.\<close>

definition last_end :: "dleaf \<Rightarrow> dwalk \<Rightarrow> nat" where
  "last_end leaf walk = (if dleaf_groups leaf = 0 then 0 else dwalk_index leaf walk + extent_count (last (dl_table leaf)))"

definition can_add :: "phase \<Rightarrow> dleaf \<Rightarrow> dwalk \<Rightarrow> nat \<Rightarrow> nat \<Rightarrow> nat \<Rightarrow> bool" where
  "can_add m leaf walk index block count \<longleftrightarrow>
     (m = Walking \<longrightarrow> dwalk_end walk) \<and> 0 < block \<and> block < 2 ^ 48 \<and> 0 < count \<and> count \<le> 64
     \<and> index < 2 ^ 48 \<and> last_end leaf walk \<le> index \<and> index mod 2 ^ 24 + count \<le> 2 ^ 24
     \<and> 16 \<le> dleaf_free leaf"

inductive dl_reach :: "nat \<Rightarrow> phase \<Rightarrow> dleaf \<Rightarrow> dwalk \<Rightarrow> bool" for bs where
  init: "bs < 2 ^ 16 \<Longrightarrow> DLEAF_SIZE \<le> bs \<Longrightarrow> dwalk_probe (dleaf_init bs) key w = Some (r, w') \<Longrightarrow> key < 2 ^ 56 \<Longrightarrow>
    dl_reach bs Walking (dleaf_init bs) w'"
| probe: "dl_reach bs m leaf w \<Longrightarrow> key < 2 ^ 56 \<Longrightarrow> dwalk_probe leaf key w = Some (r, w') \<Longrightarrow> dl_reach bs Walking leaf w'"
| forward: "dl_reach bs Walking leaf w \<Longrightarrow> dwalk_next leaf w = Some (r, w') \<Longrightarrow> dl_reach bs Walking leaf w'"
| backward: "dl_reach bs Walking leaf w \<Longrightarrow> dwalk_back leaf w = Some (r, w') \<Longrightarrow> dl_reach bs Walking leaf w'"
| chop: "dl_reach bs Walking leaf w \<Longrightarrow> dwalk_chop bs leaf w = Some (leaf', w') \<Longrightarrow> dl_reach bs Walking leaf' w'"
| add: "dl_reach bs m leaf w \<Longrightarrow> can_add m leaf w index block count \<Longrightarrow> make_extent block count = Some x \<Longrightarrow>
    dwalk_add bs leaf w index x = Some (leaf', w') \<Longrightarrow> dl_reach bs Adding leaf' w'"

inductive_cases adding_states: "dl_reach bs Adding leaf w"

definition dl_inv :: "nat \<Rightarrow> phase \<Rightarrow> dleaf \<Rightarrow> dwalk \<Rightarrow> bool" where
  "dl_inv bs m leaf w \<longleftrightarrow> (\<exists>L. dl_rep bs leaf L \<and> apart (leaf_extents leaf L)
     \<and> (case m of Walking \<Rightarrow> \<exists>i. walk_pos L w i | Adding \<Rightarrow> walk_add L w))"

lemma dl_inv_probe:
  assumes rep: "dl_rep bs leaf L" and ap: "apart (leaf_extents leaf L)" and key: "key < 2 ^ 56"
  shows "\<exists>r w'. dwalk_probe leaf key w = Some (r, w') \<and> dl_inv bs Walking leaf w'"
proof -
  have d: "disjoint_extents leaf L" "extents_within leaf L" using ap apart_extents [OF rep] by simp_all
  obtain i w' where "dwalk_probe leaf key w = Some (i < length (leaf_keys L), w')" "walk_pos L w' i"
    by (rule dwalk_probe_rep [OF rep d key])
  then show ?thesis using rep ap by (auto simp: dl_inv_def)
qed

lemma dl_inv_next: "dl_inv bs Walking leaf w \<Longrightarrow> \<exists>r w'. dwalk_next leaf w = Some (r, w') \<and> dl_inv bs Walking leaf w'"
proof -
  assume "dl_inv bs Walking leaf w"
  then obtain L i where L: "dl_rep bs leaf L" "apart (leaf_extents leaf L)" "walk_pos L w i" by (auto simp: dl_inv_def)
  show ?thesis
  proof (cases "i < length (leaf_keys L)")
    case True
    from dwalk_next_pos [OF L(1,3) True] show ?thesis using L by (auto simp: dl_inv_def) metis
  next
    case False
    then have "dwalk_next leaf w = Some (False, w)"
      using dwalk_next_end [of L w leaf] L(3) walk_pos_extent [OF L(3)] by (simp add: le_less)
    then show ?thesis using L by (auto simp: dl_inv_def)
  qed
qed

lemma dl_inv_back: "dl_inv bs Walking leaf w \<Longrightarrow> \<exists>r w'. dwalk_back leaf w = Some (r, w') \<and> dl_inv bs Walking leaf w'"
proof -
  assume "dl_inv bs Walking leaf w"
  then obtain L i where L: "dl_rep bs leaf L" "apart (leaf_extents leaf L)" "walk_pos L w i" by (auto simp: dl_inv_def)
  show ?thesis
  proof (cases "0 < i")
    case True
    from dwalk_back_pos [OF L(1,3) True] show ?thesis using L by (auto simp: dl_inv_def) metis
  next
    case False
    then have "dwalk_back leaf w = Some (False, w)" using walk_pos_first [OF L(3)] by (simp add: dwalk_back_def)
    then show ?thesis using L by (auto simp: dl_inv_def)
  qed
qed

lemma dl_inv_chop:
  assumes "dl_inv bs Walking leaf w"
  shows "\<exists>leaf' w'. dwalk_chop bs leaf w = Some (leaf', w') \<and> dl_inv bs Walking leaf' w'"
proof -
  from assms obtain L i where L: "dl_rep bs leaf L" "apart (leaf_extents leaf L)" "walk_pos L w i" by (auto simp: dl_inv_def)
  obtain leaf' w' L' where c: "dwalk_chop bs leaf w = Some (leaf', w')" "dl_rep bs leaf' L'"
    "leaf_keys L' = take i (leaf_keys L)" "dl_table leaf' = take i (dl_table leaf)" "walk_end L' w'"
    by (rule dwalk_chop_rep [OF L(1,3)])
  have "leaf_extents leaf' L' = take i (leaf_extents leaf L)"
    using c(3,4) by (simp add: leaf_extents_def take_zip take_map)
  then show ?thesis using c(1,2) walk_endI [OF c(5)] apart_take [OF L(2)] by (auto simp: dl_inv_def)
qed

lemma walk_end_pos:
  assumes "walk_pos L w i" "dwalk_end w"
  shows "walk_end L w"
  using assms(1) by (cases rule: walk_pos_cases) (use assms(2) in \<open>auto simp: dwalk_end_def walk_at_def\<close>)

lemma rep_free: "dl_rep bs leaf L \<Longrightarrow> dleaf_free leaf = dl_used leaf - dl_free leaf"
  using dl_repD(8,9,10,11) [of bs leaf L] by (simp add: dleaf_free_def wrap_simps)

lemma last_extent:
  assumes rep: "dl_rep bs leaf L" and add: "walk_add L w"
  shows "last_end leaf w = (if leaf_extents leaf L = [] then 0
    else fst (last (leaf_extents leaf L)) + snd (snd (last (leaf_extents leaf L))))"
    "leaf_extents leaf L = [] \<longleftrightarrow> L = []"
    "k \<in> set (leaf_keys L) \<Longrightarrow> last_end leaf w \<le> index \<Longrightarrow> k < index"
proof -
  let ?X = "leaf_extents leaf L" and ?n = "length (leaf_keys L)"
  have n: "length ?X = ?n" "length (dl_table leaf) = ?n" using length_leaf_extents [OF rep] dl_repD(6) [OF rep] by simp_all
  show iff: "?X = [] \<longleftrightarrow> L = []" using walk_add_last(2) [OF rep add] n(1) by (cases "L = []") auto
  have end_n: "last_end leaf w = leaf_keys L ! (?n - 1) + extent_count (dl_table leaf ! (?n - 1))"
    "last ?X = (leaf_keys L ! (?n - 1), extent_block (dl_table leaf ! (?n - 1)), extent_count (dl_table leaf ! (?n - 1)))"
    if "L \<noteq> []"
  proof -
    note w = walk_add_last(1,2) [OF rep add that]
    then have "dl_table leaf \<noteq> []" "?X \<noteq> []" using n by auto
    then have l: "last (dl_table leaf) = dl_table leaf ! (?n - 1)" "last ?X = ?X ! (?n - 1)"
      using n by (simp_all add: last_conv_nth)
    show "last_end leaf w = leaf_keys L ! (?n - 1) + extent_count (dl_table leaf ! (?n - 1))"
      using w(1) that by (simp add: last_end_def dleaf_groups_def dl_repD(4) [OF rep] l(1))
    show "last ?X = (leaf_keys L ! (?n - 1), extent_block (dl_table leaf ! (?n - 1)), extent_count (dl_table leaf ! (?n - 1)))"
      using w(2) nth_leaf_extents [OF rep, of "?n - 1"] by (simp add: l(2))
  qed
  show "last_end leaf w = (if ?X = [] then 0 else fst (last ?X) + snd (snd (last ?X)))"
    using end_n iff by (cases "L = []") (simp_all add: last_end_def dleaf_groups_def dl_repD(4) [OF rep])
  show "k < index" if k: "k \<in> set (leaf_keys L)" and le: "last_end leaf w \<le> index"
  proof -
    obtain p where p: "p < ?n" "k = leaf_keys L ! p" using k by (auto simp: in_set_conv_nth)
    then have L: "L \<noteq> []" by auto
    have "k \<le> leaf_keys L ! (?n - 1)"
    proof (cases "p = ?n - 1")
      case False
      then have "p < ?n - 1" "?n - 1 < ?n" using p(1) by linarith+
      from rep_keys_less [OF rep this] show ?thesis using p(2) by simp
    qed (use p in simp)
    also have "\<dots> < index" using end_n(1) [OF L] le extent_count_pos [of "dl_table leaf ! (?n - 1)"] by simp
    finally show ?thesis .
  qed
qed

lemma dl_inv_add:
  assumes "dl_inv bs m leaf w" and can: "can_add m leaf w index block count"
  shows "\<exists>x leaf' w' L L'. make_extent block count = Some x \<and> dwalk_add bs leaf w index x = Some (leaf', w')
    \<and> dl_inv bs Adding leaf' w' \<and> dl_rep bs leaf L \<and> dl_rep bs leaf' L'
    \<and> leaf_extents leaf' L' = leaf_extents leaf L @ [(index, block, count)]"
proof -
  from assms obtain L where rep: "dl_rep bs leaf L" and ap: "apart (leaf_extents leaf L)" and add: "walk_add L w"
    by (cases m) (auto simp: dl_inv_def can_add_def intro: walk_end_add walk_end_pos)
  have b: "block < 2 ^ 48" "0 < count" "count \<le> 64" "0 < block" "index < 2 ^ 48" "index mod 2 ^ 24 + count \<le> 2 ^ 24"
    "last_end leaf w \<le> index" "dl_free leaf + 16 \<le> dl_used leaf"
    using can rep_free [OF rep] by (auto simp: can_add_def)
  obtain x where x: "make_extent block count = Some x" "extent_block x = block" "extent_count x = count"
    by (rule make_extent_fields [OF b(1-3)])
  note le = last_extent [OF rep add]
  obtain leaf' w' L' where a: "dwalk_add bs leaf w index x = Some (leaf', w')" "dl_rep bs leaf' L'"
    "leaf_keys L' = leaf_keys L @ [index]" "dl_table leaf' = dl_table leaf @ [x]" "walk_add L' w'"
    by (rule dwalk_add_rep [OF rep add _ b(5) _ b(8), of x]) (use le(3) b x in auto)
  have X: "leaf_extents leaf' L' = leaf_extents leaf L @ [(index, block, count)]"
    using a(3,4) x dl_repD(6) [OF rep] by (simp add: leaf_extents_def)
  moreover have "apart (leaf_extents leaf' L')"
    unfolding X by (rule apart_snoc [OF ap]) (use le(1) b in auto)
  ultimately show ?thesis using x(1) a rep by (auto simp: dl_inv_def)
qed

lemma dl_reach_inv: "dl_reach bs m leaf w \<Longrightarrow> dl_inv bs m leaf w"
proof (induction rule: dl_reach.induct)
  case (init key w r w')
  have "apart (leaf_extents (dleaf_init bs) [])" by (simp add: leaf_extents_def apart_def)
  from dl_inv_probe [OF dleaf_init_rep [OF init(1,2)] this init(4), of w] init(3) show ?case by auto
next
  case (probe m leaf w key r w')
  then obtain L where "dl_rep bs leaf L" "apart (leaf_extents leaf L)" by (auto simp: dl_inv_def)
  from dl_inv_probe [OF this probe(2), of w] probe(3) show ?case by auto
next
  case (forward leaf w r w')
  then show ?case using dl_inv_next by fastforce
next
  case (backward leaf w r w')
  then show ?case using dl_inv_back by fastforce
next
  case (chop leaf w leaf' w')
  then show ?case using dl_inv_chop by fastforce
next
  case (add m leaf w index block count x leaf' w')
  then show ?case using dl_inv_add [OF add.IH add.hyps(2)] by auto
qed

text \<open>C11. Every leaf that walks and additions can bring about, from an empty one, is well-formed:
  it has the magic number, \<open>dleaf_check\<close> accepts it, its extents do not overlap and none reaches
  over a multiple of \<open>2 ^ 24\<close>, and the header agrees with the tables.\<close>

theorem dleaf_stays_well_formed:
  assumes "dl_reach bs m leaf w"
  shows "dleaf_sniff leaf \<and> dleaf_check leaf bs = Some True
    \<and> (\<exists>L. dl_rep bs leaf L \<and> disjoint_extents leaf L \<and> extents_within leaf L)"
proof -
  from dl_reach_inv [OF assms] obtain L where L: "dl_rep bs leaf L" "apart (leaf_extents leaf L)" by (auto simp: dl_inv_def)
  then show ?thesis using dleaf_check_rep [OF L(1)] dl_repD(1) [OF L(1)] apart_extents [OF L(1)]
    by (auto simp: dleaf_sniff_def)
qed

text \<open>C10. And no step from such a state fails an assertion: the walk moves both ways, cuts the leaf and
  probes it again, and an extent that is admissible is added behind the last one.\<close>

theorem dleaf_never_asserts:
  assumes "dl_reach bs m leaf w"
  shows "(m = Walking \<longrightarrow> dwalk_next leaf w \<noteq> None \<and> dwalk_back leaf w \<noteq> None \<and> dwalk_chop bs leaf w \<noteq> None)
    \<and> (\<forall>key<2 ^ 56. dwalk_probe leaf key w \<noteq> None)
    \<and> (\<forall>index block count. can_add m leaf w index block count \<longrightarrow>
        (\<exists>x leaf' w' L L'. make_extent block count = Some x \<and> dwalk_add bs leaf w index x = Some (leaf', w')
          \<and> dl_rep bs leaf L \<and> dl_rep bs leaf' L'
          \<and> leaf_extents leaf' L' = leaf_extents leaf L @ [(index, block, count)]))"
proof -
  note inv = dl_reach_inv [OF assms]
  then obtain L where L: "dl_rep bs leaf L" "apart (leaf_extents leaf L)" by (auto simp: dl_inv_def)
  have "dwalk_next leaf w \<noteq> None \<and> dwalk_back leaf w \<noteq> None \<and> dwalk_chop bs leaf w \<noteq> None" if "m = Walking"
    using inv dl_inv_next [of bs leaf w] dl_inv_back [of bs leaf w] dl_inv_chop [of bs leaf w] that by auto
  moreover have "dwalk_probe leaf key w \<noteq> None" if "key < 2 ^ 56" for key
    using dl_inv_probe [OF L that, of w] by auto
  moreover note dl_inv_add [OF inv]
  ultimately show ?thesis by meson
qed

lemma demo_start:
  obtains w where "dl_reach 4096 Walking (dleaf_init 4096) w" "dwalk_end w" "dleaf_groups (dleaf_init 4096) = 0"
    "dleaf_free (dleaf_init 4096) = 4088"
proof -
  have "dl_rep 4096 (dleaf_init 4096) []" by (rule dleaf_init_rep) (simp_all add: DLEAF_SIZE_def)
  from probe_empty [OF this] obtain w where w: "dwalk_probe (dleaf_init 4096) 0 demo_walk = Some (False, w)" "walk_end [] w" .
  have "dl_reach 4096 Walking (dleaf_init 4096) w"
    by (rule dl_reach.init [OF _ _ w(1)]) (simp_all add: DLEAF_SIZE_def)
  moreover have "dwalk_end w" using w(2) by (simp add: dwalk_end_def walk_end_def)
  moreover have "dleaf_groups (dleaf_init 4096) = 0" "dleaf_free (dleaf_init 4096) = 4088"
    by (simp_all add: dleaf_groups_def dleaf_init_def dleaf_free_def wrap16_id DLEAF_SIZE_def wrap_simps)
  ultimately show thesis by (rule that)
qed

lemma demo_can_add:
  "dwalk_end w \<Longrightarrow> dleaf_groups leaf = 0 \<Longrightarrow> dleaf_free leaf = 4088 \<Longrightarrow> can_add Walking leaf w 5 100 3"
  by (simp add: can_add_def last_end_def)

theorem dleaf_stays_well_formed_witness:
  "\<exists>leaf w. dl_reach 4096 Adding leaf w \<and> dleaf_sniff leaf \<and> dleaf_check leaf 4096 = Some True"
proof -
  obtain w where w: "dl_reach 4096 Walking (dleaf_init 4096) w" "dwalk_end w" "dleaf_groups (dleaf_init 4096) = 0"
    "dleaf_free (dleaf_init 4096) = 4088" by (rule demo_start)
  note can = demo_can_add [OF w(2-4)]
  obtain x leaf' w' where "make_extent 100 3 = Some x" "dwalk_add 4096 (dleaf_init 4096) w 5 x = Some (leaf', w')"
    using dl_inv_add [OF dl_reach_inv [OF w(1)] can] by auto
  then have "dl_reach 4096 Adding leaf' w'" by (rule dl_reach.add [OF w(1) can])
  from dleaf_stays_well_formed [OF this] this show ?thesis by auto
qed

theorem dleaf_never_asserts_witness:
  "\<exists>w x leaf' w'. dwalk_chop 4096 (dleaf_init 4096) w \<noteq> None \<and> make_extent 100 3 = Some x
    \<and> dwalk_add 4096 (dleaf_init 4096) w 5 x = Some (leaf', w')"
proof -
  obtain w where w: "dl_reach 4096 Walking (dleaf_init 4096) w" "dwalk_end w" "dleaf_groups (dleaf_init 4096) = 0"
    "dleaf_free (dleaf_init 4096) = 4088" by (rule demo_start)
  from dleaf_never_asserts [OF w(1)] demo_can_add [OF w(2-4)] show ?thesis by blast
qed

section \<open>Cutting a leaf in two and putting it together\<close>

text \<open>C12. What \<open>map_region\<close> does around a region: the extents from the walk on are copied to a tail and
  cut off the leaf; both are leaves, which split what the leaf held at the walk; and when the
  tail fits, merging it back gives the extents the leaf had.\<close>

theorem dleaf_cut_and_merge:
  assumes "dl_rep bs leaf L" "walk_pos L walk i"
  shows "\<exists>tail leaf' walk' L1 L2. dwalk_copy bs leaf walk (dleaf_init bs) = Some tail
    \<and> dwalk_chop bs leaf walk = Some (leaf', walk') \<and> dwalk_end walk'
    \<and> dl_rep bs leaf' L1 \<and> dl_rep bs tail L2
    \<and> leaf_extents leaf' L1 = take i (leaf_extents leaf L) \<and> leaf_extents tail L2 = drop i (leaf_extents leaf L)
    \<and> (dleaf_need bs tail \<le> dleaf_free leaf' \<longrightarrow>
        (\<exists>merged L3. dleaf_merge bs leaf' tail = Some merged \<and> dl_rep bs merged L3
          \<and> leaf_extents merged L3 = leaf_extents leaf L))"
proof -
  have init: "dl_rep bs (dleaf_init bs) []"
    by (rule dleaf_init_rep) (use dl_repD(10,11) [OF assms(1)] in simp_all)
  obtain tail L2 where c: "dwalk_copy bs leaf walk (dleaf_init bs) = Some tail" "dl_rep bs tail L2"
    "leaf_keys L2 = drop i (leaf_keys L)" "dl_table tail = drop i (dl_table leaf)" by (rule dwalk_copy_rep [OF assms init])
  obtain leaf' walk' L1 where h: "dwalk_chop bs leaf walk = Some (leaf', walk')" "dl_rep bs leaf' L1"
    "leaf_keys L1 = take i (leaf_keys L)" "dl_table leaf' = take i (dl_table leaf)" "walk_end L1 walk'"
    by (rule dwalk_chop_rep [OF assms])
  have "\<exists>merged L3. dleaf_merge bs leaf' tail = Some merged \<and> dl_rep bs merged L3
      \<and> leaf_extents merged L3 = leaf_extents leaf L" if room: "dleaf_need bs tail \<le> dleaf_free leaf'"
  proof -
    have sorted: "\<forall>k\<in>set (leaf_keys L1). \<forall>k2\<in>set (leaf_keys L2). k < k2"
      using dl_repD(3) [OF assms(1)] sorted_wrt_append [of "(<)" "take i (leaf_keys L)" "drop i (leaf_keys L)"]
      by (simp add: c(3) h(3))
    obtain merged L3 where "dleaf_merge bs leaf' tail = Some merged" "dl_rep bs merged L3"
      "leaf_keys L3 = leaf_keys L1 @ leaf_keys L2" "dl_table merged = dl_table leaf' @ dl_table tail"
      by (rule dleaf_merge_rep [OF h(2) c(2) sorted room])
    then show ?thesis by (auto simp: leaf_extents_def c(3,4) h(3,4))
  qed
  moreover have "leaf_extents leaf' L1 = take i (leaf_extents leaf L)" "leaf_extents tail L2 = drop i (leaf_extents leaf L)"
    by (simp_all add: leaf_extents_def c(3,4) h(3,4) take_zip drop_zip take_map drop_map)
  moreover have "dwalk_end walk'" using h(5) by (simp add: dwalk_end_def walk_end_def)
  ultimately show ?thesis using c(1,2) h(1,2) by blast
qed

theorem dleaf_cut_and_merge_witness:
  "\<exists>tail leaf' walk'. dwalk_copy 256 demo_dleaf (snd (the (dwalk_probe demo_dleaf 0 demo_walk))) (dleaf_init 256) = Some tail
    \<and> dwalk_chop 256 demo_dleaf (snd (the (dwalk_probe demo_dleaf 0 demo_walk))) = Some (leaf', walk') \<and> dwalk_end walk'"
  using dleaf_cut_and_merge [OF demo_dl_rep demo_first] by blast

section \<open>Splitting\<close>

text \<open>C39. \<open>dleaf_split\<close> cuts a leaf of at least two extents in front of extent \<open>entries / 2 - 1\<close> and
  returns its key; the left leaf is empty when there are two or three extents.\<close>

theorem dleaf_split_correct:
  assumes "dl_rep bs leaf L" "2 \<le> length (leaf_keys L)"
  shows "\<exists>left right L1 L2. dleaf_split bs key leaf (dleaf_init bs)
      = Some (fst (leaf_extents leaf L ! (length (leaf_keys L) div 2 - 1)), left, right)
    \<and> dl_rep bs left L1 \<and> leaf_extents left L1 = take (length (leaf_keys L) div 2 - 1) (leaf_extents leaf L)
    \<and> dl_rep bs right L2 \<and> leaf_extents right L2 = drop (length (leaf_keys L) div 2 - 1) (leaf_extents leaf L)
    \<and> (leaf_extents left L1 = [] \<longleftrightarrow> length (leaf_keys L) < 4)"
proof -
  let ?s = "length (leaf_keys L) div 2 - 1"
  have init: "dl_rep bs (dleaf_init bs) []"
    by (rule dleaf_init_rep) (use dl_repD(10,11) [OF assms(1)] in simp_all)
  obtain left right L1 L2 where s: "dleaf_split bs key leaf (dleaf_init bs) = Some (leaf_keys L ! ?s, left, right)"
    "dl_rep bs left L1" "leaf_keys L1 = take ?s (leaf_keys L)" "dl_table left = take ?s (dl_table leaf)"
    "dl_rep bs right L2" "leaf_keys L2 = drop ?s (leaf_keys L)" "dl_table right = drop ?s (dl_table leaf)"
    by (rule dleaf_split_rep [OF assms(1) init assms(2)])
  have n: "?s < length (leaf_keys L)" using assms(2) by simp
  have left: "leaf_extents left L1 = take ?s (leaf_extents leaf L)" "leaf_extents right L2 = drop ?s (leaf_extents leaf L)"
    by (simp_all add: leaf_extents_def s(3,4,6,7) take_zip drop_zip take_map drop_map)
  moreover have "leaf_extents left L1 = [] \<longleftrightarrow> length (leaf_keys L) < 4"
    using left(1) length_leaf_extents [OF assms(1)] n assms(2) by (auto simp: take_eq_Nil)
  ultimately show ?thesis using s(1,2,5) nth_leaf_extents [OF assms(1) n] by (metis fst_conv)
qed

theorem dleaf_split_correct_witness:
  "\<exists>left right L1. dleaf_split 256 0 demo_dleaf (dleaf_init 256) = Some (5, left, right)
    \<and> dl_rep 256 left L1 \<and> leaf_extents left L1 = []"
proof -
  have "2 \<le> length (leaf_keys demo_groups)" "length (leaf_keys demo_groups) = 3" by (simp_all add: demo_groups_def)
  then show ?thesis using dleaf_split_correct [OF demo_dl_rep, of 0] by (auto simp: demo_leaf_extents)
qed

section \<open>Truncation\<close>

text \<open>C8. Truncating a leaf at a key keeps what lies below the key, shortens the extent the key lies
  in, and frees exactly the blocks behind it, one call to an extent in order. The result maps a
  block below the key as before and none from the key on; the errors of the calls are dropped.\<close>

theorem dleaf_chop_correct:
  assumes "dl_rep bs leaf L" "disjoint_extents leaf L" "extents_within leaf L" "chop < 2 ^ 56"
  shows "\<exists>leaf' L'. dl_rep bs leaf' L' \<and> leaf_extents leaf' L' = keep_below chop (leaf_extents leaf L)
    \<and> (\<forall>k. map_block (leaf_extents leaf' L') k = (if k < chop then map_block (leaf_extents leaf L) k else None))
    \<and> (\<forall>s. dleaf_chop bf bs chop leaf walk s =
        (case free_all bf (cut_blocks chop (leaf_extents leaf L)) s of
           None \<Rightarrow> None
         | Some s \<Rightarrow> Some (cut_blocks chop (leaf_extents leaf L) \<noteq> [], leaf', s)))"
proof -
  obtain i w where p: "dwalk_probe leaf chop walk = Some (i < length (leaf_keys L), w)" "walk_pos L w i"
    "probe_at leaf L chop i" by (rule dwalk_probe_rep [OF assms])
  show ?thesis
  proof (cases "i < length (leaf_keys L)")
    case False
    then have i: "i = length (leaf_keys L)" using p(3) by (simp add: probe_at_def)
    have "dwalk_probe leaf chop walk = Some (False, w)" using p(1) i by simp
    note past = dleaf_chop_past [OF assms(1,2) p(3) [unfolded i] this]
    show ?thesis
      using assms(1) map_block_keep [of chop "leaf_extents leaf L"]
      by (intro exI [of _ leaf] exI [of _ L]) (simp add: past)
  next
    case True
    then have probe: "dwalk_probe leaf chop walk = Some (True, w)" using p(1) by simp
    have ne: "cut_blocks chop (leaf_extents leaf L) \<noteq> []"
      using keep_cut_at(2) [OF assms(1,2) p(3) True] by simp
    obtain leaf' L' where c: "\<And>s. dleaf_chop bf bs chop leaf walk s
        = (case free_all bf (cut_blocks chop (leaf_extents leaf L)) s of None \<Rightarrow> None | Some s \<Rightarrow> Some (True, leaf', s))"
      "dl_rep bs leaf' L'" "leaf_extents leaf' L' = keep_below chop (leaf_extents leaf L)"
      using dleaf_chop_whole [OF assms(1,2) p(3) True p(2) probe, of bf]
        dleaf_chop_partial [OF assms(1,2) p(3) True p(2) probe, of bf] by (metis not_less)
    then show ?thesis using ne map_block_keep [of chop "leaf_extents leaf L"]
      by (intro exI [of _ leaf'] exI [of _ L']) (auto split: option.split)
  qed
qed

theorem dleaf_chop_correct_witness:
  "\<exists>leaf'. dleaf_chop (\<lambda>b n s. Some (Inr (), s @ [(b, n)])) 256 11 demo_dleaf demo_walk []
    = Some (True, leaf', [(201, 1), (300, 4)])"
proof -
  have "cut_blocks 11 (leaf_extents demo_dleaf demo_groups) = [(201, 1), (300, 4)]"
    by (simp add: demo_leaf_extents cut_blocks_def)
  then show ?thesis
    using dleaf_chop_correct [OF demo_dl_rep demo_disjoint demo_within less_eleven,
        of "\<lambda>b n s. Some (Inr (), s @ [(b, n)])" demo_walk] by auto
qed

end
