(* ===== verification/Tux_Filemap.thy ===== *)
theory Tux_Filemap
  imports Tux_Dfile Tux_Insert
begin

text \<open>
  Mapping file regions to blocks, \<open>map_region\<close> of \<open>kernel/filemap.c\<close>, on the B-tree of a file
  whose leaves are file index leaves. The code keeps the pointer to its leaf over
  \<open>cursor_redirect\<close>; here that pointer is \<open>leafbuf\<close>, the block that the leaf was read from.
  \<open>is_bitmap\<close> says that the file is the bitmap, whose blocks are freed on the next rollup. The
  lock, and the note of the task that it writes the bitmap, which is part of the locking, are
  left out, and memory allocation does not fail. A failed assertion is \<open>None\<close>.
\<close>

section \<open>Operations of the tree\<close>

definition no_walk :: dwalk where
  "no_walk = \<lparr>w_group = 0, w_gstop = 0, w_entry = 0, w_estop = 0, w_exbase = 0, w_extent = 0, w_exstop = 0,
     mock_group = 0, mock_entry = 0, mock_used = 0, mock_free = 0, mock_groups = 0\<rparr>"

text \<open>\<open>leaf_resize\<close> is not set. The truncation of a leaf lists what it frees.\<close>

definition dtree_ops :: "nat \<Rightarrow> dleaf btree_ops" where
  "dtree_ops bs = \<lparr>leaf_sniff = dleaf_sniff, leaf_init = dleaf_init bs, leaf_split = dleaf_split bs,
     leaf_resize = (\<lambda>key leaf size. None), leaf_need = dleaf_need bs, leaf_free = dleaf_free,
     leaf_chop = (\<lambda>key leaf. do {
       (changed, leaf, frees) \<leftarrow> dleaf_chop (\<lambda>b n fs. Some (Inr (), fs @ [(b, n)])) bs key leaf no_walk [];
       Some (Inr changed, leaf, frees) }),
     leaf_merge = dleaf_merge bs\<rparr>"

section \<open>Segments\<close>

definition SEG_HOLE :: nat where
  "SEG_HOLE = 1"

definition SEG_NEW :: nat where
  "SEG_NEW = 2"

definition DLEAF_MAX_EXTENT_SIZE :: nat where
  "DLEAF_MAX_EXTENT_SIZE = 16"

record seg =
  seg_block :: nat
  seg_count :: nat
  seg_state :: nat

definition map_bfree :: "bool \<Rightarrow> (dleaf, 'a) tree_scheme \<Rightarrow> nat \<Rightarrow> nat \<Rightarrow> (dleaf, 'a) tree_scheme" where
  "map_bfree is_bitmap st block n =
     (if is_bitmap then
        (let st = add_log st (Bfree_on_rollup block n)
         in st\<lparr>t_derollup := t_derollup st @ [(block, n)]\<rparr>)
      else
        (let st = add_log st (Bfree block n)
         in st\<lparr>t_defree := t_defree st @ [(block, n)]\<rparr>))"

section \<open>Reading the map\<close>

text \<open>The loop over the extents of the leaf, \<open>n\<close> more segments; the result is the segs and \<open>index\<close> behind it, and the walk.\<close>

fun map_loop :: "dleaf \<Rightarrow> nat \<Rightarrow> nat \<Rightarrow> nat \<Rightarrow> dwalk \<Rightarrow> seg list \<Rightarrow> (seg list \<times> nat \<times> dwalk) option" where
  "map_loop leaf limit 0 index walk segs = Some (segs, index, walk)"
| "map_loop leaf limit (Suc n) index walk segs =
     (if \<not> index < limit then Some (segs, index, walk)
      else
        let ex_index = (if \<not> dwalk_end walk then dwalk_index leaf walk else limit)
        in if index < ex_index then
             let ex_index = min ex_index limit;
                 gap = wrap32 (ex_index - index)
             in map_loop leaf limit n ex_index walk (segs @ [\<lparr>seg_block = 0, seg_count = gap, seg_state = SEG_HOLE\<rparr>])
           else do {
             let block = dwalk_block leaf walk;
             let k = dwalk_count leaf walk;
             (_, walk) \<leftarrow> dwalk_next leaf walk;
             map_loop leaf limit n (ex_index + k) walk
               (segs @ [\<lparr>seg_block = block, seg_count = k, seg_state = 0\<rparr>]) })"

text \<open>The first segment begins at the start of the region, and the last one ends at its end.\<close>

definition trim_segs :: "seg list \<Rightarrow> nat \<Rightarrow> nat \<Rightarrow> seg list" where
  "trim_segs segs nbelow nabove =
     (let s = segs ! 0;
          segs = segs[0 := s\<lparr>seg_block := seg_block s + nbelow, seg_count := sub32 (seg_count s) nbelow\<rparr>];
          i = length segs - 1
      in segs[i := (segs ! i)\<lparr>seg_count := sub32 (seg_count (segs ! i)) nabove\<rparr>])"

text \<open>The map, \<open>seg_start\<close>, \<open>nbelow\<close> and \<open>nabove\<close>, and the walk behind the region.\<close>

definition map_segs ::
  "dleaf \<Rightarrow> dwalk \<Rightarrow> nat \<Rightarrow> nat \<Rightarrow> nat \<Rightarrow> (seg list \<times> nat \<times> nat \<times> nat \<times> dwalk) option" where
  "map_segs leaf walk start limit max_segs = do {
     let seg_start = (if \<not> dwalk_end walk \<and> dwalk_index leaf walk < start then dwalk_index leaf walk else start);
     (segs, index, walk) \<leftarrow> map_loop leaf limit max_segs start walk [];
     c_assert (segs \<noteq> []);
     let nbelow = wrap32 (start - seg_start);
     let nabove = wrap32 (index - min index limit);
     Some (trim_segs segs nbelow nabove, seg_start, nbelow, nabove, walk) }"

section \<open>Allocating\<close>

fun free_segs :: "bool \<Rightarrow> (dleaf, 'a) tree_scheme \<Rightarrow> seg list \<Rightarrow> (dleaf, 'a) tree_scheme" where
  "free_segs is_bitmap st [] = st"
| "free_segs is_bitmap st (s # segs) =
     free_segs is_bitmap (if seg_state s \<noteq> SEG_HOLE then map_bfree is_bitmap st (seg_block s) (seg_count s) else st) segs"

text \<open>\<open>create = 2\<close>: the region becomes one hole, and what it maps is freed.\<close>

definition redirect_segs ::
  "bool \<Rightarrow> (dleaf, 'a) tree_scheme \<Rightarrow> seg list \<Rightarrow> seg list \<times> (dleaf, 'a) tree_scheme" where
  "redirect_segs is_bitmap st segs =
     ([\<lparr>seg_block = 0, seg_count = wrap32 (sum_list (map seg_count segs)), seg_state = SEG_HOLE\<rparr>],
      free_segs is_bitmap st segs)"

fun fill_segs ::
  "nat \<Rightarrow> (dleaf, 'a) tree_scheme \<Rightarrow> seg list \<Rightarrow> ((errno + seg list) \<times> (dleaf, 'a) tree_scheme) option" where
  "fill_segs create st [] = Some (Inr [], st)"
| "fill_segs create st (s # segs) = do {
     (r, st) \<leftarrow> (if seg_state s = SEG_HOLE then do {
         (r, st) \<leftarrow> balloc st (seg_count s);
         case r of
           Inl err \<Rightarrow> Some (Inl err, st)
         | Inr block \<Rightarrow>
             Some (Inr \<lparr>seg_block = block, seg_count = seg_count s, seg_state = if create = 2 then 0 else SEG_NEW\<rparr>,
               add_log st (Balloc block (seg_count s))) }
       else Some (Inr s, st));
     case r of
       Inl err \<Rightarrow> Some (Inl err, st)
     | Inr s \<Rightarrow> do {
         (r, st) \<leftarrow> fill_segs create st segs;
         Some (map_sum id ((#) s) r, st) } }"

section \<open>Packing the leaf\<close>

text \<open>
  What the packing loop adds to the leaf, in order: the part of the first extent below the
  region, the segments, the part of the last extent above it. The first component is \<open>index\<close> in
  that round of the loop, the second the key of the extent that is added.
\<close>

fun seg_items :: "nat \<Rightarrow> seg list \<Rightarrow> (nat \<times> nat \<times> nat \<times> nat) list" where
  "seg_items index [] = []"
| "seg_items index (s # segs) = (index, index, seg_block s, seg_count s) # seg_items (index + seg_count s) segs"

definition pack_items ::
  "nat \<Rightarrow> nat \<Rightarrow> nat \<Rightarrow> nat \<Rightarrow> seg list \<Rightarrow> nat \<Rightarrow> nat \<Rightarrow> (nat \<times> nat \<times> nat \<times> nat) list" where
  "pack_items start seg_start nbelow below_block segs nabove above_block =
     (let index = start + sum_list (map seg_count segs)
      in (if nbelow \<noteq> 0 then [(start, seg_start, below_block, nbelow)] else [])
         @ seg_items start segs
         @ (if nabove \<noteq> 0 then [(index, index, above_block, nabove)] else []))"

text \<open>A new leaf when the leaf has no room. The error of the insertion is not looked at.\<close>

definition pack_room ::
  "nat \<Rightarrow> (dleaf, 'a) tree_scheme \<Rightarrow> cursor \<Rightarrow> nat \<Rightarrow> dwalk \<Rightarrow> nat
    \<Rightarrow> ((errno + nat \<times> dwalk) \<times> (dleaf, 'a) tree_scheme \<times> cursor) option" where
  "pack_room bs st c leafbuf walk index = do {
     leaf \<leftarrow> leaf_of st leafbuf;
     if dleaf_free leaf < DLEAF_MAX_EXTENT_SIZE then do {
       b \<leftarrow> cursor_leafbuf c;
       st \<leftarrow> mark_buffer_dirty_non st b;
       (r, st) \<leftarrow> new_leaf (dtree_ops bs) st;
       case r of
         Inl err \<Rightarrow> Some (Inl err, st, c)
       | Inr newbuf \<Rightarrow> do {
           (_, st, c) \<leftarrow> btree_insert_leaf st c index newbuf;
           leafbuf \<leftarrow> cursor_leafbuf c;
           leaf \<leftarrow> leaf_of st leafbuf;
           (_, walk) \<leftarrow> dwalk_probe leaf index walk;
           Some (Inr (leafbuf, walk), st, c) } }
     else Some (Inr (leafbuf, walk), st, c) }"

fun map_pack ::
  "nat \<Rightarrow> (dleaf, 'a) tree_scheme \<Rightarrow> cursor \<Rightarrow> nat \<Rightarrow> dwalk \<Rightarrow> (nat \<times> nat \<times> nat \<times> nat) list
    \<Rightarrow> ((errno + nat) \<times> (dleaf, 'a) tree_scheme \<times> cursor) option" where
  "map_pack bs st c leafbuf walk [] = Some (Inr leafbuf, st, c)"
| "map_pack bs st c leafbuf walk ((index, key, block, n) # items) = do {
     (r, st, c) \<leftarrow> pack_room bs st c leafbuf walk index;
     case r of
       Inl err \<Rightarrow> Some (Inl err, st, c)
     | Inr (leafbuf, walk) \<Rightarrow> do {
         leaf \<leftarrow> leaf_of st leafbuf;
         x \<leftarrow> make_extent block n;
         (leaf, walk) \<leftarrow> dwalk_add bs leaf walk key x;
         map_pack bs (put_block st leafbuf (Leaf leaf)) c leafbuf walk items } }"

text \<open>The extents behind the region go back into the leaf, or into a leaf of their own.\<close>

definition map_tail ::
  "nat \<Rightarrow> (dleaf, 'a) tree_scheme \<Rightarrow> cursor \<Rightarrow> nat \<Rightarrow> dleaf \<Rightarrow> nat
    \<Rightarrow> ((errno + unit) \<times> (dleaf, 'a) tree_scheme \<times> cursor) option" where
  "map_tail bs st c leafbuf tail tailkey = do {
     leaf \<leftarrow> leaf_of st leafbuf;
     if dleaf_need bs tail < dleaf_free leaf then do {
       leaf \<leftarrow> dleaf_merge bs leaf tail;
       Some (Inr (), put_block st leafbuf (Leaf leaf), c) }
     else do {
       b \<leftarrow> cursor_leafbuf c;
       st \<leftarrow> mark_buffer_dirty_non st b;
       c_assert (dleaf_groups tail \<ge> 1);
       (r, st) \<leftarrow> new_leaf (dtree_ops bs) st;
       case r of
         Inl err \<Rightarrow> Some (Inl err, st, c)
       | Inr newbuf \<Rightarrow> btree_insert_leaf (put_block st newbuf (Leaf tail)) c tailkey newbuf } }"

text \<open>The leaf is changed: \<open>headwalk\<close> is at the region, \<open>walk\<close> behind it.\<close>

definition map_store ::
  "nat \<Rightarrow> (dleaf, 'a) tree_scheme \<Rightarrow> cursor \<Rightarrow> nat \<Rightarrow> dwalk \<Rightarrow> dwalk \<Rightarrow> (nat \<times> nat \<times> nat \<times> nat) list
    \<Rightarrow> ((errno + unit) \<times> (dleaf, 'a) tree_scheme) option" where
  "map_store bs st c leafbuf headwalk walk items = do {
     leaf \<leftarrow> leaf_of st leafbuf;
     tail \<leftarrow> (if \<not> dwalk_end walk then do {
         tail \<leftarrow> dwalk_copy bs leaf walk (dleaf_init bs);
         Some (Some (tail, dwalk_index leaf walk)) }
       else Some None);
     (leaf, headwalk) \<leftarrow> dwalk_chop bs leaf headwalk;
     (r, st, c) \<leftarrow> map_pack bs (put_block st leafbuf (Leaf leaf)) c leafbuf headwalk items;
     case r of
       Inl err \<Rightarrow> Some (Inl err, st)
     | Inr leafbuf \<Rightarrow> do {
         (r, st, c) \<leftarrow> (case tail of
             None \<Rightarrow> Some (Inr (), st, c)
           | Some (tail, tailkey) \<Rightarrow> map_tail bs st c leafbuf tail tailkey);
         case r of
           Inl err \<Rightarrow> Some (Inl err, st)
         | Inr _ \<Rightarrow> do {
             b \<leftarrow> cursor_leafbuf c;
             st \<leftarrow> mark_buffer_dirty_non st b;
             Some (Inr (), st) } } }"

section \<open>The operation\<close>

text \<open>The write modes, when the map has been read; \<open>nbelow\<close> and \<open>nabove\<close> are what the region leaves of its first and last extent.\<close>

definition map_write ::
  "bool \<Rightarrow> nat \<Rightarrow> (dleaf, 'a) tree_scheme \<Rightarrow> cursor \<Rightarrow> nat \<Rightarrow> nat \<Rightarrow> dwalk \<Rightarrow> seg list \<times> nat \<times> nat \<times> nat \<times> dwalk
    \<Rightarrow> ((errno + seg list) \<times> (dleaf, 'a) tree_scheme) option" where
  "map_write is_bitmap create st c leafbuf start headwalk region = do {
     let (segs, seg_start, nbelow, nabove, walk) = region;
     let below_block = seg_block (segs ! 0) - nbelow;
     let above_block = seg_block (segs ! (length segs - 1)) + seg_count (segs ! (length segs - 1));
     let (segs, st) = (if create = 2 then redirect_segs is_bitmap st segs else (segs, st));
     (r, st) \<leftarrow> fill_segs create st segs;
     case r of
       Inl err \<Rightarrow> Some (Inl err, st)
     | Inr segs \<Rightarrow> do {
         (r, st, c) \<leftarrow> cursor_redirect st c;
         case r of
           Inl err \<Rightarrow> Some (Inl err, st)
         | Inr _ \<Rightarrow> do {
             (r, st) \<leftarrow> map_store (blocksize st) st c leafbuf headwalk walk
               (pack_items start seg_start nbelow below_block segs nabove above_block);
             Some (map_sum id (\<lambda>_. segs) r, st) } } }"

definition map_region ::
  "bool \<Rightarrow> nat \<Rightarrow> nat \<Rightarrow> nat \<Rightarrow> nat \<Rightarrow> (dleaf, 'a) tree_scheme
    \<Rightarrow> ((errno + seg list) \<times> (dleaf, 'a) tree_scheme) option" where
  "map_region is_bitmap start len max_segs create st = do {
     c_assert (max_segs > 0);
     let ops = dtree_ops (blocksize st);
     (r, st) \<leftarrow> (if \<not> has_root (t_root st) \<and> create \<noteq> 0 then alloc_empty_btree ops st else Some (Inr (), st));
     case r of
       Inl err \<Rightarrow> Some (Inl err, st)
     | Inr _ \<Rightarrow>
         if \<not> has_root (t_root st) then do {
           (segs, _) \<leftarrow> map_segs (dleaf_init (blocksize st)) no_walk start (min (start + len) (2 ^ 64 - 1)) max_segs;
           Some (Inr segs, st) }
         else do {
           (r, c) \<leftarrow> probe ops st start (alloc_cursor st 1);
           case r of
             Inl err \<Rightarrow> Some (Inl err, st)
           | Inr _ \<Rightarrow> do {
               leafbuf \<leftarrow> cursor_leafbuf c;
               leaf \<leftarrow> leaf_of st leafbuf;
               (_, walk) \<leftarrow> dwalk_probe leaf start no_walk;
               next \<leftarrow> next_key st c (root_depth (t_root st));
               region \<leftarrow> map_segs leaf walk start (min (start + len) next) max_segs;
               if create = 0 then Some (Inr (fst region), st)
               else map_write is_bitmap create st c leafbuf start walk region } } }"

end
