(* ===== verification/Tux_Region.thy ===== *)
theory Tux_Region
  imports Tux_Filemap
begin

text \<open>
  What \<open>map_region\<close> reads of a leaf: the segments describe the blocks that the leaf maps, from
  the start of the region on, and the walk is behind the region.
\<close>

section \<open>Segments\<close>

definition seg_total :: "seg list \<Rightarrow> nat" where
  "seg_total segs = sum_list (map seg_count segs)"

text \<open>The block of the \<open>k\<close>th block of the region.\<close>

fun seg_at :: "seg list \<Rightarrow> nat \<Rightarrow> nat option" where
  "seg_at [] k = None"
| "seg_at (s # segs) k =
     (if k < seg_count s then (if seg_state s = SEG_HOLE then None else Some (seg_block s + k))
      else seg_at segs (k - seg_count s))"

lemma seg_total_simps [simp]:
  "seg_total [] = 0" "seg_total (s # segs) = seg_count s + seg_total segs"
  "seg_total (segs @ segs') = seg_total segs + seg_total segs'"
  by (simp_all add: seg_total_def)

lemma seg_at_append:
  "seg_at (segs @ segs') k = (if k < seg_total segs then seg_at segs k else seg_at segs' (k - seg_total segs))"
  by (induction segs arbitrary: k) auto

lemma SEG_HOLE_not [simp]: "SEG_HOLE \<noteq> 0" "0 \<noteq> SEG_HOLE" "SEG_NEW \<noteq> SEG_HOLE" "SEG_HOLE \<noteq> SEG_NEW"
  by (simp_all add: SEG_HOLE_def SEG_NEW_def)

text \<open>Where the part of the first extent that the region meets begins.\<close>

definition region_base :: "grp list \<Rightarrow> nat \<Rightarrow> nat \<Rightarrow> nat" where
  "region_base L i index = (if i < length (leaf_keys L) \<and> leaf_keys L ! i < index then leaf_keys L ! i else index)"

lemma probe_at_mono:
  assumes "probe_at leaf L key i" "key \<le> key'" "i < length (leaf_keys L) \<Longrightarrow> key' < extent_end leaf L i"
  shows "probe_at leaf L key' i"
  using assms by (auto simp: probe_at_def below_key_def intro: order.trans)

lemma probe_at_next:
  assumes rep: "dl_rep bs leaf L" and dis: "disjoint_extents leaf L" and at: "probe_at leaf L key i"
    and i: "i < length (leaf_keys L)"
  shows "probe_at leaf L (extent_end leaf L i) (Suc i)"
    "Suc i < length (leaf_keys L) \<Longrightarrow> extent_end leaf L i \<le> leaf_keys L ! Suc i"
proof -
  show le: "extent_end leaf L i \<le> leaf_keys L ! Suc i" if "Suc i < length (leaf_keys L)"
    using disjoint_end_le [OF rep dis _ that] by simp
  have "extent_end leaf L p \<le> extent_end leaf L i" if "p < i" for p
    using at that i unfolding probe_at_def below_key_def by (meson order.strict_implies_order order.trans)
  then have "below_key leaf L (Suc i) (extent_end leaf L i)" by (auto simp: below_key_def less_Suc_eq)
  then show "probe_at leaf L (extent_end leaf L i) (Suc i)"
    using i le extent_count_pos [of "dl_table leaf ! Suc i"]
    by (auto simp: probe_at_def extent_end_def intro: le_less_trans)
qed

section \<open>The loop\<close>

definition raw_seg :: "seg \<Rightarrow> bool" where
  "raw_seg s \<longleftrightarrow> 0 < seg_count s \<and> seg_count s < 2 ^ 32 \<and> (seg_state s = 0 \<or> seg_state s = SEG_HOLE) \<and> (seg_state s = SEG_HOLE \<longrightarrow> seg_block s = 0)"

text \<open>
  From \<open>index\<close>, at extent \<open>i\<close>, the loop gives at most \<open>n\<close> segments and stops at \<open>index'\<close>, at
  extent \<open>i'\<close>. Only the first segment may begin below \<open>index\<close>, and only the last one may end
  behind the limit.
\<close>

definition loop_result ::
  "dleaf \<Rightarrow> grp list \<Rightarrow> nat \<Rightarrow> nat \<Rightarrow> nat \<Rightarrow> nat \<Rightarrow> seg list \<Rightarrow> nat \<Rightarrow> nat \<Rightarrow> bool" where
  "loop_result leaf L limit n index i segs index' i' \<longleftrightarrow>
     length segs \<le> n \<and> (length segs = n \<or> limit \<le> index') \<and> (\<forall>s\<in>set segs. raw_seg s)
     \<and> index \<le> index' \<and> i \<le> i' \<and> probe_at leaf L index' i'
     \<and> (segs = [] \<longrightarrow> index' = index \<and> i' = i)
     \<and> (segs \<noteq> [] \<longrightarrow> region_base L i index + seg_total segs = index' \<and> region_base L i' index' = index'
          \<and> (\<forall>k < seg_total segs. seg_at segs k = map_block (leaf_extents leaf L) (region_base L i index + k))
          \<and> (region_base L i index < index \<longrightarrow> seg_state (hd segs) = 0 \<and> index < region_base L i index + seg_count (hd segs))
          \<and> (limit < index' \<longrightarrow> seg_state (last segs) = 0 \<and> index' < limit + seg_count (last segs)
               \<and> 0 < i' \<and> index' = extent_end leaf L (i' - 1) \<and> leaf_keys L ! (i' - 1) < limit))"

lemma loop_result_Nil: "probe_at leaf L index i \<Longrightarrow> n = 0 \<or> limit \<le> index \<Longrightarrow> loop_result leaf L limit n index i [] index i"
  by (auto simp: loop_result_def)

text \<open>One segment, and the rest of the loop from its end on.\<close>

lemma loop_result_step:
  assumes rest: "loop_result leaf L limit n index1 i1 segs index' i'"
    and s: "raw_seg s" "region_base L i index + seg_count s = index1" "i \<le> i1" "index < index1"
    and base: "region_base L i1 index1 = index1"
    and at: "\<And>k. k < seg_count s \<Longrightarrow> seg_at [s] k = map_block (leaf_extents leaf L) (region_base L i index + k)"
    and first: "region_base L i index < index \<Longrightarrow> seg_state s = 0"
    and last: "limit < index1 \<Longrightarrow> seg_state s = 0 \<and> index1 < limit + seg_count s
        \<and> 0 < i1 \<and> index1 = extent_end leaf L (i1 - 1) \<and> leaf_keys L ! (i1 - 1) < limit"
  shows "loop_result leaf L limit (Suc n) index i (s # segs) index' i'"
proof -
  let ?b = "region_base L i index"
  have total: "?b + seg_total (s # segs) = index'"
    using rest s(2) base unfolding loop_result_def by (cases "segs = []") auto
  have map: "seg_at (s # segs) k = map_block (leaf_extents leaf L) (?b + k)" if k: "k < seg_total (s # segs)" for k
  proof (cases "k < seg_count s")
    case True
    then show ?thesis using at [OF True] by simp
  next
    case False
    then have "segs \<noteq> []" "k - seg_count s < seg_total segs" using k by auto
    then have "seg_at segs (k - seg_count s) = map_block (leaf_extents leaf L) (index1 + (k - seg_count s))"
      using rest base unfolding loop_result_def by simp
    moreover have "index1 + (k - seg_count s) = ?b + k" using False s(2) by simp
    ultimately show ?thesis using False by simp
  qed
  have "limit < index' \<longrightarrow> seg_state (List.last (s # segs)) = 0 \<and> index' < limit + seg_count (List.last (s # segs))
      \<and> 0 < i' \<and> index' = extent_end leaf L (i' - 1) \<and> leaf_keys L ! (i' - 1) < limit"
    using rest last unfolding loop_result_def by (cases "segs = []") auto
  moreover have "region_base L i' index' = index'"
    using rest base unfolding loop_result_def by (cases "segs = []") auto
  ultimately show ?thesis
    using rest s total map first unfolding loop_result_def by auto
qed

lemma map_loop_rep:
  assumes rep: "dl_rep bs leaf L" and dis: "disjoint_extents leaf L" and lim: "limit < 2 ^ 56"
  shows "walk_pos L walk i \<Longrightarrow> probe_at leaf L index i \<Longrightarrow> limit < index + 2 ^ 32 \<Longrightarrow>
    \<exists>segs index' i' walk'. map_loop leaf limit n index walk acc = Some (acc @ segs, index', walk')
      \<and> walk_pos L walk' i' \<and> loop_result leaf L limit n index i segs index' i'"
proof (induction n arbitrary: index walk i acc)
  case 0
  then show ?case using loop_result_Nil [of leaf L index i 0 limit] by auto
next
  case (Suc n)
  let ?n = "length (leaf_keys L)"
  note mb = map_block_probe [OF rep dis]
  have i: "i \<le> ?n" using Suc.prems(2) by (simp add: probe_at_def)
  show ?case
  proof (cases "index < limit")
    case False
    then show ?thesis using loop_result_Nil [of leaf L index i "Suc n" limit] Suc.prems by auto
  next
    case True
    define ex where "ex = (if \<not> dwalk_end walk then dwalk_index leaf walk else limit)"
    have ex: "ex = (if i < ?n then leaf_keys L ! i else limit)"
      using walk_pos_end [OF Suc.prems(1)] walk_index [OF rep Suc.prems(1)] i by (auto simp: ex_def)
    show ?thesis
    proof (cases "index < ex")
      case hole: True
      define j where "j = min ex limit"
      have j: "index < j" "j \<le> ex" "j \<le> limit" using True hole by (auto simp: j_def)
      let ?s = "\<lparr>seg_block = 0, seg_count = j - index, seg_state = SEG_HOLE\<rparr>"
      have w: "wrap32 (j - index) = j - index" using Suc.prems(3) j by (simp add: wrap32_def)
      have step: "map_loop leaf limit (Suc n) index walk acc = map_loop leaf limit n j walk (acc @ [?s])"
        using True hole w by (simp add: ex_def [symmetric] j_def [symmetric] Let_def)
      have ext: "key < extent_end leaf L i" if "key \<le> j" "i < ?n" for key
        using that ex j(2) extent_count_pos [of "dl_table leaf ! i"] by (simp add: extent_end_def)
      have p: "probe_at leaf L j i"
        by (rule probe_at_mono [OF Suc.prems(2)]) (use j ext in auto)
      have b: "region_base L i index = index" "region_base L i j = j"
        using j hole ex by (auto simp: region_base_def split: if_splits)
      have "map_block (leaf_extents leaf L) (index + k) = None" if "k < j - index" for k
      proof -
        have k: "index + k \<le> j" using that by linarith
        have "probe_at leaf L (index + k) i"
          by (rule probe_at_mono [OF Suc.prems(2)]) (use ext [OF k] in auto)
        moreover have "i < ?n \<Longrightarrow> index + k < leaf_keys L ! i" using that ex j by simp
        ultimately show ?thesis using mb by auto
      qed
      then have at: "seg_at [?s] k = map_block (leaf_extents leaf L) (region_base L i index + k)" if "k < seg_count ?s" for k
        using that b(1) by simp
      obtain segs index' i' walk' where r: "map_loop leaf limit n j walk (acc @ [?s]) = Some ((acc @ [?s]) @ segs, index', walk')"
        "walk_pos L walk' i'" "loop_result leaf L limit n j i segs index' i'"
        using Suc.IH [OF Suc.prems(1) p, of "acc @ [?s]"] Suc.prems(3) j by auto
      have "loop_result leaf L limit (Suc n) index i (?s # segs) index' i'"
        by (rule loop_result_step [OF r(3)]) (use at b j Suc.prems(3) in \<open>auto simp: raw_seg_def\<close>)
      then show ?thesis using step r(1,2) by auto
    next
      case False
      then have i: "i < ?n" "leaf_keys L ! i \<le> index" using ex True by (auto split: if_splits)
      let ?s = "\<lparr>seg_block = dwalk_block leaf walk, seg_count = dwalk_count leaf walk, seg_state = 0\<rparr>"
      have bc: "dwalk_block leaf walk = extent_block (dl_table leaf ! i)" "dwalk_count leaf walk = extent_count (dl_table leaf ! i)"
        using walk_pos_extent [OF Suc.prems(1)] by (simp_all add: dwalk_block_def dwalk_count_def)
      have e: "ex = leaf_keys L ! i" "ex + dwalk_count leaf walk = extent_end leaf L i"
        using ex i bc by (simp_all add: extent_end_def)
      obtain walk1 where w1: "dwalk_next leaf walk = Some (Suc i < ?n, walk1)" "walk_pos L walk1 (Suc i)"
        by (rule dwalk_next_pos [OF rep Suc.prems(1) i(1)])
      have step: "map_loop leaf limit (Suc n) index walk acc
          = map_loop leaf limit n (extent_end leaf L i) walk1 (acc @ [?s])"
        using True False w1(1) e by (simp add: ex_def [symmetric] Let_def)
      note nx = probe_at_next [OF rep dis Suc.prems(2) i(1)]
      have b: "region_base L i index = leaf_keys L ! i" using i by (auto simp: region_base_def)
      have b1: "region_base L (Suc i) (extent_end leaf L i) = extent_end leaf L i"
        using nx(2) by (auto simp: region_base_def)
      have gt: "index < extent_end leaf L i" using Suc.prems(2) i(1) by (simp add: probe_at_def)
      have at: "seg_at [?s] k = map_block (leaf_extents leaf L) (region_base L i index + k)" if k: "k < seg_count ?s" for k
      proof -
        have "below_key leaf L i (leaf_keys L ! i + k)"
          unfolding below_key_def using disjoint_end_le [OF rep dis _ i(1)] by (meson le_add1 order.trans)
        then have "probe_at leaf L (leaf_keys L ! i + k) i"
          using k i(1) bc by (simp add: probe_at_def extent_end_def)
        from mb [OF this] show ?thesis using k i(1) bc b by (simp add: SEG_HOLE_def)
      qed
      obtain segs index' i' walk' where r: "map_loop leaf limit n (extent_end leaf L i) walk1 (acc @ [?s]) = Some ((acc @ [?s]) @ segs, index', walk')"
        "walk_pos L walk' i'" "loop_result leaf L limit n (extent_end leaf L i) (Suc i) segs index' i'"
        using Suc.IH [OF w1(2) nx(1), of "acc @ [?s]"] Suc.prems(3) gt by auto
      have "loop_result leaf L limit (Suc n) index i (?s # segs) index' i'"
        by (rule loop_result_step [OF r(3)])
          (use at b b1 gt i True bc e extent_count_pos [of "dl_table leaf ! i"] extent_bounds(2) [of "dl_table leaf ! i"] in \<open>auto simp: raw_seg_def\<close>)
      then show ?thesis using step r(1,2) by auto
    qed
  qed
qed

section \<open>The ends\<close>

lemma trim_segs_rep:
  assumes ne: "segs \<noteq> []" and raw: "\<forall>s\<in>set segs. raw_seg s"
    and b: "b < seg_count (hd segs)" "0 < b \<longrightarrow> seg_state (hd segs) = 0"
    and a: "a < seg_count (last segs)" and one: "b + a < seg_total segs"
  defines "T \<equiv> trim_segs segs b a"
  shows "length T = length segs" "\<forall>s\<in>set T. raw_seg s" "seg_total T = seg_total segs - b - a"
    "\<And>k. k < seg_total T \<Longrightarrow> seg_at T k = seg_at segs (k + b)"
    "seg_state (hd segs) = 0 \<Longrightarrow> k < b \<Longrightarrow> seg_at segs k = Some (seg_block (T ! 0) - b + k)"
    "seg_state (last segs) = 0 \<Longrightarrow> k < a \<Longrightarrow> seg_at segs (b + seg_total T + k)
       = Some (seg_block (T ! (length T - 1)) + seg_count (T ! (length T - 1)) + k)"
proof -
  have sub: "sub32 n m = n - m" if "m \<le> n" "n < 2 ^ 32" for n m using that by (simp add: wrap_simps)
  consider (single) s where "segs = [s]" | (more) s M t where "segs = s # M @ [t]"
    using ne by (metis append_butlast_last_id append_Nil append_Cons list.exhaust)
  then have "length T = length segs \<and> (\<forall>s\<in>set T. raw_seg s) \<and> seg_total T = seg_total segs - b - a
    \<and> (\<forall>k < seg_total T. seg_at T k = seg_at segs (k + b))
    \<and> (seg_state (hd segs) = 0 \<longrightarrow> (\<forall>k<b. seg_at segs k = Some (seg_block (T ! 0) - b + k)))
    \<and> (seg_state (last segs) = 0 \<longrightarrow> (\<forall>k<a. seg_at segs (b + seg_total T + k)
       = Some (seg_block (T ! (length T - 1)) + seg_count (T ! (length T - 1)) + k)))"
  proof cases
    case single
    then have s: "raw_seg s" "b + a < seg_count s" "0 < b \<longrightarrow> seg_state s = 0" using raw one b by auto
    have "sub32 (seg_count s) b = seg_count s - b" "sub32 (seg_count s - b) a = seg_count s - b - a"
      by (rule sub; use s(1,2) in \<open>unfold raw_seg_def, linarith\<close>)+
    then have T: "T = [s\<lparr>seg_block := seg_block s + b, seg_count := seg_count s - b - a\<rparr>]"
      using s single by (simp add: T_def trim_segs_def Let_def raw_seg_def sub)
    show ?thesis unfolding T using s single by (auto simp: raw_seg_def)
  next
    case more
    then have s: "raw_seg s" "raw_seg t" "b < seg_count s" "a < seg_count t" "0 < b \<longrightarrow> seg_state s = 0"
      "\<forall>s\<in>set M. raw_seg s" using raw b a by auto
    have T: "T = s\<lparr>seg_block := seg_block s + b, seg_count := seg_count s - b\<rparr> # M @ [t\<lparr>seg_count := seg_count t - a\<rparr>]"
      using s more by (simp add: T_def trim_segs_def Let_def raw_seg_def sub nth_append list_update_append)
    show ?thesis unfolding T using s more by (auto simp: raw_seg_def seg_at_append nth_append)
  qed
  then show "length T = length segs" "\<forall>s\<in>set T. raw_seg s" "seg_total T = seg_total segs - b - a"
    "\<And>k. k < seg_total T \<Longrightarrow> seg_at T k = seg_at segs (k + b)"
    "seg_state (hd segs) = 0 \<Longrightarrow> k < b \<Longrightarrow> seg_at segs k = Some (seg_block (T ! 0) - b + k)"
    "seg_state (last segs) = 0 \<Longrightarrow> k < a \<Longrightarrow> seg_at segs (b + seg_total T + k)
       = Some (seg_block (T ! (length T - 1)) + seg_count (T ! (length T - 1)) + k)"
    by auto
qed

section \<open>The region\<close>

text \<open>
  The map \<open>T\<close> of the region from \<open>start\<close> on, with the \<open>b\<close> blocks of its first extent that are
  below the region and the \<open>a\<close> blocks of its last extent that are above it.
\<close>

definition region ::
  "dleaf \<Rightarrow> grp list \<Rightarrow> nat \<Rightarrow> nat \<Rightarrow> nat \<Rightarrow> nat \<Rightarrow> seg list \<Rightarrow> nat \<Rightarrow> nat \<Rightarrow> nat \<Rightarrow> nat \<Rightarrow> bool" where
  "region leaf L start limit n i T seg_start b a i' \<longleftrightarrow>
     T \<noteq> [] \<and> length T \<le> n \<and> (\<forall>s\<in>set T. raw_seg s)
     \<and> start + seg_total T \<le> limit \<and> (length T = n \<or> start + seg_total T = limit)
     \<and> seg_start = region_base L i start \<and> seg_start + b = start
     \<and> i \<le> i' \<and> probe_at leaf L (start + seg_total T + a) i'
     \<and> region_base L i' (start + seg_total T + a) = start + seg_total T + a
     \<and> (0 < a \<longrightarrow> 0 < i' \<and> start + seg_total T + a = extent_end leaf L (i' - 1) \<and> leaf_keys L ! (i' - 1) < start + seg_total T)
     \<and> (\<forall>k < seg_total T. seg_at T k = map_block (leaf_extents leaf L) (start + k))
     \<and> (\<forall>k<b. map_block (leaf_extents leaf L) (seg_start + k) = Some (seg_block (T ! 0) - b + k))
     \<and> (\<forall>k<a. map_block (leaf_extents leaf L) (start + seg_total T + k)
          = Some (seg_block (T ! (length T - 1)) + seg_count (T ! (length T - 1)) + k))"

lemma seg_total_hd_last:
  assumes "segs \<noteq> []"
  shows "seg_count (hd segs) \<le> seg_total segs" "seg_count (last segs) \<le> seg_total segs"
proof -
  show "seg_count (hd segs) \<le> seg_total segs" using assms by (cases segs) simp_all
  show "seg_count (last segs) \<le> seg_total segs" using assms by (cases segs rule: rev_cases) simp_all
qed

lemma map_segs_rep:
  assumes rep: "dl_rep bs leaf L" and dis: "disjoint_extents leaf L"
    and pos: "walk_pos L walk i" and at: "probe_at leaf L start i"
    and lim: "start < limit" "limit < start + 2 ^ 32" "limit < 2 ^ 56" and n: "0 < n"
  shows "\<exists>T seg_start b a walk' i'. map_segs leaf walk start limit n = Some (T, seg_start, b, a, walk')
    \<and> walk_pos L walk' i' \<and> region leaf L start limit n i T seg_start b a i'"
proof -
  let ?base = "region_base L i start" and ?X = "leaf_extents leaf L"
  obtain segs index' i' walk' where l: "map_loop leaf limit n start walk [] = Some (segs, index', walk')"
    "walk_pos L walk' i'" "loop_result leaf L limit n start i segs index' i'"
    using map_loop_rep [OF rep dis lim(3) pos at lim(2), of n "[]"] by auto
  have ne: "segs \<noteq> []" using l(3) n lim(1) unfolding loop_result_def by auto
  have raw: "\<forall>s\<in>set segs. raw_seg s" and total: "?base + seg_total segs = index'" "start \<le> index'"
    and at': "\<forall>k < seg_total segs. seg_at segs k = map_block ?X (?base + k)"
    and first: "?base < start \<longrightarrow> seg_state (hd segs) = 0 \<and> start < ?base + seg_count (hd segs)"
    and final: "limit < index' \<longrightarrow> seg_state (last segs) = 0 \<and> index' < limit + seg_count (last segs)
        \<and> 0 < i' \<and> index' = extent_end leaf L (i' - 1) \<and> leaf_keys L ! (i' - 1) < limit"
    and len: "length segs \<le> n" "length segs = n \<or> limit \<le> index'" and p: "i \<le> i'" "probe_at leaf L index' i'" "region_base L i' index' = index'"
    using l(3) ne by (auto simp: loop_result_def)
  have i: "i \<le> length (leaf_keys L)" using at by (simp add: probe_at_def)
  have base: "?base \<le> start" "(if \<not> dwalk_end walk \<and> dwalk_index leaf walk < start then dwalk_index leaf walk else start) = ?base"
    using walk_pos_end [OF pos] walk_index [OF rep pos] i by (auto simp: region_base_def)
  have hd: "raw_seg (hd segs)" "raw_seg (last segs)" using raw ne by simp_all
  define b where "b = start - ?base"
  define a where "a = index' - min index' limit"
  have b: "b < seg_count (hd segs)" "0 < b \<longrightarrow> seg_state (hd segs) = 0" and a: "a < seg_count (last segs)"
    and st: "0 < a \<longrightarrow> seg_state (last segs) = 0"
    using first final hd base(1) by (auto simp: b_def a_def raw_seg_def)
  have "start < index'"
    using b(1) total base(1) seg_total_hd_last(1) [OF ne] by (simp add: b_def)
  then have one: "b + a < seg_total segs" using total base(1) lim(1) by (simp add: a_def b_def)
  have w: "wrap32 (start - ?base) = b" "wrap32 (index' - min index' limit) = a"
    using a b(1) hd by (simp_all add: a_def [symmetric] b_def [symmetric] wrap32_def raw_seg_def)
  define T where "T = trim_segs segs b a"
  note t = trim_segs_rep [OF ne raw b a one, folded T_def]
  have m: "map_segs leaf walk start limit n = Some (T, ?base, b, a, walk')"
    unfolding map_segs_def base(2) using l(1) ne w by (simp add: T_def Let_def)
  have tot: "start + seg_total T + a = index'" "start + seg_total T = min index' limit"
    using t(3) total one base(1) lim(1) by (simp_all add: a_def b_def)
  have top: "0 < a \<longrightarrow> 0 < i' \<and> start + seg_total T + a = extent_end leaf L (i' - 1) \<and> leaf_keys L ! (i' - 1) < start + seg_total T"
    using final tot by (auto simp: a_def)
  have base_b: "?base + b = start" using base(1) by (simp add: b_def)
  have "region leaf L start limit n i T ?base b a i'"
    unfolding region_def
  proof (intro conjI allI impI)
    fix k
    show "seg_at T k = map_block ?X (start + k)" if "k < seg_total T"
    proof -
      have "seg_at segs (k + b) = map_block ?X (?base + (k + b))" using at' that t(3) by simp
      moreover have "?base + (k + b) = start + k" using base_b by simp
      ultimately show ?thesis using t(4) [OF that] by simp
    qed
    show "map_block ?X (?base + k) = Some (seg_block (T ! 0) - b + k)" if "k < b"
      using t(5) [of k] that b(2) at' one by simp
    show "map_block ?X (start + seg_total T + k) = Some (seg_block (T ! (length T - 1)) + seg_count (T ! (length T - 1)) + k)" if "k < a"
    proof -
      have "b + seg_total T + k < seg_total segs" using t(3) one that by simp
      then have "seg_at segs (b + seg_total T + k) = map_block ?X (?base + (b + seg_total T + k))" using at' by simp
      moreover have "?base + (b + seg_total T + k) = start + seg_total T + k" using base_b by simp
      ultimately show ?thesis using t(6) [of k] that st by simp
    qed
  qed (use t(1,2) ne len tot p base_b top in auto)
  then show ?thesis using m l(2) by blast
qed

end
