(* ===== verification/Tux_Pack.thy ===== *)
theory Tux_Pack
  imports Tux_Region
begin

text \<open>
  What \<open>map_region\<close> writes to a leaf: the leaf is cut at the region, the new extents are added,
  and the extents behind the region are put back.
\<close>

section \<open>Lists of extents\<close>

definition leaf_rep :: "nat \<Rightarrow> dleaf \<Rightarrow> (nat \<times> nat \<times> nat) list \<Rightarrow> bool" where
  "leaf_rep bs leaf X \<longleftrightarrow> (\<exists>L. dl_rep bs leaf L \<and> X = leaf_extents leaf L \<and> apart X)"

text \<open>The extents are in order and lie between two keys.\<close>

fun between :: "nat \<Rightarrow> (nat \<times> nat \<times> nat) list \<Rightarrow> nat \<Rightarrow> bool" where
  "between lo [] hi \<longleftrightarrow> lo \<le> hi"
| "between lo ((i, b, n) # X) hi \<longleftrightarrow> lo \<le> i \<and> between (i + n) X hi"

lemma between_le: "between lo X hi \<Longrightarrow> lo \<le> hi"
proof (induction X arbitrary: lo)
  case (Cons x X)
  then show ?case by (cases x) fastforce
qed simp

lemma between_mono: "between lo X hi \<Longrightarrow> lo' \<le> lo \<Longrightarrow> hi \<le> hi' \<Longrightarrow> between lo' X hi'"
proof (induction X arbitrary: lo lo')
  case (Cons x X)
  then show ?case by (cases x) fastforce
qed simp

lemma between_append: "between lo X mid \<Longrightarrow> between mid Y hi \<Longrightarrow> between lo (X @ Y) hi"
proof (induction X arbitrary: lo)
  case Nil
  then show ?case using between_mono by auto
next
  case (Cons x X)
  then show ?case by (cases x) auto
qed

lemma between_bounds: "between lo X hi \<Longrightarrow> (i, b, n) \<in> set X \<Longrightarrow> lo \<le> i \<and> i + n \<le> hi"
proof (induction X arbitrary: lo)
  case (Cons x X)
  obtain i' b' n' where x: "x = (i', b', n')" by (cases x)
  show ?case
  proof (cases "(i, b, n) = x")
    case True
    then show ?thesis using Cons.prems(1) between_le [of "i' + n'" X hi] x by auto
  next
    case False
    then have "(i, b, n) \<in> set X" using Cons.prems(2) by auto
    then show ?thesis using Cons.IH [of "i' + n'"] Cons.prems(1) x by auto
  qed
qed simp

lemma between_consec:
  assumes "between lo X hi" "Suc p < length X"
  shows "fst (X ! p) + snd (snd (X ! p)) \<le> fst (X ! Suc p)"
  using assms
proof (induction X arbitrary: lo p)
  case (Cons x X)
  obtain i b n where x: "x = (i, b, n)" by (cases x)
  have rest: "between (i + n) X hi" using Cons.prems(1) x by simp
  show ?case
  proof (cases p)
    case 0
    then obtain i' b' n' X' where "X = (i', b', n') # X'" using Cons.prems(2) by (cases X) auto
    then show ?thesis using 0 rest x by simp
  next
    case (Suc q)
    then show ?thesis using Cons.IH [OF rest, of q] Cons.prems(2) by simp
  qed
qed simp

lemma betweenI:
  assumes "\<And>p. Suc p < length X \<Longrightarrow> fst (X ! p) + snd (snd (X ! p)) \<le> fst (X ! Suc p)" "lo \<le> hi"
    "\<And>i b n. (i, b, n) \<in> set X \<Longrightarrow> lo \<le> i \<and> i + n \<le> hi"
  shows "between lo X hi"
  using assms
proof (induction X arbitrary: lo)
  case (Cons x X)
  obtain i b n where x: "x = (i, b, n)" by (cases x)
  have step: "fst (X ! p) + snd (snd (X ! p)) \<le> fst (X ! Suc p)" if "Suc p < length X" for p
    using Cons.prems(1) [of "Suc p"] that by simp
  have lo: "between lo X hi" by (rule Cons.IH [OF step]) (use Cons.prems(2,3) in auto)
  have "between (i + n) X hi"
  proof (cases X)
    case (Cons y Y)
    then show ?thesis using lo Cons.prems(1) [of 0] x by (cases y) auto
  qed (use Cons.prems(3) [of i b n] x in simp)
  then show ?case using Cons.prems(2,3) x by auto
qed simp

lemma apart_iff_between: "apart X \<longleftrightarrow> (\<exists>hi. between 0 X hi) \<and> (\<forall>(k, b, n)\<in>set X. k mod 2 ^ 24 + n \<le> 2 ^ 24)"
proof -
  have "\<exists>hi. between 0 X hi" if a: "apart X"
  proof -
    have "i + n \<le> Max (insert 0 ((\<lambda>(i, b, n). i + n) ` set X))" if "(i, b, n) \<in> set X" for i b n
      by (rule Max_ge) (use that in force)+
    then have "between 0 X (Max (insert 0 ((\<lambda>(i, b, n). i + n) ` set X)))"
      by (intro betweenI) (use a in \<open>simp_all add: apart_def\<close>)
    then show ?thesis by blast
  qed
  moreover have "apart X" if "between 0 X hi" "\<forall>(k, b, n)\<in>set X. k mod 2 ^ 24 + n \<le> 2 ^ 24" for hi
    using that between_consec [OF that(1)] by (simp add: apart_def)
  ultimately show ?thesis by (auto simp: apart_def)
qed

lemma between_apart: "between lo X hi \<Longrightarrow> \<forall>(k, b, n)\<in>set X. k mod 2 ^ 24 + n \<le> 2 ^ 24 \<Longrightarrow> apart X"
  using between_mono [of lo X hi 0 hi] by (auto simp: apart_iff_between)

lemma apart_between:
  assumes "apart X" "lo \<le> hi" "\<And>i b n. (i, b, n) \<in> set X \<Longrightarrow> lo \<le> i \<and> i + n \<le> hi"
  shows "between lo X hi"
  by (rule betweenI) (use assms in \<open>auto simp: apart_def\<close>)

section \<open>What lists of extents map\<close>

lemma map_block_append: "map_block (A @ B) k = (case map_block A k of None \<Rightarrow> map_block B k | Some x \<Rightarrow> Some x)"
  unfolding map_block_def by (induction A) (auto split: option.splits prod.splits)

lemma map_block_outside: "between lo X hi \<Longrightarrow> k < lo \<or> hi \<le> k \<Longrightarrow> map_block X k = None"
proof -
  assume a: "between lo X hi" "k < lo \<or> hi \<le> k"
  have "find (\<lambda>(i, b, n). i \<le> k \<and> k < i + n) X = None"
    unfolding find_None_iff using between_bounds [OF a(1)] a(2) by fastforce
  then show ?thesis by (simp add: map_block_def)
qed

text \<open>A list in three parts.\<close>

lemma map_block_parts:
  assumes "between 0 A c" "between c M d" "between d B h"
  shows "map_block (A @ M @ B) k = (if k < c then map_block A k else if k < d then map_block M k else map_block B k)"
  using map_block_outside [OF assms(1), of k] map_block_outside [OF assms(2), of k] map_block_outside [OF assms(3), of k]
    between_le [OF assms(2)]
  by (auto simp: map_block_append split: option.split)

lemma map_block_Cons: "map_block ((i, b, n) # X) k = (if i \<le> k \<and> k < i + n then Some (b + (k - i)) else map_block X k)"
  by (simp add: map_block_def)

lemma seg_items_map:
  "\<forall>s\<in>set T. seg_state s \<noteq> SEG_HOLE \<Longrightarrow>
    map_block (map snd (seg_items s T)) k = (if s \<le> k \<and> k < s + seg_total T then seg_at T (k - s) else None)"
proof (induction T arbitrary: s)
  case Nil
  then show ?case by (simp add: map_block_def)
next
  case (Cons t T)
  then show ?case by (auto simp: map_block_Cons)
qed

lemma seg_items_between: "between s (map snd (seg_items s T)) (s + seg_total T)"
proof (induction T arbitrary: s)
  case (Cons t T)
  then show ?case using Cons.IH [of "s + seg_count t"] by (simp add: add.assoc)
qed simp

section \<open>Groups and room\<close>

text \<open>A cut leaves the groups up to the walk, and the copy takes those from the walk on.\<close>

lemma walk_group_mono:
  assumes "walk_pos L w i" "walk_pos L w' i'" "i \<le> i'"
  shows "w_group w \<le> w_group w'"
  using assms(1)
proof (cases rule: walk_pos_cases)
  case (At j t)
  note a = At
  from assms(2) show ?thesis
  proof (cases rule: walk_pos_cases)
    case (At j' t')
    have "\<not> j' < j"
    proof
      assume "j' < j"
      then have "skips L (Suc j') \<le> skips L j" by (intro skips_mono) simp
      then show False using At a assms(3) skips_Suc [of j' L] by (auto simp: walk_at_def)
    qed
    then show ?thesis using a At by (simp add: walk_at_def)
  qed (use a in \<open>auto simp: walk_at_def walk_end_def\<close>)
next
  case End
  then have "i' = i" using assms(3) walk_pos_extent [OF assms(2)] by simp
  then have "walk_end L w'" using walk_end_pos [OF assms(2)] walk_pos_end [OF assms(2)] End by simp
  then show ?thesis using End by (simp add: walk_end_def)
qed

lemma walk_group_le: "walk_pos L w i \<Longrightarrow> w_group w \<le> length L"
  by (auto simp: walk_pos_def walk_at_def walk_end_def)

lemma dwalk_back_group:
  assumes "dwalk_back leaf w = Some (r, w')"
  shows "w_group w' \<le> w_group w"
  using assms by (auto simp: dwalk_back_def Let_def split: if_splits bind_split_asm)

lemma dwalk_chop_groups:
  assumes rep: "dl_rep bs leaf L" and pos: "walk_pos L w i" and c: "dwalk_chop bs leaf w = Some (leaf', w')"
  shows "dl_groups leaf' \<le> w_group w"
proof -
  consider "dwalk_end w" | "\<not> dwalk_end w" "dwalk_first w" | "\<not> dwalk_end w" "\<not> dwalk_first w" by blast
  then show ?thesis
  proof cases
    case 1
    then have "leaf' = leaf" "w_group w = length L"
      using c walk_end_pos [OF pos] by (auto simp: dwalk_chop_def walk_end_def)
    then show ?thesis using dl_repD(4) [OF rep] by simp
  next
    case 2
    then show ?thesis using c by (auto simp: dwalk_chop_def Let_def split: bind_split_asm)
  next
    case 3
    then obtain r b where b: "dwalk_back leaf w = Some (r, b)" using c by (auto simp: dwalk_chop_def split: bind_split_asm)
    have "dl_groups leaf' = wrap16 (w_group b)"
      using c 3 b by (auto simp: dwalk_chop_def Let_def put_word_def set_dleaf_groups_def split: bind_split_asm)
    also have "\<dots> \<le> w_group b" by (simp add: wrap16_def)
    finally show ?thesis using dwalk_back_group [OF b] by simp
  qed
qed

lemma dwalk_copy_groups:
  assumes rep: "dl_rep bs leaf L" and pos: "walk_pos L w i" and c: "dwalk_copy bs leaf w dest = Some dest'"
    and i: "i < length (leaf_keys L)"
  shows "dl_groups dest' + w_group w \<le> Suc (length L)"
proof -
  have e: "\<not> dwalk_end w" using walk_pos_end [OF pos] i by simp
  obtain j t where at: "walk_at L w j t" "i = skips L j + t" using pos i by (auto simp: walk_pos_def)
  show ?thesis
  proof (cases "dwalk_first w")
    case True
    then have "dest' = leaf" using c e by (auto simp: dwalk_copy_def split: bind_split_asm)
    moreover have "j = 0"
    proof (rule ccontr)
      assume "j \<noteq> 0"
      then have "skips L 1 \<le> skips L j" by (intro skips_mono) simp
      moreover have "0 < skips L 1" using at(1) group_okD(2) [OF rep_group_ok [OF rep, of 0]] skips_Suc [of 0 L]
        by (cases "length L") (auto simp: walk_at_def)
      ultimately show False using True walk_pos_first [OF pos] at(2) by simp
    qed
    ultimately show ?thesis using at(1) dl_repD(4) [OF rep] by (simp add: walk_at_def)
  next
    case False
    then have "dl_groups dest' = wrap16 (w_gstop w + 1 - w_group w)"
      using c e by (auto simp: dwalk_copy_def Let_def split: bind_split_asm)
    also have "\<dots> \<le> w_gstop w + 1 - w_group w" by (simp add: wrap16_def)
    finally have "dl_groups dest' \<le> length L + 1 - Suc j" "j < length L" "w_group w = Suc j"
      using at(1) by (simp_all add: walk_at_def)
    then show ?thesis by linarith
  qed
qed

section \<open>Packing with room\<close>

definition item_ok :: "nat \<times> nat \<times> nat \<Rightarrow> bool" where
  "item_ok e \<longleftrightarrow> (case e of (key, b, n) \<Rightarrow> key < 2 ^ 48 \<and> 0 < b \<and> b < 2 ^ 48 \<and> 0 < n \<and> n \<le> 64 \<and> key mod 2 ^ 24 + n \<le> 2 ^ 24)"

lemma put_block_id [simp]:
  "cache st b = Some x \<Longrightarrow> put_block st b x = st" "put_block (put_block st b x) b y = put_block st b y"
  by (simp_all add: put_block_def fun_upd_idem)

lemma leaf_of_stored [simp]: "leaf_of (put_block st b (Leaf l)) b = Some l"
  by (simp add: leaf_of_def put_block_def)

lemma leaf_of_Some: "leaf_of st b = Some l \<longleftrightarrow> cache st b = Some (Leaf l)"
  by (auto simp: leaf_of_def split: option.splits tblock.splits)

lemma map_pack_room:
  assumes "leaf_of st b = Some leaf" "dl_rep bs leaf L" "walk_add L w" "16 * length items + dl_free leaf \<le> dl_used leaf"
    "between lo (map snd items) hi" "\<And>k. k \<in> set (leaf_keys L) \<Longrightarrow> k < lo" "\<forall>x\<in>set items. item_ok (snd x)"
  shows "\<exists>leaf' L'. map_pack bs st c b w items = Some (Inr b, put_block st b (Leaf leaf'), c)
    \<and> dl_rep bs leaf' L' \<and> leaf_extents leaf' L' = leaf_extents leaf L @ map snd items
    \<and> dl_used leaf - dl_free leaf \<le> dl_used leaf' - dl_free leaf' + 16 * length items"
  using assms
proof (induction items arbitrary: st leaf L w lo)
  case Nil
  then show ?case by (intro exI [of _ leaf] exI [of _ L]) (simp add: leaf_of_Some)
next
  case (Cons item items)
  obtain index key blk n where item: "item = (index, key, blk, n)" by (cases item)
  have k: "lo \<le> key" "between (key + n) (map snd items) hi" using Cons.prems(5) by (simp_all add: item)
  have ok: "key < 2 ^ 48" "0 < blk" "blk < 2 ^ 48" "0 < n" "n \<le> 64" using Cons.prems(7) by (simp_all add: item item_ok_def)
  obtain x where x: "make_extent blk n = Some x" "extent_block x = blk" "extent_count x = n"
    by (rule make_extent_fields [OF ok(3-5)])
  have room: "dl_free leaf + 16 \<le> dl_used leaf" using Cons.prems(4) by simp
  have keys: "\<forall>k\<in>set (leaf_keys L). k < key" using Cons.prems(6) k(1) by fastforce
  obtain leaf1 w1 L1 where a: "dwalk_add bs leaf w key x = Some (leaf1, w1)" "dl_rep bs leaf1 L1"
    "leaf_keys L1 = leaf_keys L @ [key]" "dl_table leaf1 = dl_table leaf @ [x]" "walk_add L1 w1"
    "dl_used leaf1 - dl_free leaf1 + 16 \<ge> dl_used leaf - dl_free leaf"
    by (rule dwalk_add_rep [OF Cons.prems(2,3) keys ok(1) _ room, of x]) (use x ok in auto)
  have X: "leaf_extents leaf1 L1 = leaf_extents leaf L @ [(key, blk, n)]"
    using a(3,4) x dl_repD(6) [OF Cons.prems(2)] by (simp add: leaf_extents_def)
  let ?st = "put_block st b (Leaf leaf1)"
  have "dl_free leaf1 \<le> dl_used leaf1" using dl_repD(8,9,10) [OF a(2)] by simp
  then have "16 * length items + dl_free leaf1 \<le> dl_used leaf1" using a(6) Cons.prems(4) by simp
  moreover have "k' < key + n" if "k' \<in> set (leaf_keys L1)" for k' using that a(3) keys ok(4) by auto
  ultimately obtain leaf' L' where r: "map_pack bs ?st c b w1 items = Some (Inr b, put_block ?st b (Leaf leaf'), c)"
    "dl_rep bs leaf' L'" "leaf_extents leaf' L' = leaf_extents leaf1 L1 @ map snd items"
    "dl_used leaf1 - dl_free leaf1 \<le> dl_used leaf' - dl_free leaf' + 16 * length items"
    using Cons.IH [OF _ a(2,5) _ k(2), of ?st] Cons.prems(7) by auto
  have "\<not> dleaf_free leaf < DLEAF_MAX_EXTENT_SIZE"
    using rep_free [OF Cons.prems(2)] room by (simp add: DLEAF_MAX_EXTENT_SIZE_def)
  then have "map_pack bs st c b w (item # items) = map_pack bs ?st c b w1 items"
    using Cons.prems(1) x(1) a(1) by (simp add: item pack_room_def)
  then show ?case using r X a(6) by (intro exI [of _ leaf'] exI [of _ L']) (simp add: item)
qed

lemma rep_need: "dl_rep bs leaf L \<Longrightarrow> dleaf_need bs leaf = 4 * length L + 12 * length (leaf_keys L)"
  using dl_repD(8,9,10,11) [of bs leaf L] rep_free [of bs leaf L]
  by (simp add: dleaf_need_def wrap_simps DLEAF_SIZE_def)

lemma rep_room:
  "dl_rep bs leaf L \<Longrightarrow> dl_used leaf = dl_free leaf + dleaf_free leaf"
  "dl_rep bs leaf L \<Longrightarrow> dleaf_free leaf + 4 * length L + 12 * length (leaf_keys L) + 8 = bs"
  using dl_repD(8,9,10,11) [of bs leaf L] rep_free [of bs leaf L] by (simp_all add: DLEAF_SIZE_def)

lemma keys_between:
  assumes rep: "dl_rep bs leaf L" and bet: "between lo (leaf_extents leaf L) hi" and k: "k \<in> set (leaf_keys L)"
  shows "lo \<le> k" "k < hi"
proof -
  obtain p where p: "p < length (leaf_keys L)" "k = leaf_keys L ! p" using k by (auto simp: in_set_conv_nth)
  have "(k, extent_block (dl_table leaf ! p), extent_count (dl_table leaf ! p)) \<in> set (leaf_extents leaf L)"
    using p length_leaf_extents [OF rep] nth_leaf_extents [OF rep p(1)] by (metis nth_mem)
  then have "lo \<le> k \<and> k + extent_count (dl_table leaf ! p) \<le> hi" using between_bounds [OF bet] by simp
  then show "lo \<le> k" "k < hi" using extent_count_pos [of "dl_table leaf ! p"] by auto
qed

text \<open>The cut of the leaf, and the copy of its end.\<close>

lemma cut_leaf:
  assumes rep: "dl_rep bs leaf L" and head: "walk_pos L head i"
  obtains leaf1 head1 L1 where "dwalk_chop bs leaf head = Some (leaf1, head1)" "dl_rep bs leaf1 L1" "walk_end L1 head1"
    "leaf_extents leaf1 L1 = take i (leaf_extents leaf L)" "length L1 \<le> w_group head"
    "dleaf_free leaf1 + 4 * length L1 = dleaf_free leaf + 12 * (length (leaf_keys L) - i) + 4 * length L"
proof -
  obtain leaf1 head1 L1 where h: "dwalk_chop bs leaf head = Some (leaf1, head1)" "dl_rep bs leaf1 L1"
    "leaf_keys L1 = take i (leaf_keys L)" "dl_table leaf1 = take i (dl_table leaf)" "walk_end L1 head1"
    by (rule dwalk_chop_rep [OF rep head])
  have "leaf_extents leaf1 L1 = take i (leaf_extents leaf L)" using h(3,4) by (simp add: leaf_extents_def take_zip take_map)
  moreover have "length L1 \<le> w_group head" using dwalk_chop_groups [OF rep head h(1)] dl_repD(4) [OF h(2)] by simp
  moreover have "dleaf_free leaf1 + 4 * length L1 = dleaf_free leaf + 12 * (length (leaf_keys L) - i) + 4 * length L"
    using rep_room(2) [OF rep] rep_room(2) [OF h(2)] h(3) walk_pos_extent [OF head] by simp linarith
  ultimately show thesis using that h by blast
qed

lemma copy_tail:
  assumes rep: "dl_rep bs leaf L" and walk: "walk_pos L walk i" and i: "i < length (leaf_keys L)"
  obtains tail T where "dwalk_copy bs leaf walk (dleaf_init bs) = Some tail" "dl_rep bs tail T"
    "leaf_extents tail T = drop i (leaf_extents leaf L)" "length T + w_group walk \<le> Suc (length L)"
    "dleaf_need bs tail = 4 * length T + 12 * (length (leaf_keys L) - i)"
proof -
  have bs: "bs < 2 ^ 16" "DLEAF_SIZE \<le> bs" using dl_repD(10,11) [OF rep] by auto
  obtain tail T where d: "dwalk_copy bs leaf walk (dleaf_init bs) = Some tail" "dl_rep bs tail T"
    "leaf_keys T = drop i (leaf_keys L)" "dl_table tail = drop i (dl_table leaf)"
    by (rule dwalk_copy_rep [OF rep walk dleaf_init_rep [OF bs]])
  have "leaf_extents tail T = drop i (leaf_extents leaf L)" using d(3,4) by (simp add: leaf_extents_def drop_zip drop_map)
  moreover have "length T + w_group walk \<le> Suc (length L)"
    using dwalk_copy_groups [OF rep walk d(1) i] dl_repD(4) [OF d(2)] by simp
  moreover have "dleaf_need bs tail = 4 * length T + 12 * (length (leaf_keys L) - i)"
    using rep_need [OF d(2)] d(3) by simp
  ultimately show thesis using that d(1,2) by blast
qed

text \<open>The copy goes back behind what is in the leaf then.\<close>

lemma merge_tail:
  assumes rep: "dl_rep bs leaf L" and rep2: "dl_rep bs tail T" and need: "dleaf_need bs tail \<le> dleaf_free leaf"
    and bet: "between lo (leaf_extents leaf L) mid" "between mid (leaf_extents tail T) hi"
  obtains leaf' L' where "dleaf_merge bs leaf tail = Some leaf'" "dl_rep bs leaf' L'"
    "leaf_extents leaf' L' = leaf_extents leaf L @ leaf_extents tail T"
proof -
  have "\<forall>k\<in>set (leaf_keys L). \<forall>k2\<in>set (leaf_keys T). k < k2"
    using keys_between(2) [OF rep bet(1)] keys_between(1) [OF rep2 bet(2)] by fastforce
  then obtain leaf' L' where m: "dleaf_merge bs leaf tail = Some leaf'" "dl_rep bs leaf' L'"
    "leaf_keys L' = leaf_keys L @ leaf_keys T" "dl_table leaf' = dl_table leaf @ dl_table tail"
    by (rule dleaf_merge_rep [OF rep rep2 _ need])
  have "leaf_extents leaf' L' = leaf_extents leaf L @ leaf_extents tail T"
    using m(3,4) dl_repD(6) [OF rep] by (simp add: leaf_extents_def)
  then show thesis using that m by blast
qed

text \<open>
  The leaf is cut at extent \<open>i\<close>, the items go in, and the extents from \<open>i'\<close> on follow. One group
  may be cut in two, so eight bytes are needed beyond the items.
\<close>

lemma map_store_room:
  assumes leaf: "leaf_of st b = Some leaf" and rep: "dl_rep bs leaf L" and ap: "apart (leaf_extents leaf L)"
    and head: "walk_pos L head i" and walk: "walk_pos L walk i'" and i: "i \<le> i'"
    and room: "16 * length items + 8 \<le> dleaf_free leaf"
    and cut: "between 0 (take i (leaf_extents leaf L)) lo" "between lo (map snd items) hi"
      "between hi (drop i' (leaf_extents leaf L)) end"
    and items: "\<forall>x\<in>set items. item_ok (snd x)"
    and c: "cursor_leafbuf c = Some b" and dirty: "atomic st \<longrightarrow> t_dirty st b"
  shows "\<exists>leaf'. map_store bs st c b head walk items = Some (Inr (), mark_buffer_dirty (put_block st b (Leaf leaf')) b)
    \<and> leaf_rep bs leaf' (take i (leaf_extents leaf L) @ map snd items @ drop i' (leaf_extents leaf L))"
proof -
  let ?X = "leaf_extents leaf L" and ?n = "length (leaf_keys L)"
  let ?Y = "take i ?X @ map snd items"
  obtain leaf1 head1 L1 where h: "dwalk_chop bs leaf head = Some (leaf1, head1)" "dl_rep bs leaf1 L1" "walk_end L1 head1"
    "leaf_extents leaf1 L1 = take i ?X" "length L1 \<le> w_group head"
    "dleaf_free leaf1 + 4 * length L1 = dleaf_free leaf + 12 * (?n - i) + 4 * length L" by (rule cut_leaf [OF rep head])
  have "dleaf_free leaf \<le> dleaf_free leaf1" using h(5,6) walk_group_le [OF head] by simp
  then have fit: "16 * length items + dl_free leaf1 \<le> dl_used leaf1" using room rep_room(1) [OF h(2)] by simp
  have lo: "k < lo" if "k \<in> set (leaf_keys L1)" for k using keys_between(2) [OF h(2) _ that] cut(1) h(4) by simp
  let ?st1 = "put_block st b (Leaf leaf1)"
  obtain leaf2 L2 where q: "map_pack bs ?st1 c b head1 items = Some (Inr b, put_block ?st1 b (Leaf leaf2), c)"
    "dl_rep bs leaf2 L2" "leaf_extents leaf2 L2 = ?Y"
    "dl_used leaf1 - dl_free leaf1 \<le> dl_used leaf2 - dl_free leaf2 + 16 * length items"
    using map_pack_room [OF _ h(2) walk_end_add [OF h(3)] fit cut(2) lo items, of ?st1 b c] h(4) by auto
  have grp: "\<forall>(k, b, n)\<in>set (?Y @ drop i' ?X). k mod 2 ^ 24 + n \<le> 2 ^ 24"
    using ap items by (auto simp: apart_def item_ok_def dest: in_set_takeD in_set_dropD)
  have Y: "between 0 ?Y hi" by (rule between_append [OF cut(1,2)])
  have ap': "apart (?Y @ drop i' ?X)" by (rule between_apart [OF between_append [OF Y cut(3)] grp])
  have dn: "mark_buffer_dirty_non (put_block st b (Leaf l)) b = Some (mark_buffer_dirty (put_block st b (Leaf l)) b)" for l
    by (rule dirty_non_dirty) (use dirty in simp)
  show ?thesis
  proof (cases "i' < ?n")
    case True
    obtain tail T where t: "dwalk_copy bs leaf walk (dleaf_init bs) = Some tail" "dl_rep bs tail T"
      "leaf_extents tail T = drop i' ?X" "length T + w_group walk \<le> Suc (length L)"
      "dleaf_need bs tail = 4 * length T + 12 * (?n - i')" by (rule copy_tail [OF rep walk True])
    have "dleaf_free leaf1 \<le> dleaf_free leaf2 + 16 * length items"
      using q(4) rep_room(1) [OF h(2)] rep_room(1) [OF q(2)] by simp
    then have need: "dleaf_need bs tail < dleaf_free leaf2"
      using t(4,5) h(5,6) room walk_group_mono [OF head walk i] i by linarith
    obtain leaf3 L3 where m: "dleaf_merge bs leaf2 tail = Some leaf3" "dl_rep bs leaf3 L3" "leaf_extents leaf3 L3 = ?Y @ drop i' ?X"
      using merge_tail [OF q(2) t(2)] need Y cut(3) q(3) t(3) by (metis less_imp_le)
    have "map_store bs st c b head walk items = Some (Inr (), mark_buffer_dirty (put_block st b (Leaf leaf3)) b)"
      unfolding map_store_def leaf using t(1) True h(1) q(1) m(1) need c dn walk_pos_end [OF walk] walk_pos_extent [OF walk]
      by (simp add: map_tail_def)
    moreover have "leaf_rep bs leaf3 (?Y @ drop i' ?X)" unfolding leaf_rep_def using m(2,3) ap' by metis
    ultimately show ?thesis by auto
  next
    case False
    then have "map_store bs st c b head walk items = Some (Inr (), mark_buffer_dirty (put_block st b (Leaf leaf2)) b)"
      unfolding map_store_def leaf using h(1) q(1) c dn walk_pos_end [OF walk] walk_pos_extent [OF walk] by simp
    moreover have "leaf_rep bs leaf2 (?Y @ drop i' ?X)"
      using False q(2,3) ap' length_leaf_extents [OF rep] by (auto simp: leaf_rep_def)
    ultimately show ?thesis by auto
  qed
qed

end
