(* ===== verification/Tux_Mapping.thy ===== *)
theory Tux_Mapping
  imports Tux_Pack Tux_Expand
begin

text \<open>
  \<open>map_region\<close> on the tree of a file: what a file maps is one list of extents, the lists of its
  leaves put together, and the operation is an update of the function from the blocks of the
  file to the blocks of the volume that this list stands for.
\<close>

section \<open>Allocation of the holes\<close>

text \<open>What no allocation and no free of file data changes.\<close>

definition same_tree :: "('l, 'a) tree_scheme \<Rightarrow> ('l, 'a) tree_scheme \<Rightarrow> bool" where
  "same_tree st st' \<longleftrightarrow> cache st' = cache st \<and> t_root st' = t_root st \<and> node_max st' = node_max st \<and> atomic st' = atomic st
     \<and> t_dirty st' = t_dirty st \<and> volblocks st' = volblocks st \<and> blockbits st' = blockbits st"

lemma same_tree_refl: "same_tree st st"
  by (simp add: same_tree_def)

lemma same_tree_trans: "same_tree st st1 \<Longrightarrow> same_tree st1 st2 \<Longrightarrow> same_tree st st2"
  by (simp add: same_tree_def)

lemma same_tree_alloc: "same_tree st (alloc_extent st w n)"
  by (simp add: same_tree_def alloc_extent_def)

lemma same_tree_log: "same_tree st (add_log st e)"
  by (simp add: same_tree_def add_log_def)

text \<open>
  The segments \<open>T'\<close> have no hole: where \<open>T\<close> had one, there are the blocks \<open>nb\<close>, which were
  free and are all different.
\<close>

definition filled ::
  "nat \<Rightarrow> ('l, 'a) tree_scheme \<Rightarrow> seg list \<Rightarrow> seg list \<Rightarrow> ('l, 'a) tree_scheme \<Rightarrow> (nat \<Rightarrow> nat) \<Rightarrow> bool" where
  "filled create st T T' st' nb \<longleftrightarrow>
     map seg_count T' = map seg_count T
     \<and> (\<forall>s\<in>set T'. seg_state s \<noteq> SEG_HOLE)
     \<and> (\<forall>k < seg_total T. seg_at T' k = Some (case seg_at T k of Some v \<Rightarrow> v | None \<Rightarrow> nb k))
     \<and> (\<forall>k < seg_total T. seg_at T k = None \<longrightarrow> \<not> used st (nb k) \<and> used st' (nb k) \<and> nb k < volblocks st)
     \<and> (\<forall>k < seg_total T. \<forall>k' < seg_total T. seg_at T k = None \<and> seg_at T k' = None \<and> nb k = nb k' \<longrightarrow> k = k')"

lemma filled_Nil: "filled create st [] [] st nb"
  by (simp add: filled_def)

lemma filled_Cons:
  assumes "filled create st1 T T' st' nb" "seg_count s' = seg_count s" "seg_state s' \<noteq> SEG_HOLE"
    "if seg_state s = SEG_HOLE
     then (\<forall>x. used st1 x \<longleftrightarrow> used st x \<or> seg_block s' \<le> x \<and> x < seg_block s' + seg_count s)
       \<and> (\<forall>x. seg_block s' \<le> x \<and> x < seg_block s' + seg_count s \<longrightarrow> \<not> used st x \<and> x < volblocks st)
     else s' = s \<and> used st1 = used st"
    "volblocks st1 = volblocks st" "\<And>x. used st1 x \<Longrightarrow> used st' x"
  shows "filled create st (s # T) (s' # T') st' (\<lambda>k. if k < seg_count s then seg_block s' + k else nb (k - seg_count s))"
proof -
  note f = assms(1) [unfolded filled_def]
  let ?nb = "\<lambda>k. if k < seg_count s then seg_block s' + k else nb (k - seg_count s)"
  let ?c = "seg_count s"
  have new: "\<not> used st (?nb k) \<and> used st' (?nb k) \<and> ?nb k < volblocks st"
    if k: "k < seg_total (s # T)" "seg_at (s # T) k = None" for k
  proof (cases "k < ?c")
    case True
    then show ?thesis using k assms(4,6) by (auto split: if_splits)
  next
    case False
    then have "k - ?c < seg_total T" "seg_at T (k - ?c) = None" using k by auto
    then show ?thesis using f False assms(4,5) by (auto split: if_splits)
  qed
  have inj: "k = k'" if k: "k < seg_total (s # T)" "seg_at (s # T) k = None"
    and k': "k' < seg_total (s # T)" "seg_at (s # T) k' = None" and eq: "?nb k = ?nb k'" for k k'
  proof -
    have far: "\<not> (seg_block s' \<le> ?nb k \<and> ?nb k < seg_block s' + ?c)" if hole: "seg_state s = SEG_HOLE" and "\<not> k < ?c"
      and "k < seg_total (s # T)" "seg_at (s # T) k = None" for k
    proof -
      have "\<not> used st1 (nb (k - ?c))" using f that by auto
      then show ?thesis using assms(4) hole \<open>\<not> k < ?c\<close> by simp
    qed
    consider "k < ?c" "k' < ?c" | "k < ?c" "\<not> k' < ?c" | "\<not> k < ?c" "k' < ?c" | "\<not> k < ?c" "\<not> k' < ?c" by blast
    then show ?thesis
    proof cases
      case 2
      then have "seg_state s = SEG_HOLE" using k by (auto split: if_splits)
      then show ?thesis using far [OF _ 2(2) k'] eq 2 by simp
    next
      case 3
      then have "seg_state s = SEG_HOLE" using k' by (auto split: if_splits)
      then show ?thesis using far [OF _ 3(1) k] eq 3 by simp
    next
      case 4
      then have "k - ?c = k' - ?c" using f k k' eq by auto
      then show ?thesis using 4 by simp
    qed (use eq in simp)
  qed
  have at: "seg_at (s' # T') k = Some (case seg_at (s # T) k of Some v \<Rightarrow> v | None \<Rightarrow> ?nb k)"
    if "k < seg_total (s # T)" for k
    using f that assms(2-4) by (auto split: if_splits)
  show ?thesis
    unfolding filled_def using f assms(2,3) at new inj by auto
qed

text \<open>Either there is no space, or the holes are filled; the tree is as before.\<close>

lemma fill_segs_rep:
  assumes "wf_sb st" "\<forall>s\<in>set T. raw_seg s"
  shows "\<exists>r st'. fill_segs create st T = Some (r, st') \<and> same_tree st st' \<and> wf_sb st' \<and> (\<forall>x. used st x \<longrightarrow> used st' x)
    \<and> t_defree st' = t_defree st \<and> t_derollup st' = t_derollup st
    \<and> (case r of Inl e \<Rightarrow> e = ENOSPC | Inr T' \<Rightarrow> \<exists>nb. filled create st T T' st' nb)"
  using assms
proof (induction T arbitrary: st)
  case Nil
  then show ?case using filled_Nil by (auto simp: same_tree_refl)
next
  case (Cons s T)
  have raw: "0 < seg_count s" "\<forall>s\<in>set T. raw_seg s" using Cons.prems(2) by (auto simp: raw_seg_def)
  let ?n = "seg_count s"
  show ?case
  proof (cases "seg_state s = SEG_HOLE")
    case False
    obtain r st' where r: "fill_segs create st T = Some (r, st')" "same_tree st st'" "wf_sb st'" "\<forall>x. used st x \<longrightarrow> used st' x"
      "t_defree st' = t_defree st" "t_derollup st' = t_derollup st"
      "case r of Inl e \<Rightarrow> e = ENOSPC | Inr T' \<Rightarrow> \<exists>nb. filled create st T T' st' nb"
      using Cons.IH [OF Cons.prems(1) raw(2)] by blast
    show ?thesis
    proof (cases r)
      case (Inr T')
      then obtain nb where "filled create st T T' st' nb" using r(7) by auto
      from filled_Cons [OF this, of s s st] show ?thesis using r False Inr by auto
    qed (use r False in auto)
  next
    case hole: True
    show ?thesis
    proof (cases rule: balloc_cases [OF Cons.prems(1) raw(1)])
      case (1 w)
      let ?st1 = "add_log (alloc_extent st w ?n) (Balloc w ?n)"
      let ?s = "\<lparr>seg_block = w, seg_count = ?n, seg_state = if create = 2 then 0 else SEG_NEW\<rparr>"
      have u: "used ?st1 x \<longleftrightarrow> used st x \<or> w \<le> x \<and> x < w + ?n" for x using used_alloc_extent [OF 1(2)] by simp
      have free: "\<not> used st x \<and> x < volblocks st" if "w \<le> x" "x < w + ?n" for x
        using 1(2,3) that by (auto simp: free_window_def extent_ok_def)
      have st: "same_tree st ?st1" by (rule same_tree_trans [OF same_tree_alloc same_tree_log])
      have wf: "wf_sb ?st1" using wf_sb_alloc [OF Cons.prems(1) 1(2,3)] by simp
      obtain r st' where r: "fill_segs create ?st1 T = Some (r, st')" "same_tree ?st1 st'" "wf_sb st'" "\<forall>x. used ?st1 x \<longrightarrow> used st' x"
        "t_defree st' = t_defree ?st1" "t_derollup st' = t_derollup ?st1"
        "case r of Inl e \<Rightarrow> e = ENOSPC | Inr T' \<Rightarrow> \<exists>nb. filled create ?st1 T T' st' nb"
        using Cons.IH [OF wf raw(2)] by blast
      have fr: "t_defree ?st1 = t_defree st" "t_derollup ?st1 = t_derollup st" by (simp_all add: add_log_def alloc_extent_def)
      have eq: "fill_segs create st (s # T) = Some (map_sum id ((#) ?s) r, st')" using hole 1(1) r(1) by simp
      have mono: "\<forall>x. used st x \<longrightarrow> used st' x" using r(4) u by blast
      show ?thesis
      proof (cases r)
        case (Inr T')
        then obtain nb where f: "filled create ?st1 T T' st' nb" using r(7) by auto
        have "\<exists>nb. filled create st (s # T) (?s # T') st' nb"
          by (rule exI, rule filled_Cons [OF f, of ?s s st]) (use hole u free r(4) in \<open>auto simp: alloc_extent_def add_log_def\<close>)
        then show ?thesis using eq same_tree_trans [OF st r(2)] r(3,5,6) fr mono Inr by auto
      qed (use eq same_tree_trans [OF st r(2)] r(3,5-7) fr mono in auto)
    next
      case 2
      then show ?thesis using hole Cons.prems(1) by (auto simp: same_tree_refl)
    qed
  qed
qed

text \<open>What \<open>create = 2\<close> frees.\<close>

definition mapped_segs :: "seg list \<Rightarrow> (nat \<times> nat) list" where
  "mapped_segs segs = map (\<lambda>s. (seg_block s, seg_count s)) (filter (\<lambda>s. seg_state s \<noteq> SEG_HOLE) segs)"

lemma map_bfree_fields [simp]:
  "same_tree st (map_bfree ib st b n)" "used (map_bfree ib st b n) = used st" "wf_sb (map_bfree ib st b n) = wf_sb st"
  "t_defree (map_bfree ib st b n) = (if ib then t_defree st else t_defree st @ [(b, n)])"
  "t_derollup (map_bfree ib st b n) = (if ib then t_derollup st @ [(b, n)] else t_derollup st)"
  by (auto simp: map_bfree_def same_tree_def add_log_def used_def fun_eq_iff mapsize_def mapshift_def wf_sb_def wf_bitmap_def
      free_count_def blocksize_def Let_def)

lemma free_segs_fields:
  "same_tree st (free_segs ib st T)" "used (free_segs ib st T) = used st" "wf_sb (free_segs ib st T) = wf_sb st"
  "t_defree (free_segs ib st T) = t_defree st @ (if ib then [] else mapped_segs T)"
  "t_derollup (free_segs ib st T) = t_derollup st @ (if ib then mapped_segs T else [])"
  by (induction T arbitrary: st) (auto simp: same_tree_refl mapped_segs_def intro: same_tree_trans [OF map_bfree_fields(1)])

section \<open>The extents of the region\<close>

definition region_extents :: "nat \<Rightarrow> nat \<Rightarrow> nat \<Rightarrow> nat \<Rightarrow> seg list \<Rightarrow> nat \<Rightarrow> nat \<Rightarrow> (nat \<times> nat \<times> nat) list" where
  "region_extents start seg_start b bb T a ab = map snd (pack_items start seg_start b bb T a ab)"

lemma region_extents_eq:
  "region_extents start seg_start b bb T a ab = (if b \<noteq> 0 then [(seg_start, bb, b)] else [])
    @ map snd (seg_items start T) @ (if a \<noteq> 0 then [(start + seg_total T, ab, a)] else [])"
  by (simp add: region_extents_def pack_items_def Let_def seg_total_def)

lemma region_extents_between:
  "seg_start + b = start \<Longrightarrow> between seg_start (region_extents start seg_start b bb T a ab) (start + seg_total T + a)"
  unfolding region_extents_eq
  by (intro between_append [of seg_start _ start] between_append [of start _ "start + seg_total T"] seg_items_between) auto

lemma region_extents_map:
  assumes "seg_start + b = start" "\<forall>s\<in>set T. seg_state s \<noteq> SEG_HOLE"
  shows "map_block (region_extents start seg_start b bb T a ab) k =
    (if k < seg_start then None else if k < start then Some (bb + (k - seg_start))
     else if k < start + seg_total T then seg_at T (k - start)
     else if k < start + seg_total T + a then Some (ab + (k - (start + seg_total T))) else None)"
proof -
  let ?m = "map snd (seg_items start T)"
  have none: "seg_at T (k - start) \<noteq> None" if "start \<le> k" "k < start + seg_total T"
  proof -
    have "\<exists>v. seg_at T j = Some v" if "j < seg_total T" for j
      using that assms(2) by (induction T arbitrary: j) auto
    then show ?thesis using that by auto
  qed
  show ?thesis
    using assms(1) none seg_items_map [OF assms(2), of start k]
    by (auto simp: region_extents_eq map_block_append map_block_Cons map_block_def [of "[]"] split: option.split)
qed

lemma seg_items_set: "(key, blk, n) \<in> set (map snd (seg_items start T)) \<Longrightarrow>
    \<exists>A s B. T = A @ s # B \<and> key = start + seg_total A \<and> blk = seg_block s \<and> n = seg_count s"
proof (induction T arbitrary: start)
  case (Cons t T)
  show ?case
  proof (cases "(key, blk, n) = (start, seg_block t, seg_count t)")
    case True
    then show ?thesis by (intro exI [of _ "[]"] exI [of _ t] exI [of _ T]) simp
  next
    case False
    then have "(key, blk, n) \<in> set (map snd (seg_items (start + seg_count t) T))" using Cons.prems by auto
    then obtain A s B where "T = A @ s # B" "key = start + seg_count t + seg_total A" "blk = seg_block s" "n = seg_count s"
      using Cons.IH by blast
    then show ?thesis by (intro exI [of _ "t # A"] exI [of _ s] exI [of _ B]) simp
  qed
qed simp

lemma within_window: "start mod m + len \<le> m \<Longrightarrow> d + n \<le> len \<Longrightarrow> 0 < n \<Longrightarrow> (start + d) mod m + n \<le> (m :: nat)"
proof -
  assume a: "start mod m + len \<le> m" "d + n \<le> len" "0 < n"
  then have "start mod m + d < m" by linarith
  then have "(start + d) mod m = start mod m + d" by (metis mod_add_left_eq mod_less)
  then show ?thesis using a by simp
qed

lemma region_extents_ok:
  assumes "seg_start + b = start" "start + seg_total T < 2 ^ 48" "seg_total T \<le> 64" "start mod 2 ^ 24 + seg_total T \<le> 2 ^ 24"
    and b: "b \<noteq> 0 \<Longrightarrow> 0 < bb \<and> bb < 2 ^ 48 \<and> b \<le> 64 \<and> seg_start mod 2 ^ 24 + b \<le> 2 ^ 24"
    and a: "a \<noteq> 0 \<Longrightarrow> 0 < ab \<and> ab < 2 ^ 48 \<and> a \<le> 64 \<and> (start + seg_total T) mod 2 ^ 24 + a \<le> 2 ^ 24"
    and T: "\<forall>s\<in>set T. 0 < seg_count s" "\<And>k v. k < seg_total T \<Longrightarrow> seg_at T k = Some v \<Longrightarrow> 0 < v \<and> v < 2 ^ 48"
      "\<forall>s\<in>set T. seg_state s \<noteq> SEG_HOLE"
  shows "\<forall>x\<in>set (pack_items start seg_start b bb T a ab). item_ok (snd x)"
proof -
  have seg: "item_ok (key, blk, n)" if mem: "(key, blk, n) \<in> set (map snd (seg_items start T))" for key blk n
  proof -
    from seg_items_set [OF mem] obtain A s B where s: "T = A @ s # B" "key = start + seg_total A" "blk = seg_block s" "n = seg_count s"
      by blast
    have n: "0 < n" "seg_total A + n \<le> seg_total T" using T(1) s by auto
    have "seg_at T (seg_total A) = Some blk" using T(1,3) s by (simp add: seg_at_append)
    then have "0 < blk \<and> blk < 2 ^ 48" using T(2) n by (metis add_leE less_add_same_cancel1 order_less_le_trans)
    then show ?thesis using n s(2) assms(2,3) within_window [OF assms(4) n(2,1)] by (simp add: item_ok_def)
  qed
  have "item_ok e" if mem: "e \<in> set (region_extents start seg_start b bb T a ab)" for e
  proof -
    have "b \<noteq> 0 \<and> e = (seg_start, bb, b) \<or> a \<noteq> 0 \<and> e = (start + seg_total T, ab, a) \<or> e \<in> set (map snd (seg_items start T))"
      using mem by (auto simp: region_extents_eq split: if_splits)
    moreover have "item_ok (seg_start, bb, b)" if "b \<noteq> 0" using b [OF that] that assms(1,2) by (simp add: item_ok_def)
    moreover have "item_ok (start + seg_total T, ab, a)" if "a \<noteq> 0" using a [OF that] that assms(2) by (simp add: item_ok_def)
    moreover have "item_ok e" if "e \<in> set (map snd (seg_items start T))" using seg that by (cases e) blast
    ultimately show ?thesis by blast
  qed
  then show ?thesis unfolding region_extents_def by auto
qed

lemma length_pack_items: "length (pack_items start seg_start b bb T a ab) \<le> length T + 2"
proof -
  have "length (seg_items s T) = length T" for s by (induction T arbitrary: s) simp_all
  then show ?thesis by (simp add: pack_items_def Let_def)
qed

section \<open>The leaf of the region\<close>

definition blocks_within :: "(nat \<times> nat \<times> nat) list \<Rightarrow> bool" where
  "blocks_within X \<longleftrightarrow> (\<forall>(k, b, n)\<in>set X. 0 < b \<and> b + n \<le> 2 ^ 48)"

lemma map_block_in: "map_block X k = Some v \<Longrightarrow> \<exists>i b n. (i, b, n) \<in> set X \<and> i \<le> k \<and> k < i + n \<and> v = b + (k - i)"
proof -
  assume "map_block X k = Some v"
  then obtain i b n where f: "find (\<lambda>(i, b, n). i \<le> k \<and> k < i + n) X = Some (i, b, n)" "v = b + (k - i)"
    by (auto simp: map_block_def split: option.splits)
  from f(1) obtain p where "p < length X" "X ! p = (i, b, n)" "i \<le> k \<and> k < i + n" by (auto simp: find_Some_iff)
  then have "(i, b, n) \<in> set X" by (metis nth_mem)
  then show ?thesis using f(2) \<open>i \<le> k \<and> k < i + n\<close> by blast
qed

lemma map_block_within: "blocks_within X \<Longrightarrow> map_block X k = Some v \<Longrightarrow> 0 < v \<and> v < 2 ^ 48"
  using map_block_in [of X k v] unfolding blocks_within_def by fastforce

text \<open>Where the extents of a leaf can be cut.\<close>

lemma take_between:
  assumes rep: "dl_rep bs leaf L" and ap: "apart (leaf_extents leaf L)"
    and "\<And>p. p < i \<Longrightarrow> p < length (leaf_keys L) \<Longrightarrow> extent_end leaf L p \<le> c"
  shows "between 0 (take i (leaf_extents leaf L)) c"
proof (rule apart_between [OF apart_take [OF ap]])
  fix k bl m assume mem: "(k, bl, m) \<in> set (take i (leaf_extents leaf L))"
  obtain p where p: "p < i" "p < length (leaf_keys L)" "(k, bl, m) = leaf_extents leaf L ! p"
    using mem length_leaf_extents [OF rep] by (auto simp: in_set_conv_nth)
  then have "k + m = extent_end leaf L p" using nth_leaf_extents [OF rep p(2)] by (simp add: extent_end_def)
  then show "0 \<le> k \<and> k + m \<le> c" using assms(3) [OF p(1,2)] by simp
qed simp

lemma drop_between:
  assumes rep: "dl_rep bs leaf L" and ap: "apart (leaf_extents leaf L)"
    and c: "i < length (leaf_keys L) \<Longrightarrow> c \<le> leaf_keys L ! i"
  obtains top where "between c (drop i (leaf_extents leaf L)) top"
proof -
  let ?X = "leaf_extents leaf L"
  obtain hi where hi: "between 0 ?X hi" using ap apart_iff_between by blast
  have "between c (drop i ?X) (max hi c)"
  proof (rule apart_between)
    show "apart (drop i ?X)" using ap by (auto simp: apart_def dest: in_set_dropD)
    fix k bl m assume mem: "(k, bl, m) \<in> set (drop i ?X)"
    then obtain q where q: "q < length (drop i ?X)" "(k, bl, m) = drop i ?X ! q" by (auto simp: in_set_conv_nth)
    then have p: "i + q < length (leaf_keys L)" "(k, bl, m) = ?X ! (i + q)" using length_leaf_extents [OF rep] by auto
    have "leaf_keys L ! i \<le> leaf_keys L ! (i + q)"
      using p rep_keys_less [OF rep, of i "i + q"] by (cases "q = 0") auto
    moreover have "k = leaf_keys L ! (i + q)" using p nth_leaf_extents [OF rep p(1)] by simp
    ultimately show "c \<le> k \<and> k + m \<le> max hi c"
      using c p(1) between_bounds [OF hi, of k bl m] mem by (auto dest: in_set_dropD)
  qed simp
  then show thesis by (rule that)
qed

lemma region_cut:
  assumes rep: "dl_rep bs leaf L" and ap: "apart (leaf_extents leaf L)"
    and at: "probe_at leaf L start i" and reg: "region leaf L start limit n i T seg_start b a i'"
  obtains top top' where "between 0 (take i (leaf_extents leaf L)) seg_start"
    "between (start + seg_total T + a) (drop i' (leaf_extents leaf L)) top"
    "between seg_start (drop i (leaf_extents leaf L)) top'"
    "between 0 (take i' (leaf_extents leaf L)) (start + seg_total T + a)"
proof -
  let ?X = "leaf_extents leaf L" and ?E = "start + seg_total T + a" and ?n = "length (leaf_keys L)"
  have dis: "disjoint_extents leaf L" using ap apart_extents [OF rep] by simp
  have r: "seg_start = region_base L i start" "probe_at leaf L ?E i'" "region_base L i' ?E = ?E"
    using reg by (simp_all add: region_def)
  have "extent_end leaf L p \<le> seg_start" if p: "p < i" for p
  proof (cases "i < ?n \<and> leaf_keys L ! i < start")
    case True
    then show ?thesis using disjoint_end_le [OF rep dis p] r(1) by (simp add: region_base_def)
  next
    case False
    then have "seg_start = start" using r(1) by (auto simp: region_base_def)
    then show ?thesis using at p by (simp add: probe_at_def below_key_def)
  qed
  then have A: "between 0 (take i ?X) seg_start" by (intro take_between [OF rep ap])
  have D: "between 0 (take i' ?X) ?E"
    by (rule take_between [OF rep ap]) (use r(2) in \<open>simp add: probe_at_def below_key_def\<close>)
  obtain top' where C: "between seg_start (drop i ?X) top'"
    by (rule drop_between [OF rep ap, of i seg_start]) (auto simp: r(1) region_base_def)
  obtain top where "between ?E (drop i' ?X) top"
    by (rule drop_between [OF rep ap, of i' ?E]) (use r(3) in \<open>auto simp: region_base_def split: if_splits\<close>)
  then show thesis using that A C D by blast
qed

text \<open>The parts of the first and of the last extent outside the region.\<close>

lemma region_ends:
  assumes rep: "dl_rep bs leaf L" and ap: "apart (leaf_extents leaf L)" and bw: "blocks_within (leaf_extents leaf L)"
    and at: "probe_at leaf L start i" and reg: "region leaf L start limit n i T seg_start b a i'"
  shows "b \<noteq> 0 \<Longrightarrow> 0 < seg_block (T ! 0) - b \<and> seg_block (T ! 0) - b < 2 ^ 48 \<and> b \<le> 64 \<and> seg_start mod 2 ^ 24 + b \<le> 2 ^ 24"
    "a \<noteq> 0 \<Longrightarrow> 0 < seg_block (T ! (length T - 1)) + seg_count (T ! (length T - 1))
      \<and> seg_block (T ! (length T - 1)) + seg_count (T ! (length T - 1)) < 2 ^ 48 \<and> a \<le> 64
      \<and> (start + seg_total T) mod 2 ^ 24 + a \<le> 2 ^ 24"
proof -
  let ?X = "leaf_extents leaf L" and ?E = "start + seg_total T + a" and ?n = "length (leaf_keys L)"
  have r: "seg_start = region_base L i start" "seg_start + b = start" "probe_at leaf L ?E i'"
    "\<forall>k<b. map_block ?X (seg_start + k) = Some (seg_block (T ! 0) - b + k)"
    "\<forall>k<a. map_block ?X (start + seg_total T + k) = Some (seg_block (T ! (length T - 1)) + seg_count (T ! (length T - 1)) + k)"
    "0 < a \<longrightarrow> 0 < i' \<and> ?E = extent_end leaf L (i' - 1) \<and> leaf_keys L ! (i' - 1) < start + seg_total T"
    using reg unfolding region_def by blast+
  have win: "leaf_keys L ! p mod 2 ^ 24 + extent_count (dl_table leaf ! p) \<le> 2 ^ 24" if "p < ?n" for p
    using ap apart_extents [OF rep] that by (simp add: extents_within_def)
  show "0 < seg_block (T ! 0) - b \<and> seg_block (T ! 0) - b < 2 ^ 48 \<and> b \<le> 64 \<and> seg_start mod 2 ^ 24 + b \<le> 2 ^ 24" if "b \<noteq> 0"
  proof -
    have i: "i < ?n" "seg_start = leaf_keys L ! i" using r(1,2) that by (auto simp: region_base_def split: if_splits)
    then have "b < extent_count (dl_table leaf ! i)" using at r(2) by (simp add: probe_at_def extent_end_def)
    then show ?thesis
      using map_block_within [OF bw, of "seg_start + 0"] r(4) that win [OF i(1)] i(2) extent_bounds(2) [of "dl_table leaf ! i"] by auto
  qed
  show "0 < seg_block (T ! (length T - 1)) + seg_count (T ! (length T - 1))
      \<and> seg_block (T ! (length T - 1)) + seg_count (T ! (length T - 1)) < 2 ^ 48 \<and> a \<le> 64
      \<and> (start + seg_total T) mod 2 ^ 24 + a \<le> 2 ^ 24" if "a \<noteq> 0"
  proof -
    let ?p = "i' - 1" let ?d = "start + seg_total T - leaf_keys L ! ?p"
    have p: "?p < ?n" "?E = extent_end leaf L ?p" "leaf_keys L ! ?p < start + seg_total T"
      using r(3,6) that by (auto simp: probe_at_def)
    then have "?d + a = extent_count (dl_table leaf ! ?p)" by (simp add: extent_end_def)
    then have "(leaf_keys L ! ?p + ?d) mod 2 ^ 24 + a \<le> 2 ^ 24" "a \<le> 64"
      using within_window [OF win [OF p(1)], of ?d a] that extent_bounds(2) [of "dl_table leaf ! ?p"] by simp_all
    moreover have "leaf_keys L ! ?p + ?d = start + seg_total T" using p(3) by simp
    moreover have "map_block ?X (start + seg_total T + 0) = Some (seg_block (T ! (length T - 1)) + seg_count (T ! (length T - 1)) + 0)"
      using r(5) that by blast
    ultimately show ?thesis using map_block_within [OF bw, of "start + seg_total T + 0"] by simp
  qed
qed

section \<open>Writing to the leaf\<close>

text \<open>The map that the holes are filled in: with \<open>create = 2\<close> the region is one hole.\<close>

definition fill_map :: "nat \<Rightarrow> seg list \<Rightarrow> seg list" where
  "fill_map create T = (if create = 2 then [\<lparr>seg_block = 0, seg_count = seg_total T, seg_state = SEG_HOLE\<rparr>] else T)"

lemma seg_total_fill [simp]: "seg_total (fill_map create T) = seg_total T"
  by (simp add: fill_map_def)

lemma filled_facts:
  assumes f: "filled create st S S' st' nb" and "\<forall>s\<in>set S. raw_seg s" "used st 0" "volblocks st < 2 ^ 48"
    and old: "\<forall>k v. k < seg_total S \<and> seg_at S k = Some v \<longrightarrow> 0 < v \<and> v < 2 ^ 48"
  shows "seg_total S' = seg_total S" "length S' = length S" "\<forall>s\<in>set S'. 0 < seg_count s" "\<forall>s\<in>set S'. seg_state s \<noteq> SEG_HOLE"
    "\<And>k v. k < seg_total S' \<Longrightarrow> seg_at S' k = Some v \<Longrightarrow> 0 < v \<and> v < 2 ^ 48"
proof -
  have m: "map seg_count S' = map seg_count S" using f by (simp add: filled_def)
  then show t: "seg_total S' = seg_total S" by (simp add: seg_total_def)
  show "length S' = length S" using m by (metis length_map)
  have "0 < seg_count s" if "s \<in> set S'" for s
  proof -
    have "seg_count s \<in> set (map seg_count S)" using that m by (metis image_eqI list.set_map)
    then show ?thesis using assms(2) by (auto simp: raw_seg_def)
  qed
  then show "\<forall>s\<in>set S'. 0 < seg_count s" by blast
  show "\<forall>s\<in>set S'. seg_state s \<noteq> SEG_HOLE" using f by (simp add: filled_def)
  show "0 < v \<and> v < 2 ^ 48" if k: "k < seg_total S'" "seg_at S' k = Some v" for k v
  proof (cases "seg_at S k")
    case None
    then have "v = nb k" "\<not> used st (nb k)" "nb k < volblocks st" using f k t by (auto simp: filled_def)
    then show ?thesis using assms(3,4) by (cases "v = 0") auto
  next
    case (Some w)
    then have "v = w" using f k t by (auto simp: filled_def)
    then show ?thesis using old Some k(1) t by simp
  qed
qed

lemma cursor_redirect_dirty:
  assumes "atomic st \<longrightarrow> t_dirty st b" "length (path c) = Suc (root_depth (t_root st))" "fst (last (path c)) = b"
  shows "cursor_redirect st c = Some (Inr (), st, c)"
proof -
  have "fst (path c ! root_depth (t_root st)) = b"
    using assms(2,3) by (metis diff_Suc_1 last_conv_nth length_0_conv nat.distinct(1))
  then show ?thesis using assms(1,2) by (cases "root_depth (t_root st)") (simp_all add: cursor_redirect_def cursor_len_def)
qed

lemma blocksize_same: "same_tree st st' \<Longrightarrow> blocksize st' = blocksize st"
  by (simp add: same_tree_def blocksize_def)

text \<open>The blocks of the region are freed, if they are, and the holes filled.\<close>

lemma redirect_fill:
  fixes st :: "(dleaf, 'a) tree_scheme"
  assumes "wf_sb st" "\<forall>s\<in>set T. raw_seg s" "0 < seg_total T" "seg_total T < 2 ^ 32"
  obtains st0 r st1 where "(if create = 2 then redirect_segs ib st T else (T, st)) = (fill_map create T, st0)"
    "fill_segs create st0 (fill_map create T) = Some (r, st1)" "same_tree st st1" "wf_sb st1" "\<forall>x. used st x \<longrightarrow> used st1 x"
    "t_defree st1 = t_defree st @ (if create = 2 \<and> \<not> ib then mapped_segs T else [])"
    "t_derollup st1 = t_derollup st @ (if create = 2 \<and> ib then mapped_segs T else [])"
    "case r of Inl e \<Rightarrow> e = ENOSPC | Inr S \<Rightarrow> \<exists>fb. filled create st (fill_map create T) S st1 fb"
proof -
  let ?S = "fill_map create T" and ?st0 = "if create = 2 then free_segs ib st T else st"
  have raw: "\<forall>s\<in>set ?S. raw_seg s" using assms(2-4) by (auto simp: fill_map_def raw_seg_def)
  have st0: "same_tree st ?st0" "used ?st0 = used st" "wf_sb ?st0" "volblocks ?st0 = volblocks st"
    using free_segs_fields(1-3) [where st = st and ib = ib and T = T] assms(1) by (auto simp: same_tree_refl same_tree_def)
  have redir: "(if create = 2 then redirect_segs ib st T else (T, st)) = (?S, ?st0)"
    using assms(4) by (simp add: redirect_segs_def fill_map_def seg_total_def wrap32_def)
  obtain r st1 where f: "fill_segs create ?st0 ?S = Some (r, st1)" "same_tree ?st0 st1" "wf_sb st1"
    "\<forall>x. used ?st0 x \<longrightarrow> used st1 x" "t_defree st1 = t_defree ?st0" "t_derollup st1 = t_derollup ?st0"
    "case r of Inl e \<Rightarrow> e = ENOSPC | Inr S \<Rightarrow> \<exists>fb. filled create ?st0 ?S S st1 fb"
    using fill_segs_rep [OF st0(3) raw, of create] by blast
  show thesis
  proof (rule that [OF redir f(1) same_tree_trans [OF st0(1) f(2)] f(3)])
    show "\<forall>x. used st x \<longrightarrow> used st1 x" using f(4) unfolding st0(2) .
    show "case r of Inl e \<Rightarrow> e = ENOSPC | Inr S \<Rightarrow> \<exists>fb. filled create st ?S S st1 fb"
      using f(7) unfolding filled_def st0(2,4) .
  qed (use f(5,6) in \<open>simp_all add: free_segs_fields\<close>)
qed

text \<open>What the leaf gets is admissible.\<close>

lemma region_items:
  assumes leaf: "dl_rep bs leaf L" "apart (leaf_extents leaf L)" "blocks_within (leaf_extents leaf L)" "probe_at leaf L start i"
    and reg: "region leaf L start limit n i T seg_start nb na i'" and st: "used st 0" "volblocks st < 2 ^ 48"
    and fb: "filled create st (fill_map create T) S st' fb"
    and tot: "0 < seg_total T" "seg_total T \<le> 64" "start + seg_total T < 2 ^ 48" "start mod 2 ^ 24 + seg_total T \<le> 2 ^ 24"
  defines "items \<equiv> pack_items start seg_start nb (seg_block (T ! 0) - nb) S na (seg_block (T ! (length T - 1)) + seg_count (T ! (length T - 1)))"
  shows "\<forall>x\<in>set items. item_ok (snd x)" "length items \<le> length T + 2" "between seg_start (map snd items) (start + seg_total T + na)"
proof -
  let ?S = "fill_map create T" and ?X = "leaf_extents leaf L"
  have r: "T \<noteq> []" "\<forall>s\<in>set T. raw_seg s" "seg_start + nb = start" "\<forall>k < seg_total T. seg_at T k = map_block ?X (start + k)"
    using reg unfolding region_def by blast+
  have raw: "\<forall>s\<in>set ?S. raw_seg s" using r(2) tot by (auto simp: fill_map_def raw_seg_def)
  have old: "\<forall>k v. k < seg_total ?S \<and> seg_at ?S k = Some v \<longrightarrow> 0 < v \<and> v < 2 ^ 48"
    using r(4) map_block_within [OF leaf(3)] by (auto simp: fill_map_def split: if_splits)
  note S = filled_facts [OF fb raw st old, unfolded seg_total_fill]
  note ends = region_ends [OF leaf reg]
  show "\<forall>x\<in>set items. item_ok (snd x)" unfolding items_def
    by (rule region_extents_ok; (unfold S(1))?; (rule r(3) tot S(3,4) | erule ends | erule S(5) [unfolded S(1)]); assumption?)
  have "length ?S \<le> length T" using r(1) by (cases T) (simp_all add: fill_map_def)
  then show "length items \<le> length T + 2"
    unfolding items_def using length_pack_items order.trans S(2) by (metis add_le_mono1)
  show "between seg_start (map snd items) (start + seg_total T + na)"
    using region_extents_between [OF r(3)] S(1) unfolding items_def region_extents_def by metis
qed

text \<open>
  The leaf at the cursor has room: then a write either finds no space and leaves the leaf as it
  is, or the extents of the region replace those that the leaf had there.
\<close>

lemma map_write_rep:
  assumes st: "wf_sb st" "used st 0" "volblocks st < 2 ^ 48" "blocksize st = bs"
    and leaf: "leaf_of st b = Some leaf" "dl_rep bs leaf L" "apart (leaf_extents leaf L)" "blocks_within (leaf_extents leaf L)"
    and walks: "walk_pos L head i" "walk_pos L walk i'" "probe_at leaf L start i"
    and reg: "region leaf L start limit n i T seg_start nb na i'"
    and len: "limit < 2 ^ 48" "limit \<le> start + len" "len \<le> 64" "start mod 2 ^ 24 + len \<le> 2 ^ 24"
    and room: "16 * (length T + 2) + 8 \<le> dleaf_free leaf"
    and cur: "length (path c) = Suc (root_depth (t_root st))" "fst (last (path c)) = b" "cursor_leafbuf c = Some b"
      "atomic st \<longrightarrow> t_dirty st b"
  shows "\<exists>r st'. map_write ib create st c b start head (T, seg_start, nb, na, walk) = Some (r, st')
    \<and> wf_sb st' \<and> (\<forall>x. used st x \<longrightarrow> used st' x)
    \<and> t_defree st' = t_defree st @ (if create = 2 \<and> \<not> ib then mapped_segs T else [])
    \<and> t_derollup st' = t_derollup st @ (if create = 2 \<and> ib then mapped_segs T else [])
    \<and> (case r of
         Inl e \<Rightarrow> e = ENOSPC \<and> same_tree st st'
       | Inr S \<Rightarrow> \<exists>st1 leaf' fb. st' = mark_buffer_dirty (put_block st1 b (Leaf leaf')) b \<and> same_tree st st1
           \<and> filled create st (fill_map create T) S st' fb
           \<and> leaf_rep bs leaf' (take i (leaf_extents leaf L)
               @ region_extents start seg_start nb (seg_block (T ! 0) - nb) S na
                   (seg_block (T ! (length T - 1)) + seg_count (T ! (length T - 1)))
               @ drop i' (leaf_extents leaf L)))"
proof -
  let ?bb = "seg_block (T ! 0) - nb" and ?ab = "seg_block (T ! (length T - 1)) + seg_count (T ! (length T - 1))"
  let ?X = "leaf_extents leaf L"
  have r: "T \<noteq> []" "\<forall>s\<in>set T. raw_seg s" "start + seg_total T \<le> limit" "i \<le> i'" using reg unfolding region_def by blast+
  have "0 < seg_count (hd T)" using r(1,2) by (cases T) (simp_all add: raw_seg_def)
  then have tot: "0 < seg_total T" "seg_total T \<le> 64" "start + seg_total T < 2 ^ 48" "start mod 2 ^ 24 + seg_total T \<le> 2 ^ 24"
    using r(3) len seg_total_hd_last(1) [OF r(1)] by linarith+
  have "seg_total T < 2 ^ 32" using tot(2) by simp
  then obtain st0 r1 st1 where f: "(if create = 2 then redirect_segs ib st T else (T, st)) = (fill_map create T, st0)"
    "fill_segs create st0 (fill_map create T) = Some (r1, st1)" "same_tree st st1" "wf_sb st1" "\<forall>x. used st x \<longrightarrow> used st1 x"
    "t_defree st1 = t_defree st @ (if create = 2 \<and> \<not> ib then mapped_segs T else [])"
    "t_derollup st1 = t_derollup st @ (if create = 2 \<and> ib then mapped_segs T else [])"
    "case r1 of Inl e \<Rightarrow> e = ENOSPC | Inr S \<Rightarrow> \<exists>fb. filled create st (fill_map create T) S st1 fb"
    by (rule redirect_fill [OF st(1) r(2) tot(1)])
  have w: "map_write ib create st c b start head (T, seg_start, nb, na, walk) = (case r1 of
       Inl err \<Rightarrow> Some (Inl err, st1)
     | Inr segs \<Rightarrow> do {
         (r, st, c) \<leftarrow> cursor_redirect st1 c;
         case r of
           Inl err \<Rightarrow> Some (Inl err, st)
         | Inr _ \<Rightarrow> do {
             (r, st) \<leftarrow> map_store (blocksize st) st c b head walk (pack_items start seg_start nb ?bb segs na ?ab);
             Some (map_sum id (\<lambda>_. segs) r, st) } })"
    unfolding map_write_def prod.case Let_def f(1) using f(2) by simp
  show ?thesis
  proof (cases r1)
    case (Inl e)
    then show ?thesis using w f(3-8) by auto
  next
    case (Inr S)
    then obtain fb where fb: "filled create st (fill_map create T) S st1 fb" using f(8) by auto
    let ?items = "pack_items start seg_start nb ?bb S na ?ab"
    note it = region_items [OF leaf(2-4) walks(3) reg st(2,3) fb tot]
    obtain top where cut: "between 0 (take i ?X) seg_start" "between (start + seg_total T + na) (drop i' ?X) top"
      using region_cut [OF leaf(2,3) walks(3) reg] by metis
    have rm: "16 * length ?items + 8 \<le> dleaf_free leaf" using it(2) room by simp
    have c1: "cache st1 = cache st" "t_root st1 = t_root st" "atomic st1 = atomic st" "t_dirty st1 = t_dirty st"
      using f(3) by (simp_all add: same_tree_def)
    have red: "cursor_redirect st1 c = Some (Inr (), st1, c)"
      by (rule cursor_redirect_dirty) (use cur c1 in auto)
    have lf: "leaf_of st1 b = Some leaf" using leaf(1) c1(1) by (simp add: leaf_of_Some)
    obtain leaf' where s: "map_store bs st1 c b head walk ?items = Some (Inr (), mark_buffer_dirty (put_block st1 b (Leaf leaf')) b)"
      "leaf_rep bs leaf' (take i ?X @ map snd ?items @ drop i' ?X)"
      using map_store_room [OF lf leaf(2,3) walks(1,2) r(4) rm cut(1) it(3) cut(2) it(1) cur(3)] cur(4) c1 by auto
    let ?st' = "mark_buffer_dirty (put_block st1 b (Leaf leaf')) b"
    have "map_write ib create st c b start head (T, seg_start, nb, na, walk) = Some (Inr S, ?st')"
      using w Inr red s(1) blocksize_same [OF f(3)] st(4) by simp
    moreover have "filled create st (fill_map create T) S ?st' fb" using fb by (simp add: filled_def)
    moreover have "t_defree ?st' = t_defree st1" "t_derollup ?st' = t_derollup st1"
      by (simp_all add: mark_buffer_dirty_def put_block_def)
    ultimately show ?thesis using f(3-7) s(2) unfolding region_extents_def by auto
  qed
qed

section \<open>What the leaf maps then\<close>

lemma region_map:
  assumes rep: "dl_rep bs leaf L" and ap: "apart (leaf_extents leaf L)"
    and at: "probe_at leaf L start i" and reg: "region leaf L start limit n i T seg_start nb na i'"
    and S: "\<forall>s\<in>set S. seg_state s \<noteq> SEG_HOLE" "seg_total S = seg_total T"
  shows "map_block (take i (leaf_extents leaf L)
      @ region_extents start seg_start nb (seg_block (T ! 0) - nb) S na (seg_block (T ! (length T - 1)) + seg_count (T ! (length T - 1)))
      @ drop i' (leaf_extents leaf L)) q
    = (if start \<le> q \<and> q < start + seg_total T then seg_at S (q - start) else map_block (leaf_extents leaf L) q)"
proof -
  let ?X = "leaf_extents leaf L" and ?E = "start + seg_total T + na"
  let ?bb = "seg_block (T ! 0) - nb" and ?ab = "seg_block (T ! (length T - 1)) + seg_count (T ! (length T - 1))"
  have r: "seg_start + nb = start" "\<forall>k<nb. map_block ?X (seg_start + k) = Some (?bb + k)"
    "\<forall>k<na. map_block ?X (start + seg_total T + k) = Some (?ab + k)" using reg unfolding region_def by blast+
  obtain top top' where cut: "between 0 (take i ?X) seg_start" "between ?E (drop i' ?X) top"
    "between seg_start (drop i ?X) top'" "between 0 (take i' ?X) ?E" by (rule region_cut [OF rep ap at reg])
  have mid: "between seg_start (region_extents start seg_start nb ?bb S na ?ab) ?E"
    using region_extents_between [OF r(1), of ?bb S na ?ab] S(2) by simp
  have low: "map_block ?X q = map_block (take i ?X) q" if "q < seg_start"
    using map_block_outside [OF cut(3)] that map_block_append [of "take i ?X" "drop i ?X" q] by (simp split: option.split)
  have high: "map_block ?X q = map_block (drop i' ?X) q" if "?E \<le> q"
    using map_block_outside [OF cut(4)] that map_block_append [of "take i' ?X" "drop i' ?X" q] by simp
  have b: "map_block ?X q = Some (?bb + (q - seg_start))" if "seg_start \<le> q" "q < start"
    using r(1,2) that by (metis add_diff_inverse_nat less_diff_conv2 not_less add.commute)
  have a: "map_block ?X q = Some (?ab + (q - (start + seg_total T)))" if "start + seg_total T \<le> q" "q < ?E"
    using r(3) that by (metis add_diff_inverse_nat less_diff_conv2 not_less add.commute)
  show ?thesis
    unfolding map_block_parts [OF cut(1) mid cut(2)] region_extents_map [OF r(1) S(1)] S(2)
    using low high a b r(1) by auto
qed

end
