(* ===== verification/Tux_File.thy ===== *)
theory Tux_File
  imports Tux_Mapping
begin

text \<open>
  A file as one list of extents, spread over the leaves of its tree, and the properties of
  \<open>map_region\<close>: what a read returns, what a write changes, and what happens when there is no space.
\<close>

section \<open>The extents of a file\<close>

definition leaf_lists :: "(nat \<Rightarrow> (nat \<times> nat \<times> nat) list) \<Rightarrow> (nat \<times> nat) list \<Rightarrow> (nat \<times> nat \<times> nat) list" where
  "leaf_lists G ls = concat (map (\<lambda>(k, b). G b) ls)"

text \<open>\<open>G\<close> gives the extents of each leaf. They lie between the low key of the leaf and those of the leaves behind it.\<close>

definition leaves_hold ::
  "nat \<Rightarrow> (dleaf, 'a) tree_scheme \<Rightarrow> (nat \<Rightarrow> (nat \<times> nat \<times> nat) list) \<Rightarrow> (nat \<times> nat) list \<Rightarrow> bool" where
  "leaves_hold bs st G ls \<longleftrightarrow>
     (\<forall>(k, b)\<in>set ls. \<exists>leaf. leaf_of st b = Some leaf \<and> leaf_rep bs leaf (G b) \<and> (\<forall>(i, bl, n)\<in>set (G b). k \<le> i))
     \<and> sorted_wrt (\<lambda>(k, b) (k', b'). k < k' \<and> (\<forall>(i, bl, n)\<in>set (G b). i + n \<le> k')) ls"

definition file_rep :: "(dleaf, 'a) tree_scheme \<Rightarrow> (nat \<times> nat \<times> nat) list \<Rightarrow> bool" where
  "file_rep st X \<longleftrightarrow> (\<exists>G. X = leaf_lists G (leaf_seq st) \<and> leaves_hold (blocksize st) st G (leaf_seq st))"

text \<open>
  The tree is well-formed, its blocks and those of the file are allocated, no block is at two
  places of the file and none of the tree is in the file. Block 0 is in use but not in a file.
\<close>

definition file_inv :: "(dleaf, 'a) tree_scheme \<Rightarrow> (nat \<times> nat \<times> nat) list \<Rightarrow> bool" where
  "file_inv st X \<longleftrightarrow> wf_tree (dtree_ops (blocksize st)) st \<and> 0 < root_depth (t_root st) \<and> wf_sb st \<and> used st 0
     \<and> (\<forall>x\<in>set (tree_blocks st). used st x) \<and> file_rep st X
     \<and> (\<forall>k v. map_block X k = Some v \<longrightarrow> 0 < v \<and> v < volblocks st \<and> used st v \<and> v \<notin> set (tree_blocks st))
     \<and> (\<forall>k k' v. map_block X k = Some v \<and> map_block X k' = Some v \<longrightarrow> k = k')"

lemma leaf_lists_simps [simp]:
  "leaf_lists G [] = []" "leaf_lists G ((k, b) # ls) = G b @ leaf_lists G ls"
  "leaf_lists G (ls @ ls') = leaf_lists G ls @ leaf_lists G ls'"
  by (simp_all add: leaf_lists_def)

lemma leaf_rep_apart: "leaf_rep bs leaf X \<Longrightarrow> apart X"
  by (auto simp: leaf_rep_def)

lemma leaf_rep_end:
  assumes "leaf_rep bs leaf X" "(i, bl, n) \<in> set X"
  shows "i + n \<le> 2 ^ 64 - 1"
proof -
  obtain L where L: "dl_rep bs leaf L" "X = leaf_extents leaf L" using assms(1) by (auto simp: leaf_rep_def)
  obtain p where p: "p < length (leaf_keys L)" "X ! p = (i, bl, n)"
    using assms(2) L(2) length_leaf_extents [OF L(1)] by (metis in_set_conv_nth)
  obtain j t where jt: "j < length L" "t < length (snd (L ! j))" "p = skips L j + t" by (rule position_cases [OF p(1)])
  note g = group_okD [OF rep_group_ok [OF L(1) jt(1)]]
  have "i = fst (L ! j) * 2 ^ 24 + snd (L ! j) ! t" "n \<le> 64"
    using p nth_leaf_extents [OF L(1) p(1)] nth_leaf_keys [OF jt(1,2)] jt(3) L(2) extent_bounds(2) by auto
  then show ?thesis using g(1) g(5) [OF jt(2)] by simp
qed

lemma leaves_between:
  assumes "leaves_hold bs st G ls" "lo \<le> hi" "\<And>k b. (k, b) \<in> set ls \<Longrightarrow> lo \<le> k \<and> k \<le> hi"
    "\<And>k b i bl n. (k, b) \<in> set ls \<Longrightarrow> (i, bl, n) \<in> set (G b) \<Longrightarrow> i + n \<le> hi"
  shows "between lo (leaf_lists G ls) hi"
  using assms
proof (induction ls arbitrary: lo)
  case (Cons l ls)
  obtain k b where l: "l = (k, b)" by (cases l)
  define m where "m = (if ls = [] then hi else fst (hd ls))"
  have h: "leaves_hold bs st G ls" "apart (G b)" "\<And>i bl n. (i, bl, n) \<in> set (G b) \<Longrightarrow> k \<le> i"
    using Cons.prems(1) leaf_rep_apart by (auto simp: leaves_hold_def l)
  have m: "k \<le> m" "m \<le> hi" "\<And>i bl n. (i, bl, n) \<in> set (G b) \<Longrightarrow> i + n \<le> m"
    using Cons.prems by (auto simp: m_def l leaves_hold_def neq_Nil_conv split: if_splits) (fastforce+)?
  have "between k (G b) m" by (rule apart_between) (use h m in auto)
  moreover have "between m (leaf_lists G ls) hi"
  proof (rule Cons.IH [OF h(1) m(2)])
    show "m \<le> k' \<and> k' \<le> hi" if "(k', b') \<in> set ls" for k' b'
      using that Cons.prems(1,3) by (cases ls) (auto simp: m_def l leaves_hold_def)
    show "i + n \<le> hi" if "(k', b') \<in> set ls" "(i, bl, n) \<in> set (G b')" for k' b' i bl n
      by (rule Cons.prems(4) [OF list.set_intros(2) [OF that(1)] that(2)])
  qed
  ultimately have "between k (G b @ leaf_lists G ls) hi" by (rule between_append)
  moreover have "lo \<le> k" using Cons.prems(3) [of k b] by (simp add: l)
  ultimately show ?case using between_mono by (simp add: l)
qed simp

lemma leaves_above:
  assumes "leaves_hold bs st G ls" "\<And>k b. (k, b) \<in> set ls \<Longrightarrow> lo \<le> k"
  shows "\<exists>hi. between lo (leaf_lists G ls) hi"
proof -
  let ?S = "insert lo (fst ` set ls \<union> (\<lambda>(i, bl, n). i + n) ` set (leaf_lists G ls))"
  obtain hi where hi: "\<forall>x\<in>?S. x \<le> hi" using finite_nat_set_iff_bounded_le [of ?S] by auto
  have "between lo (leaf_lists G ls) hi"
  proof (rule leaves_between [OF assms(1)])
    show "lo \<le> k \<and> k \<le> hi" if "(k, b) \<in> set ls" for k b using assms(2) [OF that] hi that by force
    show "i + n \<le> hi" if "(k, b) \<in> set ls" "(i, bl, n) \<in> set (G b)" for k b i bl n
    proof -
      have "(i, bl, n) \<in> set (leaf_lists G ls)" using that by (force simp: leaf_lists_def)
      then show ?thesis using hi by force
    qed
  qed (use hi in simp)
  then show ?thesis by blast
qed

section \<open>One leaf of the file\<close>

text \<open>
  The leaf \<open>b\<close> of the file, with low key \<open>k\<close>, holds the extents \<open>Y\<close>, which end below the low
  key \<open>nk\<close> of the next leaf; \<open>A\<close> and \<open>B\<close> are the extents of the leaves before and behind it.
\<close>

definition leaf_place ::
  "(dleaf, 'a) tree_scheme \<Rightarrow> (nat \<times> nat \<times> nat) list \<Rightarrow> nat \<Rightarrow> nat \<Rightarrow> nat \<Rightarrow> (nat \<times> nat \<times> nat) list
    \<Rightarrow> (nat \<times> nat \<times> nat) list \<Rightarrow> (nat \<times> nat \<times> nat) list \<Rightarrow> bool" where
  "leaf_place st X k b nk A Y B \<longleftrightarrow> X = A @ Y @ B \<and> between 0 A k \<and> between k Y nk \<and> (\<exists>top. between nk B top)
     \<and> (k, b) \<in> set (leaf_seq st) \<and> (\<exists>leaf. leaf_of st b = Some leaf \<and> leaf_rep (blocksize st) leaf Y)
     \<and> (\<forall>(st' :: (dleaf, 'a) tree_scheme) leaf Y'. leaf_seq st' = leaf_seq st \<and> blocksize st' = blocksize st \<and> leaf_of st' b = Some leaf
          \<and> (\<forall>x. x \<in> snd ` set (leaf_seq st) \<and> x \<noteq> b \<longrightarrow> leaf_of st' x = leaf_of st x)
          \<and> leaf_rep (blocksize st) leaf Y' \<and> between k Y' nk \<longrightarrow> file_rep st' (A @ Y' @ B))"

lemma leaves_hold_cong:
  assumes "leaves_hold bs st G ls" "\<And>x. x \<in> snd ` set ls \<Longrightarrow> leaf_of st' x = leaf_of st x \<and> G' x = G x"
  shows "leaves_hold bs st' G' ls" "leaf_lists G' ls = leaf_lists G ls"
proof -
  have e: "leaf_of st' b = leaf_of st b \<and> G' b = G b" if "(k, b) \<in> set ls" for k b using assms(2) that by force
  show "leaf_lists G' ls = leaf_lists G ls" unfolding leaf_lists_def using e by (intro arg_cong [of _ _ concat] map_cong) auto
  have "sorted_wrt (\<lambda>(k, b) (k', b'). k < k' \<and> (\<forall>(i, bl, n)\<in>set (G' b). i + n \<le> k')) ls"
    by (rule sorted_wrt_mono_rel [of ls "\<lambda>(k, b) (k', b'). k < k' \<and> (\<forall>(i, bl, n)\<in>set (G b). i + n \<le> k')"])
      (use assms(1) e in \<open>auto simp: leaves_hold_def\<close>)
  then show "leaves_hold bs st' G' ls" using assms(1) e unfolding leaves_hold_def by (auto 0 4)
qed

lemma leaves_hold_append:
  "leaves_hold bs st G (ls @ ls') \<longleftrightarrow> leaves_hold bs st G ls \<and> leaves_hold bs st G ls'
    \<and> (\<forall>(k, b)\<in>set ls. \<forall>(k', b')\<in>set ls'. k < k' \<and> (\<forall>(i, bl, n)\<in>set (G b). i + n \<le> k'))"
  unfolding leaves_hold_def sorted_wrt_append by (auto simp: split_def)

lemma leaves_hold_Cons:
  "leaves_hold bs st G ((k, b) # ls) \<longleftrightarrow> leaves_hold bs st G ls
    \<and> (\<exists>leaf. leaf_of st b = Some leaf \<and> leaf_rep bs leaf (G b) \<and> (\<forall>(i, bl, n)\<in>set (G b). k \<le> i))
    \<and> (\<forall>(k', b')\<in>set ls. k < k' \<and> (\<forall>(i, bl, n)\<in>set (G b). i + n \<le> k'))"
  unfolding leaves_hold_def by (auto simp: split_def)

lemma leaf_place_of:
  fixes st :: "(dleaf, 'a) tree_scheme"
  assumes rep: "file_rep st X" and dis: "distinct (map snd (leaf_seq st))"
    and ls: "leaf_seq st = pre @ (k, b) # post" and nk: "nk = (case post of [] \<Rightarrow> 2 ^ 64 - 1 | (k, b) # _ \<Rightarrow> k)"
    and k: "k < nk"
  shows "\<exists>A Y B. leaf_place st X k b nk A Y B"
proof -
  let ?bs = "blocksize st"
  obtain G where G: "X = leaf_lists G (leaf_seq st)" "leaves_hold ?bs st G (leaf_seq st)" using rep by (auto simp: file_rep_def)
  let ?A = "leaf_lists G pre" and ?Y = "G b" and ?B = "leaf_lists G post"
  have h: "leaves_hold ?bs st G pre" "leaves_hold ?bs st G post"
    and b: "\<exists>leaf. leaf_of st b = Some leaf \<and> leaf_rep ?bs leaf ?Y" "\<And>i bl n. (i, bl, n) \<in> set ?Y \<Longrightarrow> k \<le> i"
    and pre: "\<And>k1 b1. (k1, b1) \<in> set pre \<Longrightarrow> k1 < k" "\<And>k1 b1 i bl n. (k1, b1) \<in> set pre \<Longrightarrow> (i, bl, n) \<in> set (G b1) \<Longrightarrow> i + n \<le> k"
    and post: "\<And>k1 b1. (k1, b1) \<in> set post \<Longrightarrow> k < k1" "\<And>k1 b1 i bl n. (k1, b1) \<in> set post \<Longrightarrow> (i, bl, n) \<in> set ?Y \<Longrightarrow> i + n \<le> k1"
    and across: "\<forall>(k1, b1)\<in>set pre. \<forall>(k', b')\<in>set post. k1 < k' \<and> (\<forall>(i, bl, n)\<in>set (G b1). i + n \<le> k')"
    using G(2) unfolding ls leaves_hold_append leaves_hold_Cons by (auto 0 4)
  have ap: "apart ?Y" using b(1) leaf_rep_apart by blast
  have "i + n \<le> nk" if "(i, bl, n) \<in> set ?Y" for i bl n
  proof (cases post)
    case Nil
    then show ?thesis using b(1) leaf_rep_end that by (auto simp: nk)
  next
    case (Cons p post')
    then show ?thesis using post(2) [of "fst p" "snd p" i bl n] that by (simp add: nk split_def)
  qed
  then have Y: "between k ?Y nk" by (intro apart_between [OF ap]) (use b(2) k in auto)
  have A: "between 0 ?A k" by (rule leaves_between [OF h(1)]) (use pre in \<open>auto intro: less_imp_le\<close>)
  have le: "nk \<le> k1" if "(k1, b1) \<in> set post" for k1 b1
    using that h(2) by (cases post) (auto simp: nk leaves_hold_def)
  then obtain top where B: "between nk ?B top" using leaves_above [OF h(2)] by blast
  have nb: "b \<notin> snd ` set pre" "b \<notin> snd ` set post" using dis by (auto simp: ls)
  have upd: "file_rep st' (?A @ Y' @ ?B)" if st': "leaf_seq st' = leaf_seq st" "blocksize st' = ?bs" "leaf_of st' b = Some leaf"
      "\<And>x. x \<in> snd ` set (leaf_seq st) \<Longrightarrow> x \<noteq> b \<Longrightarrow> leaf_of st' x = leaf_of st x"
    and Y': "leaf_rep ?bs leaf Y'" "between k Y' nk" for st' :: "(dleaf, 'a) tree_scheme" and leaf Y'
  proof -
    let ?G = "G(b := Y')"
    have same: "leaf_of st' x = leaf_of st x \<and> ?G x = G x" if "x \<in> snd ` set pre \<or> x \<in> snd ` set post" for x
    proof -
      have "x \<noteq> b" using that nb by blast
      then show ?thesis using st'(4) that by (auto simp: ls)
    qed
    note P = leaves_hold_cong [OF h(1), of st' ?G] and Q = leaves_hold_cong [OF h(2), of st' ?G]
    have bound: "i + n \<le> k1" if "(i, bl, n) \<in> set Y'" "(k1, b1) \<in> set post" for i bl n k1 b1
      using between_bounds [OF Y'(2) that(1)] le [OF that(2)] by simp
    have low: "k \<le> i" if "(i, bl, n) \<in> set Y'" for i bl n using between_bounds [OF Y'(2) that] by simp
    have g: "?G b1 = G b1" if "(k1, b1) \<in> set pre" for k1 b1 using same that by force
    have pre': "\<forall>(k1, b1)\<in>set pre. \<forall>(k', b')\<in>set ((k, b) # post). k1 < k' \<and> (\<forall>(i, bl, n)\<in>set (?G b1). i + n \<le> k')"
      using pre across g by fastforce
    have at: "\<exists>leaf. leaf_of st' b = Some leaf \<and> leaf_rep ?bs leaf (?G b) \<and> (\<forall>(i, bl, n)\<in>set (?G b). k \<le> i)"
      using st'(3) Y'(1) low by auto
    have post': "\<forall>(k', b')\<in>set post. k < k' \<and> (\<forall>(i, bl, n)\<in>set (?G b). i + n \<le> k')"
      using post(1) bound by auto
    have "leaves_hold ?bs st' ?G (leaf_seq st)"
      unfolding ls leaves_hold_append leaves_hold_Cons using P(1) Q(1) same pre' at post' by blast
    moreover have "?A @ Y' @ ?B = leaf_lists ?G (leaf_seq st)" using P(2) Q(2) same by (simp add: ls)
    ultimately show ?thesis unfolding file_rep_def st'(1,2) by blast
  qed
  have "leaf_place st X k b nk ?A ?Y ?B"
    unfolding leaf_place_def using G(1) A Y B b(1) upd by (auto simp: ls)
  then show ?thesis by blast
qed

lemma leaf_place_map:
  assumes "leaf_place st X k b nk A Y B"
  shows "map_block X q = (if q < k then map_block A q else if q < nk then map_block Y q else map_block B q)"
proof -
  from assms obtain top where X: "X = A @ Y @ B" "between 0 A k" "between k Y nk" "between nk B top"
    by (auto simp: leaf_place_def)
  show ?thesis unfolding X(1) by (rule map_block_parts [OF X(2-4)])
qed

text \<open>The leaf that is responsible for a key: the last one whose low key is not greater.\<close>

definition leaf_for :: "('l, 'a) tree_scheme \<Rightarrow> nat \<Rightarrow> nat" where
  "leaf_for st key = snd (last (takeWhile (\<lambda>(k, b). k \<le> key) (leaf_seq st)))"

lemma leaf_for_eq:
  assumes "leaf_seq st = pre @ (k, b) # post" "\<forall>x\<in>set pre. fst x < key" "k \<le> key" "\<forall>x\<in>set post. key < fst x"
  shows "leaf_for st key = b"
proof -
  have "takeWhile (\<lambda>(k, b). k \<le> key) (leaf_seq st) = pre @ (k, b) # takeWhile (\<lambda>(k, b). k \<le> key) post"
    unfolding assms(1) using assms(2,3) by (subst takeWhile_append2) (auto intro: less_imp_le)
  moreover have "takeWhile (\<lambda>(k, b). k \<le> key) post = []" using assms(4) by (cases post) auto
  ultimately show ?thesis by (simp add: leaf_for_def)
qed

section \<open>Where the region is\<close>

text \<open>What \<open>map_region\<close> knows before it writes: the leaf \<open>b\<close>, the walks and the map \<open>T\<close> of the region.\<close>

definition region_at ::
  "(dleaf, 'a) tree_scheme \<Rightarrow> (nat \<times> nat \<times> nat) list \<Rightarrow> nat \<Rightarrow> nat \<Rightarrow> nat \<Rightarrow> cursor \<Rightarrow> nat \<Rightarrow> dleaf \<Rightarrow> grp list
    \<Rightarrow> dwalk \<Rightarrow> nat \<Rightarrow> seg list \<Rightarrow> nat \<Rightarrow> nat \<Rightarrow> nat \<Rightarrow> dwalk \<Rightarrow> nat \<Rightarrow> nat \<Rightarrow> nat \<Rightarrow> bool" where
  "region_at st X start len n c b leaf L w i T ss nb na w' i' k nk \<longleftrightarrow>
     (\<exists>A B. leaf_place st X k b nk A (leaf_extents leaf L) B) \<and> leaf_of st b = Some leaf \<and> dl_rep (blocksize st) leaf L
     \<and> apart (leaf_extents leaf L) \<and> walk_pos L w i \<and> walk_pos L w' i' \<and> probe_at leaf L start i
     \<and> region leaf L start (min (start + len) nk) n i T ss nb na i' \<and> k \<le> start \<and> start < nk \<and> b = leaf_for st start
     \<and> (nk = 2 ^ 64 - 1 \<or> nk \<in> fst ` set (leaf_seq st))
     \<and> length (path c) = Suc (root_depth (t_root st)) \<and> fst (last (path c)) = b \<and> cursor_leafbuf c = Some b"

lemma region_start:
  assumes inv: "file_inv st X" and len: "0 < len" "len < 2 ^ 32" "start + len < 2 ^ 56" "0 < n"
  shows "\<exists>c b leaf L w i T ss nb na w' i' k nk. region_at st X start len n c b leaf L w i T ss nb na w' i' k nk
    \<and> (\<forall>ib create. map_region ib start len n create st =
        (if create = 0 then Some (Inr T, st) else map_write ib create st c b start w (T, ss, nb, na, w')))"
proof -
  let ?ops = "dtree_ops (blocksize st)" and ?d = "root_depth (t_root st)"
  have wf: "wf_tree ?ops st" "0 < ?d" "file_rep st X" using inv by (simp_all add: file_inv_def)
  have root: "has_root (t_root st)" and ok: "tree_ok st ?d 0 (root_block (t_root st))" and "distinct (tree_blocks st)"
    using wf(1) by (simp_all add: wf_tree_def)
  then have dis: "distinct (map snd (leaf_seq st))" using leaves_distinct [OF ok] by (simp add: tree_blocks_def leaf_seq_def)
  obtain c pre k b post where p: "probe ?ops st start (alloc_cursor st 1) = Some (Inr (), c)" "cursor_at st c pre (k, b) post"
    "leaf_seq st = pre @ (k, b) # post" "\<forall>x\<in>set pre. fst x < start" "k \<le> start" "\<forall>x\<in>set post. start < fst x"
    using probe_finds [OF wf(1), of "alloc_cursor st 1" start] by (auto simp: alloc_cursor_def)
  define nk where "nk = (case post of [] \<Rightarrow> 2 ^ 64 - 1 | (k, b) # _ \<Rightarrow> k)"
  have nk: "next_key st c ?d = Some nk" using next_key_correct [OF wf(1) p(2)] by (simp add: nk_def)
  have nk': "nk = 2 ^ 64 - 1 \<or> nk \<in> fst ` set (leaf_seq st)" by (cases post) (auto simp: nk_def p(3))
  have lt: "start < nk" using p(6) len(1,3) by (cases post) (auto simp: nk_def)
  obtain A Y B where place: "leaf_place st X k b nk A Y B"
    using leaf_place_of [OF wf(3) dis p(3) nk_def] p(5) lt by auto
  then obtain leaf L where leaf: "leaf_of st b = Some leaf" "dl_rep (blocksize st) leaf L" "Y = leaf_extents leaf L" "apart Y"
    by (auto simp: leaf_place_def leaf_rep_def)
  have "disjoint_extents leaf L" "extents_within leaf L" using leaf apart_extents by auto
  then obtain i w where w: "dwalk_probe leaf start no_walk = Some (i < length (leaf_keys L), w)" "walk_pos L w i" "probe_at leaf L start i"
    using dwalk_probe_rep [OF leaf(2), of start no_walk] len(3) by auto
  let ?limit = "min (start + len) nk"
  have lim: "start < ?limit" "?limit < start + 2 ^ 32" "?limit < 2 ^ 56" using lt len by simp_all
  obtain T ss nb na w' i' where m: "map_segs leaf w start ?limit n = Some (T, ss, nb, na, w')" "walk_pos L w' i'"
    "region leaf L start ?limit n i T ss nb na i'"
    using map_segs_rep [OF leaf(2) \<open>disjoint_extents leaf L\<close> w(2,3) lim len(4)] by blast
  have at: "at_leaf st ?d 0 (root_block (t_root st)) (path c) pre (k, b) post" using p(2) by (simp add: cursor_at_def)
  have cur: "cursor_leafbuf c = Some b" "length (path c) = Suc ?d" "fst (last (path c)) = b"
    using cursor_leafbuf_at [OF at wf(2)] at_leaf_length [OF at] by auto
  have "map_region ib start len n create st =
      (if create = 0 then Some (Inr T, st) else map_write ib create st c b start w (T, ss, nb, na, w'))" for ib create
    using root p(1) cur(1) leaf(1) w(1) nk m(1) len(4) by (simp add: map_region_def Let_def)
  moreover have "region_at st X start len n c b leaf L w i T ss nb na w' i' k nk"
    unfolding region_at_def using place leaf w(2,3) m(2,3) p(5) lt cur nk' leaf_for_eq [OF p(3-6)] by auto
  ultimately show ?thesis by blast
qed

text \<open>The map of the region in terms of the file.\<close>

lemma region_segs:
  assumes "region_at st X start len n c b leaf L w i T ss nb na w' i' k nk"
  shows "T \<noteq> []" "length T \<le> n" "\<forall>s\<in>set T. raw_seg s" "0 < seg_total T" "seg_total T \<le> len" "start + seg_total T \<le> nk"
    "\<And>q. q < seg_total T \<Longrightarrow> seg_at T q = map_block X (start + q)"
    "length T = n \<or> seg_total T = len \<or> start + seg_total T = nk"
proof -
  obtain A B where place: "leaf_place st X k b nk A (leaf_extents leaf L) B" and k: "k \<le> start" and
    r: "region leaf L start (min (start + len) nk) n i T ss nb na i'" using assms unfolding region_at_def by blast
  show T: "T \<noteq> []" "length T \<le> n" "\<forall>s\<in>set T. raw_seg s" using r unfolding region_def by blast+
  have le: "start + seg_total T \<le> min (start + len) nk"
    "length T = n \<or> start + seg_total T = min (start + len) nk" using r unfolding region_def by blast+
  then show "seg_total T \<le> len" "start + seg_total T \<le> nk" "length T = n \<or> seg_total T = len \<or> start + seg_total T = nk" by auto
  show "0 < seg_total T" using T(1,3) by (cases T) (auto simp: raw_seg_def)
  show "seg_at T q = map_block X (start + q)" if "q < seg_total T" for q
  proof -
    have "seg_at T q = map_block (leaf_extents leaf L) (start + q)" using r that unfolding region_def by blast
    then show ?thesis using leaf_place_map [OF place, of "start + q"] k that le(1) by simp
  qed
qed

section \<open>Writing\<close>

text \<open>The new extents stay in the range of keys of the leaf.\<close>

lemma region_in_leaf:
  assumes at: "region_at st X start len n c b leaf L w i T ss nb na w' i' k nk" and S: "seg_total S = seg_total T"
    and place: "leaf_place st X k b nk A (leaf_extents leaf L) B"
  shows "between k (take i (leaf_extents leaf L)
      @ region_extents start ss nb (seg_block (T ! 0) - nb) S na (seg_block (T ! (length T - 1)) + seg_count (T ! (length T - 1)))
      @ drop i' (leaf_extents leaf L)) nk"
proof -
  let ?Y = "leaf_extents leaf L" and ?E = "start + seg_total T + na" and ?n = "length (leaf_keys L)"
  have rep: "dl_rep (blocksize st) leaf L" and ap: "apart ?Y" and p: "probe_at leaf L start i" and k: "k \<le> start"
    and reg: "region leaf L start (min (start + len) nk) n i T ss nb na i'" using at unfolding region_at_def by blast+
  have Y: "between k ?Y nk" using place by (simp add: leaf_place_def)
  have r: "ss + nb = start" "ss = region_base L i start" "start + seg_total T \<le> min (start + len) nk" "probe_at leaf L ?E i'"
    "0 < na \<longrightarrow> 0 < i' \<and> ?E = extent_end leaf L (i' - 1) \<and> leaf_keys L ! (i' - 1) < start + seg_total T"
    using reg unfolding region_def by blast+
  have el: "k \<le> leaf_keys L ! p \<and> extent_end leaf L p \<le> nk" if "p < ?n" for p
    using between_bounds [OF Y, of "leaf_keys L ! p" "extent_block (dl_table leaf ! p)" "extent_count (dl_table leaf ! p)"]
      nth_leaf_extents [OF rep that] length_leaf_extents [OF rep] that nth_mem [of p ?Y] by (simp add: extent_end_def)
  have ss: "k \<le> ss" using el [of i] k r(2) by (auto simp: region_base_def)
  have E: "?E \<le> nk"
  proof (cases "na = 0")
    case False
    then have "i' - 1 < ?n" using r(4,5) by (auto simp: probe_at_def)
    then show ?thesis using el [of "i' - 1"] r(5) False by simp
  qed (use r(3) in simp)
  obtain top where cut: "between 0 (take i ?Y) ss" "between ?E (drop i' ?Y) top" using region_cut [OF rep ap p reg] by metis
  have "between k (take i ?Y) ss"
    by (rule apart_between [OF apart_take [OF ap] ss]) (use between_bounds [OF Y] between_bounds [OF cut(1)] in \<open>auto dest: in_set_takeD\<close>)
  moreover have "between ss (region_extents start ss nb (seg_block (T ! 0) - nb) S na (seg_block (T ! (length T - 1)) + seg_count (T ! (length T - 1)))) ?E"
    using region_extents_between [OF r(1)] S by metis
  moreover have "apart (drop i' ?Y)" using ap by (auto simp: apart_def dest: in_set_dropD)
  then have "between ?E (drop i' ?Y) nk"
    by (rule apart_between [OF _ E]) (use between_bounds [OF Y] between_bounds [OF cut(2)] in \<open>auto dest: in_set_dropD\<close>)
  ultimately show ?thesis by (blast intro: between_append)
qed

text \<open>The state after the leaf is stored: the tree is as it was, with other extents in one leaf.\<close>

lemma stored_leaf:
  assumes inv: "file_inv st X" and same: "same_tree st st1" and rep: "leaf_rep (blocksize st) leaf' Y'"
    and place: "leaf_place st X k b nk A Y B" and range: "between k Y' nk"
  defines "st' \<equiv> mark_buffer_dirty (put_block st1 b (Leaf leaf')) b"
  shows "wf_tree (dtree_ops (blocksize st')) st'" "leaf_seq st' = leaf_seq st" "tree_blocks st' = tree_blocks st"
    "file_rep st' (A @ Y' @ B)" "blocksize st' = blocksize st" "t_root st' = t_root st" "volblocks st' = volblocks st"
proof -
  let ?ops = "dtree_ops (blocksize st)"
  have wf: "wf_tree ?ops st" using inv by (simp add: file_inv_def)
  have c: "cache st' = (cache st)(b \<mapsto> Leaf leaf')" using same by (simp add: st'_def same_tree_def)
  show f: "blocksize st' = blocksize st" "t_root st' = t_root st" "volblocks st' = volblocks st"
    using same by (simp_all add: st'_def same_tree_def blocksize_def) (simp add: mark_buffer_dirty_def put_block_def)
  have nm: "node_max st' = node_max st" using same by (simp add: st'_def same_tree_def)
  have old: "\<exists>leaf. leaf_of st b = Some leaf" "(k, b) \<in> set (leaf_seq st)" using place by (auto simp: leaf_place_def)
  have lo: "leaf_of st' x = (if x = b then Some leaf' else leaf_of st x)" for x using c by (simp add: leaf_of_def)
  have sm: "\<forall>x\<in>set (tree_blocks st). same_at st st' x"
    using old(1) c by (auto simp: same_at_def lo node_of_def leaf_of_def split: option.splits tblock.splits)
  have sniff: "leaf_sniff ?ops l \<longleftrightarrow> dl_magic l = TUX3_MAGIC_DLEAF" for l by (simp add: dtree_ops_def dleaf_sniff_def)
  have "dl_magic leaf' = TUX3_MAGIC_DLEAF" using rep dl_repD(1) by (auto simp: leaf_rep_def)
  then have "\<forall>(k, x)\<in>set (leaf_seq st). leaf_sniff ?ops (the (leaf_of st' x))"
    using wf by (auto simp: wf_tree_def lo sniff)
  note W = wf_tree_struct [OF wf sm nm f(2) this]
  show "wf_tree (dtree_ops (blocksize st')) st'" "leaf_seq st' = leaf_seq st" "tree_blocks st' = tree_blocks st"
    using W(1-3) f(1) by simp_all
  show "file_rep st' (A @ Y' @ B)"
    using place W(2) f(1) lo rep range unfolding leaf_place_def by auto
qed

lemma map_block_mem: "between lo X hi \<Longrightarrow> (i, b, n) \<in> set X \<Longrightarrow> i \<le> k \<Longrightarrow> k < i + n \<Longrightarrow> map_block X k = Some (b + (k - i))"
proof (induction X arbitrary: lo)
  case (Cons x X)
  obtain i' b' n' where x: "x = (i', b', n')" by (cases x)
  have rest: "between (i' + n') X hi" using Cons.prems(1) x by simp
  show ?case
  proof (cases "(i, b, n) = x")
    case True
    then show ?thesis using Cons.prems(3,4) x by (simp add: map_block_Cons)
  next
    case False
    then have mem: "(i, b, n) \<in> set X" using Cons.prems(2) by auto
    then have "\<not> k < i' + n'" using between_bounds [OF rest mem] Cons.prems(3) by simp
    then show ?thesis using Cons.IH [OF rest mem Cons.prems(3,4)] x by (simp add: map_block_Cons)
  qed
qed simp

lemma file_blocks_within:
  assumes inv: "file_inv st X" and place: "leaf_place st X k b nk A Y B"
  shows "blocks_within Y" "volblocks st < 2 ^ 48"
proof -
  show v: "volblocks st < 2 ^ 48" using inv by (auto simp: file_inv_def wf_sb_def wf_bitmap_def)
  have Y: "between k Y nk" and rep: "\<exists>leaf. leaf_rep (blocksize st) leaf Y" using place by (auto simp: leaf_place_def)
  have "0 < bl \<and> bl + n \<le> 2 ^ 48" if mem: "(i, bl, n) \<in> set Y" for i bl n
  proof -
    obtain leaf L where L: "dl_rep (blocksize st) leaf L" "Y = leaf_extents leaf L" using rep by (auto simp: leaf_rep_def)
    then obtain p where "p < length (leaf_keys L)" "Y ! p = (i, bl, n)" using mem length_leaf_extents by (metis in_set_conv_nth)
    then have n: "0 < n" using nth_leaf_extents [OF L(1)] extent_count_pos L(2) by auto
    have r: "k \<le> i" "i + n \<le> nk" using between_bounds [OF Y mem] by auto
    have "map_block X q = Some (bl + (q - i))" if "i \<le> q" "q < i + n" for q
      using leaf_place_map [OF place, of q] map_block_mem [OF Y mem that] r that by simp
    from this [of i] this [of "i + n - 1"] have "map_block X i = Some bl" "map_block X (i + n - 1) = Some (bl + (n - 1))"
      using n by auto
    then have "0 < bl" "bl + (n - 1) < volblocks st" using inv unfolding file_inv_def by blast+
    then show ?thesis using v n by simp
  qed
  then show "blocks_within Y" by (auto simp: blocks_within_def)
qed

text \<open>The hypotheses of a write that stays in its leaf.\<close>

definition write_fits :: "(dleaf, 'a) tree_scheme \<Rightarrow> nat \<Rightarrow> nat \<Rightarrow> nat \<Rightarrow> bool" where
  "write_fits st start len n \<longleftrightarrow> 0 < len \<and> len \<le> 64 \<and> start mod 2 ^ 24 + len \<le> 2 ^ 24 \<and> start + len < 2 ^ 48 \<and> 0 < n
     \<and> 16 * (n + 2) + 8 \<le> dleaf_free (the (leaf_of st (leaf_for st start)))
     \<and> (atomic st \<longrightarrow> t_dirty st (leaf_for st start))"

text \<open>
  What a write that did not fail has done: \<open>S\<close> covers the region \<open>T\<close>. A hole, and with
  \<open>create = 2\<close> every block, got a block that was free; else the block is the one that was there.
\<close>

definition region_written ::
  "nat \<Rightarrow> (dleaf, 'a) tree_scheme \<Rightarrow> (nat \<times> nat \<times> nat) list \<Rightarrow> nat \<Rightarrow> nat \<Rightarrow> seg list
    \<Rightarrow> (dleaf, 'a) tree_scheme \<Rightarrow> (nat \<times> nat \<times> nat) list \<Rightarrow> bool" where
  "region_written create st X start tot S st' X' \<longleftrightarrow> seg_total S = tot
     \<and> (\<forall>q<tot. \<exists>v. seg_at S q = Some v
          \<and> (if create = 2 \<or> map_block X (start + q) = None then \<not> used st v \<and> v < volblocks st else map_block X (start + q) = Some v))
     \<and> (\<forall>q. map_block X' q = (if start \<le> q \<and> q < start + tot then seg_at S (q - start) else map_block X q))
     \<and> file_inv st' X'"

lemma file_inv_written:
  assumes inv: "file_inv st X" and fill: "filled create st (fill_map create T) S st' fb"
    and T: "\<And>q. q < seg_total T \<Longrightarrow> seg_at T q = map_block X (start + q)"
    and mp: "\<And>q. map_block X' q = (if start \<le> q \<and> q < start + seg_total T then seg_at S (q - start) else map_block X q)"
    and st': "wf_tree (dtree_ops (blocksize st')) st'" "tree_blocks st' = tree_blocks st" "file_rep st' X'" "t_root st' = t_root st"
      "volblocks st' = volblocks st" "wf_sb st'" "\<forall>x. used st x \<longrightarrow> used st' x"
  shows "region_written create st X start (seg_total T) S st' X'"
proof -
  let ?F = "fill_map create T" and ?t = "seg_total T"
  have F: "seg_at ?F q = (if create = 2 then None else map_block X (start + q))" if "q < ?t" for q
    using that T by (auto simp: fill_map_def)
  have S: "seg_at S q = Some (case seg_at ?F q of Some v \<Rightarrow> v | None \<Rightarrow> fb q)"
    "seg_at ?F q = None \<Longrightarrow> \<not> used st (fb q) \<and> used st' (fb q) \<and> fb q < volblocks st" if "q < ?t" for q
    using fill that unfolding filled_def seg_total_fill by blast+
  have inj: "q = q'" if "q < ?t" "q' < ?t" "seg_at ?F q = None" "seg_at ?F q' = None" "fb q = fb q'" for q q'
    using fill that unfolding filled_def seg_total_fill by blast
  have tot: "seg_total S = ?t"
    using fill unfolding filled_def by (metis seg_total_def seg_total_fill)
  have old: "0 < v \<and> v < volblocks st \<and> used st v \<and> v \<notin> set (tree_blocks st)" if "map_block X q = Some v" for q v
    using inv that unfolding file_inv_def by blast
  have uniq: "q = q'" if "map_block X q = Some v" "map_block X q' = Some v" for q q' v
    using inv that unfolding file_inv_def by blast
  have tb: "used st x" if "x \<in> set (tree_blocks st)" for x using inv that by (simp add: file_inv_def)
  have u0: "used st 0" using inv by (simp add: file_inv_def)
  text \<open>A block of the new map is new, and then it tells its place, or it is one of the old map.\<close>
  have cases: "(\<exists>r<?t. seg_at ?F r = None \<and> v = fb r \<and> q = start + r) \<or> map_block X q = Some v"
    if "map_block X' q = Some v" for q v
  proof (cases "start \<le> q \<and> q < start + ?t")
    case True
    then obtain r where r: "r < ?t" "q = start + r" by (metis add_less_cancel_left le_Suc_ex)
    then have "seg_at S r = Some v" using mp [of q] that by simp
    then show ?thesis using S(1) [OF r(1)] F [OF r(1)] r by (auto split: option.splits if_splits)
  qed (use mp [of q] that in auto)
  have new: "\<not> used st (fb r) \<and> used st' (fb r) \<and> fb r < volblocks st" if "r < ?t" "seg_at ?F r = None" for r
    using S(2) that by blast
  have "0 < v \<and> v < volblocks st' \<and> used st' v \<and> v \<notin> set (tree_blocks st')" if "map_block X' q = Some v" for q v
    using cases [OF that] new old tb u0 st'(2,5,7) by (metis neq0_conv)
  moreover have "q = q'" if "map_block X' q = Some v" "map_block X' q' = Some v" for q q' v
    using cases [OF that(1)] cases [OF that(2)] new old inj uniq by metis
  ultimately have "file_inv st' X'"
    using inv st' unfolding file_inv_def by auto
  moreover have "\<exists>v. seg_at S q = Some v
      \<and> (if create = 2 \<or> map_block X (start + q) = None then \<not> used st v \<and> v < volblocks st else map_block X (start + q) = Some v)" if "q < ?t" for q
    using S [OF that] F [OF that] by (auto split: option.splits)
  ultimately show ?thesis using tot mp unfolding region_written_def by blast
qed

lemma file_inv_same_tree:
  assumes inv: "file_inv st X" and same: "same_tree st st'" and st': "wf_sb st'" "\<forall>x. used st x \<longrightarrow> used st' x"
  shows "file_inv st' X"
proof -
  have sm: "\<forall>x\<in>set (tree_blocks st). same_at st st' x" using same by (auto simp: same_tree_def intro: same_atI)
  have f: "node_max st' = node_max st" "t_root st' = t_root st" "volblocks st' = volblocks st" "\<And>x. leaf_of st' x = leaf_of st x"
    using same by (simp_all add: same_tree_def leaf_of_def)
  have wf: "wf_tree (dtree_ops (blocksize st)) st" using inv by (simp add: file_inv_def)
  then have "\<forall>(k, x)\<in>set (leaf_seq st). leaf_sniff (dtree_ops (blocksize st)) (the (leaf_of st' x))"
    using f(4) by (simp add: wf_tree_def)
  note W = wf_tree_struct [OF wf sm f(1,2) this]
  obtain G where G: "X = leaf_lists G (leaf_seq st)" "leaves_hold (blocksize st) st G (leaf_seq st)"
    using inv by (auto simp: file_inv_def file_rep_def)
  have "file_rep st' X"
    unfolding file_rep_def W(2) blocksize_same [OF same] using G leaves_hold_cong(1) [OF G(2), of st' G] f(4) by blast
  then show ?thesis using inv W(1,3) f(2,3) st' unfolding file_inv_def blocksize_same [OF same] by auto
qed

lemma map_region_write:
  fixes st :: "(dleaf, 'a) tree_scheme"
  assumes inv: "file_inv st X" and create: "create \<noteq> 0" and fits: "write_fits st start len n"
  shows "\<exists>T r st'. map_region ib start len n 0 st = Some (Inr T, st) \<and> map_region ib start len n create st = Some (r, st')
    \<and> t_defree st' = t_defree st @ (if create = 2 \<and> \<not> ib then mapped_segs T else [])
    \<and> t_derollup st' = t_derollup st @ (if create = 2 \<and> ib then mapped_segs T else [])
    \<and> (\<forall>q < seg_total T. seg_at T q = map_block X (start + q)) \<and> 0 < seg_total T
    \<and> (case r of Inl e \<Rightarrow> e = ENOSPC \<and> file_inv st' X | Inr S \<Rightarrow> \<exists>X'. region_written create st X start (seg_total T) S st' X')"
proof -
  have len: "0 < len" "len < 2 ^ 32" "start + len < 2 ^ 56" "0 < n" and fit: "len \<le> 64" "start mod 2 ^ 24 + len \<le> 2 ^ 24"
    "start + len < 2 ^ 48" using fits by (simp_all add: write_fits_def)
  obtain c b leaf L w i T ss nb na w' i' k nk where at: "region_at st X start len n c b leaf L w i T ss nb na w' i' k nk"
    and mr: "\<And>ib create. map_region ib start len n create st =
        (if create = 0 then Some (Inr T, st) else map_write ib create st c b start w (T, ss, nb, na, w'))"
    using region_start [OF inv len] by blast
  note seg = region_segs [OF at]
  obtain A B where place: "leaf_place st X k b nk A (leaf_extents leaf L) B" using at by (auto simp: region_at_def)
  have a: "leaf_of st b = Some leaf" "dl_rep (blocksize st) leaf L" "apart (leaf_extents leaf L)" "walk_pos L w i" "walk_pos L w' i'"
    "probe_at leaf L start i" "region leaf L start (min (start + len) nk) n i T ss nb na i'" "b = leaf_for st start"
    "length (path c) = Suc (root_depth (t_root st))" "fst (last (path c)) = b" "cursor_leafbuf c = Some b"
    using at unfolding region_at_def by blast+
  have st: "wf_sb st" "used st 0" using inv by (simp_all add: file_inv_def)
  note bw = file_blocks_within [OF inv place]
  have room: "16 * (length T + 2) + 8 \<le> dleaf_free leaf" "atomic st \<longrightarrow> t_dirty st b"
    using fits a(1,8) seg(2) by (simp_all add: write_fits_def)
  have lim: "min (start + len) nk < 2 ^ 48" "min (start + len) nk \<le> start + len" using fit(3) by auto
  let ?Y = "\<lambda>S. take i (leaf_extents leaf L)
      @ region_extents start ss nb (seg_block (T ! 0) - nb) S na (seg_block (T ! (length T - 1)) + seg_count (T ! (length T - 1)))
      @ drop i' (leaf_extents leaf L)"
  obtain r st' where w: "map_write ib create st c b start w (T, ss, nb, na, w') = Some (r, st')" "wf_sb st'"
    "\<forall>x. used st x \<longrightarrow> used st' x"
    "t_defree st' = t_defree st @ (if create = 2 \<and> \<not> ib then mapped_segs T else [])"
    "t_derollup st' = t_derollup st @ (if create = 2 \<and> ib then mapped_segs T else [])"
    "case r of Inl e \<Rightarrow> e = ENOSPC \<and> same_tree st st'
       | Inr S \<Rightarrow> \<exists>st1 leaf' fb. st' = mark_buffer_dirty (put_block st1 b (Leaf leaf')) b \<and> same_tree st st1
           \<and> filled create st (fill_map create T) S st' fb \<and> leaf_rep (blocksize st) leaf' (?Y S)"
    using map_write_rep [OF st bw(2) refl a(1-3) bw(1) a(4-7) lim fit(1,2) room(1) a(9-11) room(2), of ib create] by blast
  have "case r of Inl e \<Rightarrow> e = ENOSPC \<and> file_inv st' X | Inr S \<Rightarrow> \<exists>X'. region_written create st X start (seg_total T) S st' X'"
  proof (cases r)
    case (Inl e)
    then show ?thesis using file_inv_same_tree [OF inv _ w(2,3)] w(6) by simp
  next
    case (Inr S)
    then obtain st1 leaf' fb where s: "st' = mark_buffer_dirty (put_block st1 b (Leaf leaf')) b" "same_tree st st1"
      "filled create st (fill_map create T) S st' fb" "leaf_rep (blocksize st) leaf' (?Y S)" using w(6) by auto
    have S: "\<forall>s\<in>set S. seg_state s \<noteq> SEG_HOLE" "seg_total S = seg_total T"
      using s(3) unfolding filled_def by (blast, metis seg_total_def seg_total_fill)
    have range: "between k (?Y S) nk" by (rule region_in_leaf [OF at S(2) place])
    note new = stored_leaf [OF inv s(2,4) place range, folded s(1)]
    have mp: "map_block (A @ ?Y S @ B) q = (if start \<le> q \<and> q < start + seg_total T then seg_at S (q - start) else map_block X q)" for q
    proof -
      obtain top where "between 0 A k" "between nk B top" using place by (auto simp: leaf_place_def)
      from map_block_parts [OF this(1) range this(2), of q]
      have "map_block (A @ ?Y S @ B) q = (if q < k then map_block A q else if q < nk then map_block (?Y S) q else map_block B q)" .
      then show ?thesis
        using region_map [OF a(2,3,6,7) S, of q] leaf_place_map [OF place, of q] at seg(6) unfolding region_at_def by auto
    qed
    have "region_written create st X start (seg_total T) S st' (A @ ?Y S @ B)"
      by (rule file_inv_written [OF inv s(3) seg(7) mp new(1,3,4,6,7) w(2,3)])
    then show ?thesis using Inr by auto
  qed
  then show ?thesis using mr create w(1,4,5) seg(4,7) by auto
qed

end
