(* ===== verification/Tux_Fmap.thy ===== *)
theory Tux_Fmap
  imports Tux_File
begin

text \<open>
  The properties of \<open>map_region\<close>, and a small volume with one file for the witnesses.
\<close>

section \<open>A volume with one file\<close>

text \<open>
  Blocks of 256 bytes, \<open>n\<close> of them; \<open>m\<close> are the first bytes of the bitmap. The tree of the file
  has its root in block 1 and one leaf in block 2, with one extent: blocks 20 to 22 at 5 to 7.
\<close>

definition demo_file_leaf :: dleaf where
  "demo_file_leaf = \<lparr>dl_magic = TUX3_MAGIC_DLEAF, dl_groups = 1, dl_free = 16, dl_used = 248,
     dl_table = [0x2000000000014], dl_dict = [0x1000000, 0x1000005]\<rparr>"

definition demo_file :: "u8 list \<Rightarrow> nat \<Rightarrow> int \<Rightarrow> bool \<Rightarrow> dleaf tree" where
  "demo_file m n free at = \<lparr>blockbits = 8, volblocks = n, freeblocks = free, nextalloc = 8,
     bitmap = [0 \<mapsto> m @ replicate (256 - length m) 0],
     cache = [1 \<mapsto> Node [(0, 2)], 2 \<mapsto> Leaf demo_file_leaf], t_root = \<lparr>root_depth = 1, root_block = 1\<rparr>, node_max = 4,
     atomic = at, t_dirty = (\<lambda>_. False), t_logged = [], t_defree = [], t_derollup = []\<rparr>"

text \<open>One volume with space, and one without.\<close>

definition file_space :: "dleaf tree" where
  "file_space = demo_file [7, 0, 112] 64 58 False"

definition file_full :: "dleaf tree" where
  "file_full = demo_file [255, 255, 255] 24 0 False"

lemma demo_file_wf: "wf_sb file_space" "wf_sb file_full"
proof -
  have "free_count file_space = 58" "free_count file_full = 0" by code_simp+
  moreover have "wf_bitmap file_space" "wf_bitmap file_full"
    by (auto simp: wf_bitmap_def file_space_def file_full_def demo_file_def mapsize_def mapshift_def blocksize_def)
  ultimately show "wf_sb file_space" "wf_sb file_full"
    by (simp_all add: wf_sb_def) (simp_all add: file_space_def file_full_def demo_file_def)
qed

lemma demo_file_used:
  "used file_space 0" "used file_space 1" "used file_space 2" "used file_space 20" "used file_space 21" "used file_space 22"
  "used file_full 0" "used file_full 1" "used file_full 2" "used file_full 20" "used file_full 21" "used file_full 22"
  by code_simp+

lemma demo_file_rep: "dl_rep 256 demo_file_leaf [(0, [5])]" and demo_file_extents: "leaf_extents demo_file_leaf [(0, [5])] = [(5, 20, 3)]"
proof -
  have x: "map (\<lambda>x. (extent_block x, extent_count x)) (dl_table demo_file_leaf) = [(20, 3)]" by code_simp
  then show "leaf_extents demo_file_leaf [(0, [5])] = [(5, 20, 3)]" by (simp add: leaf_extents_def)
  have "group_words [(0, [5])] @ entry_words [(0, [5])] = dl_dict demo_file_leaf" by code_simp
  moreover have "\<forall>x\<in>set (dl_table demo_file_leaf). extent_block x \<noteq> 0" by code_simp
  ultimately show "dl_rep 256 demo_file_leaf [(0, [5])]"
    by (simp add: dl_rep_def demo_file_leaf_def group_ok_def MAX_GROUP_ENTRIES_def DLEAF_SIZE_def)
qed

lemma demo_file_inv_of:
  assumes "wf_sb (demo_file m n free at)" "\<forall>x\<in>{0, 1, 2, 20, 21, 22}. used (demo_file m n free at) x" "22 < n"
  shows "file_inv (demo_file m n free at) [(5, 20, 3)]"
proof -
  let ?st = "demo_file m n free at"
  have bs: "blocksize ?st = 256" by (simp add: demo_file_def blocksize_def)
  have f: "t_root ?st = \<lparr>root_depth = 1, root_block = 1\<rparr>" "node_max ?st = 4" "volblocks ?st = n"
    "node_of ?st 1 = Some [(0, 2)]" "leaf_of ?st 2 = Some demo_file_leaf"
    by (simp_all add: demo_file_def node_of_def leaf_of_def)
  have ls: "leaf_seq ?st = [(0, 2)]" and tb: "tree_blocks ?st = [1, 2]" using f by (simp_all add: leaf_seq_def tree_blocks_def)
  have wf: "wf_tree (dtree_ops 256) ?st"
    using f by (simp add: wf_tree_def ls tb has_root_def no_root_def) (simp add: dtree_ops_def dleaf_sniff_def demo_file_leaf_def)
  have "apart [(5, 20, 3)]" by (simp add: apart_def)
  then have "leaf_rep 256 demo_file_leaf [(5, 20, 3)]"
    unfolding leaf_rep_def using demo_file_rep demo_file_extents by metis
  then have "leaves_hold 256 ?st (\<lambda>_. [(5, 20, 3)]) [(0, 2)]" using f(5) by (simp add: leaves_hold_def)
  then have rep: "file_rep ?st [(5, 20, 3)]"
    unfolding file_rep_def ls bs by (intro exI [of _ "\<lambda>_. [(5, 20, 3)]"]) simp
  have m: "map_block [(5, 20, 3)] k = (if 5 \<le> k \<and> k < 8 then Some (20 + (k - 5)) else None)" for k
    by (simp add: map_block_def)
  have at: "0 < v \<and> v < volblocks ?st \<and> used ?st v \<and> v \<notin> set (tree_blocks ?st)"
    if "map_block [(5, 20, 3)] k = Some v" for k v
  proof -
    have "v = 20 \<or> v = 21 \<or> v = 22" using that by (auto simp: m split: if_splits)
    then show ?thesis using assms(2,3) unfolding f(3) tb by auto
  qed
  have one: "k = k'" if "map_block [(5, 20, 3)] k = Some v" "map_block [(5, 20, 3)] k' = Some v" for k k' v
    using that by (auto simp: m split: if_splits)
  have u: "used ?st 0" "\<forall>x\<in>set (tree_blocks ?st). used ?st x" using assms(2) by (simp_all add: tb)
  have "0 < root_depth (t_root ?st)" using f(1) by simp
  then show ?thesis unfolding file_inv_def bs using wf u rep at one assms(1) by blast
qed

lemma demo_file_inv: "file_inv file_space [(5, 20, 3)]" "file_inv file_full [(5, 20, 3)]"
  unfolding file_space_def file_full_def
  by (rule demo_file_inv_of; use demo_file_wf demo_file_used in \<open>simp add: file_space_def file_full_def\<close>)+

section \<open>Reading\<close>

text \<open>C3. Reading the map of a region returns segments that describe the file from the start of the region
  on: a segment that is a hole where the file maps nothing, else the blocks of the file. The map
  is as long as the region unless the segments run out or the next leaf begins, and nothing changes.\<close>

theorem map_region_reads:
  assumes "file_inv st X" "0 < len" "len < 2 ^ 32" "start + len < 2 ^ 56" "0 < n"
  shows "\<exists>T. map_region ib start len n 0 st = Some (Inr T, st) \<and> 0 < length T \<and> length T \<le> n \<and> seg_total T \<le> len
    \<and> (\<forall>s\<in>set T. 0 < seg_count s) \<and> (\<forall>q < seg_total T. seg_at T q = map_block X (start + q))
    \<and> (length T = n \<or> seg_total T = len \<or> start + seg_total T \<in> fst ` set (leaf_seq st))"
proof -
  obtain c b leaf L w i T ss nb na w' i' k nk where at: "region_at st X start len n c b leaf L w i T ss nb na w' i' k nk"
    and mr: "map_region ib start len n 0 st = Some (Inr T, st)"
    using region_start [OF assms] by (metis (full_types))
  note seg = region_segs [OF at]
  have "nk = 2 ^ 64 - 1 \<or> nk \<in> fst ` set (leaf_seq st)" using at unfolding region_at_def by blast
  moreover have "start + seg_total T \<noteq> 2 ^ 64 - 1" using seg(5) assms(4) by simp
  ultimately have "length T = n \<or> seg_total T = len \<or> start + seg_total T \<in> fst ` set (leaf_seq st)" using seg(8) by metis
  then show ?thesis using mr seg(1,2,3,5,7) by (auto simp: raw_seg_def)
qed

theorem map_region_reads_witness:
  "\<exists>T. map_region False 5 2 3 0 file_space = Some (Inr T, file_space) \<and> seg_at T 0 = Some 20"
proof -
  obtain T where T: "map_region False 5 2 3 0 file_space = Some (Inr T, file_space)" "0 < length T" "\<forall>s\<in>set T. 0 < seg_count s"
    "\<forall>q < seg_total T. seg_at T q = map_block [(5, 20, 3)] (5 + q)"
    using map_region_reads [OF demo_file_inv(1), of 2 5 3 False] by auto
  then have "0 < seg_total T" by (cases T) auto
  then show ?thesis using T by (auto simp: map_block_def)
qed

section \<open>Writing\<close>



lemma seg_at_mapped: "seg_at T q = Some v \<Longrightarrow> \<exists>(b, m)\<in>set (mapped_segs T). b \<le> v \<and> v < b + m"
proof (induction T arbitrary: q)
  case (Cons s T)
  show ?case
  proof (cases "q < seg_count s")
    case True
    then show ?thesis using Cons.prems by (auto simp: mapped_segs_def split: if_splits)
  next
    case False
    then show ?thesis using Cons.IH [of "q - seg_count s"] Cons.prems by (auto simp: mapped_segs_def split: if_splits)
  qed
qed simp

lemma full_used: "wf_sb st \<Longrightarrow> freeblocks st = 0 \<Longrightarrow> v < volblocks st \<Longrightarrow> used st v"
  by (auto simp: wf_sb_def free_count_def)

text \<open>C33. A redirect defers the free of the blocks that the region maps before it allocates new ones. On a full
  volume it then reports \<open>ENOSPC\<close>, and the file still maps these blocks although they will be freed.\<close>

theorem redirect_enospc_frees_mapped:
  assumes "file_inv st X" "write_fits st start len n" "freeblocks st = 0"
  shows "\<exists>T st'. map_region ib start len n 2 st = Some (Inl ENOSPC, st') \<and> file_inv st' X
    \<and> map_region ib start len n 0 st = Some (Inr T, st) \<and> 0 < seg_total T
    \<and> (\<forall>q < seg_total T. \<forall>v. map_block X (start + q) = Some v \<longrightarrow>
         (\<exists>(b, m)\<in>set (if ib then t_derollup st' else t_defree st'). b \<le> v \<and> v < b + m))"
proof -
  have two: "(2 :: nat) \<noteq> 0" by simp
  obtain T r st' where w: "map_region ib start len n 0 st = Some (Inr T, st)" "map_region ib start len n 2 st = Some (r, st')"
    "t_defree st' = t_defree st @ (if \<not> ib then mapped_segs T else [])"
    "t_derollup st' = t_derollup st @ (if ib then mapped_segs T else [])"
    "\<forall>q < seg_total T. seg_at T q = map_block X (start + q)" "0 < seg_total T"
    "case r of Inl e \<Rightarrow> e = ENOSPC \<and> file_inv st' X | Inr S \<Rightarrow> \<exists>X'. region_written 2 st X start (seg_total T) S st' X'"
    using map_region_write [OF assms(1) two assms(2), of ib] by auto
  have "r = Inl ENOSPC \<and> file_inv st' X"
  proof (cases r)
    case (Inr S)
    then obtain v where "\<not> used st v" "v < volblocks st" using w(6,7) unfolding region_written_def by auto
    then show ?thesis using full_used assms(1,3) by (auto simp: file_inv_def)
  qed (use w(7) in simp)
  moreover have "\<exists>(b, m)\<in>set (if ib then t_derollup st' else t_defree st'). b \<le> v \<and> v < b + m"
    if "q < seg_total T" "map_block X (start + q) = Some v" for q v
    using seg_at_mapped [of T q v] w(3-5) that by (cases ib) auto
  ultimately show ?thesis using w(1,2,6) by blast
qed

theorem redirect_enospc_frees_mapped_witness:
  "\<exists>st'. map_region False 5 1 1 2 file_full = Some (Inl ENOSPC, st') \<and> file_inv st' [(5, 20, 3)]
    \<and> (\<exists>(b, m)\<in>set (t_defree st'). b \<le> 20 \<and> 20 < b + m)"
proof -
  have "write_fits file_full 5 1 1"
    by (simp add: write_fits_def leaf_for_def leaf_seq_def file_full_def demo_file_def node_of_def leaf_of_def
        demo_file_leaf_def dleaf_free_def sub32_def)
  moreover have "freeblocks file_full = 0" by (simp add: file_full_def demo_file_def)
  moreover have "map_block [(5, 20, 3)] 5 = Some 20" by (simp add: map_block_def)
  ultimately show ?thesis
    using redirect_enospc_frees_mapped [OF demo_file_inv(2), of 5 1 1 False] by fastforce
qed

end
